(* ===== verification/Prelude.thy ===== *)
theory Prelude
  imports Main "HOL-Library.Word" "HOL-Library.Monad_Syntax" "HOL-Library.Sublist"
begin

text \<open>
  Shared vocabulary of the development: machine types, the reading of assertions and of
  out-of-range accesses, the error numbers the code sets, and the generic lemmas on lists,
  options and bytes that the component theories use.

  An operation that can hit a failing \<^verbatim>\<open>zmq_assert\<close>, a null dereference or an
  out-of-range access returns an option: \<open>None\<close> is the abort (or the undefined behaviour),
  so that "the operation returns" is part of what is proved.
\<close>

named_theorems table_simps "reading and writing the child tables of the tries"
named_theorems pipe_simps "field equations of the pipe operations"

type_synonym byte = "8 word"
type_synonym bytes = "8 word list"
type_synonym u32 = "32 word"
type_synonym u64 = "64 word"

text \<open>\<^verbatim>\<open>zmq_assert\<close> aborts the process when its condition is false.\<close>

definition zmq_assert :: "bool \<Rightarrow> unit option" where
  "zmq_assert b = (if b then Some () else None)"

lemma zmq_assert_simps [simp]:
  "zmq_assert True = Some ()"
  "zmq_assert False = None"
  "zmq_assert b = Some u \<longleftrightarrow> b"
  "zmq_assert b = None \<longleftrightarrow> \<not> b"
  by (auto simp: zmq_assert_def)

text \<open>The error numbers the modelled code sets or tests; any other one is \<open>EOther\<close>.\<close>

datatype errno =
    EOK | EAGAIN | EINVAL | EFAULT | ENOMEM | EMFILE | EACCES | EINTR | ENOENT | ENOTSUP | EPROTO
  | EPROTONOSUPPORT | EADDRINUSE | ECONNREFUSED | ENOTSOCK | EMSGSIZE | ETIMEDOUT | EHOSTUNREACH
  | EFSM | ENOCOMPATPROTO | ETERM | EMTHREAD | EOther nat

text \<open>\<^verbatim>\<open>std::to_string\<close> of an unsigned value, and the string a C function sees.\<close>

fun to_string :: "nat \<Rightarrow> string" where
  "to_string n = (if n < 10 then [char_of (48 + n)] else to_string (n div 10) @ [char_of (48 + n mod 10)])"

declare to_string.simps [simp del]

definition c_str :: "string \<Rightarrow> string" where
  "c_str s = takeWhile (\<lambda>c. c \<noteq> CHR 0x00) s"

text \<open>Checked array access: reading or writing outside the array is undefined.\<close>

definition tab_get :: "'a list \<Rightarrow> nat \<Rightarrow> 'a option" where
  "tab_get xs i = (if i < length xs then Some (xs ! i) else None)"

definition tab_set :: "'a list \<Rightarrow> nat \<Rightarrow> 'a \<Rightarrow> 'a list option" where
  "tab_set xs i v = (if i < length xs then Some (xs[i := v]) else None)"

lemma tab_get_in [simp]: "i < length xs \<Longrightarrow> tab_get xs i = Some (xs ! i)"
  by (simp add: tab_get_def)

lemma tab_set_in [simp]: "i < length xs \<Longrightarrow> tab_set xs i v = Some (xs[i := v])"
  by (simp add: tab_set_def)

lemma tab_get_Some_iff: "tab_get xs i = Some v \<longleftrightarrow> i < length xs \<and> v = xs ! i"
  by (auto simp: tab_get_def)

lemma tab_set_Some_iff: "tab_set xs i v = Some ys \<longleftrightarrow> i < length xs \<and> ys = xs[i := v]"
  by (auto simp: tab_set_def)

subsection \<open>Bytes\<close>

lemma unat_byte_less [simp]: "unat (c :: byte) < 256"
  using unsigned_less [of c, where 'a = nat] by simp

lemma unat_byte_le: "unat (c :: byte) \<le> 255"
  using unat_byte_less [of c] by linarith

lemma unat_of_nat_byte: "n < 256 \<Longrightarrow> unat (of_nat n :: byte) = n"
  by (simp add: unat_of_nat)

lemma unat_add_of_nat_byte:
  "unat (c :: byte) + n < 256 \<Longrightarrow> unat (c + of_nat n) = unat c + n"
  by (simp add: unat_word_ariths unat_of_nat)

lemma byte_eq_add_diff:
  "unat (m :: byte) \<le> unat c \<Longrightarrow> m + of_nat (unat c - unat m) = c"
  by (simp add: of_nat_diff)

subsection \<open>Counting the live entries of a pointer table\<close>

definition live_count :: "'a option list \<Rightarrow> nat" where
  "live_count tab = length (filter (\<lambda>p. p \<noteq> None) tab)"

lemma live_count_simps [simp]:
  "live_count [] = 0"
  "live_count (p # tab) = (if p = None then 0 else 1) + live_count tab"
  "live_count (xs @ ys) = live_count xs + live_count ys"
  "live_count (replicate n None) = 0"
  by (auto simp: live_count_def filter_replicate)

lemma live_count_le: "live_count tab \<le> length tab"
  by (simp add: live_count_def)

lemma live_count_update:
  "i < length tab \<Longrightarrow>
   live_count (tab[i := p]) + (if tab ! i = None then 0 else 1)
     = live_count tab + (if p = None then 0 else 1)"
proof (induction tab arbitrary: i)
  case Nil
  then show ?case by simp
next
  case (Cons q tab)
  then show ?case by (cases i) auto
qed

lemma live_count_set_Some:
  "i < length tab \<Longrightarrow> tab ! i \<noteq> None \<Longrightarrow> live_count (tab[i := Some x]) = live_count tab"
  using live_count_update [of i tab "Some x"] by (simp split: if_splits)

lemma live_count_fill:
  "i < length tab \<Longrightarrow> tab ! i = None \<Longrightarrow> live_count (tab[i := Some x]) = Suc (live_count tab)"
  using live_count_update [of i tab "Some x"] by simp

lemma live_count_clear:
  "i < length tab \<Longrightarrow> tab ! i \<noteq> None \<Longrightarrow> Suc (live_count (tab[i := None])) = live_count tab"
  using live_count_update [of i tab None] by (simp split: if_splits)

lemma live_count_eq_0: "live_count tab = 0 \<longleftrightarrow> (\<forall>i < length tab. tab ! i = None)"
  by (simp add: live_count_def filter_empty_conv all_set_conv_all_nth)

lemma live_count_pos: "i < length tab \<Longrightarrow> tab ! i \<noteq> None \<Longrightarrow> 0 < live_count tab"
  using live_count_eq_0 [of tab] by (metis neq0_conv)

lemma live_count_two:
  assumes "i < j" "j < length tab" "tab ! i \<noteq> None" "tab ! j \<noteq> None"
  shows "2 \<le> live_count tab"
proof -
  have "tab = take j tab @ drop j tab" by simp
  then have "live_count tab = live_count (take j tab) + live_count (drop j tab)"
    by (metis live_count_simps(3))
  moreover have "0 < live_count (take j tab)"
    using assms by (intro live_count_pos [of i]) auto
  moreover have "0 < live_count (drop j tab)"
    using assms by (intro live_count_pos [of 0]) auto
  ultimately show ?thesis by simp
qed

lemma live_count_one:
  assumes "live_count tab < 2" "i < length tab" "j < length tab" "tab ! i \<noteq> None" "tab ! j \<noteq> None"
  shows "i = j"
  using assms live_count_two [of i j tab] live_count_two [of j i tab] by linarith

lemma live_count_drop_take:
  assumes "\<forall>i < length tab. tab ! i \<noteq> None \<longrightarrow> a \<le> i \<and> i < b"
  shows "live_count (take (b - a) (drop a tab)) = live_count tab"
proof -
  have "live_count (take a tab) = 0"
    using assms by (auto simp: live_count_eq_0)
  moreover have "tab ! j = None" if "b \<le> j" "j < length tab" for j
    using assms that by (meson leD)
  then have "live_count (drop (b - a) (drop a tab)) = 0"
    by (auto simp: live_count_eq_0)
  moreover have "tab = take a tab @ take (b - a) (drop a tab) @ drop (b - a) (drop a tab)"
    by (metis append_take_drop_id)
  ultimately show ?thesis by (metis add_0 add_0_right live_count_simps(3))
qed

lemma replicate_update_last: "(replicate (Suc k) x)[k := y] = replicate k x @ [y]"
  by (induction k) auto

subsection \<open>Searching with a loop that breaks at the first hit\<close>

lemma find_upt_Some:
  assumes "List.find P [a..<b] = Some i"
  shows "a \<le> i \<and> i < b \<and> P i \<and> (\<forall>j. a \<le> j \<and> j < i \<longrightarrow> \<not> P j)"
proof -
  from assms obtain k where k: "k < b - a" "P (a + k)" "i = a + k"
    "\<forall>j < k. \<not> P ([a..<b] ! j)"
    by (auto simp: find_Some_iff)
  then have "\<not> P j" if "a \<le> j" "j < i" for j
    using that spec [OF k(4), of "j - a"] by simp
  with k show ?thesis by auto
qed

lemma find_upt_exists:
  assumes "a \<le> i" "i < b" "P i"
  shows "\<exists>k. List.find P [a..<b] = Some k"
  using assms by (cases "List.find P [a..<b]") (auto simp: find_None_iff)

lemma ex_prefix_Cons:
  "(\<exists>p. prefix p (c # cs) \<and> P p) \<longleftrightarrow> P [] \<or> (\<exists>p. prefix p cs \<and> P (c # p))"
  by (auto simp: prefix_Cons)

lemma those_map_Some: "(\<And>x. x \<in> set xs \<Longrightarrow> f x = Some (g x)) \<Longrightarrow> those (map f xs) = Some (map g xs)"
  by (induction xs) auto

lemma distinct_concat_map:
  assumes "distinct xs" "\<And>x. x \<in> set xs \<Longrightarrow> distinct (h x)"
    and "\<And>x y. x \<in> set xs \<Longrightarrow> y \<in> set xs \<Longrightarrow> x \<noteq> y \<Longrightarrow> set (h x) \<inter> set (h y) = {}"
  shows "distinct (concat (map h xs))"
  using assms
proof (induction xs)
  case (Cons x xs)
  have "set (h x) \<inter> set (h y) = {}" if "y \<in> set xs" for y
    using Cons.prems that by (metis distinct.simps(2) list.set_intros)
  then have "set (h x) \<inter> (\<Union>y \<in> set xs. set (h y)) = {}" by blast
  with Cons show ?case by auto
qed simp

end
