(* ===== verification/Ctable.thy ===== *)
theory Ctable
  imports Prelude
begin

text \<open>
  The child table of a trie node: the fields \<^verbatim>\<open>_min\<close>, \<^verbatim>\<open>_count\<close>,
  \<^verbatim>\<open>_live_nodes\<close> and the union \<^verbatim>\<open>_next\<close> that
  \<^verbatim>\<open>trie_t\<close> (trie.hpp) and \<^verbatim>\<open>generic_mtrie_t\<close> (generic_mtrie.hpp) both have,
  with the code that both repeat for extending the table by a character and for reading
  and writing one slot. What differs between the two classes (how a pruned table is
  compacted) is in the theories \<open>Trie\<close> and \<open>Mtrie\<close>.

  The union is a datatype: with \<^verbatim>\<open>_count == 1\<close> the code uses
  \<^verbatim>\<open>_next.node\<close>, with more it uses \<^verbatim>\<open>_next.table\<close>. Reading the member
  that was not written is \<open>None\<close>. The two counters are \<^verbatim>\<open>unsigned short\<close> in the
  code; \<open>ct_wf_bounds\<close> shows that they never exceed 256, so \<open>nat\<close> loses no wrap-around.
\<close>

datatype 'n next_t = NextNode "'n option" | NextTable "'n option list"

datatype 'n ctable =
  CT (ct_min: byte) (ct_count: nat) (ct_live: nat) (ct_next: "'n next_t")

fun get_node :: "'n next_t \<Rightarrow> 'n option option" where
  "get_node (NextNode p) = Some p"
| "get_node (NextTable _) = None"

fun get_table :: "'n next_t \<Rightarrow> 'n option list option" where
  "get_table (NextTable tab) = Some tab"
| "get_table (NextNode _) = None"

text \<open>The constructors set the counters to zero and leave the union uninitialised.\<close>

definition ct_empty :: "'n ctable" where
  "ct_empty = CT 0 0 0 (NextNode None)"

text \<open>The negation of \<^verbatim>\<open>c < _min || c >= _min + _count\<close>, computed in \<^verbatim>\<open>int\<close>.\<close>

fun in_range :: "byte \<Rightarrow> 'n ctable \<Rightarrow> bool" where
  "in_range c (CT mn ct lv nx) \<longleftrightarrow> unat mn \<le> unat c \<and> unat c < unat mn + ct"

fun ct_slot :: "byte \<Rightarrow> 'n ctable \<Rightarrow> 'n option option" where
  "ct_slot c (CT mn ct lv nx) =
     (if ct = 1 then get_node nx
      else get_table nx \<bind> (\<lambda>tab. tab_get tab (unat c - unat mn)))"

fun ct_store :: "byte \<Rightarrow> 'n option \<Rightarrow> 'n ctable \<Rightarrow> 'n ctable option" where
  "ct_store c p (CT mn ct lv nx) =
     (if ct = 1 then Some (CT mn ct lv (NextNode p))
      else do {
        tab \<leftarrow> get_table nx;
        tab' \<leftarrow> tab_set tab (unat c - unat mn) p;
        Some (CT mn ct lv (NextTable tab'))
      })"

text \<open>A child is smaller than its table, for the recursions over the nodes.\<close>

lemma size_tab_get [termination_simp]:
  "tab_get tab i = Some (Some n) \<Longrightarrow> size n < Suc (size_list (size_option size) tab)"
proof -
  assume "tab_get tab i = Some (Some n)"
  then have "Some n \<in> set tab" by (metis nth_mem tab_get_Some_iff)
  then have "size_option size (Some n) \<le> size_list (size_option size) tab"
    by (rule size_list_estimation') simp
  then show ?thesis by simp
qed

text \<open>Extending the table so that the character has a slot.\<close>

fun ct_extend :: "byte \<Rightarrow> 'n ctable \<Rightarrow> 'n ctable option" where
  "ct_extend c (CT mn ct lv nx) =
     (if unat c < unat mn \<or> unat c \<ge> unat mn + ct then
        (if ct = 0 then Some (CT c 1 lv (NextNode None))
         else if ct = 1 then do {
           oldp \<leftarrow> get_node nx;
           let ct' = (if mn < c then unat c - unat mn else unat mn - unat c) + 1;
               mn' = min mn c in do {
           tab \<leftarrow> tab_set (replicate ct' None) (unat mn - unat mn') oldp;
           Some (CT mn' ct' lv (NextTable tab))
           }}
         else if mn < c then do {
           tab \<leftarrow> get_table nx;
           let ct' = unat c - unat mn + 1 in
           Some (CT mn ct' lv (NextTable (tab @ replicate (ct' - ct) None)))
           }
         else do {
           tab \<leftarrow> get_table nx;
           let ct' = (unat mn + ct) - unat c in
           Some (CT c ct' lv (NextTable (replicate (unat mn - unat c) None @ tab)))
           })
      else Some (CT mn ct lv nx))"

text \<open>The child reached by a character, if any: what the table denotes.\<close>

fun child :: "'n ctable \<Rightarrow> byte \<Rightarrow> 'n option" where
  "child (CT mn ct lv nx) c =
     (if unat mn \<le> unat c \<and> unat c < unat mn + ct then
        (case nx of NextNode p \<Rightarrow> p
         | NextTable tab \<Rightarrow> (if unat c - unat mn < length tab then tab ! (unat c - unat mn) else None))
      else None)"

text \<open>
  Shape of a table between two operations: no children, or exactly one in the compact
  representation, or a table with at least two live entries whose two ends are live.
\<close>

fun ct_wf :: "'n ctable \<Rightarrow> bool" where
  "ct_wf (CT mn ct lv nx) \<longleftrightarrow>
     (if ct = 0 then lv = 0
      else if ct = 1 then lv = 1 \<and> (case nx of NextNode (Some _) \<Rightarrow> True | _ \<Rightarrow> False)
      else (case nx of NextNode _ \<Rightarrow> False
            | NextTable tab \<Rightarrow> length tab = ct \<and> unat mn + ct \<le> 256 \<and> lv = live_count tab
                \<and> tab ! 0 \<noteq> None \<and> tab ! (ct - 1) \<noteq> None))"

lemma ct_empty_simps [simp]:
  "ct_wf ct_empty" "child ct_empty c = None" "ct_live ct_empty = 0" "ct_count ct_empty = 0"
  by (auto simp: ct_empty_def)

lemma ct_wf_cases [consumes 1, case_names empty single table]:
  assumes "ct_wf t"
  obtains (empty) mn nx where "t = CT mn 0 0 nx"
  | (single) mn n where "t = CT mn 1 1 (NextNode (Some n))"
  | (table) mn tab where "t = CT mn (length tab) (live_count tab) (NextTable tab)"
      "2 \<le> length tab" "unat mn + length tab \<le> 256"
      "tab ! 0 \<noteq> None" "tab ! (length tab - 1) \<noteq> None" "2 \<le> live_count tab"
proof -
  obtain mn ct lv nx where t: "t = CT mn ct lv nx" by (cases t)
  consider "ct = 0" | "ct = 1" | "2 \<le> ct" by linarith
  then show thesis
  proof cases
    case 3
    with assms t obtain tab where tab: "nx = NextTable tab" "length tab = ct"
      "unat mn + ct \<le> 256" "lv = live_count tab" "tab ! 0 \<noteq> None" "tab ! (ct - 1) \<noteq> None"
      by (auto split: next_t.splits)
    moreover have "2 \<le> live_count tab"
      using live_count_two [of 0 "ct - 1" tab] tab 3 by auto
    ultimately show thesis using table [of mn tab] t 3 by auto
  qed (use assms t empty single in \<open>auto split: next_t.splits option.splits\<close>)
qed

lemma ct_wf_bounds: "ct_wf t \<Longrightarrow> unat (ct_min t) + ct_count t \<le> 256 \<and> ct_live t \<le> ct_count t"
  by (cases t rule: ct_wf_cases)
    (auto simp: live_count_le Suc_le_eq intro: less_imp_le)

lemma ct_wf_live_iff: "ct_wf t \<Longrightarrow> ct_live t = 0 \<longleftrightarrow> ct_count t = 0"
  by (cases t rule: ct_wf_cases) auto

lemma child_in_range: "child t c = Some n \<Longrightarrow> in_range c t"
  by (cases t) (auto split: if_splits)

lemma ct_live_0_child:
  assumes "ct_wf t"
  shows "ct_live t = 0 \<longleftrightarrow> (\<forall>c. child t c = None)"
  using assms
proof (cases t rule: ct_wf_cases)
  case (single mn n)
  then have "child t mn = Some n" by simp
  with single show ?thesis by (metis ctable.sel(3) option.distinct(1) zero_neq_one)
next
  case (table mn tab)
  then have "0 < length tab" by linarith
  with table have "child t mn = tab ! 0" by simp
  with table show ?thesis by (metis ctable.sel(3) not_numeral_le_zero)
qed auto

lemma child_set_next: "child t c = Some n \<Longrightarrow> n \<in> set_next_t (ct_next t)"
proof (cases t)
  case (CT mn ct lv nx)
  assume "child t c = Some n"
  with CT show ?thesis
    by (cases nx) (auto split: if_splits intro: nth_mem [of "unat c - unat mn"] dest: sym)
qed

text \<open>Reading a slot gives the child.\<close>

lemma ct_slot_child [table_simps]:
  "ct_wf t \<Longrightarrow> in_range c t \<Longrightarrow> ct_slot c t = Some (child t c)"
  by (cases t rule: ct_wf_cases) auto

lemma child_out_of_range [simp]: "\<not> in_range c t \<Longrightarrow> child t c = None"
  by (cases t) auto

text \<open>Replacing a child that is there.\<close>

lemma ct_store_child:
  assumes "ct_wf t" "child t c = Some n"
  shows "\<exists>t'. ct_store c (Some n') t = Some t' \<and> ct_wf t' \<and> child t' = (child t)(c := Some n')
     \<and> ct_live t' = ct_live t"
  using assms(1)
proof (cases t rule: ct_wf_cases)
  case (table mn tab)
  define i where "i = unat c - unat mn"
  have i: "i < length tab" "tab ! i = Some n" "unat mn \<le> unat c"
    using assms(2) table by (auto simp: i_def split: if_splits)
  have eq: "unat c' - unat mn = i \<longleftrightarrow> c' = c" if "unat mn \<le> unat c'" for c'
    using that i by (auto simp: i_def word_unat_eq_iff)
  let ?t' = "CT mn (length tab) (live_count tab) (NextTable (tab[i := Some n']))"
  have "child ?t' c = Some n'"
    using i table by (simp add: i_def split: if_splits)
  moreover have "child ?t' c' = child t c'" if "c' \<noteq> c" for c'
    using eq [of c'] that table(1) by (cases "unat mn \<le> unat c'") auto
  ultimately have "child ?t' c' = ((child t)(c := Some n')) c'" for c'
    by (simp del: child.simps)
  then have "child (CT mn (length tab) (live_count tab) (NextTable (tab[i := Some n'])))
      = (child t)(c := Some n')"
    by (simp add: fun_eq_iff)
  moreover have "ct_wf (CT mn (length tab) (live_count tab) (NextTable (tab[i := Some n'])))"
    using table i by (auto simp: nth_list_update live_count_set_Some)
  ultimately show ?thesis using table i by (auto simp: i_def)
qed (use assms(2) in \<open>auto simp: fun_eq_iff word_unat_eq_iff split: if_splits\<close>)

text \<open>
  Making room for a character and creating the missing child: the two steps every
  insertion does before it descends.
\<close>

definition ct_ensure :: "'n \<Rightarrow> byte \<Rightarrow> 'n ctable \<Rightarrow> ('n ctable \<times> 'n) option" where
  "ct_ensure new c t = do {
     t1 \<leftarrow> ct_extend c t;
     p \<leftarrow> ct_slot c t1;
     (case p of
        Some n \<Rightarrow> Some (t1, n)
      | None \<Rightarrow> do {
          t2 \<leftarrow> ct_store c (Some new) (CT (ct_min t1) (ct_count t1) (ct_live t1 + 1) (ct_next t1));
          Some (t2, new)
        })
   }"

lemma child_table [table_simps]:
  "child (CT mn (length tab) lv (NextTable tab)) c =
     (if unat mn \<le> unat c \<and> unat c < unat mn + length tab then tab ! (unat c - unat mn) else None)"
  by auto

lemma ct_ensure_single:
  assumes "c \<noteq> mn"
  shows "\<exists>t'. ct_ensure new c (CT mn 1 1 (NextNode (Some n))) = Some (t', new) \<and> ct_wf t'
    \<and> ct_live t' = 2 \<and> child t' = (child (CT mn 1 1 (NextNode (Some n))))(c := Some new)"
proof -
  define lo hi where "lo = min mn c" and "hi = max mn c"
  define k where "k = unat hi - unat lo + 1"
  define tab where "tab = (replicate k None)[unat mn - unat lo := Some n, unat c - unat lo := Some new]"
  have lohi: "unat lo < unat hi" "unat hi < 256"
    using assms by (auto simp: lo_def hi_def min_def max_def word_le_nat_alt word_unat_eq_iff)
  have k: "(if mn < c then unat c - unat mn else unat mn - unat c) + 1 = k"
    using assms by (auto simp: k_def lo_def hi_def min_def max_def)
  have len: "length tab = k" by (simp add: tab_def)
  have kb: "2 \<le> k" "unat lo + k \<le> 256"
    using lohi unfolding k_def by linarith+
  have pos: "unat mn - unat lo < k" "unat c - unat lo < k" "unat mn - unat lo \<noteq> unat c - unat lo"
    "unat lo \<le> unat mn" "unat lo \<le> unat c"
    using assms lohi
    by (auto simp: k_def lo_def hi_def min_def max_def word_unat_eq_iff word_le_nat_alt)
  have ends: "tab ! 0 \<noteq> None" "tab ! (k - 1) \<noteq> None"
    using pos len by (auto simp: tab_def nth_list_update k_def lo_def hi_def min_def max_def
        simp del: replicate_Suc)
  have live: "live_count tab = 2"
    using pos by (simp add: tab_def live_count_fill)
  let ?t' = "CT lo k 2 (NextTable tab)"
  have "unat c < unat mn \<or> unat c \<ge> unat mn + 1"
    using assms by (auto simp: word_unat_eq_iff)
  then have ext: "ct_extend c (CT mn 1 1 (NextNode (Some n)))
      = Some (CT lo k 1 (NextTable ((replicate k None)[unat mn - unat lo := Some n])))"
    unfolding ct_extend.simps Let_def k lo_def [symmetric] using pos by simp
  have run: "ct_ensure new c (CT mn 1 1 (NextNode (Some n))) = Some (?t', new)"
    unfolding ct_ensure_def ext using pos kb by (simp add: tab_def)
  have "child ?t' c' = ((child (CT mn 1 1 (NextNode (Some n))))(c := Some new)) c'" for c'
  proof (cases "c' = c \<or> c' = mn")
    case True
    then show ?thesis using pos len assms by (auto simp: tab_def nth_list_update)
  next
    case False
    then have "unat lo \<le> unat c' \<Longrightarrow> unat c' - unat lo \<noteq> unat mn - unat lo \<and> unat c' - unat lo \<noteq> unat c - unat lo"
      using pos by (auto simp: word_unat_eq_iff)
    with False show ?thesis using pos len by (auto simp: tab_def word_unat_eq_iff)
  qed
  then show ?thesis using run len kb ends live by (intro exI [of _ ?t']) auto
qed

lemma ct_ensure_inside:
  assumes "ct_wf t" "in_range c t" "ct_count t \<noteq> 1" "child t c = None"
  shows "\<exists>t'. ct_ensure new c t = Some (t', new) \<and> ct_wf t'
    \<and> ct_live t' = Suc (ct_live t) \<and> child t' = (child t)(c := Some new)"
  using assms(1)
proof (cases t rule: ct_wf_cases)
  case (table mn tab)
  define i where "i = unat c - unat mn"
  have i: "i < length tab" "tab ! i = None" "unat mn \<le> unat c" "unat c < unat mn + length tab"
    using assms table by (auto simp: i_def split: if_splits)
  have i0: "i \<noteq> 0" "i \<noteq> length tab - 1"
    using i table by metis+
  let ?t' = "CT mn (length tab) (Suc (live_count tab)) (NextTable (tab[i := Some new]))"
  have "ct_ensure new c t = Some (?t', new)"
    using i table by (simp add: ct_ensure_def i_def)
  moreover have "ct_wf ?t'"
    using table i i0 by (auto simp: live_count_fill nth_list_update)
  moreover have "child ?t' c' = ((child t)(c := Some new)) c'" for c'
  proof (cases "c' = c")
    case True
    then show ?thesis using i by (simp add: i_def)
  next
    case False
    then have "unat mn \<le> unat c' \<Longrightarrow> unat c' - unat mn \<noteq> i"
      using i by (auto simp: i_def word_unat_eq_iff)
    with False table(1) show ?thesis by auto
  qed
  ultimately show ?thesis using table by (intro exI [of _ ?t']) auto
qed (use assms in auto)

lemma ct_ensure_above:
  assumes "2 \<le> length tab" "unat mn + length tab \<le> unat c" "tab ! 0 \<noteq> None"
  defines "t \<equiv> CT mn (length tab) (live_count tab) (NextTable tab)"
  shows "\<exists>t'. ct_ensure new c t = Some (t', new) \<and> ct_wf t'
    \<and> ct_live t' = Suc (ct_live t) \<and> child t' = (child t)(c := Some new)"
proof -
  define k where "k = unat c - unat mn - length tab"
  let ?tab = "tab @ replicate k None @ [Some new]"
  let ?t' = "CT mn (length ?tab) (Suc (live_count tab)) (NextTable ?tab)"
  have len: "unat c = unat mn + length tab + k" using assms(2) by (simp add: k_def)
  have "mn < c" using assms(1,2) by (simp add: word_less_nat_alt)
  moreover have "(tab @ replicate (Suc k) None)[length tab + k := Some new] = ?tab"
    by (simp add: list_update_append replicate_update_last del: replicate_Suc)
  ultimately have "ct_ensure new c t = Some (?t', new)"
    using assms(1) len by (auto simp: ct_ensure_def t_def Let_def nth_append simp del: replicate_Suc)
  moreover have "ct_wf ?t'"
    using assms(1,3) len unat_byte_less [of c] by (auto simp: nth_append)
  moreover have "child ?t' c' = ((child t)(c := Some new)) c'" for c'
  proof -
    have "c' = c \<longleftrightarrow> unat c' = unat mn + length tab + k" by (simp add: word_unat_eq_iff len)
    then show ?thesis by (auto simp: t_def nth_append)
  qed
  ultimately show ?thesis
    by (intro exI [of _ ?t']) (simp add: t_def fun_eq_iff del: child.simps ct_wf.simps)
qed

lemma ct_ensure_below:
  assumes "2 \<le> length tab" "unat c < unat mn" "unat mn + length tab \<le> 256" "tab ! (length tab - 1) \<noteq> None"
  defines "t \<equiv> CT mn (length tab) (live_count tab) (NextTable tab)"
  shows "\<exists>t'. ct_ensure new c t = Some (t', new) \<and> ct_wf t'
    \<and> ct_live t' = Suc (ct_live t) \<and> child t' = (child t)(c := Some new)"
proof -
  define k where "k = unat mn - unat c - 1"
  let ?tab = "Some new # replicate k None @ tab"
  let ?t' = "CT c (length ?tab) (Suc (live_count tab)) (NextTable ?tab)"
  have len: "unat mn = Suc (unat c + k)" using assms(2) by (simp add: k_def)
  then have "\<not> mn < c" by (simp add: word_less_nat_alt)
  moreover have "tab \<noteq> []" using assms(1) by auto
  ultimately have "ct_ensure new c t = Some (?t', new)"
    using assms(1) len by (simp add: ct_ensure_def t_def Let_def)
  moreover have "ct_wf ?t'"
    using assms(1,3,4) len by (auto simp: nth_append nth_Cons')
  moreover have "child ?t' c' = ((child t)(c := Some new)) c'" for c'
  proof -
    have "c' = c \<longleftrightarrow> unat c' = unat c" by (simp add: word_unat_eq_iff)
    then show ?thesis using len by (auto simp: t_def nth_append nth_Cons' Suc_diff_le)
  qed
  ultimately show ?thesis
    by (intro exI [of _ ?t']) (simp add: t_def fun_eq_iff del: child.simps ct_wf.simps)
qed

lemma ct_ensure_spec:
  assumes "ct_wf t"
  shows "\<exists>t'. ct_ensure new c t = Some (t', case_option new id (child t c)) \<and> ct_wf t'
    \<and> ct_live t' = ct_live t + (if child t c = None then 1 else 0)
    \<and> child t' = (child t)(c := Some (case_option new id (child t c)))"
proof (cases "child t c")
  case (Some n)
  then have "ct_extend c t = Some t" "ct_slot c t = Some (Some n)"
    using child_in_range [OF Some] ct_slot_child [OF assms] by (cases t; auto)+
  with Some assms show ?thesis by (auto simp: ct_ensure_def fun_upd_idem)
next
  case None
  from assms show ?thesis
  proof (cases t rule: ct_wf_cases)
    case empty
    then show ?thesis
      by (auto simp: ct_ensure_def fun_eq_iff word_unat_eq_iff)
  next
    case (single mn n)
    with None ct_ensure_single [of c mn new n] show ?thesis by fastforce
  next
    case (table mn tab)
    consider "in_range c t" | "unat mn + length tab \<le> unat c" | "unat c < unat mn"
      using table(1) by fastforce
    then show ?thesis
      using None table assms ct_ensure_inside [of t c new] ct_ensure_above [of tab mn c new]
        ct_ensure_below [of tab c mn new]
      by cases auto
  qed
qed

subsection \<open>Compacting a table after a child was removed\<close>

lemma child_clear:
  assumes "unat mn \<le> unat c" "unat c - unat mn < length tab"
  shows "child (CT mn (length tab) lv' (NextTable (tab[unat c - unat mn := None])))
    = (child (CT mn (length tab) lv (NextTable tab)))(c := None)"
proof
  fix c'
  have "unat mn \<le> unat c' \<Longrightarrow> unat c' - unat mn = unat c - unat mn \<longleftrightarrow> c' = c"
    using assms by (auto simp: word_unat_eq_iff)
  then show "child (CT mn (length tab) lv' (NextTable (tab[unat c - unat mn := None]))) c'
    = ((child (CT mn (length tab) lv (NextTable tab)))(c := None)) c'"
    by (auto simp: nth_list_update)
qed

text \<open>Cutting the table to a window that holds all its live entries changes no child.\<close>

lemma child_window:
  assumes "unat mn + length tab \<le> 256" "a < b" "b \<le> length tab"
    and live: "\<forall>i < length tab. tab ! i \<noteq> None \<longrightarrow> a \<le> i \<and> i < b"
  shows "child (CT (mn + of_nat a) (b - a) lv' (NextTable (take (b - a) (drop a tab))))
    = child (CT mn (length tab) lv (NextTable tab))"
proof
  fix c
  have mn': "unat (mn + of_nat a :: byte) = unat mn + a"
    using assms by (intro unat_add_of_nat_byte) simp
  show "child (CT (mn + of_nat a) (b - a) lv' (NextTable (take (b - a) (drop a tab)))) c
    = child (CT mn (length tab) lv (NextTable tab)) c"
  proof (cases "unat mn \<le> unat c \<and> unat c < unat mn + length tab")
    case True
    define i where "i = unat c - unat mn"
    have i: "unat c = unat mn + i" "i < length tab" using True by (auto simp: i_def)
    show ?thesis
    proof (cases "tab ! i")
      case None
      then show ?thesis using assms(2,3) i mn' by auto
    next
      case (Some n)
      then have "a \<le> i" "i < b" using live i by auto
      then show ?thesis using assms(2,3) i mn' by auto
    qed
  next
    case False
    then show ?thesis using assms mn' by auto
  qed
qed

lemma child_window_single:
  assumes "unat mn + length tab \<le> 256" "a < length tab"
    and live: "\<forall>i < length tab. tab ! i \<noteq> None \<longrightarrow> i = a"
  shows "child (CT (mn + of_nat a) 1 lv' (NextNode (tab ! a)))
    = child (CT mn (length tab) lv (NextTable tab))"
proof -
  have mn': "unat (mn + of_nat a :: byte) = unat mn + a"
    using assms by (intro unat_add_of_nat_byte) simp
  have "take 1 (drop a tab) = [tab ! a]"
    using assms(2) by (simp add: Cons_nth_drop_Suc [symmetric])
  then have "child (CT (mn + of_nat a) 1 lv' (NextNode (tab ! a)))
    = child (CT (mn + of_nat a) (Suc a - a) lv' (NextTable (take (Suc a - a) (drop a tab))))"
    by (auto simp: fun_eq_iff mn')
  also have "\<dots> = child (CT mn (length tab) lv (NextTable tab))"
    using assms by (intro child_window) auto
  finally show ?thesis .
qed

lemma ct_wf_window:
  assumes "unat mn + length tab \<le> 256" "a < b" "b \<le> length tab" "tab ! a \<noteq> None" "tab ! (b - 1) \<noteq> None"
    and "Suc a < b"
    and live: "\<forall>i < length tab. tab ! i \<noteq> None \<longrightarrow> a \<le> i \<and> i < b"
  shows "ct_wf (CT (mn + of_nat a) (b - a) (live_count tab) (NextTable (take (b - a) (drop a tab))))"
proof -
  have "unat (mn + of_nat a :: byte) = unat mn + a"
    using assms by (intro unat_add_of_nat_byte) simp
  then show ?thesis using assms live_count_drop_take [OF live] by auto
qed

text \<open>
  The three ways the code compacts a table after clearing one of its entries: one live entry is
  left, the left end was cleared, the right end was cleared. The searches are the loops of the
  code, which break at the first live entry.
\<close>

lemma compact_one:
  assumes "unat mn + length tab \<le> 256" "live_count tab = 1" "a < length tab" "tab ! a \<noteq> None"
  shows "ct_wf (CT (mn + of_nat a) 1 1 (NextNode (tab ! a)))"
    and "child (CT (mn + of_nat a) 1 1 (NextNode (tab ! a))) = child (CT mn (length tab) lv (NextTable tab))"
proof -
  have "\<forall>j < length tab. tab ! j \<noteq> None \<longrightarrow> j = a"
    using live_count_one [of tab _ a] assms by auto
  then show "child (CT (mn + of_nat a) 1 1 (NextNode (tab ! a))) = child (CT mn (length tab) lv (NextTable tab))"
    using assms by (intro child_window_single)
qed (use assms in auto)

lemma compact_left:
  assumes "unat mn + length tab \<le> 256" "2 \<le> live_count tab" "tab ! 0 = None" "tab ! (length tab - 1) \<noteq> None"
  obtains j where "List.find (\<lambda>i. tab ! i \<noteq> None) [1..<length tab] = Some j" "1 \<le> j" "j < length tab"
    "unat (mn + of_nat j :: byte) = unat mn + j"
    "ct_wf (CT (mn + of_nat j) (length tab - j) (live_count tab) (NextTable (drop j tab)))"
    "\<And>lv lv'. child (CT (mn + of_nat j) (length tab - j) lv' (NextTable (drop j tab)))
        = child (CT mn (length tab) lv (NextTable tab))"
proof -
  have len: "2 \<le> length tab" using assms(2) live_count_le [of tab] by linarith
  then have len': "1 \<le> length tab - 1" "length tab - 1 < length tab" by linarith+
  obtain j where j: "List.find (\<lambda>i. tab ! i \<noteq> None) [1..<length tab] = Some j"
    using find_upt_exists [OF len', of "\<lambda>i. tab ! i \<noteq> None"] assms(4) by blast
  have jp: "1 \<le> j" "j < length tab" "tab ! j \<noteq> None" "\<And>i. 1 \<le> i \<Longrightarrow> i < j \<Longrightarrow> tab ! i = None"
    using find_upt_Some [OF j] by auto
  have live: "\<forall>i < length tab. tab ! i \<noteq> None \<longrightarrow> j \<le> i \<and> i < length tab"
    using jp(4) assms(3) by (metis less_one not_le)
  have "Suc j < length tab"
    using live_count_drop_take [OF live] live_count_le [of "drop j tab"] assms(2) by simp
  then show thesis
    using that [OF j] jp assms(1,4) live child_window [of mn tab j "length tab"]
      ct_wf_window [of mn tab j "length tab"] unat_add_of_nat_byte [of mn j]
    by (simp del: child.simps ct_wf.simps)
qed

lemma compact_right:
  assumes "unat mn + length tab \<le> 256" "2 \<le> live_count tab" "tab ! 0 \<noteq> None" "tab ! (length tab - 1) = None"
  obtains j where "List.find (\<lambda>i. tab ! (length tab - 1 - i) \<noteq> None) [1..<length tab] = Some j"
    "1 \<le> j" "j < length tab"
    "ct_wf (CT mn (length tab - j) (live_count tab) (NextTable (take (length tab - j) tab)))"
    "\<And>lv lv'. child (CT mn (length tab - j) lv' (NextTable (take (length tab - j) tab)))
        = child (CT mn (length tab) lv (NextTable tab))"
proof -
  let ?P = "\<lambda>i. tab ! (length tab - 1 - i) \<noteq> None" and ?L = "length tab"
  have len: "2 \<le> ?L" using assms(2) live_count_le [of tab] by linarith
  then have len': "1 \<le> ?L - 1" "?L - 1 < ?L" by linarith+
  obtain j where j: "List.find ?P [1..<?L] = Some j"
    using find_upt_exists [OF len', of ?P] assms(3) by (metis diff_self_eq_0)
  have jp: "1 \<le> j" "j < ?L" "?P j" "\<And>i. 1 \<le> i \<Longrightarrow> i < j \<Longrightarrow> \<not> ?P i"
    using find_upt_Some [OF j] by auto
  have "x < ?L - j" if "x < ?L" "tab ! x \<noteq> None" for x
  proof (rule ccontr)
    assume "\<not> x < ?L - j"
    then have "?L - 1 - x < j" using that jp(2) by linarith
    moreover have "tab ! (?L - 1 - (?L - 1 - x)) \<noteq> None" using that by simp
    moreover have "?L - 1 - x \<noteq> 0" using that assms(4) by (cases "x = ?L - 1") auto
    then have "1 \<le> ?L - 1 - x" by linarith
    ultimately show False using jp(4) by blast
  qed
  then have live: "\<forall>i < ?L. tab ! i \<noteq> None \<longrightarrow> 0 \<le> i \<and> i < ?L - j" by blast
  have "Suc 0 < ?L - j"
    using live_count_drop_take [OF live] live_count_le [of "take (?L - j) tab"] assms(2) by simp
  then show thesis
    using that [OF j] jp assms(1,3) live child_window [of mn tab 0 "?L - j"]
      ct_wf_window [of mn tab 0 "?L - j"]
    by (simp del: child.simps ct_wf.simps)
qed

end
