(* ===== verification/Subscription_Store.thy ===== *)
theory Subscription_Store
  imports Prelude
begin

text \<open>
  The contract between the subscriber sockets and the container that holds their
  subscriptions: \<^verbatim>\<open>xsub_t\<close> (xsub.hpp) stores its topics in a
  \<^verbatim>\<open>trie_with_size_t\<close>, or in a \<^verbatim>\<open>radix_tree_t\<close> when the build asks for it, and
  calls only \<^verbatim>\<open>add\<close>, \<^verbatim>\<open>rm\<close>, \<^verbatim>\<open>check\<close> and
  \<^verbatim>\<open>apply\<close> of either. The abstract store is the multiset of topics, as the function
  from a topic to its multiplicity; the reference counts are 32 bits wide, so a store
  promises its laws for fewer than \<open>2 ^ 32\<close> subscriptions of one topic.
\<close>

datatype sub_op = SubAdd bytes | SubRm bytes

fun spec_op :: "sub_op \<Rightarrow> (bytes \<Rightarrow> nat) \<Rightarrow> bool \<times> (bytes \<Rightarrow> nat)" where
  "spec_op (SubAdd p) m = (m p = 0, m(p := m p + 1))"
| "spec_op (SubRm p) m = (m p = 1, m(p := m p - 1))"

fun spec_run :: "sub_op list \<Rightarrow> (bytes \<Rightarrow> nat) \<Rightarrow> bool list \<times> (bytes \<Rightarrow> nat)" where
  "spec_run [] m = ([], m)"
| "spec_run (x # xs) m =
     (let (r, m') = spec_op x m; (rs, m'') = spec_run xs m' in (r # rs, m''))"

lemma spec_run_card:
  "finite {p. m p > 0} \<Longrightarrow> finite {p. snd (spec_run xs m) p > 0}
     \<and> card {p. snd (spec_run xs m) p > 0} \<le> card {p. m p > 0} + length xs"
proof (induction xs arbitrary: m)
  case (Cons x xs)
  obtain q where "x = SubAdd q \<or> x = SubRm q" by (cases x) auto
  then have sub: "{p. snd (spec_op x m) p > 0} \<subseteq> insert q {p. m p > 0}"
    by (auto split: if_splits)
  then have fin: "finite {p. snd (spec_op x m) p > 0}" using Cons.prems finite_subset by blast
  have "card {p. snd (spec_op x m) p > 0} \<le> card {p. m p > 0} + 1"
    using card_mono [OF _ sub] Cons.prems by (simp add: card_insert_if split: if_splits)
  with Cons.IH [OF fin] show ?case by (simp add: case_prod_beta Let_def)
qed simp

fun store_op ::
  "(bytes \<Rightarrow> 's \<Rightarrow> (bool \<times> 's) option) \<Rightarrow> (bytes \<Rightarrow> 's \<Rightarrow> (bool \<times> 's) option)
    \<Rightarrow> sub_op \<Rightarrow> 's \<Rightarrow> (bool \<times> 's) option" where
  "store_op add rm (SubAdd p) s = add p s"
| "store_op add rm (SubRm p) s = rm p s"

fun store_run ::
  "(bytes \<Rightarrow> 's \<Rightarrow> (bool \<times> 's) option) \<Rightarrow> (bytes \<Rightarrow> 's \<Rightarrow> (bool \<times> 's) option)
    \<Rightarrow> sub_op list \<Rightarrow> 's \<Rightarrow> (bool list \<times> 's) option" where
  "store_run add rm [] s = Some ([], s)"
| "store_run add rm (x # xs) s = do {
     (r, s') \<leftarrow> store_op add rm x s;
     (rs, s'') \<leftarrow> store_run add rm xs s';
     Some (r # rs, s'')
   }"

locale subscription_store =
  fixes empty :: 's
    and add :: "bytes \<Rightarrow> 's \<Rightarrow> (bool \<times> 's) option"
    and rm :: "bytes \<Rightarrow> 's \<Rightarrow> (bool \<times> 's) option"
    and check :: "bytes \<Rightarrow> 's \<Rightarrow> bool option"
    and keys :: "'s \<Rightarrow> bytes list option"
    and invar :: "'s \<Rightarrow> bool"
    and mul :: "'s \<Rightarrow> bytes \<Rightarrow> nat"
  assumes invar_empty: "invar empty"
    and mul_empty: "mul empty p = 0"
    and add_law: "invar s \<Longrightarrow> mul s p + 1 < 2 ^ 32 \<Longrightarrow>
      \<exists>s'. add p s = Some (mul s p = 0, s') \<and> invar s' \<and> mul s' = (mul s)(p := mul s p + 1)"
    and rm_law: "invar s \<Longrightarrow>
      \<exists>s'. rm p s = Some (mul s p = 1, s') \<and> invar s' \<and> mul s' = (mul s)(p := mul s p - 1)"
    and check_law: "invar s \<Longrightarrow> check d s = Some (\<exists>p. prefix p d \<and> mul s p > 0)"
    and keys_law: "invar s \<Longrightarrow> \<exists>ps. keys s = Some ps \<and> distinct ps \<and> set ps = {p. mul s p > 0}"
begin

lemma op_refines:
  assumes "invar s" "\<forall>p. mul s p + 1 < 2 ^ 32"
  shows "\<exists>s'. store_op add rm x s = Some (fst (spec_op x (mul s)), s') \<and> invar s'
    \<and> mul s' = snd (spec_op x (mul s))"
  using assms add_law rm_law by (cases x) auto

text \<open>Any sequence of operations behaves as on the multiset.\<close>

lemma run_refines:
  assumes "invar s" "\<forall>p. mul s p + length xs < 2 ^ 32"
  shows "\<exists>s'. store_run add rm xs s = Some (fst (spec_run xs (mul s)), s') \<and> invar s'
    \<and> mul s' = snd (spec_run xs (mul s))"
  using assms
proof (induction xs arbitrary: s)
  case Nil
  then show ?case by simp
next
  case (Cons x xs)
  have "\<forall>p. mul s p + 1 < 2 ^ 32" using Cons.prems(2) by (auto intro: add_lessD1)
  then obtain s' where s': "store_op add rm x s = Some (fst (spec_op x (mul s)), s')" "invar s'"
    "mul s' = snd (spec_op x (mul s))"
    using op_refines Cons.prems(1) by blast
  have "mul s' p \<le> mul s p + 1" for p using s'(3) by (cases x) auto
  moreover have "mul s p + 1 + length xs < 2 ^ 32" for p using Cons.prems(2) by simp
  ultimately have "\<forall>p. mul s' p + length xs < 2 ^ 32"
    by (meson add_le_mono1 le_less_trans)
  then obtain s'' where "store_run add rm xs s' = Some (fst (spec_run xs (mul s')), s'')" "invar s''"
    "mul s'' = snd (spec_run xs (mul s'))"
    using Cons.IH s'(2) by blast
  with s' show ?case by (auto simp: case_prod_beta Let_def)
qed

lemma run_empty_refines:
  assumes "length xs < 2 ^ 32"
  shows "\<exists>s'. store_run add rm xs empty = Some (fst (spec_run xs (\<lambda>_. 0)), s')
    \<and> (\<forall>d. check d s' = Some (\<exists>p. prefix p d \<and> snd (spec_run xs (\<lambda>_. 0)) p > 0))
    \<and> (\<exists>ps. keys s' = Some ps \<and> distinct ps \<and> set ps = {p. snd (spec_run xs (\<lambda>_. 0)) p > 0})"
proof -
  have "mul empty = (\<lambda>_. 0)" by (simp add: fun_eq_iff mul_empty)
  with run_refines [of empty xs] assms invar_empty check_law keys_law show ?thesis
    by fastforce
qed

end

end
