(* ===== verification/Trie.thy ===== *)
theory Trie
  imports Ctable Subscription_Store
begin

text \<open>
  The subscription trie \<^verbatim>\<open>trie_t\<close> of trie.hpp and trie.cpp, and
  \<^verbatim>\<open>trie_with_size_t\<close>. A node is its reference count and its child table; the
  recursion of \<^verbatim>\<open>add\<close>, \<^verbatim>\<open>rm\<close> and \<^verbatim>\<open>check\<close> follows the key.
  The theorems show that the trie, with all its resizing and pruning of tables, is a
  multiset of byte strings: no assertion ever fails, \<^verbatim>\<open>add\<close> and \<^verbatim>\<open>rm\<close>
  change the multiplicity of exactly one key and report its first and last occurrence,
  \<^verbatim>\<open>check\<close> finds exactly the keys that are prefixes of the data.
\<close>

datatype trie = Trie (refcnt: u32) (kids: "trie ctable")

definition new_trie :: trie where
  "new_trie = Trie 0 ct_empty"

fun is_redundant :: "trie \<Rightarrow> bool" where
  "is_redundant (Trie rc t) \<longleftrightarrow> rc = 0 \<and> ct_live t = 0"

text \<open>\<^verbatim>\<open>trie_t::add\<close>: true iff the key was not there before.\<close>

fun trie_add :: "bytes \<Rightarrow> trie \<Rightarrow> (bool \<times> trie) option" where
  "trie_add [] (Trie rc t) = Some (rc + 1 = 1, Trie (rc + 1) t)"
| "trie_add (c # cs) (Trie rc t) = do {
     t1 \<leftarrow> ct_extend c t;
     p \<leftarrow> ct_slot c t1;
     (t2, n) \<leftarrow> (case p of
         Some n \<Rightarrow> Some (t1, n)
       | None \<Rightarrow> (let lv = ct_live t1 + 1 in do {
           t2 \<leftarrow> ct_store c (Some new_trie) (CT (ct_min t1) (ct_count t1) lv (ct_next t1));
           zmq_assert (if ct_count t1 = 1 then lv = 1 else lv > 1);
           Some (t2, new_trie)
         }));
     (b, n') \<leftarrow> trie_add cs n;
     t3 \<leftarrow> ct_store c (Some n') t2;
     Some (b, Trie rc t3)
   }"

text \<open>
  The part of \<^verbatim>\<open>trie_t::rm\<close> that deletes a redundant child and compacts the table.
  \<^verbatim>\<open>--_live_nodes\<close> on an \<^verbatim>\<open>unsigned short\<close> that is 0 would give 65535, so the
  assertion after it asks for a positive count.
\<close>

fun trie_prune :: "byte \<Rightarrow> trie ctable \<Rightarrow> trie ctable option" where
  "trie_prune c (CT mn ct lv nx) = do {
     zmq_assert (ct > 0);
     if ct = 1 then do {
       zmq_assert (lv > 0 \<and> lv - 1 = 0);
       Some (CT mn 0 (lv - 1) (NextNode None))
     } else do {
       tab0 \<leftarrow> get_table nx;
       tab \<leftarrow> tab_set tab0 (unat c - unat mn) None;
       zmq_assert (lv > 1);
       let lv' = lv - 1 in
       if lv' = 1 then do {
         (node, mn') \<leftarrow>
           (if c = mn then do { p \<leftarrow> tab_get tab (ct - 1); Some (p, mn + of_nat (ct - 1)) }
            else if unat c = unat mn + ct - 1 then do { p \<leftarrow> tab_get tab 0; Some (p, mn) }
            else Some (None, mn));
         zmq_assert (node \<noteq> None);
         Some (CT mn' 1 lv' (NextNode node))
       } else if c = mn then
         (let new_min = (case List.find (\<lambda>i. tab ! i \<noteq> None) [1..<ct] of
                           None \<Rightarrow> mn | Some i \<Rightarrow> of_nat (i + unat mn));
              d = unat new_min - unat mn in do {
           zmq_assert (new_min \<noteq> mn);
           zmq_assert (new_min > mn);
           zmq_assert (ct > d);
           Some (CT new_min (ct - d) lv' (NextTable (take (ct - d) (drop d tab))))
         })
       else if unat c = unat mn + ct - 1 then
         (let new_count = (case List.find (\<lambda>i. tab ! (ct - 1 - i) \<noteq> None) [1..<ct] of
                             None \<Rightarrow> ct | Some i \<Rightarrow> ct - i) in do {
           zmq_assert (new_count \<noteq> ct);
           Some (CT mn new_count lv' (NextTable (take new_count tab)))
         })
       else Some (CT mn ct lv' (NextTable tab))
     }
   }"

text \<open>\<^verbatim>\<open>trie_t::rm\<close>: true iff the last occurrence of the key was removed.\<close>

fun trie_rm :: "bytes \<Rightarrow> trie \<Rightarrow> (bool \<times> trie) option" where
  "trie_rm [] (Trie rc t) =
     (if rc = 0 then Some (False, Trie rc t) else Some (rc - 1 = 0, Trie (rc - 1) t))"
| "trie_rm (c # cs) (Trie rc t) =
     (if ct_count t = 0 \<or> \<not> in_range c t then Some (False, Trie rc t)
      else do {
        p \<leftarrow> ct_slot c t;
        (case p of
           None \<Rightarrow> Some (False, Trie rc t)
         | Some n \<Rightarrow> do {
             (ret, n') \<leftarrow> trie_rm cs n;
             t' \<leftarrow> (if is_redundant n' then trie_prune c t else ct_store c (Some n') t);
             Some (ret, Trie rc t')
           })
      })"

text \<open>
  \<^verbatim>\<open>trie_t::check\<close>: the loop descends one character at a time. With one child it
  follows \<^verbatim>\<open>_next.node\<close> without a null check.
\<close>

fun trie_check :: "bytes \<Rightarrow> trie \<Rightarrow> bool option" where
  "trie_check data (Trie rc t) =
     (if rc \<noteq> 0 then Some True
      else (case data of
          [] \<Rightarrow> Some False
        | c # cs \<Rightarrow>
            if \<not> in_range c t then Some False
            else do {
              p \<leftarrow> ct_slot c t;
              (case p of
                 None \<Rightarrow> if ct_count t = 1 then None else Some False
               | Some n \<Rightarrow> trie_check cs n)
            }))"

text \<open>
  \<^verbatim>\<open>trie_t::apply\<close> calls a function on every key; the result lists the keys in the
  order of the calls. The buffer holds the path from the root.
\<close>

fun apply_helper :: "bytes \<Rightarrow> trie \<Rightarrow> bytes list option" where
  "apply_helper buff (Trie rc (CT mn ct lv nx)) =
     (let here = (if rc \<noteq> 0 then [buff] else []) in
      if ct = 0 then Some here
      else if ct = 1 then
        (case nx of
           NextNode (Some n) \<Rightarrow> map_option (\<lambda>rs. here @ rs) (apply_helper (buff @ [mn]) n)
         | _ \<Rightarrow> None)
      else
        (case nx of
           NextNode _ \<Rightarrow> None
         | NextTable tab \<Rightarrow>
             map_option (\<lambda>rss. here @ concat rss)
               (those (map (\<lambda>i. case tab_get tab i of
                     None \<Rightarrow> None
                   | Some None \<Rightarrow> Some []
                   | Some (Some n) \<Rightarrow> apply_helper (buff @ [mn + of_nat i]) n) [0..<ct]))))"

definition trie_apply :: "trie \<Rightarrow> bytes list option" where
  "trie_apply t = apply_helper [] t"

subsection \<open>What a trie denotes, and its invariant\<close>

text \<open>The number of subscriptions for a key.\<close>

fun mult :: "trie \<Rightarrow> bytes \<Rightarrow> nat" where
  "mult t [] = unat (refcnt t)"
| "mult t (c # cs) = (case child (kids t) c of None \<Rightarrow> 0 | Some n \<Rightarrow> mult n cs)"

inductive trie_wf :: "trie \<Rightarrow> bool" where
  "ct_wf t \<Longrightarrow> (\<And>c n. child t c = Some n \<Longrightarrow> trie_wf n \<and> \<not> is_redundant n) \<Longrightarrow> trie_wf (Trie rc t)"

inductive_simps trie_wf_Trie: "trie_wf (Trie rc t)"

lemma trie_wf_new [simp]: "trie_wf new_trie"
  by (auto simp: new_trie_def trie_wf_Trie)

lemma mult_new [simp]: "mult new_trie cs = 0"
  by (cases cs) (auto simp: new_trie_def)

text \<open>A redundant node holds no key, and in a well-formed trie only such a node does.\<close>

lemma mult_redundant: "trie_wf t \<Longrightarrow> is_redundant t \<Longrightarrow> mult t cs = 0"
  by (cases t; cases cs) (auto simp: trie_wf_Trie ct_live_0_child)

lemma mult_nonredundant:
  assumes "trie_wf t" "\<not> is_redundant t"
  shows "\<exists>cs. mult t cs > 0"
  using assms
proof (induction t rule: trie_wf.induct)
  case (1 t rc)
  show ?case
  proof (cases "rc = 0")
    case True
    with 1 obtain c n where n: "child t c = Some n"
      by (auto simp: ct_live_0_child)
    with 1 obtain cs where "mult n cs > 0" by blast
    with n have "mult (Trie rc t) (c # cs) > 0" by simp
    then show ?thesis by blast
  next
    case False
    then have "mult (Trie rc t) [] > 0" by (simp add: unat_gt_0)
    then show ?thesis by blast
  qed
qed

subsection \<open>Adding a key\<close>

lemma ct_store_fields:
  "ct_store c p t = Some t' \<Longrightarrow> ct_count t' = ct_count t \<and> ct_live t' = ct_live t \<and> ct_min t' = ct_min t"
  by (cases t) (auto split: if_splits bind_splits)

text \<open>The assertions of \<^verbatim>\<open>add\<close> hold, so its step is \<open>ct_ensure\<close>.\<close>

lemma trie_add_Cons:
  assumes "ct_wf k"
  shows "trie_add (c # cs) (Trie rc k) = do {
     (t2, n) \<leftarrow> ct_ensure new_trie c k;
     (b, n') \<leftarrow> trie_add cs n;
     t3 \<leftarrow> ct_store c (Some n') t2;
     Some (b, Trie rc t3)
   }"
proof -
  obtain t2 n where ens: "ct_ensure new_trie c k = Some (t2, n)" and wf: "ct_wf t2"
    using ct_ensure_spec [OF assms, of new_trie c] by blast
  obtain t1 p where t1: "ct_extend c k = Some t1" and p: "ct_slot c t1 = Some p"
    using ens by (auto simp: ct_ensure_def split: bind_splits)
  show ?thesis
  proof (cases p)
    case (Some m)
    with t1 p show ?thesis by (simp add: ct_ensure_def)
  next
    case None
    define u where "u = CT (ct_min t1) (ct_count t1) (ct_live t1 + 1) (ct_next t1)"
    have st: "ct_store c (Some new_trie) u = Some t2"
      using ens t1 p None
      by (auto simp: ct_ensure_def u_def Option.bind_eq_Some_conv simp del: ct_store.simps)
    have "ct_count t2 = ct_count t1" "ct_live t2 = ct_live t1 + 1"
      using ct_store_fields [OF st] by (simp_all add: u_def)
    with wf have "if ct_count t1 = 1 then ct_live t1 + 1 = 1 else ct_live t1 + 1 > 1"
      by (cases t2 rule: ct_wf_cases) auto
    with t1 p None st show ?thesis
      by (simp add: ct_ensure_def u_def Let_def zmq_assert_def del: ct_store.simps split: if_splits)
  qed
qed

lemma mult_fun_upd_child:
  assumes "child k' = (child k)(c := Some n')" "mult n' = (mult n)(cs := v)"
    and "n = case_option new_trie id (child k c)"
  shows "mult (Trie rc k') = (mult (Trie rc k))(c # cs := v)"
proof
  fix x
  show "mult (Trie rc k') x = ((mult (Trie rc k))(c # cs := v)) x"
    using assms by (cases x) (auto split: option.splits)
qed

lemma trie_add_spec:
  assumes "trie_wf t" "mult t p + 1 < 2 ^ 32"
  shows "\<exists>t'. trie_add p t = Some (mult t p = 0, t') \<and> trie_wf t' \<and> \<not> is_redundant t'
    \<and> mult t' = (mult t)(p := mult t p + 1)"
  using assms
proof (induction p arbitrary: t)
  case Nil
  obtain rc k where t: "t = Trie rc k" by (cases t)
  have un: "unat (rc + 1) = unat rc + 1"
    using Nil t by (simp add: unat_word_ariths)
  then have "rc + 1 \<noteq> 0" "rc + 1 = 1 \<longleftrightarrow> unat rc = 0"
    by (auto simp: word_unat_eq_iff)
  moreover have "mult (Trie (rc + 1) k) x = ((mult t)([] := mult t [] + 1)) x" for x
    using t un by (cases x) auto
  ultimately show ?case
    using Nil t by (auto simp: trie_wf_Trie fun_eq_iff)
next
  case (Cons c cs)
  obtain rc k where t: "t = Trie rc k" by (cases t)
  have k: "ct_wf k" using Cons t by (simp add: trie_wf_Trie)
  define n where "n = case_option new_trie id (child k c)"
  obtain t2 where ens: "ct_ensure new_trie c k = Some (t2, n)" "ct_wf t2" "child t2 = (child k)(c := Some n)"
    using ct_ensure_spec [OF k, of new_trie c] by (auto simp: n_def)
  have n: "trie_wf n" "mult n cs = mult t (c # cs)"
    using Cons.prems t by (auto simp: n_def trie_wf_Trie split: option.splits)
  obtain n' where n': "trie_add cs n = Some (mult n cs = 0, n')" "trie_wf n'" "\<not> is_redundant n'"
    "mult n' = (mult n)(cs := mult n cs + 1)"
    using Cons.IH [OF n(1)] Cons.prems(2) n(2) by metis
  obtain t3 where t3: "ct_store c (Some n') t2 = Some t3" "ct_wf t3" "child t3 = (child k)(c := Some n')"
    using ct_store_child [OF ens(2), of c n n'] ens(3) by auto
  have "trie_add (c # cs) t = Some (mult t (c # cs) = 0, Trie rc t3)"
    unfolding t trie_add_Cons [OF k] using ens n' t3 n t by simp
  moreover have "trie_wf (Trie rc t3)"
    using Cons.prems t t3 n' by (auto simp: trie_wf_Trie)
  moreover have "\<not> is_redundant (Trie rc t3)"
    using t3 by (auto simp: ct_live_0_child)
  moreover have "mult (Trie rc t3) = (mult t)(c # cs := mult t (c # cs) + 1)"
    unfolding t n(2) [symmetric, unfolded t] by (rule mult_fun_upd_child [OF t3(3) n'(4) n_def])
  ultimately show ?case by blast
qed

subsection \<open>Removing a key\<close>

text \<open>
  Pruning a child: the assertions of the code hold because the two ends of a table are
  live, so a table that is down to one live entry lost one of its ends.
\<close>

lemma trie_prune_table:
  assumes "2 \<le> length tab" "unat mn + length tab \<le> 256" "unat mn \<le> unat c"
    and "unat c - unat mn < length tab" "tab ! (unat c - unat mn) \<noteq> None"
    and "tab ! 0 \<noteq> None" "tab ! (length tab - 1) \<noteq> None"
  defines "t \<equiv> CT mn (length tab) (live_count tab) (NextTable tab)"
  shows "\<exists>t'. trie_prune c t = Some t' \<and> ct_wf t' \<and> child t' = (child t)(c := None)"
proof -
  define i where "i = unat c - unat mn"
  define tab' where "tab' = tab[i := None]"
  have i: "i < length tab" "tab ! i \<noteq> None" using assms by (auto simp: i_def)
  have lc: "live_count tab = Suc (live_count tab')"
    using i by (simp add: tab'_def live_count_clear)
  have len: "length tab = length tab'" "unat mn + length tab' \<le> 256" using assms by (auto simp: tab'_def)
  have ch: "child (CT mn (length tab') lv (NextTable tab')) = (child t)(c := None)" for lv
    using assms(3,4) child_clear [of mn c tab lv "live_count tab"] by (simp add: t_def tab'_def i_def)
  have two: "live_count tab \<ge> 2"
    using live_count_two [of 0 "length tab - 1" tab] assms by auto
  have c0: "c = mn \<longleftrightarrow> i = 0" using assms(3) by (auto simp: i_def word_unat_eq_iff)
  have cL: "unat c = unat mn + length tab' - 1 \<longleftrightarrow> i = length tab' - 1" using assms i len by (auto simp: i_def)
  have ends: "tab' ! 0 = None \<longleftrightarrow> i = 0" "tab' ! (length tab' - 1) = None \<longleftrightarrow> i = length tab' - 1"
    using assms i by (auto simp: tab'_def nth_list_update)
  note run = t_def Let_def i_def [symmetric] tab'_def [symmetric]
  consider (one) "live_count tab' = 1" | (left) "live_count tab' \<ge> 2" "i = 0"
    | (right) "live_count tab' \<ge> 2" "i = length tab' - 1" "i \<noteq> 0"
    | (mid) "live_count tab' \<ge> 2" "i \<noteq> 0" "i \<noteq> length tab' - 1"
    using two lc by linarith
  then show ?thesis
  proof cases
    case one
    define a where "a = (if i = 0 then length tab' - 1 else 0)"
    have a: "a < length tab'" "tab' ! a \<noteq> None" using ends assms(1) len i by (auto simp: a_def)
    have "i = 0 \<or> i = length tab' - 1"
      using ends live_count_one [of tab' 0 "length tab' - 1"] one len assms(1) by linarith
    then have "trie_prune c t = Some (CT (mn + of_nat a) 1 1 (NextNode (tab' ! a)))"
      using assms(1,4) i one lc c0 cL len a by (auto simp: run a_def)
    then show ?thesis
      using compact_one(1) [OF len(2) one a] compact_one(2) [OF len(2) one a, of 1] ch by (simp del: child.simps ct_wf.simps)
  next
    case left
    obtain j where j: "List.find (\<lambda>i. tab' ! i \<noteq> None) [1..<length tab'] = Some j" "1 \<le> j" "j < length tab'"
      "unat (mn + of_nat j :: byte) = unat mn + j"
      "ct_wf (CT (mn + of_nat j) (length tab' - j) (live_count tab') (NextTable (drop j tab')))"
      "\<And>lv lv'. child (CT (mn + of_nat j) (length tab' - j) lv' (NextTable (drop j tab')))
        = child (CT mn (length tab') lv (NextTable tab'))"
      by (rule compact_left [OF len(2) left(1)]) (use ends left assms(1) len in auto)
    define m where "m = mn + of_nat j"
    have m: "of_nat j + mn = m" "m \<noteq> mn" "mn < m" "unat m - unat mn = j" "unat m = unat mn + j"
      using j(2,4) by (auto simp: m_def word_less_nat_alt)
    have "c = mn" "tab[0 := None] = tab'" "tab \<noteq> []" "tab' \<noteq> []"
      using left c0 len assms(1) by (auto simp: tab'_def)
    then have "trie_prune c t = Some (CT m (length tab' - j) (live_count tab') (NextTable (drop j tab')))"
      using assms(1) left(1) lc len(1) j(1,3) m by (simp add: t_def Let_def)
    then show ?thesis using j ch by (simp add: m_def del: child.simps ct_wf.simps)
  next
    case right
    obtain j where j: "List.find (\<lambda>i. tab' ! (length tab' - 1 - i) \<noteq> None) [1..<length tab'] = Some j"
      "1 \<le> j" "j < length tab'"
      "ct_wf (CT mn (length tab' - j) (live_count tab') (NextTable (take (length tab' - j) tab')))"
      "\<And>lv lv'. child (CT mn (length tab' - j) lv' (NextTable (take (length tab' - j) tab')))
        = child (CT mn (length tab') lv (NextTable tab'))"
      by (rule compact_right [OF len(2) right(1)]) (use ends right assms(1) len in auto)
    have ts: "tab_set tab (unat c - unat mn) None = Some tab'" using i by (simp add: tab'_def i_def)
    have last: "(unat c = unat mn + length tab' - Suc 0) = True" using right(2) cL by simp
    have "c \<noteq> mn" "tab' \<noteq> []" "length tab' - j \<noteq> length tab'" using right c0 len assms(1) j by auto
    then have "trie_prune c t
        = Some (CT mn (length tab' - j) (live_count tab') (NextTable (take (length tab' - j) tab')))"
      using assms(1) right(1) lc len(1) j(1,2,3) by (simp add: t_def Let_def ts last)
    then show ?thesis using j ch by (simp del: child.simps ct_wf.simps)
  next
    case mid
    have "tab' \<noteq> []" using len assms(1) by auto
    with mid have "trie_prune c t = Some (CT mn (length tab') (live_count tab') (NextTable tab'))"
      using assms(1,4) i lc c0 cL len by (auto simp: run)
    then show ?thesis using mid ends ch len assms(1,2) by auto
  qed
qed

lemma trie_prune_spec:
  assumes "ct_wf t" "child t c = Some n"
  shows "\<exists>t'. trie_prune c t = Some t' \<and> ct_wf t' \<and> child t' = (child t)(c := None)"
  using assms(1)
proof (cases t rule: ct_wf_cases)
  case (table mn tab)
  have "unat mn \<le> unat c" "unat c - unat mn < length tab" "tab ! (unat c - unat mn) \<noteq> None"
    using assms(2) table(1) by (auto split: if_splits)
  with table trie_prune_table [of tab mn c] show ?thesis
    by (simp del: child.simps ct_wf.simps trie_prune.simps)
qed (use assms(2) in \<open>auto simp: fun_eq_iff word_unat_eq_iff split: if_splits\<close>)

lemma mult_remove_child:
  assumes "child k' = (child k)(c := None)" "child k c = Some n" "\<And>x. mult n' x = 0"
    and "mult n' = (mult n)(cs := v)"
  shows "mult (Trie rc k') = (mult (Trie rc k))(c # cs := v)"
proof
  fix x
  have "mult n y = 0" if "y \<noteq> cs" for y using assms(3) [of y] assms(4) that by simp
  moreover have "v = 0" using assms(3) [of cs] assms(4) by simp
  ultimately show "mult (Trie rc k') x = ((mult (Trie rc k))(c # cs := v)) x"
    using assms(1,2) by (cases x) auto
qed

lemma trie_rm_spec:
  assumes "trie_wf t"
  shows "\<exists>t'. trie_rm p t = Some (mult t p = 1, t') \<and> trie_wf t'
    \<and> mult t' = (mult t)(p := mult t p - 1)"
  using assms
proof (induction p arbitrary: t)
  case Nil
  obtain rc k where t: "t = Trie rc k" by (cases t)
  have "unat (rc - 1) = unat rc - 1" if "rc \<noteq> 0" using that by (rule unat_minus_one)
  moreover from this have "rc - 1 = 0 \<longleftrightarrow> unat rc = 1" if "rc \<noteq> 0"
    using that by (auto simp: word_unat_eq_iff)
  moreover have "mult (Trie (rc - 1) k) x = (if x = [] then unat (rc - 1) else mult t x)" for x
    using t by (cases x) auto
  ultimately show ?case using Nil t by (auto simp: trie_wf_Trie fun_eq_iff)
next
  case (Cons c cs)
  obtain rc k where t: "t = Trie rc k" by (cases t)
  have k: "ct_wf k" using Cons t by (simp add: trie_wf_Trie)
  show ?case
  proof (cases "child k c")
    case None
    then have "trie_rm (c # cs) t = Some (False, t)" "mult t (c # cs) = 0"
      using t k by (auto simp: ct_slot_child)
    with Cons.prems show ?thesis by (auto simp: fun_upd_idem)
  next
    case (Some n)
    have n: "trie_wf n" "mult t (c # cs) = mult n cs" using Cons.prems t Some by (auto simp: trie_wf_Trie)
    obtain n' where n': "trie_rm cs n = Some (mult n cs = 1, n')" "trie_wf n'"
      "mult n' = (mult n)(cs := mult n cs - 1)"
      using Cons.IH [OF n(1)] by blast
    have rng: "in_range c k" "ct_count k \<noteq> 0" using Some by (cases k; auto split: if_splits)+
    define upd where "upd = (if is_redundant n' then trie_prune c k else ct_store c (Some n') k)"
    obtain k' where k': "upd = Some k'" "ct_wf k'"
      "child k' = (child k)(c := if is_redundant n' then None else Some n')"
      using trie_prune_spec [OF k Some] ct_store_child [OF k Some, of n']
      by (cases "is_redundant n'") (auto simp: upd_def)
    have run: "trie_rm (c # cs) t = Some (mult n cs = 1, Trie rc k')"
      using t rng Some n' k'(1) ct_slot_child [OF k, of c] by (simp add: upd_def)
    have "mult (Trie rc k') = (mult (Trie rc k))(c # cs := mult n cs - 1)"
    proof (cases "is_redundant n'")
      case True
      with k' show ?thesis
        by (intro mult_remove_child [OF _ Some mult_redundant [OF n'(2)] n'(3)]) auto
    next
      case False
      with k' n' Some show ?thesis by (intro mult_fun_upd_child) auto
    qed
    moreover have "trie_wf (Trie rc k')"
      using Cons.prems t k' n' by (auto simp: trie_wf_Trie split: if_splits)
    ultimately show ?thesis using run n t by auto
  qed
qed

subsection \<open>Matching and enumerating\<close>

lemma trie_check_spec:
  assumes "trie_wf t"
  shows "trie_check data t = Some (\<exists>p. prefix p data \<and> mult t p > 0)"
  using assms
proof (induction data arbitrary: t)
  case Nil
  then show ?case by (cases t) (auto simp: unat_gt_0)
next
  case (Cons c cs)
  obtain rc k where t: "t = Trie rc k" by (cases t)
  have k: "ct_wf k" using Cons t by (simp add: trie_wf_Trie)
  have split: "(\<exists>p. prefix p (c # cs) \<and> mult t p > 0)
      \<longleftrightarrow> rc \<noteq> 0 \<or> (\<exists>n p. child k c = Some n \<and> prefix p cs \<and> mult n p > 0)"
    using t by (auto simp: ex_prefix_Cons unat_gt_0 split: option.splits)
  show ?case
  proof (cases "child k c")
    case None
    have "ct_count k = 1 \<Longrightarrow> \<not> in_range c k"
      using None k by (cases k) (auto split: next_t.splits option.splits)
    then show ?thesis using None t k unfolding split by (auto simp: ct_slot_child)
  next
    case (Some n)
    then have "trie_wf n" using Cons.prems t by (auto simp: trie_wf_Trie)
    then show ?thesis
      using Cons.IH [of n] Some t k child_in_range [OF Some] unfolding split by (simp add: ct_slot_child)
  qed
qed

text \<open>The calls of \<^verbatim>\<open>apply\<close>: every key once.\<close>

lemma apply_helper_spec:
  assumes "trie_wf t"
  shows "\<exists>ps. (\<forall>buff. apply_helper buff t = Some (map ((@) buff) ps)) \<and> distinct ps
    \<and> set ps = {p. mult t p > 0}"
  using assms
proof (induction t rule: trie_wf.induct)
  case (1 k rc)
  define R where "R n ps \<longleftrightarrow> (\<forall>buff. apply_helper buff n = Some (map ((@) buff) ps)) \<and> distinct ps
      \<and> set ps = {p. mult n p > 0}" for n ps
  define K where "K n = (SOME ps. R n ps)" for n
  have "R n (K n)" if "child k c = Some n" for c n
    unfolding K_def using 1(2) [OF that, folded R_def] by (blast intro: someI_ex)
  then have K: "(\<forall>buff. apply_helper buff n = Some (map ((@) buff) (K n))) \<and> distinct (K n)
      \<and> set (K n) = {p. mult n p > 0}" if "child k c = Some n" for c n
    using that unfolding R_def by blast
  define sub where "sub c = (case child k c of None \<Rightarrow> [] | Some n \<Rightarrow> map ((#) c) (K n))" for c
  define cs where "cs = map (\<lambda>i. ct_min k + of_nat i) [0..<ct_count k]"
  define ps where "ps = (if rc \<noteq> 0 then [[]] else []) @ concat (map sub cs)"
  have "unat (ct_min k + of_nat i) = unat (ct_min k) + i" if "i < ct_count k" for i
    using that ct_wf_bounds [OF 1(1)] by (intro unat_add_of_nat_byte) simp
  then have dcs: "distinct cs"
    by (auto simp: cs_def distinct_map inj_on_def word_unat_eq_iff)
  have cs: "c \<in> set cs" if "child k c = Some n" for c n
  proof -
    have "unat (ct_min k) \<le> unat c \<and> unat c < unat (ct_min k) + ct_count k"
      using child_in_range [OF that] by (cases k) auto
    then show ?thesis
      by (auto simp: cs_def byte_eq_add_diff intro!: image_eqI [of _ _ "unat c - unat (ct_min k)"])
  qed
  have sets: "set (sub c) = {c # p | p. mult (Trie rc k) (c # p) > 0}" for c
    by (cases "child k c") (use K in \<open>auto simp: sub_def\<close>)
  have "set ps = {p. mult (Trie rc k) p > 0}"
  proof (rule set_eqI)
    fix p
    show "p \<in> set ps \<longleftrightarrow> p \<in> {p. mult (Trie rc k) p > 0}"
      using cs by (cases p) (auto simp: ps_def sets unat_gt_0 split: option.splits)
  qed
  moreover have "distinct ps"
  proof -
    have "distinct (sub c)" for c using K by (auto simp: sub_def distinct_map split: option.splits)
    then have "distinct (concat (map sub cs))" using dcs by (intro distinct_concat_map) (auto simp: sets)
    then show ?thesis by (auto simp: ps_def sets)
  qed
  moreover have "apply_helper buff (Trie rc k) = Some (map ((@) buff) ps)" for buff
    using 1(1)
  proof (cases k rule: ct_wf_cases)
    case (single mn n)
    then show ?thesis using K [of mn n] by (auto simp: ps_def sub_def cs_def comp_def)
  next
    case (table mn tab)
    have "(case tab_get tab i of None \<Rightarrow> None | Some None \<Rightarrow> Some []
        | Some (Some n) \<Rightarrow> apply_helper (buff @ [mn + of_nat i]) n)
      = Some (map ((@) buff) (sub (mn + of_nat i)))" if "i < length tab" for i
      using that table K [of "mn + of_nat i"] unat_add_of_nat_byte [of mn i]
      by (auto simp: sub_def comp_def split: option.splits)
    then have "those (map (\<lambda>i. case tab_get tab i of None \<Rightarrow> None | Some None \<Rightarrow> Some []
        | Some (Some n) \<Rightarrow> apply_helper (buff @ [mn + of_nat i]) n) [0..<length tab])
      = Some (map (\<lambda>i. map ((@) buff) (sub (mn + of_nat i))) [0..<length tab])"
      by (intro those_map_Some) auto
    then show ?thesis
      using table by (auto simp: ps_def cs_def map_concat comp_def)
  qed (auto simp: ps_def cs_def)
  ultimately show ?case by blast
qed

lemma trie_apply_spec:
  "trie_wf t \<Longrightarrow> \<exists>ps. trie_apply t = Some ps \<and> distinct ps \<and> set ps = {p. mult t p > 0}"
  using apply_helper_spec [of t] by (auto simp: trie_apply_def map_idI)

interpretation tr: subscription_store new_trie trie_add trie_rm trie_check trie_apply trie_wf mult
proof unfold_locales
  fix s p
  assume "trie_wf s" "mult s p + 1 < 2 ^ 32"
  then show "\<exists>s'. trie_add p s = Some (mult s p = 0, s') \<and> trie_wf s' \<and> mult s' = (mult s)(p := mult s p + 1)"
    using trie_add_spec by blast
qed (use trie_rm_spec trie_check_spec trie_apply_spec in auto)

subsection \<open>The trie with a prefix counter\<close>

text \<open>\<^verbatim>\<open>trie_with_size_t\<close>: the trie and an atomic counter of its distinct keys.\<close>

record trie_with_size =
  tws_num_prefixes :: u32
  tws_trie :: trie

definition tws_new :: trie_with_size where
  "tws_new = \<lparr>tws_num_prefixes = 0, tws_trie = new_trie\<rparr>"

definition tws_add :: "bytes \<Rightarrow> trie_with_size \<Rightarrow> (bool \<times> trie_with_size) option" where
  "tws_add p s = do {
     (b, t) \<leftarrow> trie_add p (tws_trie s);
     if b then Some (True, s\<lparr>tws_trie := t, tws_num_prefixes := tws_num_prefixes s + 1\<rparr>)
     else Some (False, s\<lparr>tws_trie := t\<rparr>)
   }"

definition tws_rm :: "bytes \<Rightarrow> trie_with_size \<Rightarrow> (bool \<times> trie_with_size) option" where
  "tws_rm p s = do {
     (b, t) \<leftarrow> trie_rm p (tws_trie s);
     if b then Some (True, s\<lparr>tws_trie := t, tws_num_prefixes := tws_num_prefixes s - 1\<rparr>)
     else Some (False, s\<lparr>tws_trie := t\<rparr>)
   }"

definition tws_check :: "bytes \<Rightarrow> trie_with_size \<Rightarrow> bool option" where
  "tws_check d s = trie_check d (tws_trie s)"

definition tws_apply :: "trie_with_size \<Rightarrow> bytes list option" where
  "tws_apply s = trie_apply (tws_trie s)"

definition tws_wf :: "trie_with_size \<Rightarrow> bool" where
  "tws_wf s \<longleftrightarrow> trie_wf (tws_trie s)
     \<and> tws_num_prefixes s = of_nat (card {p. mult (tws_trie s) p > 0})"

lemma finite_keys: "trie_wf t \<Longrightarrow> finite {p. mult t p > 0}"
  using trie_apply_spec [of t] by (metis List.finite_set)

lemma tws_add_spec:
  assumes "tws_wf s" "mult (tws_trie s) p + 1 < 2 ^ 32"
  shows "\<exists>s'. tws_add p s = Some (mult (tws_trie s) p = 0, s') \<and> tws_wf s'
    \<and> mult (tws_trie s') = (mult (tws_trie s))(p := mult (tws_trie s) p + 1)"
proof -
  let ?m = "mult (tws_trie s)"
  have fin: "finite {q. ?m q > 0}" using assms finite_keys by (simp add: tws_wf_def)
  obtain t where t: "trie_add p (tws_trie s) = Some (?m p = 0, t)" "trie_wf t" "mult t = ?m(p := ?m p + 1)"
    using trie_add_spec assms by (auto simp: tws_wf_def)
  then have "{q. mult t q > 0} = insert p {q. ?m q > 0}" by auto
  then have "of_nat (card {q. mult t q > 0}) = tws_num_prefixes s + (if ?m p = 0 then 1 else 0)"
    using assms fin by (simp add: tws_wf_def insert_absorb)
  then show ?thesis using t assms
    by (cases "?m p = 0") (auto simp: tws_add_def tws_wf_def simp del: fun_upd_apply)
qed

lemma tws_rm_spec:
  assumes "tws_wf s"
  shows "\<exists>s'. tws_rm p s = Some (mult (tws_trie s) p = 1, s') \<and> tws_wf s'
    \<and> mult (tws_trie s') = (mult (tws_trie s))(p := mult (tws_trie s) p - 1)"
proof -
  let ?m = "mult (tws_trie s)"
  have fin: "finite {q. ?m q > 0}" using assms finite_keys by (simp add: tws_wf_def)
  obtain t where t: "trie_rm p (tws_trie s) = Some (?m p = 1, t)" "trie_wf t" "mult t = ?m(p := ?m p - 1)"
    using trie_rm_spec [of "tws_trie s" p] assms by (auto simp: tws_wf_def)
  have keys: "{q. mult t q > 0} = (if ?m p = 1 then {q. ?m q > 0} - {p} else {q. ?m q > 0})"
    using t(3) by (auto split: if_splits)
  define d where "d = card ({q. ?m q > 0} - {p})"
  have "card {q. ?m q > 0} = Suc d" if "?m p = 1"
    using card.remove [OF fin, of p] that by (simp add: d_def)
  then have "tws_num_prefixes s - 1 = of_nat d" if "?m p = 1"
    using assms that by (simp add: tws_wf_def)
  with t assms keys show ?thesis
    by (cases "?m p = 1") (auto simp: tws_rm_def tws_wf_def d_def simp del: fun_upd_apply)
qed

interpretation tws: subscription_store tws_new tws_add tws_rm tws_check tws_apply tws_wf "\<lambda>s. mult (tws_trie s)"
  by unfold_locales
    (use tws_add_spec tws_rm_spec trie_check_spec trie_apply_spec in
      \<open>auto simp: tws_new_def tws_wf_def tws_check_def tws_apply_def\<close>)

subsection \<open>The subscriptions of a socket\<close>

text \<open>C3: the subscription trie is the multiset of topics. Any sequence of fewer than 2 ^ 32
  subscriptions and cancellations, run from an empty trie, ends without a failed assertion
  and answers each one as the multiset does (first copy added, last copy removed); the result
  matches exactly the messages with a subscribed prefix and lists every topic once.\<close>

theorem trie_refines_multiset:
  assumes "length xs < 2 ^ 32"
  shows "\<exists>t. store_run trie_add trie_rm xs new_trie = Some (fst (spec_run xs (\<lambda>_. 0)), t)
    \<and> (\<forall>d. trie_check d t = Some (\<exists>p. prefix p d \<and> snd (spec_run xs (\<lambda>_. 0)) p > 0))
    \<and> (\<exists>ps. trie_apply t = Some ps \<and> distinct ps \<and> set ps = {p. snd (spec_run xs (\<lambda>_. 0)) p > 0})"
  using assms by (rule tr.run_empty_refines)

theorem trie_refines_multiset_witness:
  "\<exists>t. store_run trie_add trie_rm [SubAdd [1, 2], SubAdd [1, 2], SubRm [1, 2]] new_trie
        = Some ([True, False, False], t)
     \<and> trie_check [1, 2, 3] t = Some True"
proof -
  have "\<exists>p. prefix p [1, 2, 3] \<and> 0 < snd (spec_run [SubAdd [1, 2], SubAdd [1, 2], SubRm [1, 2]] (\<lambda>_. 0)) p"
    by (rule exI [of _ "[1, 2]"]) simp
  with trie_refines_multiset [of "[SubAdd [1, 2], SubAdd [1, 2], SubRm [1, 2]]"] show ?thesis
    by fastforce
qed

text \<open>C32: cancelled subscriptions leave nothing behind: when every topic has been cancelled as often
  as it was subscribed, the trie has no node left but its root.\<close>

theorem trie_no_garbage:
  assumes "length xs < 2 ^ 32" "store_run trie_add trie_rm xs new_trie = Some (rs, t)"
    and "snd (spec_run xs (\<lambda>_. 0)) = (\<lambda>_. 0)"
  shows "is_redundant t"
proof -
  obtain t' where t': "store_run trie_add trie_rm xs new_trie = Some (fst (spec_run xs (mult new_trie)), t')"
      "trie_wf t'" "mult t' = snd (spec_run xs (mult new_trie))"
    using tr.run_refines [of new_trie xs] assms(1) by auto
  moreover have "mult new_trie = (\<lambda>_. 0)" by (simp add: fun_eq_iff)
  ultimately have "trie_wf t" "mult t = (\<lambda>_. 0)" using assms(2,3) by auto
  then show ?thesis using mult_nonredundant [of t] by force
qed

theorem trie_no_garbage_witness:
  "\<exists>rs t. store_run trie_add trie_rm [SubAdd [1, 2], SubAdd [1, 7], SubRm [1, 2], SubRm [1, 7]] new_trie
     = Some (rs, t) \<and> is_redundant t"
proof -
  have len: "length [SubAdd [1, 2], SubAdd [1, 7], SubRm [1, 2], SubRm [1, 7]] < 2 ^ 32" by simp
  have zero: "snd (spec_run [SubAdd [1, 2], SubAdd [1, 7], SubRm [1, 2], SubRm [1, 7]] (\<lambda>_. 0)) = (\<lambda>_. 0)"
    by (simp add: fun_eq_iff)
  obtain rs t where "store_run trie_add trie_rm [SubAdd [1, 2], SubAdd [1, 7], SubRm [1, 2], SubRm [1, 7]] new_trie
     = Some (rs, t)"
    using tr.run_empty_refines [OF len] by blast
  with trie_no_garbage [OF len this zero] show ?thesis by blast
qed

text \<open>The prefix counter of \<open>trie_with_size_t\<close> counts: after any sequence of fewer than 2 ^ 32
  operations it is the number of distinct topics subscribed.\<close>

theorem trie_with_size_counts:
  assumes "length xs < 2 ^ 32" "store_run tws_add tws_rm xs tws_new = Some (rs, s)"
  shows "unat (tws_num_prefixes s) = card {p. snd (spec_run xs (\<lambda>_. 0)) p > 0}"
proof -
  have new: "mult (tws_trie tws_new) = (\<lambda>_. 0)" "tws_wf tws_new"
    by (simp_all add: tws_new_def tws_wf_def fun_eq_iff)
  obtain s' where "store_run tws_add tws_rm xs tws_new = Some (fst (spec_run xs (\<lambda>_. 0)), s')"
      "tws_wf s'" "mult (tws_trie s') = snd (spec_run xs (\<lambda>_. 0))"
    using tws.run_refines [OF new(2), of xs] assms(1) unfolding new(1) by auto
  moreover have "card {p. snd (spec_run xs (\<lambda>_. 0)) p > 0} < 2 ^ 32"
    using spec_run_card [of "\<lambda>_. 0" xs] assms(1) by simp
  ultimately show ?thesis using assms(2) by (auto simp: tws_wf_def unat_of_nat)
qed

theorem trie_with_size_counts_witness:
  "\<exists>rs s. store_run tws_add tws_rm [SubAdd [1], SubAdd [1, 2], SubAdd [1]] tws_new = Some (rs, s)
     \<and> unat (tws_num_prefixes s) = 2"
proof -
  have len: "length [SubAdd [1], SubAdd [1, 2], SubAdd [1]] < 2 ^ 32" by simp
  obtain rs s where run: "store_run tws_add tws_rm [SubAdd [1], SubAdd [1, 2], SubAdd [1]] tws_new = Some (rs, s)"
    using tws.run_empty_refines [OF len] by blast
  have "{p. snd (spec_run [SubAdd [1], SubAdd [1, 2], SubAdd [1]] (\<lambda>_. 0)) p > 0} = {[1], [1, 2]}" by auto
  with trie_with_size_counts [OF len run] run show ?thesis by simp
qed

end
