(* ===== verification/Wrapper.thy ===== *)
theory Wrapper
  imports Prelude
begin

text \<open>
  The bridge library itself: \<^verbatim>\<open>include/prj1.h\<close> and \<^verbatim>\<open>src/prj1.cpp\<close>, POSIX build.
  \<^verbatim>\<open>ZMQWrapperImpl\<close> is the record \<open>wrapper\<close>; every method is a function that takes the
  object and the world it acts on and returns the error code with both updated. The calls
  the methods make (libzmq's C functions, \<^verbatim>\<open>access\<close>, \<^verbatim>\<open>unlink\<close>,
  \<^verbatim>\<open>usleep\<close>, \<^verbatim>\<open>std::cout\<close>) are the fields of a record
  \<open>zmq_api\<close> over an arbitrary world. The laws of the calls that the
  bridge relies on are the locale \<open>zmq_library\<close>, which the theory \<open>Capi\<close> interprets on
  the model of zmq.cpp. The methods hold one mutex from start to end, so
  a concurrent use is some order of whole calls and the theorems are about all orders.
\<close>

datatype ErrorCode =
    SUCCESS | ERROR_NOT_INITIALIZED | ERROR_ALREADY_INITIALIZED | ERROR_INVALID_CONFIG
  | ERROR_SOCKET_CREATE_FAILED | ERROR_SOCKET_BIND_FAILED | ERROR_SOCKET_CONNECT_FAILED
  | ERROR_SEND_FAILED | ERROR_RECEIVE_FAILED | ERROR_TIMEOUT | ERROR_MESSAGE_TOO_LARGE
  | ERROR_INVALID_PATTERN | ERROR_PERMISSION_DENIED | ERROR_PATH_TOO_LONG | ERROR_UNKNOWN

datatype Pattern = REQ_REP | PUB_SUB | PUSH_PULL

datatype Mode = SERVER | CLIENT

record Config =
  pattern :: Pattern
  mode :: Mode
  endpoint :: string
  timeout_ms :: int
  enable_logging :: bool

definition default_Config :: Config where
  "default_Config = \<lparr>pattern = REQ_REP, mode = SERVER, endpoint = '''', timeout_ms = 5000,
     enable_logging = False\<rparr>"

fun error_value :: "ErrorCode \<Rightarrow> int" where
  "error_value SUCCESS = 0"
| "error_value ERROR_NOT_INITIALIZED = -1"
| "error_value ERROR_ALREADY_INITIALIZED = -2"
| "error_value ERROR_INVALID_CONFIG = -3"
| "error_value ERROR_SOCKET_CREATE_FAILED = -4"
| "error_value ERROR_SOCKET_BIND_FAILED = -5"
| "error_value ERROR_SOCKET_CONNECT_FAILED = -6"
| "error_value ERROR_SEND_FAILED = -7"
| "error_value ERROR_RECEIVE_FAILED = -8"
| "error_value ERROR_TIMEOUT = -9"
| "error_value ERROR_MESSAGE_TOO_LARGE = -10"
| "error_value ERROR_INVALID_PATTERN = -11"
| "error_value ERROR_PERMISSION_DENIED = -12"
| "error_value ERROR_PATH_TOO_LONG = -13"
| "error_value ERROR_UNKNOWN = -99"

definition MAX_MESSAGE_SIZE :: nat where
  "MAX_MESSAGE_SIZE = 10 * 1024 * 1024"

definition MAX_PATH_LENGTH :: nat where
  "MAX_PATH_LENGTH = 108"

text \<open>The socket types and options of zmq.h that the bridge uses.\<close>

definition ZMQ_PUB :: int where "ZMQ_PUB = 1"
definition ZMQ_SUB :: int where "ZMQ_SUB = 2"
definition ZMQ_REQ :: int where "ZMQ_REQ = 3"
definition ZMQ_REP :: int where "ZMQ_REP = 4"
definition ZMQ_PULL :: int where "ZMQ_PULL = 7"
definition ZMQ_PUSH :: int where "ZMQ_PUSH = 8"
definition ZMQ_IO_THREADS :: int where "ZMQ_IO_THREADS = 1"
definition ZMQ_SUBSCRIBE :: int where "ZMQ_SUBSCRIBE = 6"
definition ZMQ_LINGER :: int where "ZMQ_LINGER = 17"
definition ZMQ_RCVTIMEO :: int where "ZMQ_RCVTIMEO = 27"

lemmas zmq_types = ZMQ_PUB_def ZMQ_SUB_def ZMQ_REQ_def ZMQ_REP_def ZMQ_PULL_def ZMQ_PUSH_def

text \<open>
  The calls the bridge makes. A handle is a \<open>nat\<close>, a null pointer is \<open>None\<close>. The optval of
  \<^verbatim>\<open>zmq_setsockopt\<close> is an \<^verbatim>\<open>int\<close> or a buffer; \<^verbatim>\<open>zmq_msg_recv\<close> returns
  the byte count and the content of the message it filled in.
\<close>

record 'w zmq_api =
  api_ctx_new :: "'w \<Rightarrow> nat option \<times> 'w"
  api_ctx_set :: "nat \<Rightarrow> int \<Rightarrow> int \<Rightarrow> 'w \<Rightarrow> int \<times> 'w"
  api_ctx_term :: "nat \<Rightarrow> 'w \<Rightarrow> int \<times> 'w"
  api_socket :: "nat \<Rightarrow> int \<Rightarrow> 'w \<Rightarrow> nat option \<times> 'w"
  api_close :: "nat \<Rightarrow> 'w \<Rightarrow> int \<times> 'w"
  api_setsockopt_int :: "nat \<Rightarrow> int \<Rightarrow> int \<Rightarrow> 'w \<Rightarrow> int \<times> 'w"
  api_setsockopt_buf :: "nat \<Rightarrow> int \<Rightarrow> string \<Rightarrow> 'w \<Rightarrow> int \<times> 'w"
  api_bind :: "nat \<Rightarrow> string \<Rightarrow> 'w \<Rightarrow> int \<times> 'w"
  api_connect :: "nat \<Rightarrow> string \<Rightarrow> 'w \<Rightarrow> int \<times> 'w"
  api_send :: "nat \<Rightarrow> string \<Rightarrow> int \<Rightarrow> 'w \<Rightarrow> int \<times> 'w"
  api_msg_init :: "'w \<Rightarrow> int \<times> 'w"
  api_msg_recv :: "nat \<Rightarrow> int \<Rightarrow> 'w \<Rightarrow> (int \<times> string) \<times> 'w"
  api_msg_close :: "'w \<Rightarrow> int \<times> 'w"
  api_errno :: "'w \<Rightarrow> errno"
  api_strerror :: "errno \<Rightarrow> string"
  os_access :: "string \<Rightarrow> 'w \<Rightarrow> bool"
  os_unlink :: "string \<Rightarrow> 'w \<Rightarrow> 'w"
  os_usleep :: "nat \<Rightarrow> 'w \<Rightarrow> 'w"
  os_cout :: "string \<Rightarrow> 'w \<Rightarrow> 'w"

record wrapper =
  w_context :: "nat option"
  w_socket :: "nat option"
  initialized :: bool
  config :: Config
  endpoint_path :: string

definition new_wrapper :: wrapper where
  "new_wrapper = \<lparr>w_context = None, w_socket = None, initialized = False,
     config = default_Config, endpoint_path = ''''\<rparr>"

definition Log :: "'w zmq_api \<Rightarrow> wrapper \<Rightarrow> string \<Rightarrow> 'w \<Rightarrow> 'w" where
  "Log api o1 msg w =
     (if enable_logging (config o1) then os_cout api (''[prj1] '' @ msg @ [CHR 0x0A]) w else w)"

fun GetSocketType :: "Pattern \<Rightarrow> Mode \<Rightarrow> int" where
  "GetSocketType REQ_REP m = (if m = SERVER then ZMQ_REP else ZMQ_REQ)"
| "GetSocketType PUB_SUB m = (if m = SERVER then ZMQ_PUB else ZMQ_SUB)"
| "GetSocketType PUSH_PULL m = (if m = SERVER then ZMQ_PUSH else ZMQ_PULL)"

definition BuildEndpoint :: "string \<Rightarrow> string" where
  "BuildEndpoint custom = (if custom \<noteq> [] then custom else ''ipc:///tmp/prj1.sock'')"

definition CleanupSocket :: "'w zmq_api \<Rightarrow> wrapper \<Rightarrow> 'w \<Rightarrow> wrapper \<times> 'w" where
  "CleanupSocket api o1 w =
     (let (o2, w2) = (case w_socket o1 of
            None \<Rightarrow> (o1, w)
          | Some s \<Rightarrow> (o1\<lparr>w_socket := None\<rparr>, snd (api_close api s w)))
      in case w_context o2 of
            None \<Rightarrow> (o2, w2)
          | Some c \<Rightarrow> (o2\<lparr>w_context := None\<rparr>, snd (api_ctx_term api c w2)))"

text \<open>The same block of \<^verbatim>\<open>Init\<close> and \<^verbatim>\<open>Cleanup\<close>: drop the file behind an ipc endpoint.\<close>

definition remove_socket_file :: "'w zmq_api \<Rightarrow> wrapper \<Rightarrow> string \<Rightarrow> 'w \<Rightarrow> 'w" where
  "remove_socket_file api o1 what w =
     (if take 6 (endpoint_path o1) = ''ipc://'' then
        (let file = drop 6 (endpoint_path o1) in
         if os_access api (c_str file) w then
           os_unlink api (c_str file) (Log api o1 (what @ file) w)
         else w)
      else w)"

definition Cleanup :: "'w zmq_api \<Rightarrow> wrapper \<Rightarrow> 'w \<Rightarrow> ErrorCode \<times> wrapper \<times> 'w" where
  "Cleanup api o1 w =
     (if \<not> initialized o1 then (SUCCESS, o1, w)
      else
        (let w1 = (if mode (config o1) = SERVER
                   then remove_socket_file api o1 ''Removing socket file: '' w else w);
             (o2, w2) = CleanupSocket api o1 w1;
             o3 = o2\<lparr>initialized := False\<rparr>
         in (SUCCESS, o3, Log api o3 ''Cleanup complete'' w2)))"

text \<open>The two ends of \<^verbatim>\<open>Init\<close>: bind in server mode, connect with retries in client mode.\<close>

definition Init_bind :: "'w zmq_api \<Rightarrow> wrapper \<Rightarrow> nat \<Rightarrow> 'w \<Rightarrow> ErrorCode \<times> wrapper \<times> 'w" where
  "Init_bind api o1 s w =
     (let w1 = remove_socket_file api o1 ''Removing existing socket file: '' w;
          (rc, w2) = api_bind api s (c_str (endpoint_path o1)) w1
      in if rc \<noteq> 0 then
           (let err = api_errno api w2;
                w3 = Log api o1 (''Failed to bind to '' @ endpoint_path o1 @ '': '' @ api_strerror api err) w2;
                (o2, w4) = CleanupSocket api o1 w3
            in (if err = EACCES then ERROR_PERMISSION_DENIED else ERROR_SOCKET_BIND_FAILED, o2, w4))
         else
           (SUCCESS, o1\<lparr>initialized := True\<rparr>, Log api o1 (''Bound to '' @ endpoint_path o1) w2))"

definition max_retries :: nat where
  "max_retries = 3"

text \<open>
  The retry loop; the first argument is what is left of the attempts, so the attempt being
  made is number \<open>max_retries - k\<close>. The flag says whether the loop was left by its break.
\<close>

fun connect_loop :: "nat \<Rightarrow> 'w zmq_api \<Rightarrow> wrapper \<Rightarrow> nat \<Rightarrow> 'w \<Rightarrow> bool \<times> 'w" where
  "connect_loop 0 api o1 s w = (False, w)"
| "connect_loop (Suc k) api o1 s w =
     (let (rc, w1) = api_connect api s (c_str (endpoint_path o1)) w
      in if rc = 0 then (True, Log api o1 (''Connected to '' @ endpoint_path o1) w1)
         else
           (let err = api_errno api w1;
                w2 = Log api o1 (''Connection attempt '' @ to_string (max_retries - k) @ '' failed: ''
                       @ api_strerror api err) w1;
                w3 = (if k > 0 then os_usleep api (100 * 1000) w2 else w2)
            in connect_loop k api o1 s w3))"

definition Init_connect :: "'w zmq_api \<Rightarrow> wrapper \<Rightarrow> nat \<Rightarrow> 'w \<Rightarrow> ErrorCode \<times> wrapper \<times> 'w" where
  "Init_connect api o1 s w =
     (let (ok, w1) = connect_loop max_retries api o1 s w
      in if \<not> ok then
           (let w2 = Log api o1 (''Failed to connect after '' @ to_string max_retries @ '' attempts'') w1;
                (o2, w3) = CleanupSocket api o1 w2
            in (ERROR_SOCKET_CONNECT_FAILED, o2, w3))
         else (SUCCESS, o1\<lparr>initialized := True\<rparr>, w1))"

text \<open>From the socket options on.\<close>

definition Init_socket :: "'w zmq_api \<Rightarrow> wrapper \<Rightarrow> nat \<Rightarrow> 'w \<Rightarrow> ErrorCode \<times> wrapper \<times> 'w" where
  "Init_socket api o1 s w =
     (let w1 = snd (api_setsockopt_int api s ZMQ_LINGER 0 w);
          w2 = (if timeout_ms (config o1) > 0
                then snd (api_setsockopt_int api s ZMQ_RCVTIMEO (timeout_ms (config o1)) w1) else w1);
          o2 = o1\<lparr>endpoint_path := BuildEndpoint (endpoint (config o1))\<rparr>
      in if endpoint_path o2 = [] then
           (let (o3, w3) = CleanupSocket api o2 (Log api o2 ''Failed to build endpoint'' w2)
            in (ERROR_INVALID_CONFIG, o3, w3))
         else if length (endpoint_path o2) \<ge> MAX_PATH_LENGTH then
           (let (o3, w3) = CleanupSocket api o2 (Log api o2 (''Endpoint path too long: '' @ endpoint_path o2) w2)
            in (ERROR_PATH_TOO_LONG, o3, w3))
         else if mode (config o2) = SERVER then Init_bind api o2 s w2
         else Init_connect api o2 s w2)"

definition Init :: "'w zmq_api \<Rightarrow> Config \<Rightarrow> wrapper \<Rightarrow> 'w \<Rightarrow> ErrorCode \<times> wrapper \<times> 'w" where
  "Init api cfg o0 w =
     (if initialized o0 then (ERROR_ALREADY_INITIALIZED, o0, w)
      else if timeout_ms cfg < 0 then (ERROR_INVALID_CONFIG, o0, w)
      else
        (let o1 = o0\<lparr>config := cfg\<rparr>; (c, w1) = api_ctx_new api w; o2 = o1\<lparr>w_context := c\<rparr>
         in case c of
              None \<Rightarrow> (ERROR_SOCKET_CREATE_FAILED, o2, Log api o2 ''Failed to create ZeroMQ context'' w1)
            | Some ctx \<Rightarrow>
                (let w2 = snd (api_ctx_set api ctx ZMQ_IO_THREADS 1 w1);
                     ty = GetSocketType (pattern cfg) (mode cfg)
                 in if ty < 0 then
                      (ERROR_INVALID_PATTERN, o2\<lparr>w_context := None\<rparr>, snd (api_ctx_term api ctx w2))
                    else
                      (let (s, w3) = api_socket api ctx ty w2; o3 = o2\<lparr>w_socket := s\<rparr>
                       in case s of
                            None \<Rightarrow>
                              (ERROR_SOCKET_CREATE_FAILED, o3\<lparr>w_context := None\<rparr>,
                               snd (api_ctx_term api ctx (Log api o3 ''Failed to create ZeroMQ socket'' w3)))
                          | Some sk \<Rightarrow> Init_socket api o3 sk w3))))"

definition SendMessage :: "'w zmq_api \<Rightarrow> string \<Rightarrow> wrapper \<Rightarrow> 'w \<Rightarrow> ErrorCode \<times> wrapper \<times> 'w" where
  "SendMessage api message o1 w =
     (case w_socket o1 of
        None \<Rightarrow> (ERROR_NOT_INITIALIZED, o1, w)
      | Some s \<Rightarrow>
          if \<not> initialized o1 then (ERROR_NOT_INITIALIZED, o1, w)
          else if length message > MAX_MESSAGE_SIZE then
            (ERROR_MESSAGE_TOO_LARGE, o1,
             Log api o1 (''Message too large: '' @ to_string (length message) @ '' bytes'') w)
          else
            (let (rc, w1) = api_send api s message 0 w
             in if rc < 0 then
                  (ERROR_SEND_FAILED, o1, Log api o1 (''Send failed: '' @ api_strerror api (api_errno api w1)) w1)
                else
                  (SUCCESS, o1, Log api o1 (''Sent message: '' @ to_string (length message) @ '' bytes'') w1)))"

text \<open>The output parameter is the third component: what the caller's string holds afterwards.\<close>

definition ReceiveMessage ::
  "'w zmq_api \<Rightarrow> string \<Rightarrow> wrapper \<Rightarrow> 'w \<Rightarrow> ErrorCode \<times> string \<times> wrapper \<times> 'w" where
  "ReceiveMessage api message o1 w =
     (case w_socket o1 of
        None \<Rightarrow> (ERROR_NOT_INITIALIZED, message, o1, w)
      | Some s \<Rightarrow>
          if \<not> initialized o1 then (ERROR_NOT_INITIALIZED, message, o1, w)
          else
            (let (rc0, w0) = api_msg_init api w
             in if rc0 \<noteq> 0 then
                  (ERROR_RECEIVE_FAILED, message, o1, Log api o1 ''Failed to initialize message'' w0)
                else
                  (let ((nbytes, data), w1) = api_msg_recv api s 0 w0; w2 = snd (api_msg_close api w1)
                   in if nbytes < 0 then
                        (let err = api_errno api w1
                         in if err = EAGAIN \<or> err = ETIMEDOUT then
                              (ERROR_TIMEOUT, message, o1, Log api o1 ''Receive timeout'' w2)
                            else
                              (ERROR_RECEIVE_FAILED, message, o1,
                               Log api o1 (''Receive failed: '' @ api_strerror api err) w2))
                      else if length data > MAX_MESSAGE_SIZE then
                        (ERROR_MESSAGE_TOO_LARGE, message, o1,
                         Log api o1 (''Received message too large: '' @ to_string (length data) @ '' bytes'') w2)
                      else
                        (SUCCESS, data, o1,
                         Log api o1 (''Received message: '' @ to_string (length data) @ '' bytes'') w2))))"

definition Subscribe :: "'w zmq_api \<Rightarrow> string \<Rightarrow> wrapper \<Rightarrow> 'w \<Rightarrow> ErrorCode \<times> wrapper \<times> 'w" where
  "Subscribe api topic o1 w =
     (case w_socket o1 of
        None \<Rightarrow> (ERROR_NOT_INITIALIZED, o1, w)
      | Some s \<Rightarrow>
          if \<not> initialized o1 then (ERROR_NOT_INITIALIZED, o1, w)
          else if pattern (config o1) \<noteq> PUB_SUB \<or> mode (config o1) \<noteq> CLIENT then
            (ERROR_INVALID_PATTERN, o1, Log api o1 ''Subscribe only valid for PUB/SUB client'' w)
          else
            (let (rc, w1) = api_setsockopt_buf api s ZMQ_SUBSCRIBE topic w
             in if rc \<noteq> 0 then
                  (ERROR_SOCKET_CREATE_FAILED, o1,
                   Log api o1 (''Subscribe failed: '' @ api_strerror api (api_errno api w1)) w1)
                else
                  (SUCCESS, o1,
                   Log api o1 (''Subscribed to topic: '' @ (if topic = [] then ''<all>'' else topic)) w1)))"

definition Close :: "'w zmq_api \<Rightarrow> wrapper \<Rightarrow> 'w \<Rightarrow> ErrorCode \<times> wrapper \<times> 'w" where
  "Close api o1 w = Cleanup api o1 w"

text \<open>The destructor of the implementation object, which the wrapper's destructor runs.\<close>

definition destroy_wrapper :: "'w zmq_api \<Rightarrow> wrapper \<Rightarrow> 'w \<Rightarrow> 'w" where
  "destroy_wrapper api o1 w = snd (snd (Cleanup api o1 w))"

definition IsInitialized :: "wrapper \<Rightarrow> bool" where
  "IsInitialized o1 = initialized o1"

fun GetErrorMessage :: "ErrorCode \<Rightarrow> string" where
  "GetErrorMessage SUCCESS = ''Success''"
| "GetErrorMessage ERROR_NOT_INITIALIZED = ''Wrapper not initialized''"
| "GetErrorMessage ERROR_ALREADY_INITIALIZED = ''Wrapper already initialized''"
| "GetErrorMessage ERROR_INVALID_CONFIG = ''Invalid configuration''"
| "GetErrorMessage ERROR_SOCKET_CREATE_FAILED = ''Failed to create socket''"
| "GetErrorMessage ERROR_SOCKET_BIND_FAILED = ''Failed to bind socket''"
| "GetErrorMessage ERROR_SOCKET_CONNECT_FAILED = ''Failed to connect socket''"
| "GetErrorMessage ERROR_SEND_FAILED = ''Failed to send message''"
| "GetErrorMessage ERROR_RECEIVE_FAILED = ''Failed to receive message''"
| "GetErrorMessage ERROR_TIMEOUT = ''Operation timed out''"
| "GetErrorMessage ERROR_MESSAGE_TOO_LARGE = ''Message too large''"
| "GetErrorMessage ERROR_INVALID_PATTERN = ''Invalid communication pattern''"
| "GetErrorMessage ERROR_PERMISSION_DENIED = ''Permission denied''"
| "GetErrorMessage ERROR_PATH_TOO_LONG = ''Path too long''"
| "GetErrorMessage ERROR_UNKNOWN = ''Unknown error''"

subsection \<open>Sequences of calls on one object\<close>

datatype call = CInit Config | CSend string | CReceive string | CSubscribe string | CClose

fun call_step :: "'w zmq_api \<Rightarrow> call \<Rightarrow> wrapper \<times> 'w \<Rightarrow> ErrorCode \<times> wrapper \<times> 'w" where
  "call_step api (CInit cfg) (o1, w) = Init api cfg o1 w"
| "call_step api (CSend m) (o1, w) = SendMessage api m o1 w"
| "call_step api (CReceive m) (o1, w) = (let (e, m', o2, w2) = ReceiveMessage api m o1 w in (e, o2, w2))"
| "call_step api (CSubscribe t) (o1, w) = Subscribe api t o1 w"
| "call_step api CClose (o1, w) = Close api o1 w"

fun call_run :: "'w zmq_api \<Rightarrow> call list \<Rightarrow> wrapper \<times> 'w \<Rightarrow> ErrorCode list \<times> wrapper \<times> 'w" where
  "call_run api [] s = ([], s)"
| "call_run api (x # xs) s =
     (let (e, s') = call_step api x s; (es, s'') = call_run api xs s' in (e # es, s''))"

subsection \<open>What the bridge relies on\<close>

text \<open>
  The handles a world has open: contexts, and sockets with the context they belong to. A
  context is terminated only after its sockets are closed; with an open socket
  \<^verbatim>\<open>zmq_ctx_term\<close> would wait for it, so nothing is promised there.
\<close>

locale zmq_library =
  fixes api :: "'w zmq_api"
    and winv :: "'w \<Rightarrow> bool"
    and ctxs :: "'w \<Rightarrow> nat set"
    and socks :: "'w \<Rightarrow> (nat \<times> nat) set"
    and msgs :: "'w \<Rightarrow> nat"
  assumes ctx_new_law: "winv w \<Longrightarrow> api_ctx_new api w = (cp, w') \<Longrightarrow>
      winv w' \<and> socks w' = socks w \<and> msgs w' = msgs w
        \<and> ctxs w' = ctxs w \<union> set_option cp \<and> set_option cp \<inter> ctxs w = {}"
    and socket_law: "winv w \<Longrightarrow> c \<in> ctxs w \<Longrightarrow> api_socket api c ty w = (sp, w') \<Longrightarrow>
      winv w' \<and> ctxs w' = ctxs w \<and> msgs w' = msgs w \<and> socks w' = socks w \<union> set_option sp \<times> {c}
        \<and> set_option sp \<inter> fst ` socks w = {}"
    and close_law: "winv w \<Longrightarrow> (s, c) \<in> socks w \<Longrightarrow> api_close api s w = (r, w') \<Longrightarrow>
      winv w' \<and> ctxs w' = ctxs w \<and> msgs w' = msgs w \<and> socks w' = socks w - {(s, c)}"
    and term_law: "winv w \<Longrightarrow> c \<in> ctxs w \<Longrightarrow> c \<notin> snd ` socks w \<Longrightarrow> api_ctx_term api c w = (r, w') \<Longrightarrow>
      winv w' \<and> ctxs w' = ctxs w - {c} \<and> msgs w' = msgs w \<and> socks w' = socks w"
    and ctx_set_law: "winv w \<Longrightarrow> api_ctx_set api c opt v w = (r, w') \<Longrightarrow>
      winv w' \<and> ctxs w' = ctxs w \<and> socks w' = socks w \<and> msgs w' = msgs w"
    and opt_int_law: "winv w \<Longrightarrow> api_setsockopt_int api s opt v w = (r, w') \<Longrightarrow>
      winv w' \<and> ctxs w' = ctxs w \<and> socks w' = socks w \<and> msgs w' = msgs w"
    and opt_buf_law: "winv w \<Longrightarrow> api_setsockopt_buf api s opt b w = (r, w') \<Longrightarrow>
      winv w' \<and> ctxs w' = ctxs w \<and> socks w' = socks w \<and> msgs w' = msgs w"
    and bind_law: "winv w \<Longrightarrow> api_bind api s ep w = (r, w') \<Longrightarrow>
      winv w' \<and> ctxs w' = ctxs w \<and> socks w' = socks w \<and> msgs w' = msgs w"
    and connect_law: "winv w \<Longrightarrow> api_connect api s ep w = (r, w') \<Longrightarrow>
      winv w' \<and> ctxs w' = ctxs w \<and> socks w' = socks w \<and> msgs w' = msgs w"
    and send_law: "winv w \<Longrightarrow> api_send api s m f w = (r, w') \<Longrightarrow>
      winv w' \<and> ctxs w' = ctxs w \<and> socks w' = socks w \<and> msgs w' = msgs w"
    and msg_init_law: "winv w \<Longrightarrow> api_msg_init api w = (r, w') \<Longrightarrow>
      winv w' \<and> ctxs w' = ctxs w \<and> socks w' = socks w \<and> msgs w' = msgs w + (if r = 0 then 1 else 0)"
    and msg_recv_law: "winv w \<Longrightarrow> 0 < msgs w \<Longrightarrow> api_msg_recv api s f w = (rd, w') \<Longrightarrow>
      winv w' \<and> ctxs w' = ctxs w \<and> socks w' = socks w \<and> msgs w' = msgs w"
    and msg_close_law: "winv w \<Longrightarrow> 0 < msgs w \<Longrightarrow> api_msg_close api w = (r, w') \<Longrightarrow>
      winv w' \<and> ctxs w' = ctxs w \<and> socks w' = socks w \<and> msgs w' = msgs w - 1"
    and unlink_law: "winv w \<Longrightarrow> os_unlink api p w = w' \<Longrightarrow>
      winv w' \<and> ctxs w' = ctxs w \<and> socks w' = socks w \<and> msgs w' = msgs w"
    and usleep_law: "winv w \<Longrightarrow> os_usleep api n w = w' \<Longrightarrow>
      winv w' \<and> ctxs w' = ctxs w \<and> socks w' = socks w \<and> msgs w' = msgs w"
    and cout_law: "winv w \<Longrightarrow> os_cout api m w = w' \<Longrightarrow>
      winv w' \<and> ctxs w' = ctxs w \<and> socks w' = socks w \<and> msgs w' = msgs w"
begin

text \<open>Two worlds with the same handles open.\<close>

definition same_res :: "'w \<Rightarrow> 'w \<Rightarrow> bool" where
  "same_res w w' \<longleftrightarrow>
     (winv w \<longrightarrow> winv w' \<and> ctxs w' = ctxs w \<and> socks w' = socks w \<and> msgs w' = msgs w)"

lemma same_res_refl [simp]: "same_res w w"
  by (simp add: same_res_def)

lemma same_res_trans: "same_res u v \<Longrightarrow> same_res v w \<Longrightarrow> same_res u w"
  by (auto simp: same_res_def)

lemma same_res_calls:
  "same_res w (os_cout api m w)" "same_res w (os_unlink api p w)" "same_res w (os_usleep api n w)"
  "same_res w (snd (api_ctx_set api c opt i w))" "same_res w (snd (api_setsockopt_int api s opt i w))"
  "same_res w (snd (api_setsockopt_buf api s opt b w))" "same_res w (snd (api_bind api s ep w))"
  "same_res w (snd (api_connect api s ep w))" "same_res w (snd (api_send api s b i w))"
  unfolding same_res_def
  using cout_law [OF _ refl, of w m] unlink_law [OF _ refl, of w p] usleep_law [OF _ refl, of w n]
    ctx_set_law [OF _ prod.collapse [symmetric], of w c opt i]
    opt_int_law [OF _ prod.collapse [symmetric], of w s opt i]
    opt_buf_law [OF _ prod.collapse [symmetric], of w s opt b]
    bind_law [OF _ prod.collapse [symmetric], of w s ep]
    connect_law [OF _ prod.collapse [symmetric], of w s ep]
    send_law [OF _ prod.collapse [symmetric], of w s b i]
  by blast+

lemmas same_res_then [simp] = same_res_calls [THEN same_res_trans [rotated]]

lemma same_res_Log [simp]: "same_res v w \<Longrightarrow> same_res v (Log api o1 m w)"
  by (simp add: Log_def)

lemma same_res_remove [simp]: "same_res v w \<Longrightarrow> same_res v (remove_socket_file api o1 m w)"
  by (simp add: remove_socket_file_def Let_def)

lemma same_res_connect_loop [simp]: "same_res v w \<Longrightarrow> same_res v (snd (connect_loop k api o1 s w))"
  by (induction k arbitrary: w) (simp_all add: case_prod_beta Let_def)

text \<open>The message object of one receive is initialised and closed on every path.\<close>

lemma same_res_ReceiveMessage:
  assumes "ReceiveMessage api m o1 w = (e, m', o2, w2)"
  shows "o2 = o1 \<and> same_res w w2"
proof -
  obtain r0 w0 where w0: "api_msg_init api w = (r0, w0)" by fastforce
  have *: "same_res w (snd (api_msg_close api (snd (api_msg_recv api s 0 w0))))" if "r0 = 0" for s
  proof -
    obtain rd w1 where w1: "api_msg_recv api s 0 w0 = (rd, w1)" by fastforce
    obtain r w2 where w2: "api_msg_close api w1 = (r, w2)" by fastforce
    show ?thesis
      using msg_init_law [OF _ w0] msg_recv_law [OF _ _ w1] msg_close_law [OF _ _ w2] w1 w2 that
      by (auto simp: same_res_def)
  qed
  have "same_res w w0" if "r0 \<noteq> 0"
    using msg_init_law [OF _ w0] that by (auto simp: same_res_def)
  with * w0 assms show ?thesis
    by (auto simp: ReceiveMessage_def case_prod_beta Let_def split: option.splits if_splits)
qed

text \<open>
  The object owns a context and a socket exactly while it is initialised; \<open>C\<close> and \<open>S\<close> are what
  the rest of the process has open.
\<close>

definition holds_res :: "wrapper \<Rightarrow> 'w \<Rightarrow> nat set \<Rightarrow> (nat \<times> nat) set \<Rightarrow> nat \<Rightarrow> nat \<Rightarrow> nat \<Rightarrow> bool" where
  "holds_res o1 w C S n c s \<longleftrightarrow> winv w \<and> snd ` S \<subseteq> C \<and> w_context o1 = Some c \<and> w_socket o1 = Some s
     \<and> c \<notin> C \<and> s \<notin> fst ` S \<and> ctxs w = insert c C \<and> socks w = insert (s, c) S \<and> msgs w = n"

definition free_res :: "wrapper \<Rightarrow> 'w \<Rightarrow> nat set \<Rightarrow> (nat \<times> nat) set \<Rightarrow> nat \<Rightarrow> bool" where
  "free_res o1 w C S n \<longleftrightarrow> winv w \<and> snd ` S \<subseteq> C \<and> w_context o1 = None \<and> w_socket o1 = None
     \<and> ctxs w = C \<and> socks w = S \<and> msgs w = n"

definition owns :: "wrapper \<Rightarrow> 'w \<Rightarrow> nat set \<Rightarrow> (nat \<times> nat) set \<Rightarrow> nat \<Rightarrow> bool" where
  "owns o1 w C S n \<longleftrightarrow>
     (if initialized o1 then \<exists>c s. holds_res o1 w C S n c s else free_res o1 w C S n)"

lemma holds_res_same: "holds_res o1 w C S n c s \<Longrightarrow> same_res w w' \<Longrightarrow> holds_res o1 w' C S n c s"
  by (auto simp: holds_res_def same_res_def)

lemma free_res_same: "free_res o1 w C S n \<Longrightarrow> same_res w w' \<Longrightarrow> free_res o1 w' C S n"
  by (auto simp: free_res_def same_res_def)

lemma owns_same: "owns o1 w C S n \<Longrightarrow> same_res w w' \<Longrightarrow> owns o1 w' C S n"
  by (metis owns_def holds_res_same free_res_same)

lemma owns_initialized:
  "holds_res o1 w C S n c s \<Longrightarrow> same_res w w' \<Longrightarrow> owns (o1\<lparr>initialized := True\<rparr>) w' C S n"
  unfolding owns_def by (rule if_P [THEN iffD2, rotated], rule exI [of _ c], rule exI [of _ s])
    (auto simp: holds_res_def same_res_def)

lemma CleanupSocket_releases:
  assumes "holds_res o1 w C S n c s" "CleanupSocket api o1 w = (o2, w2)"
  shows "free_res o2 w2 C S n \<and> initialized o2 = initialized o1 \<and> config o2 = config o1"
proof -
  obtain r w1 where w1: "api_close api s w = (r, w1)" by fastforce
  then have "winv w1" "ctxs w1 = insert c C" "socks w1 = S" "msgs w1 = n"
    using close_law [of w s c r w1] assms(1) by (auto simp: holds_res_def image_iff)
  moreover obtain r' w3 where "api_ctx_term api c w1 = (r', w3)" by fastforce
  moreover have "c \<notin> snd ` S" using assms(1) by (auto simp: holds_res_def)
  ultimately show ?thesis
    using term_law [of w1 c r' w3] assms w1 by (auto simp: CleanupSocket_def holds_res_def free_res_def)
qed

lemma CleanupSocket_after:
  assumes "holds_res o1 w C S n c s" "same_res w w1" "\<not> initialized o1"
    and "CleanupSocket api o1 w1 = (o2, w2)"
  shows "owns o2 w2 C S n" "\<not> initialized o2"
  using CleanupSocket_releases [OF holds_res_same [OF assms(1,2)] assms(4)] assms(3)
  by (auto simp: owns_def)

lemma Init_bind_owns:
  assumes "holds_res o1 w C S n c s" "\<not> initialized o1" "Init_bind api o1 s w = (e, o2, w2)"
  shows "owns o2 w2 C S n \<and> (initialized o2 \<longleftrightarrow> e = SUCCESS)"
proof (cases "e = SUCCESS")
  case True
  with assms(3) have "o2 = o1\<lparr>initialized := True\<rparr>" "same_res w w2"
    by (auto simp: Init_bind_def Let_def case_prod_beta split: if_splits)
  with owns_initialized [OF assms(1)] True show ?thesis by simp
next
  case False
  with assms(3) obtain w1 where "CleanupSocket api o1 w1 = (o2, w2)" "same_res w w1"
    by (fastforce simp: Init_bind_def Let_def case_prod_beta split: if_splits)
  with False CleanupSocket_after [OF assms(1) _ assms(2)] show ?thesis by blast
qed

lemma Init_connect_owns:
  assumes "holds_res o1 w C S n c s" "\<not> initialized o1" "Init_connect api o1 s w = (e, o2, w2)"
  shows "owns o2 w2 C S n \<and> (initialized o2 \<longleftrightarrow> e = SUCCESS)"
proof (cases "e = SUCCESS")
  case True
  with assms(3) have "o2 = o1\<lparr>initialized := True\<rparr>" "same_res w w2"
    by (auto simp: Init_connect_def Let_def case_prod_beta split: if_splits)
  with owns_initialized [OF assms(1)] True show ?thesis by simp
next
  case False
  with assms(3) obtain w1 where "CleanupSocket api o1 w1 = (o2, w2)" "same_res w w1"
    by (fastforce simp: Init_connect_def Let_def case_prod_beta split: if_splits)
  with False CleanupSocket_after [OF assms(1) _ assms(2)] show ?thesis by blast
qed

lemma Init_socket_owns:
  assumes "holds_res o1 w C S n c s" "\<not> initialized o1" "Init_socket api o1 s w = (e, o2, w2)"
  shows "owns o2 w2 C S n \<and> (initialized o2 \<longleftrightarrow> e = SUCCESS)"
proof -
  define w1 where "w1 = (if timeout_ms (config o1) > 0
    then snd (api_setsockopt_int api s ZMQ_RCVTIMEO (timeout_ms (config o1))
      (snd (api_setsockopt_int api s ZMQ_LINGER 0 w))) else snd (api_setsockopt_int api s ZMQ_LINGER 0 w))"
  define o1' where "o1' = o1\<lparr>endpoint_path := BuildEndpoint (endpoint (config o1))\<rparr>"
  have w1: "same_res w w1" by (simp add: w1_def)
  have h: "holds_res o1' w1 C S n c s" "\<not> initialized o1'"
    using holds_res_same [OF assms(1) w1] assms(2) by (simp_all add: o1'_def holds_res_def)
  consider m e' where "CleanupSocket api o1' (Log api o1' m w1) = (o2, w2)" "e = e'" "e' \<noteq> SUCCESS"
    | "Init_bind api o1' s w1 = (e, o2, w2)" | "Init_connect api o1' s w1 = (e, o2, w2)"
    using assms(3) unfolding Init_socket_def Let_def w1_def [symmetric] o1'_def [symmetric]
    by (auto simp: case_prod_beta prod_eq_iff split: if_splits)
  then show ?thesis
  proof cases
    case 1
    from CleanupSocket_after [OF h(1) _ h(2) 1(1)] 1 show ?thesis by simp
  next
    case 2
    from Init_bind_owns [OF h 2] show ?thesis .
  next
    case 3
    from Init_connect_owns [OF h 3] show ?thesis .
  qed
qed

lemma term_unused:
  assumes "winv w" "snd ` S \<subseteq> C" "c \<notin> C" "ctxs w = insert c C" "socks w = S" "msgs w = n"
    and "w_context o1 = None" "w_socket o1 = None" "\<not> initialized o1"
  shows "owns o1 (snd (api_ctx_term api c w)) C S n"
  using term_law [OF _ _ _ prod.collapse [symmetric], of w c] assms
  by (auto simp: owns_def free_res_def)

lemma Init_socket_create_owns:
  assumes ctx: "winv w" "ctxs w = insert ctx C" "socks w = S" "msgs w = n" "ctx \<notin> C" "snd ` S \<subseteq> C"
    and o1: "\<not> initialized o1" "w_context o1 = Some ctx"
    and run: "(let (s, w3) = api_socket api ctx ty w; o3 = o1\<lparr>w_socket := s\<rparr>
       in case s of
            None \<Rightarrow>
              (ERROR_SOCKET_CREATE_FAILED, o3\<lparr>w_context := None\<rparr>,
               snd (api_ctx_term api ctx (Log api o3 ''Failed to create ZeroMQ socket'' w3)))
          | Some sk \<Rightarrow> Init_socket api o3 sk w3) = (e, o2, w2)"
  shows "owns o2 w2 C S n \<and> (initialized o2 \<longleftrightarrow> e = SUCCESS)"
proof -
  obtain sp w3 where w3: "api_socket api ctx ty w = (sp, w3)" by fastforce
  note sock = socket_law [OF ctx(1) _ w3]
  show ?thesis
  proof (cases sp)
    case None
    define w4 where "w4 = Log api (o1\<lparr>w_socket := None\<rparr>) ''Failed to create ZeroMQ socket'' w3"
    have w4: "winv w4" "ctxs w4 = insert ctx C" "socks w4 = S" "msgs w4 = n"
      using sock ctx None same_res_Log [OF same_res_refl, of w3 "o1\<lparr>w_socket := None\<rparr>"]
      by (auto simp: same_res_def w4_def)
    then have "owns (o1\<lparr>w_socket := None, w_context := None\<rparr>) (snd (api_ctx_term api ctx w4)) C S n"
      using ctx o1 by (intro term_unused) auto
    with run w3 None o1 show ?thesis by (auto simp: Let_def w4_def)
  next
    case (Some s)
    have "holds_res (o1\<lparr>w_socket := Some s\<rparr>) w3 C S n ctx s"
      using sock ctx Some o1 by (auto simp: holds_res_def)
    moreover have "Init_socket api (o1\<lparr>w_socket := Some s\<rparr>) s w3 = (e, o2, w2)"
      using run w3 Some by (simp add: Let_def)
    ultimately show ?thesis using o1 by (intro Init_socket_owns) simp_all
  qed
qed

lemma Init_owns:
  assumes "owns o1 w C S n" "\<not> initialized o1" "Init api cfg o1 w = (e, o2, w2)"
  shows "owns o2 w2 C S n \<and> (initialized o2 \<longleftrightarrow> e = SUCCESS)"
proof (cases "timeout_ms cfg < 0")
  case True
  with assms show ?thesis by (auto simp: Init_def)
next
  case valid: False
  from assms(1,2) have free: "free_res o1 w C S n" by (simp add: owns_def)
  obtain cp w1 where w1: "api_ctx_new api w = (cp, w1)" by fastforce
  note new = ctx_new_law [OF _ w1]
  show ?thesis
  proof (cases cp)
    case None
    have "free_res (o1\<lparr>config := cfg, w_context := None\<rparr>) w1 C S n"
      using free new None by (auto simp: free_res_def)
    with assms(2,3) valid w1 None show ?thesis
      by (auto simp: Init_def Let_def owns_def intro: free_res_same)
  next
    case (Some ctx)
    define wc where "wc = snd (api_ctx_set api ctx ZMQ_IO_THREADS 1 w1)"
    have wc: "winv wc" "ctxs wc = insert ctx C" "socks wc = S" "msgs wc = n" "ctx \<notin> C" "snd ` S \<subseteq> C"
      using free new Some same_res_calls(4) [of w1 ctx ZMQ_IO_THREADS 1]
      by (auto simp: free_res_def same_res_def wc_def)
    have "\<not> GetSocketType (pattern cfg) (mode cfg) < 0"
      by (cases "pattern cfg") (auto simp: zmq_types)
    with assms(2,3) valid w1 Some show ?thesis
      by (intro Init_socket_create_owns [OF wc, of "o1\<lparr>config := cfg, w_context := Some ctx\<rparr>"])
        (simp_all add: Init_def Let_def wc_def [symmetric])
  qed
qed

text \<open>The other calls: a message call keeps what is open, \<open>Close\<close> gives the resources back.\<close>

lemma SendMessage_owns:
  "owns o1 w C S n \<Longrightarrow> SendMessage api m o1 w = (e, o2, w2) \<Longrightarrow> owns o2 w2 C S n \<and> o2 = o1"
  by (auto simp: SendMessage_def Let_def case_prod_beta split: option.splits if_splits intro: owns_same)

lemma Subscribe_owns:
  "owns o1 w C S n \<Longrightarrow> Subscribe api t o1 w = (e, o2, w2) \<Longrightarrow> owns o2 w2 C S n \<and> o2 = o1"
  by (auto simp: Subscribe_def Let_def case_prod_beta split: option.splits if_splits intro: owns_same)

lemma Cleanup_owns:
  assumes "owns o1 w C S n" "Cleanup api o1 w = (e, o2, w2)"
  shows "owns o2 w2 C S n \<and> \<not> initialized o2 \<and> e = SUCCESS"
proof (cases "initialized o1")
  case True
  define w1 where "w1 = (if mode (config o1) = SERVER
    then remove_socket_file api o1 ''Removing socket file: '' w else w)"
  obtain o3 w3 where c: "CleanupSocket api o1 w1 = (o3, w3)" by fastforce
  from assms(1) True obtain c s where "holds_res o1 w C S n c s" by (auto simp: owns_def)
  then have "holds_res o1 w1 C S n c s" by (rule holds_res_same) (simp add: w1_def)
  from CleanupSocket_releases [OF this c] have "free_res (o3\<lparr>initialized := False\<rparr>) w3 C S n"
    by (simp add: free_res_def)
  with assms(2) c True show ?thesis
    by (auto simp: Cleanup_def Let_def w1_def [symmetric] owns_def intro: free_res_same)
qed (use assms in \<open>auto simp: Cleanup_def\<close>)

lemma call_step_owns:
  assumes "owns o1 w C S n" "call_step api x (o1, w) = (e, o2, w2)"
  shows "owns o2 w2 C S n"
proof (cases x)
  case (CInit cfg)
  show ?thesis
    using assms CInit Init_owns [OF assms(1)] by (cases "initialized o1") (auto simp: Init_def)
next
  case (CReceive m)
  with assms show ?thesis
    by (auto split: prod.splits dest!: same_res_ReceiveMessage intro: owns_same)
next
  case (CSend m)
  with assms SendMessage_owns show ?thesis by simp
next
  case (CSubscribe t)
  with assms Subscribe_owns show ?thesis by simp
next
  case CClose
  with assms(2) have "Cleanup api o1 w = (e, o2, w2)" by (simp add: Close_def)
  from Cleanup_owns [OF assms(1) this] show ?thesis by (rule conjunct1)
qed

lemma call_run_owns:
  "owns o1 w C S n \<Longrightarrow> call_run api xs (o1, w) = (es, o2, w2) \<Longrightarrow> owns o2 w2 C S n"
proof (induction xs arbitrary: o1 w es)
  case (Cons x xs)
  obtain e o3 w3 where "call_step api x (o1, w) = (e, o3, w3)" by (metis prod.exhaust)
  moreover obtain es' where "call_run api xs (o3, w3) = (es', o2, w2)"
    using Cons.prems(2) calculation by (auto split: prod.splits)
  ultimately show ?case using Cons.IH Cons.prems(1) call_step_owns by blast
qed simp

text \<open>Whatever is called in whatever order, destroying the object leaves only what was open before.\<close>

lemma no_leak:
  assumes "winv w" "snd ` socks w \<subseteq> ctxs w" "call_run api xs (new_wrapper, w) = (es, o2, w2)"
    and w3: "w3 = destroy_wrapper api o2 w2"
  shows "winv w3 \<and> ctxs w3 = ctxs w \<and> socks w3 = socks w \<and> msgs w3 = msgs w"
proof -
  have "owns new_wrapper w (ctxs w) (socks w) (msgs w)"
    using assms(1,2) by (simp add: owns_def free_res_def new_wrapper_def)
  from call_run_owns [OF this assms(3)] have "owns o2 w2 (ctxs w) (socks w) (msgs w)" .
  moreover obtain e o3 w4 where c: "Cleanup api o2 w2 = (e, o3, w4)" by (metis prod.exhaust)
  ultimately have "owns o3 w4 (ctxs w) (socks w) (msgs w)" "\<not> initialized o3"
    by (blast dest: Cleanup_owns)+
  then have "free_res o3 w4 (ctxs w) (socks w) (msgs w)" by (simp add: owns_def)
  with c w3 show ?thesis by (simp add: destroy_wrapper_def free_res_def)
qed

end

end
