(* ===== verification/Bridge_Trace.thy ===== *)
theory Bridge_Trace
  imports Wrapper "HOL-Library.Sublist"
begin

text \<open>
  The order in which the bridge calls libzmq. \<open>traced\<close> is any library with a log of the calls
  made of it; the log does not change what the bridge does. \<open>typestate\<close> is the
  protocol of zmq.h for one user: a context is created when none is held, a socket lives in
  a held context, is used only while open and is closed before its context is terminated, and a
  message object is received into between its initialisation and its close. The methods of the
  bridge follow it in every sequence of calls, whatever the library answers.
\<close>

datatype event =
    EvCtxNew "nat option" | EvCtxSet nat int int | EvCtxTerm nat
  | EvSocket nat int "nat option" | EvClose nat
  | EvSetInt nat int int | EvSetBuf nat int string
  | EvBind nat string | EvConnect nat string | EvSend nat string int
  | EvMsgInit int | EvRecv nat int | EvMsgClose
  | EvUnlink string | EvSleep nat | EvCout string

definition traced :: "'w zmq_api \<Rightarrow> ('w \<times> event list) zmq_api" where
  "traced api = \<lparr>
     api_ctx_new = \<lambda>(w, t). (let (c, w') = api_ctx_new api w in (c, w', t @ [EvCtxNew c])),
     api_ctx_set = \<lambda>c opt v (w, t). (let (r, w') = api_ctx_set api c opt v w in (r, w', t @ [EvCtxSet c opt v])),
     api_ctx_term = \<lambda>c (w, t). (let (r, w') = api_ctx_term api c w in (r, w', t @ [EvCtxTerm c])),
     api_socket = \<lambda>c ty (w, t). (let (s, w') = api_socket api c ty w in (s, w', t @ [EvSocket c ty s])),
     api_close = \<lambda>s (w, t). (let (r, w') = api_close api s w in (r, w', t @ [EvClose s])),
     api_setsockopt_int = \<lambda>s opt v (w, t).
       (let (r, w') = api_setsockopt_int api s opt v w in (r, w', t @ [EvSetInt s opt v])),
     api_setsockopt_buf = \<lambda>s opt v (w, t).
       (let (r, w') = api_setsockopt_buf api s opt v w in (r, w', t @ [EvSetBuf s opt v])),
     api_bind = \<lambda>s ep (w, t). (let (r, w') = api_bind api s ep w in (r, w', t @ [EvBind s ep])),
     api_connect = \<lambda>s ep (w, t). (let (r, w') = api_connect api s ep w in (r, w', t @ [EvConnect s ep])),
     api_send = \<lambda>s m f (w, t). (let (r, w') = api_send api s m f w in (r, w', t @ [EvSend s m f])),
     api_msg_init = \<lambda>(w, t). (let (r, w') = api_msg_init api w in (r, w', t @ [EvMsgInit r])),
     api_msg_recv = \<lambda>s f (w, t). (let (r, w') = api_msg_recv api s f w in (r, w', t @ [EvRecv s f])),
     api_msg_close = \<lambda>(w, t). (let (r, w') = api_msg_close api w in (r, w', t @ [EvMsgClose])),
     api_errno = \<lambda>(w, t). api_errno api w,
     api_strerror = api_strerror api,
     os_access = \<lambda>p (w, t). os_access api p w,
     os_unlink = \<lambda>p (w, t). (os_unlink api p w, t @ [EvUnlink p]),
     os_usleep = \<lambda>n (w, t). (os_usleep api n w, t @ [EvSleep n]),
     os_cout = \<lambda>m (w, t). (os_cout api m w, t @ [EvCout m])\<rparr>"

text \<open>The states of the protocol: the context and the socket held, and whether a message is open.\<close>

type_synonym held = "nat option \<times> nat option \<times> bool"

fun typestate :: "event \<Rightarrow> held \<Rightarrow> held option" where
  "typestate (EvCtxNew c) (h, s, m) = (if h = None \<and> s = None then Some (c, s, m) else None)"
| "typestate (EvCtxSet c opt v) (h, s, m) = (if h = Some c then Some (h, s, m) else None)"
| "typestate (EvCtxTerm c) (h, s, m) = (if h = Some c \<and> s = None then Some (None, s, m) else None)"
| "typestate (EvSocket c ty r) (h, s, m) = (if h = Some c \<and> s = None then Some (h, r, m) else None)"
| "typestate (EvClose k) (h, s, m) = (if s = Some k \<and> \<not> m then Some (h, None, m) else None)"
| "typestate (EvSetInt k opt v) (h, s, m) = (if s = Some k then Some (h, s, m) else None)"
| "typestate (EvSetBuf k opt v) (h, s, m) = (if s = Some k then Some (h, s, m) else None)"
| "typestate (EvBind k ep) (h, s, m) =
     (if s = Some k \<and> length ep < MAX_PATH_LENGTH then Some (h, s, m) else None)"
| "typestate (EvConnect k ep) (h, s, m) =
     (if s = Some k \<and> length ep < MAX_PATH_LENGTH then Some (h, s, m) else None)"
| "typestate (EvSend k b f) (h, s, m) =
     (if s = Some k \<and> length b \<le> MAX_MESSAGE_SIZE then Some (h, s, m) else None)"
| "typestate (EvMsgInit r) (h, s, m) = (if \<not> m then Some (h, s, r = 0) else None)"
| "typestate (EvRecv k f) (h, s, m) = (if s = Some k \<and> m then Some (h, s, m) else None)"
| "typestate EvMsgClose (h, s, m) = (if m then Some (h, s, False) else None)"
| "typestate (EvUnlink p) (h, s, m) = (if s \<noteq> None then Some (h, s, m) else None)"
| "typestate (EvSleep n) (h, s, m) = Some (h, s, m)"
| "typestate (EvCout b) (h, s, m) = Some (h, s, m)"

fun typestate_run :: "event list \<Rightarrow> held \<Rightarrow> held option" where
  "typestate_run [] h = Some h"
| "typestate_run (e # es) h = (case typestate e h of None \<Rightarrow> None | Some h' \<Rightarrow> typestate_run es h')"

lemma typestate_run_append [simp]:
  "typestate_run (xs @ ys) h = (case typestate_run xs h of None \<Rightarrow> None | Some h' \<Rightarrow> typestate_run ys h')"
  by (induction xs arbitrary: h) (auto split: option.splits)

text \<open>Where the calls logged so far lead, \<open>None\<close> when they broke the protocol.\<close>

definition trace_state :: "'w \<times> event list \<Rightarrow> held option" where
  "trace_state w = typestate_run (snd w) (None, None, False)"

subsection \<open>The calls of a traced library\<close>

lemma traced_pure [simp]:
  "api_errno (traced api) w = api_errno api (fst w)" "api_strerror (traced api) = api_strerror api"
  "os_access (traced api) p w = os_access api p (fst w)"
  by (simp_all add: traced_def case_prod_beta)

lemma traced_fst [simp]:
  "fst (api_ctx_new (traced api) w) = fst (api_ctx_new api (fst w))"
  "fst (api_socket (traced api) c ty w) = fst (api_socket api c ty (fst w))"
  "fst (api_setsockopt_buf (traced api) s opt b w) = fst (api_setsockopt_buf api s opt b (fst w))"
  "fst (api_bind (traced api) s ep w) = fst (api_bind api s ep (fst w))"
  "fst (api_connect (traced api) s ep w) = fst (api_connect api s ep (fst w))"
  "fst (api_send (traced api) s m f w) = fst (api_send api s m f (fst w))"
  "fst (api_msg_init (traced api) w) = fst (api_msg_init api (fst w))"
  "fst (api_msg_recv (traced api) s f w) = fst (api_msg_recv api s f (fst w))"
  by (simp_all add: traced_def case_prod_beta)

lemma traced_world [simp]:
  "fst (snd (api_ctx_new (traced api) w)) = snd (api_ctx_new api (fst w))"
  "fst (snd (api_ctx_set (traced api) c opt i w)) = snd (api_ctx_set api c opt i (fst w))"
  "fst (snd (api_ctx_term (traced api) c w)) = snd (api_ctx_term api c (fst w))"
  "fst (snd (api_socket (traced api) c ty w)) = snd (api_socket api c ty (fst w))"
  "fst (snd (api_close (traced api) s w)) = snd (api_close api s (fst w))"
  "fst (snd (api_setsockopt_int (traced api) s opt i w)) = snd (api_setsockopt_int api s opt i (fst w))"
  "fst (snd (api_setsockopt_buf (traced api) s opt b w)) = snd (api_setsockopt_buf api s opt b (fst w))"
  "fst (snd (api_bind (traced api) s ep w)) = snd (api_bind api s ep (fst w))"
  "fst (snd (api_connect (traced api) s ep w)) = snd (api_connect api s ep (fst w))"
  "fst (snd (api_send (traced api) s m f w)) = snd (api_send api s m f (fst w))"
  "fst (snd (api_msg_init (traced api) w)) = snd (api_msg_init api (fst w))"
  "fst (snd (api_msg_recv (traced api) s f w)) = snd (api_msg_recv api s f (fst w))"
  "fst (snd (api_msg_close (traced api) w)) = snd (api_msg_close api (fst w))"
  "fst (os_unlink (traced api) p w) = os_unlink api p (fst w)"
  "fst (os_usleep (traced api) n w) = os_usleep api n (fst w)"
  "fst (os_cout (traced api) b w) = os_cout api b (fst w)"
  by (simp_all add: traced_def case_prod_beta)

lemma traced_log:
  "snd (snd (api_ctx_new (traced api) w)) = snd w @ [EvCtxNew (fst (api_ctx_new api (fst w)))]"
  "snd (snd (api_ctx_set (traced api) c opt i w)) = snd w @ [EvCtxSet c opt i]"
  "snd (snd (api_ctx_term (traced api) c w)) = snd w @ [EvCtxTerm c]"
  "snd (snd (api_socket (traced api) c ty w)) = snd w @ [EvSocket c ty (fst (api_socket api c ty (fst w)))]"
  "snd (snd (api_close (traced api) s w)) = snd w @ [EvClose s]"
  "snd (snd (api_setsockopt_int (traced api) s opt i w)) = snd w @ [EvSetInt s opt i]"
  "snd (snd (api_setsockopt_buf (traced api) s opt b w)) = snd w @ [EvSetBuf s opt b]"
  "snd (snd (api_bind (traced api) s ep w)) = snd w @ [EvBind s ep]"
  "snd (snd (api_connect (traced api) s ep w)) = snd w @ [EvConnect s ep]"
  "snd (snd (api_send (traced api) s m f w)) = snd w @ [EvSend s m f]"
  "snd (snd (api_msg_init (traced api) w)) = snd w @ [EvMsgInit (fst (api_msg_init api (fst w)))]"
  "snd (snd (api_msg_recv (traced api) s f w)) = snd w @ [EvRecv s f]"
  "snd (snd (api_msg_close (traced api) w)) = snd w @ [EvMsgClose]"
  "snd (os_unlink (traced api) p w) = snd w @ [EvUnlink p]"
  "snd (os_usleep (traced api) n w) = snd w @ [EvSleep n]"
  "snd (os_cout (traced api) b w) = snd w @ [EvCout b]"
  by (simp_all add: traced_def case_prod_beta)

subsection \<open>The log does not change what the bridge does\<close>

lemma Log_traced [simp]: "fst (Log (traced api) o1 m w) = Log api o1 m (fst w)"
  by (simp add: Log_def)

lemma CleanupSocket_traced [simp]:
  "fst (CleanupSocket (traced api) o1 w) = fst (CleanupSocket api o1 (fst w))"
  "fst (snd (CleanupSocket (traced api) o1 w)) = snd (CleanupSocket api o1 (fst w))"
  by (auto simp: CleanupSocket_def Let_def split: option.splits)

lemma remove_traced [simp]: "fst (remove_socket_file (traced api) o1 m w) = remove_socket_file api o1 m (fst w)"
  by (simp add: remove_socket_file_def Let_def)

definition agree :: "ErrorCode \<times> wrapper \<times> 'w \<times> event list \<Rightarrow> ErrorCode \<times> wrapper \<times> 'w \<Rightarrow> bool" where
  "agree x y \<longleftrightarrow> fst x = fst y \<and> fst (snd x) = fst (snd y) \<and> fst (snd (snd x)) = snd (snd y)"

lemma Cleanup_agree: "agree (Cleanup (traced api) o1 w) (Cleanup api o1 (fst w))"
  by (simp add: agree_def Cleanup_def Let_def case_prod_beta)

lemma Init_bind_agree: "agree (Init_bind (traced api) o1 s w) (Init_bind api o1 s (fst w))"
  by (simp add: agree_def Init_bind_def Let_def case_prod_beta)

lemma connect_loop_traced [simp]:
  "fst (connect_loop k (traced api) o1 s w) = fst (connect_loop k api o1 s (fst w))"
  "fst (snd (connect_loop k (traced api) o1 s w)) = snd (connect_loop k api o1 s (fst w))"
  by (induction k arbitrary: w) (simp_all add: Let_def case_prod_beta)

lemma Init_connect_agree: "agree (Init_connect (traced api) o1 s w) (Init_connect api o1 s (fst w))"
  by (simp add: agree_def Init_connect_def Let_def case_prod_beta)

lemma Init_socket_agree: "agree (Init_socket (traced api) o1 s w) (Init_socket api o1 s (fst w))"
  using Init_bind_agree [of api] Init_connect_agree [of api]
  by (simp add: agree_def Init_socket_def Let_def case_prod_beta)

lemma Init_agree: "agree (Init (traced api) cfg o1 w) (Init api cfg o1 (fst w))"
  using Init_socket_agree [of api]
  by (simp add: agree_def Init_def Let_def case_prod_beta split: option.split)

lemma SendMessage_agree: "agree (SendMessage (traced api) m o1 w) (SendMessage api m o1 (fst w))"
  by (simp add: agree_def SendMessage_def Let_def case_prod_beta split: option.split)

lemma Subscribe_agree: "agree (Subscribe (traced api) t o1 w) (Subscribe api t o1 (fst w))"
  by (simp add: agree_def Subscribe_def Let_def case_prod_beta split: option.split)

lemma ReceiveMessage_agree:
  "agree (call_step (traced api) (CReceive m) (o1, w)) (call_step api (CReceive m) (o1, fst w))"
  by (simp add: agree_def ReceiveMessage_def Let_def case_prod_beta split: option.split)

lemma call_step_agree: "agree (call_step (traced api) x (o1, w)) (call_step api x (o1, fst w))"
  using Init_agree [of api] SendMessage_agree [of api] Subscribe_agree [of api] Cleanup_agree [of api]
    ReceiveMessage_agree [of api]
  by (cases x) (simp_all add: Close_def del: call_step.simps(3))

lemma call_run_traced:
  "call_run (traced api) xs (o1, w) = (es, o2, w2) \<Longrightarrow> call_run api xs (o1, fst w) = (es, o2, fst w2)"
proof (induction xs arbitrary: o1 w es)
  case (Cons x xs)
  obtain e o3 w3 where step: "call_step (traced api) x (o1, w) = (e, o3, w3)" by (metis prod.exhaust)
  with Cons.prems obtain es' where run: "call_run (traced api) xs (o3, w3) = (es', o2, w2)" "es = e # es'"
    by (auto split: prod.splits)
  have "call_step api x (o1, fst w) = (e, o3, fst w3)"
    using call_step_agree [of api x o1 w] step by (auto simp: agree_def prod_eq_iff)
  with Cons.IH [OF run(1)] run(2) show ?case by simp
qed simp

subsection \<open>The bridge follows the protocol\<close>

lemma trace_state_snoc: "snd w' = snd w @ [e] \<Longrightarrow> trace_state w' = Option.bind (trace_state w) (typestate e)"
  by (simp add: trace_state_def Option.bind_def split: option.splits)

lemmas trace_state_calls [simp] = traced_log [THEN trace_state_snoc]

lemma trace_state_Log [simp]: "trace_state (Log (traced api) o1 m w) = trace_state w"
  by (cases "trace_state w") (auto simp: Log_def)

lemma length_c_str_less: "length p < n \<Longrightarrow> length (c_str p) < n"
  unfolding c_str_def by (rule le_less_trans [OF length_takeWhile_le])

fun has_socket :: "held option \<Rightarrow> bool" where
  "has_socket (Some (h, Some s, m)) = True"
| "has_socket x = False"

lemma has_socketE: "has_socket x \<Longrightarrow> \<exists>h s m. x = Some (h, Some s, m)"
  by (cases x rule: has_socket.cases) auto

lemma trace_state_remove:
  "has_socket (trace_state w) \<Longrightarrow>
   trace_state (remove_socket_file (traced api) o1 b w) = trace_state w"
  by (auto simp: remove_socket_file_def Let_def dest!: has_socketE)

lemma trace_state_connect_loop:
  "trace_state w = Some (h, Some s, m) \<Longrightarrow> length (endpoint_path o1) < MAX_PATH_LENGTH \<Longrightarrow>
   trace_state (snd (connect_loop k (traced api) o1 s w)) = Some (h, Some s, m)"
  by (induction k arbitrary: w) (simp_all add: Let_def case_prod_beta length_c_str_less)

text \<open>The handles the object holds; outside a call no message is open.\<close>

definition wrapper_held :: "wrapper \<Rightarrow> held" where
  "wrapper_held o1 = (w_context o1, w_socket o1, False)"

definition in_step :: "wrapper \<Rightarrow> 'w \<times> event list \<Rightarrow> bool" where
  "in_step o1 w \<longleftrightarrow> trace_state w = Some (wrapper_held o1)
     \<and> (if initialized o1 then w_context o1 \<noteq> None \<and> w_socket o1 \<noteq> None
        else w_context o1 = None \<and> w_socket o1 = None)"

lemma CleanupSocket_trace:
  assumes "trace_state w = Some (Some c, Some s, False)" "w_context o1 = Some c" "w_socket o1 = Some s"
    and "CleanupSocket (traced api) o1 w = (o2, w2)"
  shows "trace_state w2 = Some (None, None, False)" "o2 = o1\<lparr>w_socket := None, w_context := None\<rparr>"
  using assms by (auto simp: CleanupSocket_def)

lemma Init_socket_trace:
  assumes "trace_state w = Some (Some c, Some s, False)" "w_context o1 = Some c" "w_socket o1 = Some s"
    and "\<not> initialized o1" "Init_socket (traced api) o1 s w = (e, o2, w2)"
  shows "in_step o2 w2"
  using assms
  by (auto simp: Init_socket_def Init_bind_def Init_connect_def Let_def case_prod_beta in_step_def wrapper_held_def
      CleanupSocket_def trace_state_remove trace_state_connect_loop length_c_str_less split: if_splits)

lemma Init_trace:
  assumes "in_step o1 w" "Init (traced api) cfg o1 w = (e, o2, w2)"
  shows "in_step o2 w2"
proof (cases "initialized o1 \<or> timeout_ms cfg < 0")
  case True
  with assms show ?thesis by (auto simp: Init_def split: if_splits)
next
  case new: False
  have start: "trace_state w = Some (None, None, False)" "w_socket o1 = None"
    using assms(1) new by (auto simp: in_step_def wrapper_held_def)
  have ty: "\<not> GetSocketType (pattern cfg) (mode cfg) < 0"
    by (cases "pattern cfg") (auto simp: zmq_types)
  show ?thesis
  proof (cases "fst (api_ctx_new api (fst w))")
    case None
    with assms new start show ?thesis
      by (auto simp: Init_def Let_def case_prod_beta in_step_def wrapper_held_def)
  next
    case (Some c)
    define wc where "wc = snd (api_ctx_set (traced api) c ZMQ_IO_THREADS 1 (snd (api_ctx_new (traced api) w)))"
    have wc: "trace_state wc = Some (Some c, None, False)" using start Some by (simp add: wc_def)
    show ?thesis
    proof (cases "fst (api_socket api c (GetSocketType (pattern cfg) (mode cfg)) (fst wc))")
      case None
      with assms(2) new start Some wc ty show ?thesis
        by (auto simp: Init_def Let_def case_prod_beta in_step_def wrapper_held_def wc_def)
    next
      case s: (Some s)
      show ?thesis
        by (rule Init_socket_trace [of "snd (api_socket (traced api) c (GetSocketType (pattern cfg) (mode cfg)) wc)"
              c s "o1\<lparr>config := cfg, w_context := Some c, w_socket := Some s\<rparr>"])
          (use assms(2) new Some s wc ty in \<open>auto simp: Init_def Let_def case_prod_beta wc_def\<close>)
    qed
  qed
qed

lemma call_step_trace:
  assumes "in_step o1 w" "call_step (traced api) x (o1, w) = (e, o2, w2)"
  shows "in_step o2 w2"
proof (cases x)
  case (CInit cfg)
  with assms Init_trace show ?thesis by simp
next
  case (CSend m)
  with assms show ?thesis
    by (auto simp: SendMessage_def Let_def case_prod_beta in_step_def wrapper_held_def split: option.splits if_splits)
next
  case (CReceive m)
  with assms show ?thesis
    by (auto simp: ReceiveMessage_def Let_def case_prod_beta in_step_def wrapper_held_def
        split: option.splits if_splits)
next
  case (CSubscribe t)
  with assms show ?thesis
    by (auto simp: Subscribe_def Let_def case_prod_beta in_step_def wrapper_held_def split: option.splits if_splits)
next
  case CClose
  with assms show ?thesis
    by (auto simp: Close_def Cleanup_def CleanupSocket_def Let_def case_prod_beta in_step_def wrapper_held_def
        trace_state_remove split: if_splits)
qed

lemma call_run_trace:
  "in_step o1 w \<Longrightarrow> call_run (traced api) xs (o1, w) = (es, o2, w2) \<Longrightarrow> in_step o2 w2"
proof (induction xs arbitrary: o1 w es)
  case (Cons x xs)
  obtain e o3 w3 where step: "call_step (traced api) x (o1, w) = (e, o3, w3)" by (metis prod.exhaust)
  with Cons.prems obtain es' where "call_run (traced api) xs (o3, w3) = (es', o2, w2)"
    by (auto split: prod.splits)
  with Cons.IH Cons.prems(1) call_step_trace [OF _ step] show ?case by blast
qed simp

subsection \<open>Connection attempts\<close>

fun is_connect :: "event \<Rightarrow> bool" where
  "is_connect (EvConnect s ep) = True"
| "is_connect e = False"

fun is_sleep :: "event \<Rightarrow> bool" where
  "is_sleep (EvSleep n) = True"
| "is_sleep e = False"

definition attempts :: "'w \<times> event list \<Rightarrow> nat" where
  "attempts w = length (filter is_connect (snd w))"

definition sleeps :: "'w \<times> event list \<Rightarrow> nat" where
  "sleeps w = length (filter is_sleep (snd w))"

lemma attempts_snoc: "snd w' = snd w @ [e] \<Longrightarrow> attempts w' = attempts w + (if is_connect e then 1 else 0)"
  by (simp add: attempts_def)

lemma sleeps_snoc: "snd w' = snd w @ [e] \<Longrightarrow> sleeps w' = sleeps w + (if is_sleep e then 1 else 0)"
  by (simp add: sleeps_def)

lemmas count_calls [simp] = traced_log [THEN attempts_snoc] traced_log [THEN sleeps_snoc]

lemma count_helpers [simp]:
  "attempts (Log (traced api) o1 m w) = attempts w" "sleeps (Log (traced api) o1 m w) = sleeps w"
  "attempts (remove_socket_file (traced api) o1 m w) = attempts w"
  "sleeps (remove_socket_file (traced api) o1 m w) = sleeps w"
  "attempts (snd (CleanupSocket (traced api) o1 w)) = attempts w"
  "sleeps (snd (CleanupSocket (traced api) o1 w)) = sleeps w"
  by (simp_all add: Log_def remove_socket_file_def CleanupSocket_def Let_def split: option.splits)

text \<open>A failed loop has used all its attempts and slept between them; a successful one stopped early.\<close>

lemma connect_loop_counts:
  assumes "connect_loop k (traced api) o1 s w = (ok, w2)"
  shows "attempts w2 \<le> attempts w + k \<and> sleeps w2 \<le> sleeps w + (k - 1)
    \<and> (\<not> ok \<longrightarrow> attempts w2 = attempts w + k \<and> sleeps w2 = sleeps w + (k - 1))"
  using assms
proof (induction k arbitrary: w)
  case (Suc k)
  define w1 where "w1 = snd (api_connect (traced api) s (c_str (endpoint_path o1)) w)"
  show ?case
  proof (cases "fst (api_connect api s (c_str (endpoint_path o1)) (fst w)) = 0")
    case True
    with Suc.prems show ?thesis by (auto simp: case_prod_beta Let_def)
  next
    case False
    show ?thesis
    proof (cases k)
      case 0
      with False Suc.prems show ?thesis by (auto simp: case_prod_beta Let_def)
    next
      case (Suc j)
      obtain v where v: "connect_loop k (traced api) o1 s v = (ok, w2)"
          "attempts v = attempts w + 1" "sleeps v = sleeps w + 1"
        by (rule that [of "os_usleep (traced api) (100 * 1000) (Log (traced api) o1
            (''Connection attempt '' @ to_string (max_retries - k) @ '' failed: ''
              @ api_strerror api (api_errno api (fst w1))) w1)"])
          (use False Suc.prems Suc in \<open>auto simp: case_prod_beta Let_def w1_def\<close>)
      from Suc.IH [OF v(1)] v(2,3) Suc show ?thesis by auto
    qed
  qed
qed simp

definition few_attempts :: "'w \<times> event list \<Rightarrow> ErrorCode \<times> wrapper \<times> 'w \<times> event list \<Rightarrow> bool" where
  "few_attempts w r \<longleftrightarrow>
     (let w2 = snd (snd r) in attempts w2 \<le> attempts w + 3 \<and> sleeps w2 \<le> sleeps w + 2
       \<and> (fst r = ERROR_SOCKET_CONNECT_FAILED \<longrightarrow> attempts w2 = attempts w + 3 \<and> sleeps w2 = sleeps w + 2))"

lemma few_attempts_same:
  "attempts v = attempts w \<Longrightarrow> sleeps v = sleeps w \<Longrightarrow> few_attempts v r \<longleftrightarrow> few_attempts w r"
  by (simp add: few_attempts_def)

lemma few_attempts_none [simp]:
  "attempts (snd ov) = attempts w \<Longrightarrow> sleeps (snd ov) = sleeps w \<Longrightarrow> e \<noteq> ERROR_SOCKET_CONNECT_FAILED \<Longrightarrow>
   few_attempts w (e, ov)"
  by (simp add: few_attempts_def)

lemma Init_connect_attempts: "few_attempts w (Init_connect (traced api) o1 s w)"
  using connect_loop_counts [OF prod.collapse [symmetric], of max_retries api o1 s w]
  by (auto simp: few_attempts_def Init_connect_def max_retries_def Let_def case_prod_beta)

lemma Init_bind_attempts: "few_attempts w (Init_bind (traced api) o1 s w)"
  by (simp add: Init_bind_def Let_def case_prod_beta)

lemma Init_socket_attempts: "few_attempts w (Init_socket (traced api) o1 s w)"
proof -
  define v where "v = (if timeout_ms (config o1) > 0
    then snd (api_setsockopt_int (traced api) s ZMQ_RCVTIMEO (timeout_ms (config o1))
      (snd (api_setsockopt_int (traced api) s ZMQ_LINGER 0 w)))
    else snd (api_setsockopt_int (traced api) s ZMQ_LINGER 0 w))"
  have v: "attempts v = attempts w" "sleeps v = sleeps w" by (simp_all add: v_def)
  show ?thesis
    unfolding Init_socket_def Let_def v_def [symmetric] few_attempts_same [OF v, symmetric]
    by (auto simp: Init_connect_attempts Init_bind_attempts case_prod_beta)
qed

lemma Init_attempts: "few_attempts w (Init (traced api) cfg o1 w)"
proof -
  have "few_attempts w (Init_socket (traced api) o2 s v)"
    if "attempts v = attempts w" "sleeps v = sleeps w" for o2 s v
    using Init_socket_attempts few_attempts_same [OF that] by blast
  then show ?thesis
    by (auto simp: Init_def Let_def case_prod_beta split: option.split)
qed

subsection \<open>Sequences of calls\<close>

lemma call_run_append:
  "call_run api (xs @ ys) s =
     (let (es, s1) = call_run api xs s; (es', s2) = call_run api ys s1 in (es @ es', s2))"
  by (induction xs arbitrary: s) (auto split: prod.splits)

subsection \<open>The file behind an ipc endpoint\<close>

lemma remove_unlinks:
  "endpoint_path o1 = ''ipc://'' @ f \<Longrightarrow> (\<And>v. os_access api (c_str f) v) \<Longrightarrow>
   \<exists>t. snd (remove_socket_file (traced api) o1 b w) = snd w @ t @ [EvUnlink (c_str f)]"
  by (auto simp: remove_socket_file_def Log_def traced_log)

lemma prefix_Log: "prefix t (snd w) \<Longrightarrow> prefix t (snd (Log (traced api) o1 m w))"
  by (simp add: Log_def traced_log)

lemma prefix_Cleanup: "prefix t (snd w) \<Longrightarrow> prefix t (snd (snd (CleanupSocket (traced api) o1 w)))"
  by (simp add: CleanupSocket_def traced_log split: option.splits)

lemma Init_bind_unlinks:
  assumes "endpoint_path o1 = ''ipc://'' @ f" "\<And>v. os_access api (c_str f) v"
    and run: "Init_bind (traced api) o1 s w = (e, o2, w2)"
  shows "\<exists>t1 t2. snd w2 = snd w @ t1 @ EvUnlink (c_str f) # EvBind s (c_str (endpoint_path o1)) # t2"
proof -
  define w1 where "w1 = remove_socket_file (traced api) o1 ''Removing existing socket file: '' w"
  define w3 where "w3 = snd (api_bind (traced api) s (c_str (endpoint_path o1)) w1)"
  obtain t where "snd w1 = snd w @ t @ [EvUnlink (c_str f)]"
    using remove_unlinks [OF assms(1,2)] w1_def by blast
  then have w3: "snd w3 = snd w @ t @ EvUnlink (c_str f) # [EvBind s (c_str (endpoint_path o1))]"
    by (simp add: w3_def traced_log)
  have "prefix (snd w3) (snd (snd (snd (Init_bind (traced api) o1 s w))))"
    unfolding Init_bind_def Let_def w1_def [symmetric] case_prod_beta w3_def [symmetric]
    by (simp add: prefix_Log prefix_Cleanup)
  with run w3 have "\<exists>zs. snd w2 = snd w @ t @ EvUnlink (c_str f) # EvBind s (c_str (endpoint_path o1)) # zs"
    by (auto elim!: prefixE)
  then show ?thesis by blast
qed

lemma Init_reaches_bind:
  assumes "Init api cfg o1 w = (e, o2, w2)" "\<not> initialized o1" "mode cfg = SERVER"
    and "e \<in> {SUCCESS, ERROR_SOCKET_BIND_FAILED, ERROR_PERMISSION_DENIED}"
  shows "\<exists>o3 s v. Init_bind api o3 s v = (e, o2, w2) \<and> endpoint_path o3 = BuildEndpoint (endpoint cfg)"
proof -
  from assms obtain o3 s v where "Init_socket api o3 s v = (e, o2, w2)" "config o3 = cfg"
    by (auto simp: Init_def Let_def split: if_splits option.splits prod.splits)
  with assms(3,4) show ?thesis
    by (auto simp: Init_socket_def Let_def split: if_splits prod.splits intro!: exI)
qed

subsection \<open>What the bridge guarantees\<close>

text \<open>A library for the examples: every call succeeds, the file exists and every receive gives \<open>hi\<close>.\<close>

definition sample_api :: "unit zmq_api" where
  "sample_api = \<lparr>
     api_ctx_new = \<lambda>w. (Some 1, w), api_ctx_set = \<lambda>c opt v w. (0, w), api_ctx_term = \<lambda>c w. (0, w),
     api_socket = \<lambda>c ty w. (Some 2, w), api_close = \<lambda>s w. (0, w),
     api_setsockopt_int = \<lambda>s opt v w. (0, w), api_setsockopt_buf = \<lambda>s opt v w. (0, w),
     api_bind = \<lambda>s ep w. (0, w), api_connect = \<lambda>s ep w. (-1, w), api_send = \<lambda>s m f w. (int (length m), w),
     api_msg_init = \<lambda>w. (0, w), api_msg_recv = \<lambda>s f w. ((2, ''hi''), w), api_msg_close = \<lambda>w. (0, w),
     api_errno = \<lambda>w. ECONNREFUSED, api_strerror = \<lambda>e. ''error'',
     os_access = \<lambda>p w. True, os_unlink = \<lambda>p w. w, os_usleep = \<lambda>n w. w, os_cout = \<lambda>m w. w\<rparr>"

lemma triple_collapse: "x = (fst x, fst (snd x), snd (snd x))"
  by simp

lemmas sample_run = sample_api_def traced_def new_wrapper_def default_Config_def Init_def Init_socket_def Init_bind_def
  Init_connect_def BuildEndpoint_def CleanupSocket_def Cleanup_def Close_def SendMessage_def ReceiveMessage_def
  remove_socket_file_def Log_def MAX_PATH_LENGTH_def MAX_MESSAGE_SIZE_def zmq_types c_str_def

text \<open>C1: whatever the library answers and in whatever order the methods are called, the calls
  that reach libzmq follow its protocol: sockets only in the held context, no use
  after close, the context terminated after its socket, no endpoint of 108 bytes or more
  bound or connected, no message above 10 MB sent, every message object closed. The object
  holds a context and a socket exactly while it is initialised.\<close>

theorem bridge_follows_protocol:
  assumes "call_run (traced api) xs (new_wrapper, (w, [])) = (es, o2, w2)"
  shows "trace_state w2 = Some (w_context o2, w_socket o2, False)
    \<and> (initialized o2 \<longleftrightarrow> w_context o2 \<noteq> None) \<and> (initialized o2 \<longleftrightarrow> w_socket o2 \<noteq> None)
    \<and> call_run api xs (new_wrapper, w) = (es, o2, fst w2)"
proof -
  have "in_step new_wrapper (w, [])"
    by (simp add: in_step_def new_wrapper_def wrapper_held_def trace_state_def)
  from call_run_trace [OF this assms] call_run_traced [OF assms] show ?thesis
    by (auto simp: in_step_def wrapper_held_def split: if_splits)
qed

theorem bridge_follows_protocol_witness:
  "let r = call_run (traced sample_api) [CInit default_Config, CReceive [], CSend ''yo''] (new_wrapper, ((), []))
   in fst r = [SUCCESS, SUCCESS, SUCCESS] \<and> initialized (fst (snd r))
     \<and> trace_state (snd (snd r)) = Some (Some 1, Some 2, False)"
proof -
  define r where "r = call_run (traced sample_api) [CInit default_Config, CReceive [], CSend ''yo'']
     (new_wrapper, ((), []))"
  have r: "fst r = [SUCCESS, SUCCESS, SUCCESS]" "initialized (fst (snd r))"
    "w_context (fst (snd r)) = Some 1" "w_socket (fst (snd r)) = Some 2"
    by (simp_all add: r_def sample_run)
  have "trace_state (snd (snd r)) = Some (w_context (fst (snd r)), w_socket (fst (snd r)), False)"
    using bridge_follows_protocol [OF triple_collapse, of sample_api _ "()", folded r_def] r_def by blast
  with r show ?thesis unfolding Let_def r_def [symmetric] by (simp del: One_nat_def)
qed

text \<open>C20: a receive hands the caller a message only with \<open>SUCCESS\<close>, and then it is the one the
  library delivered and has at most 10 MB; on every error, timeouts included, the caller's string
  is what it was. \<open>ERROR_TIMEOUT\<close> is returned exactly for the errno values EAGAIN and ETIMEDOUT
  of a failed receive on an open socket.\<close>

theorem ReceiveMessage_contract:
  assumes "ReceiveMessage api m o1 w = (e, m', o2, w2)"
  shows "o2 = o1
    \<and> (if e = SUCCESS
       then \<exists>s n w1. w_socket o1 = Some s \<and> 0 \<le> n \<and> length m' \<le> MAX_MESSAGE_SIZE
              \<and> api_msg_recv api s 0 (snd (api_msg_init api w)) = ((n, m'), w1)
       else m' = m)
    \<and> (e = ERROR_TIMEOUT \<longleftrightarrow>
        (\<exists>s n d w1. initialized o1 \<and> w_socket o1 = Some s \<and> fst (api_msg_init api w) = 0 \<and> n < 0
           \<and> api_msg_recv api s 0 (snd (api_msg_init api w)) = ((n, d), w1)
           \<and> api_errno api w1 \<in> {EAGAIN, ETIMEDOUT}))"
proof -
  obtain r0 w0 where w0: "api_msg_init api w = (r0, w0)" by fastforce
  show ?thesis
  proof (cases "w_socket o1")
    case None
    with assms show ?thesis by (auto simp: ReceiveMessage_def)
  next
    case (Some s)
    obtain n d w1 where w1: "api_msg_recv api s 0 w0 = ((n, d), w1)" by (metis prod.exhaust)
    with assms w0 Some show ?thesis
      by (auto simp: ReceiveMessage_def Let_def case_prod_beta split: if_splits)
  qed
qed

theorem ReceiveMessage_contract_witness:
  "ReceiveMessage sample_api ''old'' (new_wrapper\<lparr>initialized := True, w_socket := Some 2\<rparr>) ()
     = (SUCCESS, ''hi'', new_wrapper\<lparr>initialized := True, w_socket := Some 2\<rparr>, ())
   \<and> length ''hi'' \<le> MAX_MESSAGE_SIZE"
proof -
  have run: "ReceiveMessage sample_api ''old'' (new_wrapper\<lparr>initialized := True, w_socket := Some 2\<rparr>) ()
     = (SUCCESS, ''hi'', new_wrapper\<lparr>initialized := True, w_socket := Some 2\<rparr>, ())"
    by (simp add: sample_run)
  from ReceiveMessage_contract [OF run] run show ?thesis by auto
qed

text \<open>C35: one \<open>Init\<close> makes at most three connection attempts with at most two pauses between
  them, and reports a failed connection only after all three.\<close>

theorem Init_connection_attempts:
  assumes "Init (traced api) cfg o1 (w, t) = (e, o2, w2)"
  shows "attempts w2 \<le> attempts (w, t) + 3 \<and> sleeps w2 \<le> sleeps (w, t) + 2
    \<and> (e = ERROR_SOCKET_CONNECT_FAILED \<longrightarrow> attempts w2 = attempts (w, t) + 3 \<and> sleeps w2 = sleeps (w, t) + 2)"
  using Init_attempts [of "(w, t)" api cfg o1] assms by (simp add: few_attempts_def)

theorem Init_connection_attempts_witness:
  "let r = Init (traced sample_api) (default_Config\<lparr>mode := CLIENT\<rparr>) new_wrapper ((), [])
   in fst r = ERROR_SOCKET_CONNECT_FAILED \<and> attempts (snd (snd r)) = 3"
proof -
  define r where "r = Init (traced sample_api) (default_Config\<lparr>mode := CLIENT\<rparr>) new_wrapper ((), [])"
  have "fst r = ERROR_SOCKET_CONNECT_FAILED"
    by (simp add: r_def sample_run max_retries_def numeral_3_eq_3 del: to_string.simps)
  moreover have "fst r = ERROR_SOCKET_CONNECT_FAILED \<longrightarrow> attempts (snd (snd r)) = attempts ((), []) + 3"
    using Init_connection_attempts [OF triple_collapse, of sample_api _ _ "()" "[]"] r_def by blast
  ultimately show ?thesis unfolding Let_def r_def [symmetric] by (simp add: attempts_def)
qed

text \<open>A server's \<open>Init\<close> unlinks whatever is at the path of its ipc endpoint, right before it
  binds and whether or not the bind then succeeds: the code asks only whether something exists
  there, so a regular file or the socket of a running server goes too.\<close>

theorem Init_unlinks_any_file:
  assumes "Init (traced api) cfg o1 (w, []) = (e, o2, (w2, t))" "\<not> initialized o1"
    and "mode cfg = SERVER" "endpoint cfg = ''ipc://'' @ f" "\<And>v. os_access api (c_str f) v"
    and "e \<in> {SUCCESS, ERROR_SOCKET_BIND_FAILED, ERROR_PERMISSION_DENIED}"
  shows "\<exists>s t1 t2. t = t1 @ EvUnlink (c_str f) # EvBind s (c_str (endpoint cfg)) # t2"
proof -
  from Init_reaches_bind [OF assms(1-3,6)] assms(4)
  obtain o3 s v where run: "Init_bind (traced api) o3 s v = (e, o2, (w2, t))"
    and o3: "endpoint_path o3 = ''ipc://'' @ f"
    by (auto simp: BuildEndpoint_def)
  from Init_bind_unlinks [OF o3 assms(5) run]
  obtain t1 t2 where "t = (snd v @ t1) @ EvUnlink (c_str f) # EvBind s (c_str (endpoint_path o3)) # t2" by auto
  with o3 assms(4) show ?thesis by metis
qed

theorem Init_unlinks_any_file_witness:
  "let r = Init (traced sample_api) (default_Config\<lparr>endpoint := ''ipc://data.txt''\<rparr>) new_wrapper ((), [])
   in fst r = SUCCESS
     \<and> (\<exists>s t1 t2. snd (snd (snd r)) = t1 @ EvUnlink ''data.txt'' # EvBind s ''ipc://data.txt'' # t2)"
proof -
  define r where "r = Init (traced sample_api) (default_Config\<lparr>endpoint := ''ipc://data.txt''\<rparr>) new_wrapper ((), [])"
  have ok: "fst r = SUCCESS" by (simp add: r_def sample_run)
  have r: "Init (traced sample_api) (default_Config\<lparr>endpoint := ''ipc://data.txt''\<rparr>) new_wrapper ((), [])
     = (fst r, fst (snd r), (fst (snd (snd r)), snd (snd (snd r))))" by (simp only: r_def prod.collapse)
  have "\<exists>s t1 t2. snd (snd (snd r)) = t1 @ EvUnlink (c_str ''data.txt'')
      # EvBind s (c_str (endpoint (default_Config\<lparr>endpoint := ''ipc://data.txt''\<rparr>))) # t2"
    by (rule Init_unlinks_any_file [OF r]) (simp_all add: ok, simp_all add: sample_run)
  with ok show ?thesis unfolding Let_def r_def [symmetric] by (simp add: c_str_def)
qed

text \<open>Once closed, an object refuses every message call with \<open>ERROR_NOT_INITIALIZED\<close> and touches
  nothing, a second \<open>Close\<close> succeeds and does nothing, and \<open>Init\<close> is possible again.\<close>

theorem closed_object:
  assumes "call_run api (xs @ [CClose]) (new_wrapper, w) = (es, o2, w2)"
  shows "SendMessage api m o2 w2 = (ERROR_NOT_INITIALIZED, o2, w2)
    \<and> ReceiveMessage api m o2 w2 = (ERROR_NOT_INITIALIZED, m, o2, w2)
    \<and> Subscribe api m o2 w2 = (ERROR_NOT_INITIALIZED, o2, w2)
    \<and> Close api o2 w2 = (SUCCESS, o2, w2) \<and> \<not> IsInitialized o2
    \<and> fst (Init api cfg o2 w2) \<noteq> ERROR_ALREADY_INITIALIZED"
proof -
  have "\<not> initialized o2" using assms
    by (auto simp: Close_def Cleanup_def Let_def call_run_append split: prod.splits if_splits)
  then show ?thesis
    by (auto simp: SendMessage_def ReceiveMessage_def Subscribe_def Close_def Cleanup_def IsInitialized_def
        Init_def Init_socket_def Init_bind_def Init_connect_def Let_def case_prod_beta split: option.split)
qed

theorem closed_object_witness:
  "let r = call_run sample_api ([CInit default_Config] @ [CClose]) (new_wrapper, ())
   in fst r = [SUCCESS, SUCCESS]
     \<and> fst (SendMessage sample_api ''hi'' (fst (snd r)) (snd (snd r))) = ERROR_NOT_INITIALIZED"
proof -
  define r where "r = call_run sample_api ([CInit default_Config] @ [CClose]) (new_wrapper, ())"
  have "fst r = [SUCCESS, SUCCESS]" by (simp add: r_def sample_run)
  moreover have "SendMessage sample_api ''hi'' (fst (snd r)) (snd (snd r))
      = (ERROR_NOT_INITIALIZED, fst (snd r), snd (snd r))"
    using closed_object [OF triple_collapse, where api = sample_api and xs = "[CInit default_Config]"
        and w = "()" and m = "''hi''"] r_def by blast
  ultimately show ?thesis unfolding Let_def r_def [symmetric] by simp
qed

end
