(* ===== verification/Yqueue.thy ===== *)
theory Yqueue
  imports Prelude
begin

text \<open>
  \<^verbatim>\<open>yqueue_t\<close> (yqueue.hpp): a queue in a doubly linked list of chunks of \<open>N\<close> values, with one
  spare chunk kept for reuse. The heap is explicit: a chunk is an address in a map, a
  pointer to an element is an address with a position. What \<^verbatim>\<open>malloc\<close> returns is an
  argument of \<open>yq_push\<close> (\<open>None\<close> when it fails, which aborts), so freed addresses may come
  back. \<open>yq_rel\<close> relates a queue to the window \<open>{b..<e}\<close> of the sequence of all positions ever
  pushed; the operations move the ends of the window and keep the addresses and
  the values of the positions in it.
\<close>

record 'a chunk =
  ck_values :: "'a option list"
  ck_prev :: "nat option"
  ck_next :: "nat option"

record 'a yqueue =
  y_heap :: "nat \<rightharpoonup> 'a chunk"
  begin_chunk :: nat
  begin_pos :: nat
  back_chunk :: "nat option"
  back_pos :: nat
  end_chunk :: nat
  end_pos :: nat
  spare_chunk :: "nat option"

type_synonym addr = "nat \<times> nat"

definition new_chunk :: "nat \<Rightarrow> 'a chunk" where
  "new_chunk N = \<lparr>ck_values = replicate N None, ck_prev = None, ck_next = None\<rparr>"

definition yq_new :: "nat \<Rightarrow> nat option \<Rightarrow> 'a yqueue option" where
  "yq_new N m = (case m of None \<Rightarrow> None | Some a \<Rightarrow>
     Some \<lparr>y_heap = [a \<mapsto> new_chunk N], begin_chunk = a, begin_pos = 0, back_chunk = None, back_pos = 0,
       end_chunk = a, end_pos = 0, spare_chunk = None\<rparr>)"

definition yq_get :: "addr \<Rightarrow> 'a yqueue \<Rightarrow> 'a option option" where
  "yq_get a q = do { ck \<leftarrow> y_heap q (fst a); tab_get (ck_values ck) (snd a) }"

definition yq_set :: "addr \<Rightarrow> 'a \<Rightarrow> 'a yqueue \<Rightarrow> 'a yqueue option" where
  "yq_set a v q = do {
     ck \<leftarrow> y_heap q (fst a);
     vs \<leftarrow> tab_set (ck_values ck) (snd a) (Some v);
     Some (q\<lparr>y_heap := (y_heap q)(fst a \<mapsto> ck\<lparr>ck_values := vs\<rparr>)\<rparr>)
   }"

definition yq_front :: "'a yqueue \<Rightarrow> addr" where
  "yq_front q = (begin_chunk q, begin_pos q)"

definition yq_back :: "'a yqueue \<Rightarrow> addr option" where
  "yq_back q = (case back_chunk q of None \<Rightarrow> None | Some c \<Rightarrow> Some (c, back_pos q))"

text \<open>Writes through a chunk pointer.\<close>

definition set_next :: "nat \<Rightarrow> nat option \<Rightarrow> 'a yqueue \<Rightarrow> 'a yqueue option" where
  "set_next c p q = (case y_heap q c of None \<Rightarrow> None
     | Some ck \<Rightarrow> Some (q\<lparr>y_heap := (y_heap q)(c \<mapsto> ck\<lparr>ck_next := p\<rparr>)\<rparr>))"

definition set_prev :: "nat \<Rightarrow> nat option \<Rightarrow> 'a yqueue \<Rightarrow> 'a yqueue option" where
  "set_prev c p q = (case y_heap q c of None \<Rightarrow> None
     | Some ck \<Rightarrow> Some (q\<lparr>y_heap := (y_heap q)(c \<mapsto> ck\<lparr>ck_prev := p\<rparr>)\<rparr>))"

definition yq_free :: "nat option \<Rightarrow> 'a yqueue \<Rightarrow> 'a yqueue" where
  "yq_free p q = (case p of None \<Rightarrow> q | Some c \<Rightarrow> q\<lparr>y_heap := (y_heap q)(c := None)\<rparr>)"

definition yq_push :: "nat \<Rightarrow> nat option \<Rightarrow> 'a yqueue \<Rightarrow> 'a yqueue option" where
  "yq_push N m q =
     (let q1 = q\<lparr>back_chunk := Some (end_chunk q), back_pos := end_pos q, end_pos := end_pos q + 1\<rparr> in
      if end_pos q1 \<noteq> N then Some q1
      else
        (let sc = spare_chunk q1; q2 = q1\<lparr>spare_chunk := None\<rparr> in do {
           (c, q3) \<leftarrow> (case sc of
               Some c \<Rightarrow> Some (c, q2)
             | None \<Rightarrow> (case m of None \<Rightarrow> None
                 | Some c \<Rightarrow> Some (c, q2\<lparr>y_heap := (y_heap q2)(c \<mapsto> new_chunk N)\<rparr>)));
           q4 \<leftarrow> set_next (end_chunk q3) (Some c) q3;
           q5 \<leftarrow> set_prev c (Some (end_chunk q4)) q4;
           Some (q5\<lparr>end_chunk := c, end_pos := 0\<rparr>)
         }))"

definition yq_unpush :: "nat \<Rightarrow> 'a yqueue \<Rightarrow> 'a yqueue option" where
  "yq_unpush N q = do {
     q1 \<leftarrow> (if back_pos q > 0 then Some (q\<lparr>back_pos := back_pos q - 1\<rparr>)
           else do {
             bc \<leftarrow> back_chunk q;
             ck \<leftarrow> y_heap q bc;
             Some (q\<lparr>back_pos := N - 1, back_chunk := ck_prev ck\<rparr>)
           });
     (if end_pos q1 > 0 then Some (q1\<lparr>end_pos := end_pos q1 - 1\<rparr>)
      else do {
        ck \<leftarrow> y_heap q1 (end_chunk q1);
        p \<leftarrow> ck_prev ck;
        pk \<leftarrow> y_heap q1 p;
        set_next p None (yq_free (ck_next pk) (q1\<lparr>end_pos := N - 1, end_chunk := p\<rparr>))
      })
   }"

definition yq_pop :: "nat \<Rightarrow> 'a yqueue \<Rightarrow> 'a yqueue option" where
  "yq_pop N q =
     (let q1 = q\<lparr>begin_pos := begin_pos q + 1\<rparr> in
      if begin_pos q1 = N then do {
        ck \<leftarrow> y_heap q1 (begin_chunk q1);
        n \<leftarrow> ck_next ck;
        q2 \<leftarrow> set_prev n None (q1\<lparr>begin_chunk := n\<rparr>);
        Some (yq_free (spare_chunk q2) (q2\<lparr>begin_pos := 0, spare_chunk := Some (begin_chunk q)\<rparr>))
      } else Some q1)"

subsection \<open>The window of live positions\<close>

definition slot :: "nat \<Rightarrow> nat list \<Rightarrow> nat \<Rightarrow> nat \<Rightarrow> addr" where
  "slot N cs base i = (cs ! ((i - base) div N), (i - base) mod N)"

text \<open>The chunks in use are linked in both directions and are, with the spare one, all there is.\<close>

definition chunks_ok :: "nat \<Rightarrow> 'a yqueue \<Rightarrow> nat list \<Rightarrow> bool" where
  "chunks_ok N q cs \<longleftrightarrow> cs \<noteq> [] \<and> distinct cs \<and> dom (y_heap q) = set cs \<union> set_option (spare_chunk q)
     \<and> set_option (spare_chunk q) \<inter> set cs = {}
     \<and> (\<forall>c ck. y_heap q c = Some ck \<longrightarrow> length (ck_values ck) = N)
     \<and> (\<forall>i ck. Suc i < length cs \<longrightarrow> y_heap q (cs ! i) = Some ck \<longrightarrow> ck_next ck = Some (cs ! Suc i))
     \<and> (\<forall>i ck. Suc i < length cs \<longrightarrow> y_heap q (cs ! Suc i) = Some ck \<longrightarrow> ck_prev ck = Some (cs ! i))"

definition yq_rel :: "nat \<Rightarrow> 'a yqueue \<Rightarrow> nat list \<Rightarrow> nat \<Rightarrow> nat \<Rightarrow> nat \<Rightarrow> bool" where
  "yq_rel N q cs base b e \<longleftrightarrow> 0 < N \<and> chunks_ok N q cs
     \<and> begin_chunk q = hd cs \<and> end_chunk q = last cs \<and> begin_pos q < N \<and> end_pos q < N
     \<and> b = base + begin_pos q \<and> e = base + (length cs - 1) * N + end_pos q \<and> b \<le> e
     \<and> (b < e \<longrightarrow> yq_back q = Some (slot N cs base (e - 1)))"

lemma slot_block: "0 < N \<Longrightarrow> p < N \<Longrightarrow> slot N cs base (base + j * N + p) = (cs ! j, p)"
  by (simp add: slot_def add.assoc)

lemma slot_split:
  fixes N base i n :: nat
  assumes "0 < N" "base \<le> i" "i < base + n * N"
  obtains j p where "i = base + j * N + p" "j < n" "p < N"
proof (rule that [of "(i - base) div N" "(i - base) mod N"])
  show "i = base + (i - base) div N * N + (i - base) mod N" using assms(2) by simp
  show "(i - base) div N < n" using assms by (simp add: less_mult_imp_div_less)
qed (use assms in simp)

lemma slot_inj:
  assumes "0 < N" "distinct cs" "slot N cs base i = slot N cs base j"
    and "base \<le> i" "i < base + length cs * N" "base \<le> j" "j < base + length cs * N"
  shows "i = j"
proof -
  obtain k p where i: "i = base + k * N + p" "k < length cs" "p < N"
    by (rule slot_split [OF assms(1,4,5)])
  obtain l r where j: "j = base + l * N + r" "l < length cs" "r < N"
    by (rule slot_split [OF assms(1,6,7)])
  from assms(3) have "cs ! k = cs ! l" "p = r"
    using slot_block [OF assms(1) i(3)] slot_block [OF assms(1) j(3)] by (simp_all add: i(1) j(1))
  with assms(2) i j show ?thesis by (simp add: nth_eq_iff_index_eq)
qed

lemma yq_rel_bounds:
  assumes "yq_rel N q cs base b e"
  shows "base \<le> b" "b \<le> e" "e < base + length cs * N" "0 < N" "distinct cs" "cs \<noteq> []"
    "slot N cs base e = (end_chunk q, end_pos q)"
proof -
  obtain n where n: "length cs = Suc n" using assms by (cases cs) (auto simp: yq_rel_def chunks_ok_def)
  then have "last cs = cs ! n" by (simp add: last_conv_nth length_0_conv [symmetric] del: length_0_conv)
  with assms n show "e < base + length cs * N" "slot N cs base e = (end_chunk q, end_pos q)"
    by (auto simp: yq_rel_def slot_block)
qed (use assms in \<open>auto simp: yq_rel_def chunks_ok_def\<close>)

lemma yq_front_slot: "yq_rel N q cs base b e \<Longrightarrow> yq_front q = slot N cs base b"
  using slot_block [of N "begin_pos q" cs base 0]
  by (auto simp: yq_rel_def yq_front_def chunks_ok_def hd_conv_nth)

text \<open>A position of the window is a valid element.\<close>

lemma yq_slot_valid:
  assumes "yq_rel N q cs base b e" "base \<le> i" "i < base + length cs * N"
  obtains ck where "y_heap q (fst (slot N cs base i)) = Some ck" "snd (slot N cs base i) < length (ck_values ck)"
    "fst (slot N cs base i) \<in> set cs"
proof -
  from yq_rel_bounds(4) [OF assms(1)] obtain j p where i: "i = base + j * N + p" "j < length cs" "p < N"
    by (rule slot_split [OF _ assms(2,3)])
  then have sl: "slot N cs base i = (cs ! j, p)" using assms(1) by (simp add: yq_rel_def slot_block)
  have "cs ! j \<in> dom (y_heap q)" using assms(1) i by (simp add: yq_rel_def chunks_ok_def)
  then obtain ck where "y_heap q (cs ! j) = Some ck" by auto
  with sl i assms(1) show ?thesis by (intro that) (auto simp: yq_rel_def chunks_ok_def)
qed

subsection \<open>The operations move the window\<close>

text \<open>\<open>keeps\<close>: the positions from \<open>b\<close> to before \<open>e\<close> have the addresses and values they had.\<close>

definition keeps :: "nat \<Rightarrow> 'a yqueue \<Rightarrow> nat list \<Rightarrow> nat \<Rightarrow> 'a yqueue \<Rightarrow> nat list \<Rightarrow> nat \<Rightarrow> nat \<Rightarrow> nat \<Rightarrow> bool" where
  "keeps N q cs base q' cs' base' b e \<longleftrightarrow>
     (\<forall>i. b \<le> i \<longrightarrow> i < e \<longrightarrow> slot N cs' base' i = slot N cs base i
        \<and> yq_get (slot N cs base i) q' = yq_get (slot N cs base i) q)"

lemma chunks_ok_append:
  assumes "chunks_ok N q cs" "c \<notin> set cs" "y_heap q' = h" "spare_chunk q' = None"
    and "y_heap q (last cs) = Some lk" "length (ck_values ck) = N"
    and h: "h = (\<lambda>x. if x \<in> set cs then y_heap q x else None)
                (last cs \<mapsto> lk\<lparr>ck_next := Some c\<rparr>, c \<mapsto> ck\<lparr>ck_prev := Some (last cs)\<rparr>)"
  shows "chunks_ok N q' (cs @ [c])"
proof -
  have cs: "cs \<noteq> []" "distinct cs" "last cs \<in> set cs" "set cs \<subseteq> dom (y_heap q)"
    using assms(1) by (auto simp: chunks_ok_def)
  have last: "last cs = cs ! (length cs - 1)" using cs by (simp add: last_conv_nth)
  have len: "length (ck_values k) = N" if "h x = Some k" for x k
    using that assms(1,5,6) unfolding h by (auto simp: chunks_ok_def split: if_splits)
  have nx: "ck_next k = Some ((cs @ [c]) ! Suc i)" if "Suc i < Suc (length cs)" "h ((cs @ [c]) ! i) = Some k" for i k
  proof (cases "Suc i < length cs")
    case True
    with cs(2) last have "cs ! i \<noteq> last cs" by (simp add: nth_eq_iff_index_eq)
    with True that assms(1,2) show ?thesis
      unfolding h chunks_ok_def by (auto simp: nth_append split: if_splits)
  next
    case False
    with that have "i = length cs - 1" using cs(1) by (simp add: le_less_Suc_eq)
    with that assms(2) last cs show ?thesis unfolding h by (auto simp: nth_append split: if_splits)
  qed
  have pv: "ck_prev k = Some ((cs @ [c]) ! i)" if "Suc i < Suc (length cs)" "h ((cs @ [c]) ! Suc i) = Some k" for i k
  proof (cases "Suc i < length cs")
    case True
    with that assms(1,2,5) last show ?thesis
      unfolding h chunks_ok_def by (auto simp: nth_append split: if_splits)
  next
    case False
    with that have "Suc i = length cs" "i = length cs - 1" by simp_all
    with that last show ?thesis unfolding h by (auto simp: nth_append)
  qed
  have "dom h = set cs \<union> {c}" using cs unfolding h by (auto simp: dom_def)
  with assms(2,3,4) cs len nx pv show ?thesis by (simp add: chunks_ok_def)
qed

lemma yq_push_spec:
  assumes rel: "yq_rel N q cs base b e" and fresh: "a \<notin> dom (y_heap q)"
  shows "\<exists>q' cs'. yq_push N (Some a) q = Some q' \<and> yq_rel N q' cs' base b (e + 1)
    \<and> keeps N q cs base q' cs' base b (e + 1)"
proof (cases "end_pos q + 1 = N")
  case False
  then have "end_pos q + 1 < N" using rel by (auto simp: yq_rel_def)
  then have "yq_rel N (q\<lparr>back_chunk := Some (end_chunk q), back_pos := end_pos q, end_pos := end_pos q + 1\<rparr>)
      cs base b (e + 1)"
    using rel yq_rel_bounds(7) [OF rel] by (auto simp: yq_rel_def chunks_ok_def yq_back_def)
  with False show ?thesis by (auto simp: yq_push_def keeps_def yq_get_def)
next
  case True
  define c where "c = (case spare_chunk q of Some c \<Rightarrow> c | None \<Rightarrow> a)"
  define ck where "ck = (case spare_chunk q of Some c \<Rightarrow> the (y_heap q c) | None \<Rightarrow> new_chunk N)"
  have cs: "last cs \<in> set cs" "set cs \<subseteq> dom (y_heap q)" "cs \<noteq> []"
    using rel by (auto simp: yq_rel_def chunks_ok_def)
  then have "last cs \<in> dom (y_heap q)" by blast
  then obtain lk where lk: "y_heap q (last cs) = Some lk" by blast
  have c: "c \<notin> set cs" "length (ck_values ck) = N"
    using rel fresh by (auto simp: c_def ck_def yq_rel_def chunks_ok_def new_chunk_def split: option.splits)
  define q' where "q' = q\<lparr>back_chunk := Some (end_chunk q), back_pos := end_pos q, end_pos := 0, spare_chunk := None,
      end_chunk := c, y_heap := (y_heap q)(last cs \<mapsto> lk\<lparr>ck_next := Some c\<rparr>, c \<mapsto> ck\<lparr>ck_prev := Some (last cs)\<rparr>)\<rparr>"
  have end_q: "end_chunk q = last cs" using rel by (simp add: yq_rel_def)
  have "\<exists>sk. y_heap q s = Some sk" if "spare_chunk q = Some s" for s
    using rel that by (auto simp: yq_rel_def chunks_ok_def)
  then have push: "yq_push N (Some a) q = Some q'"
    using True end_q lk c(1) cs(1)
    by (cases "spare_chunk q")
      (auto simp: yq_push_def q'_def c_def ck_def set_next_def set_prev_def Let_def fun_upd_twist)
  have dom_q: "y_heap q x = None" if "x \<notin> set cs" "x \<noteq> c" for x
    using that rel fresh by (auto simp: yq_rel_def chunks_ok_def c_def domIff split: option.splits)
  have "y_heap q' = (\<lambda>x. if x \<in> set cs then y_heap q x else None)
      (last cs \<mapsto> lk\<lparr>ck_next := Some c\<rparr>, c \<mapsto> ck\<lparr>ck_prev := Some (last cs)\<rparr>)"
    using dom_q by (simp add: q'_def fun_eq_iff)
  moreover have "chunks_ok N q cs" "spare_chunk q' = None" using rel by (simp_all add: yq_rel_def q'_def)
  ultimately have "chunks_ok N q' (cs @ [c])" by (intro chunks_ok_append [OF _ c(1) _ _ lk c(2) refl])
  have "yq_rel N q' (cs @ [c]) base b (e + 1) \<and> keeps N q cs base q' (cs @ [c]) base b (e + 1)"
  proof -
    have sl: "slot N (cs @ [c]) base i = slot N cs base i" if i: "base \<le> i" "i < base + length cs * N" for i
    proof -
      obtain j p where "i = base + j * N + p" "j < length cs" "p < N"
        by (rule slot_split [OF yq_rel_bounds(4) [OF rel] i])
      then show ?thesis using rel by (simp add: yq_rel_def slot_block nth_append)
    qed
    have "yq_get (slot N cs base i) q' = yq_get (slot N cs base i) q" if i: "base \<le> i" "i < base + length cs * N" for i
    proof -
      obtain k where "y_heap q (fst (slot N cs base i)) = Some k" "fst (slot N cs base i) \<in> set cs"
        by (rule yq_slot_valid [OF rel i])
      with c(1) lk show ?thesis by (auto simp: yq_get_def q'_def split: if_splits)
    qed
    with sl yq_rel_bounds(1-3) [OF rel] have "keeps N q cs base q' (cs @ [c]) base b (e + 1)"
      by (simp add: keeps_def)
    moreover have "yq_back q' = Some (slot N (cs @ [c]) base e)"
      using sl yq_rel_bounds [OF rel] by (simp add: yq_back_def q'_def)
    moreover have "e + 1 = base + length cs * N" "hd (cs @ [c]) = hd cs"
      using rel True cs(3) by (cases cs; auto simp: yq_rel_def)+
    ultimately show ?thesis
      using rel \<open>chunks_ok N q' (cs @ [c])\<close> by (auto simp: yq_rel_def q'_def)
  qed
  with push show ?thesis by blast
qed

lemma yq_set_spec:
  assumes rel: "yq_rel N q cs base b e" and i: "b \<le> i" "i < e"
  shows "\<exists>q'. yq_set (slot N cs base i) v q = Some q' \<and> yq_rel N q' cs base b e
    \<and> (\<forall>j. b \<le> j \<longrightarrow> j < e \<longrightarrow> yq_get (slot N cs base j) q' =
          (if j = i then Some (Some v) else yq_get (slot N cs base j) q))
    \<and> dom (y_heap q') = dom (y_heap q)"
proof -
  note bd = yq_rel_bounds [OF rel]
  obtain ck where ck: "y_heap q (fst (slot N cs base i)) = Some ck" "snd (slot N cs base i) < length (ck_values ck)"
    by (rule yq_slot_valid [OF rel, of i]) (use bd i in auto)
  define q' where "q' = q\<lparr>y_heap := (y_heap q)(fst (slot N cs base i) \<mapsto>
      ck\<lparr>ck_values := (ck_values ck)[snd (slot N cs base i) := Some v]\<rparr>)\<rparr>"
  have "yq_set (slot N cs base i) v q = Some q'"
    using ck by (simp add: yq_set_def q'_def tab_set_def)
  moreover have "chunks_ok N q' cs"
    using rel ck unfolding yq_rel_def chunks_ok_def q'_def by (auto simp: dom_def insert_absorb split: if_splits)
  moreover have "yq_back q' = yq_back q" by (simp add: yq_back_def q'_def split: option.split)
  ultimately have "yq_set (slot N cs base i) v q = Some q'" "yq_rel N q' cs base b e"
    using rel by (simp_all add: yq_rel_def) (simp_all add: q'_def)
  moreover have "yq_get (slot N cs base j) q' = (if j = i then Some (Some v) else yq_get (slot N cs base j) q)"
    if "b \<le> j" "j < e" for j
  proof (cases "j = i")
    case True
    with ck show ?thesis by (simp add: yq_get_def q'_def tab_get_def)
  next
    case False
    then have "slot N cs base j \<noteq> slot N cs base i"
      using slot_inj [OF bd(4,5), of base j i] bd that i by auto
    with False ck show ?thesis by (auto simp: yq_get_def q'_def tab_get_def prod_eq_iff)
  qed
  moreover have "dom (y_heap q') = dom (y_heap q)" using ck by (auto simp: q'_def)
  ultimately show ?thesis by blast
qed

lemma slot_pred:
  assumes rel: "yq_rel N q cs base b e" and i: "base \<le> i" "i + 1 < base + length cs * N"
    and sl: "slot N cs base (i + 1) = (c, p)"
  shows "if p > 0 then slot N cs base i = (c, p - 1)
    else \<exists>ck k. y_heap q c = Some ck \<and> ck_prev ck = Some k \<and> slot N cs base i = (k, N - 1)"
proof -
  note bd = yq_rel_bounds [OF rel]
  obtain j r where j: "i + 1 = base + j * N + r" "j < length cs" "r < N"
    by (rule slot_split [OF bd(4), of base "i + 1" "length cs"]) (use i in auto)
  then have cp: "c = cs ! j" "p = r" using sl bd(4) by (auto simp: slot_block)
  show ?thesis
  proof (cases "r > 0")
    case True
    then obtain t where t: "r = Suc t" by (cases r) auto
    then have "i = base + j * N + t" using j by simp
    with t cp bd(4) j show ?thesis by (simp add: slot_block)
  next
    case False
    then obtain k where k: "j = Suc k" using j i by (cases j) auto
    then have "i = base + k * N + (N - 1)" using j False bd(4) by simp
    then have sl: "slot N cs base i = (cs ! k, N - 1)" using bd(4) by (simp only: slot_block diff_less zero_less_one)
    have "cs ! j \<in> dom (y_heap q)" using rel j by (simp add: yq_rel_def chunks_ok_def)
    then obtain ck where "y_heap q c = Some ck" using cp by auto
    with rel j k cp False sl show ?thesis by (auto simp: yq_rel_def chunks_ok_def)
  qed
qed

lemma chunks_ok_butlast:
  assumes ok: "chunks_ok N q (ds @ [c])" "ds \<noteq> []" and pk: "y_heap q (last ds) = Some pk"
    and q': "y_heap q' = (y_heap q)(c := None, last ds \<mapsto> pk\<lparr>ck_next := None\<rparr>)" "spare_chunk q' = spare_chunk q"
  shows "chunks_ok N q' ds"
proof -
  have ds: "distinct ds" "c \<notin> set ds" "last ds \<in> set ds" using ok by (auto simp: chunks_ok_def)
  have other: "y_heap q' (ds ! i) = y_heap q (ds ! i)" if "Suc i < length ds" for i
  proof -
    have "ds ! i \<noteq> last ds" using that ds(1) ok(2) by (simp add: last_conv_nth nth_eq_iff_index_eq)
    moreover have "ds ! i \<noteq> c" using that ds(2) by (metis Suc_lessD nth_mem)
    ultimately show ?thesis by (simp add: q')
  qed
  have "ck_next k = Some (ds ! Suc i)" if "Suc i < length ds" "y_heap q' (ds ! i) = Some k" for i k
    using ok(1) that other [of i] by (auto simp: chunks_ok_def nth_append dest: spec [of _ i])
  moreover have "ck_prev k = Some (ds ! i)" if "Suc i < length ds" "y_heap q' (ds ! Suc i) = Some k" for i k
  proof -
    from that ds(2) have "ds ! Suc i \<noteq> c" by (metis nth_mem)
    with that(2) pk obtain k' where "y_heap q (ds ! Suc i) = Some k'" "ck_prev k' = ck_prev k"
      by (auto simp: q' split: if_splits)
    with ok(1) that(1) show ?thesis by (auto simp: chunks_ok_def nth_append dest: spec [of _ i])
  qed
  moreover have "length (ck_values k) = N" if "y_heap q' x = Some k" for x k
    using that ok(1) pk by (auto simp: q' chunks_ok_def split: if_splits)
  moreover have "dom (y_heap q') = set ds \<union> set_option (spare_chunk q')"
    using ok(1) ds pk by (auto simp: q' chunks_ok_def)
  moreover have "set_option (spare_chunk q') \<inter> set ds = {}"
    using ok(1) by (auto simp: q' chunks_ok_def)
  ultimately show ?thesis using ok(2) ds by (simp add: chunks_ok_def)
qed

text \<open>Moving the back pointer one element backwards.\<close>

lemma yq_back_pred:
  assumes rel: "yq_rel N q cs base b e" and two: "b + 2 \<le> e"
    and q1: "q1 = (if back_pos q > 0 then Some (q\<lparr>back_pos := back_pos q - 1\<rparr>)
           else do {
             bc \<leftarrow> back_chunk q;
             ck \<leftarrow> y_heap q bc;
             Some (q\<lparr>back_pos := N - 1, back_chunk := ck_prev ck\<rparr>)
           })"
  shows "\<exists>c p. slot N cs base (e - 2) = (c, p) \<and> q1 = Some (q\<lparr>back_chunk := Some c, back_pos := p\<rparr>)"
proof -
  note bd = yq_rel_bounds [OF rel]
  have "e - 2 + 1 = e - 1" "b < e" using two by simp_all
  then have "yq_back q = Some (slot N cs base (e - 2 + 1))" using rel by (simp add: yq_rel_def)
  then obtain c where c: "back_chunk q = Some c" "slot N cs base (e - 2 + 1) = (c, back_pos q)"
    by (auto simp: yq_back_def split: option.splits)
  have "base \<le> e - 2" "e - 2 + 1 < base + length cs * N" using bd(1,3) two by simp_all
  from slot_pred [OF rel this c(2)] q1 c(1) show ?thesis
    by (auto split: if_splits)
qed

lemma yq_unpush_spec:
  assumes rel: "yq_rel N q cs base b e" and two: "b + 2 \<le> e"
  shows "\<exists>q' cs'. yq_unpush N q = Some q' \<and> yq_rel N q' cs' base b (e - 1)
    \<and> keeps N q cs base q' cs' base b (e - 1) \<and> dom (y_heap q') \<subseteq> dom (y_heap q)"
proof -
  note bd = yq_rel_bounds [OF rel]
  obtain c p where cp: "slot N cs base (e - 2) = (c, p)"
    and q1: "yq_unpush N q = (let q1 = q\<lparr>back_chunk := Some c, back_pos := p\<rparr> in
       if end_pos q1 > 0 then Some (q1\<lparr>end_pos := end_pos q1 - 1\<rparr>)
       else do {
         ck \<leftarrow> y_heap q1 (end_chunk q1);
         p \<leftarrow> ck_prev ck;
         pk \<leftarrow> y_heap q1 p;
         set_next p None (yq_free (ck_next pk) (q1\<lparr>end_pos := N - 1, end_chunk := p\<rparr>))
       })"
    using yq_back_pred [OF rel two refl] unfolding yq_unpush_def Let_def by auto
  show ?thesis
  proof (cases "end_pos q > 0")
    case True
    have "yq_rel N (q\<lparr>back_chunk := Some c, back_pos := p, end_pos := end_pos q - 1\<rparr>) cs base b (e - 1)"
      using rel True cp two by (auto simp: yq_rel_def chunks_ok_def yq_back_def numeral_2_eq_2)
    with True q1 show ?thesis by (auto simp: keeps_def yq_get_def Let_def)
  next
    case False
    have "length cs \<noteq> 1" using rel False two by (auto simp: yq_rel_def)
    then obtain ds d where cs: "cs = ds @ [d]" "ds \<noteq> []"
      using bd(6) by (metis append_butlast_last_id butlast.simps(2) length_0_conv length_append_singleton One_nat_def)
    have ok: "chunks_ok N q (ds @ [d])" using rel cs by (simp add: yq_rel_def)
    have last: "last ds = ds ! (length ds - 1)" using cs by (simp add: last_conv_nth)
    have len: "Suc (length ds - 1) = length ds" using cs by simp
    have "d \<in> dom (y_heap q)" "last ds \<in> dom (y_heap q)" using ok cs by (auto simp: chunks_ok_def)
    then obtain ck pk where ck: "y_heap q d = Some ck" "y_heap q (last ds) = Some pk" by blast
    have links: "ck_prev ck = Some (last ds)" "ck_next pk = Some d"
      using ok ck last len unfolding chunks_ok_def by (auto simp: nth_append dest!: spec [of _ "length ds - 1"])
    define q' where "q' = q\<lparr>back_chunk := Some c, back_pos := p, end_pos := N - 1, end_chunk := last ds,
       y_heap := (y_heap q)(d := None, last ds \<mapsto> pk\<lparr>ck_next := None\<rparr>)\<rparr>"
    have ne: "last ds \<noteq> d" using ok cs by (auto simp: chunks_ok_def)
    have "yq_unpush N q = Some q'"
      using q1 False rel cs ck links ne
      by (auto simp: q'_def yq_rel_def yq_free_def set_next_def Let_def)
    moreover have "chunks_ok N q' ds"
      by (rule chunks_ok_butlast [OF ok cs(2) ck(2)]) (simp_all add: q'_def)
    moreover have sl: "slot N ds base i = slot N cs base i" if i: "base \<le> i" "i < base + length ds * N" for i
    proof -
      obtain j r where "i = base + j * N + r" "j < length ds" "r < N" by (rule slot_split [OF bd(4) i])
      then show ?thesis using bd(4) cs by (simp add: slot_block nth_append)
    qed
    moreover have e: "e = base + length ds * N" using rel False cs by (simp add: yq_rel_def)
    moreover have "yq_get (slot N cs base i) q' = yq_get (slot N cs base i) q"
      if i: "base \<le> i" "i < base + length ds * N" for i
    proof -
      obtain j r where "i = base + j * N + r" "j < length ds" "r < N" by (rule slot_split [OF bd(4) i])
      then have "fst (slot N cs base i) \<in> set ds" using bd(4) cs by (simp add: slot_block nth_append)
      then have "fst (slot N cs base i) \<noteq> d" using ok by (auto simp: chunks_ok_def)
      with ck show ?thesis by (auto simp: yq_get_def q'_def)
    qed
    moreover have "yq_rel N q' ds base b (e - 1)"
    proof -
      obtain m where "length ds = Suc m" using cs(2) by (cases ds) auto
      then have "e = base + (length ds - 1) * N + N" using e by simp
      then have "e - 1 = base + (length ds - 1) * N + (N - 1)" "b \<le> e - 1" using bd(4) two by simp_all
      moreover have "yq_back q' = Some (slot N ds base (e - 1 - 1))"
        using cp two e sl [of "e - 2"] bd(1,4) by (simp add: q'_def yq_back_def numeral_2_eq_2)
      moreover have "begin_chunk q' = hd ds" using rel cs by (simp add: yq_rel_def q'_def hd_append)
      ultimately show ?thesis
        using rel \<open>chunks_ok N q' ds\<close> bd(4) by (simp add: yq_rel_def) (simp add: q'_def)
    qed
    moreover have "dom (y_heap q') \<subseteq> dom (y_heap q)" using ck by (auto simp: q'_def split: if_splits)
    ultimately show ?thesis
      using bd(1) by (intro exI [of _ q'] exI [of _ ds]) (auto simp: keeps_def)
  qed
qed

lemma slot_tl:
  assumes "0 < N" "base + N \<le> i" "i < base + length (c # cs) * N"
  shows "slot N cs (base + N) i = slot N (c # cs) base i"
proof -
  obtain j p where i: "i = base + N + j * N + p" and j: "j < length cs" "p < N"
    by (rule slot_split [OF assms(1,2), of "length cs"]) (use assms(3) in auto)
  have i': "i = base + Suc j * N + p" using i by simp
  have "slot N cs (base + N) i = (cs ! j, p)" unfolding i by (rule slot_block [OF assms(1) j(2)])
  moreover have "slot N (c # cs) base i = ((c # cs) ! Suc j, p)"
    unfolding i' by (rule slot_block [OF assms(1) j(2)])
  ultimately show ?thesis by simp
qed

lemma chunks_ok_tl:
  assumes ok: "chunks_ok N q (c # d # ds)" and dk: "y_heap q d = Some dk"
    and q': "y_heap q' = (\<lambda>x. if x = d then Some (dk\<lparr>ck_prev := None\<rparr>)
      else if Some x = spare_chunk q then None else y_heap q x)" "spare_chunk q' = Some c"
  shows "chunks_ok N q' (d # ds)"
proof -
  have dist: "distinct (c # d # ds)" "set_option (spare_chunk q) \<inter> set (c # d # ds) = {}"
    using ok by (auto simp: chunks_ok_def)
  have keep: "y_heap q' x = y_heap q x" if "x \<in> set ds \<or> x = c" for x
    using that dist by (cases "spare_chunk q") (auto simp: q')
  have "ck_next k = Some ((d # ds) ! Suc i)" if "Suc i < length (d # ds)" "y_heap q' ((d # ds) ! i) = Some k" for i k
    using ok that keep [of "(d # ds) ! i"] dk q'(1) unfolding chunks_ok_def
    by (cases i) (auto dest!: spec [of _ "Suc i"])
  moreover have "ck_prev k = Some ((d # ds) ! i)" if "Suc i < length (d # ds)" "y_heap q' ((d # ds) ! Suc i) = Some k" for i k
    using ok that keep [of "ds ! i"] unfolding chunks_ok_def by (auto dest!: spec [of _ "Suc i"])
  moreover have "length (ck_values k) = N" if "y_heap q' x = Some k" for x k
    using that ok dk unfolding q'(1) chunks_ok_def by (auto split: if_splits)
  moreover have "dom (y_heap q') = set (d # ds) \<union> set_option (spare_chunk q')"
  proof -
    have "dom (y_heap q) = set (c # d # ds) \<union> set_option (spare_chunk q)" using ok by (simp add: chunks_ok_def)
    with dist show ?thesis unfolding q' by (auto simp: dom_def set_eq_iff split: if_splits)
  qed
  ultimately show ?thesis using dist q'(2) by (simp add: chunks_ok_def)
qed

lemma yq_pop_spec:
  assumes rel: "yq_rel N q cs base b e" and ne: "b < e"
  shows "\<exists>q' cs' base'. yq_pop N q = Some q' \<and> yq_rel N q' cs' base' (b + 1) e
    \<and> keeps N q cs base q' cs' base' (b + 1) e \<and> dom (y_heap q') \<subseteq> dom (y_heap q)"
proof (cases "begin_pos q + 1 = N")
  case False
  then have "yq_rel N (q\<lparr>begin_pos := begin_pos q + 1\<rparr>) cs base (b + 1) e"
    using rel ne by (auto simp: yq_rel_def chunks_ok_def yq_back_def split: option.splits)
  with False show ?thesis by (auto simp: yq_pop_def keeps_def yq_get_def)
next
  case True
  note bd = yq_rel_bounds [OF rel]
  have b1: "b + 1 = base + N" using rel True by (simp add: yq_rel_def)
  obtain c cs1 where cs1: "cs = c # cs1" using bd(6) by (cases cs) auto
  moreover have "cs1 \<noteq> []" using bd(3) b1 ne cs1 by auto
  ultimately obtain d ds where cs: "cs = c # d # ds" by (cases cs1) auto
  have ok: "chunks_ok N q (c # d # ds)" using rel cs by (simp add: yq_rel_def)
  then have "c \<in> dom (y_heap q)" "d \<in> dom (y_heap q)" "c \<noteq> d" by (auto simp: chunks_ok_def)
  then obtain ck dk where ck: "y_heap q c = Some ck" "y_heap q d = Some dk" by blast
  have nx: "ck_next ck = Some d" using ok ck unfolding chunks_ok_def by (auto dest!: spec [of _ 0])
  have sp: "Some d \<noteq> spare_chunk q" "Some c \<noteq> spare_chunk q" using ok by (auto simp: chunks_ok_def)
  define q' where "q' = q\<lparr>begin_pos := 0, begin_chunk := d, spare_chunk := Some c,
     y_heap := (\<lambda>x. if x = d then Some (dk\<lparr>ck_prev := None\<rparr>)
       else if Some x = spare_chunk q then None else y_heap q x)\<rparr>"
  have pop: "yq_pop N q = Some q'"
    using True rel cs ck nx sp
    by (cases "spare_chunk q") (auto simp: yq_pop_def q'_def yq_rel_def set_prev_def yq_free_def Let_def fun_eq_iff)
  have ok': "chunks_ok N q' (d # ds)" by (rule chunks_ok_tl [OF ok ck(2)]) (simp_all add: q'_def)
  have sl: "slot N (d # ds) (base + N) i = slot N cs base i" if "b + 1 \<le> i" "i < base + length cs * N" for i
    using slot_tl [OF bd(4), of base i c "d # ds"] that b1 cs by simp
  have get: "yq_get (slot N cs base i) q' = yq_get (slot N cs base i) q"
    if i: "b + 1 \<le> i" "i < base + length cs * N" for i
  proof -
    obtain k where "fst (slot N cs base i) \<in> set cs" by (rule yq_slot_valid [OF rel, of i]) (use i bd(1) in auto)
    moreover have "set_option (spare_chunk q) \<inter> set cs = {}" using rel by (simp add: yq_rel_def chunks_ok_def)
    ultimately have "Some (fst (slot N cs base i)) \<noteq> spare_chunk q" by (metis disjoint_iff elem_set)
    with ck show ?thesis by (auto simp: yq_get_def q'_def)
  qed
  have e: "e = base + N + (length (d # ds) - 1) * N + end_pos q" using rel cs by (simp add: yq_rel_def)
  have bk: "yq_back q' = Some (slot N (d # ds) (base + N) (e - 1))" if "b + 1 < e"
  proof -
    have "yq_back q' = yq_back q" by (simp add: yq_back_def q'_def split: option.split)
    with rel ne sl [of "e - 1"] bd(3) that show ?thesis by (simp add: yq_rel_def)
  qed
  have fields: "begin_chunk q' = d" "begin_pos q' = 0" "end_pos q' = end_pos q" "end_chunk q' = end_chunk q"
    by (simp_all add: q'_def)
  have "end_pos q < N" "end_chunk q = last (d # ds)" using rel cs by (simp_all add: yq_rel_def)
  then have "yq_rel N q' (d # ds) (base + N) (b + 1) e"
    unfolding yq_rel_def fields using bd(4) ok' b1 e ne bk by (intro conjI) auto
  moreover have "dom (y_heap q') \<subseteq> dom (y_heap q)" using ck by (auto simp: q'_def split: if_splits)
  ultimately show ?thesis
    using pop sl get bd(3) by (intro exI [of _ q'] exI [of _ "d # ds"] exI [of _ "base + N"]) (auto simp: keeps_def)
qed

lemma yq_new_spec:
  "0 < N \<Longrightarrow> \<exists>q. yq_new N (Some a) = Some q \<and> yq_rel N q [a] 0 0 0 \<and> dom (y_heap q) = {a}"
  by (auto simp: yq_new_def yq_rel_def chunks_ok_def new_chunk_def)

end
