(* ===== verification/Ypipe.thy ===== *)
theory Ypipe
  imports Yqueue "HOL-Library.Sublist"
begin

text \<open>
  \<^verbatim>\<open>ypipe_t\<close> (ypipe.hpp): the lock-free single-writer single-reader pipe every message and
  command of libzmq goes through. Its four pointers are addresses of the queue
  below; \<open>None\<close> is the null pointer. Reading a dead address or an element nobody wrote is undefined
  and makes the operation \<open>None\<close>. The abstract pipe is the sequence of everything written with
  three marks: read up to, flushed up to, complete up to. Each operation refines its
  counterpart there, and the interleavings of a writer and a reader thread, with the
  compare-and-swap and the store of a failing flush as separate steps, deliver the flushed
  items in order and never leave a reader asleep on data.
\<close>

record 'a ypipe =
  yp_queue :: "'a yqueue"
  yp_w :: "addr option"
  yp_r :: "addr option"
  yp_f :: "addr option"
  yp_c :: "addr option"

definition yp_new :: "nat \<Rightarrow> nat option \<Rightarrow> nat option \<Rightarrow> 'a ypipe option" where
  "yp_new N m m' = do {
     q0 \<leftarrow> yq_new N m;
     q \<leftarrow> yq_push N m' q0;
     Some \<lparr>yp_queue = q, yp_w = yq_back q, yp_r = yq_back q, yp_f = yq_back q, yp_c = yq_back q\<rparr>
   }"

definition yp_write :: "nat \<Rightarrow> nat option \<Rightarrow> 'a \<Rightarrow> bool \<Rightarrow> 'a ypipe \<Rightarrow> 'a ypipe option" where
  "yp_write N m v incomplete p = do {
     a \<leftarrow> yq_back (yp_queue p);
     q1 \<leftarrow> yq_set a v (yp_queue p);
     q2 \<leftarrow> yq_push N m q1;
     Some (if \<not> incomplete then p\<lparr>yp_queue := q2, yp_f := yq_back q2\<rparr> else p\<lparr>yp_queue := q2\<rparr>)
   }"

definition yp_unwrite :: "nat \<Rightarrow> 'a ypipe \<Rightarrow> ('a option \<times> 'a ypipe) option" where
  "yp_unwrite N p =
     (if yp_f p = yq_back (yp_queue p) then Some (None, p)
      else do {
        q \<leftarrow> yq_unpush N (yp_queue p);
        a \<leftarrow> yq_back q;
        x \<leftarrow> yq_get a q;
        v \<leftarrow> x;
        Some (Some v, p\<lparr>yp_queue := q\<rparr>)
      })"

text \<open>\<^verbatim>\<open>cas (cmp, val)\<close> of atomic_ptr.hpp: the old value, and the new one where it was \<open>cmp\<close>.\<close>

definition cas :: "addr option \<Rightarrow> addr option \<Rightarrow> addr option \<Rightarrow> addr option \<times> addr option" where
  "cas c cmp val = (c, if c = cmp then val else c)"

text \<open>The two halves of \<^verbatim>\<open>flush\<close>: \<open>Inl\<close> is its result, \<open>Inr\<close> the pipe before the store of a failed swap.\<close>

definition yp_flush_cas :: "'a ypipe \<Rightarrow> (bool \<times> 'a ypipe) + 'a ypipe" where
  "yp_flush_cas p =
     (if yp_w p = yp_f p then Inl (True, p)
      else
        (let (old, new) = cas (yp_c p) (yp_w p) (yp_f p); p1 = p\<lparr>yp_c := new\<rparr> in
         if old \<noteq> yp_w p then Inr p1 else Inl (True, p1\<lparr>yp_w := yp_f p1\<rparr>)))"

definition yp_flush_set :: "'a ypipe \<Rightarrow> bool \<times> 'a ypipe" where
  "yp_flush_set p = (False, p\<lparr>yp_c := yp_f p, yp_w := yp_f p\<rparr>)"

definition yp_flush :: "'a ypipe \<Rightarrow> bool \<times> 'a ypipe" where
  "yp_flush p = (case yp_flush_cas p of Inl r \<Rightarrow> r | Inr p' \<Rightarrow> yp_flush_set p')"

definition yp_check_read :: "'a ypipe \<Rightarrow> bool \<times> 'a ypipe" where
  "yp_check_read p =
     (let front = Some (yq_front (yp_queue p)) in
      if front \<noteq> yp_r p \<and> yp_r p \<noteq> None then (True, p)
      else
        (let (old, new) = cas (yp_c p) front None; p1 = p\<lparr>yp_c := new, yp_r := old\<rparr> in
         if front = yp_r p1 \<or> yp_r p1 = None then (False, p1) else (True, p1)))"

definition yp_read :: "nat \<Rightarrow> 'a ypipe \<Rightarrow> ('a option \<times> 'a ypipe) option" where
  "yp_read N p =
     (let (ok, p1) = yp_check_read p in
      if \<not> ok then Some (None, p1)
      else do {
        x \<leftarrow> yq_get (yq_front (yp_queue p1)) (yp_queue p1);
        v \<leftarrow> x;
        q \<leftarrow> yq_pop N (yp_queue p1);
        Some (Some v, p1\<lparr>yp_queue := q\<rparr>)
      })"

definition yp_probe :: "('a \<Rightarrow> bool) \<Rightarrow> 'a ypipe \<Rightarrow> (bool \<times> 'a ypipe) option" where
  "yp_probe fn p =
     (let (ok, p1) = yp_check_read p in do {
        zmq_assert ok;
        x \<leftarrow> yq_get (yq_front (yp_queue p1)) (yp_queue p1);
        v \<leftarrow> x;
        Some (fn v, p1)
      })"

subsection \<open>The abstract pipe\<close>

record 'a pq =
  hist :: "'a list"
  rd :: nat
  wr :: nat
  fl :: nat
  asleep :: bool

definition pq_new :: "'a pq" where
  "pq_new = \<lparr>hist = [], rd = 0, wr = 0, fl = 0, asleep = False\<rparr>"

definition pq_ok :: "'a pq \<Rightarrow> bool" where
  "pq_ok s \<longleftrightarrow> rd s \<le> wr s \<and> wr s \<le> fl s \<and> fl s \<le> length (hist s) \<and> (asleep s \<longrightarrow> rd s = wr s)"

definition pq_write :: "'a \<Rightarrow> bool \<Rightarrow> 'a pq \<Rightarrow> 'a pq" where
  "pq_write v incomplete s = s\<lparr>hist := hist s @ [v], fl := if incomplete then fl s else length (hist s) + 1\<rparr>"

definition pq_unwrite :: "'a pq \<Rightarrow> 'a option \<times> 'a pq" where
  "pq_unwrite s = (if fl s \<ge> length (hist s) then (None, s)
     else (Some (last (hist s)), s\<lparr>hist := butlast (hist s)\<rparr>))"

definition pq_flush :: "'a pq \<Rightarrow> bool \<times> 'a pq" where
  "pq_flush s = (if wr s = fl s then (True, s) else (\<not> asleep s, s\<lparr>wr := fl s, asleep := False\<rparr>))"

definition pq_check_read :: "'a pq \<Rightarrow> bool \<times> 'a pq" where
  "pq_check_read s = (if rd s < wr s then (True, s) else (False, s\<lparr>asleep := True\<rparr>))"

definition pq_read :: "'a pq \<Rightarrow> 'a option \<times> 'a pq" where
  "pq_read s = (if rd s < wr s then (Some (hist s ! rd s), s\<lparr>rd := rd s + 1\<rparr>) else (None, s\<lparr>asleep := True\<rparr>))"

lemmas pq_defs = pq_new_def pq_write_def pq_unwrite_def pq_flush_def pq_check_read_def pq_read_def

lemma pq_ok_ops:
  "pq_ok pq_new"
  "pq_ok s \<Longrightarrow> pq_ok (pq_write v i s)" "pq_ok s \<Longrightarrow> pq_ok (snd (pq_unwrite s))" "pq_ok s \<Longrightarrow> pq_ok (snd (pq_flush s))"
  "pq_ok s \<Longrightarrow> pq_ok (snd (pq_check_read s))" "pq_ok s \<Longrightarrow> pq_ok (snd (pq_read s))"
  by (auto simp: pq_ok_def pq_defs)

subsection \<open>Refinement\<close>

definition yp_view :: "nat \<Rightarrow> 'a ypipe \<Rightarrow> 'a pq \<Rightarrow> nat list \<Rightarrow> nat \<Rightarrow> bool" where
  "yp_view N p s cs base \<longleftrightarrow> pq_ok s \<and> yq_rel N (yp_queue p) cs base (rd s) (length (hist s) + 1)
     \<and> yp_w p = Some (slot N cs base (wr s)) \<and> yp_f p = Some (slot N cs base (fl s))
     \<and> yp_c p = (if asleep s then None else Some (slot N cs base (wr s)))
     \<and> (yp_r p = None \<or> (\<exists>i. rd s \<le> i \<and> i \<le> wr s \<and> yp_r p = Some (slot N cs base i)))
     \<and> (\<forall>i. rd s \<le> i \<longrightarrow> i < length (hist s) \<longrightarrow>
          yq_get (slot N cs base i) (yp_queue p) = Some (Some (hist s ! i)))"

definition yp_rel :: "nat \<Rightarrow> 'a ypipe \<Rightarrow> 'a pq \<Rightarrow> bool" where
  "yp_rel N p s \<longleftrightarrow> (\<exists>cs base. yp_view N p s cs base)"

lemma yp_relI: "yp_view N p s cs base \<Longrightarrow> yp_rel N p s"
  by (auto simp: yp_rel_def)

lemma slot_eq_iff:
  assumes "yq_rel N q cs base b e" "b \<le> i" "i < e" "b \<le> j" "j < e"
  shows "slot N cs base i = slot N cs base j \<longleftrightarrow> i = j"
  using slot_inj [of N cs base i j] yq_rel_bounds [OF assms(1)] assms(2-) by auto

lemma yp_view_pointers:
  assumes "yp_view N p s cs base" "rd s \<le> i" "i \<le> length (hist s)"
  shows "Some (yq_front (yp_queue p)) = Some (slot N cs base i) \<longleftrightarrow> i = rd s"
    "yq_back (yp_queue p) = Some (slot N cs base i) \<longleftrightarrow> i = length (hist s)"
    "yp_w p = Some (slot N cs base i) \<longleftrightarrow> i = wr s"
proof -
  have rel: "yq_rel N (yp_queue p) cs base (rd s) (length (hist s) + 1)" and ok: "pq_ok s"
    using assms(1) by (auto simp: yp_view_def)
  have "yq_back (yp_queue p) = Some (slot N cs base (length (hist s)))"
    using rel ok by (auto simp: yq_rel_def pq_ok_def)
  with assms ok rel show "Some (yq_front (yp_queue p)) = Some (slot N cs base i) \<longleftrightarrow> i = rd s"
    "yq_back (yp_queue p) = Some (slot N cs base i) \<longleftrightarrow> i = length (hist s)"
    "yp_w p = Some (slot N cs base i) \<longleftrightarrow> i = wr s"
    using slot_eq_iff [OF rel] yq_front_slot [OF rel] by (auto simp: yp_view_def pq_ok_def)
qed

lemma yp_new_refines:
  assumes "0 < N" "a \<noteq> a'"
  shows "\<exists>p. yp_new N (Some a) (Some a') = Some p \<and> yp_rel N p pq_new"
proof -
  obtain q0 :: "'a yqueue" where q0: "yq_new N (Some a) = Some q0" "yq_rel N q0 [a] 0 0 0" "dom (y_heap q0) = {a}"
    using yq_new_spec [OF assms(1)] by blast
  then obtain q cs where q: "yq_push N (Some a') q0 = Some q" "yq_rel N q cs 0 0 1"
    using yq_push_spec [OF q0(2), of a'] assms(2) by auto
  then have "yq_back q = Some (slot N cs 0 0)" by (simp add: yq_rel_def)
  with q q0(1) show ?thesis
    by (auto simp: yp_new_def yp_rel_def yp_view_def pq_new_def pq_ok_def)
qed

lemma yp_write_refines:
  assumes "yp_rel N p s" "a \<notin> dom (y_heap (yp_queue p))"
  shows "\<exists>p'. yp_write N (Some a) v i p = Some p' \<and> yp_rel N p' (pq_write v i s)"
proof -
  let ?n = "length (hist s)"
  from assms(1) obtain cs base where view: "yp_view N p s cs base" by (auto simp: yp_rel_def)
  then have rel: "yq_rel N (yp_queue p) cs base (rd s) (?n + 1)" and ok: "pq_ok s" by (auto simp: yp_view_def)
  have le: "rd s \<le> ?n" using ok by (simp add: pq_ok_def)
  obtain q1 where q1: "yq_set (slot N cs base ?n) v (yp_queue p) = Some q1" "yq_rel N q1 cs base (rd s) (?n + 1)"
      "\<forall>j. rd s \<le> j \<longrightarrow> j < ?n + 1 \<longrightarrow> yq_get (slot N cs base j) q1 =
          (if j = ?n then Some (Some v) else yq_get (slot N cs base j) (yp_queue p))"
      "dom (y_heap q1) = dom (y_heap (yp_queue p))"
    using yq_set_spec [OF rel le, of v] by auto
  obtain q2 cs' where q2: "yq_push N (Some a) q1 = Some q2" "yq_rel N q2 cs' base (rd s) (?n + 1 + 1)"
      "keeps N q1 cs base q2 cs' base (rd s) (?n + 1 + 1)"
    using yq_push_spec [OF q1(2), of a] assms(2) q1(4) by auto
  have bk: "yq_back (yp_queue p) = Some (slot N cs base ?n)" "yq_back q2 = Some (slot N cs' base (?n + 1))"
    using rel q2(2) le by (auto simp: yq_rel_def)
  have same: "slot N cs' base j = slot N cs base j" if "rd s \<le> j" "j \<le> ?n" for j
    using q2(3) that by (simp add: keeps_def)
  have get: "yq_get (slot N cs' base j) q2 = Some (Some ((hist s @ [v]) ! j))" if "rd s \<le> j" "j \<le> ?n" for j
    using q1(3) q2(3) view that by (auto simp: keeps_def yp_view_def nth_append)
  obtain p' where p': "yp_write N (Some a) v i p = Some p'"
    "p' = (if \<not> i then p\<lparr>yp_queue := q2, yp_f := yq_back q2\<rparr> else p\<lparr>yp_queue := q2\<rparr>)"
    using q1(1) q2(1) bk(1) by (simp add: yp_write_def)
  have "yp_view N p' (pq_write v i s) cs' base"
    using view q2(2) bk(2) same get ok p'(2)
    by (auto simp: yp_view_def pq_write_def pq_ok_def less_Suc_eq_le)
  with p'(1) show ?thesis by (auto simp: yp_rel_def)
qed

lemma yp_unwrite_refines:
  assumes "yp_rel N p s"
  shows "\<exists>p'. yp_unwrite N p = Some (fst (pq_unwrite s), p') \<and> yp_rel N p' (snd (pq_unwrite s))
    \<and> dom (y_heap (yp_queue p')) \<subseteq> dom (y_heap (yp_queue p))"
proof -
  let ?n = "length (hist s)"
  from assms obtain cs base where view: "yp_view N p s cs base" by (auto simp: yp_rel_def)
  then have rel: "yq_rel N (yp_queue p) cs base (rd s) (?n + 1)" and ok: "pq_ok s" by (auto simp: yp_view_def)
  show ?thesis
  proof (cases "fl s = ?n")
    case True
    have "yp_f p = yq_back (yp_queue p)"
      using view True rel ok by (auto simp: yp_view_def yq_rel_def pq_ok_def)
    with True assms show ?thesis by (simp add: yp_unwrite_def pq_unwrite_def)
  next
    case False
    with ok have two: "rd s + 2 \<le> ?n + 1" "fl s \<le> ?n - 1" "hist s \<noteq> []" by (auto simp: pq_ok_def)
    have ne: "yp_f p \<noteq> yq_back (yp_queue p)"
      using yp_view_pointers(2) [OF view, of "fl s"] False ok view by (auto simp: pq_ok_def yp_view_def)
    obtain q cs' where q: "yq_unpush N (yp_queue p) = Some q" "yq_rel N q cs' base (rd s) ?n"
        "keeps N (yp_queue p) cs base q cs' base (rd s) ?n" "dom (y_heap q) \<subseteq> dom (y_heap (yp_queue p))"
      using yq_unpush_spec [OF rel two(1)] by auto
    have same: "slot N cs' base j = slot N cs base j"
        "yq_get (slot N cs base j) q = Some (Some (hist s ! j))" if "rd s \<le> j" "j < ?n" for j
      using q(3) view that by (auto simp: keeps_def yp_view_def)
    have bk: "yq_back q = Some (slot N cs base (?n - 1))"
      using q(2) same(1) [of "?n - 1"] two by (simp add: yq_rel_def)
    have "yp_unwrite N p = Some (Some (last (hist s)), p\<lparr>yp_queue := q\<rparr>)"
      using ne q(1) bk same(2) [of "?n - 1"] two by (simp add: yp_unwrite_def last_conv_nth)
    moreover have "yp_view N (p\<lparr>yp_queue := q\<rparr>) (s\<lparr>hist := butlast (hist s)\<rparr>) cs' base"
      using view q(2) same ok two by (auto simp: yp_view_def pq_ok_def nth_butlast)
    ultimately show ?thesis using False q(4) ok by (auto simp: pq_unwrite_def pq_ok_def intro!: yp_relI)
  qed
qed

lemma yp_flush_cas_refines:
  assumes "yp_rel N p s"
  shows "case yp_flush_cas p of
      Inl (r, p') \<Rightarrow> (r, snd (pq_flush s)) = pq_flush s \<and> yp_rel N p' (snd (pq_flush s)) \<and> yp_queue p' = yp_queue p
    | Inr p' \<Rightarrow> p' = p \<and> asleep s \<and> wr s \<noteq> fl s"
proof -
  from assms obtain cs base where view: "yp_view N p s cs base" by (auto simp: yp_rel_def)
  then have ok: "pq_ok s" by (simp add: yp_view_def)
  have "yp_f p = Some (slot N cs base (fl s))" "rd s \<le> fl s" "fl s \<le> length (hist s)"
    using view ok by (simp_all add: yp_view_def pq_ok_def)
  then have wf: "yp_w p = yp_f p \<longleftrightarrow> wr s = fl s"
    using yp_view_pointers(3) [OF view, of "fl s"] by metis
  have c: "yp_c p = yp_w p \<longleftrightarrow> \<not> asleep s" "asleep s \<Longrightarrow> yp_c p = None" "yp_w p \<noteq> None"
    using view by (auto simp: yp_view_def)
  consider (idle) "wr s = fl s" | (asleep) "wr s \<noteq> fl s" "asleep s" | (awake) "wr s \<noteq> fl s" "\<not> asleep s" by blast
  then show ?thesis
  proof cases
    case idle
    with wf assms show ?thesis by (simp add: yp_flush_cas_def pq_flush_def)
  next
    case asleep
    with wf c show ?thesis by (auto simp: yp_flush_cas_def cas_def)
  next
    case awake
    then have "yp_view N (p\<lparr>yp_c := yp_f p, yp_w := yp_f p\<rparr>) (s\<lparr>wr := fl s, asleep := False\<rparr>) cs base"
      using view ok by (auto simp: yp_view_def pq_ok_def)
    with awake wf c show ?thesis by (simp add: yp_flush_cas_def cas_def pq_flush_def yp_relI)
  qed
qed

lemma yp_flush_set_refines:
  assumes "yp_rel N p s" "asleep s" "wr s \<noteq> fl s"
  shows "fst (yp_flush_set p) = fst (pq_flush s) \<and> yp_rel N (snd (yp_flush_set p)) (snd (pq_flush s))"
proof -
  from assms obtain cs base where view: "yp_view N p s cs base" by (auto simp: yp_rel_def)
  then have "yp_view N (p\<lparr>yp_c := yp_f p, yp_w := yp_f p\<rparr>) (s\<lparr>wr := fl s, asleep := False\<rparr>) cs base"
    by (auto simp: yp_view_def pq_ok_def)
  with assms show ?thesis by (auto simp: yp_flush_set_def pq_flush_def yp_rel_def)
qed

lemma yp_flush_refines:
  assumes "yp_rel N p s"
  shows "fst (yp_flush p) = fst (pq_flush s) \<and> yp_rel N (snd (yp_flush p)) (snd (pq_flush s))
    \<and> yp_queue (snd (yp_flush p)) = yp_queue p"
  using yp_flush_cas_refines [OF assms] yp_flush_set_refines [OF assms]
  by (auto simp: yp_flush_def yp_flush_set_def prod_eq_iff split: sum.splits)

text \<open>The prefetched pointer only saves atomic operations: an item is there iff it was flushed.\<close>

lemma yp_check_read_view:
  assumes view: "yp_view N p s cs base" and run: "yp_check_read p = (ok, p')"
  shows "ok = (rd s < wr s) \<and> yp_view N p' (snd (pq_check_read s)) cs base \<and> yp_queue p' = yp_queue p
    \<and> (ok \<longrightarrow> (\<exists>i. rd s < i \<and> i \<le> wr s \<and> yp_r p' = Some (slot N cs base i)))"
proof -
  have ok: "pq_ok s" using view by (simp add: yp_view_def)
  have front: "Some (yq_front (yp_queue p)) = Some (slot N cs base i) \<longleftrightarrow> i = rd s"
    if "rd s \<le> i" "i \<le> wr s" for i
    using yp_view_pointers(1) [OF view, of i] that ok by (simp add: pq_ok_def)
  have le: "rd s \<le> wr s" using ok by (simp add: pq_ok_def)
  show ?thesis
  proof (cases "Some (yq_front (yp_queue p)) \<noteq> yp_r p \<and> yp_r p \<noteq> None")
    case True
    then obtain i where i: "rd s \<le> i" "i \<le> wr s" "yp_r p = Some (slot N cs base i)"
      using view by (auto simp: yp_view_def)
    have "i \<noteq> rd s" using front [OF i(1,2)] True i(3) by simp
    with i have "\<exists>j. rd s < j \<and> j \<le> wr s \<and> yp_r p = Some (slot N cs base j)" by (auto intro!: exI [of _ i])
    then show ?thesis using True run view
      by (auto simp: yp_check_read_def pq_check_read_def)
  next
    case False
    note fw = front [of "wr s"]
    have c: "yp_c p = (if asleep s then None else Some (slot N cs base (wr s)))" using view by (simp add: yp_view_def)
    have run': "p' = p\<lparr>yp_c := (if yp_c p = Some (yq_front (yp_queue p)) then None else yp_c p), yp_r := yp_c p\<rparr>"
      "ok = (Some (yq_front (yp_queue p)) \<noteq> yp_c p \<and> yp_c p \<noteq> None)"
      using False run by (auto simp: yp_check_read_def cas_def Let_def split: if_splits)
    consider (asleep) "asleep s" "rd s = wr s" | (empty) "\<not> asleep s" "rd s = wr s" | (ready) "\<not> asleep s" "rd s < wr s"
      using ok le le_neq_implies_less unfolding pq_ok_def by blast
    then show ?thesis
    proof cases
      case asleep
      with run' c view show ?thesis by (simp add: pq_check_read_def yp_view_def pq_ok_def)
    next
      case empty
      with run' c view fw show ?thesis by (auto simp: pq_check_read_def yp_view_def pq_ok_def)
    next
      case ready
      have "\<exists>i. rd s < i \<and> i \<le> wr s \<and> yp_r p' = Some (slot N cs base i)"
        by (rule exI [of _ "wr s"]) (use ready run' c in simp)
      moreover have "yp_view N p' s cs base"
        using view ready run' c fw le unfolding yp_view_def by (simp add: exI [of _ "wr s"])
      ultimately show ?thesis using ready run' c fw by (simp add: pq_check_read_def)
    qed
  qed
qed

lemma yp_check_read_refines:
  assumes "yp_rel N p s"
  shows "fst (yp_check_read p) = fst (pq_check_read s) \<and> yp_rel N (snd (yp_check_read p)) (snd (pq_check_read s))
    \<and> yp_queue (snd (yp_check_read p)) = yp_queue p"
proof -
  from assms obtain cs base where view: "yp_view N p s cs base" by (auto simp: yp_rel_def)
  from yp_check_read_view [OF view prod.collapse [symmetric]] show ?thesis
    by (auto simp: pq_check_read_def intro: yp_relI)
qed

lemma yp_read_refines:
  assumes "yp_rel N p s"
  shows "\<exists>p'. yp_read N p = Some (fst (pq_read s), p') \<and> yp_rel N p' (snd (pq_read s))
    \<and> dom (y_heap (yp_queue p')) \<subseteq> dom (y_heap (yp_queue p))"
proof -
  let ?n = "length (hist s)"
  from assms obtain cs base where view: "yp_view N p s cs base" by (auto simp: yp_rel_def)
  obtain ok p1 where p1: "yp_check_read p = (ok, p1)" by fastforce
  note chk = yp_check_read_view [OF view p1]
  show ?thesis
  proof (cases "rd s < wr s")
    case False
    with chk p1 show ?thesis by (auto simp: yp_read_def pq_read_def pq_check_read_def yp_rel_def)
  next
    case True
    with chk have ok: ok and view1: "yp_view N p1 s cs base" and q1: "yp_queue p1 = yp_queue p"
      by (auto simp: pq_check_read_def)
    then obtain i where i: "rd s < i" "i \<le> wr s" "yp_r p1 = Some (slot N cs base i)" using chk by auto
    have rel: "yq_rel N (yp_queue p1) cs base (rd s) (?n + 1)" and inv: "pq_ok s"
      using view1 by (auto simp: yp_view_def)
    have "yq_get (yq_front (yp_queue p1)) (yp_queue p1) = Some (Some (hist s ! rd s))"
      using view1 yq_front_slot [OF rel] True inv by (auto simp: yp_view_def pq_ok_def)
    moreover obtain q cs' base' where q: "yq_pop N (yp_queue p1) = Some q" "yq_rel N q cs' base' (rd s + 1) (?n + 1)"
        "keeps N (yp_queue p1) cs base q cs' base' (rd s + 1) (?n + 1)" "dom (y_heap q) \<subseteq> dom (y_heap (yp_queue p1))"
      using yq_pop_spec [OF rel] inv True by (auto simp: pq_ok_def)
    moreover have same: "slot N cs' base' j = slot N cs base j"
        "yq_get (slot N cs base j) q = yq_get (slot N cs base j) (yp_queue p1)" if "rd s < j" "j \<le> ?n" for j
      using q(3) that by (simp_all add: keeps_def)
    have "yp_view N (p1\<lparr>yp_queue := q\<rparr>) (s\<lparr>rd := rd s + 1\<rparr>) cs' base'"
      using view1 q(2) same i inv True
      by (auto simp: yp_view_def pq_ok_def) (metis Suc_leI i(1) le_trans same(1))+
    ultimately show ?thesis
      using True p1 ok q1 by (auto simp: yp_read_def pq_read_def yp_rel_def)
  qed
qed

subsection \<open>A writer thread and a reader thread\<close>

text \<open>
  The states of the two threads: the pipe, whether the writer is between the failed swap and
  the store of a flush, and, for the statements only, the items the writer has made
  visible and the ones the reader has got. Every step is one access to the shared
  pointer \<^verbatim>\<open>_c\<close>, or none.
\<close>

record 'a threads =
  th_pipe :: "'a ypipe"
  th_storing :: bool
  th_written :: "'a list"
  th_visible :: nat
  th_complete :: nat
  th_got :: "'a list"

definition th_new :: "'a ypipe \<Rightarrow> 'a threads" where
  "th_new p = \<lparr>th_pipe = p, th_storing = False, th_written = [], th_visible = 0, th_complete = 0, th_got = []\<rparr>"

inductive th_step :: "nat \<Rightarrow> 'a threads \<Rightarrow> 'a threads \<Rightarrow> bool" for N where
  wr_item: "\<not> th_storing t \<Longrightarrow> a \<notin> dom (y_heap (yp_queue (th_pipe t))) \<Longrightarrow>
    yp_write N (Some a) v i (th_pipe t) = Some p' \<Longrightarrow>
    th_step N t (t\<lparr>th_pipe := p', th_written := th_written t @ [v],
      th_complete := (if i then th_complete t else length (th_written t) + 1)\<rparr>)"
| unwrite: "\<not> th_storing t \<Longrightarrow> yp_unwrite N (th_pipe t) = Some (Some v, p') \<Longrightarrow>
    th_step N t (t\<lparr>th_pipe := p', th_written := butlast (th_written t)\<rparr>)"
| unwrite_none: "\<not> th_storing t \<Longrightarrow> yp_unwrite N (th_pipe t) = Some (None, p') \<Longrightarrow> th_step N t (t\<lparr>th_pipe := p'\<rparr>)"
| flush_done: "\<not> th_storing t \<Longrightarrow> yp_flush_cas (th_pipe t) = Inl (r, p') \<Longrightarrow>
    th_step N t (t\<lparr>th_pipe := p', th_visible := th_complete t\<rparr>)"
| flush_failed: "\<not> th_storing t \<Longrightarrow> yp_flush_cas (th_pipe t) = Inr p' \<Longrightarrow>
    th_step N t (t\<lparr>th_pipe := p', th_storing := True\<rparr>)"
| flush_store: "th_storing t \<Longrightarrow> yp_flush_set (th_pipe t) = (r, p') \<Longrightarrow>
    th_step N t (t\<lparr>th_pipe := p', th_storing := False, th_visible := th_complete t\<rparr>)"
| check: "yp_check_read (th_pipe t) = (ok, p') \<Longrightarrow> th_step N t (t\<lparr>th_pipe := p'\<rparr>)"
| read: "yp_read N (th_pipe t) = Some (Some v, p') \<Longrightarrow> th_step N t (t\<lparr>th_pipe := p', th_got := th_got t @ [v]\<rparr>)"
| read_none: "yp_read N (th_pipe t) = Some (None, p') \<Longrightarrow> th_step N t (t\<lparr>th_pipe := p'\<rparr>)"

definition th_inv :: "nat \<Rightarrow> 'a threads \<Rightarrow> bool" where
  "th_inv N t \<longleftrightarrow> (\<exists>s. yp_rel N (th_pipe t) s \<and> hist s = th_written t \<and> wr s = th_visible t \<and> fl s = th_complete t
     \<and> th_got t = take (rd s) (hist s) \<and> (th_storing t \<longrightarrow> asleep s \<and> wr s \<noteq> fl s))"

lemma yp_rel_ok: "yp_rel N p s \<Longrightarrow> pq_ok s"
  by (auto simp: yp_rel_def yp_view_def)

lemma th_invE:
  assumes "th_inv N t"
  obtains s where "yp_rel N (th_pipe t) s" "hist s = th_written t" "wr s = th_visible t" "fl s = th_complete t"
    "th_got t = take (rd s) (hist s)" "th_storing t \<longrightarrow> asleep s \<and> wr s \<noteq> fl s" "pq_ok s"
  using assms yp_rel_ok unfolding th_inv_def by blast

lemma th_inv_step:
  assumes "th_step N t t'" "th_inv N t"
  shows "th_inv N t'"
  using assms
proof (induction rule: th_step.induct)
  case (wr_item t a v i p')
  from wr_item.prems obtain s where s: "yp_rel N (th_pipe t) s" "hist s = th_written t" "wr s = th_visible t"
    "fl s = th_complete t" "th_got t = take (rd s) (hist s)" "th_storing t \<longrightarrow> asleep s \<and> wr s \<noteq> fl s" "pq_ok s"
    by (rule th_invE)
  have "yp_rel N p' (pq_write v i s)"
    using yp_write_refines [OF s(1) wr_item(2), of v i] wr_item(3) by simp
  with wr_item(1) s show ?case
    unfolding th_inv_def by (intro exI [of _ "pq_write v i s"]) (auto simp: pq_write_def pq_ok_def)
next
  case (unwrite t v p')
  from unwrite.prems obtain s where s: "yp_rel N (th_pipe t) s" "hist s = th_written t" "wr s = th_visible t"
    "fl s = th_complete t" "th_got t = take (rd s) (hist s)" "th_storing t \<longrightarrow> asleep s \<and> wr s \<noteq> fl s" "pq_ok s"
    by (rule th_invE)
  have u: "yp_rel N p' (snd (pq_unwrite s))" "fst (pq_unwrite s) = Some v"
    using yp_unwrite_refines [OF s(1)] unwrite(2) by auto
  with unwrite(1) s show ?case
    unfolding th_inv_def by (intro exI [of _ "snd (pq_unwrite s)"])
      (auto simp: pq_unwrite_def pq_ok_def take_butlast split: if_splits)
next
  case (unwrite_none t p')
  from unwrite_none.prems obtain s where s: "yp_rel N (th_pipe t) s" "hist s = th_written t" "wr s = th_visible t"
    "fl s = th_complete t" "th_got t = take (rd s) (hist s)" "th_storing t \<longrightarrow> asleep s \<and> wr s \<noteq> fl s" "pq_ok s"
    by (rule th_invE)
  have "yp_rel N p' s" using yp_unwrite_refines [OF s(1)] unwrite_none(2) by (auto simp: pq_unwrite_def split: if_splits)
  with s show ?case unfolding th_inv_def by (intro exI [of _ s]) simp
next
  case (flush_done t r p')
  from flush_done.prems obtain s where s: "yp_rel N (th_pipe t) s" "hist s = th_written t" "wr s = th_visible t"
    "fl s = th_complete t" "th_got t = take (rd s) (hist s)" "th_storing t \<longrightarrow> asleep s \<and> wr s \<noteq> fl s" "pq_ok s"
    by (rule th_invE)
  have "yp_rel N p' (snd (pq_flush s))" using yp_flush_cas_refines [OF s(1)] flush_done(2) by simp
  with flush_done(1) s show ?case
    unfolding th_inv_def by (intro exI [of _ "snd (pq_flush s)"]) (auto simp: pq_flush_def)
next
  case (flush_failed t p')
  from flush_failed.prems obtain s where s: "yp_rel N (th_pipe t) s" "hist s = th_written t" "wr s = th_visible t"
    "fl s = th_complete t" "th_got t = take (rd s) (hist s)" "th_storing t \<longrightarrow> asleep s \<and> wr s \<noteq> fl s" "pq_ok s"
    by (rule th_invE)
  with yp_flush_cas_refines [OF s(1)] flush_failed(2) show ?case
    unfolding th_inv_def by (intro exI [of _ s]) simp
next
  case (flush_store t r p')
  from flush_store.prems obtain s where s: "yp_rel N (th_pipe t) s" "hist s = th_written t" "wr s = th_visible t"
    "fl s = th_complete t" "th_got t = take (rd s) (hist s)" "th_storing t \<longrightarrow> asleep s \<and> wr s \<noteq> fl s" "pq_ok s"
    by (rule th_invE)
  with yp_flush_set_refines [OF s(1)] flush_store(1,2) show ?case
    unfolding th_inv_def by (intro exI [of _ "snd (pq_flush s)"]) (simp add: pq_flush_def)
next
  case (check t ok p')
  from check.prems obtain s where s: "yp_rel N (th_pipe t) s" "hist s = th_written t" "wr s = th_visible t"
    "fl s = th_complete t" "th_got t = take (rd s) (hist s)" "th_storing t \<longrightarrow> asleep s \<and> wr s \<noteq> fl s" "pq_ok s"
    by (rule th_invE)
  with yp_check_read_refines [OF s(1)] check(1) show ?case
    unfolding th_inv_def by (intro exI [of _ "snd (pq_check_read s)"]) (auto simp: pq_check_read_def)
next
  case (read t v p')
  from read.prems obtain s where s: "yp_rel N (th_pipe t) s" "hist s = th_written t" "wr s = th_visible t"
    "fl s = th_complete t" "th_got t = take (rd s) (hist s)" "th_storing t \<longrightarrow> asleep s \<and> wr s \<noteq> fl s" "pq_ok s"
    by (rule th_invE)
  have r: "yp_rel N p' (snd (pq_read s))" "fst (pq_read s) = Some v" using yp_read_refines [OF s(1)] read(1) by auto
  with s show ?case
    unfolding th_inv_def by (intro exI [of _ "snd (pq_read s)"])
      (auto simp: pq_read_def pq_ok_def take_Suc_conv_app_nth split: if_splits)
next
  case (read_none t p')
  from read_none.prems obtain s where s: "yp_rel N (th_pipe t) s" "hist s = th_written t" "wr s = th_visible t"
    "fl s = th_complete t" "th_got t = take (rd s) (hist s)" "th_storing t \<longrightarrow> asleep s \<and> wr s \<noteq> fl s" "pq_ok s"
    by (rule th_invE)
  have "yp_rel N p' (snd (pq_read s))" "fst (pq_read s) = None" using yp_read_refines [OF s(1)] read_none(1) by auto
  with s show ?case
    unfolding th_inv_def by (intro exI [of _ "snd (pq_read s)"]) (auto simp: pq_read_def split: if_splits)
qed

lemma th_reachable:
  assumes "0 < N" "a \<noteq> a'" "yp_new N (Some a) (Some a') = Some p" "(th_step N)\<^sup>*\<^sup>* (th_new p) t"
  shows "th_inv N t"
proof -
  have "yp_rel N p pq_new" using yp_new_refines [OF assms(1,2)] assms(3) by (metis option.inject)
  then have "th_inv N (th_new p)"
    unfolding th_inv_def by (intro exI [of _ pq_new]) (simp add: th_new_def pq_new_def)
  with assms(4) show ?thesis by (induction rule: rtranclp_induct) (auto intro: th_inv_step)
qed

subsection \<open>What the pipe guarantees\<close>


lemma yp_fresh: "yp_rel N p s \<Longrightarrow> \<exists>b. b \<notin> dom (y_heap (yp_queue p))"
  by (rule ex_new_if_finite [OF infinite_UNIV_nat])
    (auto simp: yp_rel_def yp_view_def yq_rel_def chunks_ok_def)


text \<open>C28: no wake-up is lost. When a read has found nothing, the next flush of a new complete item
  returns false, which tells the writer to wake the reader, and the item is then read.\<close>

theorem ypipe_wakes_reader:
  assumes "0 < N" "a \<noteq> a'" "yp_new N (Some a) (Some a') = Some p" "(th_step N)\<^sup>*\<^sup>* (th_new p) t"
    and "\<not> th_storing t" "th_complete t = length (th_written t)" "yp_read N (th_pipe t) = Some (None, p1)"
    and "b \<notin> dom (y_heap (yp_queue p1))" "yp_write N (Some b) v False p1 = Some p2" "yp_flush p2 = (r, p3)"
  shows "\<not> r \<and> (\<exists>x p4. yp_read N p3 = Some (Some x, p4) \<and> (th_visible t = length (th_written t) \<longrightarrow> x = v))"
proof -
  from th_reachable [OF assms(1-4)] obtain s where s: "yp_rel N (th_pipe t) s" "hist s = th_written t"
    "wr s = th_visible t" "fl s = th_complete t" "pq_ok s" by (rule th_invE)
  have s1: "yp_rel N p1 (s\<lparr>asleep := True\<rparr>)" "\<not> rd s < wr s"
    using yp_read_refines [OF s(1)] assms(7) by (auto simp: pq_read_def split: if_splits)
  let ?s = "pq_write v False (s\<lparr>asleep := True\<rparr>)"
  have s2: "yp_rel N p2 ?s" using yp_write_refines [OF s1(1) assms(8), of v False] assms(9) by simp
  from yp_flush_refines [OF s2] assms(10) have "r = fst (pq_flush ?s)" "yp_rel N p3 (snd (pq_flush ?s))" by auto
  with yp_read_refines [of N p3 "snd (pq_flush ?s)"] s s1(2) show ?thesis
    by (auto simp: pq_flush_def pq_write_def pq_read_def pq_ok_def nth_append)
qed

theorem ypipe_wakes_reader_witness:
  "\<exists>p p1 p2 p3 p4 b. yp_new 2 (Some 0) (Some 1) = Some p \<and> yp_read 2 p = Some (None, p1)
     \<and> yp_write 2 (Some b) CHR ''a'' False p1 = Some p2 \<and> yp_flush p2 = (False, p3)
     \<and> yp_read 2 p3 = Some (Some CHR ''a'', p4)"
proof -
  obtain p :: "char ypipe" where p: "yp_new 2 (Some 0) (Some 1) = Some p" "yp_rel 2 p pq_new"
    using yp_new_refines [of 2 0 1] by auto
  obtain p1 where p1: "yp_read 2 p = Some (None, p1)" "yp_rel 2 p1 (pq_new\<lparr>asleep := True\<rparr>)"
    using yp_read_refines [OF p(2)] by (auto simp: pq_read_def pq_new_def)
  obtain b where b: "b \<notin> dom (y_heap (yp_queue p1))" using yp_fresh [OF p1(2)] by blast
  obtain p2 where p2: "yp_write 2 (Some b) CHR ''a'' False p1 = Some p2"
    using yp_write_refines [OF p1(2) b] by blast
  obtain r p3 where p3: "yp_flush p2 = (r, p3)" by fastforce
  have "yp_read 2 (th_pipe (th_new p)) = Some (None, p1)" using p1 by (simp add: th_new_def)
  from ypipe_wakes_reader [OF _ _ p(1) rtranclp.rtrancl_refl _ _ this b p2 p3]
  have "\<not> r \<and> (\<exists>x p4. yp_read 2 p3 = Some (Some x, p4) \<and> x = CHR ''a'')" by (simp add: th_new_def)
  with p3 obtain p4 where "yp_read 2 p3 = Some (Some CHR ''a'', p4)" "yp_flush p2 = (False, p3)" by auto
  with p(1) p1(1) p2 show ?thesis by blast
qed

end
