(* ===== verification/Msg.thy ===== *)
theory Msg
  imports Prelude
begin

unbundle bit_operations_syntax

text \<open>
  \<^verbatim>\<open>msg_t\<close> (msg.hpp, msg.cpp) on a 64-bit build: a 64-byte structure that either holds up to 33 bytes
  itself or points to a counted content block. The heap is explicit: content blocks, message
  metadata and long group names with their reference counts, and the log of the deallocation
  functions called. What \<^verbatim>\<open>malloc\<close> returns and what fresh memory holds are arguments of the
  operations that allocate. \<open>None\<close> is a failed assertion or a dereference of a dead pointer.
\<close>

definition f_more :: byte where "f_more = 1"
definition f_command :: byte where "f_command = 2"
definition f_ping :: byte where "f_ping = 4"
definition f_pong :: byte where "f_pong = 8"
definition f_subscribe :: byte where "f_subscribe = 12"
definition f_cancel :: byte where "f_cancel = 16"
definition f_close_cmd :: byte where "f_close_cmd = 20"
definition f_credential :: byte where "f_credential = 32"
definition f_routing_id :: byte where "f_routing_id = 64"
definition f_shared :: byte where "f_shared = 128"
definition CMD_TYPE_MASK :: byte where "CMD_TYPE_MASK = 0x1c"

lemmas flag_defs = f_more_def f_command_def f_ping_def f_pong_def f_subscribe_def f_cancel_def f_close_cmd_def
  f_credential_def f_routing_id_def f_shared_def CMD_TYPE_MASK_def

definition max_vsm_size :: nat where "max_vsm_size = 64 - (8 + 3 + 16 + 4)"
definition sizeof_content :: nat where "sizeof_content = 40"
definition ZMQ_GROUP_MAX_LENGTH :: nat where "ZMQ_GROUP_MAX_LENGTH = 255"

text \<open>A content block; the deallocation function and its hint are one token.\<close>

record content =
  c_data :: bytes
  c_size :: nat
  c_ffn :: "nat option"
  c_refcnt :: u32

text \<open>The union, by its type tag; \<open>Closed\<close> is the tag 0 that no valid message has.\<close>

datatype mbody =
    Vsm bytes nat | Lmsg nat | Delimiter | Cmsg bytes nat | Zclmsg nat | Join | Leave | Closed

text \<open>The group union. Writing a short name over the tag of a long one leaves a smashed pointer.\<close>

datatype group = GShort string | GLong nat | GSmashed string

record msg =
  m_body :: mbody
  m_flags :: byte
  m_metadata :: "nat option"
  m_routing_id :: u32
  m_group :: group

record msg_heap =
  h_contents :: "nat \<rightharpoonup> content"
  h_metadata :: "nat \<rightharpoonup> u32"
  h_groups :: "nat \<rightharpoonup> string \<times> u32"
  h_freed :: "nat list"
  h_errno :: errno

definition fresh_msg :: "mbody \<Rightarrow> msg" where
  "fresh_msg b = \<lparr>m_body = b, m_flags = 0, m_metadata = None, m_routing_id = 0, m_group = GShort ''''\<rparr>"

definition msg_check :: "msg \<Rightarrow> bool" where
  "msg_check m \<longleftrightarrow> m_body m \<noteq> Closed"

definition msg_init :: msg where
  "msg_init = fresh_msg (Vsm [] 0)"

definition new_content :: "bytes \<Rightarrow> nat \<Rightarrow> nat option \<Rightarrow> content" where
  "new_content d n f = \<lparr>c_data = d, c_size = n, c_ffn = f, c_refcnt = 0\<rparr>"

definition msg_init_size :: "nat \<Rightarrow> bytes \<Rightarrow> nat option \<Rightarrow> msg_heap \<Rightarrow> (int \<times> msg \<times> msg_heap)" where
  "msg_init_size n junk mal h =
     (if n \<le> max_vsm_size then (0, fresh_msg (Vsm junk n), h)
      else
        (case (if (sizeof_content + n) mod 2 ^ 64 > n then mal else None) of
           None \<Rightarrow> (-1, fresh_msg (Lmsg 0), h\<lparr>h_errno := ENOMEM\<rparr>)
         | Some a \<Rightarrow> (0, fresh_msg (Lmsg a), h\<lparr>h_contents := (h_contents h)(a \<mapsto> new_content junk n None)\<rparr>)))"

definition msg_init_buffer :: "bytes \<Rightarrow> nat option \<Rightarrow> msg_heap \<Rightarrow> (int \<times> msg \<times> msg_heap)" where
  "msg_init_buffer buf mal h = msg_init_size (length buf) buf mal h"

definition msg_init_external_storage :: "nat \<Rightarrow> bytes \<Rightarrow> nat \<Rightarrow> nat option \<Rightarrow> msg_heap \<Rightarrow> int \<times> msg \<times> msg_heap" where
  "msg_init_external_storage c d n f h =
     (0, fresh_msg (Zclmsg c), h\<lparr>h_contents := (h_contents h)(c \<mapsto> new_content d n f)\<rparr>)"

definition msg_init_data :: "bytes \<Rightarrow> nat \<Rightarrow> nat option \<Rightarrow> nat option \<Rightarrow> msg_heap \<Rightarrow> int \<times> msg \<times> msg_heap" where
  "msg_init_data d n f mal h =
     (case f of
        None \<Rightarrow> (0, fresh_msg (Cmsg d n), h)
      | Some _ \<Rightarrow>
          (case mal of
             None \<Rightarrow> (-1, fresh_msg (Lmsg 0), h\<lparr>h_errno := ENOMEM\<rparr>)
           | Some a \<Rightarrow> (0, fresh_msg (Lmsg a), h\<lparr>h_contents := (h_contents h)(a \<mapsto> new_content d n f)\<rparr>)))"

definition msg_init_full ::
  "bytes \<Rightarrow> nat \<Rightarrow> nat option \<Rightarrow> nat option \<Rightarrow> nat option \<Rightarrow> msg_heap \<Rightarrow> int \<times> msg \<times> msg_heap" where
  "msg_init_full d n f content mal h =
     (if n < max_vsm_size then msg_init_size n (take n d) mal h
      else case content of
          Some c \<Rightarrow> msg_init_external_storage c d n f h
        | None \<Rightarrow> msg_init_data d n f mal h)"

definition msg_init_delimiter :: msg where "msg_init_delimiter = fresh_msg Delimiter"
definition msg_init_join :: msg where "msg_init_join = fresh_msg Join"
definition msg_init_leave :: msg where "msg_init_leave = fresh_msg Leave"

definition set_flags :: "byte \<Rightarrow> msg \<Rightarrow> msg" where
  "set_flags f m = m\<lparr>m_flags := m_flags m OR f\<rparr>"

definition reset_flags :: "byte \<Rightarrow> msg \<Rightarrow> msg" where
  "reset_flags f m = m\<lparr>m_flags := m_flags m AND NOT f\<rparr>"

definition has_flag :: "byte \<Rightarrow> msg \<Rightarrow> bool" where
  "has_flag f m \<longleftrightarrow> m_flags m AND f \<noteq> 0"

definition msg_init_subscribe :: "bytes \<Rightarrow> nat option \<Rightarrow> msg_heap \<Rightarrow> int \<times> msg \<times> msg_heap" where
  "msg_init_subscribe topic mal h =
     (let (rc, m, h1) = msg_init_size (length topic) topic mal h
      in if rc = 0 then (rc, set_flags f_subscribe m, h1) else (rc, m, h1))"

definition msg_init_cancel :: "bytes \<Rightarrow> nat option \<Rightarrow> msg_heap \<Rightarrow> int \<times> msg \<times> msg_heap" where
  "msg_init_cancel topic mal h =
     (let (rc, m, h1) = msg_init_size (length topic) topic mal h
      in if rc = 0 then (rc, set_flags f_cancel m, h1) else (rc, m, h1))"

subsection \<open>Releasing and sharing\<close>

text \<open>\<^verbatim>\<open>atomic_counter_t::sub\<close>: the new value, and whether it is not zero.\<close>

definition counter_sub :: "u32 \<Rightarrow> u32 \<Rightarrow> bool \<times> u32" where
  "counter_sub c d = (c - d \<noteq> 0, c - d)"

definition call_ffn :: "content \<Rightarrow> msg_heap \<Rightarrow> msg_heap" where
  "call_ffn ct h = (case c_ffn ct of None \<Rightarrow> h | Some f \<Rightarrow> h\<lparr>h_freed := h_freed h @ [f]\<rparr>)"

definition set_refcnt :: "nat \<Rightarrow> u32 \<Rightarrow> msg_heap \<Rightarrow> msg_heap option" where
  "set_refcnt c r h = (case h_contents h c of None \<Rightarrow> None
     | Some ct \<Rightarrow> Some (h\<lparr>h_contents := (h_contents h)(c \<mapsto> ct\<lparr>c_refcnt := r\<rparr>)\<rparr>))"

definition free_content :: "nat \<Rightarrow> msg_heap \<Rightarrow> msg_heap option" where
  "free_content c h = (case h_contents h c of None \<Rightarrow> None
     | Some ct \<Rightarrow> Some ((call_ffn ct h)\<lparr>h_contents := (h_contents h)(c := None)\<rparr>))"

text \<open>One reference less to a content block, \<open>gone\<close> being what happens to the last one.\<close>

definition release_content :: "(nat \<Rightarrow> msg_heap \<Rightarrow> msg_heap option) \<Rightarrow> bool \<Rightarrow> nat \<Rightarrow> msg_heap \<Rightarrow> msg_heap option" where
  "release_content gone shared c h =
     (if \<not> shared then gone c h
      else do {
        ct \<leftarrow> h_contents h c;
        let (left, r) = counter_sub (c_refcnt ct) 1;
        h1 \<leftarrow> set_refcnt c r h;
        if left then Some h1 else gone c h1
      })"

definition ext_done :: "nat \<Rightarrow> msg_heap \<Rightarrow> msg_heap option" where
  "ext_done c h = (case h_contents h c of None \<Rightarrow> None | Some ct \<Rightarrow> Some (call_ffn ct h))"

definition drop_metadata :: "nat option \<Rightarrow> msg_heap \<Rightarrow> msg_heap option" where
  "drop_metadata md h = (case md of None \<Rightarrow> Some h
     | Some a \<Rightarrow> do {
         r \<leftarrow> h_metadata h a;
         let (left, r') = counter_sub r 1;
         Some (h\<lparr>h_metadata := (h_metadata h)(a := if left then Some r' else None)\<rparr>)
       })"

definition drop_group :: "group \<Rightarrow> msg_heap \<Rightarrow> msg_heap option" where
  "drop_group g h = (case g of
       GShort s \<Rightarrow> Some h
     | GSmashed s \<Rightarrow> None
     | GLong a \<Rightarrow> do {
         (s, r) \<leftarrow> h_groups h a;
         let (left, r') = counter_sub r 1;
         Some (h\<lparr>h_groups := (h_groups h)(a := if left then Some (s, r') else None)\<rparr>)
       })"

definition msg_close :: "msg \<Rightarrow> msg_heap \<Rightarrow> (int \<times> msg \<times> msg_heap) option" where
  "msg_close m h =
     (if \<not> msg_check m then Some (-1, m, h\<lparr>h_errno := EFAULT\<rparr>)
      else do {
        h1 \<leftarrow> (case m_body m of
             Lmsg c \<Rightarrow> release_content free_content (has_flag f_shared m) c h
           | Zclmsg c \<Rightarrow> do {
               ct \<leftarrow> h_contents h c;
               zmq_assert (c_ffn ct \<noteq> None);
               release_content ext_done (has_flag f_shared m) c h
             }
           | _ \<Rightarrow> Some h);
        h2 \<leftarrow> drop_metadata (m_metadata m) h1;
        h3 \<leftarrow> drop_group (m_group m) h2;
        Some (0, m\<lparr>m_metadata := None, m_body := Closed\<rparr>, h3)
      })"

text \<open>\<open>move\<close> and \<open>copy\<close>: the destination, the source and the heap afterwards.\<close>

definition msg_move :: "msg \<Rightarrow> msg \<Rightarrow> msg_heap \<Rightarrow> (int \<times> msg \<times> msg \<times> msg_heap) option" where
  "msg_move this src h =
     (if \<not> msg_check src then Some (-1, this, src, h\<lparr>h_errno := EFAULT\<rparr>)
      else do {
        (rc, this1, h1) \<leftarrow> msg_close this h;
        if rc < 0 then Some (rc, this1, src, h1) else Some (0, src, msg_init, h1)
      })"

definition content_of :: "msg \<Rightarrow> nat option" where
  "content_of m = (case m_body m of Lmsg c \<Rightarrow> Some c | Zclmsg c \<Rightarrow> Some c | _ \<Rightarrow> None)"

definition share_content :: "msg \<Rightarrow> u32 \<Rightarrow> u32 \<Rightarrow> msg_heap \<Rightarrow> (msg \<times> msg_heap) option" where
  "share_content m inc first h = (case content_of m of
       None \<Rightarrow> Some (m, h)
     | Some c \<Rightarrow> do {
         ct \<leftarrow> h_contents h c;
         h1 \<leftarrow> set_refcnt c (if has_flag f_shared m then c_refcnt ct + inc else first) h;
         Some (if has_flag f_shared m then m else set_flags f_shared m, h1)
       })"

definition add_metadata_ref :: "nat option \<Rightarrow> msg_heap \<Rightarrow> msg_heap option" where
  "add_metadata_ref md h = (case md of None \<Rightarrow> Some h
     | Some a \<Rightarrow> do { r \<leftarrow> h_metadata h a; Some (h\<lparr>h_metadata := (h_metadata h)(a \<mapsto> r + 1)\<rparr>) })"

definition add_group_ref :: "group \<Rightarrow> msg_heap \<Rightarrow> msg_heap option" where
  "add_group_ref g h = (case g of
       GShort s \<Rightarrow> Some h
     | GSmashed s \<Rightarrow> None
     | GLong a \<Rightarrow> do { (s, r) \<leftarrow> h_groups h a; Some (h\<lparr>h_groups := (h_groups h)(a \<mapsto> (s, r + 1))\<rparr>) })"

definition msg_copy :: "msg \<Rightarrow> msg \<Rightarrow> msg_heap \<Rightarrow> (int \<times> msg \<times> msg \<times> msg_heap) option" where
  "msg_copy this src h =
     (if \<not> msg_check src then Some (-1, this, src, h\<lparr>h_errno := EFAULT\<rparr>)
      else do {
        (rc, this1, h1) \<leftarrow> msg_close this h;
        if rc < 0 then Some (rc, this1, src, h1)
        else do {
          (src1, h2) \<leftarrow> share_content src 1 2 h1;
          h3 \<leftarrow> add_metadata_ref (m_metadata src1) h2;
          h4 \<leftarrow> add_group_ref (m_group src1) h3;
          Some (0, src1, src1, h4)
        }
      })"

text \<open>References for copies made without \<open>copy\<close>, and taking some of them back.\<close>

definition add_refs :: "int \<Rightarrow> msg \<Rightarrow> msg_heap \<Rightarrow> (msg \<times> msg_heap) option" where
  "add_refs refs m h = do {
     zmq_assert (refs \<ge> 0);
     zmq_assert (m_metadata m = None);
     if refs = 0 then Some (m, h) else share_content m (of_int refs) (of_int (refs + 1)) h
   }"

definition rm_refs :: "int \<Rightarrow> msg \<Rightarrow> msg_heap \<Rightarrow> (bool \<times> msg \<times> msg_heap) option" where
  "rm_refs refs m h = do {
     zmq_assert (refs \<ge> 0);
     zmq_assert (m_metadata m = None);
     if refs = 0 then Some (True, m, h)
     else if content_of m = None \<or> \<not> has_flag f_shared m then do {
       (rc, m1, h1) \<leftarrow> msg_close m h;
       Some (False, m1, h1)
     } else do {
       c \<leftarrow> content_of m;
       ct \<leftarrow> h_contents h c;
       let (left, r) = counter_sub (c_refcnt ct) (of_int refs);
       h1 \<leftarrow> set_refcnt c r h;
       if left then Some (True, m, h1)
       else do {
         h2 \<leftarrow> (case m_body m of Lmsg _ \<Rightarrow> free_content c h1 | _ \<Rightarrow> ext_done c h1);
         Some (False, m, h2)
       }
     }
   }"

subsection \<open>Reading a message\<close>

definition msg_data :: "msg \<Rightarrow> msg_heap \<Rightarrow> bytes option" where
  "msg_data m h = (case m_body m of
       Vsm d n \<Rightarrow> Some d | Cmsg d n \<Rightarrow> Some d
     | Lmsg c \<Rightarrow> map_option c_data (h_contents h c) | Zclmsg c \<Rightarrow> map_option c_data (h_contents h c)
     | _ \<Rightarrow> None)"

definition msg_size :: "msg \<Rightarrow> msg_heap \<Rightarrow> nat option" where
  "msg_size m h = (case m_body m of
       Vsm d n \<Rightarrow> Some n | Cmsg d n \<Rightarrow> Some n
     | Lmsg c \<Rightarrow> map_option c_size (h_contents h c) | Zclmsg c \<Rightarrow> map_option c_size (h_contents h c)
     | _ \<Rightarrow> None)"

definition msg_bytes :: "msg \<Rightarrow> msg_heap \<Rightarrow> bytes option" where
  "msg_bytes m h = do { d \<leftarrow> msg_data m h; n \<leftarrow> msg_size m h; Some (take n d) }"

definition shrink :: "nat \<Rightarrow> msg \<Rightarrow> msg_heap \<Rightarrow> (msg \<times> msg_heap) option" where
  "shrink n m h = do {
     old \<leftarrow> msg_size m h;
     zmq_assert (n \<le> old);
     (case m_body m of
        Vsm d _ \<Rightarrow> Some (m\<lparr>m_body := Vsm d n\<rparr>, h)
      | Cmsg d _ \<Rightarrow> Some (m\<lparr>m_body := Cmsg d n\<rparr>, h)
      | Lmsg c \<Rightarrow> do { ct \<leftarrow> h_contents h c; Some (m, h\<lparr>h_contents := (h_contents h)(c \<mapsto> ct\<lparr>c_size := n\<rparr>)\<rparr>) }
      | Zclmsg c \<Rightarrow> do { ct \<leftarrow> h_contents h c; Some (m, h\<lparr>h_contents := (h_contents h)(c \<mapsto> ct\<lparr>c_size := n\<rparr>)\<rparr>) }
      | _ \<Rightarrow> None)
   }"

definition is_routing_id :: "msg \<Rightarrow> bool" where "is_routing_id m \<longleftrightarrow> m_flags m AND f_routing_id = f_routing_id"
definition is_credential :: "msg \<Rightarrow> bool" where "is_credential m \<longleftrightarrow> m_flags m AND f_credential = f_credential"
definition is_delimiter :: "msg \<Rightarrow> bool" where "is_delimiter m \<longleftrightarrow> m_body m = Delimiter"
definition is_vsm :: "msg \<Rightarrow> bool" where "is_vsm m \<longleftrightarrow> (case m_body m of Vsm _ _ \<Rightarrow> True | _ \<Rightarrow> False)"
definition is_cmsg :: "msg \<Rightarrow> bool" where "is_cmsg m \<longleftrightarrow> (case m_body m of Cmsg _ _ \<Rightarrow> True | _ \<Rightarrow> False)"
definition is_lmsg :: "msg \<Rightarrow> bool" where "is_lmsg m \<longleftrightarrow> (case m_body m of Lmsg _ \<Rightarrow> True | _ \<Rightarrow> False)"
definition is_zcmsg :: "msg \<Rightarrow> bool" where "is_zcmsg m \<longleftrightarrow> (case m_body m of Zclmsg _ \<Rightarrow> True | _ \<Rightarrow> False)"
definition is_join :: "msg \<Rightarrow> bool" where "is_join m \<longleftrightarrow> m_body m = Join"
definition is_leave :: "msg \<Rightarrow> bool" where "is_leave m \<longleftrightarrow> m_body m = Leave"
definition is_ping :: "msg \<Rightarrow> bool" where "is_ping m \<longleftrightarrow> m_flags m AND CMD_TYPE_MASK = f_ping"
definition is_pong :: "msg \<Rightarrow> bool" where "is_pong m \<longleftrightarrow> m_flags m AND CMD_TYPE_MASK = f_pong"
definition is_close_cmd :: "msg \<Rightarrow> bool" where "is_close_cmd m \<longleftrightarrow> m_flags m AND CMD_TYPE_MASK = f_close_cmd"
definition is_subscribe :: "msg \<Rightarrow> bool" where "is_subscribe m \<longleftrightarrow> m_flags m AND CMD_TYPE_MASK = f_subscribe"
definition is_cancel :: "msg \<Rightarrow> bool" where "is_cancel m \<longleftrightarrow> m_flags m AND CMD_TYPE_MASK = f_cancel"

text \<open>The sizes are unsigned: a command shorter than its name wraps around.\<close>

definition command_body_size :: "msg \<Rightarrow> msg_heap \<Rightarrow> u64 option" where
  "command_body_size m h =
     (if is_ping m \<or> is_pong m then map_option (\<lambda>n. of_nat n - 5) (msg_size m h)
      else if \<not> has_flag f_command m \<and> (is_subscribe m \<or> is_cancel m) then map_option of_nat (msg_size m h)
      else if is_subscribe m then map_option (\<lambda>n. of_nat n - 10) (msg_size m h)
      else if is_cancel m then map_option (\<lambda>n. of_nat n - 7) (msg_size m h)
      else Some 0)"

definition command_body :: "msg \<Rightarrow> msg_heap \<Rightarrow> bytes option option" where
  "command_body m h =
     (if is_ping m \<or> is_pong m then map_option (Some \<circ> drop 5) (msg_data m h)
      else if \<not> has_flag f_command m \<and> (is_subscribe m \<or> is_cancel m) then map_option Some (msg_data m h)
      else if is_subscribe m then map_option (Some \<circ> drop 10) (msg_data m h)
      else if is_cancel m then map_option (Some \<circ> drop 7) (msg_data m h)
      else Some None)"

subsection \<open>Metadata, routing id and group\<close>

definition set_metadata :: "nat \<Rightarrow> msg \<Rightarrow> msg_heap \<Rightarrow> (msg \<times> msg_heap) option" where
  "set_metadata a m h = do {
     zmq_assert (m_metadata m = None);
     h1 \<leftarrow> add_metadata_ref (Some a) h;
     Some (m\<lparr>m_metadata := Some a\<rparr>, h1)
   }"

definition reset_metadata :: "msg \<Rightarrow> msg_heap \<Rightarrow> (msg \<times> msg_heap) option" where
  "reset_metadata m h = do {
     h1 \<leftarrow> drop_metadata (m_metadata m) h;
     Some (m\<lparr>m_metadata := None\<rparr>, h1)
   }"

definition set_routing_id :: "u32 \<Rightarrow> msg \<Rightarrow> msg_heap \<Rightarrow> int \<times> msg \<times> msg_heap" where
  "set_routing_id r m h =
     (if r \<noteq> 0 then (0, m\<lparr>m_routing_id := r\<rparr>, h) else (-1, m, h\<lparr>h_errno := EINVAL\<rparr>))"

definition reset_routing_id :: "msg \<Rightarrow> msg" where
  "reset_routing_id m = m\<lparr>m_routing_id := 0\<rparr>"

definition msg_group :: "msg \<Rightarrow> msg_heap \<Rightarrow> string option" where
  "msg_group m h = (case m_group m of
     GShort s \<Rightarrow> Some s | GLong a \<Rightarrow> map_option fst (h_groups h a) | GSmashed s \<Rightarrow> None)"

definition set_group :: "string \<Rightarrow> nat option \<Rightarrow> msg \<Rightarrow> msg_heap \<Rightarrow> (int \<times> msg \<times> msg_heap) option" where
  "set_group g mal m h =
     (if length g > ZMQ_GROUP_MAX_LENGTH then Some (-1, m, h\<lparr>h_errno := EINVAL\<rparr>)
      else if length g > 14 then
        (case mal of None \<Rightarrow> None
         | Some a \<Rightarrow> Some (0, m\<lparr>m_group := GLong a\<rparr>, h\<lparr>h_groups := (h_groups h)(a \<mapsto> (g, 1))\<rparr>))
      else
        (case m_group m of
           GShort _ \<Rightarrow> Some (0, m\<lparr>m_group := GShort g\<rparr>, h)
         | _ \<Rightarrow> Some (0, m\<lparr>m_group := GSmashed g\<rparr>, h)))"

subsection \<open>Reference counts\<close>

text \<open>
  A vector of message variables over one heap. \<open>holders\<close> counts the variables that point to a
  content block; the counts are exact when an unshared block has one holder and the counter of
  a shared one says how many it has. The messages here carry no metadata and no long
  group, and their contents are allocated by the message itself.
\<close>

definition holders :: "nat \<Rightarrow> msg list \<Rightarrow> nat" where
  "holders c ms = length (filter (\<lambda>m. m_body m = Lmsg c) ms)"

definition plain :: "msg \<Rightarrow> bool" where
  "plain m \<longleftrightarrow> m_metadata m = None \<and> (\<exists>s. m_group m = GShort s) \<and> (\<forall>c. m_body m \<noteq> Zclmsg c)"

definition content_ok :: "msg list \<Rightarrow> msg_heap \<Rightarrow> nat \<Rightarrow> bool" where
  "content_ok ms h c \<longleftrightarrow> (case h_contents h c of
       None \<Rightarrow> holders c ms = 0
     | Some ct \<Rightarrow> holders c ms \<ge> 1 \<and> (\<forall>m \<in> set ms. m_body m = Lmsg c \<longrightarrow>
         (if has_flag f_shared m then unat (c_refcnt ct) = holders c ms else holders c ms = 1)))"

definition refs_ok :: "msg list \<Rightarrow> msg_heap \<Rightarrow> bool" where
  "refs_ok ms h \<longleftrightarrow> (\<forall>c. content_ok ms h c) \<and> (\<forall>m \<in> set ms. plain m)"

lemma holders_update:
  "i < length ms \<Longrightarrow> holders c (ms[i := m]) + (if m_body (ms ! i) = Lmsg c then 1 else 0)
     = holders c ms + (if m_body m = Lmsg c then 1 else 0)"
proof (induction ms arbitrary: i)
  case (Cons x xs)
  then show ?case by (cases i) (auto simp: holders_def)
qed simp

lemma holders_pos: "m \<in> set ms \<Longrightarrow> m_body m = Lmsg c \<Longrightarrow> holders c ms \<ge> 1"
  by (auto simp: holders_def Suc_le_eq filter_empty_conv)

lemma holders_one:
  "holders c ms = 1 \<Longrightarrow> i < length ms \<Longrightarrow> j < length ms \<Longrightarrow> m_body (ms ! i) = Lmsg c \<Longrightarrow>
   m_body (ms ! j) = Lmsg c \<Longrightarrow> i = j"
proof (rule ccontr)
  assume *: "holders c ms = 1" "i < length ms" "j < length ms" "m_body (ms ! i) = Lmsg c" "m_body (ms ! j) = Lmsg c" "i \<noteq> j"
  then have "holders c (ms[i := fresh_msg Closed]) = 0"
    using holders_update [of i ms c "fresh_msg Closed"] by (simp add: fresh_msg_def)
  moreover have "ms[i := fresh_msg Closed] ! j \<in> set (ms[i := fresh_msg Closed])"
    using * by (intro nth_mem) simp
  then have "ms ! j \<in> set (ms[i := fresh_msg Closed])" using * by simp
  then have "holders c (ms[i := fresh_msg Closed]) \<ge> 1" using *(5) by (rule holders_pos)
  ultimately show False by simp
qed

lemma holders_le: "holders c ms \<le> length ms"
  by (simp add: holders_def)

lemma content_ok_other:
  assumes "i < length ms" "m_body (ms ! i) \<noteq> Lmsg c" "m_body m \<noteq> Lmsg c" "h_contents h' c = h_contents h c"
    "content_ok ms h c"
  shows "content_ok (ms[i := m]) h' c"
proof -
  have "holders c (ms[i := m]) = holders c ms" using holders_update [OF assms(1), of c m] assms(2,3) by simp
  moreover have "x \<in> set ms" if "x \<in> set (ms[i := m])" "m_body x = Lmsg c" for x
    using that assms(3) set_update_subset_insert [of ms i m] by auto
  ultimately show ?thesis using assms(4,5) by (auto simp: content_ok_def split: option.splits)
qed

lemma plain_update: "\<forall>m \<in> set ms. plain m \<Longrightarrow> plain x \<Longrightarrow> \<forall>m \<in> set (ms[i := x]). plain m"
  using set_update_subset_insert [of ms i x] by auto

lemma refs_ok_nth: "refs_ok ms h \<Longrightarrow> i < length ms \<Longrightarrow> plain (ms ! i)"
  by (simp add: refs_ok_def)

text \<open>A variable set to a message with no content of its own.\<close>

lemma refs_ok_set_other:
  assumes "refs_ok ms h" "i < length ms" "\<And>c. m_body (ms ! i) \<noteq> Lmsg c" "\<And>c. m_body m \<noteq> Lmsg c" "plain m"
  shows "refs_ok (ms[i := m]) h"
  unfolding refs_ok_def
proof (intro conjI allI)
  show "content_ok (ms[i := m]) h c" for c
    by (rule content_ok_other [of i ms c m h h]) (use assms in \<open>auto simp: refs_ok_def\<close>)
  show "\<forall>m \<in> set (ms[i := m]). plain m"
    using assms(1,5) by (intro plain_update) (auto simp: refs_ok_def)
qed

text \<open>What a block holds, counter aside, and the deallocation functions a close may call.\<close>

definition payload :: "msg_heap \<Rightarrow> nat \<Rightarrow> (bytes \<times> nat \<times> nat option) option" where
  "payload h c = map_option (\<lambda>ct. (c_data ct, c_size ct, c_ffn ct)) (h_contents h c)"

definition lost :: "msg_heap \<Rightarrow> msg_heap \<Rightarrow> bool" where
  "lost h h' \<longleftrightarrow> (payload h' = payload h \<and> h_freed h' = h_freed h)
     \<or> (\<exists>c d n f. payload h c = Some (d, n, f) \<and> payload h' = (payload h)(c := None)
          \<and> h_freed h' = h_freed h @ (case f of None \<Rightarrow> [] | Some t \<Rightarrow> [t]))"

lemma lost_keeps: "lost h h' \<Longrightarrow> payload h' c \<noteq> None \<Longrightarrow> payload h' c = payload h c"
  by (auto simp: lost_def split: if_splits)

lemma free_content_lost:
  assumes "h_contents h c = Some ct"
  shows "\<exists>h'. free_content c h = Some h' \<and> h_contents h' = (h_contents h)(c := None) \<and> lost h h'"
proof -
  let ?h' = "(call_ffn ct h)\<lparr>h_contents := (h_contents h)(c := None)\<rparr>"
  have "payload h c = Some (c_data ct, c_size ct, c_ffn ct)" "payload ?h' = (payload h)(c := None)"
    "h_freed ?h' = h_freed h @ (case c_ffn ct of None \<Rightarrow> [] | Some t \<Rightarrow> [t])"
    using assms by (auto simp: payload_def fun_eq_iff call_ffn_def split: option.splits)
  then have "lost h ?h'" unfolding lost_def by blast
  with assms show ?thesis by (simp add: free_content_def)
qed

text \<open>Moving a message into a closed variable.\<close>

lemma refs_ok_swap:
  assumes ok: "refs_ok ms h" and ij: "i < length ms" "j < length ms" "i \<noteq> j" "m_body (ms ! i) = Closed"
  shows "refs_ok (ms[j := msg_init, i := ms ! j]) h"
proof -
  let ?ms = "ms[j := msg_init, i := ms ! j]"
  have "holders c ?ms = holders c ms" for c
    using holders_update [of j ms c msg_init] holders_update [of i "ms[j := msg_init]" c "ms ! j"] ij
    by (auto simp: msg_init_def fresh_msg_def split: if_splits)
  moreover have sub: "set ?ms \<subseteq> insert msg_init (set ms)"
    using ij set_update_subset_insert [of "ms[j := msg_init]" i "ms ! j"] set_update_subset_insert [of ms j msg_init]
    by (auto dest: subsetD)
  ultimately have "content_ok ?ms h c" for c
    using ok by (auto simp: refs_ok_def content_ok_def msg_init_def fresh_msg_def split: option.splits dest!: spec [of _ c])
  moreover have "plain msg_init" by (simp add: msg_init_def fresh_msg_def plain_def)
  ultimately show ?thesis using ok sub unfolding refs_ok_def by blast
qed

lemma msg_close_plain:
  assumes "plain m" "msg_check m"
  shows "msg_close m h = map_option (\<lambda>h'. (0, m\<lparr>m_metadata := None, m_body := Closed\<rparr>, h'))
    (case m_body m of Lmsg c \<Rightarrow> release_content free_content (has_flag f_shared m) c h | _ \<Rightarrow> Some h)"
  using assms
  by (auto simp: msg_close_def plain_def drop_metadata_def drop_group_def map_option_case split: mbody.splits option.splits)

lemma msg_close_other:
  assumes "plain m" "msg_close m h = Some (rc, m', h')" "m_body m \<noteq> Lmsg a"
  shows "h_contents h' a = h_contents h a \<and> m_body m' \<noteq> Lmsg a"
proof (cases "msg_check m")
  case False
  with assms show ?thesis by (auto simp: msg_close_def)
next
  case True
  have "h_contents h1 a = h_contents h a" if "release_content free_content sh c h = Some h1" "c \<noteq> a" for sh c h1
    using that by (auto simp: release_content_def free_content_def set_refcnt_def call_ffn_def Let_def
        split: if_splits option.splits Option.bind_splits prod.splits)
  with assms msg_close_plain [OF assms(1) True, of h] show ?thesis
    by (auto split: mbody.splits)
qed

text \<open>Releasing a reference when the count is exact.\<close>

lemma release_content_spec:
  assumes "h_contents h c = Some ct" "if sh then unat (c_refcnt ct) = n else n = 1" "n \<ge> 1"
  shows "\<exists>h'. release_content free_content sh c h = Some h' \<and> lost h h'
    \<and> h_contents h' = (h_contents h)(c := if n = 1 then None else Some (ct\<lparr>c_refcnt := c_refcnt ct - 1\<rparr>))"
proof (cases sh)
  case False
  with assms free_content_lost [OF assms(1)] show ?thesis by (auto simp: release_content_def)
next
  case True
  then have "c_refcnt ct \<noteq> 0" using assms(2,3) by (metis le_zero_eq not_one_le_zero unat_0)
  then have u: "unat (c_refcnt ct - 1) = n - 1" using True assms(2) by (simp add: unat_minus_one)
  let ?h1 = "h\<lparr>h_contents := (h_contents h)(c \<mapsto> ct\<lparr>c_refcnt := c_refcnt ct - 1\<rparr>)\<rparr>"
  have p1: "payload ?h1 = payload h" using assms(1) by (auto simp: payload_def fun_eq_iff)
  show ?thesis
  proof (cases "n = 1")
    case one: True
    with u have "c_refcnt ct - 1 = 0" by (simp add: unat_eq_zero)
    moreover obtain h' where "free_content c ?h1 = Some h'" "h_contents h' = (h_contents ?h1)(c := None)" "lost ?h1 h'"
      using free_content_lost [of ?h1 c] by auto
    moreover from this(3) have "lost h h'" unfolding lost_def p1 by simp
    ultimately show ?thesis using True assms(1) one
      by (auto simp: release_content_def counter_sub_def set_refcnt_def)
  next
    case False
    with u assms(3) have "c_refcnt ct - 1 \<noteq> 0" by (metis One_nat_def diff_is_0_eq le_antisym unat_0)
    with True False assms(1) p1 show ?thesis
      by (auto simp: release_content_def counter_sub_def set_refcnt_def lost_def)
  qed
qed

lemma msg_close_refs:
  assumes ok: "refs_ok ms h" and i: "i < length ms" "msg_check (ms ! i)"
  shows "\<exists>m' h'. msg_close (ms ! i) h = Some (0, m', h') \<and> m_body m' = Closed \<and> refs_ok (ms[i := m']) h' \<and> lost h h'"
proof -
  let ?m = "ms ! i"
  let ?m' = "?m\<lparr>m_metadata := None, m_body := Closed\<rparr>"
  have plain: "plain ?m" using refs_ok_nth [OF ok i(1)] .
  have pl1: "plain ?m'" using plain by (simp add: plain_def)
  moreover have "\<forall>m \<in> set ms. plain m" using ok by (simp add: refs_ok_def)
  ultimately have pl2: "\<forall>m \<in> set (ms[i := ?m']). plain m" by (intro plain_update)
  show ?thesis
  proof (cases "\<exists>c. m_body ?m = Lmsg c")
    case False
    then have "msg_close ?m h = Some (0, ?m', h)"
      using msg_close_plain [OF plain i(2), of h] by (simp split: mbody.splits)
    moreover have "refs_ok (ms[i := ?m']) h"
      using False pl1 by (intro refs_ok_set_other [OF ok i(1)]) auto
    ultimately show ?thesis by (auto simp: lost_def)
  next
    case True
    then obtain c where c: "m_body ?m = Lmsg c" by blast
    have cok: "content_ok ms h c" using ok by (simp add: refs_ok_def)
    have pos: "holders c ms \<ge> 1" using c i(1) by (intro holders_pos [of ?m]) auto
    then obtain ct where ct: "h_contents h c = Some ct" using cok by (auto simp: content_ok_def split: option.splits)
    have cnt: "if has_flag f_shared ?m then unat (c_refcnt ct) = holders c ms else holders c ms = 1"
      using cok ct c i(1) by (auto simp: content_ok_def)
    obtain h' where h': "release_content free_content (has_flag f_shared ?m) c h = Some h'" "lost h h'"
      "h_contents h' = (h_contents h)(c := if holders c ms = 1 then None else Some (ct\<lparr>c_refcnt := c_refcnt ct - 1\<rparr>))"
      using release_content_spec [OF ct cnt pos] by blast
    have less: "holders c (ms[i := ?m']) = holders c ms - 1" using holders_update [OF i(1), of c ?m'] c by simp
    have "content_ok (ms[i := ?m']) h' c"
    proof (cases "holders c ms = 1")
      case True
      with h'(3) less show ?thesis by (simp add: content_ok_def)
    next
      case False
      have "c_refcnt ct \<noteq> 0 \<and> has_flag f_shared x \<and> unat (c_refcnt ct) = holders c ms"
        if "x \<in> set (ms[i := ?m'])" "m_body x = Lmsg c" for x
      proof -
        have "x \<in> set ms" using that set_update_subset_insert [of ms i ?m'] by auto
        with that(2) cok ct False have "has_flag f_shared x" "unat (c_refcnt ct) = holders c ms"
          by (auto simp: content_ok_def split: if_splits)
        with pos show ?thesis by auto
      qed
      with h'(3) less pos False show ?thesis by (auto simp: content_ok_def unat_minus_one)
    qed
    moreover have "content_ok (ms[i := ?m']) h' c'" if "c' \<noteq> c" for c'
      by (rule content_ok_other [OF i(1)]) (use that c h'(3) ok in \<open>auto simp: refs_ok_def\<close>)
    ultimately have "content_ok (ms[i := ?m']) h' c'" for c' by (cases "c' = c") blast+
    with pl2 have "refs_ok (ms[i := ?m']) h'" unfolding refs_ok_def by blast
    moreover have "msg_close ?m h = Some (0, ?m', h')" using msg_close_plain [OF plain i(2)] h'(1) c by simp
    ultimately show ?thesis using h'(2) by auto
  qed
qed

text \<open>Sharing a block with one more variable, whose message was closed before.\<close>

lemma has_shared_set [simp]: "has_flag f_shared (set_flags f_shared m)"
proof -
  have "bit ((m_flags m OR f_shared) AND f_shared) 7" by (simp add: bit_and_iff bit_or_iff f_shared_def bit_numeral_rec)
  then show ?thesis by (auto simp: has_flag_def set_flags_def)
qed

lemma share_content_refs:
  assumes ok: "refs_ok ms h" and ij: "i < length ms" "j < length ms" "i \<noteq> j" "m_body (ms ! i) = Closed"
    and small: "length ms < 2 ^ 32"
  shows "\<exists>m h'. share_content (ms ! j) 1 2 h = Some (m, h') \<and> m_body m = m_body (ms ! j) \<and> plain m
    \<and> refs_ok (ms[j := m, i := m]) h' \<and> payload h' = payload h \<and> h_freed h' = h_freed h"
proof (cases "\<exists>c. m_body (ms ! j) = Lmsg c")
  case False
  have pj: "plain (ms ! j)" using refs_ok_nth [OF ok ij(2)] .
  then have "share_content (ms ! j) 1 2 h = Some (ms ! j, h)"
    using False by (auto simp: share_content_def content_of_def plain_def split: mbody.splits)
  moreover have "refs_ok (ms[i := ms ! j]) h"
    using False ij pj by (intro refs_ok_set_other [OF ok]) auto
  ultimately show ?thesis using pj by simp
next
  case True
  then obtain c where c: "m_body (ms ! j) = Lmsg c" by blast
  let ?s = "ms ! j"
  define m where "m = (if has_flag f_shared ?s then ?s else set_flags f_shared ?s)"
  have pj: "plain ?s" using refs_ok_nth [OF ok ij(2)] .
  have m: "m_body m = Lmsg c" "plain m" using c pj by (auto simp: m_def plain_def set_flags_def)
  have mf: "has_flag f_shared m" by (simp add: m_def)
  have cok: "content_ok ms h c" using ok by (simp add: refs_ok_def)
  have pos: "holders c ms \<ge> 1" using c ij(2) by (intro holders_pos [of ?s]) auto
  then obtain ct where ct: "h_contents h c = Some ct" using cok by (auto simp: content_ok_def split: option.splits)
  have cnt: "if has_flag f_shared ?s then unat (c_refcnt ct) = holders c ms else holders c ms = 1"
    using cok ct c ij(2) by (auto simp: content_ok_def)
  define r where "r = (if has_flag f_shared ?s then c_refcnt ct + 1 else 2)"
  define h' where "h' = h\<lparr>h_contents := (h_contents h)(c \<mapsto> ct\<lparr>c_refcnt := r\<rparr>)\<rparr>"
  define ms' where "ms' = ms[j := m, i := m]"
  have run: "share_content ?s 1 2 h = Some (m, h')"
    using c ct by (simp add: share_content_def content_of_def set_refcnt_def m_def h'_def r_def)
  have "holders c ms \<le> length ms - 1"
    using holders_update [OF ij(1), of c ?s] holders_le [of c "ms[i := ?s]"] c ij(4) by simp
  then have "holders c ms < 2 ^ 32 - 1" using small ij(1) by simp
  then have r: "unat r = holders c ms + 1" using cnt by (simp add: r_def unat_word_ariths split: if_splits)
  have holders: "holders c ms' = holders c ms + 1"
    using holders_update [of j ms c m] holders_update [of i "ms[j := m]" c m] ij c m(1)
    by (simp add: ms'_def split: if_splits)
  have all_shared: "has_flag f_shared x" if x: "x \<in> set ms'" "m_body x = Lmsg c" for x
  proof (cases "x = m")
    case False
    then obtain k where k: "k < length ms" "x = ms ! k" "k \<noteq> j"
      using x(1) ij by (auto simp: ms'_def in_set_conv_nth nth_list_update split: if_splits)
    then have "holders c ms \<noteq> 1" using holders_one [of c ms k j] c x(2) ij(2) by auto
    with k x(2) cok ct show ?thesis by (auto simp: content_ok_def split: if_splits)
  qed (use mf in simp)
  have "content_ok ms' h' c"
    using all_shared r holders by (simp add: content_ok_def h'_def)
  moreover have "content_ok ms' h' c'" if "c' \<noteq> c" for c'
    unfolding ms'_def
  proof (rule content_ok_other [where h = h'])
    show "content_ok (ms[j := m]) h' c'"
      by (rule content_ok_other [OF ij(2), where h = h]) (use that c m(1) ok in \<open>auto simp: refs_ok_def h'_def\<close>)
  qed (use that c m(1) ij in auto)
  ultimately have "content_ok ms' h' c'" for c' by (cases "c' = c") blast+
  moreover have "\<forall>m \<in> set ms. plain m" using ok by (simp add: refs_ok_def)
  then have "\<forall>m \<in> set ms'. plain m" unfolding ms'_def using m(2) by (intro plain_update)
  ultimately have "refs_ok ms' h'" unfolding refs_ok_def by blast
  moreover have "payload h' = payload h" using ct by (auto simp: payload_def fun_eq_iff h'_def)
  moreover have "h_freed h' = h_freed h" by (simp add: h'_def)
  ultimately show ?thesis using run m c unfolding ms'_def by (intro exI [of _ m] exI [of _ h']) simp
qed

subsection \<open>Message variables of a program\<close>

record msg_vars =
  mv_msgs :: "msg list"
  mv_heap :: msg_heap

definition live_token :: "msg_heap \<Rightarrow> nat \<Rightarrow> bool" where
  "live_token h t \<longleftrightarrow> (\<exists>c d n. payload h c = Some (d, n, Some t))"

inductive msg_step :: "msg_vars \<Rightarrow> msg_vars \<Rightarrow> bool" where
  init: "i < length (mv_msgs s) \<Longrightarrow> m_body (mv_msgs s ! i) = Closed \<Longrightarrow>
    msg_step s (s\<lparr>mv_msgs := (mv_msgs s)[i := msg_init]\<rparr>)"
| init_size: "i < length (mv_msgs s) \<Longrightarrow> m_body (mv_msgs s ! i) = Closed \<Longrightarrow> length junk = n \<Longrightarrow>
    h_contents (mv_heap s) a = None \<Longrightarrow> msg_init_size n junk (Some a) (mv_heap s) = (0, m, h') \<Longrightarrow>
    msg_step s (s\<lparr>mv_msgs := (mv_msgs s)[i := m], mv_heap := h'\<rparr>)"
| init_data: "i < length (mv_msgs s) \<Longrightarrow> m_body (mv_msgs s ! i) = Closed \<Longrightarrow> n \<le> length d \<Longrightarrow>
    h_contents (mv_heap s) a = None \<Longrightarrow> \<not> live_token (mv_heap s) f \<Longrightarrow> f \<notin> set (h_freed (mv_heap s)) \<Longrightarrow>
    msg_init_data d n (Some f) (Some a) (mv_heap s) = (0, m, h') \<Longrightarrow>
    msg_step s (s\<lparr>mv_msgs := (mv_msgs s)[i := m], mv_heap := h'\<rparr>)"
| close: "i < length (mv_msgs s) \<Longrightarrow> msg_check (mv_msgs s ! i) \<Longrightarrow>
    msg_close (mv_msgs s ! i) (mv_heap s) = Some (rc, m, h') \<Longrightarrow>
    msg_step s (s\<lparr>mv_msgs := (mv_msgs s)[i := m], mv_heap := h'\<rparr>)"
| move: "i < length (mv_msgs s) \<Longrightarrow> j < length (mv_msgs s) \<Longrightarrow> i \<noteq> j \<Longrightarrow> msg_check (mv_msgs s ! i) \<Longrightarrow>
    msg_check (mv_msgs s ! j) \<Longrightarrow>
    msg_move (mv_msgs s ! i) (mv_msgs s ! j) (mv_heap s) = Some (rc, m, m', h') \<Longrightarrow>
    msg_step s (s\<lparr>mv_msgs := (mv_msgs s)[j := m', i := m], mv_heap := h'\<rparr>)"
| copy: "i < length (mv_msgs s) \<Longrightarrow> j < length (mv_msgs s) \<Longrightarrow> i \<noteq> j \<Longrightarrow> msg_check (mv_msgs s ! i) \<Longrightarrow>
    msg_check (mv_msgs s ! j) \<Longrightarrow>
    msg_copy (mv_msgs s ! i) (mv_msgs s ! j) (mv_heap s) = Some (rc, m, m', h') \<Longrightarrow>
    msg_step s (s\<lparr>mv_msgs := (mv_msgs s)[j := m', i := m], mv_heap := h'\<rparr>)"

definition tokens_ok :: "msg_heap \<Rightarrow> bool" where
  "tokens_ok h \<longleftrightarrow> distinct (h_freed h) \<and> (\<forall>t. live_token h t \<longrightarrow> t \<notin> set (h_freed h))
     \<and> (\<forall>c c' d d' n n' t. payload h c = Some (d, n, Some t) \<longrightarrow> payload h c' = Some (d', n', Some t) \<longrightarrow> c = c')"

definition vars_ok :: "msg_vars \<Rightarrow> bool" where
  "vars_ok s \<longleftrightarrow> length (mv_msgs s) < 2 ^ 32 \<and> refs_ok (mv_msgs s) (mv_heap s) \<and> tokens_ok (mv_heap s)"

lemma tokens_ok_lost:
  assumes "tokens_ok h" "lost h h'"
  shows "tokens_ok h'"
proof (cases "payload h' = payload h \<and> h_freed h' = h_freed h")
  case True
  with assms(1) show ?thesis by (simp add: tokens_ok_def live_token_def)
next
  case False
  with assms(2) obtain c d n f where f: "payload h c = Some (d, n, f)" "payload h' = (payload h)(c := None)"
    "h_freed h' = h_freed h @ (case f of None \<Rightarrow> [] | Some t \<Rightarrow> [t])" unfolding lost_def by blast
  have sub: "payload h' x = Some y \<Longrightarrow> payload h x = Some y \<and> x \<noteq> c" for x y using f(2) by (auto split: if_splits)
  show ?thesis
    unfolding tokens_ok_def
  proof (intro conjI allI impI)
    show "distinct (h_freed h')"
      using assms(1) f by (cases f) (auto simp: tokens_ok_def live_token_def)
    fix t assume "live_token h' t"
    then obtain x a b where "payload h' x = Some (a, b, Some t)" unfolding live_token_def by blast
    from sub [OF this] have "payload h x = Some (a, b, Some t)" "x \<noteq> c" by simp_all
    with assms(1) f show "t \<notin> set (h_freed h')"
      by (cases f) (auto simp: tokens_ok_def live_token_def)
  next
    fix x x' a a' b b' t
    assume "payload h' x = Some (a, b, Some t)" "payload h' x' = Some (a', b', Some t)"
    with sub assms(1) show "x = x'" unfolding tokens_ok_def by blast
  qed
qed

text \<open>A fresh block with one holder.\<close>

lemma refs_ok_alloc:
  assumes ok: "refs_ok ms h" and i: "i < length ms" "m_body (ms ! i) = Closed" and a: "h_contents h a = None"
    and m: "m = fresh_msg (Lmsg a)" and h': "h_contents h' = (h_contents h)(a \<mapsto> ct)"
  shows "refs_ok (ms[i := m]) h'"
proof -
  have "content_ok ms h a" using ok by (simp add: refs_ok_def)
  then have "holders a ms = 0" using a by (simp add: content_ok_def)
  then have one: "holders a (ms[i := m]) = 1"
    using holders_update [OF i(1), of a m] i(2) m by (simp add: fresh_msg_def)
  have unshared: "\<not> has_flag f_shared x" if "x \<in> set (ms[i := m])" "m_body x = Lmsg a" for x
  proof -
    have "x = m" using that set_update_subset_insert [of ms i m] holders_pos [of x ms a] \<open>holders a ms = 0\<close> by auto
    then show ?thesis using m by (simp add: fresh_msg_def has_flag_def)
  qed
  then have "content_ok (ms[i := m]) h' a" using one h' by (auto simp: content_ok_def)
  moreover have "content_ok (ms[i := m]) h' c" if "c \<noteq> a" for c
    by (rule content_ok_other [OF i(1), where h = h]) (use that i(2) m h' ok in \<open>auto simp: refs_ok_def fresh_msg_def\<close>)
  ultimately have "content_ok (ms[i := m]) h' c" for c by (cases "c = a") blast+
  moreover have "\<forall>x \<in> set ms. plain x" "plain m" using ok m by (auto simp: refs_ok_def plain_def fresh_msg_def)
  then have "\<forall>x \<in> set (ms[i := m]). plain x" by (rule plain_update)
  ultimately show ?thesis unfolding refs_ok_def by blast
qed

lemma vars_ok_step:
  assumes "msg_step s s'" "vars_ok s"
  shows "vars_ok s'"
  using assms
proof (induction rule: msg_step.induct)
  case (init i s)
  then have "refs_ok ((mv_msgs s)[i := msg_init]) (mv_heap s)"
    by (intro refs_ok_set_other) (auto simp: vars_ok_def msg_init_def fresh_msg_def plain_def)
  with init show ?case by (simp add: vars_ok_def)
next
  case (init_size i s junk n a m h')
  have ok: "refs_ok (mv_msgs s) (mv_heap s)" "tokens_ok (mv_heap s)" using init_size by (auto simp: vars_ok_def)
  show ?case
  proof (cases "n \<le> max_vsm_size")
    case True
    with init_size(5) have m: "m = fresh_msg (Vsm junk n)" "h' = mv_heap s" by (auto simp: msg_init_size_def)
    have "refs_ok ((mv_msgs s)[i := m]) (mv_heap s)"
      using init_size(2) m by (intro refs_ok_set_other [OF ok(1) init_size(1)]) (auto simp: fresh_msg_def plain_def)
    with init_size m show ?thesis by (simp add: vars_ok_def)
  next
    case False
    with init_size(5) have m: "m = fresh_msg (Lmsg a)"
      "h' = (mv_heap s)\<lparr>h_contents := (h_contents (mv_heap s))(a \<mapsto> new_content junk n None)\<rparr>"
      by (auto simp: msg_init_size_def split: if_splits option.splits)
    have "refs_ok ((mv_msgs s)[i := m]) h'"
      by (rule refs_ok_alloc [OF ok(1) init_size(1,2,4) m(1)]) (simp add: m(2))
    moreover have "payload h' c = Some (d, k, Some t) \<longleftrightarrow> payload (mv_heap s) c = Some (d, k, Some t)" for c d k t
      using init_size(4) m(2) by (auto simp: payload_def new_content_def)
    then have "tokens_ok h'" using ok(2) m(2) by (simp add: tokens_ok_def live_token_def)
    ultimately show ?thesis using init_size by (simp add: vars_ok_def)
  qed
next
  case (init_data i s n d a f m h')
  have ok: "refs_ok (mv_msgs s) (mv_heap s)" "tokens_ok (mv_heap s)" using init_data by (auto simp: vars_ok_def)
  have m: "m = fresh_msg (Lmsg a)"
    "h' = (mv_heap s)\<lparr>h_contents := (h_contents (mv_heap s))(a \<mapsto> new_content d n (Some f))\<rparr>"
    using init_data(7) by (auto simp: msg_init_data_def)
  have "refs_ok ((mv_msgs s)[i := m]) h'"
    by (rule refs_ok_alloc [OF ok(1) init_data(1,2,4) m(1)]) (simp add: m(2))
  moreover have pay: "payload h' = (payload (mv_heap s))(a \<mapsto> (d, n, Some f))"
    using m(2) by (auto simp: payload_def new_content_def fun_eq_iff)
  have "tokens_ok h'"
    using ok(2) init_data(5,6) m(2) unfolding tokens_ok_def live_token_def pay by auto blast
  ultimately show ?case using init_data by (simp add: vars_ok_def)
next
  case (close i s rc m h')
  then have ok: "refs_ok (mv_msgs s) (mv_heap s)" "tokens_ok (mv_heap s)" by (auto simp: vars_ok_def)
  from msg_close_refs [OF ok(1) close(1,2)] close(3) have "refs_ok ((mv_msgs s)[i := m]) h'" "lost (mv_heap s) h'" by auto
  with close tokens_ok_lost [OF ok(2)] show ?case by (simp add: vars_ok_def)
next
  case (move i s j rc m m' h')
  then have ok: "refs_ok (mv_msgs s) (mv_heap s)" "tokens_ok (mv_heap s)" by (auto simp: vars_ok_def)
  obtain m1 h1 where m1: "msg_close (mv_msgs s ! i) (mv_heap s) = Some (0, m1, h1)" "m_body m1 = Closed"
    "refs_ok ((mv_msgs s)[i := m1]) h1" "lost (mv_heap s) h1"
    using msg_close_refs [OF ok(1) move(1,4)] by auto
  then have m: "m = mv_msgs s ! j" "m' = msg_init" "h' = h1" using move(5,6) by (auto simp: msg_move_def)
  have "refs_ok ((mv_msgs s)[j := m', i := m]) h1"
    using refs_ok_swap [OF m1(3), of i j] move(1,2,3) m1(2) m by (simp add: list_update_swap [of i j])
  with move m m1(4) tokens_ok_lost [OF ok(2)] show ?case by (simp add: vars_ok_def)
next
  case (copy i s j rc m m' h')
  then have ok: "refs_ok (mv_msgs s) (mv_heap s)" "tokens_ok (mv_heap s)" by (auto simp: vars_ok_def)
  obtain m1 h1 where m1: "msg_close (mv_msgs s ! i) (mv_heap s) = Some (0, m1, h1)" "m_body m1 = Closed"
    "refs_ok ((mv_msgs s)[i := m1]) h1" "lost (mv_heap s) h1"
    using msg_close_refs [OF ok(1) copy(1,4)] by auto
  obtain x h2 where x: "share_content (mv_msgs s ! j) 1 2 h1 = Some (x, h2)" "plain x"
    "refs_ok ((mv_msgs s)[i := m1, j := x, i := x]) h2" "payload h2 = payload h1" "h_freed h2 = h_freed h1"
    using share_content_refs [OF m1(3), of i j] copy m1(2) by (auto simp: vars_ok_def)
  have m: "m = x" "m' = x" "h' = h2"
    using copy(5,6) m1(1) x(1,2) by (auto simp: msg_copy_def plain_def add_metadata_ref_def add_group_ref_def)
  have "tokens_ok h2" using tokens_ok_lost [OF ok(2) m1(4)] x(4,5) by (simp add: tokens_ok_def live_token_def)
  with x(3) m copy show ?case by (simp add: vars_ok_def list_update_swap [of i j])
qed

definition no_msgs :: "nat \<Rightarrow> msg_vars" where
  "no_msgs k = \<lparr>mv_msgs = replicate k (fresh_msg Closed),
     mv_heap = \<lparr>h_contents = Map.empty, h_metadata = Map.empty, h_groups = Map.empty, h_freed = [], h_errno = EOK\<rparr>\<rparr>"

lemma vars_ok_reachable:
  assumes "k < 2 ^ 32" "msg_step\<^sup>*\<^sup>* (no_msgs k) s"
  shows "vars_ok s"
proof -
  have "holders c (replicate k (fresh_msg Closed)) = 0" for c by (simp add: holders_def fresh_msg_def)
  then have "vars_ok (no_msgs k)"
    using assms(1) by (simp add: vars_ok_def no_msgs_def refs_ok_def content_ok_def tokens_ok_def live_token_def
        payload_def plain_def fresh_msg_def)
  with assms(2) show ?thesis by (induction rule: rtranclp_induct) (auto intro: vars_ok_step)
qed

lemma content_live_iff: "refs_ok ms h \<Longrightarrow> h_contents h c \<noteq> None \<longleftrightarrow> (\<exists>m \<in> set ms. m_body m = Lmsg c)"
  by (auto simp: refs_ok_def content_ok_def holders_def filter_empty_conv Suc_le_eq split: option.splits
      dest!: spec [of _ c])

text \<open>C6: however messages are initialised, moved, copied and closed, a content block is in memory
  exactly while some message points to it, so nothing leaks and no message reads freed memory;
  every deallocation function is called at most once and only when no message holds its block;
  and closing any open message succeeds.\<close>

theorem msg_refcounts_exact:
  assumes "k < 2 ^ 32" "msg_step\<^sup>*\<^sup>* (no_msgs k) s"
  shows "(\<forall>c. h_contents (mv_heap s) c \<noteq> None \<longleftrightarrow> (\<exists>m \<in> set (mv_msgs s). m_body m = Lmsg c))
    \<and> distinct (h_freed (mv_heap s)) \<and> (\<forall>t \<in> set (h_freed (mv_heap s)). \<not> live_token (mv_heap s) t)
    \<and> (\<forall>i < length (mv_msgs s). msg_check (mv_msgs s ! i) \<longrightarrow>
         (\<exists>m h. msg_close (mv_msgs s ! i) (mv_heap s) = Some (0, m, h)))"
proof -
  have ok: "vars_ok s" using vars_ok_reachable [OF assms] .
  then have refs: "refs_ok (mv_msgs s) (mv_heap s)" and "tokens_ok (mv_heap s)" by (simp_all add: vars_ok_def)
  then have "distinct (h_freed (mv_heap s))" "\<forall>t \<in> set (h_freed (mv_heap s)). \<not> live_token (mv_heap s) t"
    unfolding tokens_ok_def by blast+
  moreover have "\<forall>i < length (mv_msgs s). msg_check (mv_msgs s ! i) \<longrightarrow>
      (\<exists>m h. msg_close (mv_msgs s ! i) (mv_heap s) = Some (0, m, h))"
    using msg_close_refs [OF refs] by blast
  ultimately show ?thesis using content_live_iff [OF refs] by blast
qed

definition one_msg :: "nat \<Rightarrow> msg_vars" where
  "one_msg k = \<lparr>mv_msgs = (replicate k (fresh_msg Closed))[0 := fresh_msg (Lmsg 3), 1 := msg_init],
     mv_heap = \<lparr>h_contents = [3 \<mapsto> new_content [1, 2] 2 (Some 7)], h_metadata = Map.empty, h_groups = Map.empty,
       h_freed = [], h_errno = EOK\<rparr>\<rparr>"

lemma one_msg_reachable: "msg_step\<^sup>*\<^sup>* (no_msgs 2) (one_msg 2)"
proof -
  let ?s = "(no_msgs 2)\<lparr>mv_msgs := (mv_msgs (no_msgs 2))[0 := fresh_msg (Lmsg 3)], mv_heap := mv_heap (one_msg 2)\<rparr>"
  have "msg_step (no_msgs 2) ?s"
    by (rule msg_step.init_data [where d = "[1, 2]" and n = 2 and a = 3 and f = 7])
      (simp_all add: no_msgs_def one_msg_def fresh_msg_def live_token_def payload_def msg_init_data_def)
  moreover have "msg_step ?s (?s\<lparr>mv_msgs := (mv_msgs ?s)[1 := msg_init]\<rparr>)"
    by (rule msg_step.init) (simp_all add: no_msgs_def fresh_msg_def numeral_2_eq_2)
  moreover have "?s\<lparr>mv_msgs := (mv_msgs ?s)[1 := msg_init]\<rparr> = one_msg 2"
    by (simp add: no_msgs_def one_msg_def)
  ultimately show ?thesis by (metis converse_rtranclp_into_rtranclp r_into_rtranclp)
qed

theorem msg_refcounts_exact_witness:
  "msg_step\<^sup>*\<^sup>* (no_msgs 2) (one_msg 2) \<and> h_contents (mv_heap (one_msg 2)) 3 \<noteq> None
   \<and> (\<exists>m h. msg_close (mv_msgs (one_msg 2) ! 0) (mv_heap (one_msg 2)) = Some (0, m, h))"
proof -
  have k: "(2 :: nat) < 2 ^ 32" by simp
  have chk: "msg_check (mv_msgs (one_msg 2) ! 0)" "0 < length (mv_msgs (one_msg 2))"
    by (simp_all add: one_msg_def fresh_msg_def msg_check_def)
  have live: "h_contents (mv_heap (one_msg 2)) 3 \<noteq> None" by (simp add: one_msg_def)
  show ?thesis using msg_refcounts_exact [OF k one_msg_reachable] chk live one_msg_reachable by blast
qed

text \<open>C33: a copy and its source hold the bytes the source had, and every other message keeps its own.\<close>

theorem msg_copy_keeps_bytes:
  assumes "k < 2 ^ 32" "msg_step\<^sup>*\<^sup>* (no_msgs k) s" and ij: "i < length (mv_msgs s)" "j < length (mv_msgs s)" "i \<noteq> j"
    and valid: "msg_check (mv_msgs s ! i)" "msg_check (mv_msgs s ! j)"
  shows "\<exists>m m' h'. msg_copy (mv_msgs s ! i) (mv_msgs s ! j) (mv_heap s) = Some (0, m, m', h')
    \<and> msg_bytes m h' = msg_bytes (mv_msgs s ! j) (mv_heap s) \<and> msg_bytes m' h' = msg_bytes (mv_msgs s ! j) (mv_heap s)
    \<and> (\<forall>l < length (mv_msgs s). l \<noteq> i \<longrightarrow> l \<noteq> j \<longrightarrow>
         msg_bytes (mv_msgs s ! l) h' = msg_bytes (mv_msgs s ! l) (mv_heap s))"
proof -
  have ok: "refs_ok (mv_msgs s) (mv_heap s)" "length (mv_msgs s) < 2 ^ 32"
    using vars_ok_reachable [OF assms(1,2)] by (simp_all add: vars_ok_def)
  obtain m1 h1 where m1: "msg_close (mv_msgs s ! i) (mv_heap s) = Some (0, m1, h1)" "m_body m1 = Closed"
    "refs_ok ((mv_msgs s)[i := m1]) h1" "lost (mv_heap s) h1"
    using msg_close_refs [OF ok(1) ij(1) valid(1)] by auto
  obtain x h2 where x: "share_content (mv_msgs s ! j) 1 2 h1 = Some (x, h2)" "m_body x = m_body (mv_msgs s ! j)" "plain x"
    "refs_ok ((mv_msgs s)[i := m1, j := x, i := x]) h2" "payload h2 = payload h1"
    using share_content_refs [OF m1(3), of i j] ij m1(2) ok(2) by auto
  have run: "msg_copy (mv_msgs s ! i) (mv_msgs s ! j) (mv_heap s) = Some (0, x, x, h2)"
    using valid(2) m1(1) x(1,3) by (auto simp: msg_copy_def plain_def add_metadata_ref_def add_group_ref_def)
  have same: "msg_bytes y h2 = msg_bytes y' (mv_heap s)"
    if "y \<in> set ((mv_msgs s)[i := m1, j := x, i := x])" "m_body y = m_body y'" "plain y" for y y'
  proof (cases "\<exists>c. m_body y = Lmsg c")
    case True
    then obtain c where c: "m_body y = Lmsg c" by blast
    then have "payload h2 c \<noteq> None" using content_live_iff [OF x(4), of c] that(1) by (auto simp: payload_def)
    then have "payload h2 c = payload (mv_heap s) c" using lost_keeps [OF m1(4), of c] x(5) by simp
    with c that(2) show ?thesis
      by (auto simp: msg_bytes_def msg_data_def msg_size_def payload_def map_option_case split: option.splits)
  next
    case False
    with that(2,3) show ?thesis by (auto simp: msg_bytes_def msg_data_def msg_size_def plain_def split: mbody.splits)
  qed
  have "x \<in> set ((mv_msgs s)[i := m1, j := x, i := x])" using ij(1) by (simp add: set_update_memI)
  moreover have "mv_msgs s ! l \<in> set ((mv_msgs s)[i := m1, j := x, i := x])" "plain (mv_msgs s ! l)"
    if "l < length (mv_msgs s)" "l \<noteq> i" "l \<noteq> j" for l
  proof -
    have "(mv_msgs s)[i := m1, j := x, i := x] ! l = mv_msgs s ! l" using that by simp
    then show "mv_msgs s ! l \<in> set ((mv_msgs s)[i := m1, j := x, i := x])" using that(1) by (metis length_list_update nth_mem)
    show "plain (mv_msgs s ! l)" using refs_ok_nth [OF ok(1) that(1)] .
  qed
  ultimately show ?thesis using run same x(2,3) by blast
qed

theorem msg_copy_keeps_bytes_witness:
  "\<exists>m m' h'. msg_copy (mv_msgs (one_msg 2) ! 1) (mv_msgs (one_msg 2) ! 0) (mv_heap (one_msg 2)) = Some (0, m, m', h')
     \<and> msg_bytes m h' = Some [1, 2] \<and> msg_bytes m' h' = Some [1, 2]"
proof -
  have "msg_bytes (mv_msgs (one_msg 2) ! 0) (mv_heap (one_msg 2)) = Some [1, 2]"
    by (simp add: one_msg_def fresh_msg_def msg_bytes_def msg_data_def msg_size_def new_content_def)
  with msg_copy_keeps_bytes [OF _ one_msg_reachable, of 1 0] show ?thesis
    by (auto simp: one_msg_def msg_init_def fresh_msg_def msg_check_def)
qed

text \<open>Giving a message a short group name after a long one breaks it: the name is written over the
  pointer to the long one while the tag still says long, so reading the group, copying
  the message and closing it all follow a smashed pointer.\<close>

theorem set_group_short_after_long:
  assumes "14 < length g" "length g \<le> 255" "length g' \<le> 14" "plain m" "is_vsm m"
  shows "\<exists>m1 h1 m2. set_group g (Some a) m h = Some (0, m1, h1) \<and> msg_group m1 h1 = Some g
    \<and> set_group g' mal m1 h1 = Some (0, m2, h1) \<and> msg_group m2 h1 = None \<and> msg_close m2 h1 = None
    \<and> msg_copy msg_init m2 h1 = None"
  using assms
  by (auto simp: set_group_def ZMQ_GROUP_MAX_LENGTH_def msg_group_def is_vsm_def plain_def msg_close_def msg_check_def
      drop_metadata_def drop_group_def msg_copy_def msg_init_def fresh_msg_def share_content_def content_of_def
      add_metadata_ref_def add_group_ref_def split: mbody.splits)

theorem set_group_short_after_long_witness:
  "\<exists>m1 h1 m2. set_group ''a-long-group-name'' (Some 1) msg_init (mv_heap (no_msgs 0)) = Some (0, m1, h1)
     \<and> set_group ''b'' None m1 h1 = Some (0, m2, h1) \<and> msg_close m2 h1 = None"
  using set_group_short_after_long [of "''a-long-group-name''" "''b''" msg_init 1 "mv_heap (no_msgs 0)" None]
  by (auto simp: msg_init_def fresh_msg_def plain_def is_vsm_def)

end
