(* ===== verification/Upipe.thy ===== *)
theory Upipe
  imports Ypipe Msg
begin

text \<open>
  The message pipes below \<^verbatim>\<open>pipe_t\<close>: the interface \<^verbatim>\<open>ypipe_base_t<msg_t>\<close> with its two
  implementations. The ordinary one is the pipe that theory \<open>Ypipe\<close> shows \<^verbatim>\<open>ypipe_t\<close> to
  implement; the conflating one (ypipe_conflate.hpp over dbuffer.hpp) keeps the last message only.
  Whether the writer's \<^verbatim>\<open>try_lock\<close> succeeds is an argument, since it depends on the reader thread.
\<close>

record dbuffer =
  db_back :: msg
  db_front :: msg
  has_msg :: bool

definition db_new :: dbuffer where
  "db_new = \<lparr>db_back = msg_init, db_front = msg_init, has_msg = False\<rparr>"

definition db_write :: "bool \<Rightarrow> msg \<Rightarrow> dbuffer \<Rightarrow> msg_heap \<Rightarrow> (dbuffer \<times> msg_heap) option" where
  "db_write lock v d h = do {
     zmq_assert (msg_check v);
     let d1 = d\<lparr>db_back := v\<rparr>;
     zmq_assert (msg_check (db_back d1));
     if lock then do {
       (rc, f, b, h1) \<leftarrow> msg_move (db_front d1) (db_back d1) h;
       Some (d1\<lparr>db_front := f, db_back := b, has_msg := True\<rparr>, h1)
     } else Some (d1, h)
   }"

definition db_read :: "dbuffer \<Rightarrow> (msg option \<times> dbuffer) option" where
  "db_read d = (if \<not> has_msg d then Some (None, d)
     else do {
       zmq_assert (msg_check (db_front d));
       Some (Some (db_front d), d\<lparr>db_front := msg_init, has_msg := False\<rparr>)
     })"

record conflate =
  cf_dbuffer :: dbuffer
  reader_awake :: bool

definition cf_new :: conflate where
  "cf_new = \<lparr>cf_dbuffer = db_new, reader_awake = False\<rparr>"

definition cf_write :: "bool \<Rightarrow> msg \<Rightarrow> bool \<Rightarrow> conflate \<Rightarrow> msg_heap \<Rightarrow> (conflate \<times> msg_heap) option" where
  "cf_write lock v incomplete c h = do {
     (d, h1) \<leftarrow> db_write lock v (cf_dbuffer c) h;
     Some (c\<lparr>cf_dbuffer := d\<rparr>, h1)
   }"

definition cf_flush :: "conflate \<Rightarrow> bool" where
  "cf_flush c = reader_awake c"

definition cf_check_read :: "conflate \<Rightarrow> bool \<times> conflate" where
  "cf_check_read c = (let res = has_msg (cf_dbuffer c) in (res, if \<not> res then c\<lparr>reader_awake := False\<rparr> else c))"

definition cf_read :: "conflate \<Rightarrow> (msg option \<times> conflate) option" where
  "cf_read c = (let (res, c1) = cf_check_read c in
     if \<not> res then Some (None, c1)
     else do { (v, d) \<leftarrow> db_read (cf_dbuffer c1); Some (v, c1\<lparr>cf_dbuffer := d\<rparr>) })"

definition cf_probe :: "(msg \<Rightarrow> bool) \<Rightarrow> conflate \<Rightarrow> bool" where
  "cf_probe fn c = fn (db_front (cf_dbuffer c))"

subsection \<open>The two implementations behind one interface\<close>

datatype upipe = Normal "msg pq" | Conflating conflate

definition up_new :: "bool \<Rightarrow> upipe" where
  "up_new conflating = (if conflating then Conflating cf_new else Normal pq_new)"

fun up_write :: "bool \<Rightarrow> msg \<Rightarrow> bool \<Rightarrow> upipe \<Rightarrow> msg_heap \<Rightarrow> (upipe \<times> msg_heap) option" where
  "up_write lock v i (Normal q) h = Some (Normal (pq_write v i q), h)"
| "up_write lock v i (Conflating c) h = do { (c', h') \<leftarrow> cf_write lock v i c h; Some (Conflating c', h') }"

fun up_unwrite :: "upipe \<Rightarrow> msg option \<times> upipe" where
  "up_unwrite (Normal q) = (let (v, q') = pq_unwrite q in (v, Normal q'))"
| "up_unwrite (Conflating c) = (None, Conflating c)"

fun up_flush :: "upipe \<Rightarrow> bool \<times> upipe" where
  "up_flush (Normal q) = (let (r, q') = pq_flush q in (r, Normal q'))"
| "up_flush (Conflating c) = (cf_flush c, Conflating c)"

fun up_check_read :: "upipe \<Rightarrow> bool \<times> upipe" where
  "up_check_read (Normal q) = (let (r, q') = pq_check_read q in (r, Normal q'))"
| "up_check_read (Conflating c) = (let (r, c') = cf_check_read c in (r, Conflating c'))"

fun up_read :: "upipe \<Rightarrow> (msg option \<times> upipe) option" where
  "up_read (Normal q) = (let (v, q') = pq_read q in Some (v, Normal q'))"
| "up_read (Conflating c) = do { (v, c') \<leftarrow> cf_read c; Some (v, Conflating c') }"

fun up_probe :: "(msg \<Rightarrow> bool) \<Rightarrow> upipe \<Rightarrow> (bool \<times> upipe) option" where
  "up_probe fn (Normal q) = (let (ok, q') = pq_check_read q in do {
     zmq_assert ok;
     Some (fn (hist q' ! rd q'), Normal q')
   })"
| "up_probe fn (Conflating c) = Some (cf_probe fn c, Conflating c)"

text \<open>How many messages a reader can still take, the measure of the loops that read.\<close>

fun up_avail :: "upipe \<Rightarrow> nat" where
  "up_avail (Normal q) = wr q - rd q"
| "up_avail (Conflating c) = (if has_msg (cf_dbuffer c) then 1 else 0)"

lemma up_read_avail: "up_read u = Some (Some v, u') \<Longrightarrow> up_avail u' < up_avail u"
  by (cases u) (auto simp: pq_read_def cf_read_def cf_check_read_def db_read_def Let_def
      split: if_splits prod.splits Option.bind_splits)

text \<open>The messages a reader will get if nothing more is written, and those not yet visible.\<close>

fun up_pending :: "upipe \<Rightarrow> msg list" where
  "up_pending (Normal q) = drop (rd q) (hist q)"
| "up_pending (Conflating c) =
     (if has_msg (cf_dbuffer c) then [db_front (cf_dbuffer c)] else []) @ [db_back (cf_dbuffer c)]"

text \<open>Sequences of operations on a conflating pipe.\<close>

datatype cf_op = CfWrite bool msg bool | CfCheck | CfRead

fun cf_step :: "cf_op \<Rightarrow> conflate \<times> msg_heap \<Rightarrow> (conflate \<times> msg_heap) option" where
  "cf_step (CfWrite l v i) (c, h) = cf_write l v i c h"
| "cf_step CfCheck (c, h) = Some (snd (cf_check_read c), h)"
| "cf_step CfRead (c, h) = do { (v, c') \<leftarrow> cf_read c; Some (c', h) }"

fun cf_run :: "cf_op list \<Rightarrow> conflate \<times> msg_heap \<Rightarrow> (conflate \<times> msg_heap) option" where
  "cf_run [] s = Some s"
| "cf_run (x # xs) s = do { s' \<leftarrow> cf_step x s; cf_run xs s' }"

lemma cf_step_asleep: "cf_step x s = Some s' \<Longrightarrow> \<not> reader_awake (fst s) \<Longrightarrow> \<not> reader_awake (fst s')"
  by (cases s; cases x) (auto simp: cf_write_def cf_check_read_def cf_read_def Let_def
      split: Option.bind_splits if_splits prod.splits)

lemma cf_run_asleep: "cf_run xs s = Some s' \<Longrightarrow> \<not> reader_awake (fst s) \<Longrightarrow> \<not> reader_awake (fst s')"
  by (induction xs arbitrary: s) (auto split: Option.bind_splits dest: cf_step_asleep)

text \<open>The conflating pipe never remembers that its reader is awake: \<open>flush\<close> reports a sleeping reader
  after every sequence of writes and reads, so each write is followed by a wake-up command.\<close>

theorem conflate_flush_always_asleep:
  assumes "cf_run xs (cf_new, h) = Some (c, h')"
  shows "\<not> cf_flush c"
  using cf_run_asleep [OF assms] by (simp add: cf_new_def cf_flush_def)

theorem conflate_flush_always_asleep_witness:
  "\<exists>c h. cf_run [CfCheck, CfWrite True msg_init False, CfRead] (cf_new, mv_heap (no_msgs 0)) = Some (c, h) \<and> \<not> cf_flush c"
proof -
  obtain c h where "cf_run [CfCheck, CfWrite True msg_init False, CfRead] (cf_new, mv_heap (no_msgs 0)) = Some (c, h)"
    by (auto simp: cf_new_def db_new_def cf_check_read_def cf_write_def db_write_def cf_read_def db_read_def msg_check_def
        msg_init_def fresh_msg_def msg_move_def msg_close_def drop_metadata_def drop_group_def Let_def)
  with conflate_flush_always_asleep [OF this] show ?thesis by blast
qed

text \<open>C37: when the writer of a conflating pipe does not get the lock its message stays in the back buffer, and
  the next write overwrites it there without closing it: a content block it held is lost.\<close>

theorem conflate_leaks_on_contention:
  assumes "cf_run [CfWrite False m i, CfWrite True m2 i2] (c, h) = Some (c', h')"
    and "m_body m = Lmsg a" "m_body m2 \<noteq> Lmsg a" "h_contents h a \<noteq> None"
    and "plain (db_front (cf_dbuffer c))" "m_body (db_front (cf_dbuffer c)) \<noteq> Lmsg a"
  shows "h_contents h' a \<noteq> None \<and> m_body (db_front (cf_dbuffer c')) \<noteq> Lmsg a \<and> m_body (db_back (cf_dbuffer c')) \<noteq> Lmsg a"
proof -
  let ?f = "db_front (cf_dbuffer c)"
  from assms(1) obtain rc f b where f: "msg_move ?f m2 h = Some (rc, f, b, h')"
    "db_front (cf_dbuffer c') = f" "db_back (cf_dbuffer c') = b"
    by (auto simp: cf_write_def db_write_def Let_def split: Option.bind_splits if_splits)
  then consider "\<not> msg_check m2" "f = ?f" "b = m2" "h_contents h' = h_contents h"
    | r x where "msg_close ?f h = Some (r, x, h')" "f = x \<and> b = m2 \<or> f = m2 \<and> b = msg_init"
    by (auto simp: msg_move_def split: Option.bind_splits if_splits)
  then show ?thesis
  proof cases
    case 1
    with f assms show ?thesis by simp
  next
    case 2
    with msg_close_other [OF assms(5) 2(1) assms(6)] f assms show ?thesis by (auto simp: msg_init_def fresh_msg_def)
  qed
qed

theorem conflate_leaks_on_contention_witness:
  "\<exists>c' h'. cf_run [CfWrite False (fresh_msg (Lmsg 3)) False, CfWrite True msg_init False] (cf_new, mv_heap (one_msg 2))
      = Some (c', h') \<and> h_contents h' 3 \<noteq> None \<and> m_body (db_front (cf_dbuffer c')) \<noteq> Lmsg 3"
proof -
  obtain c' h' where run: "cf_run [CfWrite False (fresh_msg (Lmsg 3)) False, CfWrite True msg_init False]
      (cf_new, mv_heap (one_msg 2)) = Some (c', h')"
    by (auto simp: cf_new_def db_new_def cf_write_def db_write_def msg_check_def msg_init_def fresh_msg_def
        msg_move_def msg_close_def drop_metadata_def drop_group_def Let_def)
  have "h_contents (mv_heap (one_msg 2)) 3 \<noteq> None" "plain msg_init"
    by (simp_all add: one_msg_def plain_def msg_init_def fresh_msg_def)
  with conflate_leaks_on_contention [OF run, of 3] run show ?thesis
    by (auto simp: cf_new_def db_new_def msg_init_def fresh_msg_def)
qed

end
