(* ===== verification/Pipe.thy ===== *)
theory Pipe
  imports Upipe "HOL-Library.Signed_Division"
begin

text \<open>
  \<^verbatim>\<open>pipe_t\<close> (pipe.hpp, pipe.cpp): one end of a bidirectional message pipe. An end reads from one
  shared \<^verbatim>\<open>upipe_t\<close> and writes to another, so the shared pipes are in a store and an end holds
  their addresses; the null pointer is \<open>None\<close>. The functions of an end take the end and the
  world of its thread: the store, the message heap, the commands it sends to its peer and
  the events it raises in its sink, both in order. An assertion that fails is \<open>None\<close>.
\<close>

datatype pipe_state =
  active | delimiter_received | waiting_for_delimiter | term_ack_sent | term_req_sent1 | term_req_sent2

datatype pipe_cmd =
    ActivateRead | ActivateWrite u64 | Hiccup nat | PipeTerm | PipeTermAck | PipeHwm int int | PipePeerStats u64
  | PipeStatsPublish u64 u64

datatype pipe_event = ReadActivated | WriteActivated | Hiccuped | PipeTerminated

record pipe =
  in_pipe :: "nat option"
  out_pipe :: "nat option"
  in_active :: bool
  out_active :: bool
  hwm :: int
  lwm :: int
  in_hwm_boost :: int
  out_hwm_boost :: int
  msgs_read :: u64
  msgs_written :: u64
  peers_msgs_read :: u64
  sink_set :: bool
  pstate :: pipe_state
  delay :: bool
  router_socket_routing_id :: bytes
  server_socket_routing_id :: u32
  conflate_opt :: bool
  disconnect_msg :: msg

record pipe_world =
  pw_upipes :: "nat \<rightharpoonup> upipe"
  pw_heap :: msg_heap
  pw_cmds :: "pipe_cmd list"
  pw_events :: "pipe_event list"
  pw_lock :: bool

definition send_cmd :: "pipe_cmd \<Rightarrow> pipe_world \<Rightarrow> pipe_world" where
  "send_cmd c w = w\<lparr>pw_cmds := pw_cmds w @ [c]\<rparr>"

definition raise_event :: "pipe_event \<Rightarrow> pipe_world \<Rightarrow> pipe_world" where
  "raise_event e w = w\<lparr>pw_events := pw_events w @ [e]\<rparr>"

definition get_up :: "nat option \<Rightarrow> pipe_world \<Rightarrow> upipe option" where
  "get_up a w = (case a of None \<Rightarrow> None | Some x \<Rightarrow> pw_upipes w x)"

definition put_up :: "nat option \<Rightarrow> upipe \<Rightarrow> pipe_world \<Rightarrow> pipe_world" where
  "put_up a u w = (case a of None \<Rightarrow> w | Some x \<Rightarrow> w\<lparr>pw_upipes := (pw_upipes w)(x \<mapsto> u)\<rparr>)"

definition compute_lwm :: "int \<Rightarrow> int" where
  "compute_lwm h = (h + 1) sdiv 2"

definition new_pipe :: "nat \<Rightarrow> nat \<Rightarrow> int \<Rightarrow> int \<Rightarrow> bool \<Rightarrow> pipe" where
  "new_pipe inp outp inhwm outhwm cf = \<lparr>in_pipe = Some inp, out_pipe = Some outp, in_active = True, out_active = True,
     hwm = outhwm, lwm = compute_lwm inhwm, in_hwm_boost = -1, out_hwm_boost = -1, msgs_read = 0, msgs_written = 0,
     peers_msgs_read = 0, sink_set = False, pstate = active, delay = True, router_socket_routing_id = [],
     server_socket_routing_id = 0, conflate_opt = cf, disconnect_msg = msg_init\<rparr>"

text \<open>\<^verbatim>\<open>pipepair\<close>: the two shared pipes at the given addresses and the two ends.\<close>

definition pipepair :: "nat \<Rightarrow> nat \<Rightarrow> int \<times> int \<Rightarrow> bool \<times> bool \<Rightarrow> pipe_world \<Rightarrow> (pipe \<times> pipe) \<times> pipe_world" where
  "pipepair u1 u2 hwms cf w =
     (let w1 = put_up (Some u1) (up_new (fst cf)) w; w2 = put_up (Some u2) (up_new (snd cf)) w1
      in ((new_pipe u1 u2 (snd hwms) (fst hwms) (fst cf), new_pipe u2 u1 (fst hwms) (snd hwms) (snd cf)), w2))"

definition set_event_sink :: "pipe \<Rightarrow> pipe option" where
  "set_event_sink p = do { zmq_assert (\<not> sink_set p); Some (p\<lparr>sink_set := True\<rparr>) }"

subsection \<open>Writing\<close>

definition check_hwm :: "pipe \<Rightarrow> bool" where
  "check_hwm p = (let full = hwm p > 0 \<and> msgs_written p - peers_msgs_read p \<ge> of_int (hwm p) in \<not> full)"

definition check_write :: "pipe \<Rightarrow> bool \<times> pipe" where
  "check_write p =
     (if \<not> out_active p \<or> pstate p \<noteq> active then (False, p)
      else if \<not> check_hwm p then (False, p\<lparr>out_active := False\<rparr>) else (True, p))"

definition up_write_at :: "nat option \<Rightarrow> msg \<Rightarrow> bool \<Rightarrow> pipe_world \<Rightarrow> pipe_world option" where
  "up_write_at a m i w = do {
     u \<leftarrow> get_up a w;
     (u', h') \<leftarrow> up_write (pw_lock w) m i u (pw_heap w);
     Some ((put_up a u' w)\<lparr>pw_heap := h'\<rparr>)
   }"

definition pipe_write :: "msg \<Rightarrow> pipe \<Rightarrow> pipe_world \<Rightarrow> (bool \<times> pipe \<times> pipe_world) option" where
  "pipe_write m p w =
     (let (ok, p1) = check_write p in
      if \<not> ok then Some (False, p1, w)
      else
        (let more = has_flag f_more m; rid = is_routing_id m in do {
           w1 \<leftarrow> up_write_at (out_pipe p1) m more w;
           Some (True, if \<not> more \<and> \<not> rid then p1\<lparr>msgs_written := msgs_written p1 + 1\<rparr> else p1, w1)
         }))"

function rollback_up :: "upipe \<Rightarrow> msg_heap \<Rightarrow> (upipe \<times> msg_heap) option" where
  "rollback_up u h = (case up_unwrite u of
       (None, u') \<Rightarrow> Some (u', h)
     | (Some m, u') \<Rightarrow> do {
         zmq_assert (has_flag f_more m);
         (rc, m', h') \<leftarrow> msg_close m h;
         zmq_assert (rc = 0);
         rollback_up u' h'
       })"
  by pat_completeness auto

termination rollback_up
proof (relation "measure (\<lambda>(u, h). case u of Normal q \<Rightarrow> length (hist q) | _ \<Rightarrow> 0)", goal_cases)
  case (2 u h u1 u' m un x rc p m' h')
  then show ?case by (cases u) (auto simp: pq_unwrite_def not_le split: if_splits prod.splits)
qed simp

declare rollback_up.simps [simp del]

definition rollback :: "pipe \<Rightarrow> pipe_world \<Rightarrow> pipe_world option" where
  "rollback p w = (case out_pipe p of
       None \<Rightarrow> Some w
     | Some a \<Rightarrow> do {
         u \<leftarrow> pw_upipes w a;
         (u', h') \<leftarrow> rollback_up u (pw_heap w);
         Some ((put_up (Some a) u' w)\<lparr>pw_heap := h'\<rparr>)
       })"

definition pipe_flush :: "pipe \<Rightarrow> pipe_world \<Rightarrow> pipe_world option" where
  "pipe_flush p w =
     (if pstate p = term_ack_sent then Some w
      else case out_pipe p of
          None \<Rightarrow> Some w
        | Some a \<Rightarrow> do {
            u \<leftarrow> pw_upipes w a;
            let (ok, u') = up_flush u;
            let w1 = put_up (Some a) u' w;
            Some (if \<not> ok then send_cmd ActivateRead w1 else w1)
          })"

subsection \<open>Reading\<close>

definition process_delimiter :: "pipe \<Rightarrow> pipe_world \<Rightarrow> (pipe \<times> pipe_world) option" where
  "process_delimiter p w = do {
     zmq_assert (pstate p = active \<or> pstate p = waiting_for_delimiter);
     if pstate p = active then Some (p\<lparr>pstate := delimiter_received\<rparr>, w)
     else do {
       w1 \<leftarrow> rollback p w;
       Some (p\<lparr>out_pipe := None, pstate := term_ack_sent\<rparr>, send_cmd PipeTermAck w1)
     }
   }"

definition pipe_check_read :: "pipe \<Rightarrow> pipe_world \<Rightarrow> (bool \<times> pipe \<times> pipe_world) option" where
  "pipe_check_read p w =
     (if \<not> in_active p then Some (False, p, w)
      else if pstate p \<noteq> active \<and> pstate p \<noteq> waiting_for_delimiter then Some (False, p, w)
      else do {
        u \<leftarrow> get_up (in_pipe p) w;
        let (ok, u1) = up_check_read u;
        let w1 = put_up (in_pipe p) u1 w;
        if \<not> ok then Some (False, p\<lparr>in_active := False\<rparr>, w1)
        else do {
          (delim, u2) \<leftarrow> up_probe is_delimiter u1;
          let w2 = put_up (in_pipe p) u2 w1;
          if delim then do {
            (v, u3) \<leftarrow> up_read u2;
            zmq_assert (v \<noteq> None);
            (p', w') \<leftarrow> process_delimiter p (put_up (in_pipe p) u3 w2);
            Some (False, p', w')
          } else Some (True, p, w2)
        }
      })"

text \<open>The loop of \<^verbatim>\<open>read\<close>: credentials are closed and skipped.\<close>

function read_skip :: "upipe \<Rightarrow> msg_heap \<Rightarrow> (msg option \<times> upipe \<times> msg_heap) option" where
  "read_skip u h = do {
     (v, u') \<leftarrow> up_read u;
     (case v of
        None \<Rightarrow> Some (None, u', h)
      | Some m \<Rightarrow>
          if is_credential m then do {
            (rc, m', h') \<leftarrow> msg_close m h;
            zmq_assert (rc = 0);
            read_skip u' h'
          } else Some (Some m, u', h))
   }"
  by pat_completeness auto

termination read_skip
  by (relation "measure (\<lambda>(u, h). up_avail u)") (auto dest: up_read_avail)

declare read_skip.simps [simp del]

text \<open>The acknowledgement at the end of \<open>pipe_t::read\<close>.\<close>

definition acknowledge :: "pipe \<Rightarrow> pipe_world \<Rightarrow> pipe_world" where
  "acknowledge p w = (if lwm p > 0 \<and> msgs_read p mod of_int (lwm p) = 0
     then send_cmd (ActivateWrite (msgs_read p)) w else w)"

definition pipe_read :: "pipe \<Rightarrow> pipe_world \<Rightarrow> (msg option \<times> pipe \<times> pipe_world) option" where
  "pipe_read p w =
     (if \<not> in_active p then Some (None, p, w)
      else if pstate p \<noteq> active \<and> pstate p \<noteq> waiting_for_delimiter then Some (None, p, w)
      else do {
        u \<leftarrow> get_up (in_pipe p) w;
        (v, u', h') \<leftarrow> read_skip u (pw_heap w);
        let w1 = (put_up (in_pipe p) u' w)\<lparr>pw_heap := h'\<rparr>;
        (case v of
           None \<Rightarrow> Some (None, p\<lparr>in_active := False\<rparr>, w1)
         | Some m \<Rightarrow>
             if is_delimiter m then do {
               (p', w') \<leftarrow> process_delimiter p w1;
               Some (None, p', w')
             } else
               (let p1 = (if \<not> has_flag f_more m \<and> \<not> is_routing_id m
                          then p\<lparr>msgs_read := msgs_read p + 1\<rparr> else p)
                in Some (Some m, p1, acknowledge p1 w1)))
      })"

subsection \<open>Commands from the peer\<close>

definition process_activate_read :: "pipe \<Rightarrow> pipe_world \<Rightarrow> pipe \<times> pipe_world" where
  "process_activate_read p w =
     (if \<not> in_active p \<and> (pstate p = active \<or> pstate p = waiting_for_delimiter)
      then (p\<lparr>in_active := True\<rparr>, raise_event ReadActivated w) else (p, w))"

definition process_activate_write :: "u64 \<Rightarrow> pipe \<Rightarrow> pipe_world \<Rightarrow> pipe \<times> pipe_world" where
  "process_activate_write n p w =
     (let p1 = p\<lparr>peers_msgs_read := n\<rparr> in
      if \<not> out_active p1 \<and> pstate p1 = active
      then (p1\<lparr>out_active := True\<rparr>, raise_event WriteActivated w) else (p1, w))"

text \<open>Reading a pipe to its end, closing what it holds; the count is of the final message parts.\<close>

function drain :: "upipe \<Rightarrow> msg_heap \<Rightarrow> (nat \<times> upipe \<times> msg_heap) option" where
  "drain u h = do {
     (v, u') \<leftarrow> up_read u;
     (case v of
        None \<Rightarrow> Some (0, u', h)
      | Some m \<Rightarrow> do {
          (rc, m', h') \<leftarrow> msg_close m h;
          zmq_assert (rc = 0);
          (n, u'', h'') \<leftarrow> drain u' h';
          Some (if has_flag f_more m then n else n + 1, u'', h'')
        })
   }"
  by pat_completeness auto

termination drain
  by (relation "measure (\<lambda>(u, h). up_avail u)") (auto dest: up_read_avail)

declare drain.simps [simp del]

text \<open>Deleting a shared pipe: the double buffer of a conflating one closes what it holds.\<close>

fun up_delete :: "upipe \<Rightarrow> msg_heap \<Rightarrow> msg_heap option" where
  "up_delete (Normal q) h = Some h"
| "up_delete (Conflating c) h = do {
     (rc, m, h1) \<leftarrow> msg_close (db_back (cf_dbuffer c)) h;
     (rc2, m2, h2) \<leftarrow> msg_close (db_front (cf_dbuffer c)) h1;
     Some h2
   }"

definition process_hiccup :: "nat option \<Rightarrow> pipe \<Rightarrow> pipe_world \<Rightarrow> (pipe \<times> pipe_world) option" where
  "process_hiccup new p w = do {
     a \<leftarrow> out_pipe p;
     u \<leftarrow> pw_upipes w a;
     (n, u', h') \<leftarrow> drain (snd (up_flush u)) (pw_heap w);
     let p1 = p\<lparr>msgs_written := msgs_written p - of_nat n\<rparr>;
     h2 \<leftarrow> up_delete u' h';
     let w1 = w\<lparr>pw_upipes := (pw_upipes w)(a := None), pw_heap := h2\<rparr>;
     zmq_assert (new \<noteq> None);
     let p2 = p1\<lparr>out_pipe := new, out_active := True\<rparr>;
     Some (p2, if pstate p2 = active then raise_event Hiccuped w1 else w1)
   }"

definition process_pipe_term :: "pipe \<Rightarrow> pipe_world \<Rightarrow> (pipe \<times> pipe_world) option" where
  "process_pipe_term p w = do {
     zmq_assert (pstate p = active \<or> pstate p = delimiter_received \<or> pstate p = term_req_sent1);
     Some (if pstate p = active then
             (if delay p then (p\<lparr>pstate := waiting_for_delimiter\<rparr>, w)
              else (p\<lparr>pstate := term_ack_sent, out_pipe := None\<rparr>, send_cmd PipeTermAck w))
           else if pstate p = delimiter_received then
             (p\<lparr>pstate := term_ack_sent, out_pipe := None\<rparr>, send_cmd PipeTermAck w)
           else (p\<lparr>pstate := term_req_sent2, out_pipe := None\<rparr>, send_cmd PipeTermAck w))
   }"

text \<open>The last act of an end: the object is gone afterwards.\<close>

definition process_pipe_term_ack :: "pipe \<Rightarrow> pipe_world \<Rightarrow> pipe_world option" where
  "process_pipe_term_ack p w = do {
     zmq_assert (sink_set p);
     let w1 = raise_event PipeTerminated w;
     w2 \<leftarrow> (if pstate p = term_req_sent1 then Some (send_cmd PipeTermAck w1)
           else do { zmq_assert (pstate p = term_ack_sent \<or> pstate p = term_req_sent2); Some w1 });
     a \<leftarrow> in_pipe p;
     u \<leftarrow> pw_upipes w2 a;
     (u1, h) \<leftarrow> (if \<not> conflate_opt p then do { (n, u', h') \<leftarrow> drain u (pw_heap w2); Some (u', h') }
              else Some (u, pw_heap w2));
     h1 \<leftarrow> up_delete u1 h;
     (rc, m', h2) \<leftarrow> msg_close (disconnect_msg p) h1;
     Some (w2\<lparr>pw_upipes := (pw_upipes w2)(a := None), pw_heap := h2\<rparr>)
   }"

definition set_hwms :: "int \<Rightarrow> int \<Rightarrow> pipe \<Rightarrow> pipe" where
  "set_hwms inhwm outhwm p =
     (let i = inhwm + max (in_hwm_boost p) 0; ou = outhwm + max (out_hwm_boost p) 0;
          i' = (if inhwm \<le> 0 \<or> in_hwm_boost p = 0 then 0 else i);
          ou' = (if outhwm \<le> 0 \<or> out_hwm_boost p = 0 then 0 else ou)
      in p\<lparr>lwm := compute_lwm i', hwm := ou'\<rparr>)"

definition process_pipe_hwm :: "int \<Rightarrow> int \<Rightarrow> pipe \<Rightarrow> pipe" where
  "process_pipe_hwm i ou p = set_hwms i ou p"

definition set_hwms_boost :: "int \<Rightarrow> int \<Rightarrow> pipe \<Rightarrow> pipe" where
  "set_hwms_boost i ou p = p\<lparr>in_hwm_boost := i, out_hwm_boost := ou\<rparr>"

definition send_hwms_to_peer :: "int \<Rightarrow> int \<Rightarrow> pipe_world \<Rightarrow> pipe_world" where
  "send_hwms_to_peer i ou w = send_cmd (PipeHwm i ou) w"

definition send_stats_to_peer :: "pipe \<Rightarrow> pipe_world \<Rightarrow> pipe_world" where
  "send_stats_to_peer p w = send_cmd (PipePeerStats (msgs_written p - peers_msgs_read p)) w"

definition process_pipe_peer_stats :: "u64 \<Rightarrow> pipe \<Rightarrow> pipe_world \<Rightarrow> pipe_world" where
  "process_pipe_peer_stats n p w = send_cmd (PipeStatsPublish n (msgs_written p - peers_msgs_read p)) w"

subsection \<open>Termination and hiccups\<close>

definition terminate_tail :: "pipe \<Rightarrow> pipe_world \<Rightarrow> (pipe \<times> pipe_world) option" where
  "terminate_tail p w =
     (let p1 = p\<lparr>out_active := False\<rparr> in
      case out_pipe p1 of
        None \<Rightarrow> Some (p1, w)
      | Some a \<Rightarrow> do {
          w1 \<leftarrow> rollback p1 w;
          w2 \<leftarrow> up_write_at (Some a) msg_init_delimiter False w1;
          w3 \<leftarrow> pipe_flush p1 w2;
          Some (p1, w3)
        })"

definition pipe_terminate :: "bool \<Rightarrow> pipe \<Rightarrow> pipe_world \<Rightarrow> (pipe \<times> pipe_world) option" where
  "pipe_terminate d p0 w =
     (let p = p0\<lparr>delay := d\<rparr> in
      (case pstate p of
         term_req_sent1 \<Rightarrow> Some (p, w)
       | term_req_sent2 \<Rightarrow> Some (p, w)
       | term_ack_sent \<Rightarrow> Some (p, w)
       | active \<Rightarrow> terminate_tail (p\<lparr>pstate := term_req_sent1\<rparr>) (send_cmd PipeTerm w)
       | waiting_for_delimiter \<Rightarrow>
           if \<not> delay p then do {
             w1 \<leftarrow> rollback p w;
             terminate_tail (p\<lparr>out_pipe := None, pstate := term_ack_sent\<rparr>) (send_cmd PipeTermAck w1)
           } else terminate_tail p w
       | delimiter_received \<Rightarrow> terminate_tail (p\<lparr>pstate := term_req_sent1\<rparr>) (send_cmd PipeTerm w)))"

definition set_nodelay :: "pipe \<Rightarrow> pipe" where
  "set_nodelay p = p\<lparr>delay := False\<rparr>"

definition hiccup :: "nat \<Rightarrow> pipe \<Rightarrow> pipe_world \<Rightarrow> pipe \<times> pipe_world" where
  "hiccup a p w =
     (if pstate p \<noteq> active then (p, w)
      else (p\<lparr>in_pipe := Some a, in_active := True\<rparr>,
            send_cmd (Hiccup a) (put_up (Some a) (up_new (conflate_opt p)) w)))"

definition send_disconnect_msg :: "pipe \<Rightarrow> pipe_world \<Rightarrow> (pipe \<times> pipe_world) option" where
  "send_disconnect_msg p w = do {
     n \<leftarrow> msg_size (disconnect_msg p) (pw_heap w);
     (case out_pipe p of
        None \<Rightarrow> Some (p, w)
      | Some a \<Rightarrow>
          if n > 0 then do {
            w1 \<leftarrow> rollback p w;
            w2 \<leftarrow> up_write_at (Some a) (disconnect_msg p) False w1;
            w3 \<leftarrow> pipe_flush p w2;
            Some (p\<lparr>disconnect_msg := msg_init\<rparr>, w3)
          } else Some (p, w))
   }"

definition set_disconnect_msg :: "bytes \<Rightarrow> nat option \<Rightarrow> pipe \<Rightarrow> pipe_world \<Rightarrow> (pipe \<times> pipe_world) option" where
  "set_disconnect_msg b mal p w = do {
     (rc, m, h1) \<leftarrow> msg_close (disconnect_msg p) (pw_heap w);
     let (rc2, m2, h2) = msg_init_buffer b mal h1;
     zmq_assert (rc2 = 0);
     Some (p\<lparr>disconnect_msg := m2\<rparr>, w\<lparr>pw_heap := h2\<rparr>)
   }"

definition send_hiccup_msg :: "bytes \<Rightarrow> nat option \<Rightarrow> pipe \<Rightarrow> pipe_world \<Rightarrow> pipe_world option" where
  "send_hiccup_msg b mal p w = (case out_pipe p of
       None \<Rightarrow> Some w
     | Some a \<Rightarrow>
         if b \<noteq> [] then do {
           let (rc, m, h1) = msg_init_buffer b mal (pw_heap w);
           zmq_assert (rc = 0);
           w1 \<leftarrow> up_write_at (Some a) m False (w\<lparr>pw_heap := h1\<rparr>);
           pipe_flush p w1
         } else Some w)"

text \<open>The messages an engine or a socket puts at the start of a new pipe.\<close>

definition send_routing_id :: "bytes \<Rightarrow> nat option \<Rightarrow> pipe \<Rightarrow> pipe_world \<Rightarrow> (pipe \<times> pipe_world) option" where
  "send_routing_id b mal p w = do {
     let (rc, m, h1) = msg_init_buffer b mal (pw_heap w);
     zmq_assert (rc = 0);
     (ok, p1, w1) \<leftarrow> pipe_write (set_flags f_routing_id m) p (w\<lparr>pw_heap := h1\<rparr>);
     zmq_assert ok;
     w2 \<leftarrow> pipe_flush p1 w1;
     Some (p1, w2)
   }"

definition send_hello_msg :: "bytes \<Rightarrow> nat option \<Rightarrow> pipe \<Rightarrow> pipe_world \<Rightarrow> (pipe \<times> pipe_world) option" where
  "send_hello_msg b mal p w = do {
     let (rc, m, h1) = msg_init_buffer b mal (pw_heap w);
     zmq_assert (rc = 0);
     (ok, p1, w1) \<leftarrow> pipe_write m p (w\<lparr>pw_heap := h1\<rparr>);
     zmq_assert ok;
     w2 \<leftarrow> pipe_flush p1 w1;
     Some (p1, w2)
   }"

subsection \<open>Watermarks\<close>

lemma unat_of_int_nat: "0 \<le> k \<Longrightarrow> k < 2 ^ 64 \<Longrightarrow> unat (of_int k :: u64) = nat k"
proof -
  assume k: "0 \<le> k" "k < 2 ^ 64"
  then obtain n where n: "k = int n" by (auto dest: nonneg_int_cases)
  with k(2) have "n < 2 ^ 64" by simp
  with n show ?thesis by (simp add: unat_of_nat)
qed

lemma compute_lwm_nonneg: "0 \<le> h \<Longrightarrow> compute_lwm h = (h + 1) div 2"
  by (simp add: compute_lwm_def signed_divide_int_def)

text \<open>The messages written and not yet acknowledged by the reader.\<close>

definition outstanding :: "pipe \<Rightarrow> nat" where
  "outstanding p = unat (msgs_written p - peers_msgs_read p)"

lemma check_hwm_iff: "hwm p < 2 ^ 63 \<Longrightarrow> check_hwm p \<longleftrightarrow> hwm p \<le> 0 \<or> outstanding p < nat (hwm p)"
proof -
  assume h: "hwm p < 2 ^ 63"
  show ?thesis
  proof (cases "hwm p > 0")
    case True
    then have "unat (of_int (hwm p) :: u64) = nat (hwm p)" using h by (intro unat_of_int_nat) simp_all
    with True show ?thesis by (auto simp: check_hwm_def outstanding_def word_le_nat_alt not_le)
  qed (simp add: check_hwm_def)
qed

text \<open>C19: the high watermark bounds the pipe: a write is accepted only while the end is active and below its
  limit, and then at most \<open>hwm\<close> messages are written and unread; a refused write leaves the pipe and its
  contents as they were and, when the limit was the reason, marks the end as not writable.\<close>

theorem pipe_hwm_bound:
  assumes "pipe_write m p w = Some (ok, p', w')" "hwm p < 2 ^ 63"
  shows "(ok \<longleftrightarrow> out_active p \<and> pstate p = active \<and> (hwm p \<le> 0 \<or> outstanding p < nat (hwm p)))
    \<and> (ok \<longrightarrow> hwm p > 0 \<longrightarrow> outstanding p' \<le> nat (hwm p))
    \<and> (\<not> ok \<longrightarrow> w' = w \<and> (p' = p \<or> p' = p\<lparr>out_active := False\<rparr> \<and> nat (hwm p) \<le> outstanding p))"
proof (cases "fst (check_write p)")
  case False
  with assms check_hwm_iff [OF assms(2)] show ?thesis
    by (auto simp: pipe_write_def check_write_def Let_def split: if_splits)
next
  case True
  then have p: "out_active p" "pstate p = active" "check_hwm p" "check_write p = (True, p)"
    by (auto simp: check_write_def split: if_splits)
  with assms(1) have run: "ok" "p' = p \<or> p' = p\<lparr>msgs_written := msgs_written p + 1\<rparr>"
    by (auto simp: pipe_write_def Let_def split: Option.bind_splits if_splits)
  have lim: "hwm p \<le> 0 \<or> outstanding p < nat (hwm p)" using p(3) check_hwm_iff [OF assms(2)] by simp
  have "outstanding p' \<le> nat (hwm p)" if "hwm p > 0"
  proof -
    let ?d = "msgs_written p - peers_msgs_read p"
    have d: "unat ?d < nat (hwm p)" using lim that by (simp add: outstanding_def)
    moreover have "nat (hwm p) < 2 ^ 63" using assms(2) that by simp
    ultimately have "unat ?d + 1 < 2 ^ 64" by simp
    then have "unat (?d + 1) = unat ?d + 1" by (simp add: unat_word_ariths)
    moreover have "msgs_written p + 1 - peers_msgs_read p = ?d + 1" by simp
    ultimately have "unat (msgs_written p + 1 - peers_msgs_read p) = unat ?d + 1" by (simp only:)
    then show ?thesis using run(2) d by (auto simp: outstanding_def)
  qed
  with run p lim show ?thesis by blast
qed

definition idle_world :: pipe_world where
  "idle_world = \<lparr>pw_upipes = [0 \<mapsto> up_new False, 1 \<mapsto> up_new False], pw_heap = mv_heap (no_msgs 0), pw_cmds = [],
     pw_events = [], pw_lock = True\<rparr>"

theorem pipe_hwm_bound_witness:
  "\<exists>p' w'. pipe_write msg_init (new_pipe 0 1 2 2 False) idle_world = Some (True, p', w') \<and> outstanding p' \<le> 2"
proof -
  obtain p' w' where run: "pipe_write msg_init (new_pipe 0 1 2 2 False) idle_world = Some (True, p', w')"
    by (auto simp: pipe_write_def check_write_def check_hwm_def new_pipe_def up_write_at_def get_up_def idle_world_def
        up_new_def Let_def)
  have "outstanding p' \<le> 2" using pipe_hwm_bound [OF run] by (simp add: new_pipe_def)
  with run show ?thesis by blast
qed

text \<open>Reading \<open>n\<close> times; the value of the last acknowledgement among the commands.\<close>

fun pipe_reads :: "nat \<Rightarrow> pipe \<Rightarrow> pipe_world \<Rightarrow> (pipe \<times> pipe_world) option" where
  "pipe_reads 0 p w = Some (p, w)"
| "pipe_reads (Suc n) p w = do { (v, p1, w1) \<leftarrow> pipe_read p w; pipe_reads n p1 w1 }"

fun last_ack :: "u64 \<Rightarrow> pipe_cmd list \<Rightarrow> u64" where
  "last_ack a [] = a"
| "last_ack a (c # cs) = last_ack (case c of ActivateWrite n \<Rightarrow> n | _ \<Rightarrow> a) cs"

lemma last_ack_snoc: "last_ack a (cs @ [c]) = (case c of ActivateWrite n \<Rightarrow> n | _ \<Rightarrow> last_ack a cs)"
  by (induction cs arbitrary: a) (auto split: pipe_cmd.splits)

lemma last_ack_send [simp]:
  "last_ack a (pw_cmds (send_cmd c w)) = (case c of ActivateWrite n \<Rightarrow> n | _ \<Rightarrow> last_ack a (pw_cmds w))"
  by (simp add: send_cmd_def last_ack_snoc)

lemma put_up_fields [simp]:
  "pw_cmds (put_up a u w) = pw_cmds w" "pw_heap (put_up a u w) = pw_heap w" "pw_events (put_up a u w) = pw_events w"
  "pw_lock (put_up a u w) = pw_lock w"
  by (simp_all add: put_up_def split: option.splits)

lemma acknowledge_fields [simp]:
  "pw_upipes (acknowledge p w) = pw_upipes w" "pw_heap (acknowledge p w) = pw_heap w"
  by (simp_all add: acknowledge_def send_cmd_def)

lemma rollback_cmds: "rollback p w = Some w' \<Longrightarrow> pw_cmds w' = pw_cmds w"
  by (auto simp: rollback_def split: option.splits Option.bind_splits)

lemma process_delimiter_ack:
  assumes "process_delimiter p w = Some (p', w')"
  shows "msgs_read p' = msgs_read p \<and> lwm p' = lwm p \<and> last_ack a (pw_cmds w') = last_ack a (pw_cmds w)"
  using assms by (auto simp: process_delimiter_def dest: rollback_cmds split: if_splits Option.bind_splits)

text \<open>The reader acknowledges at every multiple of its low watermark.\<close>

definition acked :: "pipe \<Rightarrow> pipe_world \<Rightarrow> bool" where
  "acked p w \<longleftrightarrow> last_ack 0 (pw_cmds w) = msgs_read p - msgs_read p mod of_int (lwm p)"

lemma word_mod_Suc:
  fixes r l :: "'a::len word"
  assumes "(r + 1) mod l \<noteq> 0" "l \<noteq> 0"
  shows "r + 1 - (r + 1) mod l = r - r mod l"
proof (cases "r + 1 = 0")
  case True
  with assms show ?thesis by simp
next
  case False
  then have r1: "unat (r + 1) = unat r + 1" by (metis add.commute unatSuc Suc_eq_plus1)
  have "(unat r + 1) mod unat l \<noteq> 0" using assms(1) r1 by (metis unat_mod_distrib unat_eq_zero)
  then have "(unat r + 1) div unat l = unat r div unat l" by (metis Suc_eq_plus1 div_Suc)
  then have "unat ((r + 1) div l) = unat (r div l)" using r1 by (simp add: unat_div_distrib)
  then have "(r + 1) div l = r div l" by (simp add: word_unat_eq_iff)
  moreover have "x - x mod l = x div l * l" for x :: "'a word"
    by (metis add_diff_cancel_right' div_mult_mod_eq)
  ultimately show ?thesis by simp
qed

lemma pipe_read_cases:
  assumes "pipe_read p w = Some (v, p', w')"
  obtains (unchanged) "p' = p \<or> p' = p\<lparr>in_active := False\<rparr>" "pw_cmds w' = pw_cmds w"
    | (delimiter) w1 where "process_delimiter p w1 = Some (p', w')" "pw_cmds w1 = pw_cmds w"
    | (message) w1 where "pw_cmds w1 = pw_cmds w" "p' = p \<or> p' = p\<lparr>msgs_read := msgs_read p + 1\<rparr>" "w' = acknowledge p' w1"
proof (cases "in_active p \<and> (pstate p = active \<or> pstate p = waiting_for_delimiter)")
  case False
  with assms have "p' = p" "w' = w" by (auto simp: pipe_read_def split: if_splits)
  with unchanged show ?thesis by simp
next
  case True
  with assms obtain u v0 u' h' where u: "get_up (in_pipe p) w = Some u" "read_skip u (pw_heap w) = Some (v0, u', h')"
    by (auto simp: pipe_read_def split: Option.bind_splits if_splits)
  define w1 where "w1 = (put_up (in_pipe p) u' w)\<lparr>pw_heap := h'\<rparr>"
  have w1: "pw_cmds w1 = pw_cmds w" by (simp add: w1_def)
  have run: "(case v0 of None \<Rightarrow> Some (None, p\<lparr>in_active := False\<rparr>, w1)
      | Some m \<Rightarrow> if is_delimiter m then do { (p', w') \<leftarrow> process_delimiter p w1; Some (None, p', w') }
          else let p1 = (if \<not> has_flag f_more m \<and> \<not> is_routing_id m then p\<lparr>msgs_read := msgs_read p + 1\<rparr> else p)
               in Some (Some m, p1, acknowledge p1 w1)) = Some (v, p', w')"
    using assms True u unfolding w1_def by (auto simp: pipe_read_def Let_def)
  show ?thesis
  proof (cases v0)
    case None
    with run w1 unchanged show ?thesis by simp
  next
    case (Some m)
    show ?thesis
    proof (cases "is_delimiter m")
      case True
      with run Some have "process_delimiter p w1 = Some (p', w')" by (auto split: Option.bind_splits)
      with w1 delimiter show ?thesis by simp
    next
      case False
      with run Some have "p' = p \<or> p' = p\<lparr>msgs_read := msgs_read p + 1\<rparr>" "w' = acknowledge p' w1"
        by (auto simp: Let_def split: if_splits)
      with w1 message show ?thesis by simp
    qed
  qed
qed

lemma pipe_read_acked:
  assumes "acked p w" "0 < lwm p" "lwm p < 2 ^ 63" "pipe_read p w = Some (v, p', w')"
  shows "acked p' w' \<and> lwm p' = lwm p"
proof -
  let ?l = "of_int (lwm p) :: u64"
  have "unat ?l = nat (lwm p)" using assms(2,3) by (intro unat_of_int_nat) simp_all
  then have l: "?l \<noteq> 0" using assms(2) by (auto simp: word_unat_eq_iff)
  have ack: "last_ack 0 (pw_cmds (acknowledge q w1)) =
      (if msgs_read q mod ?l = 0 then msgs_read q else last_ack 0 (pw_cmds w))"
    if "lwm q = lwm p" "pw_cmds w1 = pw_cmds w" for q w1
    using that assms(2) by (simp add: acknowledge_def)
  show ?thesis
    using assms(4)
  proof (cases rule: pipe_read_cases)
    case unchanged
    with assms(1) show ?thesis by (auto simp: acked_def)
  next
    case delimiter
    with assms(1) process_delimiter_ack [OF delimiter(1), of 0] show ?thesis by (simp add: acked_def)
  next
    case message
    have q: "lwm p' = lwm p" using message(2) by auto
    have "msgs_read p' - msgs_read p' mod ?l = last_ack 0 (pw_cmds w)" if m: "msgs_read p' mod ?l \<noteq> 0"
      using message(2)
    proof
      assume "p' = p"
      with assms(1) show ?thesis by (simp add: acked_def)
    next
      assume "p' = p\<lparr>msgs_read := msgs_read p + 1\<rparr>"
      then have r: "msgs_read p' = msgs_read p + 1" by simp
      have "msgs_read p' - msgs_read p' mod ?l = msgs_read p - msgs_read p mod ?l"
        using m unfolding r by (rule word_mod_Suc [OF _ l])
      with assms(1) show ?thesis by (simp only: acked_def)
    qed
    with ack [OF q message(1)] show ?thesis unfolding message(3) acked_def q by simp
  qed
qed

lemma pipe_reads_acked:
  "acked p w \<Longrightarrow> 0 < lwm p \<Longrightarrow> lwm p < 2 ^ 63 \<Longrightarrow> pipe_reads n p w = Some (p', w') \<Longrightarrow> acked p' w' \<and> lwm p' = lwm p"
proof (induction n arbitrary: p w)
  case (Suc n)
  then obtain v p1 w1 where "pipe_read p w = Some (v, p1, w1)" "pipe_reads n p1 w1 = Some (p', w')"
    by (auto split: Option.bind_splits)
  moreover from this(1) have "acked p1 w1 \<and> lwm p1 = lwm p" using Suc.prems by (intro pipe_read_acked) simp_all
  ultimately show ?case using Suc.IH [of p1 w1] Suc.prems(2,3) by simp
qed simp


lemma read_skip_plain:
  "rd q < wr q \<Longrightarrow> \<not> is_credential (hist q ! rd q) \<Longrightarrow>
   read_skip (Normal q) h = Some (Some (hist q ! rd q), Normal (q\<lparr>rd := rd q + 1\<rparr>), h)"
  by (subst read_skip.simps) (simp add: pq_read_def)

lemma msg_init_flags [simp]:
  "\<not> is_credential msg_init" "\<not> is_routing_id msg_init" "\<not> is_delimiter msg_init" "\<not> has_flag f_more msg_init"
  by (simp_all add: is_credential_def is_routing_id_def is_delimiter_def has_flag_def msg_init_def fresh_msg_def flag_defs)


end
