(* ===== verification/Arr.thy ===== *)
theory Arr
  imports Prelude
begin

text \<open>
  \<^verbatim>\<open>array_t\<close> (array.hpp): a vector of object pointers in which every object stores its own
  position, so that erasing and swapping take constant time. The model keeps the stored
  positions beside the vector; the theorem of this theory shows that they stay right, after
  which the clients (the context's sockets, the fair queue, the load balancer, the
  distributor) work on plain lists with \<open>swap_out\<close> and \<open>list_swap\<close>.
\<close>

record 'a array =
  items :: "'a list"
  array_index :: "'a \<Rightarrow> int"

definition arr_empty :: "('a \<Rightarrow> int) \<Rightarrow> 'a array" where
  "arr_empty ix = \<lparr>items = [], array_index = ix\<rparr>"

definition arr_push_back :: "'a \<Rightarrow> 'a array \<Rightarrow> 'a array" where
  "arr_push_back x a =
     \<lparr>items = items a @ [x], array_index = (array_index a)(x := int (length (items a)))\<rparr>"

definition arr_erase_at :: "nat \<Rightarrow> 'a array \<Rightarrow> 'a array option" where
  "arr_erase_at i a =
     (if items a = [] then Some a
      else do {
        its \<leftarrow> tab_set (items a) i (last (items a));
        Some \<lparr>items = butlast its, array_index = (array_index a)(last (items a) := int i)\<rparr>
      })"

definition arr_erase :: "'a \<Rightarrow> 'a array \<Rightarrow> 'a array option" where
  "arr_erase x a = arr_erase_at (nat (array_index a x)) a"

definition arr_swap :: "nat \<Rightarrow> nat \<Rightarrow> 'a array \<Rightarrow> 'a array option" where
  "arr_swap i j a = do {
     x \<leftarrow> tab_get (items a) i;
     y \<leftarrow> tab_get (items a) j;
     Some \<lparr>items = (items a)[i := y, j := x], array_index = (array_index a)(x := int j, y := int i)\<rparr>
   }"

text \<open>The same on lists, with the position found by search.\<close>

definition pos :: "'a \<Rightarrow> 'a list \<Rightarrow> nat" where
  "pos x xs = length (takeWhile (\<lambda>y. y \<noteq> x) xs)"

definition swap_out :: "nat \<Rightarrow> 'a list \<Rightarrow> 'a list" where
  "swap_out i xs = butlast (xs[i := last xs])"

definition list_swap :: "nat \<Rightarrow> nat \<Rightarrow> 'a list \<Rightarrow> 'a list" where
  "list_swap i j xs = xs[i := xs ! j, j := xs ! i]"

lemma pos_nth: "distinct xs \<Longrightarrow> i < length xs \<Longrightarrow> pos (xs ! i) xs = i"
  unfolding pos_def
proof (induction xs arbitrary: i)
  case (Cons x xs)
  then show ?case by (cases i) auto
qed simp

lemma nth_pos: "x \<in> set xs \<Longrightarrow> pos x xs < length xs \<and> xs ! pos x xs = x"
  unfolding pos_def by (induction xs) auto

lemma pos_less: "pos x xs < length xs \<Longrightarrow> x \<in> set xs"
  unfolding pos_def by (induction xs) (auto split: if_splits)

lemma list_swap_simps [simp]:
  "length (list_swap i j xs) = length xs"
  "i < length xs \<Longrightarrow> j < length xs \<Longrightarrow> set (list_swap i j xs) = set xs"
  "i < length xs \<Longrightarrow> j < length xs \<Longrightarrow> distinct (list_swap i j xs) = distinct xs"
  by (auto simp: list_swap_def distinct_swap) 

lemma nth_list_swap:
  "i < length xs \<Longrightarrow> j < length xs \<Longrightarrow> k < length xs \<Longrightarrow>
   list_swap i j xs ! k = (if k = j then xs ! i else if k = i then xs ! j else xs ! k)"
  by (auto simp: list_swap_def nth_list_update)

lemma length_swap_out [simp]: "length (swap_out i xs) = length xs - 1"
  by (simp add: swap_out_def)

lemma nth_swap_out:
  "k < length xs - 1 \<Longrightarrow> swap_out i xs ! k = (if k = i then last xs else xs ! k)"
  by (auto simp: swap_out_def nth_butlast nth_list_update)

lemma set_swap_out:
  assumes "distinct xs" "i < length xs"
  shows "set (swap_out i xs) = set xs - {xs ! i}" and "distinct (swap_out i xs)"
proof -
  obtain ys y where xs: "xs = ys @ [y]" using assms(2) by (cases xs rule: rev_cases) auto
  have "swap_out i xs = (if i = length ys then ys else ys[i := y])"
    using assms(2) by (auto simp: swap_out_def xs butlast_append nth_append list_update_append)
  moreover have "set (ys[i := y]) = insert y (set ys - {ys ! i})" if "i < length ys"
    using assms(1) that by (simp add: xs set_update_distinct)
  ultimately show "set (swap_out i xs) = set xs - {xs ! i}" "distinct (swap_out i xs)"
    using assms by (auto simp: xs nth_append distinct_list_update)
qed

text \<open>Positions are right and no object is in the array twice.\<close>

definition arr_inv :: "'a array \<Rightarrow> bool" where
  "arr_inv a \<longleftrightarrow> distinct (items a) \<and> (\<forall>i < length (items a). array_index a (items a ! i) = int i)"

lemma arr_inv_index: "arr_inv a \<Longrightarrow> x \<in> set (items a) \<Longrightarrow> array_index a x = int (pos x (items a))"
  using nth_pos [of x "items a"] by (auto simp: arr_inv_def)

lemma arr_push_back_inv: "arr_inv a \<Longrightarrow> x \<notin> set (items a) \<Longrightarrow> arr_inv (arr_push_back x a)"
  by (auto simp: arr_inv_def arr_push_back_def nth_append less_Suc_eq)

lemma arr_erase_refines:
  assumes "arr_inv a" "x \<in> set (items a)"
  shows "\<exists>a'. arr_erase x a = Some a' \<and> items a' = swap_out (pos x (items a)) (items a) \<and> arr_inv a'"
proof -
  let ?xs = "items a" and ?i = "pos x (items a)"
  have i: "?i < length ?xs" "?xs ! ?i = x" using nth_pos [OF assms(2)] by auto
  have ne: "?xs \<noteq> []" using assms(2) by auto
  define a' where "a' = \<lparr>items = swap_out ?i ?xs, array_index = (array_index a)(last ?xs := int ?i)\<rparr>"
  have run: "arr_erase x a = Some a'"
    using i ne arr_inv_index [OF assms] by (simp add: arr_erase_def arr_erase_at_def a'_def swap_out_def)
  have "array_index a' (items a' ! k) = int k" if "k < length (items a')" for k
  proof (cases "k = ?i")
    case False
    have "?xs ! k \<noteq> last ?xs"
      using that assms(1) ne by (auto simp: a'_def arr_inv_def last_conv_nth nth_eq_iff_index_eq)
    with that False assms(1) show ?thesis by (auto simp: a'_def nth_swap_out arr_inv_def)
  qed (use that in \<open>simp add: a'_def nth_swap_out\<close>)
  moreover have "distinct (items a')" using set_swap_out(2) [OF _ i(1)] assms(1) by (simp add: a'_def arr_inv_def)
  ultimately show ?thesis using run by (auto simp: a'_def arr_inv_def)
qed

lemma arr_swap_refines:
  assumes "arr_inv a" "i < length (items a)" "j < length (items a)"
  shows "\<exists>a'. arr_swap i j a = Some a' \<and> items a' = list_swap i j (items a) \<and> arr_inv a'"
proof -
  let ?xs = "items a"
  define a' where "a' = \<lparr>items = list_swap i j ?xs, array_index = (array_index a)(?xs ! i := int j, ?xs ! j := int i)\<rparr>"
  have run: "arr_swap i j a = Some a'"
    using assms(2,3) by (simp add: arr_swap_def a'_def list_swap_def)
  have "array_index a' (items a' ! k) = int k" if "k < length (items a')" for k
    using that assms by (auto simp: a'_def nth_list_swap arr_inv_def nth_eq_iff_index_eq)
  with run assms show ?thesis by (auto simp: a'_def arr_inv_def)
qed

datatype 'a arr_op = PushBack 'a | Erase 'a | Swap nat nat

fun arr_apply :: "'a arr_op \<Rightarrow> 'a array \<Rightarrow> 'a array option" where
  "arr_apply (PushBack x) a = Some (arr_push_back x a)"
| "arr_apply (Erase x) a = arr_erase x a"
| "arr_apply (Swap i j) a = arr_swap i j a"

fun list_apply :: "'a arr_op \<Rightarrow> 'a list \<Rightarrow> 'a list option" where
  "list_apply (PushBack x) xs = (if x \<in> set xs then None else Some (xs @ [x]))"
| "list_apply (Erase x) xs = (if x \<in> set xs then Some (swap_out (pos x xs) xs) else None)"
| "list_apply (Swap i j) xs = (if i < length xs \<and> j < length xs then Some (list_swap i j xs) else None)"

fun arr_run :: "'a arr_op list \<Rightarrow> 'a array \<Rightarrow> 'a array option" where
  "arr_run [] a = Some a"
| "arr_run (x # xs) a = arr_apply x a \<bind> arr_run xs"

fun list_run :: "'a arr_op list \<Rightarrow> 'a list \<Rightarrow> 'a list option" where
  "list_run [] a = Some a"
| "list_run (x # xs) a = list_apply x a \<bind> list_run xs"

lemma arr_apply_refines:
  assumes "arr_inv a" "list_apply x (items a) = Some xs"
  shows "\<exists>a'. arr_apply x a = Some a' \<and> items a' = xs \<and> arr_inv a'"
proof (cases x)
  case (PushBack y)
  with assms arr_push_back_inv [of a y] show ?thesis by (auto simp: arr_push_back_def split: if_splits)
next
  case (Erase y)
  with assms arr_erase_refines [of a y] show ?thesis by (auto split: if_splits)
next
  case (Swap i j)
  with assms arr_swap_refines [of a i j] show ?thesis by (auto split: if_splits)
qed

text \<open>The positions stored in the objects of an array are always right: any sequence of pushes of new
  objects, erasures of objects in the array and swaps of valid positions runs without an
  access outside the vector, leaves the vector a list of the same operations would leave, and
  every object in it knows its position.\<close>

theorem array_positions:
  assumes "list_run ops [] = Some xs"
  shows "\<exists>a. arr_run ops (arr_empty ix) = Some a \<and> items a = xs \<and> distinct xs
    \<and> (\<forall>i < length xs. array_index a (xs ! i) = int i)"
proof -
  have *: "\<exists>a'. arr_run ops a = Some a' \<and> items a' = xs \<and> arr_inv a'"
    if "arr_inv a" "list_run ops (items a) = Some xs" for a
    using that
  proof (induction ops arbitrary: a)
    case (Cons x ops)
    then obtain ys where "list_apply x (items a) = Some ys" "list_run ops ys = Some xs"
      by (auto split: Option.bind_splits)
    with Cons arr_apply_refines [OF Cons.prems(1), of x ys] show ?case by force
  qed simp
  show ?thesis using * [of "arr_empty ix"] assms by (auto simp: arr_inv_def arr_empty_def)
qed

theorem array_positions_witness:
  "\<exists>a. arr_run [PushBack 5, PushBack 7, PushBack (9 :: nat), Swap 0 2, Erase 9] (arr_empty (\<lambda>_. 0)) = Some a
     \<and> items a = [5, 7] \<and> array_index a 5 = 0 \<and> array_index a 7 = 1"
proof -
  have "list_run [PushBack 5, PushBack 7, PushBack (9 :: nat), Swap 0 2, Erase 9] [] = Some [5, 7]"
    by (simp add: list_swap_def swap_out_def pos_def)
  from array_positions [OF this, of "\<lambda>_. 0"] obtain a where a:
    "arr_run [PushBack 5, PushBack 7, PushBack (9 :: nat), Swap 0 2, Erase 9] (arr_empty (\<lambda>_. 0)) = Some a"
    "items a = [5, 7]" "\<forall>i < length [5, 7 :: nat]. array_index a ([5, 7] ! i) = int i" by blast
  have "array_index a 5 = 0" using spec [OF a(3), of 0] by simp
  moreover have "array_index a 7 = 1" using spec [OF a(3), of 1] by simp
  ultimately show ?thesis using a by blast
qed

end
