(* ===== verification/Ctx.thy ===== *)
theory Ctx
  imports Arr
begin

text \<open>
  The context (ctx.cpp, ctx.hpp) with the parts of reaper.cpp and socket_base.cpp that take part in
  opening, closing and reaping sockets. A context is the record \<open>ctx\<close>; its sockets live in a map
  from addresses to \<open>sock\<close>. What the operating system answers (is there memory, does a mailbox get
  its file descriptors, how many descriptors can the poller watch) is an argument. Commands
  between threads are queued: the reaper's mailbox is a list and each of its commands is
  handled in a step of its own, so the steps interleave with the calls of the application.
  Pending inproc connections are not part of the model; the mutexes make the operations atomic.
\<close>

subsection \<open>Options\<close>

definition ZMQ_IO_THREADS_opt :: int where "ZMQ_IO_THREADS_opt = 1"
definition ZMQ_MAX_SOCKETS :: int where "ZMQ_MAX_SOCKETS = 2"
definition ZMQ_SOCKET_LIMIT :: int where "ZMQ_SOCKET_LIMIT = 3"
definition ZMQ_THREAD_PRIORITY :: int where "ZMQ_THREAD_PRIORITY = 3"
definition ZMQ_THREAD_SCHED_POLICY :: int where "ZMQ_THREAD_SCHED_POLICY = 4"
definition ZMQ_MAX_MSGSZ :: int where "ZMQ_MAX_MSGSZ = 5"
definition ZMQ_MSG_T_SIZE :: int where "ZMQ_MSG_T_SIZE = 6"
definition ZMQ_THREAD_AFFINITY_CPU_ADD :: int where "ZMQ_THREAD_AFFINITY_CPU_ADD = 7"
definition ZMQ_THREAD_AFFINITY_CPU_REMOVE :: int where "ZMQ_THREAD_AFFINITY_CPU_REMOVE = 8"
definition ZMQ_THREAD_NAME_PREFIX :: int where "ZMQ_THREAD_NAME_PREFIX = 9"
definition ZMQ_ZERO_COPY_RECV :: int where "ZMQ_ZERO_COPY_RECV = 10"
definition ZMQ_IPV6 :: int where "ZMQ_IPV6 = 42"
definition ZMQ_BLOCKY :: int where "ZMQ_BLOCKY = 70"
definition INT_MAX :: int where "INT_MAX = 2147483647"

lemmas ctx_options = ZMQ_IO_THREADS_opt_def ZMQ_MAX_SOCKETS_def ZMQ_SOCKET_LIMIT_def ZMQ_THREAD_PRIORITY_def
  ZMQ_THREAD_SCHED_POLICY_def ZMQ_MAX_MSGSZ_def ZMQ_MSG_T_SIZE_def ZMQ_THREAD_AFFINITY_CPU_ADD_def
  ZMQ_THREAD_AFFINITY_CPU_REMOVE_def ZMQ_THREAD_NAME_PREFIX_def ZMQ_ZERO_COPY_RECV_def ZMQ_IPV6_def ZMQ_BLOCKY_def

text \<open>An option value: four bytes are an \<^verbatim>\<open>int\<close>, anything else is a buffer.\<close>

datatype optval = IntVal int | BufVal string

datatype mbox = TermBox | ReaperBox | IoBox nat | SockBox nat

datatype rcmd = RStop | RReap nat | RReaped

record reaper =
  r_mailbox :: "rcmd list"
  r_sockets :: nat
  r_terminating :: bool

record ctx =
  c_sockets :: "nat list"
  empty_slots :: "nat list"
  starting :: bool
  terminating :: bool
  c_reaper :: "reaper option"
  io_threads :: "nat list"
  slots :: "mbox option list"
  term_done :: nat
  max_sockets :: int
  max_msgsz :: int
  io_thread_count :: int
  blocky :: bool
  ipv6 :: bool
  zero_copy :: bool
  thread_priority :: int
  thread_sched_policy :: int
  thread_affinity_cpus :: "int list"
  thread_name_prefix :: string

definition clipped_maxsocket :: "int \<Rightarrow> int \<Rightarrow> int" where
  "clipped_maxsocket max_fds n = (if n \<ge> max_fds \<and> max_fds \<noteq> -1 then max_fds - 1 else n)"

definition ctx_new :: "int \<Rightarrow> ctx" where
  "ctx_new max_fds = \<lparr>c_sockets = [], empty_slots = [], starting = True, terminating = False, c_reaper = None,
     io_threads = [], slots = [], term_done = 0, max_sockets = clipped_maxsocket max_fds 1023,
     max_msgsz = INT_MAX, io_thread_count = 1, blocky = True, ipv6 = False, zero_copy = True,
     thread_priority = -1, thread_sched_policy = -1, thread_affinity_cpus = [], thread_name_prefix = []\<rparr>"

text \<open>\<^verbatim>\<open>ostringstream << int\<close> and \<^verbatim>\<open>atoi\<close> (for values in the range of \<^verbatim>\<open>int\<close>).\<close>

definition int_to_string :: "int \<Rightarrow> string" where
  "int_to_string n = (if n < 0 then CHR ''-'' # to_string (nat (- n)) else to_string (nat n))"

definition is_digit :: "char \<Rightarrow> bool" where
  "is_digit ch \<longleftrightarrow> 48 \<le> (of_char ch :: nat) \<and> (of_char ch :: nat) \<le> 57"

definition is_space :: "char \<Rightarrow> bool" where
  "is_space ch \<longleftrightarrow> of_char ch = (32 :: nat) \<or> 9 \<le> (of_char ch :: nat) \<and> (of_char ch :: nat) \<le> 13"

definition digits_value :: "string \<Rightarrow> nat" where
  "digits_value s = foldl (\<lambda>v ch. v * 10 + (of_char ch - 48)) 0 (takeWhile is_digit s)"

definition atoi :: "string \<Rightarrow> int" where
  "atoi s = (case dropWhile is_space s of
     [] \<Rightarrow> 0
   | ch # r \<Rightarrow> if ch = CHR ''-'' then - int (digits_value r)
              else if ch = CHR ''+'' then int (digits_value r) else int (digits_value (ch # r)))"

definition thread_ctx_set :: "int \<Rightarrow> optval \<Rightarrow> ctx \<Rightarrow> errno option \<times> ctx" where
  "thread_ctx_set opt v c = (case v of
     IntVal n \<Rightarrow>
       if opt = ZMQ_THREAD_SCHED_POLICY \<and> n \<ge> 0 then (None, c\<lparr>thread_sched_policy := n\<rparr>)
       else if opt = ZMQ_THREAD_AFFINITY_CPU_ADD \<and> n \<ge> 0
         then (None, c\<lparr>thread_affinity_cpus := List.insert n (thread_affinity_cpus c)\<rparr>)
       else if opt = ZMQ_THREAD_AFFINITY_CPU_REMOVE \<and> n \<ge> 0
         then (if n \<in> set (thread_affinity_cpus c)
               then (None, c\<lparr>thread_affinity_cpus := removeAll n (thread_affinity_cpus c)\<rparr>) else (Some EINVAL, c))
       else if opt = ZMQ_THREAD_PRIORITY \<and> n \<ge> 0 then (None, c\<lparr>thread_priority := n\<rparr>)
       else if opt = ZMQ_THREAD_NAME_PREFIX then (None, c\<lparr>thread_name_prefix := int_to_string n\<rparr>)
       else (Some EINVAL, c)
   | BufVal s \<Rightarrow>
       if opt = ZMQ_THREAD_NAME_PREFIX \<and> 0 < length s \<and> length s \<le> 16
       then (None, c\<lparr>thread_name_prefix := s\<rparr>) else (Some EINVAL, c))"

definition ctx_set :: "int \<Rightarrow> int \<Rightarrow> optval \<Rightarrow> ctx \<Rightarrow> errno option \<times> ctx" where
  "ctx_set max_fds opt v c =
     (let is_int = (case v of IntVal _ \<Rightarrow> True | _ \<Rightarrow> False);
          value = (case v of IntVal n \<Rightarrow> n | _ \<Rightarrow> 0)
      in if opt = ZMQ_MAX_SOCKETS then
           (if is_int \<and> value \<ge> 1 \<and> value = clipped_maxsocket max_fds value
            then (None, c\<lparr>max_sockets := value\<rparr>) else (Some EINVAL, c))
         else if opt = ZMQ_IO_THREADS_opt then
           (if is_int \<and> value \<ge> 0 then (None, c\<lparr>io_thread_count := value\<rparr>) else (Some EINVAL, c))
         else if opt = ZMQ_IPV6 then
           (if is_int \<and> value \<ge> 0 then (None, c\<lparr>ipv6 := (value \<noteq> 0)\<rparr>) else (Some EINVAL, c))
         else if opt = ZMQ_BLOCKY then
           (if is_int \<and> value \<ge> 0 then (None, c\<lparr>blocky := (value \<noteq> 0)\<rparr>) else (Some EINVAL, c))
         else if opt = ZMQ_MAX_MSGSZ then
           (if is_int \<and> value \<ge> 0
            then (None, c\<lparr>max_msgsz := (if value < INT_MAX then value else INT_MAX)\<rparr>) else (Some EINVAL, c))
         else if opt = ZMQ_ZERO_COPY_RECV then
           (if is_int \<and> value \<ge> 0 then (None, c\<lparr>zero_copy := (value \<noteq> 0)\<rparr>) else (Some EINVAL, c))
         else thread_ctx_set opt v c)"

text \<open>\<^verbatim>\<open>get\<close> with an \<^verbatim>\<open>int\<close> to fill in; \<open>None\<close> is EINVAL.\<close>

definition thread_ctx_get :: "int \<Rightarrow> ctx \<Rightarrow> int option" where
  "thread_ctx_get opt c =
     (if opt = ZMQ_THREAD_SCHED_POLICY then Some (thread_sched_policy c)
      else if opt = ZMQ_THREAD_NAME_PREFIX then Some (atoi (thread_name_prefix c))
      else None)"

definition ctx_get :: "int \<Rightarrow> int \<Rightarrow> ctx \<Rightarrow> int option" where
  "ctx_get max_fds opt c =
     (if opt = ZMQ_MAX_SOCKETS then Some (max_sockets c)
      else if opt = ZMQ_SOCKET_LIMIT then Some (clipped_maxsocket max_fds 65535)
      else if opt = ZMQ_IO_THREADS_opt then Some (io_thread_count c)
      else if opt = ZMQ_IPV6 then Some (of_bool (ipv6 c))
      else if opt = ZMQ_BLOCKY then Some (of_bool (blocky c))
      else if opt = ZMQ_MAX_MSGSZ then Some (max_msgsz c)
      else if opt = ZMQ_MSG_T_SIZE then Some 64
      else if opt = ZMQ_ZERO_COPY_RECV then Some (of_bool (zero_copy c))
      else thread_ctx_get opt c)"

subsection \<open>Starting the threads\<close>

datatype creation = NoMem | BadMailbox | Created

record start_env =
  reserve_ok :: bool
  new_reaper :: creation
  new_io :: "nat \<Rightarrow> creation"

definition fresh_reaper :: reaper where
  "fresh_reaper = \<lparr>r_mailbox = [], r_sockets = 0, r_terminating = False\<rparr>"

text \<open>The label \<^verbatim>\<open>fail_cleanup_reaper\<close>. The reaper was started: it handles the stop command, sends
  \<^verbatim>\<open>done\<close> to the context's own mailbox and is joined when it is deleted.\<close>

definition fail_cleanup_reaper :: "ctx \<Rightarrow> ctx" where
  "fail_cleanup_reaper c = c\<lparr>term_done := term_done c + 1, c_reaper := None, slots := []\<rparr>"

fun start_io :: "(nat \<Rightarrow> creation) \<Rightarrow> nat list \<Rightarrow> ctx \<Rightarrow> errno option \<times> ctx" where
  "start_io io [] c = (None, c)"
| "start_io io (i # is) c = (case io i of
     NoMem \<Rightarrow> (Some ENOMEM, fail_cleanup_reaper c)
   | BadMailbox \<Rightarrow> (Some EMFILE, fail_cleanup_reaper c)
   | Created \<Rightarrow> start_io io is (c\<lparr>io_threads := io_threads c @ [i],
       slots := (slots c)[i := Some (IoBox (length (io_threads c)))]\<rparr>))"

definition start :: "start_env \<Rightarrow> ctx \<Rightarrow> (errno option \<times> ctx) option" where
  "start env c =
     (if max_sockets c + io_thread_count c + 2 > INT_MAX then None
      else
        (let ios = nat (io_thread_count c); slot_count = nat (max_sockets c) + ios + 2
         in Some
           (if \<not> reserve_ok env then (Some ENOMEM, c)
            else case new_reaper env of
                NoMem \<Rightarrow> (Some ENOMEM, c\<lparr>slots := []\<rparr>)
              | BadMailbox \<Rightarrow> (Some EMFILE, c\<lparr>slots := []\<rparr>)
              | Created \<Rightarrow>
                  (case start_io (new_io env) [2 ..< ios + 2]
                      (c\<lparr>slots := [Some TermBox, Some ReaperBox] @ replicate (slot_count - 2) None,
                         c_reaper := Some fresh_reaper\<rparr>) of
                     (Some e, c') \<Rightarrow> (Some e, c')
                   | (None, c') \<Rightarrow>
                       (None, c'\<lparr>empty_slots := empty_slots c' @ rev [ios + 2 ..< slot_count], starting := False\<rparr>)))))"

subsection \<open>Sockets\<close>

datatype sock_phase = Open | Closed | Reaping

record sock =
  s_type :: int
  s_ctx :: nat
  s_tid :: nat
  s_sid :: int
  s_phase :: sock_phase
  s_stop :: bool

type_synonym socks = "nat \<Rightarrow> sock option"

text \<open>\<^verbatim>\<open>socket_base_t::create\<close>: \<open>mb\<close> is the error of a mailbox that gets no descriptors.\<close>

definition socket_create :: "errno option \<Rightarrow> int \<Rightarrow> nat \<Rightarrow> nat \<Rightarrow> int \<Rightarrow> errno + sock" where
  "socket_create mb ty a tid sid =
     (if ty < 0 \<or> ty > 20 then Inl EINVAL
      else case mb of
          Some e \<Rightarrow> Inl e
        | None \<Rightarrow> Inr \<lparr>s_type = ty, s_ctx = a, s_tid = tid, s_sid = sid, s_phase = Open, s_stop = False\<rparr>)"

text \<open>\<^verbatim>\<open>create_socket\<close>: \<open>a\<close> is the address of the context, \<open>s\<close> the address of the new object, \<open>ids\<close> the
  process-wide socket counter. The second half, once the threads run, is \<open>take_slot\<close>.\<close>

definition take_slot ::
  "errno option \<Rightarrow> nat \<Rightarrow> nat \<Rightarrow> int \<Rightarrow> u32 \<Rightarrow> ctx \<Rightarrow> socks \<Rightarrow> ((errno + nat) \<times> u32 \<times> ctx \<times> socks) option" where
  "take_slot mb a s ty ids c m =
     (if empty_slots c = [] then Some (Inl EMFILE, ids, c, m)
      else
        (let slot = last (empty_slots c); c1 = c\<lparr>empty_slots := butlast (empty_slots c)\<rparr>; sid = sint ids + 1
         in case socket_create mb ty a slot sid of
              Inl er \<Rightarrow> Some (Inl er, ids + 1, c1\<lparr>empty_slots := empty_slots c1 @ [slot]\<rparr>, m)
            | Inr k \<Rightarrow> do {
                sl \<leftarrow> tab_set (slots c1) slot (Some (SockBox s));
                Some (Inr s, ids + 1, c1\<lparr>c_sockets := c_sockets c1 @ [s], slots := sl\<rparr>, m(s \<mapsto> k))
              }))"

definition create_socket ::
  "start_env \<Rightarrow> errno option \<Rightarrow> nat \<Rightarrow> nat \<Rightarrow> int \<Rightarrow> u32 \<Rightarrow> ctx \<Rightarrow> socks
    \<Rightarrow> ((errno + nat) \<times> u32 \<times> ctx \<times> socks) option" where
  "create_socket env mb a s ty ids c m =
     (if terminating c then Some (Inl ETERM, ids, c, m)
      else do {
        (e, c1) \<leftarrow> (if starting c then start env c else Some (None, c));
        (case e of
           Some er \<Rightarrow> Some (Inl er, ids, c1, m)
         | None \<Rightarrow> take_slot mb a s ty ids c1 m)
      })"

definition reaper_send :: "rcmd \<Rightarrow> ctx \<Rightarrow> ctx option" where
  "reaper_send cmd c = do {
     r \<leftarrow> c_reaper c;
     Some (c\<lparr>c_reaper := Some (r\<lparr>r_mailbox := r_mailbox r @ [cmd]\<rparr>)\<rparr>)
   }"

definition destroy_socket :: "nat \<Rightarrow> sock \<Rightarrow> ctx \<Rightarrow> ctx option" where
  "destroy_socket s k c = do {
     sl \<leftarrow> tab_set (slots c) (s_tid k) None;
     let c1 = c\<lparr>empty_slots := empty_slots c @ [s_tid k], slots := sl,
                c_sockets := swap_out (pos s (c_sockets c)) (c_sockets c)\<rparr>;
     (if terminating c1 \<and> c_sockets c1 = [] then reaper_send RStop c1 else Some c1)
   }"

text \<open>\<^verbatim>\<open>socket_base_t::close\<close>, and \<^verbatim>\<open>check_destroy\<close> of a socket that has shut down.\<close>

definition socket_close :: "nat \<Rightarrow> sock \<Rightarrow> ctx \<Rightarrow> socks \<Rightarrow> (ctx \<times> socks) option" where
  "socket_close s k c m = do {
     c' \<leftarrow> reaper_send (RReap s) c;
     Some (c', m(s \<mapsto> k\<lparr>s_phase := Closed\<rparr>))
   }"

definition check_destroy :: "nat \<Rightarrow> sock \<Rightarrow> ctx \<Rightarrow> socks \<Rightarrow> (ctx \<times> socks) option" where
  "check_destroy s k c m = do {
     c1 \<leftarrow> destroy_socket s k c;
     c2 \<leftarrow> reaper_send RReaped c1;
     Some (c2, m(s := None))
   }"

subsection \<open>The reaper\<close>

definition process_stop :: "reaper \<Rightarrow> ctx \<Rightarrow> ctx" where
  "process_stop r c =
     (let c1 = c\<lparr>c_reaper := Some (r\<lparr>r_terminating := True\<rparr>)\<rparr>
      in if r_sockets r = 0 then c1\<lparr>term_done := term_done c1 + 1\<rparr> else c1)"

text \<open>\<^verbatim>\<open>start_reaping\<close> hands the socket to the reaper; when the socket can be destroyed at once, that
  is the step \<open>check_destroy\<close> right after this one.\<close>

definition process_reap :: "nat \<Rightarrow> reaper \<Rightarrow> ctx \<Rightarrow> socks \<Rightarrow> (ctx \<times> socks) option" where
  "process_reap s r c m = do {
     k \<leftarrow> m s;
     Some (c\<lparr>c_reaper := Some (r\<lparr>r_sockets := r_sockets r + 1\<rparr>)\<rparr>, m(s \<mapsto> k\<lparr>s_phase := Reaping\<rparr>))
   }"

definition process_reaped :: "reaper \<Rightarrow> ctx \<Rightarrow> ctx" where
  "process_reaped r c =
     (let r1 = r\<lparr>r_sockets := r_sockets r - 1\<rparr>; c1 = c\<lparr>c_reaper := Some r1\<rparr>
      in if r_sockets r1 = 0 \<and> r_terminating r1 then c1\<lparr>term_done := term_done c1 + 1\<rparr> else c1)"

text \<open>One command of the reaper's mailbox.\<close>

definition reaper_in_event :: "ctx \<Rightarrow> socks \<Rightarrow> (ctx \<times> socks) option" where
  "reaper_in_event c m = (case c_reaper c of
     None \<Rightarrow> None
   | Some r \<Rightarrow> (case r_mailbox r of
       [] \<Rightarrow> Some (c, m)
     | cmd # cmds \<Rightarrow>
         (let r1 = r\<lparr>r_mailbox := cmds\<rparr>
          in case cmd of
               RStop \<Rightarrow> Some (process_stop r1 c, m)
             | RReap s \<Rightarrow> process_reap s r1 c m
             | RReaped \<Rightarrow> Some (process_reaped r1 c, m))))"

subsection \<open>Shutting down\<close>

definition stop_sockets :: "nat list \<Rightarrow> socks \<Rightarrow> socks" where
  "stop_sockets ss m = (\<lambda>s. if s \<in> set ss then map_option (\<lambda>k. k\<lparr>s_stop := True\<rparr>) (m s) else m s)"

definition shutdown :: "ctx \<Rightarrow> socks \<Rightarrow> (ctx \<times> socks) option" where
  "shutdown c m =
     (if terminating c then Some (c, m)
      else
        (let c1 = c\<lparr>terminating := True\<rparr>
         in if starting c1 then Some (c1, m)
            else do {
              c2 \<leftarrow> (if c_sockets c1 = [] then reaper_send RStop c1 else Some c1);
              Some (c2, stop_sockets (c_sockets c1) m)
            }))"

text \<open>\<^verbatim>\<open>terminate\<close> up to the wait for the reaper; only called when the threads were started, otherwise
  the context is deleted at once. The second half runs when the mailbox delivers \<^verbatim>\<open>done\<close>: it
  returns the context that is then deleted.\<close>

definition terminate_begin :: "ctx \<Rightarrow> socks \<Rightarrow> (ctx \<times> socks) option" where
  "terminate_begin c m =
     (let restarted = terminating c; c1 = c\<lparr>terminating := True\<rparr>
      in if restarted then Some (c1, m)
         else do {
           c2 \<leftarrow> (if c_sockets c1 = [] then reaper_send RStop c1 else Some c1);
           Some (c2, stop_sockets (c_sockets c1) m)
         })"

definition terminate_end :: "ctx \<Rightarrow> ctx option" where
  "terminate_end c = do {
     zmq_assert (0 < term_done c);
     zmq_assert (c_sockets c = []);
     Some (c\<lparr>term_done := term_done c - 1\<rparr>)
   }"

subsection \<open>I/O threads and inproc endpoints\<close>

text \<open>\<open>loads\<close> are the loads of the I/O threads in order. The mask is shifted by the index, which is
  undefined from 64 on.\<close>

fun choose_loop :: "u64 \<Rightarrow> nat \<Rightarrow> int list \<Rightarrow> (nat \<times> int) option \<Rightarrow> (nat \<times> int) option option" where
  "choose_loop aff i [] best = Some best"
| "choose_loop aff i (l # ls) best =
     (if aff \<noteq> 0 \<and> i \<ge> 64 then None
      else if aff = 0 \<or> bit aff i then
        choose_loop aff (Suc i) ls
          (case best of None \<Rightarrow> Some (i, l) | Some (j, b) \<Rightarrow> if l < b then Some (i, l) else Some (j, b))
      else choose_loop aff (Suc i) ls best)"

definition choose_io_thread :: "u64 \<Rightarrow> int list \<Rightarrow> nat option option" where
  "choose_io_thread aff loads = map_option (map_option fst) (choose_loop aff 0 loads None)"

record endpoint =
  ep_socket :: nat
  ep_options :: nat

definition register_endpoint :: "string \<Rightarrow> endpoint \<Rightarrow> (string \<Rightarrow> endpoint option) \<Rightarrow> errno option \<times> (string \<Rightarrow> endpoint option)" where
  "register_endpoint addr e eps = (if eps addr = None then (None, eps(addr \<mapsto> e)) else (Some EADDRINUSE, eps))"

definition unregister_endpoint :: "string \<Rightarrow> nat \<Rightarrow> (string \<Rightarrow> endpoint option) \<Rightarrow> errno option \<times> (string \<Rightarrow> endpoint option)" where
  "unregister_endpoint addr s eps = (case eps addr of
     None \<Rightarrow> (Some ENOENT, eps)
   | Some e \<Rightarrow> if ep_socket e \<noteq> s then (Some ENOENT, eps) else (None, eps(addr := None)))"

definition unregister_endpoints :: "nat \<Rightarrow> (string \<Rightarrow> endpoint option) \<Rightarrow> (string \<Rightarrow> endpoint option)" where
  "unregister_endpoints s eps = (\<lambda>addr. case eps addr of
     None \<Rightarrow> None | Some e \<Rightarrow> if ep_socket e = s then None else Some e)"

subsection \<open>Options read back\<close>

lemma digit_char: "d < 10 \<Longrightarrow> of_char (char_of (48 + d :: nat) :: char) = (48 + d :: nat)"
  by simp

lemma to_string_digits: "set (to_string n) \<subseteq> {ch. is_digit ch} \<and> to_string n \<noteq> []"
proof (induction n rule: to_string.induct)
  case (1 n)
  have "is_digit (char_of (48 + d))" if "d < 10" for d :: nat
    unfolding is_digit_def using that by simp
  then show ?case using 1 by (subst (1 2) to_string.simps) auto
qed

lemma digits_value_to_string: "digits_value (to_string n) = n"
proof -
  have fold: "foldl (\<lambda>v ch. v * 10 + (of_char ch - 48)) 0 (to_string n) = n"
  proof (induction n rule: to_string.induct)
    case (1 n)
    then show ?case by (subst to_string.simps) simp
  qed
  have digits: "takeWhile is_digit (to_string n) = to_string n"
    using to_string_digits [of n] by (auto intro: takeWhile_eq_all_conv [THEN iffD2])
  show ?thesis unfolding digits_value_def digits by (rule fold)
qed

lemma digit_no_space: "is_digit ch \<Longrightarrow> \<not> is_space ch \<and> ch \<noteq> CHR ''-'' \<and> ch \<noteq> CHR ''+''"
  by (auto simp: is_digit_def is_space_def)

lemma atoi_int_to_string: "atoi (int_to_string n) = n"
proof (cases "n < 0")
  case True
  then show ?thesis by (simp add: atoi_def int_to_string_def is_space_def digits_value_to_string)
next
  case False
  obtain ch r where s: "to_string (nat n) = ch # r" "is_digit ch"
    using to_string_digits [of "nat n"] by (cases "to_string (nat n)") auto
  with False digit_no_space [OF s(2)] digits_value_to_string [of "nat n"] show ?thesis
    by (simp add: atoi_def int_to_string_def)
qed



text \<open>The largest \<^verbatim>\<open>int\<close> is accepted as the maximal number of sockets when the poller has no limit, and
  the first socket then overflows the slot count.\<close>

theorem max_sockets_overflow:
  assumes "max_fds = -1" "\<not> terminating c" "starting c" "0 \<le> io_thread_count c"
  shows "\<exists>c'. ctx_set max_fds ZMQ_MAX_SOCKETS (IntVal INT_MAX) c = (None, c')
    \<and> create_socket env mb a s ty ids c' m = None"
  using assms by (simp add: ctx_set_def ctx_options INT_MAX_def clipped_maxsocket_def create_socket_def start_def)

theorem max_sockets_overflow_witness:
  "\<exists>c'. ctx_set (-1) ZMQ_MAX_SOCKETS (IntVal INT_MAX) (ctx_new (-1)) = (None, c')
    \<and> create_socket \<lparr>reserve_ok = True, new_reaper = Created, new_io = (\<lambda>_. Created)\<rparr> None 0 1 3 0 c' Map.empty = None"
  by (rule max_sockets_overflow) (simp_all add: ctx_new_def)

subsection \<open>Interleavings\<close>

definition env_ok :: "start_env \<Rightarrow> bool" where
  "env_ok env \<longleftrightarrow> reserve_ok env \<and> new_reaper env = Created \<and> (\<forall>i. new_io env i = Created)"

inductive ctx_step :: "int \<Rightarrow> ctx \<times> socks \<Rightarrow> ctx \<times> socks \<Rightarrow> bool" for max_fds where
  option: "ctx_step max_fds (c, m) (snd (ctx_set max_fds opt v c), m)"
| create: "ctx_step max_fds (c, m) (c', m')"
    if "env_ok env" "s \<notin> dom m" "create_socket env mb a s ty ids c m = Some (r, ids', c', m')"
| close: "ctx_step max_fds (c, m) (c', m')" if "m s = Some k" "s_phase k = Open" "socket_close s k c m = Some (c', m')"
| reap: "ctx_step max_fds (c, m) (c', m')" if "reaper_in_event c m = Some (c', m')"
| destroy: "ctx_step max_fds (c, m) (c', m')" if "m s = Some k" "s_phase k = Reaping" "check_destroy s k c m = Some (c', m')"
| shutdown: "ctx_step max_fds (c, m) (c', m')" if "shutdown c m = Some (c', m')"
| terminate: "ctx_step max_fds (c, m) (c', m')" if "\<not> starting c" "terminate_begin c m = Some (c', m')"

text \<open>Slots: the sockets and the free slots share the slots above the I/O threads, one each.\<close>

definition slots_ok :: "ctx \<Rightarrow> socks \<Rightarrow> bool" where
  "slots_ok c m \<longleftrightarrow> distinct (empty_slots c) \<and> (\<forall>t \<in> set (empty_slots c). t < length (slots c) \<and> slots c ! t = None)
     \<and> distinct (c_sockets c) \<and> set (c_sockets c) = dom m
     \<and> (\<forall>s k. m s = Some k \<longrightarrow> s_tid k < length (slots c) \<and> slots c ! s_tid k = Some (SockBox s))"

definition with_phase :: "sock_phase \<Rightarrow> socks \<Rightarrow> nat set" where
  "with_phase ph m = {s. \<exists>k. m s = Some k \<and> s_phase k = ph}"

fun reaps :: "rcmd list \<Rightarrow> nat list" where
  "reaps [] = []"
| "reaps (RReap s # cs) = s # reaps cs"
| "reaps (_ # cs) = reaps cs"

text \<open>The reaper: closed sockets are those it has a command for, its counter is the number of
  sockets it reaps or has reaped without hearing of it, it is told to stop exactly when the
  terminating context has no socket left, and says done when it has stopped and counts none.\<close>

definition reaper_ok :: "ctx \<Rightarrow> socks \<Rightarrow> reaper \<Rightarrow> bool" where
  "reaper_ok c m r \<longleftrightarrow> distinct (reaps (r_mailbox r)) \<and> set (reaps (r_mailbox r)) = with_phase Closed m
     \<and> r_sockets r = card (with_phase Reaping m) + count_list (r_mailbox r) RReaped
     \<and> count_list (r_mailbox r) RStop + of_bool (r_terminating r) = of_bool (terminating c \<and> c_sockets c = [])
     \<and> term_done c = of_bool (r_terminating r \<and> r_sockets r = 0)"

definition ctx_inv :: "ctx \<times> socks \<Rightarrow> bool" where
  "ctx_inv = (\<lambda>(c, m). if starting c
     then c_reaper c = None \<and> c_sockets c = [] \<and> m = Map.empty \<and> term_done c = 0 \<and> empty_slots c = [] \<and> io_threads c = []
     else slots_ok c m \<and> (\<exists>r. c_reaper c = Some r \<and> reaper_ok c m r))"

lemma reaps_append [simp]: "reaps (xs @ ys) = reaps xs @ reaps ys"
  by (induction xs rule: reaps.induct) auto

lemma with_phase_simps [simp]:
  "with_phase ph (m(s \<mapsto> k)) = (if s_phase k = ph then insert s (with_phase ph m) else with_phase ph m - {s})"
  "with_phase ph (m(s := None)) = with_phase ph m - {s}"
  "with_phase ph (stop_sockets ss m) = with_phase ph m"
  "s \<in> with_phase ph m \<longleftrightarrow> (\<exists>k. m s = Some k \<and> s_phase k = ph)"
  by (auto simp: with_phase_def stop_sockets_def)

lemma finite_with_phase:
  assumes "slots_ok c m"
  shows "finite (with_phase ph m)"
proof -
  have "finite (dom m)" using assms unfolding slots_ok_def by (metis List.finite_set)
  moreover have "with_phase ph m \<subseteq> dom m" by auto
  ultimately show ?thesis by (rule finite_subset [rotated])
qed

lemma ctx_set_fields:
  assumes "ctx_set max_fds opt v c = (e, c')"
  shows "c_sockets c' = c_sockets c" "empty_slots c' = empty_slots c" "starting c' = starting c"
    "terminating c' = terminating c" "c_reaper c' = c_reaper c" "io_threads c' = io_threads c" "slots c' = slots c"
    "term_done c' = term_done c"
  using assms by (auto simp: ctx_set_def thread_ctx_set_def Let_def split: if_splits optval.splits)

lemma ctx_inv_cong:
  assumes "c_sockets c' = c_sockets c" "empty_slots c' = empty_slots c" "starting c' = starting c"
    "terminating c' = terminating c" "c_reaper c' = c_reaper c" "io_threads c' = io_threads c" "slots c' = slots c"
    "term_done c' = term_done c"
  shows "ctx_inv (c', m) = ctx_inv (c, m)"
  using assms by (simp add: ctx_inv_def slots_ok_def reaper_ok_def)

lemma start_io_created:
  assumes "\<forall>i. io i = Created" "start_io io is c = (e, c')"
  shows "e = None \<and> c_sockets c' = c_sockets c \<and> empty_slots c' = empty_slots c \<and> starting c' = starting c
    \<and> terminating c' = terminating c \<and> c_reaper c' = c_reaper c \<and> term_done c' = term_done c
    \<and> length (slots c') = length (slots c) \<and> (\<forall>t. t \<notin> set is \<longrightarrow> slots c' ! t = slots c ! t)"
  using assms
proof (induction "is" arbitrary: c)
  case (Cons i "is")
  let ?c = "c\<lparr>io_threads := io_threads c @ [i], slots := (slots c)[i := Some (IoBox (length (io_threads c)))]\<rparr>"
  have "io i = Created" using Cons.prems(1) by blast
  then have "start_io io is ?c = (e, c')" using Cons.prems(2) by simp
  from Cons.IH [OF Cons.prems(1) this] show ?case by auto
qed simp

lemma start_inv:
  assumes "ctx_inv (c, m)" "starting c" "env_ok env" "start env c = Some (e, c')" "\<not> terminating c"
  shows "e = None \<and> ctx_inv (c', m) \<and> \<not> starting c' \<and> terminating c' = terminating c"
proof -
  define ios n where "ios = nat (io_thread_count c)" "n = nat (max_sockets c) + ios + 2"
  define c0 where "c0 = c\<lparr>slots := [Some TermBox, Some ReaperBox] @ replicate (n - 2) None,
                         c_reaper := Some fresh_reaper\<rparr>"
  obtain e1 c1 where io: "start_io (new_io env) [2 ..< ios + 2] c0 = (e1, c1)" by fastforce
  note s = start_io_created [OF _ io]
  have "e1 = None" using s assms(3) by (simp add: env_ok_def)
  then have c': "e = None" "c' = c1\<lparr>empty_slots := empty_slots c1 @ rev [ios + 2 ..< n], starting := False\<rparr>"
    using assms(3,4) io
    by (auto simp: start_def env_ok_def Let_def ios_n_def c0_def split: if_splits)
  have f: "c_sockets c' = []" "m = Map.empty" "term_done c' = 0" "c_reaper c' = Some fresh_reaper" "empty_slots c' = rev [ios + 2 ..< n]"
    "length (slots c') = n" "\<not> starting c'" "terminating c' = terminating c"
    using s assms(1-3) by (auto simp: c' env_ok_def ctx_inv_def c0_def ios_n_def)
  have "slots c' ! t = None" if "ios + 2 \<le> t" "t < n" for t
    using s assms(3) that by (simp add: c' env_ok_def c0_def nth_append)
  then have "slots_ok c' m" using f by (simp add: slots_ok_def)
  moreover have "reaper_ok c' m fresh_reaper"
    using f assms(5) by (simp add: reaper_ok_def fresh_reaper_def with_phase_def)
  ultimately show ?thesis using f c' by (simp add: ctx_inv_def)
qed

lemma take_slot_cases:
  assumes "take_slot mb a s ty ids c m = Some (r, ids', c', m')"
  obtains (refused) "c' = c" "m' = m" "\<exists>e. r = Inl e"
    | (taken) es t k where "empty_slots c = es @ [t]" "s_tid k = t" "s_ctx k = a" "s_phase k = Open" "r = Inr s"
        "c' = c\<lparr>empty_slots := es, c_sockets := c_sockets c @ [s], slots := (slots c)[t := Some (SockBox s)]\<rparr>"
        "m' = m(s \<mapsto> k)"
proof (cases "empty_slots c" rule: rev_cases)
  case Nil
  with assms have "c' = c" "m' = m" "\<exists>e. r = Inl e" by (auto simp: take_slot_def)
  with refused show ?thesis by blast
next
  case es: (snoc es t)
  show ?thesis
  proof (cases "socket_create mb ty a t (sint ids + 1)")
    case (Inl er)
    with assms es have "c' = c" "m' = m" "\<exists>e. r = Inl e" by (auto simp: take_slot_def Let_def)
    with refused show ?thesis by blast
  next
    case (Inr k)
    then have k: "s_tid k = t" "s_phase k = Open" "s_ctx k = a"
      by (auto simp: socket_create_def split: if_splits option.splits)
    from assms es Inr have "c' = c\<lparr>empty_slots := es, c_sockets := c_sockets c @ [s], slots := (slots c)[t := Some (SockBox s)]\<rparr>"
      "m' = m(s \<mapsto> k)" "r = Inr s" by (auto simp: take_slot_def Let_def tab_set_Some_iff split: Option.bind_splits)
    with es k taken show ?thesis by blast
  qed
qed

lemma take_slot_inv:
  assumes inv: "ctx_inv (c, m)" "\<not> starting c" "\<not> terminating c" and s: "s \<notin> dom m"
    and run: "take_slot mb a s ty ids c m = Some (r, ids', c', m')"
  shows "ctx_inv (c', m')"
  using run
proof (cases rule: take_slot_cases)
  case refused
  with inv(1) show ?thesis by simp
next
  case (taken es t k)
  from inv obtain rp where rp: "slots_ok c m" "c_reaper c = Some rp" "reaper_ok c m rp" by (auto simp: ctx_inv_def)
  have ok: "distinct (es @ [t])" "\<forall>x \<in> set (es @ [t]). x < length (slots c) \<and> slots c ! x = None"
    using rp(1) unfolding slots_ok_def taken(1) by blast+
  have other: "s_tid k' \<noteq> t" if "m s' = Some k'" for s' k'
    using that ok(2) rp(1) by (auto simp: slots_ok_def)
  have "slots_ok c' m'"
    using ok other rp(1) s taken(2,7) unfolding taken(6) by (auto simp: slots_ok_def nth_list_update)
  moreover have "reaper_ok c' m' rp"
    using taken(4,7) rp(3) inv(3) s unfolding taken(6) by (auto simp: reaper_ok_def)
  ultimately show ?thesis using taken(6) inv rp(2) by (simp add: ctx_inv_def)
qed

lemma create_socket_inv:
  assumes "ctx_inv (c, m)" "env_ok env" "s \<notin> dom m" "create_socket env mb a s ty ids c m = Some (r, ids', c', m')"
  shows "ctx_inv (c', m')"
proof (cases "terminating c")
  case False
  then obtain e c1 where c1: "(if starting c then start env c else Some (None, c)) = Some (e, c1)"
    using assms(4) by (auto simp: create_socket_def split: Option.bind_splits if_splits)
  have inv: "e = None" "ctx_inv (c1, m)" "\<not> starting c1" "\<not> terminating c1"
    using start_inv [OF assms(1) _ assms(2), of e c1] c1 False assms(1) by (auto split: if_splits)
  have "take_slot mb a s ty ids c1 m = Some (r, ids', c', m')"
    using assms(4) False c1 inv(1) by (simp add: create_socket_def)
  from take_slot_inv [OF inv(2-4) assms(3) this] show ?thesis .
qed (use assms in \<open>simp add: create_socket_def\<close>)

lemma socket_close_inv:
  assumes "ctx_inv (c, m)" "m s = Some k" "s_phase k = Open" "socket_close s k c m = Some (c', m')"
  shows "ctx_inv (c', m')"
proof -
  have ns: "\<not> starting c" using assms(1,2) by (auto simp: ctx_inv_def)
  with assms(1) obtain rp where rp: "slots_ok c m" "c_reaper c = Some rp" "reaper_ok c m rp" by (auto simp: ctx_inv_def)
  have c': "c' = c\<lparr>c_reaper := Some (rp\<lparr>r_mailbox := r_mailbox rp @ [RReap s]\<rparr>)\<rparr>" "m' = m(s \<mapsto> k\<lparr>s_phase := Closed\<rparr>)"
    using assms(4) rp(2) by (auto simp: socket_close_def reaper_send_def)
  have "slots_ok c' m'" using rp(1) assms(2) unfolding c' by (auto simp: slots_ok_def)
  moreover have "s \<notin> with_phase Closed m" "s \<notin> with_phase Reaping m" using assms(2,3) by auto
  then have "reaper_ok c' m' (rp\<lparr>r_mailbox := r_mailbox rp @ [RReap s]\<rparr>)"
    using rp(3) unfolding c' by (auto simp: reaper_ok_def simp del: with_phase_simps(4))
  ultimately show ?thesis using ns c' by (simp add: ctx_inv_def)
qed

lemma reaper_in_event_inv:
  assumes "ctx_inv (c, m)" "reaper_in_event c m = Some (c', m')"
  shows "ctx_inv (c', m')"
proof -
  have ns: "\<not> starting c" using assms by (auto simp: ctx_inv_def reaper_in_event_def)
  with assms(1) obtain rp where rp: "slots_ok c m" "c_reaper c = Some rp" "reaper_ok c m rp" by (auto simp: ctx_inv_def)
  show ?thesis
  proof (cases "r_mailbox rp")
    case Nil
    with assms rp(2) show ?thesis by (simp add: reaper_in_event_def)
  next
    case (Cons cmd cmds)
    show ?thesis
    proof (cases cmd)
      case RStop
      then have c': "c' = process_stop (rp\<lparr>r_mailbox := cmds\<rparr>) c" "m' = m"
        using assms(2) rp(2) Cons by (auto simp: reaper_in_event_def)
      have "slots_ok c' m'" using rp(1) unfolding c' by (simp add: slots_ok_def process_stop_def Let_def)
      moreover have "reaper_ok c' m' (rp\<lparr>r_mailbox := cmds, r_terminating := True\<rparr>)"
        using rp(3) RStop Cons unfolding c'
        by (auto simp: reaper_ok_def process_stop_def Let_def simp del: with_phase_simps(4) split: if_splits)
      ultimately show ?thesis using ns c' by (auto simp: ctx_inv_def process_stop_def Let_def)
    next
      case (RReap s)
      then have cl: "s \<in> with_phase Closed m" using rp(3) Cons by (auto simp: reaper_ok_def)
      then obtain k where k: "m s = Some k" "s_phase k = Closed" by auto
      then have c': "c' = c\<lparr>c_reaper := Some (rp\<lparr>r_mailbox := cmds, r_sockets := r_sockets rp + 1\<rparr>)\<rparr>"
        "m' = m(s \<mapsto> k\<lparr>s_phase := Reaping\<rparr>)"
        using assms(2) rp(2) Cons RReap by (auto simp: reaper_in_event_def process_reap_def)
      have "slots_ok c' m'" using rp(1) k unfolding c' by (auto simp: slots_ok_def)
      moreover have "c_sockets c \<noteq> []" using rp(1) k(1) by (auto simp: slots_ok_def)
      moreover have "s \<notin> with_phase Reaping m" using k by auto
      ultimately have "reaper_ok c' m' (rp\<lparr>r_mailbox := cmds, r_sockets := r_sockets rp + 1\<rparr>)"
        using rp(3) RReap Cons finite_with_phase [OF rp(1), of Reaping] unfolding c'
        by (auto simp: reaper_ok_def simp del: with_phase_simps(4))
      with \<open>slots_ok c' m'\<close> show ?thesis using ns c' by (simp add: ctx_inv_def)
    next
      case RReaped
      then have c': "c' = process_reaped (rp\<lparr>r_mailbox := cmds\<rparr>) c" "m' = m"
        using assms(2) rp(2) Cons by (auto simp: reaper_in_event_def)
      have "slots_ok c' m'" using rp(1) unfolding c' by (simp add: slots_ok_def process_reaped_def Let_def)
      moreover have "reaper_ok c' m' (rp\<lparr>r_mailbox := cmds, r_sockets := r_sockets rp - 1\<rparr>)"
        using rp(3) RReaped Cons unfolding c'
        by (auto simp: reaper_ok_def process_reaped_def Let_def simp del: with_phase_simps(4) split: if_splits)
      ultimately show ?thesis using ns c' by (auto simp: ctx_inv_def process_reaped_def Let_def)
    qed
  qed
qed

lemma check_destroy_eq:
  assumes "check_destroy s k c m = Some (c', m')" "c_reaper c = Some r" "ss = swap_out (pos s (c_sockets c)) (c_sockets c)"
    and "cmds = (if terminating c \<and> ss = [] then [RStop, RReaped] else [RReaped])"
  shows "m' = m(s := None) \<and> s_tid k < length (slots c)
    \<and> c' = c\<lparr>empty_slots := empty_slots c @ [s_tid k], slots := (slots c)[s_tid k := None], c_sockets := ss,
        c_reaper := Some (r\<lparr>r_mailbox := r_mailbox r @ cmds\<rparr>)\<rparr>"
  using assms
  by (auto simp: check_destroy_def destroy_socket_def reaper_send_def tab_set_Some_iff Let_def
      split: if_splits Option.bind_splits)

lemma check_destroy_inv:
  assumes "ctx_inv (c, m)" "m s = Some k" "s_phase k = Reaping" "check_destroy s k c m = Some (c', m')"
  shows "ctx_inv (c', m')"
proof -
  have ns: "\<not> starting c" using assms(1,2) by (auto simp: ctx_inv_def)
  with assms(1) obtain rp where rp: "slots_ok c m" "c_reaper c = Some rp" "reaper_ok c m rp" by (auto simp: ctx_inv_def)
  define ss where "ss = swap_out (pos s (c_sockets c)) (c_sockets c)"
  define cmds where "cmds = (if terminating c \<and> ss = [] then [RStop, RReaped] else [RReaped])"
  have t: "s_tid k < length (slots c)" "slots c ! s_tid k = Some (SockBox s)" and in_s: "s \<in> set (c_sockets c)"
    using rp(1) assms(2) by (auto simp: slots_ok_def)
  have ss: "set ss = dom m - {s}" "distinct ss"
    using set_swap_out [of "c_sockets c" "pos s (c_sockets c)"] nth_pos [OF in_s] rp(1) by (auto simp: ss_def slots_ok_def)
  note c' = check_destroy_eq [OF assms(4) rp(2) ss_def cmds_def, THEN conjunct2, THEN conjunct2]
    check_destroy_eq [OF assms(4) rp(2) ss_def cmds_def, THEN conjunct1]
  have "s_tid k' \<noteq> s_tid k" if "m s' = Some k'" "s' \<noteq> s" for s' k'
    using that rp(1) t(2) unfolding slots_ok_def by (metis mbox.inject(2) option.inject)
  then have "slots_ok c' m'"
    using rp(1) t ss unfolding c' by (auto simp: slots_ok_def nth_list_update)
  moreover have "with_phase Closed m - {s} = with_phase Closed m" "card (with_phase Reaping m - {s}) + 1 = card (with_phase Reaping m)"
    using assms(2,3) card.remove [OF finite_with_phase [OF rp(1), of Reaping], of s] by auto
  moreover have "c_sockets c \<noteq> []" using in_s by auto
  ultimately have "reaper_ok c' m' (rp\<lparr>r_mailbox := r_mailbox rp @ cmds\<rparr>)"
    using rp(3) unfolding c' cmds_def by (auto simp: reaper_ok_def simp del: with_phase_simps(4))
  with \<open>slots_ok c' m'\<close> show ?thesis using ns c' by (simp add: ctx_inv_def)
qed

lemma stop_sockets_ok [simp]: "slots_ok c (stop_sockets ss m) = slots_ok c m"
proof -
  have "dom (stop_sockets ss m) = dom m" by (auto simp: stop_sockets_def split: if_splits)
  moreover have "(\<forall>s k. stop_sockets ss m s = Some k \<longrightarrow> P (s_tid k) s) \<longleftrightarrow> (\<forall>s k. m s = Some k \<longrightarrow> P (s_tid k) s)" for P
    by (force simp: stop_sockets_def split: if_splits)
  from this [of "\<lambda>t s. t < length (slots c) \<and> slots c ! t = Some (SockBox s)"] calculation
  show ?thesis unfolding slots_ok_def by simp
qed

lemma terminate_begin_inv:
  assumes "ctx_inv (c, m)" "\<not> starting c" "terminate_begin c m = Some (c', m')"
  shows "ctx_inv (c', m')"
proof (cases "terminating c")
  case True
  then have "c' = c" "m' = m" using assms(3) by (auto simp: terminate_begin_def Let_def)
  with assms(1) show ?thesis by simp
next
  case False
  from assms(1,2) obtain rp where rp: "slots_ok c m" "c_reaper c = Some rp" "reaper_ok c m rp" by (auto simp: ctx_inv_def)
  define cmds where "cmds = (if c_sockets c = [] then [RStop] else [])"
  have c': "c' = c\<lparr>terminating := True, c_reaper := Some (rp\<lparr>r_mailbox := r_mailbox rp @ cmds\<rparr>)\<rparr>"
    "m' = stop_sockets (c_sockets c) m"
    using assms(3) rp(2) False by (auto simp: terminate_begin_def reaper_send_def Let_def cmds_def split: if_splits)
  have "slots_ok c' m'" using rp(1) unfolding c' stop_sockets_ok by (simp add: slots_ok_def)
  moreover have "reaper_ok c' m' (rp\<lparr>r_mailbox := r_mailbox rp @ cmds\<rparr>)"
    using rp(3) False unfolding c' cmds_def by (auto simp: reaper_ok_def simp del: with_phase_simps(4) split: if_splits)
  ultimately show ?thesis using assms(2) c' by (simp add: ctx_inv_def)
qed

lemma shutdown_inv:
  assumes "ctx_inv (c, m)" "shutdown c m = Some (c', m')"
  shows "ctx_inv (c', m')"
proof (cases "terminating c \<or> starting c")
  case True
  with assms show ?thesis by (auto simp: shutdown_def Let_def ctx_inv_def split: if_splits)
next
  case False
  with assms have "terminate_begin c m = Some (c', m')" by (simp add: shutdown_def terminate_begin_def Let_def)
  with terminate_begin_inv [OF assms(1)] False show ?thesis by blast
qed

lemma ctx_step_inv: "ctx_step max_fds x y \<Longrightarrow> ctx_inv x \<Longrightarrow> ctx_inv y"
proof (induction rule: ctx_step.induct)
  case (option c m opt v)
  have "ctx_inv (snd (ctx_set max_fds opt v c), m) = ctx_inv (c, m)"
    by (rule ctx_inv_cong) (rule ctx_set_fields [OF prod.collapse [symmetric]])+
  with option show ?case by simp
qed (blast intro: create_socket_inv socket_close_inv reaper_in_event_inv check_destroy_inv shutdown_inv terminate_begin_inv)+

lemma ctx_reachable_inv: "(ctx_step max_fds)\<^sup>*\<^sup>* (ctx_new max_fds, Map.empty) x \<Longrightarrow> ctx_inv x"
proof (induction rule: rtranclp_induct)
  case base
  show ?case by (simp add: ctx_inv_def ctx_new_def)
qed (blast intro: ctx_step_inv)

text \<open>The steps the reaper thread takes on its own.\<close>

inductive reaper_step :: "ctx \<times> socks \<Rightarrow> ctx \<times> socks \<Rightarrow> bool" where
  command: "reaper_step (c, m) (c', m')"
    if "c_reaper c = Some r" "r_mailbox r \<noteq> []" "reaper_in_event c m = Some (c', m')"
| finish: "reaper_step (c, m) (c', m')" if "m s = Some k" "s_phase k = Reaping" "check_destroy s k c m = Some (c', m')"

fun weight :: "rcmd \<Rightarrow> nat" where
  "weight (RReap s) = 4"
| "weight RStop = 1"
| "weight RReaped = 1"

definition pending_work :: "ctx \<times> socks \<Rightarrow> nat" where
  "pending_work = (\<lambda>(c, m). (case c_reaper c of None \<Rightarrow> 0 | Some r \<Rightarrow> sum_list (map weight (r_mailbox r)))
     + 3 * card (with_phase Reaping m))"

definition closing :: "ctx \<times> socks \<Rightarrow> bool" where
  "closing = (\<lambda>(c, m). ctx_inv (c, m) \<and> \<not> starting c \<and> terminating c \<and> with_phase Open m = {})"

lemma process_fields [simp]:
  "starting (process_stop r c) = starting c" "terminating (process_stop r c) = terminating c"
  "c_reaper (process_stop r c) = Some (r\<lparr>r_terminating := True\<rparr>)"
  "starting (process_reaped r c) = starting c" "terminating (process_reaped r c) = terminating c"
  "c_reaper (process_reaped r c) = Some (r\<lparr>r_sockets := r_sockets r - 1\<rparr>)"
  by (simp_all add: process_stop_def process_reaped_def Let_def)

lemma command_decreases:
  assumes "ctx_inv (c, m)" "c_reaper c = Some r" "r_mailbox r = cmd # cmds" "reaper_in_event c m = Some (c', m')"
  shows "pending_work (c', m') < pending_work (c, m) \<and> with_phase Open m' = with_phase Open m
    \<and> starting c' = starting c \<and> terminating c' = terminating c"
proof -
  have rp: "slots_ok c m" "reaper_ok c m r" using assms(1,2) by (auto simp: ctx_inv_def split: if_splits)
  show ?thesis
  proof (cases cmd)
    case (RReap s)
    then have "s \<in> with_phase Closed m" using rp(2) assms(3) by (auto simp: reaper_ok_def)
    then obtain k where k: "m s = Some k" "s_phase k = Closed" by auto
    then have c': "c' = c\<lparr>c_reaper := Some (r\<lparr>r_mailbox := cmds, r_sockets := r_sockets r + 1\<rparr>)\<rparr>"
        "m' = m(s \<mapsto> k\<lparr>s_phase := Reaping\<rparr>)"
      using assms(2-4) RReap by (auto simp: reaper_in_event_def process_reap_def)
    have "s \<notin> with_phase Reaping m" "with_phase Open m - {s} = with_phase Open m" using k by auto
    with finite_with_phase [OF rp(1), of Reaping] c' RReap assms(2,3) show ?thesis
      by (simp add: pending_work_def del: with_phase_simps(4))
  qed (use assms(2-4) in \<open>auto simp: reaper_in_event_def pending_work_def\<close>)
qed

lemma finish_decreases:
  assumes "ctx_inv (c, m)" "m s = Some k" "s_phase k = Reaping" "check_destroy s k c m = Some (c', m')"
  shows "pending_work (c', m') < pending_work (c, m) \<and> with_phase Open m' = with_phase Open m
    \<and> starting c' = starting c \<and> terminating c' = terminating c"
proof -
  obtain r where rp: "slots_ok c m" "c_reaper c = Some r" using assms(1,2) by (auto simp: ctx_inv_def split: if_splits)
  have "card (with_phase Reaping m - {s}) + 1 = card (with_phase Reaping m)" "with_phase Open m - {s} = with_phase Open m"
    using assms(2,3) card.remove [OF finite_with_phase [OF rp(1), of Reaping], of s] by auto
  with check_destroy_eq [OF assms(4) rp(2) refl refl] rp(2) show ?thesis
    by (auto simp: pending_work_def simp del: with_phase_simps(4))
qed

lemma reaper_step_closing:
  assumes "reaper_step x y" "closing x"
  shows "closing y \<and> pending_work y < pending_work x"
  using assms
proof (induction rule: reaper_step.induct)
  case (command c r m c' m')
  then obtain cmd cmds where "r_mailbox r = cmd # cmds" by (cases "r_mailbox r") auto
  with command command_decreases [of c m r cmd cmds c' m'] reaper_in_event_inv [of c m c' m'] show ?case
    by (simp add: closing_def)
next
  case (finish m s k c c' m')
  with finish_decreases [of c m s k c' m'] check_destroy_inv [of c m s k c' m'] show ?case by (simp add: closing_def)
qed

lemma closing_progress:
  assumes "closing (c, m)"
  shows "(\<exists>y. reaper_step (c, m) y) \<or> term_done c = 1 \<and> m = Map.empty \<and> c_sockets c = []"
proof -
  from assms obtain r where r: "slots_ok c m" "c_reaper c = Some r" "reaper_ok c m r" "terminating c"
    by (auto simp: closing_def ctx_inv_def)
  consider cmd cmds where "r_mailbox r = cmd # cmds" | s where "r_mailbox r = []" "s \<in> with_phase Reaping m"
    | "r_mailbox r = []" "with_phase Reaping m = {}" by (metis all_not_in_conv list.exhaust)
  then show ?thesis
  proof cases
    case 1
    have "\<exists>k. m s = Some k" if "cmd = RReap s" for s
    proof -
      have "s \<in> with_phase Closed m" using that 1 r(3) unfolding reaper_ok_def by auto
      then show ?thesis by auto
    qed
    then have "reaper_in_event c m \<noteq> None"
      using 1 r(2) by (cases cmd) (auto simp: reaper_in_event_def process_reap_def)
    then obtain c' m' where "reaper_in_event c m = Some (c', m')" by auto
    from reaper_step.command [OF r(2) _ this] 1 show ?thesis by auto
  next
    case (2 s)
    then obtain k where k: "m s = Some k" "s_phase k = Reaping" by auto
    then have "s_tid k < length (slots c)" using r(1) by (simp add: slots_ok_def)
    then have "check_destroy s k c m \<noteq> None"
      using r(2) by (auto simp: check_destroy_def destroy_socket_def reaper_send_def Let_def)
    then obtain c' m' where "check_destroy s k c m = Some (c', m')" by auto
    from reaper_step.finish [OF k this] show ?thesis by auto
  next
    case 3
    have "with_phase Closed m = {}" using r(3) 3 by (auto simp: reaper_ok_def)
    then have "with_phase ph m = {}" for ph using assms 3(2) by (cases ph) (simp_all add: closing_def)
    then have "m s = None" for s using with_phase_simps(4) [of s _ m] by (cases "m s") blast+
    then have m: "m = Map.empty" by blast
    then have "c_sockets c = []" using r(1) by (simp add: slots_ok_def)
    with 3 m r(3,4) show ?thesis by (simp add: reaper_ok_def)
  qed
qed


text \<open>A small run of one application against one context, for concrete inputs.\<close>

definition good_env :: start_env where
  "good_env = \<lparr>reserve_ok = True, new_reaper = Created, new_io = (\<lambda>_. Created)\<rparr>"

definition small_ctx :: ctx where
  "small_ctx = snd (ctx_set (-1) ZMQ_MAX_SOCKETS (IntVal 1) (ctx_new (-1)))"

definition open_ctx :: "ctx \<times> socks" where
  "open_ctx = (case create_socket good_env None 0 7 3 0 small_ctx Map.empty of Some (_, _, x) \<Rightarrow> x)"

definition closed_ctx :: "ctx \<times> socks" where
  "closed_ctx = (case open_ctx of (c, m) \<Rightarrow> the (socket_close 7 (the (m 7)) c m))"

definition ended_ctx :: "ctx \<times> socks" where
  "ended_ctx = (case closed_ctx of (c, m) \<Rightarrow> the (terminate_begin c m))"

lemmas demo_defs = good_env_def small_ctx_def ctx_new_def ctx_set_def thread_ctx_set_def ctx_options INT_MAX_def
  clipped_maxsocket_def create_socket_def take_slot_def start_def socket_create_def fresh_reaper_def Let_def
  reaper_send_def socket_close_def terminate_begin_def

lemma open_ctx_eq: "create_socket good_env None 0 7 3 0 small_ctx Map.empty = Some (Inr 7, 1, open_ctx)"
  and open_ctx_fields: "\<not> starting (fst open_ctx)" "snd open_ctx = [7 \<mapsto> \<lparr>s_type = 3, s_ctx = 0, s_tid = 3, s_sid = 1,
     s_phase = Open, s_stop = False\<rparr>]" "c_reaper (fst open_ctx) = Some fresh_reaper"
  "\<not> terminating (fst open_ctx)" "c_sockets (fst open_ctx) = [7]"
  by (simp_all add: open_ctx_def demo_defs upt_rec eval_nat_numeral)

lemma closed_ctx_eq: "socket_close 7 (the (snd open_ctx 7)) (fst open_ctx) (snd open_ctx) = Some closed_ctx"
  and closed_ctx_fields: "\<not> starting (fst closed_ctx)" "\<not> terminating (fst closed_ctx)" "c_sockets (fst closed_ctx) = [7]"
  "c_reaper (fst closed_ctx) = Some (fresh_reaper\<lparr>r_mailbox := [RReap 7]\<rparr>)"
  "snd closed_ctx = (snd open_ctx)(7 \<mapsto> (the (snd open_ctx 7))\<lparr>s_phase := Closed\<rparr>)"
  by (simp_all add: closed_ctx_def split_beta socket_close_def reaper_send_def open_ctx_fields fresh_reaper_def)

lemma ended_ctx_eq: "terminate_begin (fst closed_ctx) (snd closed_ctx) = Some ended_ctx"
  and ended_ctx_fields: "\<not> starting (fst ended_ctx)" "terminating (fst ended_ctx)"
  "snd ended_ctx = stop_sockets [7] (snd closed_ctx)" "c_reaper (fst ended_ctx) = c_reaper (fst closed_ctx)"
  by (simp_all add: ended_ctx_def split_beta terminate_begin_def Let_def closed_ctx_fields)

lemma ctx_reaches:
  "(ctx_step (-1))\<^sup>*\<^sup>* (ctx_new (-1), Map.empty) open_ctx" "(ctx_step (-1))\<^sup>*\<^sup>* (ctx_new (-1), Map.empty) ended_ctx"
proof -
  let ?r = "(ctx_step (-1))\<^sup>*\<^sup>* (ctx_new (-1), Map.empty)"
  have "?r (small_ctx, Map.empty)" unfolding small_ctx_def by (rule r_into_rtranclp) (rule ctx_step.option)
  moreover have "ctx_step (-1) (small_ctx, Map.empty) (fst open_ctx, snd open_ctx)"
    by (rule ctx_step.create [of good_env 7 _ None 0 3 0 _ "Inr 7" 1]) (simp_all add: env_ok_def good_env_def open_ctx_eq [unfolded good_env_def])
  ultimately show 1: "?r open_ctx" by simp
  have "ctx_step (-1) (fst open_ctx, snd open_ctx) (fst closed_ctx, snd closed_ctx)"
    by (rule ctx_step.close [where s = 7 and k = "the (snd open_ctx 7)"])
      (simp_all only: prod.collapse closed_ctx_eq, simp_all add: open_ctx_fields)
  moreover have "ctx_step (-1) (fst closed_ctx, snd closed_ctx) (fst ended_ctx, snd ended_ctx)"
    by (rule ctx_step.terminate) (rule closed_ctx_fields(1), simp add: ended_ctx_eq)
  ultimately show "?r ended_ctx" using 1 by simp
qed




text \<open>A start that fails after the reaper was launched poisons the context: the reaper's done command stays in
  the termination mailbox, so after a retry that works \<^verbatim>\<open>zmq_ctx_term\<close> takes it for the end while
  sockets exist and its assertion aborts the process; the I/O threads of the failed attempt stay
  in the list too.\<close>

theorem failed_start_poisons_term:
  assumes "reserve_ok env" "new_reaper env = Created" "new_io env 2 = Created" "new_io env 3 \<noteq> Created"
    and "c = (ctx_new max_fds)\<lparr>io_thread_count := 2, max_sockets := n\<rparr>" "0 < n" "n + 4 \<le> INT_MAX"
    and "create_socket env mb a s ty ids c m = Some (r, ids1, c1, m1)"
    and "create_socket good_env None a s 3 ids1 c1 m1 = Some (r2, ids2, c2, m2)"
  shows "(\<exists>e. r = Inl e) \<and> r2 = Inr s \<and> io_threads c2 = [2, 2, 3] \<and> 0 < term_done c2 \<and> terminate_end c2 = None"
proof -
  have io: "[2 ..< 4] = [2, 3 :: nat]" by (simp add: upt_rec)
  have fail: "fst (start_io (new_io env) [2, 3] c') \<noteq> None \<and> snd (start_io (new_io env) [2, 3] c') =
      fail_cleanup_reaper (c'\<lparr>io_threads := io_threads c' @ [2], slots := (slots c')[2 := Some (IoBox (length (io_threads c')))]\<rparr>)" for c'
    using assms(3,4) by (cases "new_io env 3") simp_all
  have c: "max_sockets c = n" "io_thread_count c = 2" "io_threads c = []" "term_done c = 0" "starting c" "\<not> terminating c"
    "empty_slots c = []" "c_sockets c = []"
    using assms(5) by (simp_all add: ctx_new_def)
  define c0 where "c0 = c\<lparr>slots := [Some TermBox, Some ReaperBox] @ replicate (nat n + 2 + 2 - 2) None, c_reaper := Some fresh_reaper\<rparr>"
  obtain e where p: "start_io (new_io env) [2, 3] c0 = (Some e, c\<lparr>io_threads := [2], slots := [], term_done := 1, c_reaper := None\<rparr>)"
    using fail [of c0] c by (cases "start_io (new_io env) [2, 3] c0") (auto simp: fail_cleanup_reaper_def c0_def)
  have e: "start env c = Some (Some e, c\<lparr>io_threads := [2], slots := [], term_done := 1, c_reaper := None\<rparr>)"
    using assms(1,2,6,7) p [unfolded c0_def] unfolding start_def Let_def c by (simp add: io)
  have c1: "r = Inl e" "c1 = c\<lparr>io_threads := [2], slots := [], term_done := 1, c_reaper := None\<rparr>" "m1 = m"
    using assms(8) e c by (auto simp: create_socket_def)
  have "[4 ..< nat n + 4] \<noteq> []" using assms(6) by simp
  then show ?thesis
    using assms(6,7,9) c1 c
    by (auto simp: create_socket_def take_slot_def start_def good_env_def socket_create_def Let_def io terminate_end_def
        tab_set_Some_iff split: Option.bind_splits if_splits)
qed

definition bad_env :: start_env where
  "bad_env = good_env\<lparr>new_io := (\<lambda>i. if i = 2 then Created else NoMem)\<rparr>"

theorem failed_start_poisons_term_witness:
  "\<exists>e ids1 c1 m1 ids2 c2 m2.
     create_socket bad_env None 0 7 3 0 ((ctx_new (-1))\<lparr>io_thread_count := 2, max_sockets := 1\<rparr>) Map.empty = Some (Inl e, ids1, c1, m1)
     \<and> create_socket good_env None 0 7 3 ids1 c1 m1 = Some (Inr 7, ids2, c2, m2) \<and> terminate_end c2 = None"
proof -
  let ?c = "(ctx_new (-1))\<lparr>io_thread_count := 2, max_sockets := 1\<rparr>"
  obtain r ids1 c1 m1 where 1: "create_socket bad_env None 0 7 3 0 ?c Map.empty = Some (r, ids1, c1, m1)"
    and c1: "c1 = ?c\<lparr>io_threads := [2], slots := [], term_done := 1, c_reaper := None\<rparr>"
    by (simp add: demo_defs bad_env_def upt_rec eval_nat_numeral fail_cleanup_reaper_def)
  obtain r2 ids2 c2 m2 where 2: "create_socket good_env None 0 7 3 ids1 c1 m1 = Some (r2, ids2, c2, m2)"
    unfolding c1 by (simp add: demo_defs upt_rec eval_nat_numeral)
  have "(\<exists>e. r = Inl e) \<and> r2 = Inr 7 \<and> io_threads c2 = [2, 2, 3] \<and> 0 < term_done c2 \<and> terminate_end c2 = None"
    by (rule failed_start_poisons_term [OF _ _ _ _ refl _ _ 1 2]) (simp_all add: bad_env_def good_env_def INT_MAX_def)
  with 1 2 show ?thesis by blast
qed

text \<open>What the reaper does while \<^verbatim>\<open>terminate\<close> waits, one step at a time, up to a number of steps.\<close>

definition is_reaping :: "socks \<Rightarrow> nat \<Rightarrow> bool" where
  "is_reaping m s \<longleftrightarrow> (case m s of None \<Rightarrow> False | Some k \<Rightarrow> s_phase k = Reaping)"

fun reaper_run :: "nat \<Rightarrow> ctx \<Rightarrow> socks \<Rightarrow> (ctx \<times> socks) option" where
  "reaper_run 0 c m = Some (c, m)"
| "reaper_run (Suc n) c m = do {
     r \<leftarrow> c_reaper c;
     (if r_mailbox r \<noteq> [] then do {
        (c', m') \<leftarrow> reaper_in_event c m;
        reaper_run n c' m'
      } else case List.find (is_reaping m) (c_sockets c) of
          None \<Rightarrow> Some (c, m)
        | Some s \<Rightarrow> do {
            k \<leftarrow> m s;
            (c', m') \<leftarrow> check_destroy s k c m;
            reaper_run n c' m'
          })
   }"

lemma reaper_run_completes:
  "closing (c, m) \<Longrightarrow> pending_work (c, m) \<le> n \<Longrightarrow>
   \<exists>c'. reaper_run n c m = Some (c', Map.empty) \<and> term_done c' = 1 \<and> c_sockets c' = []"
proof (induction n arbitrary: c m)
  case 0
  have "\<not> reaper_step (c, m) y" for y using reaper_step_closing [OF _ 0(1), of y] 0(2) by auto
  with closing_progress [OF 0(1)] show ?case by auto
next
  case (Suc n)
  from Suc.prems(1) obtain r where r: "slots_ok c m" "c_reaper c = Some r" "reaper_ok c m r"
    by (auto simp: closing_def ctx_inv_def)
  have step: ?case if "reaper_step (c, m) (c', m')" "reaper_run (Suc n) c m = reaper_run n c' m'" for c' m'
    using Suc.IH [of c' m'] reaper_step_closing [OF that(1) Suc.prems(1)] that(2) Suc.prems(2) by simp
  consider (command) "r_mailbox r \<noteq> []" | (finish) s where "r_mailbox r = []" "List.find (is_reaping m) (c_sockets c) = Some s"
    | (idle) "r_mailbox r = []" "List.find (is_reaping m) (c_sockets c) = None" by (metis option.exhaust)
  then show ?case
  proof cases
    case command
    then obtain cmd cmds where cmd: "r_mailbox r = cmd # cmds" by (cases "r_mailbox r") auto
    have "m s \<noteq> None" if "cmd = RReap s" for s
    proof -
      have "s \<in> with_phase Closed m" using that cmd r(3) unfolding reaper_ok_def by auto
      then show ?thesis by auto
    qed
    then have "reaper_in_event c m \<noteq> None"
      using cmd r(2) by (cases cmd) (auto simp: reaper_in_event_def process_reap_def)
    then obtain c' m' where run: "reaper_in_event c m = Some (c', m')" by auto
    show ?thesis by (rule step [OF reaper_step.command [OF r(2) command run]]) (use r(2) command run in simp)
  next
    case (finish s)
    then obtain k where k: "m s = Some k" "s_phase k = Reaping"
      by (auto simp: find_Some_iff is_reaping_def split: option.splits)
    then have "s_tid k < length (slots c)" using r(1) by (simp add: slots_ok_def)
    then have "check_destroy s k c m \<noteq> None"
      using r(2) by (auto simp: check_destroy_def destroy_socket_def reaper_send_def Let_def)
    then obtain c' m' where run: "check_destroy s k c m = Some (c', m')" by auto
    show ?thesis by (rule step [OF reaper_step.finish [OF k run]]) (use r(2) finish k run in simp)
  next
    case idle
    have "\<not> is_reaping m s" for s
    proof (cases "s \<in> set (c_sockets c)")
      case True
      with idle(2) show ?thesis by (auto simp: find_None_iff)
    next
      case False
      with r(1) show ?thesis by (auto simp: slots_ok_def is_reaping_def split: option.splits)
    qed
    then have "\<not> (m s = Some k \<and> s_phase k = Reaping)" for s k
      using is_reaping_def [of m s] by auto
    then have "\<not> reaper_step (c, m) y" for y
      using idle(1) r(2) by (auto elim!: reaper_step.cases)
    with closing_progress [OF Suc.prems(1)] idle r(2) show ?thesis by auto
  qed
qed

end
