(* ===== verification/Capi.thy ===== *)
theory Capi
  imports Ctx Msg Wrapper
begin

text \<open>
  The C interface the bridge calls (zmq.cpp) over the model of the context: the library of one
  process. Every context carries its own sockets; a handle finds its context through the parent
  pointer kept in \<open>l_owner\<close>. What lies below the interface and is not modelled here (the
  socket types and transports behind \<^verbatim>\<open>socket_base_t\<close>, the operating system, the console) is
  the record \<open>engine\<close>, an argument of every operation: it answers each request and updates a state of
  its own, and it decides how many steps the reaper takes before a call and how the wait inside
  \<^verbatim>\<open>zmq_ctx_term\<close> ends. The locale \<open>zmq_library\<close>, which the bridge is proved against, is
  interpreted here for every engine.
\<close>

datatype wait = Interrupted | Lingers | Completes

record 'x engine =
  e_network :: "'x \<Rightarrow> bool \<times> 'x"
  e_mailbox :: "'x \<Rightarrow> errno option \<times> 'x"
  e_reaper_steps :: "'x \<Rightarrow> nat \<times> 'x"
  e_wait :: "'x \<Rightarrow> wait \<times> 'x"
  e_malloc :: "'x \<Rightarrow> bool \<times> 'x"
  e_max_fds :: int
  e_setsockopt_int :: "nat \<Rightarrow> int \<Rightarrow> int \<Rightarrow> 'x \<Rightarrow> errno option \<times> 'x"
  e_setsockopt_buf :: "nat \<Rightarrow> int \<Rightarrow> string \<Rightarrow> 'x \<Rightarrow> errno option \<times> 'x"
  e_bind :: "nat \<Rightarrow> string \<Rightarrow> 'x \<Rightarrow> errno option \<times> 'x"
  e_connect :: "nat \<Rightarrow> string \<Rightarrow> 'x \<Rightarrow> errno option \<times> 'x"
  e_send :: "nat \<Rightarrow> bytes \<Rightarrow> int \<Rightarrow> 'x \<Rightarrow> errno option \<times> 'x"
  e_recv :: "nat \<Rightarrow> int \<Rightarrow> 'x \<Rightarrow> (errno + bytes) \<times> 'x"
  e_strerror :: "errno \<Rightarrow> string"
  e_access :: "string \<Rightarrow> 'x \<Rightarrow> bool"
  e_unlink :: "string \<Rightarrow> 'x \<Rightarrow> 'x"
  e_usleep :: "nat \<Rightarrow> 'x \<Rightarrow> 'x"
  e_cout :: "string \<Rightarrow> 'x \<Rightarrow> 'x"

text \<open>\<open>l_stuck\<close>: a call is blocked for good, or the process was aborted by an assertion. The messages
  are the open \<^verbatim>\<open>zmq_msg_t\<close> variables, the innermost first.\<close>

record 'x lib =
  l_ctxs :: "nat \<Rightarrow> (ctx \<times> socks) option"
  l_owner :: "nat \<Rightarrow> nat option"
  l_next_ctx :: nat
  l_next_sock :: nat
  l_ids :: u32
  l_errno :: errno
  l_msgs :: "msg list"
  l_heap :: msg_heap
  l_next_block :: nat
  l_stuck :: bool
  l_ext :: 'x

definition set_errno :: "errno \<Rightarrow> 'x lib \<Rightarrow> 'x lib" where
  "set_errno e w = w\<lparr>l_errno := e\<rparr>"

text \<open>\<^verbatim>\<open>return 0\<close>, or \<^verbatim>\<open>errno = e; return -1\<close>.\<close>

definition finish_call :: "errno option \<Rightarrow> 'x lib \<Rightarrow> int \<times> 'x lib" where
  "finish_call r w = (case r of None \<Rightarrow> (0, w) | Some e \<Rightarrow> (-1, set_errno e w))"

subsection \<open>Contexts\<close>

definition zmq_ctx_new :: "'x engine \<Rightarrow> 'x lib \<Rightarrow> nat option \<times> 'x lib" where
  "zmq_ctx_new eng w =
     (let (ok, x) = e_network eng (l_ext w); w1 = w\<lparr>l_ext := x\<rparr>
      in if \<not> ok then (None, w1)
         else
           (let c = l_next_ctx w1
            in (Some c, w1\<lparr>l_ctxs := (l_ctxs w1)(c \<mapsto> (ctx_new (e_max_fds eng), Map.empty)), l_next_ctx := c + 1\<rparr>)))"

definition zmq_ctx_set :: "'x engine \<Rightarrow> nat \<Rightarrow> int \<Rightarrow> int \<Rightarrow> 'x lib \<Rightarrow> int \<times> 'x lib" where
  "zmq_ctx_set eng c opt v w = (case l_ctxs w c of
     None \<Rightarrow> (-1, set_errno EFAULT w)
   | Some (x, m) \<Rightarrow>
       (let (r, x') = ctx_set (e_max_fds eng) opt (IntVal v) x
        in finish_call r (w\<lparr>l_ctxs := (l_ctxs w)(c \<mapsto> (x', m))\<rparr>)))"

definition zmq_ctx_shutdown :: "nat \<Rightarrow> 'x lib \<Rightarrow> int \<times> 'x lib" where
  "zmq_ctx_shutdown c w = (case l_ctxs w c of
     None \<Rightarrow> (-1, set_errno EFAULT w)
   | Some (x, m) \<Rightarrow> (case shutdown x m of
       None \<Rightarrow> (-1, w\<lparr>l_stuck := True\<rparr>)
     | Some y \<Rightarrow> (0, w\<lparr>l_ctxs := (l_ctxs w)(c \<mapsto> y)\<rparr>)))"

text \<open>Enough steps for the reaper to destroy every socket it was given.\<close>

definition reaper_fuel :: "ctx \<Rightarrow> nat" where
  "reaper_fuel x = (case c_reaper x of None \<Rightarrow> 0 | Some r \<Rightarrow> sum_list (map weight (r_mailbox r))) + 3 * length (c_sockets x)"

definition zmq_ctx_term :: "'x engine \<Rightarrow> nat \<Rightarrow> 'x lib \<Rightarrow> int \<times> 'x lib" where
  "zmq_ctx_term eng c w = (case l_ctxs w c of
     None \<Rightarrow> (-1, set_errno EFAULT w)
   | Some (x, m) \<Rightarrow>
       if starting x then (0, w\<lparr>l_ctxs := (l_ctxs w)(c := None)\<rparr>)
       else (case terminate_begin x m of
           None \<Rightarrow> (-1, w\<lparr>l_stuck := True\<rparr>)
         | Some (x1, m1) \<Rightarrow>
             (let (how, e) = e_wait eng (l_ext w); w1 = w\<lparr>l_ext := e, l_ctxs := (l_ctxs w)(c \<mapsto> (x1, m1))\<rparr>
              in case how of
                   Interrupted \<Rightarrow> (-1, set_errno EINTR w1)
                 | Lingers \<Rightarrow> (-1, w1\<lparr>l_stuck := True\<rparr>)
                 | Completes \<Rightarrow> (case reaper_run (reaper_fuel x1) x1 m1 of
                     None \<Rightarrow> (-1, w1\<lparr>l_stuck := True\<rparr>)
                   | Some (x2, m2) \<Rightarrow> (case terminate_end x2 of
                       None \<Rightarrow> (-1, w1\<lparr>l_stuck := True, l_ctxs := (l_ctxs w1)(c \<mapsto> (x2, m2))\<rparr>)
                     | Some _ \<Rightarrow> (0, w1\<lparr>l_ctxs := (l_ctxs w1)(c := None)\<rparr>))))))"

subsection \<open>Sockets\<close>

text \<open>\<^verbatim>\<open>as_socket_base_t\<close>: the context of a handle whose tag says it is an open socket.\<close>

definition as_socket_base :: "nat \<Rightarrow> 'x lib \<Rightarrow> (nat \<times> ctx \<times> socks \<times> sock) option" where
  "as_socket_base s w = do {
     c \<leftarrow> l_owner w s;
     (x, m) \<leftarrow> l_ctxs w c;
     k \<leftarrow> m s;
     (if s_phase k = Open then Some (c, x, m, k) else None)
   }"

definition zmq_socket :: "'x engine \<Rightarrow> nat \<Rightarrow> int \<Rightarrow> 'x lib \<Rightarrow> nat option \<times> 'x lib" where
  "zmq_socket eng c ty w = (case l_ctxs w c of
     None \<Rightarrow> (None, set_errno EFAULT w)
   | Some (x, m) \<Rightarrow>
       (let (n, e1) = e_reaper_steps eng (l_ext w); (mb, e2) = e_mailbox eng e1; w1 = w\<lparr>l_ext := e2\<rparr>;
            (x1, m1) = (case (if starting x then None else reaper_run n x m) of None \<Rightarrow> (x, m) | Some y \<Rightarrow> y);
            s = l_next_sock w1
        in case create_socket good_env mb c s ty (l_ids w1) x1 m1 of
             None \<Rightarrow> (None, w1\<lparr>l_stuck := True\<rparr>)
           | Some (r, ids, x2, m2) \<Rightarrow>
               (let w2 = w1\<lparr>l_ctxs := (l_ctxs w1)(c \<mapsto> (x2, m2)), l_ids := ids\<rparr>
                in case r of
                     Inl er \<Rightarrow> (None, set_errno er w2)
                   | Inr h \<Rightarrow> (Some h, w2\<lparr>l_owner := (l_owner w2)(s \<mapsto> c), l_next_sock := s + 1\<rparr>))))"

definition zmq_close :: "nat \<Rightarrow> 'x lib \<Rightarrow> int \<times> 'x lib" where
  "zmq_close s w = (case as_socket_base s w of
     None \<Rightarrow> (-1, set_errno ENOTSOCK w)
   | Some (c, x, m, k) \<Rightarrow> (case socket_close s k x m of
       None \<Rightarrow> (-1, w\<lparr>l_stuck := True\<rparr>)
     | Some y \<Rightarrow> (0, w\<lparr>l_ctxs := (l_ctxs w)(c \<mapsto> y)\<rparr>)))"

text \<open>The calls that check the handle and go to the socket.\<close>

definition socket_call :: "nat \<Rightarrow> ('x \<Rightarrow> errno option \<times> 'x) \<Rightarrow> 'x lib \<Rightarrow> int \<times> 'x lib" where
  "socket_call s f w = (case as_socket_base s w of
     None \<Rightarrow> (-1, set_errno ENOTSOCK w)
   | Some _ \<Rightarrow> (let (r, x) = f (l_ext w) in finish_call r (w\<lparr>l_ext := x\<rparr>)))"

definition zmq_setsockopt_int :: "'x engine \<Rightarrow> nat \<Rightarrow> int \<Rightarrow> int \<Rightarrow> 'x lib \<Rightarrow> int \<times> 'x lib" where
  "zmq_setsockopt_int eng s opt v w = socket_call s (e_setsockopt_int eng s opt v) w"

definition zmq_setsockopt_buf :: "'x engine \<Rightarrow> nat \<Rightarrow> int \<Rightarrow> string \<Rightarrow> 'x lib \<Rightarrow> int \<times> 'x lib" where
  "zmq_setsockopt_buf eng s opt b w = socket_call s (e_setsockopt_buf eng s opt b) w"

definition zmq_bind :: "'x engine \<Rightarrow> nat \<Rightarrow> string \<Rightarrow> 'x lib \<Rightarrow> int \<times> 'x lib" where
  "zmq_bind eng s ep w = socket_call s (e_bind eng s ep) w"

definition zmq_connect :: "'x engine \<Rightarrow> nat \<Rightarrow> string \<Rightarrow> 'x lib \<Rightarrow> int \<times> 'x lib" where
  "zmq_connect eng s ep w = socket_call s (e_connect eng s ep) w"

subsection \<open>Messages\<close>

definition to_bytes :: "string \<Rightarrow> bytes" where
  "to_bytes s = map (\<lambda>ch. of_nat (of_char ch)) s"

definition from_bytes :: "bytes \<Rightarrow> string" where
  "from_bytes b = map (\<lambda>x. char_of (unat x)) b"

text \<open>The size a send or a receive returns is cut off at \<^verbatim>\<open>INT_MAX\<close>.\<close>

definition clip_size :: "nat \<Rightarrow> int" where
  "clip_size n = (if int n < INT_MAX then int n else INT_MAX)"

definition s_sendmsg :: "'x engine \<Rightarrow> nat \<Rightarrow> msg \<Rightarrow> int \<Rightarrow> 'x lib \<Rightarrow> int \<times> 'x lib" where
  "s_sendmsg eng s m flags w =
     (case msg_bytes m (l_heap w) of
        None \<Rightarrow> (-1, w\<lparr>l_stuck := True\<rparr>)
      | Some b \<Rightarrow>
          (let (r, x) = e_send eng s b flags (l_ext w); w1 = w\<lparr>l_ext := x\<rparr>
           in case r of Some e \<Rightarrow> (-1, set_errno e w1) | None \<Rightarrow> (clip_size (length b), w1)))"

definition zmq_send :: "'x engine \<Rightarrow> nat \<Rightarrow> string \<Rightarrow> int \<Rightarrow> 'x lib \<Rightarrow> int \<times> 'x lib" where
  "zmq_send eng s buf flags w = (case as_socket_base s w of
     None \<Rightarrow> (-1, set_errno ENOTSOCK w)
   | Some _ \<Rightarrow>
       (let (ok, x) = e_malloc eng (l_ext w); blk = l_next_block w;
            (r0, m, h) = msg_init_buffer (to_bytes buf) (if ok then Some blk else None) (l_heap w);
            w1 = w\<lparr>l_ext := x, l_heap := h, l_next_block := blk + 1\<rparr>
        in if r0 < 0 then (-1, set_errno ENOMEM w1)
           else
             (let (rc, w2) = s_sendmsg eng s m flags w1
              in if rc < 0 then
                   (case msg_close m (l_heap w2) of
                      Some (rc2, m', h') \<Rightarrow>
                        if rc2 = 0 then (-1, w2\<lparr>l_heap := h'\<rparr>) else (-1, w2\<lparr>l_stuck := True\<rparr>)
                    | None \<Rightarrow> (-1, w2\<lparr>l_stuck := True\<rparr>))
                 else (rc, w2))))"

definition zmq_msg_init :: "'x lib \<Rightarrow> int \<times> 'x lib" where
  "zmq_msg_init w = (0, w\<lparr>l_msgs := msg_init # l_msgs w\<rparr>)"

text \<open>\<^verbatim>\<open>zmq_msg_recv\<close> into the innermost message; what the socket delivers becomes its content.\<close>

definition zmq_msg_recv :: "'x engine \<Rightarrow> nat \<Rightarrow> int \<Rightarrow> 'x lib \<Rightarrow> (int \<times> string) \<times> 'x lib" where
  "zmq_msg_recv eng s flags w = (case as_socket_base s w of
     None \<Rightarrow> ((-1, []), set_errno ENOTSOCK w)
   | Some _ \<Rightarrow>
       (let (r, x) = e_recv eng s flags (l_ext w); w1 = w\<lparr>l_ext := x\<rparr>
        in case r of
             Inl e \<Rightarrow> ((-1, []), set_errno e w1)
           | Inr b \<Rightarrow>
               (let blk = l_next_block w1; (r0, m, h) = msg_init_buffer b (Some blk) (l_heap w1)
                in ((clip_size (length b), from_bytes b),
                    w1\<lparr>l_msgs := m # tl (l_msgs w1), l_heap := h, l_next_block := blk + 1\<rparr>))))"

definition zmq_msg_close :: "'x lib \<Rightarrow> int \<times> 'x lib" where
  "zmq_msg_close w = (case l_msgs w of
     [] \<Rightarrow> (-1, set_errno EFAULT w)
   | m # ms \<Rightarrow> (case msg_close m (l_heap w) of
       Some (r, m', h) \<Rightarrow> (r, w\<lparr>l_msgs := ms, l_heap := h\<rparr>)
     | None \<Rightarrow> (-1, w\<lparr>l_msgs := ms, l_stuck := True\<rparr>)))"

definition capi :: "'x engine \<Rightarrow> 'x lib zmq_api" where
  "capi eng = \<lparr>
     api_ctx_new = zmq_ctx_new eng,
     api_ctx_set = zmq_ctx_set eng,
     api_ctx_term = zmq_ctx_term eng,
     api_socket = zmq_socket eng,
     api_close = zmq_close,
     api_setsockopt_int = zmq_setsockopt_int eng,
     api_setsockopt_buf = zmq_setsockopt_buf eng,
     api_bind = zmq_bind eng,
     api_connect = zmq_connect eng,
     api_send = zmq_send eng,
     api_msg_init = zmq_msg_init,
     api_msg_recv = zmq_msg_recv eng,
     api_msg_close = zmq_msg_close,
     api_errno = l_errno,
     api_strerror = e_strerror eng,
     os_access = (\<lambda>p w. e_access eng p (l_ext w)),
     os_unlink = (\<lambda>p w. w\<lparr>l_ext := e_unlink eng p (l_ext w)\<rparr>),
     os_usleep = (\<lambda>n w. w\<lparr>l_ext := e_usleep eng n (l_ext w)\<rparr>),
     os_cout = (\<lambda>t w. w\<lparr>l_ext := e_cout eng t (l_ext w)\<rparr>)\<rparr>"

subsection \<open>The contract the bridge relies on\<close>

text \<open>
  What is open: contexts whose termination has not been asked for, and sockets whose tag is good,
  with their context. The invariant: every context of the process satisfies the invariant of the
  context model, handles are below the counters, and parent pointers are right.
\<close>

definition open_ctxs :: "'x lib \<Rightarrow> nat set" where
  "open_ctxs w = {c. \<exists>x m. l_ctxs w c = Some (x, m) \<and> \<not> terminating x}"

definition open_socks :: "'x lib \<Rightarrow> (nat \<times> nat) set" where
  "open_socks w = {(s, c). \<exists>x m. l_ctxs w c = Some (x, m) \<and> s \<in> with_phase Open m}"

definition ctx_entry_ok :: "'x lib \<Rightarrow> nat \<Rightarrow> ctx \<times> socks \<Rightarrow> bool" where
  "ctx_entry_ok w c y \<longleftrightarrow> ctx_inv y \<and> c < l_next_ctx w
     \<and> (\<forall>s \<in> dom (snd y). s < l_next_sock w \<and> l_owner w s = Some c)"

definition lib_inv :: "'x lib \<Rightarrow> bool" where
  "lib_inv w \<longleftrightarrow> (\<forall>c y. l_ctxs w c = Some y \<longrightarrow> ctx_entry_ok w c y)"

lemma lib_invD:
  assumes "lib_inv w" "l_ctxs w c = Some (x, m)"
  shows "ctx_inv (x, m)" "c < l_next_ctx w" "m s = Some k \<Longrightarrow> s < l_next_sock w \<and> l_owner w s = Some c"
  using assms unfolding lib_inv_def ctx_entry_ok_def by force+

text \<open>A call that leaves contexts, sockets and handles alone.\<close>

definition same_tables :: "'x lib \<Rightarrow> 'x lib \<Rightarrow> bool" where
  "same_tables w w' \<longleftrightarrow> l_ctxs w' = l_ctxs w \<and> l_owner w' = l_owner w \<and> l_next_ctx w' = l_next_ctx w
     \<and> l_next_sock w' = l_next_sock w"

lemma same_tables_open:
  assumes "same_tables w w'"
  shows "open_ctxs w' = open_ctxs w" "open_socks w' = open_socks w" "lib_inv w' = lib_inv w"
  using assms by (simp_all add: same_tables_def open_ctxs_def open_socks_def lib_inv_def ctx_entry_ok_def)

lemma same_tables_law:
  "same_tables w w' \<Longrightarrow> lib_inv w \<Longrightarrow> lib_inv w' \<and> open_ctxs w' = open_ctxs w \<and> open_socks w' = open_socks w"
  by (simp add: same_tables_open [of w w'])

lemma lib_inv_replace:
  assumes "lib_inv w" "ctx_inv y" "l_ctxs w c = Some y0" "dom (snd y) \<subseteq> dom (snd y0)"
    and "l_ctxs w' = (l_ctxs w)(c \<mapsto> y)" "l_owner w' = l_owner w" "l_next_ctx w' = l_next_ctx w" "l_next_sock w' = l_next_sock w"
  shows "lib_inv w'"
proof -
  have y0: "ctx_entry_ok w c y0" using assms(1,3) unfolding lib_inv_def by blast
  have "ctx_entry_ok w' c1 y1" if "l_ctxs w' c1 = Some y1" for c1 y1
  proof (cases "c1 = c")
    case True
    with that assms(5) have "y1 = y" by simp
    with True y0 assms(2,4-8) show ?thesis by (auto simp: ctx_entry_ok_def)
  next
    case False
    then have "ctx_entry_ok w c1 y1" using that assms(1,5) unfolding lib_inv_def by (metis fun_upd_other)
    with assms(6-8) show ?thesis by (simp add: ctx_entry_ok_def)
  qed
  then show ?thesis unfolding lib_inv_def by blast
qed

lemma open_replace:
  assumes "l_ctxs w c = Some (x0, m0)" "l_ctxs w' = (l_ctxs w)(c \<mapsto> (x, m))"
  shows "open_ctxs w' = (if terminating x then open_ctxs w - {c} else insert c (open_ctxs w))"
    and "open_socks w' = open_socks w - with_phase Open m0 \<times> {c} \<union> with_phase Open m \<times> {c}"
  using assms by (auto simp: open_ctxs_def open_socks_def split: if_splits)

lemma reaper_run_inv:
  "ctx_inv (c, m) \<Longrightarrow> reaper_run n c m = Some (c', m') \<Longrightarrow>
   ctx_inv (c', m') \<and> with_phase Open m' = with_phase Open m \<and> terminating c' = terminating c \<and> starting c' = starting c
     \<and> dom m' \<subseteq> dom m"
proof (induction n arbitrary: c m)
  case (Suc n)
  from Suc.prems(2) obtain r where r: "c_reaper c = Some r" by (auto split: Option.bind_splits)
  consider (cmd) cmd cmds c1 m1 where "r_mailbox r = cmd # cmds" "reaper_in_event c m = Some (c1, m1)" "reaper_run n c1 m1 = Some (c', m')"
    | (fin) s k c1 m1 where "m s = Some k" "s_phase k = Reaping" "check_destroy s k c m = Some (c1, m1)" "reaper_run n c1 m1 = Some (c', m')"
    | (idle) "c' = c" "m' = m"
    using Suc.prems(2) r
    by (cases "r_mailbox r") (auto simp: find_Some_iff is_reaping_def split: Option.bind_splits option.splits)
  then show ?case
  proof cases
    case cmd
    have "dom m1 \<subseteq> dom m" using cmd(1,2) r
      by (auto simp: reaper_in_event_def process_reap_def Let_def split: rcmd.splits Option.bind_splits if_splits)
    with cmd command_decreases [OF Suc.prems(1) r cmd(1,2)] reaper_in_event_inv [OF Suc.prems(1) cmd(2)] Suc.IH [of c1 m1]
    show ?thesis by (simp add: subset_trans [of "dom m'" "dom m1" "dom m"])
  next
    case fin
    have "dom m1 \<subseteq> dom m" using check_destroy_eq [OF fin(3) r refl refl] by auto
    with fin finish_decreases [OF Suc.prems(1) fin(1-3)] check_destroy_inv [OF Suc.prems(1) fin(1-3)] Suc.IH [of c1 m1]
    show ?thesis by (simp add: subset_trans [of "dom m'" "dom m1" "dom m"])
  qed (use Suc.prems in auto)
qed simp

lemma finish_call_tables [simp]: "same_tables w (snd (finish_call r w'))  = same_tables w w'"
  by (simp add: finish_call_def set_errno_def same_tables_def split: option.splits)

lemma socket_call_tables: "same_tables w (snd (socket_call s f w)) \<and> l_msgs (snd (socket_call s f w)) = l_msgs w"
  by (auto simp: socket_call_def finish_call_def set_errno_def same_tables_def Let_def split: option.splits prod.splits)

lemma zmq_send_tables: "same_tables w (snd (zmq_send eng s b fl w)) \<and> l_msgs (snd (zmq_send eng s b fl w)) = l_msgs w"
  by (auto simp: zmq_send_def s_sendmsg_def set_errno_def same_tables_def Let_def split: option.splits prod.splits)

lemma zmq_msg_recv_tables:
  "same_tables w (snd (zmq_msg_recv eng s fl w))
   \<and> (l_msgs w \<noteq> [] \<longrightarrow> length (l_msgs (snd (zmq_msg_recv eng s fl w))) = length (l_msgs w))"
  by (auto simp: zmq_msg_recv_def set_errno_def same_tables_def Let_def split: option.splits prod.splits sum.splits)

lemma zmq_msg_close_tables:
  "same_tables w (snd (zmq_msg_close w)) \<and> length (l_msgs (snd (zmq_msg_close w))) = length (l_msgs w) - 1"
  by (auto simp: zmq_msg_close_def set_errno_def same_tables_def split: option.splits prod.splits list.splits)

lemma zmq_ctx_new_law:
  assumes "lib_inv w" "zmq_ctx_new eng w = (cp, w')"
  shows "lib_inv w' \<and> open_socks w' = open_socks w \<and> length (l_msgs w') = length (l_msgs w)
    \<and> open_ctxs w' = open_ctxs w \<union> set_option cp \<and> set_option cp \<inter> open_ctxs w = {}"
proof (cases cp)
  case None
  then have "same_tables w w'" "l_msgs w' = l_msgs w"
    using assms(2) by (auto simp: zmq_ctx_new_def same_tables_def Let_def split: prod.splits if_splits)
  with None assms(1) same_tables_law [of w w'] show ?thesis by simp
next
  case (Some c)
  let ?y = "(ctx_new (e_max_fds eng), Map.empty :: socks)"
  have w': "c = l_next_ctx w" "l_ctxs w' = (l_ctxs w)(c \<mapsto> ?y)" "l_owner w' = l_owner w" "l_next_sock w' = l_next_sock w"
    "l_next_ctx w' = c + 1" "l_msgs w' = l_msgs w"
    using assms(2) Some by (auto simp: zmq_ctx_new_def Let_def split: prod.splits if_splits)
  have free: "l_ctxs w c = None"
    using lib_invD(2) [OF assms(1)] w'(1) by (metis less_irrefl option.exhaust prod.exhaust)
  have "ctx_inv ?y" by (simp add: ctx_inv_def ctx_new_def)
  then have "lib_inv w'" using assms(1) w' by (auto simp: lib_inv_def ctx_entry_ok_def less_Suc_eq)
  moreover have "open_socks w' = open_socks w" using w' free by (auto simp: open_socks_def)
  moreover have "open_ctxs w' = insert c (open_ctxs w)" "c \<notin> open_ctxs w"
    using w' free by (auto simp: open_ctxs_def ctx_new_def)
  ultimately show ?thesis using Some w' by simp
qed

lemma zmq_ctx_set_law:
  assumes "lib_inv w" "zmq_ctx_set eng c opt v w = (r, w')"
  shows "lib_inv w' \<and> open_ctxs w' = open_ctxs w \<and> open_socks w' = open_socks w \<and> length (l_msgs w') = length (l_msgs w)"
proof (cases "l_ctxs w c")
  case None
  then have "same_tables w w'" "l_msgs w' = l_msgs w"
    using assms(2) by (auto simp: zmq_ctx_set_def set_errno_def same_tables_def)
  with assms(1) same_tables_law [of w w'] show ?thesis by simp
next
  case (Some y)
  then obtain x m where y: "l_ctxs w c = Some (x, m)" by (cases y) auto
  obtain e x' where x': "ctx_set (e_max_fds eng) opt (IntVal v) x = (e, x')" by fastforce
  have w': "l_ctxs w' = (l_ctxs w)(c \<mapsto> (x', m))" "l_owner w' = l_owner w" "l_next_sock w' = l_next_sock w"
    "l_next_ctx w' = l_next_ctx w" "l_msgs w' = l_msgs w"
    using assms(2) y x' by (auto simp: zmq_ctx_set_def finish_call_def set_errno_def split: option.splits)
  have "ctx_inv (x, m)" by (rule lib_invD(1) [OF assms(1) y])
  then have "ctx_inv (x', m)" using ctx_inv_cong [OF ctx_set_fields [OF x'], of m] by simp
  then have "lib_inv w'" by (rule lib_inv_replace [OF assms(1) _ y _ w'(1,2,4,3)]) simp
  moreover have "terminating x' = terminating x" using ctx_set_fields [OF x'] by simp
  then have "open_ctxs w' = open_ctxs w" using open_replace(1) [OF y w'(1)] y by (auto simp: open_ctxs_def)
  moreover have "open_socks w' = open_socks w" using open_replace(2) [OF y w'(1)] y by (auto simp: open_socks_def)
  ultimately show ?thesis using w' by simp
qed

lemma as_socket_base_open:
  assumes "lib_inv w" "(s, c) \<in> open_socks w"
  obtains x m k where "as_socket_base s w = Some (c, x, m, k)" "l_ctxs w c = Some (x, m)" "m s = Some k" "s_phase k = Open"
    "ctx_inv (x, m)"
proof -
  from assms(2) obtain x m k where y: "l_ctxs w c = Some (x, m)" "m s = Some k" "s_phase k = Open" by (auto simp: open_socks_def)
  with lib_invD [OF assms(1) y(1)] have "ctx_inv (x, m)" "l_owner w s = Some c" by auto
  with y that show ?thesis by (simp add: as_socket_base_def)
qed

lemma zmq_close_law:
  assumes "lib_inv w" "(s, c) \<in> open_socks w" "zmq_close s w = (r, w')"
  shows "lib_inv w' \<and> open_ctxs w' = open_ctxs w \<and> length (l_msgs w') = length (l_msgs w) \<and> open_socks w' = open_socks w - {(s, c)}"
proof -
  obtain x m k where y: "as_socket_base s w = Some (c, x, m, k)" "l_ctxs w c = Some (x, m)" "m s = Some k" "s_phase k = Open"
    "ctx_inv (x, m)" by (rule as_socket_base_open [OF assms(1,2)])
  then have "\<not> starting x" by (auto simp: ctx_inv_def)
  then obtain rp where rp: "c_reaper x = Some rp" using y(5) by (auto simp: ctx_inv_def)
  define x' m' where "x' = x\<lparr>c_reaper := Some (rp\<lparr>r_mailbox := r_mailbox rp @ [RReap s]\<rparr>)\<rparr>" "m' = m(s \<mapsto> k\<lparr>s_phase := sock_phase.Closed\<rparr>)"
  have run: "socket_close s k x m = Some (x', m')" using rp by (simp add: socket_close_def reaper_send_def x'_m'_def)
  have w': "w' = w\<lparr>l_ctxs := (l_ctxs w)(c \<mapsto> (x', m'))\<rparr>" using assms(3) y(1) run by (simp add: zmq_close_def)
  then have w'_eqs: "l_ctxs w' = (l_ctxs w)(c \<mapsto> (x', m'))" "l_owner w' = l_owner w" "l_next_ctx w' = l_next_ctx w"
    "l_next_sock w' = l_next_sock w" "l_msgs w' = l_msgs w" by simp_all
  have "lib_inv w'"
    by (rule lib_inv_replace [OF assms(1) socket_close_inv [OF y(5,3,4) run] y(2) _ w'_eqs(1-4)]) (use y(3) in \<open>auto simp: x'_m'_def\<close>)
  moreover have "open_ctxs w' = open_ctxs w"
    using open_replace(1) [OF y(2) w'_eqs(1)] y(2) by (auto simp: open_ctxs_def x'_m'_def)
  moreover have "open_socks w' = open_socks w - {(s, c)}"
    using open_replace(2) [OF y(2) w'_eqs(1)] y by (auto simp: open_socks_def x'_m'_def)
  ultimately show ?thesis using w'_eqs by simp
qed

lemma create_socket_open:
  assumes "ctx_inv (x, m)" "s \<notin> dom m" "\<not> terminating x" "create_socket good_env mb c s ty ids x m = Some (r, ids', x', m')"
  shows "ctx_inv (x', m') \<and> \<not> terminating x'
    \<and> (case r of Inl e \<Rightarrow> m' = m | Inr h \<Rightarrow> h = s \<and> dom m' = insert s (dom m) \<and> with_phase Open m' = insert s (with_phase Open m))"
proof -
  have env: "env_ok good_env" by (simp add: env_ok_def good_env_def)
  obtain e x1 where x1: "(if starting x then start good_env x else Some (None, x)) = Some (e, x1)"
    using assms(3,4) by (auto simp: create_socket_def split: Option.bind_splits if_splits)
  have inv: "e = None" "\<not> terminating x1"
    using start_inv [OF assms(1) _ env, of e x1] x1 assms(3) by (auto split: if_splits)
  have "take_slot mb c s ty ids x1 m = Some (r, ids', x', m')"
    using assms(3,4) x1 inv(1) by (simp add: create_socket_def)
  then show ?thesis
  proof (cases rule: take_slot_cases)
    case refused
    with create_socket_inv [OF assms(1) env assms(2,4)] inv(2) show ?thesis by auto
  next
    case (taken es t k)
    with create_socket_inv [OF assms(1) env assms(2,4)] inv(2) show ?thesis by auto
  qed
qed

lemma zmq_socket_law:
  assumes "lib_inv w" "c \<in> open_ctxs w" "zmq_socket eng c ty w = (sp, w')"
  shows "lib_inv w' \<and> open_ctxs w' = open_ctxs w \<and> length (l_msgs w') = length (l_msgs w)
    \<and> open_socks w' = open_socks w \<union> set_option sp \<times> {c} \<and> set_option sp \<inter> fst ` open_socks w = {}"
proof -
  from assms(2) obtain x m where y: "l_ctxs w c = Some (x, m)" "\<not> terminating x" by (auto simp: open_ctxs_def)
  note inv = lib_invD [OF assms(1) y(1)]
  obtain n e1 where n: "e_reaper_steps eng (l_ext w) = (n, e1)" by fastforce
  obtain mb e2 where mb: "e_mailbox eng e1 = (mb, e2)" by fastforce
  obtain x1 m1 where x1: "(case (if starting x then None else reaper_run n x m) of None \<Rightarrow> (x, m) | Some y \<Rightarrow> y) = (x1, m1)"
    by fastforce
  have r1: "ctx_inv (x1, m1)" "with_phase Open m1 = with_phase Open m" "\<not> terminating x1" "dom m1 \<subseteq> dom m"
    using x1 inv(1) y(2) reaper_run_inv [of x m n x1 m1] by (auto split: option.splits if_splits)
  let ?s = "l_next_sock w"
  have fresh: "?s \<notin> dom m" using inv(3) by (meson domD less_irrefl)
  have unused: "(?s, c') \<notin> open_socks w" for c'
    using lib_invD(3) [OF assms(1)] by (fastforce simp: open_socks_def)
  have run: "zmq_socket eng c ty w = (let w1 = w\<lparr>l_ext := e2\<rparr> in
      case create_socket good_env mb c ?s ty (l_ids w) x1 m1 of
             None \<Rightarrow> (None, w1\<lparr>l_stuck := True\<rparr>)
           | Some (r, ids, x2, m2) \<Rightarrow>
               (let w2 = w1\<lparr>l_ctxs := (l_ctxs w1)(c \<mapsto> (x2, m2)), l_ids := ids\<rparr>
                in case r of
                     Inl er \<Rightarrow> (None, set_errno er w2)
                   | Inr h \<Rightarrow> (Some h, w2\<lparr>l_owner := (l_owner w2)(?s \<mapsto> c), l_next_sock := ?s + 1\<rparr>)))"
    using y(1) n mb x1 by (simp add: zmq_socket_def Let_def split: option.split prod.split sum.split)
  show ?thesis
  proof (cases "create_socket good_env mb c ?s ty (l_ids w) x1 m1")
    case None
    then have "sp = None" "same_tables w w'" "l_msgs w' = l_msgs w"
      using run assms(3) by (auto simp: same_tables_def)
    with assms(1) same_tables_law [of w w'] show ?thesis by simp
  next
    case (Some z)
    obtain r ids x2 m2 where z: "z = (r, ids, x2, m2)" by (cases z) auto
    have s1: "?s \<notin> dom m1" using fresh r1(4) by blast
    have c2: "ctx_inv (x2, m2)" "\<not> terminating x2"
      "case r of Inl e \<Rightarrow> m2 = m1 | Inr h \<Rightarrow> h = ?s \<and> dom m2 = insert ?s (dom m1) \<and> with_phase Open m2 = insert ?s (with_phase Open m1)"
      using create_socket_open [OF r1(1) s1 r1(3) Some [unfolded z]] by auto
    have ctxs: "l_ctxs w' = (l_ctxs w)(c \<mapsto> (x2, m2))" "l_next_ctx w' = l_next_ctx w" "l_msgs w' = l_msgs w"
      using run assms(3) Some z by (auto simp: Let_def set_errno_def split: sum.splits)
    have open_c: "open_ctxs w' = open_ctxs w" using open_replace(1) [OF y(1) ctxs(1)] c2(2) assms(2) by auto
    note open_s = open_replace(2) [OF y(1) ctxs(1)]
    show ?thesis
    proof (cases r)
      case (Inl er)
      then have w': "sp = None" "l_owner w' = l_owner w" "l_next_sock w' = l_next_sock w"
        using run assms(3) Some z by (auto simp: Let_def set_errno_def)
      have "lib_inv w'"
        by (rule lib_inv_replace [OF assms(1) c2(1) y(1) _ ctxs(1) w'(2) ctxs(2) w'(3)]) (use c2(3) Inl r1(4) in auto)
      moreover have "open_socks w' = open_socks w"
        using open_s c2(3) Inl r1(2) y(1) by (auto simp: open_socks_def)
      ultimately show ?thesis using w' open_c ctxs by simp
    next
      case (Inr h)
      then have w': "sp = Some ?s" "l_owner w' = (l_owner w)(?s \<mapsto> c)" "l_next_sock w' = ?s + 1"
        using run assms(3) Some z c2(3) by (auto simp: Let_def)
      have "ctx_entry_ok w' c' y'" if "l_ctxs w' c' = Some y'" for c' y'
      proof (cases "c' = c")
        case True
        then have "y' = (x2, m2)" using that ctxs by simp
        moreover have "s < ?s \<and> l_owner w s = Some c" if "s \<in> dom m1" for s using inv(3) that r1(4) by auto
        ultimately show ?thesis using c2 Inr w' True inv(2) ctxs(2) fresh
          by (auto simp: ctx_entry_ok_def less_Suc_eq)
      next
        case False
        obtain x' m' where y': "y' = (x', m')" by fastforce
        then have "l_ctxs w c' = Some (x', m')" using that False ctxs by simp
        note old = lib_invD [OF assms(1) this]
        have "?s \<notin> dom m'" using old(3) by (meson domD less_irrefl)
        with old w' ctxs(2) y' show ?thesis by (auto simp: ctx_entry_ok_def dom_def less_Suc_eq)
      qed
      then have "lib_inv w'" unfolding lib_inv_def by blast
      moreover have "open_socks w' = insert (?s, c) (open_socks w)"
        using open_s c2(3) Inr r1(2) y(1) by (auto simp: open_socks_def)
      ultimately show ?thesis using w' open_c ctxs unused by auto
    qed
  qed
qed

lemma reaper_fuel_enough:
  assumes "ctx_inv (x, m)" "\<not> starting x"
  shows "pending_work (x, m) \<le> reaper_fuel x"
proof -
  from assms have ok: "slots_ok x m" by (simp add: ctx_inv_def)
  then have "with_phase Reaping m \<subseteq> set (c_sockets x)" by (auto simp: slots_ok_def)
  then have "card (with_phase Reaping m) \<le> length (c_sockets x)"
    by (meson List.finite_set card_length card_mono le_trans)
  then show ?thesis by (auto simp: pending_work_def reaper_fuel_def split: option.splits)
qed

lemma terminate_begin_fields:
  assumes "ctx_inv (x, m)" "\<not> starting x"
  shows "\<exists>x1 m1. terminate_begin x m = Some (x1, m1) \<and> terminating x1 \<and> \<not> starting x1 \<and> dom m1 \<subseteq> dom m
    \<and> with_phase Open m1 = with_phase Open m \<and> ctx_inv (x1, m1)"
proof -
  from assms obtain r where r: "c_reaper x = Some r" by (auto simp: ctx_inv_def)
  then have "terminate_begin x m \<noteq> None" by (simp add: terminate_begin_def reaper_send_def Let_def)
  then obtain x1 m1 where run: "terminate_begin x m = Some (x1, m1)" by auto
  then have "terminating x1 \<and> \<not> starting x1 \<and> (m1 = m \<or> m1 = stop_sockets (c_sockets x) m)"
    using assms(2) r by (auto simp: terminate_begin_def reaper_send_def Let_def split: if_splits)
  moreover have "dom (stop_sockets (c_sockets x) m) = dom m" by (auto simp: stop_sockets_def split: if_splits)
  ultimately show ?thesis using run terminate_begin_inv [OF assms run] by auto
qed

text \<open>The outcomes of \<^verbatim>\<open>zmq_ctx_term\<close>: the context is gone, or it is still there and terminating.\<close>

lemma zmq_ctx_term_outcome:
  assumes "lib_inv w" "l_ctxs w c = Some (x, m)" "zmq_ctx_term eng c w = (r, w')"
  shows "(r = 0 \<and> l_ctxs w' = (l_ctxs w)(c := None) \<and> with_phase Open m = {}
      \<or> r = -1 \<and> (l_errno w' = EINTR \<or> l_stuck w') \<and> (\<exists>x' m'. l_ctxs w' = (l_ctxs w)(c \<mapsto> (x', m')) \<and> terminating x' \<and> ctx_inv (x', m')
            \<and> dom m' \<subseteq> dom m \<and> with_phase Open m' = with_phase Open m))
    \<and> l_owner w' = l_owner w \<and> l_next_ctx w' = l_next_ctx w \<and> l_next_sock w' = l_next_sock w \<and> l_msgs w' = l_msgs w"
proof (cases "starting x")
  case True
  with assms lib_invD(1) [OF assms(1,2)] show ?thesis by (auto simp: zmq_ctx_term_def ctx_inv_def)
next
  case False
  note inv = lib_invD(1) [OF assms(1,2)]
  obtain x1 m1 where b: "terminate_begin x m = Some (x1, m1)" "terminating x1" "\<not> starting x1" "dom m1 \<subseteq> dom m"
    "with_phase Open m1 = with_phase Open m" "ctx_inv (x1, m1)"
    using terminate_begin_fields [OF inv False] by blast
  obtain how e where how: "e_wait eng (l_ext w) = (how, e)" by fastforce
  define w1 where "w1 = w\<lparr>l_ext := e, l_ctxs := (l_ctxs w)(c \<mapsto> (x1, m1))\<rparr>"
  have run: "(r, w') = (case how of
                   Interrupted \<Rightarrow> (-1, set_errno EINTR w1)
                 | Lingers \<Rightarrow> (-1, w1\<lparr>l_stuck := True\<rparr>)
                 | Completes \<Rightarrow> (case reaper_run (reaper_fuel x1) x1 m1 of
                     None \<Rightarrow> (-1, w1\<lparr>l_stuck := True\<rparr>)
                   | Some (x2, m2) \<Rightarrow> (case terminate_end x2 of
                       None \<Rightarrow> (-1, w1\<lparr>l_stuck := True, l_ctxs := (l_ctxs w1)(c \<mapsto> (x2, m2))\<rparr>)
                     | Some _ \<Rightarrow> (0, w1\<lparr>l_ctxs := (l_ctxs w1)(c := None)\<rparr>))))"
    using assms(2,3) False b(1) how
    by (auto simp: zmq_ctx_term_def w1_def Let_def split: option.splits prod.splits wait.splits)
  show ?thesis
  proof (cases "how = Completes \<and> reaper_run (reaper_fuel x1) x1 m1 \<noteq> None")
    case False
    with run have "r = -1" "l_ctxs w' = (l_ctxs w)(c \<mapsto> (x1, m1))" "l_errno w' = EINTR \<or> l_stuck w'" "l_owner w' = l_owner w"
      "l_next_ctx w' = l_next_ctx w" "l_next_sock w' = l_next_sock w" "l_msgs w' = l_msgs w"
      by (auto simp: w1_def set_errno_def split: wait.splits option.splits)
    with b show ?thesis by blast
  next
    case True
    then obtain x2 m2 where x2: "reaper_run (reaper_fuel x1) x1 m1 = Some (x2, m2)" by auto
    note ri = reaper_run_inv [OF b(6) x2]
    have io: "l_owner w' = l_owner w" "l_next_ctx w' = l_next_ctx w" "l_next_sock w' = l_next_sock w" "l_msgs w' = l_msgs w"
      using run True x2 by (auto simp: w1_def split: option.splits)
    show ?thesis
    proof (cases "terminate_end x2")
      case None
      with run True x2 have "r = -1" "l_ctxs w' = (l_ctxs w)(c \<mapsto> (x2, m2))" "l_stuck w'" by (auto simp: w1_def)
      moreover have "terminating x2" "ctx_inv (x2, m2)" "dom m2 \<subseteq> dom m" "with_phase Open m2 = with_phase Open m"
        using ri b by (simp_all add: subset_trans [of "dom m2" "dom m1" "dom m"])
      ultimately show ?thesis using io by blast
    next
      case (Some x3)
      then have "c_sockets x2 = []" by (auto simp: terminate_end_def split: Option.bind_splits)
      moreover have "slots_ok x2 m2" using ri b(3) by (simp add: ctx_inv_def)
      ultimately have "dom m2 = {}" by (simp add: slots_ok_def)
      then have "with_phase Open m = {}" using ri b(5) by auto
      with run True x2 Some io show ?thesis by (auto simp: w1_def)
    qed
  qed
qed

lemma zmq_ctx_term_law:
  assumes "lib_inv w" "c \<in> open_ctxs w" "zmq_ctx_term eng c w = (r, w')"
  shows "lib_inv w' \<and> open_ctxs w' = open_ctxs w - {c} \<and> length (l_msgs w') = length (l_msgs w) \<and> open_socks w' = open_socks w"
proof -
  from assms(2) obtain x m where y: "l_ctxs w c = Some (x, m)" by (auto simp: open_ctxs_def)
  note out = zmq_ctx_term_outcome [OF assms(1) y assms(3)]
  then consider (gone) "l_ctxs w' = (l_ctxs w)(c := None)" "with_phase Open m = {}"
    | (kept) x' m' where "l_ctxs w' = (l_ctxs w)(c \<mapsto> (x', m'))" "terminating x'" "ctx_inv (x', m')" "dom m' \<subseteq> dom m"
        "with_phase Open m' = with_phase Open m" by blast
  then show ?thesis
  proof cases
    case gone
    have "lib_inv w'" using assms(1) out gone(1) by (auto simp: lib_inv_def ctx_entry_ok_def)
    moreover have "open_ctxs w' = open_ctxs w - {c}" using gone by (auto simp: open_ctxs_def)
    moreover have "open_socks w' = open_socks w" using gone y by (auto simp: open_socks_def simp del: with_phase_simps(4))
    ultimately show ?thesis using out by simp
  next
    case kept
    have "lib_inv w'" by (rule lib_inv_replace [OF assms(1) kept(3) y _ kept(1)]) (use kept(4) out in auto)
    moreover have "open_ctxs w' = open_ctxs w - {c}" using open_replace(1) [OF y kept(1)] kept(2) by simp
    moreover have "open_socks w' = open_socks w" using open_replace(2) [OF y kept(1)] kept(5) y by (auto simp: open_socks_def)
    ultimately show ?thesis using out by simp
  qed
qed

lemma socket_call_law:
  assumes "lib_inv w" "socket_call s f w = (r, w')"
  shows "lib_inv w' \<and> open_ctxs w' = open_ctxs w \<and> open_socks w' = open_socks w \<and> length (l_msgs w') = length (l_msgs w)"
  using socket_call_tables [of w s f] assms same_tables_law [of w w'] by simp

lemma ext_only_law:
  "lib_inv w \<Longrightarrow> w\<lparr>l_ext := x\<rparr> = w' \<Longrightarrow>
   lib_inv w' \<and> open_ctxs w' = open_ctxs w \<and> open_socks w' = open_socks w \<and> length (l_msgs w') = length (l_msgs w)"
  using same_tables_open [of w "w\<lparr>l_ext := x\<rparr>"] by (auto simp: same_tables_def)

interpretation capi_lib: zmq_library "capi eng" lib_inv open_ctxs open_socks "\<lambda>w. length (l_msgs w)" for eng :: "'x engine"
proof (unfold_locales, goal_cases)
  case (1 w cp w')
  then show ?case using zmq_ctx_new_law [of w eng cp w'] by (simp add: capi_def)
next
  case (2 w c ty sp w')
  then show ?case using zmq_socket_law [of w c eng ty sp w'] by (simp add: capi_def)
next
  case (3 w s c r w')
  then show ?case using zmq_close_law [of w s c r w'] by (simp add: capi_def)
next
  case (4 w c r w')
  then show ?case using zmq_ctx_term_law [of w c eng r w'] by (simp add: capi_def)
next
  case (5 w c opt v r w')
  then show ?case using zmq_ctx_set_law [of w eng c opt v r w'] by (simp add: capi_def)
next
  case (6 w s opt v r w')
  then show ?case using socket_call_law [of w s _ r w'] by (simp add: capi_def zmq_setsockopt_int_def)
next
  case (7 w s opt b r w')
  then show ?case using socket_call_law [of w s _ r w'] by (simp add: capi_def zmq_setsockopt_buf_def)
next
  case (8 w s ep r w')
  then show ?case using socket_call_law [of w s _ r w'] by (simp add: capi_def zmq_bind_def)
next
  case (9 w s ep r w')
  then show ?case using socket_call_law [of w s _ r w'] by (simp add: capi_def zmq_connect_def)
next
  case (10 w s m f r w')
  then show ?case using zmq_send_tables [of w eng s m f] same_tables_law [of w w'] by (simp add: capi_def)
next
  case (11 w r w')
  then have "same_tables w w'" by (auto simp: capi_def zmq_msg_init_def same_tables_def)
  with 11 same_tables_law [of w w'] show ?case by (auto simp: capi_def zmq_msg_init_def)
next
  case (12 w s f rd w')
  then show ?case using zmq_msg_recv_tables [of w eng s f] same_tables_law [of w w'] by (simp add: capi_def)
next
  case (13 w r w')
  then show ?case using zmq_msg_close_tables [of w] same_tables_law [of w w'] by (simp add: capi_def)
next
  case (14 w p w')
  then show ?case using ext_only_law [of w _ w'] by (simp add: capi_def)
next
  case (15 w n w')
  then show ?case using ext_only_law [of w _ w'] by (simp add: capi_def)
next
  case (16 w m w')
  then show ?case using ext_only_law [of w _ w'] by (simp add: capi_def)
qed

definition empty_lib :: "'x \<Rightarrow> 'x lib" where
  "empty_lib x = \<lparr>l_ctxs = Map.empty, l_owner = Map.empty, l_next_ctx = 0, l_next_sock = 0, l_ids = 0, l_errno = EOK,
     l_msgs = [], l_heap = mv_heap (no_msgs 0), l_next_block = 0, l_stuck = False, l_ext = x\<rparr>"


definition quiet_engine :: "unit engine" where
  "quiet_engine = \<lparr>e_network = (\<lambda>x. (True, x)), e_mailbox = (\<lambda>x. (None, x)), e_reaper_steps = (\<lambda>x. (0, x)),
     e_wait = (\<lambda>x. (Completes, x)), e_malloc = (\<lambda>x. (True, x)), e_max_fds = -1,
     e_setsockopt_int = (\<lambda>_ _ _ x. (None, x)), e_setsockopt_buf = (\<lambda>_ _ _ x. (None, x)), e_bind = (\<lambda>_ _ x. (None, x)),
     e_connect = (\<lambda>_ _ x. (None, x)), e_send = (\<lambda>_ _ _ x. (None, x)), e_recv = (\<lambda>_ _ x. (Inl EAGAIN, x)),
     e_strerror = (\<lambda>_. []), e_access = (\<lambda>_ _. False), e_unlink = (\<lambda>_ x. x), e_usleep = (\<lambda>_ x. x), e_cout = (\<lambda>_ x. x)\<rparr>"


text \<open>\<^verbatim>\<open>Close\<close> ignores an interrupted termination: when a signal interrupts the wait in \<^verbatim>\<open>zmq_ctx_term\<close>, the call has to be
  repeated, but the bridge reports success and drops its only pointer to the context, which
  stays in memory with its threads.\<close>

theorem interrupted_close_leaks_context:
  assumes "lib_inv w" "initialized o1" "w_context o1 = Some c" "w_socket o1 = Some s" "(s, c) \<in> open_socks w"
    and "\<forall>x. fst (e_wait eng x) = Interrupted" "Close (capi eng) o1 w = (e, o2, w2)"
  shows "e = SUCCESS \<and> w_context o2 = None \<and> (\<exists>y. l_ctxs w2 c = Some y)"
proof -
  define w1 where "w1 = (if mode (config o1) = SERVER then remove_socket_file (capi eng) o1 ''Removing socket file: '' w else w)"
  have log: "l_ctxs (Log (capi eng) o' m' u) = l_ctxs u" "l_owner (Log (capi eng) o' m' u) = l_owner u" for o' m' u
    by (simp_all add: Log_def capi_def)
  have unlink: "l_ctxs (os_unlink (capi eng) p u) = l_ctxs u" "l_owner (os_unlink (capi eng) p u) = l_owner u" for p u
    by (simp_all add: capi_def)
  have w1: "l_ctxs w1 = l_ctxs w" "l_owner w1 = l_owner w"
    by (simp_all add: w1_def remove_socket_file_def Let_def log unlink)
  obtain x m k where y: "as_socket_base s w = Some (c, x, m, k)" "l_ctxs w c = Some (x, m)" "m s = Some k" "s_phase k = Open"
    "ctx_inv (x, m)" by (rule as_socket_base_open [OF assms(1,5)])
  then have ns: "\<not> starting x" by (auto simp: ctx_inv_def)
  then obtain rp where rp: "c_reaper x = Some rp" using y(5) by (auto simp: ctx_inv_def)
  have "as_socket_base s w1 = Some (c, x, m, k)" using y(1) w1 by (simp add: as_socket_base_def)
  then have cl: "l_ctxs (snd (zmq_close s w1)) c
      = Some (x\<lparr>c_reaper := Some (rp\<lparr>r_mailbox := r_mailbox rp @ [RReap s]\<rparr>)\<rparr>, m(s \<mapsto> k\<lparr>s_phase := sock_phase.Closed\<rparr>))"
    using rp by (simp add: zmq_close_def socket_close_def reaper_send_def)
  have "l_ctxs (snd (zmq_ctx_term eng c u)) c \<noteq> None"
    if u: "l_ctxs u c = Some (x', m')" "\<not> starting x'" for u x' m'
  proof (cases "terminate_begin x' m'")
    case (Some z)
    obtain x1 m1 where "z = (x1, m1)" by fastforce
    moreover obtain e' where "e_wait eng (l_ext u) = (Interrupted, e')" using assms(6) by (metis prod.collapse)
    ultimately show ?thesis using u Some by (simp add: zmq_ctx_term_def set_errno_def)
  qed (use u in \<open>simp add: zmq_ctx_term_def\<close>)
  from this [OF cl] ns have kept: "l_ctxs (snd (zmq_ctx_term eng c (snd (zmq_close s w1)))) c \<noteq> None" by simp
  have api: "api_close (capi eng) = zmq_close" "api_ctx_term (capi eng) = zmq_ctx_term eng" by (simp_all add: capi_def)
  have "e = SUCCESS" "w_context o2 = None" "l_ctxs w2 = l_ctxs (snd (zmq_ctx_term eng c (snd (zmq_close s w1))))"
    using assms(2-4,7) unfolding Close_def Cleanup_def w1_def [symmetric] CleanupSocket_def api
    by (auto simp: Let_def log)
  with kept show ?thesis by auto
qed

definition open_lib :: "unit lib" where
  "open_lib = (empty_lib ())\<lparr>l_ctxs := [0 \<mapsto> open_ctx], l_owner := [7 \<mapsto> 0], l_next_ctx := 1, l_next_sock := 8\<rparr>"

theorem interrupted_close_leaks_context_witness:
  "let eng = quiet_engine\<lparr>e_wait := (\<lambda>x. (Interrupted, x))\<rparr>;
       o1 = new_wrapper\<lparr>initialized := True, w_context := Some 0, w_socket := Some 7\<rparr>;
       (e, o2, w2) = Close (capi eng) o1 open_lib
   in e = SUCCESS \<and> w_context o2 = None \<and> l_ctxs w2 0 \<noteq> None"
proof -
  let ?eng = "quiet_engine\<lparr>e_wait := (\<lambda>x. (Interrupted, x))\<rparr>"
  let ?o = "new_wrapper\<lparr>initialized := True, w_context := Some 0, w_socket := Some 7\<rparr>"
  have "ctx_entry_ok open_lib 0 open_ctx"
    using ctx_reachable_inv [OF ctx_reaches(1)] by (simp add: ctx_entry_ok_def open_ctx_fields(2) open_lib_def)
  then have inv: "lib_inv open_lib" by (simp add: lib_inv_def open_lib_def empty_lib_def)
  have "l_ctxs open_lib 0 = Some (fst open_ctx, snd open_ctx)" by (simp add: open_lib_def)
  moreover have "7 \<in> with_phase Open (snd open_ctx)" by (simp add: open_ctx_fields(2))
  ultimately have sock: "(7, 0) \<in> open_socks open_lib" unfolding open_socks_def by blast
  obtain e o2 w2 where run: "Close (capi ?eng) ?o open_lib = (e, o2, w2)" by (metis prod.exhaust)
  have "e = SUCCESS \<and> w_context o2 = None \<and> (\<exists>y. l_ctxs w2 0 = Some y)"
    by (rule interrupted_close_leaks_context [OF inv _ _ _ sock _ run]) simp_all
  with run show ?thesis by auto
qed

end
