(* ===== verification/Codec.thy ===== *)
theory Codec
  imports Wire Msg
begin

unbundle bit_operations_syntax

text \<open>
  The framing codecs: encoder.hpp with v1_encoder.cpp, v2_encoder.cpp, v3_1_encoder.cpp and
  raw_encoder.cpp, decoder.hpp with v1_decoder.cpp and v2_decoder.cpp. A frame is what the
  codecs see of a \<^verbatim>\<open>msg_t\<close>: its flags and its bytes. The base classes are state machines
  that move blocks between a buffer and the place the current step names; the model keeps,
  for the encoder, the bytes still to be written by the current step and, for the decoder, the
  bytes read for it, so the pointers of the zero-copy paths do not appear. Whether the memory for a
  message body can be had is the argument \<open>alloc\<close>.
\<close>

record frame =
  fr_flags :: byte
  fr_data :: bytes

definition frame_of :: "msg \<Rightarrow> msg_heap \<Rightarrow> frame option" where
  "frame_of m h = map_option (\<lambda>b. \<lparr>fr_flags = m_flags m, fr_data = b\<rparr>) (msg_bytes m h)"

definition fr_is :: "byte \<Rightarrow> frame \<Rightarrow> bool" where
  "fr_is cmd f \<longleftrightarrow> fr_flags f AND CMD_TYPE_MASK = cmd"

definition has :: "byte \<Rightarrow> byte \<Rightarrow> bool" where
  "has fl x \<longleftrightarrow> x AND fl \<noteq> 0"

subsection \<open>Encoders\<close>

datatype proto = V1 | V2 | V3_1 | Raw

definition more_flag :: byte where "more_flag = 1"
definition large_flag :: byte where "large_flag = 2"
definition command_flag :: byte where "command_flag = 4"

definition sub_cmd_name :: bytes where
  "sub_cmd_name = 9 # map (\<lambda>ch. of_nat (of_char ch)) ''SUBSCRIBE''"

definition cancel_cmd_name :: bytes where
  "cancel_cmd_name = 6 # map (\<lambda>ch. of_nat (of_char ch)) ''CANCEL''"

text \<open>The header the step \<^verbatim>\<open>message_ready\<close> builds in its temporary buffer.\<close>

definition v1_message_ready :: "frame \<Rightarrow> bytes" where
  "v1_message_ready f =
     (let size0 = length (fr_data f) + 1;
          size = (if fr_is f_subscribe f \<or> fr_is f_cancel f then size0 + 1 else size0);
          flags = fr_flags f AND f_more;
          hdr = (if size < 255 then [of_nat size, flags] else 255 # put_uint64 (of_nat size) @ [flags])
      in if fr_is f_subscribe f then hdr @ [1] else if fr_is f_cancel f then hdr @ [0] else hdr)"

definition v2_message_ready :: "frame \<Rightarrow> bytes" where
  "v2_message_ready f =
     (let pf = (if has f_more (fr_flags f) then more_flag else 0)
             OR (if length (fr_data f) > 255 then large_flag else 0)
             OR (if has f_command (fr_flags f) then command_flag else 0);
          size = (if fr_is f_subscribe f \<or> fr_is f_cancel f then length (fr_data f) + 1 else length (fr_data f));
          hdr = (if size > 255 then pf # put_uint64 (of_nat size) else [pf, of_nat size])
      in if fr_is f_subscribe f then hdr @ [1] else if fr_is f_cancel f then hdr @ [0] else hdr)"

definition v3_1_message_ready :: "frame \<Rightarrow> bytes" where
  "v3_1_message_ready f =
     (let size = length (fr_data f)
             + (if fr_is f_subscribe f then length sub_cmd_name else if fr_is f_cancel f then length cancel_cmd_name else 0);
          pf = (if has f_more (fr_flags f) then more_flag else 0)
             OR (if has f_command (fr_flags f) \<or> fr_is f_subscribe f \<or> fr_is f_cancel f then command_flag else 0)
             OR (if size > 255 then large_flag else 0);
          hdr = (if size > 255 then pf # put_uint64 (of_nat size) else [pf, of_nat size])
      in if fr_is f_subscribe f then hdr @ sub_cmd_name else if fr_is f_cancel f then hdr @ cancel_cmd_name else hdr)"

datatype estep = MessageReady | SizeReady

text \<open>The bytes to write, the next step and whether the message is done after them.\<close>

fun run_estep :: "proto \<Rightarrow> estep \<Rightarrow> frame \<Rightarrow> bytes \<times> estep \<times> bool" where
  "run_estep V1 MessageReady f = (v1_message_ready f, SizeReady, False)"
| "run_estep V2 MessageReady f = (v2_message_ready f, SizeReady, False)"
| "run_estep V3_1 MessageReady f = (v3_1_message_ready f, SizeReady, False)"
| "run_estep Raw MessageReady f = (fr_data f, MessageReady, True)"
| "run_estep p SizeReady f = (fr_data f, MessageReady, True)"

record encoder =
  e_out :: bytes
  e_next :: estep
  e_new_msg :: bool
  e_in_progress :: "frame option"

definition enc_init :: encoder where
  "enc_init = \<lparr>e_out = [], e_next = MessageReady, e_new_msg = True, e_in_progress = None\<rparr>"

definition enc_step :: "proto \<Rightarrow> frame \<Rightarrow> encoder \<Rightarrow> encoder" where
  "enc_step p f e = (case run_estep p (e_next e) f of (out, n, b) \<Rightarrow> e\<lparr>e_out := out, e_next := n, e_new_msg := b\<rparr>)"

definition load_msg :: "proto \<Rightarrow> frame \<Rightarrow> encoder \<Rightarrow> encoder option" where
  "load_msg p f e = do {
     zmq_assert (e_in_progress e = None);
     Some (enc_step p f (e\<lparr>e_in_progress := Some f\<rparr>))
   }"

text \<open>The loop of \<^verbatim>\<open>encode\<close>: \<open>room\<close> is what is left of the buffer, \<open>own\<close> says that the caller gave no buffer and
  nothing was written yet, when a block at least as large as the buffer is handed out as it is.\<close>

lemma run_estep_progress: "run_estep p n f = (out, n', b) \<Longrightarrow> out = [] \<Longrightarrow> b"
  by (cases "(p, n, f)" rule: run_estep.cases)
    (auto simp: v1_message_ready_def v2_message_ready_def v3_1_message_ready_def Let_def split: if_splits)

function encode_loop :: "proto \<Rightarrow> bool \<Rightarrow> nat \<Rightarrow> frame \<Rightarrow> encoder \<Rightarrow> bytes \<times> encoder" where
  "encode_loop p own room f e =
     (if room = 0 then ([], e)
      else if e_out e = [] \<and> e_new_msg e then ([], e\<lparr>e_in_progress := None\<rparr>)
      else
        (let e1 = (if e_out e = [] then enc_step p f e else e)
         in if own \<and> length (e_out e1) \<ge> room then (e_out e1, e1\<lparr>e_out := []\<rparr>)
            else
              (let n = min (length (e_out e1)) room;
                   (r, e2) = encode_loop p (own \<and> n = 0) (room - n) f (e1\<lparr>e_out := drop n (e_out e1)\<rparr>)
               in (take n (e_out e1) @ r, e2))))"
  by pat_completeness auto

termination
proof (relation "measure (\<lambda>(p, own, room, f, e). 2 * room + of_bool (e_out e = [] \<and> \<not> e_new_msg e))", goal_cases)
  case (2 p own room f e e1 n)
  have new: "e_new_msg e1" if "e_out e1 = []"
    using that 2(2,3) run_estep_progress [of p "e_next e" f "e_out e1" "e_next e1" "e_new_msg e1"]
    by (auto simp: enc_step_def split: prod.splits if_splits)
  show ?case
  proof (cases "e_out e1 = []")
    case True
    then have "e_out e = []" using 2(3) by (cases "e_out e = []") simp_all
    with True new 2(1,2,5) show ?thesis by simp
  next
    case False
    then have "0 < n" "n \<le> room" using 2(1,5) by simp_all
    then have "2 * (room - n) + 1 < 2 * room" by simp
    then show ?thesis by (simp add: of_bool_def)
  qed
qed simp

declare encode_loop.simps [simp del]

text \<open>\<^verbatim>\<open>encode\<close>: \<open>None\<close> for the encoder's own buffer of \<open>bufsize\<close> bytes, or the size of the caller's buffer.\<close>

definition encode :: "proto \<Rightarrow> nat \<Rightarrow> nat option \<Rightarrow> encoder \<Rightarrow> bytes \<times> encoder" where
  "encode p bufsize buf e = (case e_in_progress e of
     None \<Rightarrow> ([], e)
   | Some f \<Rightarrow> encode_loop p (buf = None) (case buf of None \<Rightarrow> bufsize | Some n \<Rightarrow> n) f e)"

subsection \<open>Decoders\<close>

datatype dproto = D1 | D2

datatype dstep = FlagsReady | OneByteSizeReady | EightByteSizeReady | BodyReady

record decoder =
  d_next :: dstep
  d_to_read :: nat
  d_got :: bytes
  d_flags :: byte
  d_size :: nat
  d_msg :: frame

record dec_cfg =
  max_msg_size :: int
  alloc :: "nat \<Rightarrow> bool"

definition no_frame :: frame where
  "no_frame = \<lparr>fr_flags = 0, fr_data = []\<rparr>"

fun dec_init :: "dproto \<Rightarrow> decoder" where
  "dec_init D1 = \<lparr>d_next = OneByteSizeReady, d_to_read = 1, d_got = [], d_flags = 0, d_size = 0, d_msg = no_frame\<rparr>"
| "dec_init D2 = \<lparr>d_next = FlagsReady, d_to_read = 1, d_got = [], d_flags = 0, d_size = 0, d_msg = no_frame\<rparr>"

text \<open>\<^verbatim>\<open>next_step\<close>: read \<open>n\<close> bytes, then run the step.\<close>

definition next_step :: "nat \<Rightarrow> dstep \<Rightarrow> decoder \<Rightarrow> decoder" where
  "next_step n st d = d\<lparr>d_to_read := n, d_next := st, d_got := []\<rparr>"

definition v2_flags_ready :: "decoder \<Rightarrow> decoder" where
  "v2_flags_ready d =
     (let b = hd (d_got d);
          fl = (if has more_flag b then f_more else 0) OR (if has command_flag b then f_command else 0)
      in if has large_flag b then next_step 8 EightByteSizeReady (d\<lparr>d_flags := fl\<rparr>)
         else next_step 1 OneByteSizeReady (d\<lparr>d_flags := fl\<rparr>))"

definition v2_size_ready :: "dec_cfg \<Rightarrow> nat \<Rightarrow> decoder \<Rightarrow> errno + decoder" where
  "v2_size_ready cfg n d =
     (if max_msg_size cfg \<ge> 0 \<and> int n > max_msg_size cfg then Inl EMSGSIZE
      else if \<not> alloc cfg n then Inl ENOMEM
      else Inr (next_step n BodyReady (d\<lparr>d_size := n\<rparr>)))"

definition v1_init_body :: "dec_cfg \<Rightarrow> nat \<Rightarrow> decoder \<Rightarrow> errno + decoder" where
  "v1_init_body cfg n d =
     (if n = 0 then Inl EPROTO
      else if max_msg_size cfg \<ge> 0 \<and> int (n - 1) > max_msg_size cfg then Inl EMSGSIZE
      else if \<not> alloc cfg (n - 1) then Inl ENOMEM
      else Inr (next_step 1 FlagsReady (d\<lparr>d_size := n - 1\<rparr>)))"

definition v1_one_byte_size_ready :: "dec_cfg \<Rightarrow> decoder \<Rightarrow> errno + decoder" where
  "v1_one_byte_size_ready cfg d =
     (let b = hd (d_got d)
      in if b = 255 then Inr (next_step 8 EightByteSizeReady d) else v1_init_body cfg (unat b) d)"

definition v1_flags_ready :: "decoder \<Rightarrow> decoder" where
  "v1_flags_ready d = next_step (d_size d) BodyReady (d\<lparr>d_flags := hd (d_got d) AND f_more\<rparr>)"

definition body_ready :: "dproto \<Rightarrow> decoder \<Rightarrow> decoder" where
  "body_ready p d =
     (let d1 = d\<lparr>d_msg := \<lparr>fr_flags = d_flags d, fr_data = d_got d\<rparr>\<rparr>
      in case p of D1 \<Rightarrow> next_step 1 OneByteSizeReady d1 | D2 \<Rightarrow> next_step 1 FlagsReady d1)"

text \<open>One step action: an error (-1), a complete message (1), or go on (0).\<close>

definition run_dstep :: "dproto \<Rightarrow> dec_cfg \<Rightarrow> decoder \<Rightarrow> errno + bool \<times> decoder" where
  "run_dstep p cfg d =
     (case d_next d of
        BodyReady \<Rightarrow> Inr (True, body_ready p d)
      | FlagsReady \<Rightarrow> Inr (False, case p of D1 \<Rightarrow> v1_flags_ready d | D2 \<Rightarrow> v2_flags_ready d)
      | OneByteSizeReady \<Rightarrow>
          map_sum id (Pair False) (case p of D1 \<Rightarrow> v1_one_byte_size_ready cfg d | D2 \<Rightarrow> v2_size_ready cfg (unat (hd (d_got d))) d)
      | EightByteSizeReady \<Rightarrow> (case get_uint64 (d_got d) of
            None \<Rightarrow> Inl (EOther 0)
          | Some v \<Rightarrow> map_sum id (Pair False) (case p of D1 \<Rightarrow> v1_init_body cfg (unat v) d | D2 \<Rightarrow> v2_size_ready cfg (unat v) d)))"

text \<open>\<^verbatim>\<open>while (_to_read == 0)\<close>: run steps until one needs bytes, delivers a message or fails. The steps of a frame
  come in a fixed order.\<close>

fun dstep_rank :: "dproto \<Rightarrow> dstep \<Rightarrow> nat" where
  "dstep_rank D1 OneByteSizeReady = 3"
| "dstep_rank D1 EightByteSizeReady = 2"
| "dstep_rank D1 FlagsReady = 1"
| "dstep_rank D2 FlagsReady = 3"
| "dstep_rank D2 OneByteSizeReady = 2"
| "dstep_rank D2 EightByteSizeReady = 2"
| "dstep_rank _ BodyReady = 0"

lemma dstep_rank_less: "run_dstep p cfg d = Inr (False, d') \<Longrightarrow> dstep_rank p (d_next d') < dstep_rank p (d_next d)"
  by (cases p; cases "d_next d")
    (auto simp: run_dstep_def v1_one_byte_size_ready_def v1_init_body_def v1_flags_ready_def v2_flags_ready_def v2_size_ready_def
      next_step_def Let_def split: if_splits option.splits sum.splits)

function advance :: "dproto \<Rightarrow> dec_cfg \<Rightarrow> decoder \<Rightarrow> errno + bool \<times> decoder" where
  "advance p cfg d =
     (if d_to_read d \<noteq> 0 then Inr (False, d)
      else case run_dstep p cfg d of
          Inl e \<Rightarrow> Inl e
        | Inr (True, d') \<Rightarrow> Inr (True, d')
        | Inr (False, d') \<Rightarrow> advance p cfg d')"
  by pat_completeness auto

termination
  by (relation "measure (\<lambda>(p, cfg, d). dstep_rank p (d_next d))") (auto dest: dstep_rank_less)

declare advance.simps [simp del]

lemma advance_reads: "advance p cfg d = Inr (False, d') \<Longrightarrow> 0 < d_to_read d'"
  by (induction p cfg d rule: advance.induct) (subst (asm) (2) advance.simps, auto split: if_splits sum.splits prod.splits bool.splits)

datatype dresult = DErr errno | DMore | DMsg

text \<open>The copying loop of \<^verbatim>\<open>decode\<close> on the rest of the buffer; it returns what it did not use.\<close>

function decode :: "dproto \<Rightarrow> dec_cfg \<Rightarrow> bytes \<Rightarrow> decoder \<Rightarrow> dresult \<times> bytes \<times> decoder" where
  "decode p cfg xs d =
     (if xs = [] then (DMore, [], d)
      else
        (let n = min (d_to_read d) (length xs);
             d1 = d\<lparr>d_got := d_got d @ take n xs, d_to_read := d_to_read d - n\<rparr>; rest = drop n xs
         in case advance p cfg d1 of
              Inl e \<Rightarrow> (DErr e, rest, d1)
            | Inr (True, d2) \<Rightarrow> (DMsg, rest, d2)
            | Inr (False, d2) \<Rightarrow> decode p cfg rest d2))"
  by pat_completeness auto

termination
proof (relation "measure (\<lambda>(p, cfg, xs, d). 2 * length xs + of_bool (d_to_read d = 0))", goal_cases)
  case (2 p cfg xs d n d1 rest y b d2)
  then have "0 < d_to_read d2" using advance_reads [of p cfg d1 d2] by simp
  with 2 show ?case by (cases "d_to_read d = 0") (auto simp: min_def)
qed simp

declare decode.simps [simp del]

text \<open>What the engine does with a block it read: decode and hand over message after message.\<close>

function decode_all :: "dproto \<Rightarrow> dec_cfg \<Rightarrow> bytes \<Rightarrow> decoder \<Rightarrow> errno option \<times> frame list \<times> decoder" where
  "decode_all p cfg xs d =
     (if xs = [] then (None, [], d)
      else case decode p cfg xs d of
          (DErr e, rest, d') \<Rightarrow> (Some e, [], d')
        | (DMore, rest, d') \<Rightarrow> (None, [], d')
        | (DMsg, rest, d') \<Rightarrow>
            if length rest < length xs
            then (let (e, ms, d'') = decode_all p cfg rest d' in (e, d_msg d' # ms, d''))
            else (None, [d_msg d'], d'))"
  by pat_completeness auto

termination by (relation "measure (\<lambda>(p, cfg, xs, d). length xs)") auto

declare decode_all.simps [simp del]

subsection \<open>Blocks do not matter\<close>

text \<open>The decoder fed byte by byte.\<close>

definition feed_byte :: "dproto \<Rightarrow> dec_cfg \<Rightarrow> byte \<Rightarrow> decoder \<Rightarrow> errno + bool \<times> decoder" where
  "feed_byte p cfg b d = advance p cfg (d\<lparr>d_got := d_got d @ [b], d_to_read := d_to_read d - 1\<rparr>)"

fun feed :: "dproto \<Rightarrow> dec_cfg \<Rightarrow> bytes \<Rightarrow> decoder \<Rightarrow> errno option \<times> frame list \<times> decoder" where
  "feed p cfg [] d = (None, [], d)"
| "feed p cfg (b # bs) d = (case feed_byte p cfg b d of
     Inl e \<Rightarrow> (Some e, [], d\<lparr>d_got := d_got d @ [b], d_to_read := d_to_read d - 1\<rparr>)
   | Inr (True, d') \<Rightarrow> (let (e, ms, d'') = feed p cfg bs d' in (e, d_msg d' # ms, d''))
   | Inr (False, d') \<Rightarrow> feed p cfg bs d')"

lemma advance_waits: "d_to_read d \<noteq> 0 \<Longrightarrow> advance p cfg d = Inr (False, d)"
  by (subst advance.simps) simp

lemma feed_collect:
  "length xs < d_to_read d \<Longrightarrow>
   feed p cfg (xs @ ys) d = feed p cfg ys (d\<lparr>d_got := d_got d @ xs, d_to_read := d_to_read d - length xs\<rparr>)"
proof (induction xs arbitrary: d)
  case (Cons x xs)
  let ?d = "d\<lparr>d_got := d_got d @ [x], d_to_read := d_to_read d - 1\<rparr>"
  have "feed_byte p cfg x d = Inr (False, ?d)"
    unfolding feed_byte_def by (rule advance_waits) (use Cons.prems in simp)
  then have "feed p cfg ((x # xs) @ ys) d = feed p cfg (xs @ ys) ?d" by simp
  also have "\<dots> = feed p cfg ys (?d\<lparr>d_got := d_got ?d @ xs, d_to_read := d_to_read ?d - length xs\<rparr>)"
    by (rule Cons.IH) (use Cons.prems in simp)
  finally show ?case by simp
qed simp

text \<open>A block that is exactly what the current step waits for.\<close>

lemma feed_block:
  assumes "length xs = d_to_read d" "xs \<noteq> []"
  shows "feed p cfg (xs @ ys) d = (case advance p cfg (d\<lparr>d_got := d_got d @ xs, d_to_read := 0\<rparr>) of
     Inl e \<Rightarrow> (Some e, [], d\<lparr>d_got := d_got d @ xs, d_to_read := 0\<rparr>)
   | Inr (True, d') \<Rightarrow> (let (e, ms, d'') = feed p cfg ys d' in (e, d_msg d' # ms, d''))
   | Inr (False, d') \<Rightarrow> feed p cfg ys d')"
proof -
  obtain zs z where xs: "xs = zs @ [z]" using assms(2) by (cases xs rule: rev_cases) auto
  have "feed p cfg (zs @ (z # ys)) d
      = feed p cfg (z # ys) (d\<lparr>d_got := d_got d @ zs, d_to_read := d_to_read d - length zs\<rparr>)"
    by (rule feed_collect) (use assms(1) xs in simp)
  then show ?thesis using assms(1) [symmetric] by (simp add: xs feed_byte_def split: sum.split)
qed

definition after :: "dproto \<Rightarrow> dec_cfg \<Rightarrow> dresult \<times> bytes \<times> decoder \<Rightarrow> errno option \<times> frame list \<times> decoder" where
  "after p cfg = (\<lambda>(r, rest, d). case r of
     DErr e \<Rightarrow> (Some e, [], d) | DMore \<Rightarrow> (None, [], d)
   | DMsg \<Rightarrow> (let (e, ms, d'') = feed p cfg rest d in (e, d_msg d # ms, d'')))"

lemma decode_unfold:
  assumes "xs \<noteq> []" "n = min (d_to_read d) (length xs)"
    and "d1 = d\<lparr>d_got := d_got d @ take n xs, d_to_read := d_to_read d - n\<rparr>"
  shows "decode p cfg xs d = (case advance p cfg d1 of
              Inl e \<Rightarrow> (DErr e, drop n xs, d1) | Inr (True, d2) \<Rightarrow> (DMsg, drop n xs, d2)
            | Inr (False, d2) \<Rightarrow> decode p cfg (drop n xs) d2)"
  unfolding assms(2,3) by (subst decode.simps) (simp only: Let_def assms(1) if_False)

lemma decode_feed:
  "0 < d_to_read d \<Longrightarrow> feed p cfg xs d = after p cfg (decode p cfg xs d)"
proof (induction p cfg xs d rule: decode.induct)
  case (1 p cfg xs d)
  show ?case
  proof (cases "xs = []")
    case False
    define n where "n = min (d_to_read d) (length xs)"
    define d1 where "d1 = d\<lparr>d_got := d_got d @ take n xs, d_to_read := d_to_read d - n\<rparr>"
    note run = decode_unfold [OF False n_def d1_def, of p cfg]
    have IH: "feed p cfg (drop n xs) d2 = after p cfg (decode p cfg (drop n xs) d2)" if "advance p cfg d1 = Inr (False, d2)" for d2
      by (rule "1.IH" [OF False n_def d1_def refl that refl]) (simp_all add: advance_reads [OF that])
    show ?thesis
    proof (cases "length xs < d_to_read d")
      case True
      then have d1: "n = length xs" "d1 = d\<lparr>d_got := d_got d @ xs, d_to_read := d_to_read d - length xs\<rparr>"
        by (simp_all add: n_def d1_def)
      have "advance p cfg d1 = Inr (False, d1)" using True by (intro advance_waits) (simp add: d1)
      with run d1(1) have "decode p cfg xs d = (DMore, [], d1)" by (simp add: decode.simps [of _ _ "[]"])
      moreover have "feed p cfg (xs @ []) d = feed p cfg [] d1" unfolding d1 using True by (rule feed_collect)
      ultimately show ?thesis by (simp add: after_def)
    next
      case False
      then have n: "n = d_to_read d" by (simp add: n_def)
      have "feed p cfg (take n xs @ drop n xs) d = (case advance p cfg (d\<lparr>d_got := d_got d @ take n xs, d_to_read := 0\<rparr>) of
           Inl e \<Rightarrow> (Some e, [], d\<lparr>d_got := d_got d @ take n xs, d_to_read := 0\<rparr>)
         | Inr (True, d') \<Rightarrow> (let (e, ms, d'') = feed p cfg (drop n xs) d' in (e, d_msg d' # ms, d''))
         | Inr (False, d') \<Rightarrow> feed p cfg (drop n xs) d')"
        by (rule feed_block) (use False n "1.prems" in auto)
      moreover have "d\<lparr>d_got := d_got d @ take n xs, d_to_read := 0\<rparr> = d1" by (simp add: d1_def n)
      ultimately show ?thesis using run IH
        by (auto simp: after_def split: sum.splits prod.splits bool.splits)
    qed
  qed (simp add: decode.simps after_def)
qed

lemma decode_uses:
  "0 < d_to_read d \<Longrightarrow> xs \<noteq> [] \<Longrightarrow> decode p cfg xs d = (DMsg, rest, d') \<Longrightarrow> length rest < length xs"
proof (induction p cfg xs d rule: decode.induct)
  case (1 p cfg xs d)
  define n where "n = min (d_to_read d) (length xs)"
  define d1 where "d1 = d\<lparr>d_got := d_got d @ take n xs, d_to_read := d_to_read d - n\<rparr>"
  have n: "0 < n" "n \<le> length xs" using "1.prems" by (simp_all add: n_def)
  note run = "1.prems"(3) [unfolded decode_unfold [OF "1.prems"(2) n_def d1_def, of p cfg]]
  show ?case
  proof (cases "\<exists>d2. advance p cfg d1 = Inr (False, d2)")
    case True
    then obtain d2 where d2: "advance p cfg d1 = Inr (False, d2)" by blast
    show ?thesis
    proof (cases "drop n xs = []")
      case True
      then show ?thesis using run d2 by (simp add: decode.simps)
    next
      case False
      have "length rest < length (drop n xs)"
        by (rule "1.IH" [OF _ n_def d1_def refl d2 refl]) (use d2 run False "1.prems" in \<open>simp_all add: advance_reads [OF d2]\<close>)
      then show ?thesis by simp
    qed
  next
    case False
    then show ?thesis using run n by (auto split: sum.splits prod.splits bool.splits)
  qed
qed


definition idle :: "dproto \<Rightarrow> decoder \<Rightarrow> bool" where
  "idle p d \<longleftrightarrow> d_next d = (case p of D1 \<Rightarrow> OneByteSizeReady | D2 \<Rightarrow> FlagsReady) \<and> d_to_read d = 1 \<and> d_got d = []"

lemma idle_init: "idle p (dec_init p)"
  by (cases p) (simp_all add: idle_def)

lemma advance_msg_idle: "advance p cfg d = Inr (True, d') \<Longrightarrow> idle p d'"
proof (induction p cfg d rule: advance.induct)
  case (1 p cfg d)
  from "1.prems" have t: "d_to_read d = 0" by (subst (asm) advance.simps) (simp split: if_splits)
  show ?case
  proof (cases "\<exists>d1. run_dstep p cfg d = Inr (False, d1)")
    case True
    then obtain d1 where d1: "run_dstep p cfg d = Inr (False, d1)" by blast
    with "1.prems" t have "advance p cfg d1 = Inr (True, d')" by (subst (asm) advance.simps) simp
    with "1.IH" [of "(False, d1)" False d1] t d1 show ?thesis by simp
  next
    case False
    with "1.prems" t have run: "run_dstep p cfg d = Inr (True, d')"
      by (subst (asm) advance.simps) (auto split: sum.splits bool.splits)
    then have "d' = body_ready p d"
      by (auto simp: run_dstep_def map_sum_def split: dstep.splits option.splits dproto.splits sum.splits)
    then show ?thesis by (cases p) (simp_all add: body_ready_def idle_def next_step_def Let_def)
  qed
qed

lemma feed_byte_reads: "feed_byte p cfg b d = Inr (k, d') \<Longrightarrow> 0 < d_to_read d'"
  using advance_reads [of p cfg _ d'] advance_msg_idle [of p cfg _ d']
  by (cases k) (auto simp: feed_byte_def idle_def)

lemma feed_append:
  "feed p cfg (xs @ ys) d = (case feed p cfg xs d of
     (Some e, ms, d') \<Rightarrow> (Some e, ms, d')
   | (None, ms, d') \<Rightarrow> (let (e, ms', d'') = feed p cfg ys d' in (e, ms @ ms', d'')))"
  by (induction xs arbitrary: d) (auto simp: Let_def split: sum.splits prod.splits option.splits bool.splits)

lemma feed_reads: "feed p cfg xs d = (None, ms, d') \<Longrightarrow> 0 < d_to_read d \<Longrightarrow> 0 < d_to_read d'"
proof (induction xs arbitrary: d ms)
  case (Cons x xs)
  obtain k d1 where k: "feed_byte p cfg x d = Inr (k, d1)"
    using Cons.prems(1) by (cases "feed_byte p cfg x d") auto
  with Cons.prems obtain ms' where "feed p cfg xs d1 = (None, ms', d')"
    by (cases k) (auto split: prod.splits)
  with Cons.IH feed_byte_reads [OF k] show ?case by blast
qed simp

lemma decode_msg_idle: "decode p cfg xs d = (DMsg, rest, d') \<Longrightarrow> idle p d'"
proof (induction p cfg xs d rule: decode.induct)
  case (1 p cfg xs d)
  then have ne: "xs \<noteq> []" by (subst (asm) (2) decode.simps) (auto split: if_splits)
  define n where "n = min (d_to_read d) (length xs)"
  define d1 where "d1 = d\<lparr>d_got := d_got d @ take n xs, d_to_read := d_to_read d - n\<rparr>"
  note run = "1.prems" [unfolded decode_unfold [OF ne n_def d1_def, of p cfg]]
  show ?case
  proof (cases "\<exists>d2. advance p cfg d1 = Inr (False, d2)")
    case True
    then obtain d2 where d2: "advance p cfg d1 = Inr (False, d2)" by blast
    show ?thesis by (rule "1.IH" [OF ne n_def d1_def refl d2 refl]) (use run d2 in simp_all)
  next
    case False
    with run have "advance p cfg d1 = Inr (True, d')" by (auto split: sum.splits bool.splits)
    then show ?thesis by (rule advance_msg_idle)
  qed
qed

lemma decode_all_feed: "0 < d_to_read d \<Longrightarrow> decode_all p cfg xs d = feed p cfg xs d"
proof (induction p cfg xs d rule: decode_all.induct)
  case (1 p cfg xs d)
  show ?case
  proof (cases "xs = []")
    case False
    obtain r rest d' where dec: "decode p cfg xs d = (r, rest, d')" by (metis prod.exhaust)
    have f: "feed p cfg xs d = after p cfg (r, rest, d')" using decode_feed [OF "1.prems"] dec by simp
    show ?thesis
    proof (cases r)
      case DMsg
      with dec have u: "length rest < length xs" "idle p d'"
        using decode_uses [OF "1.prems" False] decode_msg_idle by blast+
      then have "decode_all p cfg rest d' = feed p cfg rest d'"
        using "1.IH" [OF False dec [symmetric] DMsg refl u(1)] by (simp add: idle_def)
      with dec DMsg u(1) False f show ?thesis
        by (subst decode_all.simps) (simp add: after_def Let_def split: prod.splits)
    qed (use dec False f in \<open>simp_all add: decode_all.simps [of p cfg xs d] after_def\<close>)
  qed (simp add: decode_all.simps)
qed

text \<open>The blocks of the connection, as they are read.\<close>

fun decode_chunks :: "dproto \<Rightarrow> dec_cfg \<Rightarrow> bytes list \<Rightarrow> decoder \<Rightarrow> errno option \<times> frame list \<times> decoder" where
  "decode_chunks p cfg [] d = (None, [], d)"
| "decode_chunks p cfg (c # cs) d = (case decode_all p cfg c d of
     (Some e, ms, d') \<Rightarrow> (Some e, ms, d')
   | (None, ms, d') \<Rightarrow> (let (e, ms', d'') = decode_chunks p cfg cs d' in (e, ms @ ms', d'')))"

lemma decode_chunks_feed: "0 < d_to_read d \<Longrightarrow> decode_chunks p cfg cs d = feed p cfg (concat cs) d"
proof (induction cs arbitrary: d)
  case (Cons c cs)
  obtain e ms d' where f: "feed p cfg c d = (e, ms, d')" by (metis prod.exhaust)
  show ?case
  proof (cases e)
    case None
    then have "0 < d_to_read d'" using feed_reads f Cons.prems by blast
    with Cons.IH f None Cons.prems show ?thesis by (simp add: decode_all_feed feed_append)
  qed (use f Cons.prems in \<open>simp add: decode_all_feed feed_append\<close>)
qed simp

text \<open>C21: how the network cuts the stream does not matter: decoding it block by block, with the block copies of the
  decoder, gives the messages, the error and the final state of feeding the concatenated stream byte by byte.\<close>

theorem decoder_chunking_irrelevant:
  "decode_chunks p cfg cs (dec_init p) = feed p cfg (concat cs) (dec_init p)"
  using idle_init [of p] by (intro decode_chunks_feed) (simp add: idle_def)

end
