(* ===== verification/Codec_Roundtrip.thy ===== *)
theory Codec_Roundtrip
  imports Codec
begin

unbundle bit_operations_syntax

text \<open>
  The codecs together: what an encoder puts on the wire, whatever the buffers it is asked with, and that
  the peer's decoder turns it back into the frames, whatever blocks the network makes of it. One
  length of subscription is the exception for the ZMTP 2 encoder.
\<close>

subsection \<open>What goes over the wire\<close>

fun header :: "proto \<Rightarrow> frame \<Rightarrow> bytes" where
  "header V1 f = v1_message_ready f"
| "header V2 f = v2_message_ready f"
| "header V3_1 f = v3_1_message_ready f"
| "header Raw f = []"

definition wire :: "proto \<Rightarrow> frame \<Rightarrow> bytes" where
  "wire p f = header p f @ fr_data f"

text \<open>What an encoder still owes: the bytes of the current step and, before its last step, the body.\<close>

definition pending :: "encoder \<Rightarrow> bytes" where
  "pending e = e_out e @ (case e_in_progress e of Some f \<Rightarrow> if e_new_msg e then [] else fr_data f | None \<Rightarrow> [])"

definition enc_inv :: "encoder \<Rightarrow> bool" where
  "enc_inv e \<longleftrightarrow> (e_next e = MessageReady \<longleftrightarrow> e_new_msg e) \<and> (e_in_progress e = None \<longrightarrow> e_out e = [] \<and> e_new_msg e)"

lemma run_estep_Size [simp]: "run_estep p SizeReady f = (fr_data f, MessageReady, True)"
  by (cases p) simp_all

lemma estep_neq [simp]: "st \<noteq> MessageReady \<longleftrightarrow> st = SizeReady"
  by (cases st) simp_all

lemma load_msg_pending:
  "enc_inv e \<Longrightarrow> load_msg p f e = Some e' \<Longrightarrow> enc_inv e' \<and> pending e = [] \<and> pending e' = wire p f"
  by (cases p) (auto simp: load_msg_def enc_inv_def pending_def enc_step_def wire_def zmq_assert_def split: if_splits)

lemma pending_drop: "take n (e_out e) @ pending (e\<lparr>e_out := drop n (e_out e)\<rparr>) = pending e"
  by (simp add: pending_def split: option.split)

lemma encode_loop_pending:
  "enc_inv e \<Longrightarrow> e_in_progress e = Some f \<Longrightarrow> encode_loop p own room f e = (out, e') \<Longrightarrow>
   enc_inv e' \<and> out @ pending e' = pending e"
proof (induction p own room f e arbitrary: out rule: encode_loop.induct)
  case (1 p own room f e)
  define e1 where "e1 = (if e_out e = [] then enc_step p f e else e)"
  define n where "n = min (length (e_out e1)) room"
  show ?case
  proof (cases "room = 0 \<or> (e_out e = [] \<and> e_new_msg e)")
    case True
    then show ?thesis using "1.prems"
      by (subst (asm) encode_loop.simps) (auto simp: pending_def enc_inv_def split: if_splits)
  next
    case False
    then have e1: "enc_inv e1" "pending e1 = pending e" "e_in_progress e1 = Some f"
      using "1.prems"(1,2) by (auto simp: e1_def enc_inv_def pending_def enc_step_def)
    have run: "encode_loop p own room f e = (if own \<and> length (e_out e1) \<ge> room then (e_out e1, e1\<lparr>e_out := []\<rparr>)
       else (let (r, e2) = encode_loop p (own \<and> n = 0) (room - n) f (e1\<lparr>e_out := drop n (e_out e1)\<rparr>)
             in (take n (e_out e1) @ r, e2)))"
      by (subst encode_loop.simps) (use False in \<open>auto simp: e1_def n_def Let_def\<close>)
    show ?thesis
    proof (cases "own \<and> length (e_out e1) \<ge> room")
      case True
      with run "1.prems"(3) e1 show ?thesis by (auto simp: pending_def enc_inv_def)
    next
      case direct: False
      let ?e = "e1\<lparr>e_out := drop n (e_out e1)\<rparr>"
      obtain r where r: "encode_loop p (own \<and> n = 0) (room - n) f ?e = (r, e')" "out = take n (e_out e1) @ r"
        using run direct "1.prems"(3) by (auto simp: Let_def split: prod.splits)
      have "enc_inv e' \<and> r @ pending e' = pending ?e"
        by (rule "1.IH" [OF _ _ e1_def direct n_def _ _ r(1)]) (use False e1 in \<open>auto simp: enc_inv_def\<close>)
      then show ?thesis using r(2) e1(2) pending_drop [of n e1] by simp
    qed
  qed
qed

lemma encode_pending:
  "enc_inv e \<Longrightarrow> encode p bufsize buf e = (out, e') \<Longrightarrow> enc_inv e' \<and> out @ pending e' = pending e"
  by (auto simp: encode_def dest: encode_loop_pending split: option.splits)

lemma encode_loop_progress:
  "enc_inv e \<Longrightarrow> e_in_progress e = Some f \<Longrightarrow> 0 < room \<Longrightarrow> encode_loop p own room f e = (out, e') \<Longrightarrow>
   out \<noteq> [] \<or> e_in_progress e' = None"
proof (induction p own room f e arbitrary: out rule: encode_loop.induct)
  case (1 p own room f e)
  define e1 where "e1 = (if e_out e = [] then enc_step p f e else e)"
  define n where "n = min (length (e_out e1)) room"
  show ?case
  proof (cases "e_out e = [] \<and> e_new_msg e")
    case True
    then show ?thesis using "1.prems" by (subst (asm) encode_loop.simps) (auto split: if_splits)
  next
    case False
    then have e1: "enc_inv e1" "e_in_progress e1 = Some f"
      using "1.prems"(1,2) by (auto simp: e1_def enc_inv_def enc_step_def)
    have run: "encode_loop p own room f e = (if own \<and> length (e_out e1) \<ge> room then (e_out e1, e1\<lparr>e_out := []\<rparr>)
       else (let (r, e2) = encode_loop p (own \<and> n = 0) (room - n) f (e1\<lparr>e_out := drop n (e_out e1)\<rparr>)
             in (take n (e_out e1) @ r, e2)))"
      by (subst encode_loop.simps) (use False "1.prems"(3) in \<open>auto simp: e1_def n_def Let_def\<close>)
    show ?thesis
    proof (cases "(own \<and> length (e_out e1) \<ge> room) \<or> 0 < n")
      case True
      then have "e_out e1 \<noteq> []" "take n (e_out e1) \<noteq> [] \<or> own \<and> length (e_out e1) \<ge> room"
        using "1.prems"(3) by (auto simp: n_def)
      with run "1.prems"(4) show ?thesis by (auto simp: Let_def split: prod.splits if_splits)
    next
      case direct: False
      then have n: "n = 0" "\<not> (own \<and> length (e_out e1) \<ge> room)" by simp_all
      let ?e = "e1\<lparr>e_out := drop n (e_out e1)\<rparr>"
      obtain r where r: "encode_loop p (own \<and> n = 0) (room - n) f ?e = (r, e')" "out = take n (e_out e1) @ r"
        using run n(2) "1.prems"(4) by (auto simp: Let_def split: prod.splits)
      have "r \<noteq> [] \<or> e_in_progress e' = None"
        by (rule "1.IH" [OF _ _ e1_def n(2) n_def _ _ _ r(1)]) (use False e1 n "1.prems"(3) in \<open>auto simp: enc_inv_def\<close>)
      then show ?thesis using r(2) by auto
    qed
  qed
qed

lemma encode_progress:
  "enc_inv e \<Longrightarrow> encode p bufsize buf e = (out, e') \<Longrightarrow> 0 < (case buf of None \<Rightarrow> bufsize | Some n \<Rightarrow> n) \<Longrightarrow>
   out \<noteq> [] \<or> e_in_progress e' = None"
  by (cases "e_in_progress e") (auto simp: encode_def dest: encode_loop_progress split: option.splits)

text \<open>An engine's use of its encoder: load a message, ask for the next batch.\<close>

datatype enc_op = Load frame | Batch "nat option"

fun enc_run :: "proto \<Rightarrow> nat \<Rightarrow> enc_op list \<Rightarrow> encoder \<Rightarrow> (bytes \<times> encoder) option" where
  "enc_run p bs [] e = Some ([], e)"
| "enc_run p bs (Load f # ops) e = do { e' \<leftarrow> load_msg p f e; enc_run p bs ops e' }"
| "enc_run p bs (Batch buf # ops) e =
     (let (out, e') = encode p bs buf e in map_option (apfst ((@) out)) (enc_run p bs ops e'))"

fun loads :: "enc_op list \<Rightarrow> frame list" where
  "loads [] = []"
| "loads (Load f # ops) = f # loads ops"
| "loads (Batch buf # ops) = loads ops"

lemma enc_run_pending:
  "enc_inv e \<Longrightarrow> enc_run p bs ops e = Some (out, e') \<Longrightarrow>
   out @ pending e' = pending e @ concat (map (wire p) (loads ops)) \<and> enc_inv e'"
proof (induction ops arbitrary: e out)
  case (Cons op ops)
  show ?case
  proof (cases op)
    case (Load f)
    with Cons.prems obtain e1 where e1: "load_msg p f e = Some e1" "enc_run p bs ops e1 = Some (out, e')"
      by (auto split: Option.bind_splits)
    with load_msg_pending [OF Cons.prems(1)] Cons.IH [OF _ e1(2)] Load show ?thesis by auto
  next
    case (Batch buf)
    with Cons.prems(2) obtain o1 e1 o2 where e1: "encode p bs buf e = (o1, e1)" "enc_run p bs ops e1 = Some (o2, e')"
      "out = o1 @ o2" by (auto split: prod.splits)
    with encode_pending [OF Cons.prems(1) e1(1)] Cons.IH [OF _ e1(2)] Batch show ?thesis by (metis append.assoc loads.simps(3))
  qed
qed simp

lemma enc_inv_init: "enc_inv enc_init" "pending enc_init = []"
  by (simp_all add: enc_inv_def enc_init_def pending_def)

text \<open>Batches drain the encoder: each of positive size writes something or finishes the message.\<close>

lemma enc_run_drains:
  assumes "0 < (case buf of None \<Rightarrow> bs | Some n \<Rightarrow> n)"
  shows "enc_inv e \<Longrightarrow> length (pending e) < k \<Longrightarrow>
     \<exists>e'. enc_run p bs (replicate k (Batch buf)) e = Some (pending e, e') \<and> e_in_progress e' = None"
proof (induction k arbitrary: e)
  case (Suc k)
  obtain out e1 where e1: "encode p bs buf e = (out, e1)" by fastforce
  note e1_inv = encode_pending [OF Suc.prems(1) e1]
  show ?case
  proof (cases "e_in_progress e1 = None")
    case True
    then have "encode p bs buf e1 = ([], e1)" by (simp add: encode_def)
    then have "enc_run p bs (replicate k (Batch buf)) e1 = Some ([], e1)" for k by (induction k) simp_all
    moreover have "pending e1 = []" using True e1_inv by (simp add: pending_def enc_inv_def)
    ultimately show ?thesis using e1 e1_inv True by simp
  next
    case False
    then have "out \<noteq> []" using encode_progress [OF Suc.prems(1) e1 assms] by blast
    then have "length (pending e1) < length (pending e)" using e1_inv by (metis length_append less_add_same_cancel2 length_greater_0_conv)
    with Suc.IH [of e1] Suc.prems(2) e1_inv e1 show ?thesis by fastforce
  qed
qed simp

definition e_witness :: encoder where
  "e_witness = \<lparr>e_out = [], e_next = SizeReady, e_new_msg = False,
     e_in_progress = Some \<lparr>fr_flags = f_more, fr_data = [7]\<rparr>\<rparr>"

text \<open>The batches of an encoder, whatever buffers they were asked with, are the wire images of the loaded frames
  in order; what is missing at the end is what the encoder still holds.\<close>

theorem encoder_output:
  assumes "enc_run p bs ops enc_init = Some (out, e)"
  shows "out @ pending e = concat (map (wire p) (loads ops))"
  using enc_run_pending [OF enc_inv_init(1) assms] by (simp add: enc_inv_init)

theorem encoder_output_witness:
  "[2, 1] @ pending (e_witness) = concat (map (wire V1) [\<lparr>fr_flags = f_more, fr_data = [7]\<rparr>])"
proof -
  have "enc_run V1 8192 [Load \<lparr>fr_flags = f_more, fr_data = [7]\<rparr>, Batch (Some 2)] enc_init = Some ([2, 1], e_witness)"
    by code_simp
  from encoder_output [OF this] show ?thesis by simp
qed

text \<open>Loading a frame and asking for batches of any positive size ends with the encoder free for the next frame,
  after exactly the bytes of the frame.\<close>

theorem encoder_finishes:
  assumes "0 < (case buf of None \<Rightarrow> bs | Some n \<Rightarrow> n)"
  shows "\<exists>k e. enc_run p bs (Load f # replicate k (Batch buf)) enc_init = Some (wire p f, e) \<and> e_in_progress e = None"
proof -
  obtain e where e: "load_msg p f enc_init = Some e" by (simp add: load_msg_def enc_init_def zmq_assert_def)
  note inv = load_msg_pending [OF enc_inv_init(1) e]
  then obtain e' where "enc_run p bs (replicate (Suc (length (wire p f))) (Batch buf)) e = Some (wire p f, e')" "e_in_progress e' = None"
    using enc_run_drains [OF assms, of e "Suc (length (wire p f))" p] by auto
  with e show ?thesis by (intro exI [of _ "Suc (length (wire p f))"] exI [of _ e']) simp
qed

theorem encoder_finishes_witness:
  "\<exists>k e. enc_run V1 8192 (Load \<lparr>fr_flags = f_more, fr_data = [7, 8]\<rparr> # replicate k (Batch (Some 1))) enc_init
     = Some ([3, 1, 7, 8], e) \<and> e_in_progress e = None"
  using encoder_finishes [of 8192 "Some 1" V1 "\<lparr>fr_flags = f_more, fr_data = [7, 8]\<rparr>"]
  by (simp add: wire_def v1_message_ready_def fr_is_def f_more_def f_subscribe_def f_cancel_def CMD_TYPE_MASK_def)


subsection \<open>Round trip\<close>

fun peer :: "proto \<Rightarrow> dproto" where
  "peer V1 = D1"
| "peer _ = D2"

definition deliver :: "dproto \<Rightarrow> dec_cfg \<Rightarrow> decoder \<Rightarrow> bytes \<Rightarrow> errno option \<times> frame list \<times> decoder" where
  "deliver p cfg d ys = (let (e, ms, d'') = feed p cfg ys d in (e, d_msg d # ms, d''))"

text \<open>A block that completes a step which asks for more, and one after which the body of the message follows.\<close>

lemma feed_step:
  assumes "length xs = d_to_read d" "xs \<noteq> []" "d_got d = []"
    and "run_dstep p cfg (d\<lparr>d_got := xs, d_to_read := 0\<rparr>) = Inr (False, d1)" "d_to_read d1 \<noteq> 0"
  shows "feed p cfg (xs @ ys) d = feed p cfg ys d1"
  using feed_block [OF assms(1,2), of p cfg ys] assms(3-) advance_waits [OF assms(5)]
  by (simp add: advance.simps [of p cfg "d\<lparr>d_got := xs, d_to_read := 0\<rparr>"])

lemma advance_body:
  "d_to_read d = 0 \<Longrightarrow> d_next d = BodyReady \<Longrightarrow> advance p cfg d = Inr (True, body_ready p d)"
  by (subst advance.simps) (simp add: run_dstep_def)

lemma feed_to_body:
  assumes "length xs = d_to_read d" "xs \<noteq> []" "d_got d = []"
    and "run_dstep p cfg (d\<lparr>d_got := xs, d_to_read := 0\<rparr>) = Inr (False, d1)"
    and "d_next d1 = BodyReady" "d_got d1 = []" "d_to_read d1 = length body"
  shows "feed p cfg (xs @ body @ ys) d = deliver p cfg (body_ready p (d1\<lparr>d_got := body, d_to_read := 0\<rparr>)) ys"
proof (cases "body = []")
  case True
  have "d1\<lparr>d_got := body, d_to_read := 0\<rparr> = d1" using assms(6,7) True by simp
  show ?thesis unfolding \<open>d1\<lparr>d_got := body, d_to_read := 0\<rparr> = d1\<close>
    using feed_block [OF assms(1,2), of p cfg ys] assms(3-) True advance_body [of d1 p cfg]
    by (simp add: advance.simps [of p cfg "d\<lparr>d_got := xs, d_to_read := 0\<rparr>"] deliver_def)
next
  case False
  have "feed p cfg (xs @ body @ ys) d = feed p cfg (body @ ys) d1"
    by (rule feed_step) (use assms False in auto)
  also have "\<dots> = deliver p cfg (body_ready p (d1\<lparr>d_got := body, d_to_read := 0\<rparr>)) ys"
    using feed_block [of body d1 p cfg ys] False assms(5-) by (simp add: advance_body deliver_def)
  finally show ?thesis .
qed

definition fits :: "dec_cfg \<Rightarrow> nat \<Rightarrow> bool" where
  "fits cfg n \<longleftrightarrow> (max_msg_size cfg < 0 \<or> int n \<le> max_msg_size cfg) \<and> alloc cfg n"

lemma body_ready_idle: "idle p (body_ready p d)" "d_msg (body_ready p d) = \<lparr>fr_flags = d_flags d, fr_data = d_got d\<rparr>"
  by (cases p; simp add: body_ready_def idle_def next_step_def)+

definition v2_flags :: "byte \<Rightarrow> byte" where
  "v2_flags pf = (if has more_flag pf then f_more else 0) OR (if has command_flag pf then f_command else 0)"

lemma feed_v2:
  assumes "idle D2 d" "fits cfg (length body)"
    and "has large_flag pf \<longleftrightarrow> length body > 255" "length body < 2 ^ 64"
  shows "\<exists>d'. idle D2 d' \<and> d_msg d' = \<lparr>fr_flags = v2_flags pf, fr_data = body\<rparr> \<and>
     (\<forall>ys. feed D2 cfg ((if length body > 255 then pf # put_uint64 (of_nat (length body)) else [pf, of_nat (length body)]) @ body @ ys) d
       = deliver D2 cfg d' ys)"
proof -
  let ?n = "length body"
  let ?sz = "if ?n > 255 then put_uint64 (of_nat ?n) else [of_nat ?n]"
  define d1 where "d1 = d\<lparr>d_flags := v2_flags pf, d_to_read := (if ?n > 255 then 8 else 1),
    d_next := (if ?n > 255 then EightByteSizeReady else OneByteSizeReady), d_got := []\<rparr>"
  define d2 where "d2 = d1\<lparr>d_size := ?n, d_to_read := ?n, d_next := BodyReady, d_got := []\<rparr>"
  have 1: "feed D2 cfg ([pf] @ zs) d = feed D2 cfg zs d1" for zs
    by (rule feed_step) (use assms(1,3) in \<open>auto simp: idle_def run_dstep_def v2_flags_ready_def v2_flags_def next_step_def Let_def d1_def\<close>)
  have fit: "v2_size_ready cfg ?n d = Inr (next_step ?n BodyReady (d\<lparr>d_size := ?n\<rparr>))" for d
    using assms(2) by (auto simp: v2_size_ready_def fits_def)
  have u: "unat (of_nat ?n :: u64) = ?n" "?n \<le> 255 \<Longrightarrow> unat (of_nat ?n :: byte) = ?n"
    using assms(4) by (simp_all add: unat_of_nat)
  have 2: "feed D2 cfg (?sz @ body @ ys) d1 = deliver D2 cfg (body_ready D2 (d2\<lparr>d_got := body, d_to_read := 0\<rparr>)) ys" for ys
  proof (rule feed_to_body)
    show "run_dstep D2 cfg (d1\<lparr>d_got := ?sz, d_to_read := 0\<rparr>) = Inr (False, d2)"
      using get_put_uint64 [of "of_nat ?n" "[]"] u
      by (auto simp: run_dstep_def d1_def fit d2_def next_step_def)
  qed (simp_all add: d1_def d2_def put_uint64_def)
  let ?d = "body_ready D2 (d2\<lparr>d_got := body, d_to_read := 0\<rparr>)"
  have "feed D2 cfg ((if ?n > 255 then pf # put_uint64 (of_nat ?n) else [pf, of_nat ?n]) @ body @ ys) d = deliver D2 cfg ?d ys" for ys
    using 1 [of "?sz @ body @ ys"] 2 [of ys] by (cases "?n > 255") auto
  then show ?thesis using body_ready_idle [of D2 "d2\<lparr>d_got := body, d_to_read := 0\<rparr>"]
    by (intro exI [of _ ?d]) (simp add: d2_def d1_def)
qed

lemma feed_v1:
  assumes "idle D1 d" "fits cfg (length body)" "length body + 1 < 2 ^ 64"
  shows "\<exists>d'. idle D1 d' \<and> d_msg d' = \<lparr>fr_flags = fl AND f_more, fr_data = body\<rparr> \<and>
     (\<forall>ys. feed D1 cfg ((if length body + 1 < 255 then [of_nat (length body + 1), fl]
         else 255 # put_uint64 (of_nat (length body + 1)) @ [fl]) @ body @ ys) d
       = deliver D1 cfg d' ys)"
proof -
  let ?n = "length body + 1"
  define d1 where "d1 = d\<lparr>d_size := length body, d_to_read := 1, d_next := FlagsReady, d_got := []\<rparr>"
  define d2 where "d2 = d1\<lparr>d_flags := fl AND f_more, d_to_read := length body, d_next := BodyReady, d_got := []\<rparr>"
  let ?d = "body_ready D1 (d2\<lparr>d_got := body, d_to_read := 0\<rparr>)"
  have fit: "v1_init_body cfg ?n d = Inr (next_step 1 FlagsReady (d\<lparr>d_size := length body\<rparr>))" for d
    using assms(2) by (auto simp: v1_init_body_def fits_def)
  have u: "unat (of_nat ?n :: u64) = ?n" "?n < 255 \<Longrightarrow> unat (of_nat ?n :: byte) = ?n"
    using assms(3) by (simp_all only: unat_of_nat) simp_all
  have 2: "feed D1 cfg ([fl] @ body @ ys) d1 = deliver D1 cfg ?d ys" for ys
    by (rule feed_to_body) (simp_all add: d1_def d2_def run_dstep_def v1_flags_ready_def next_step_def)
  have "feed D1 cfg ((if ?n < 255 then [of_nat ?n, fl] else 255 # put_uint64 (of_nat ?n) @ [fl]) @ body @ ys) d = deliver D1 cfg ?d ys" for ys
  proof (cases "?n < 255")
    case True
    then have b: "(of_nat ?n :: byte) \<noteq> 255" using u(2) by (auto dest: arg_cong [of _ _ unat])
    have "feed D1 cfg ([of_nat ?n] @ [fl] @ body @ ys) d = feed D1 cfg ([fl] @ body @ ys) d1"
      by (rule feed_step)
        (use assms(1) b u(2) [OF True] fit in \<open>simp_all add: idle_def run_dstep_def v1_one_byte_size_ready_def next_step_def d1_def Let_def del: of_nat_add of_nat_Suc\<close>)
    with 2 True show ?thesis by simp
  next
    case False
    let ?d0 = "d\<lparr>d_to_read := 8, d_next := EightByteSizeReady, d_got := []\<rparr>"
    have a: "feed D1 cfg ([255] @ zs) d = feed D1 cfg zs ?d0" for zs
      by (rule feed_step) (use assms(1) in \<open>simp_all add: idle_def run_dstep_def v1_one_byte_size_ready_def next_step_def Let_def\<close>)
    have b: "feed D1 cfg (put_uint64 (of_nat ?n) @ zs) ?d0 = feed D1 cfg zs d1" for zs
      by (rule feed_step)
        (use get_put_uint64 [of "of_nat ?n" "[]"] u(1) fit in \<open>simp_all add: run_dstep_def next_step_def d1_def del: of_nat_add of_nat_Suc\<close>, simp add: put_uint64_def)
    show ?thesis using a [of "put_uint64 (of_nat ?n) @ [fl] @ body @ ys"] b [of "[fl] @ body @ ys"] 2 False by simp
  qed
  then show ?thesis using body_ready_idle [of D1 "d2\<lparr>d_got := body, d_to_read := 0\<rparr>"]
    by (intro exI [of _ ?d]) (simp add: d2_def d1_def)
qed

text \<open>What the peer gets of a frame: the subscription byte or command name is in front of the topic, and only the
  flags of the protocol survive.\<close>

fun payload :: "proto \<Rightarrow> frame \<Rightarrow> bytes" where
  "payload V3_1 f = (if fr_is f_subscribe f then sub_cmd_name else if fr_is f_cancel f then cancel_cmd_name else []) @ fr_data f"
| "payload Raw f = fr_data f"
| "payload _ f = (if fr_is f_subscribe f then [1] else if fr_is f_cancel f then [0] else []) @ fr_data f"

fun sent_flags :: "proto \<Rightarrow> frame \<Rightarrow> byte" where
  "sent_flags V1 f = fr_flags f AND f_more"
| "sent_flags V3_1 f = (if has f_more (fr_flags f) then f_more else 0)
     OR (if has f_command (fr_flags f) \<or> fr_is f_subscribe f \<or> fr_is f_cancel f then f_command else 0)"
| "sent_flags _ f = (if has f_more (fr_flags f) then f_more else 0) OR (if has f_command (fr_flags f) then f_command else 0)"

definition received :: "proto \<Rightarrow> frame \<Rightarrow> frame" where
  "received p f = \<lparr>fr_flags = sent_flags p f, fr_data = payload p f\<rparr>"

definition sendable :: "proto \<Rightarrow> dec_cfg \<Rightarrow> frame \<Rightarrow> bool" where
  "sendable p cfg f \<longleftrightarrow> p \<noteq> Raw \<and> fits cfg (length (payload p f)) \<and> length (payload p f) + 1 < 2 ^ 64 \<and>
     (p = V2 \<longrightarrow> \<not> ((fr_is f_subscribe f \<or> fr_is f_cancel f) \<and> length (fr_data f) = 255))"

lemmas flag_defs = has_def v2_flags_def more_flag_def large_flag_def command_flag_def f_more_def f_command_def

lemma v2_pf:
  defines "pf a b c \<equiv> (if a then more_flag else 0) OR (if b then large_flag else 0) OR (if c then command_flag else 0)"
  shows "has large_flag (pf a b c) = b"
    and "v2_flags (pf a b c) = (if a then f_more else 0) OR (if c then f_command else 0)"
  unfolding pf_def by (cases a; cases b; cases c; simp add: flag_defs)+

lemma wire_v2:
  assumes "sendable V2 cfg f"
  defines "pf \<equiv> (if has f_more (fr_flags f) then more_flag else 0) OR (if length (payload V2 f) > 255 then large_flag else 0)
    OR (if has f_command (fr_flags f) then command_flag else 0)"
  shows "wire V2 f = (if length (payload V2 f) > 255 then pf # put_uint64 (of_nat (length (payload V2 f)))
    else [pf, of_nat (length (payload V2 f))]) @ payload V2 f"
proof -
  have "length (payload V2 f) > 255 \<longleftrightarrow> length (fr_data f) > 255" using assms(1) by (auto simp: sendable_def)
  then show ?thesis by (auto simp: wire_def v2_message_ready_def pf_def Let_def)
qed

lemma wire_v3_1:
  defines "pf \<equiv> \<lambda>f. (if has f_more (fr_flags f) then more_flag else 0) OR (if length (payload V3_1 f) > 255 then large_flag else 0)
    OR (if has f_command (fr_flags f) \<or> fr_is f_subscribe f \<or> fr_is f_cancel f then command_flag else 0)"
  shows "wire V3_1 f = (if length (payload V3_1 f) > 255 then pf f # put_uint64 (of_nat (length (payload V3_1 f)))
    else [pf f, of_nat (length (payload V3_1 f))]) @ payload V3_1 f"
  by (auto simp: wire_def v3_1_message_ready_def pf_def Let_def or.assoc or.commute or.left_commute add.commute)

lemma wire_v1:
  "wire V1 f = (if length (payload V1 f) + 1 < 255 then [of_nat (length (payload V1 f) + 1), fr_flags f AND f_more]
    else 255 # put_uint64 (of_nat (length (payload V1 f) + 1)) @ [fr_flags f AND f_more]) @ payload V1 f"
  by (auto simp: wire_def v1_message_ready_def Let_def)

lemma feed_wire:
  assumes "idle (peer p) d" "sendable p cfg f"
  shows "\<exists>d'. idle (peer p) d' \<and> d_msg d' = received p f \<and>
    (\<forall>ys. feed (peer p) cfg (wire p f @ ys) d = deliver (peer p) cfg d' ys)"
proof -
  have fit: "fits cfg (length (payload p f))" "length (payload p f) < 2 ^ 64" "length (payload p f) + 1 < 2 ^ 64"
    using assms(2) by (simp_all add: sendable_def)
  consider "p = V1" | "p = V2" | "p = V3_1" using assms(2) by (cases p) (simp_all add: sendable_def)
  then show ?thesis
  proof cases
    case 1
    then have "(fr_flags f AND f_more) AND f_more = sent_flags p f" by (simp add: and.assoc)
    then show ?thesis
      using feed_v1 [of d cfg "payload p f" "fr_flags f AND f_more"] assms(1) fit 1 unfolding 1 wire_v1 received_def
      by (simp only: peer.simps append_assoc)
  next
    case 2
    then show ?thesis
      using feed_v2 [of d cfg "payload p f", OF _ fit(1) v2_pf(1) fit(2)] assms unfolding 2 wire_v2 [OF assms(2) [unfolded 2]] received_def
      by (simp only: peer.simps append_assoc v2_pf sent_flags.simps)
  next
    case 3
    then show ?thesis
      using feed_v2 [of d cfg "payload p f", OF _ fit(1) v2_pf(1) fit(2)] assms(1) unfolding 3 wire_v3_1 received_def
      by (simp only: peer.simps append_assoc v2_pf sent_flags.simps)
  qed
qed

lemma feed_wires:
  "idle (peer p) d \<Longrightarrow> list_all (sendable p cfg) fs \<Longrightarrow>
   \<exists>d'. feed (peer p) cfg (concat (map (wire p) fs)) d = (None, map (received p) fs, d') \<and> idle (peer p) d'"
proof (induction fs arbitrary: d)
  case (Cons f fs)
  then obtain d1 where d1: "idle (peer p) d1" "d_msg d1 = received p f"
    "\<And>ys. feed (peer p) cfg (wire p f @ ys) d = deliver (peer p) cfg d1 ys"
    using feed_wire [OF Cons.prems(1), of cfg f] by auto
  obtain d' where "feed (peer p) cfg (concat (map (wire p) fs)) d1 = (None, map (received p) fs, d')" "idle (peer p) d'"
    using Cons.IH [OF d1(1)] Cons.prems(2) by auto
  with d1 show ?case by (simp add: deliver_def)
qed simp


definition any_cfg :: dec_cfg where
  "any_cfg = \<lparr>max_msg_size = -1, alloc = \<lambda>n. True\<rparr>"


text \<open>The exception: a subscription to a topic of 255 bytes, framed for a ZMTP 2.0 or 3.0 peer, has an eight byte length
  without the flag that announces it. The peer takes the first byte of the length for the whole length and
  sees an empty frame instead of the subscription.\<close>

theorem v2_subscribe_255_misframed:
  assumes "fr_flags f = f_subscribe" "length (fr_data f) = 255" "alloc cfg 0"
  shows "\<exists>ms d e. decode_chunks D2 cfg [wire V2 f] (dec_init D2) = (e, \<lparr>fr_flags = 0, fr_data = []\<rparr> # ms, d)"
proof -
  have "wire V2 f = [0] @ [0] @ [] @ ([0,0,0,0,0,1,0,1] @ fr_data f)"
    using assms(1,2) by (simp add: wire_def v2_message_ready_def fr_is_def flag_defs f_subscribe_def f_cancel_def CMD_TYPE_MASK_def put_uint64_def)
  moreover have "feed D2 cfg ([0] @ zs) (dec_init D2) = feed D2 cfg zs ((dec_init D2)\<lparr>d_next := OneByteSizeReady\<rparr>)" for zs
    by (rule feed_step) (simp_all add: run_dstep_def v2_flags_ready_def next_step_def flag_defs)
  moreover have "feed D2 cfg ([0] @ [] @ zs) ((dec_init D2)\<lparr>d_next := OneByteSizeReady\<rparr>)
      = deliver D2 cfg (body_ready D2 ((dec_init D2)\<lparr>d_next := BodyReady, d_to_read := 0\<rparr>\<lparr>d_got := [], d_to_read := 0\<rparr>)) zs" for zs
    by (rule feed_to_body) (use assms(3) in \<open>simp_all add: run_dstep_def v2_size_ready_def next_step_def\<close>)
  ultimately have "feed D2 cfg (wire V2 f) (dec_init D2)
      = deliver D2 cfg (body_ready D2 ((dec_init D2)\<lparr>d_next := BodyReady, d_to_read := 0\<rparr>\<lparr>d_got := [], d_to_read := 0\<rparr>)) ([0,0,0,0,0,1,0,1] @ fr_data f)"
    by simp
  moreover have "decode_chunks D2 cfg [wire V2 f] (dec_init D2) = feed D2 cfg (wire V2 f) (dec_init D2)"
    using decode_chunks_feed [of "dec_init D2" D2 cfg "[wire V2 f]"] by simp
  ultimately show ?thesis
    by (auto simp: deliver_def body_ready_idle Let_def split: prod.splits)
qed

theorem v2_subscribe_255_misframed_witness:
  "\<exists>ms d e. decode_chunks D2 any_cfg [wire V2 \<lparr>fr_flags = f_subscribe, fr_data = replicate 255 7\<rparr>] (dec_init D2)
     = (e, \<lparr>fr_flags = 0, fr_data = []\<rparr> # ms, d)"
  by (rule v2_subscribe_255_misframed) (simp_all add: any_cfg_def)

end
