(* ===== verification/Mtrie.thy ===== *)
theory Mtrie
  imports Ctable
begin

text \<open>
  The multi-trie \<^verbatim>\<open>generic_mtrie_t\<close> (generic_mtrie.hpp, generic_mtrie_impl.hpp) in which
  \<^verbatim>\<open>xpub_t\<close> keeps the pipes subscribed to each topic. A node is its set of pipes, a
  \<^verbatim>\<open>std::set\<close> of pointers allocated while it is not empty, and its child table; the root
  also counts the prefixes. The pipes are numbers, and a set lists them in its iteration
  order. The two removals keep an explicit stack of iterators in place of a recursion, as
  their comments say; here they are that recursion. This theory has the operations, the
  invariant of the nodes and the laws of adding, removing one entry and matching; removing a pipe
  everywhere and the properties are in \<open>Mtrie_Topics\<close>.
\<close>

datatype mnode = MN (mpipes: "nat list option") (mkids: "mnode ctable")

definition new_mnode :: mnode where
  "new_mnode = MN None ct_empty"

fun mn_redundant :: "mnode \<Rightarrow> bool" where
  "mn_redundant (MN ps k) \<longleftrightarrow> ps = None \<and> ct_live k = 0"

text \<open>\<^verbatim>\<open>std::set::insert\<close> and \<^verbatim>\<open>erase\<close> on the listing.\<close>

definition set_insert :: "nat \<Rightarrow> nat list \<Rightarrow> nat list" where
  "set_insert v ps = (if v \<in> set ps then ps else insort v ps)"

record mtrie =
  mt_root :: mnode
  num_prefixes :: u32

definition mt_new :: mtrie where
  "mt_new = \<lparr>mt_root = new_mnode, num_prefixes = 0\<rparr>"

fun mn_add :: "bytes \<Rightarrow> nat \<Rightarrow> mnode \<Rightarrow> (bool \<times> mnode) option" where
  "mn_add [] v (MN ps k) = Some (ps = None, MN (Some (set_insert v (case ps of None \<Rightarrow> [] | Some xs \<Rightarrow> xs))) k)"
| "mn_add (c # cs) v (MN ps k) = do {
     (k1, n) \<leftarrow> ct_ensure new_mnode c k;
     (b, n') \<leftarrow> mn_add cs v n;
     k2 \<leftarrow> ct_store c (Some n') k1;
     Some (b, MN ps k2)
   }"

definition mt_add :: "bytes \<Rightarrow> nat \<Rightarrow> mtrie \<Rightarrow> (bool \<times> mtrie) option" where
  "mt_add p v t = do {
     (b, r) \<leftarrow> mn_add p v (mt_root t);
     Some (b, t\<lparr>mt_root := r, num_prefixes := (if b then num_prefixes t + 1 else num_prefixes t)\<rparr>)
   }"

text \<open>Removing one entry: the code after the visit of the child deletes it when it is redundant and
  compacts the table.\<close>

fun mn_prune :: "byte \<Rightarrow> mnode ctable \<Rightarrow> mnode ctable option" where
  "mn_prune c (CT mn ct lv nx) = do {
     zmq_assert (ct > 0);
     if ct = 1 then do {
       zmq_assert (lv > 0 \<and> lv - 1 = 0);
       Some (CT mn 0 (lv - 1) (NextNode None))
     } else do {
       tab0 \<leftarrow> get_table nx;
       tab \<leftarrow> tab_set tab0 (unat c - unat mn) None;
       zmq_assert (lv > 1);
       let lv' = lv - 1 in
       if lv' = 1 then do {
         i \<leftarrow> List.find (\<lambda>i. tab ! i \<noteq> None) [0..<ct];
         Some (CT (mn + of_nat i) 1 lv' (NextNode (tab ! i)))
       } else if c = mn then do {
         i \<leftarrow> List.find (\<lambda>i. tab ! i \<noteq> None) [1..<ct];
         Some (CT (mn + of_nat i) (ct - i) lv' (NextTable (take (ct - i) (drop i tab))))
       } else if unat c = unat mn + ct - 1 then do {
         i \<leftarrow> List.find (\<lambda>i. tab ! (ct - 1 - i) \<noteq> None) [1..<ct];
         Some (CT mn (ct - i) lv' (NextTable (take (ct - i) tab)))
       } else Some (CT mn ct lv' (NextTable tab))
     }
   }"

datatype rm_result = not_found | last_value_removed | values_remain

fun mn_rm :: "bytes \<Rightarrow> nat \<Rightarrow> mnode \<Rightarrow> (rm_result \<times> mnode) option" where
  "mn_rm [] v (MN ps k) = (case ps of
       None \<Rightarrow> Some (not_found, MN ps k)
     | Some xs \<Rightarrow>
         (let erased = v \<in> set xs; xs' = remove1 v xs in
          if xs' = [] then do { zmq_assert erased; Some (last_value_removed, MN None k) }
          else Some (if erased then values_remain else not_found, MN (Some xs') k)))"
| "mn_rm (c # cs) v (MN ps k) =
     (if ct_count k = 0 \<or> \<not> in_range c k then Some (not_found, MN ps k)
      else do {
        p \<leftarrow> ct_slot c k;
        (case p of
           None \<Rightarrow> Some (not_found, MN ps k)
         | Some n \<Rightarrow> do {
             (r, n') \<leftarrow> mn_rm cs v n;
             k' \<leftarrow> (if mn_redundant n' then mn_prune c k else ct_store c (Some n') k);
             Some (r, MN ps k')
           })
      })"

definition mt_rm :: "bytes \<Rightarrow> nat \<Rightarrow> mtrie \<Rightarrow> (rm_result \<times> mtrie) option" where
  "mt_rm p v t = do {
     (r, n) \<leftarrow> mn_rm p v (mt_root t);
     if r = last_value_removed then do {
       zmq_assert (num_prefixes t > 0);
       Some (r, t\<lparr>mt_root := n, num_prefixes := num_prefixes t - 1\<rparr>)
     } else Some (r, t\<lparr>mt_root := n\<rparr>)
   }"

text \<open>Removing a pipe everywhere. The first part of a visit erases it from the node and makes the callback;
  the table is then swept from left to right, redundant children are deleted and the first and last
  of the others recorded; at the end the table is compacted to that window.\<close>

definition rm_here :: "bool \<Rightarrow> nat \<Rightarrow> nat list option \<Rightarrow> bool \<times> nat list option" where
  "rm_here call_on_uniq v ps = (case ps of
     None \<Rightarrow> (False, None)
   | Some xs \<Rightarrow>
       if v \<in> set xs
       then (let xs' = remove1 v xs in (\<not> call_on_uniq \<or> xs' = [], if xs' = [] then None else Some xs'))
       else (False, Some xs))"

fun rm_sweep :: "byte \<Rightarrow> nat \<Rightarrow> mnode option list \<Rightarrow> nat \<Rightarrow> byte \<Rightarrow> byte \<Rightarrow> (mnode option list \<times> nat \<times> byte \<times> byte) option" where
  "rm_sweep mn i [] lv lo hi = Some ([], lv, lo, hi)"
| "rm_sweep mn i (None # tab) lv lo hi = map_option (apfst (Cons None)) (rm_sweep mn (Suc i) tab lv lo hi)"
| "rm_sweep mn i (Some n # tab) lv lo hi =
     (if mn_redundant n then do {
        zmq_assert (lv > 0);
        map_option (apfst (Cons None)) (rm_sweep mn (Suc i) tab (lv - 1) lo hi)
      } else
        (let ch = i + unat mn in
         map_option (apfst (Cons (Some n)))
           (rm_sweep mn (Suc i) tab lv (if ch < unat lo then of_nat ch else lo) (if ch > unat hi then of_nat ch else hi))))"

definition rm_compact :: "byte \<Rightarrow> nat \<Rightarrow> mnode option list \<Rightarrow> nat \<Rightarrow> byte \<Rightarrow> byte \<Rightarrow> mnode ctable option" where
  "rm_compact mn ct tab lv lo hi =
     (if lv = 0 then Some (CT mn 0 lv (NextTable []))
      else if lv = 1 then do {
        zmq_assert (lo = hi);
        zmq_assert (lo \<ge> mn);
        zmq_assert (unat lo < unat mn + ct);
        node \<leftarrow> tab_get tab (unat lo - unat mn);
        zmq_assert (node \<noteq> None);
        Some (CT lo 1 lv (NextNode node))
      } else if lo > mn \<or> unat hi < unat mn + ct - 1 then do {
        zmq_assert (lo < hi);
        zmq_assert (lo \<ge> mn);
        zmq_assert (unat hi \<le> unat mn + ct - 1);
        zmq_assert (unat hi - unat lo + 1 < ct);
        let ct' = unat hi - unat lo + 1 in
        Some (CT lo ct' lv (NextTable (take ct' (drop (unat lo - unat mn) tab))))
      } else Some (CT mn ct lv (NextTable tab)))"

fun rm_value :: "bool \<Rightarrow> nat \<Rightarrow> bytes \<Rightarrow> mnode \<Rightarrow> (bytes list \<times> mnode) option" where
  "rm_value uniq v buff (MN ps (CT mn ct lv nx)) =
     (let (call, ps') = rm_here uniq v ps; here = (if call then [buff] else []) in
      if ct = 0 then Some (here, MN ps' (CT mn ct lv nx))
      else if ct = 1 then
        (case nx of
           NextNode (Some n) \<Rightarrow> do {
             (rs, n') \<leftarrow> rm_value uniq v (buff @ [mn]) n;
             if mn_redundant n' then do {
               zmq_assert (lv > 0 \<and> lv - 1 = 0);
               Some (here @ rs, MN ps' (CT mn 0 (lv - 1) (NextNode None)))
             } else Some (here @ rs, MN ps' (CT mn ct lv (NextNode (Some n'))))
           }
         | _ \<Rightarrow> None)
      else
        (case nx of
           NextNode _ \<Rightarrow> None
         | NextTable tab \<Rightarrow> do {
             vs \<leftarrow> those (map (\<lambda>i. case tab_get tab i of
                   None \<Rightarrow> None
                 | Some None \<Rightarrow> Some ([], None)
                 | Some (Some n) \<Rightarrow> map_option (apsnd Some) (rm_value uniq v (buff @ [mn + of_nat i]) n)) [0..<ct]);
             (tab', lv', lo, hi) \<leftarrow> rm_sweep mn 0 (map snd vs) lv (mn + of_nat ct - 1) mn;
             k \<leftarrow> rm_compact mn ct tab' lv' lo hi;
             Some (here @ concat (map fst vs), MN ps' k)
           }))"

text \<open>The calls are the topics the callback gets.\<close>

definition mt_rm_value :: "bool \<Rightarrow> nat \<Rightarrow> mtrie \<Rightarrow> (bytes list \<times> mtrie) option" where
  "mt_rm_value uniq v t = do {
     (calls, n) \<leftarrow> rm_value uniq v [] (mt_root t);
     Some (calls, t\<lparr>mt_root := n\<rparr>)
   }"

text \<open>\<^verbatim>\<open>match\<close>: the pipes signalled, in order. With one child the node is followed without a look at its
  range beyond the equality.\<close>

fun mn_match :: "bytes \<Rightarrow> mnode \<Rightarrow> nat list option" where
  "mn_match data (MN ps (CT mn ct lv nx)) =
     (let here = (case ps of None \<Rightarrow> [] | Some xs \<Rightarrow> xs) in
      case data of
        [] \<Rightarrow> Some here
      | c # cs \<Rightarrow>
          if ct = 0 then Some here
          else do {
            p \<leftarrow> (if ct = 1 then (if c \<noteq> mn then Some None else get_node nx)
                 else if \<not> in_range c (CT mn ct lv nx) then Some None
                 else get_table nx \<bind> (\<lambda>tab. tab_get tab (unat c - unat mn)));
            (case p of None \<Rightarrow> Some here | Some n \<Rightarrow> map_option ((@) here) (mn_match cs n))
          })"

subsection \<open>What a multi-trie denotes, and its invariant\<close>

fun vals :: "mnode \<Rightarrow> bytes \<Rightarrow> nat set" where
  "vals n [] = (case mpipes n of None \<Rightarrow> {} | Some xs \<Rightarrow> set xs)"
| "vals n (c # cs) = (case child (mkids n) c of None \<Rightarrow> {} | Some m \<Rightarrow> vals m cs)"

definition pipes_ok :: "nat list option \<Rightarrow> bool" where
  "pipes_ok ps \<longleftrightarrow> (case ps of None \<Rightarrow> True | Some xs \<Rightarrow> xs \<noteq> [] \<and> sorted xs \<and> distinct xs)"

inductive mn_wf :: "mnode \<Rightarrow> bool" where
  "ct_wf k \<Longrightarrow> pipes_ok ps \<Longrightarrow> (\<And>c n. child k c = Some n \<Longrightarrow> mn_wf n \<and> \<not> mn_redundant n) \<Longrightarrow> mn_wf (MN ps k)"

inductive_simps mn_wf_MN: "mn_wf (MN ps k)"

lemma pipes_ok_simps [simp]:
  "pipes_ok None" "pipes_ok (Some xs) \<longleftrightarrow> xs \<noteq> [] \<and> sorted xs \<and> distinct xs"
  by (simp_all add: pipes_ok_def)

lemma mn_wf_new [simp]: "mn_wf new_mnode"
  by (auto simp: new_mnode_def mn_wf_MN)

lemma vals_new [simp]: "vals new_mnode cs = {}"
  by (cases cs) (auto simp: new_mnode_def)

lemma vals_redundant: "mn_wf n \<Longrightarrow> mn_redundant n \<Longrightarrow> vals n cs = {}"
  by (cases n; cases cs) (auto simp: mn_wf_MN ct_live_0_child)

lemma vals_nonredundant:
  assumes "mn_wf n" "\<not> mn_redundant n"
  shows "\<exists>cs. vals n cs \<noteq> {}"
  using assms
proof (induction n rule: mn_wf.induct)
  case (1 k ps)
  show ?case
  proof (cases ps)
    case None
    with 1 obtain c n where n: "child k c = Some n" by (auto simp: ct_live_0_child)
    with 1 obtain cs where "vals n cs \<noteq> {}" by blast
    with n have "vals (MN ps k) (c # cs) \<noteq> {}" by simp
    then show ?thesis by blast
  next
    case (Some xs)
    with 1 have "vals (MN ps k) [] \<noteq> {}" by simp
    then show ?thesis by blast
  qed
qed

lemma set_insert_ok [simp]:
  "set (set_insert v xs) = insert v (set xs)"
  "sorted xs \<Longrightarrow> sorted (set_insert v xs)" "distinct xs \<Longrightarrow> distinct (set_insert v xs)" "set_insert v xs \<noteq> []"
  by (auto simp: set_insert_def set_insort_key sorted_insort distinct_insort)

lemma vals_fun_upd_child:
  assumes "child k' = (child k)(c := Some n')" "vals n' = (vals n)(cs := v)"
    and "n = case_option new_mnode id (child k c)"
  shows "vals (MN ps k') = (vals (MN ps k))(c # cs := v)"
proof
  fix x
  show "vals (MN ps k') x = ((vals (MN ps k))(c # cs := v)) x"
    using assms by (cases x) (auto split: option.splits)
qed

subsection \<open>Adding\<close>

lemma mn_add_spec:
  assumes "mn_wf n"
  shows "\<exists>n'. mn_add p v n = Some (vals n p = {}, n') \<and> mn_wf n' \<and> \<not> mn_redundant n'
    \<and> vals n' = (vals n)(p := insert v (vals n p))"
  using assms
proof (induction p arbitrary: n)
  case Nil
  obtain ps k where n: "n = MN ps k" by (cases n)
  have "vals (MN (Some (set_insert v xs)) k) x = (if x = [] then insert v (set xs) else vals n x)" for x xs
    using n by (cases x) auto
  then show ?case using Nil n by (cases ps) (auto simp: mn_wf_MN fun_eq_iff)
next
  case (Cons c cs)
  obtain ps k where n: "n = MN ps k" by (cases n)
  have k: "ct_wf k" using Cons n by (simp add: mn_wf_MN)
  define m where "m = case_option new_mnode id (child k c)"
  obtain k1 where ens: "ct_ensure new_mnode c k = Some (k1, m)" "ct_wf k1" "child k1 = (child k)(c := Some m)"
    using ct_ensure_spec [OF k, of new_mnode c] by (auto simp: m_def)
  have m: "mn_wf m" "vals m cs = vals n (c # cs)"
    using Cons.prems n by (auto simp: m_def mn_wf_MN split: option.splits)
  obtain m' where m': "mn_add cs v m = Some (vals m cs = {}, m')" "mn_wf m'" "\<not> mn_redundant m'"
    "vals m' = (vals m)(cs := insert v (vals m cs))"
    using Cons.IH [OF m(1)] by metis
  obtain k2 where k2: "ct_store c (Some m') k1 = Some k2" "ct_wf k2" "child k2 = (child k)(c := Some m')"
    using ct_store_child [OF ens(2), of c m m'] ens(3) by auto
  have "mn_add (c # cs) v n = Some (vals n (c # cs) = {}, MN ps k2)"
    unfolding n using ens m' k2 m n by simp
  moreover have "mn_wf (MN ps k2)" using Cons.prems n k2 m' by (auto simp: mn_wf_MN)
  moreover have "\<not> mn_redundant (MN ps k2)" using k2 by (auto simp: ct_live_0_child)
  moreover have "vals (MN ps k2) = (vals n)(c # cs := insert v (vals n (c # cs)))"
    unfolding m(2) [symmetric, unfolded n] n by (rule vals_fun_upd_child [OF k2(3) m'(4) m_def])
  ultimately show ?case by blast
qed

subsection \<open>Removing one entry\<close>

lemma mn_prune_table:
  assumes "2 \<le> length tab" "unat mn + length tab \<le> 256" "unat mn \<le> unat c"
    and "unat c - unat mn < length tab" "tab ! (unat c - unat mn) \<noteq> None"
    and "tab ! 0 \<noteq> None" "tab ! (length tab - 1) \<noteq> None"
  defines "t \<equiv> CT mn (length tab) (live_count tab) (NextTable tab)"
  shows "\<exists>t'. mn_prune c t = Some t' \<and> ct_wf t' \<and> child t' = (child t)(c := None)"
proof -
  define i where "i = unat c - unat mn"
  define tab' where "tab' = tab[i := None]"
  have i: "i < length tab" "tab ! i \<noteq> None" using assms by (auto simp: i_def)
  have lc: "live_count tab = Suc (live_count tab')"
    using i by (simp add: tab'_def live_count_clear)
  have len: "length tab = length tab'" "unat mn + length tab' \<le> 256" using assms by (auto simp: tab'_def)
  have ch: "child (CT mn (length tab') lv (NextTable tab')) = (child t)(c := None)" for lv
    using assms(3,4) child_clear [of mn c tab lv "live_count tab"] by (simp add: t_def tab'_def i_def)
  have two: "live_count tab \<ge> 2"
    using live_count_two [of 0 "length tab - 1" tab] assms by auto
  have c0: "c = mn \<longleftrightarrow> i = 0" using assms(3) by (auto simp: i_def word_unat_eq_iff)
  have cL: "unat c = unat mn + length tab' - 1 \<longleftrightarrow> i = length tab' - 1" using assms i len by (auto simp: i_def)
  have ends: "tab' ! 0 = None \<longleftrightarrow> i = 0" "tab' ! (length tab' - 1) = None \<longleftrightarrow> i = length tab' - 1"
    using assms i by (auto simp: tab'_def nth_list_update)
  have ts: "tab_set tab (unat c - unat mn) None = Some tab'" using i by (simp add: tab'_def i_def)
  have "tab' \<noteq> []" using assms(1) len by auto
  have run: "mn_prune c t = (if live_count tab' = 1 then do {
         j \<leftarrow> List.find (\<lambda>i. tab' ! i \<noteq> None) [0..<length tab'];
         Some (CT (mn + of_nat j) 1 1 (NextNode (tab' ! j)))
       } else if i = 0 then do {
         j \<leftarrow> List.find (\<lambda>i. tab' ! i \<noteq> None) [1..<length tab'];
         Some (CT (mn + of_nat j) (length tab' - j) (live_count tab') (NextTable (take (length tab' - j) (drop j tab'))))
       } else if i = length tab' - 1 then do {
         j \<leftarrow> List.find (\<lambda>i. tab' ! (length tab' - 1 - i) \<noteq> None) [1..<length tab'];
         Some (CT mn (length tab' - j) (live_count tab') (NextTable (take (length tab' - j) tab')))
       } else Some (CT mn (length tab') (live_count tab') (NextTable tab')))"
    unfolding t_def mn_prune.simps using assms(1) two lc ts c0 cL \<open>tab' \<noteq> []\<close> by (auto simp: Let_def len)
  consider (one) "live_count tab' = 1" | (left) "live_count tab' \<ge> 2" "i = 0"
    | (right) "live_count tab' \<ge> 2" "i = length tab' - 1" "i \<noteq> 0"
    | (mid) "live_count tab' \<ge> 2" "i \<noteq> 0" "i \<noteq> length tab' - 1"
    using two lc by linarith
  then show ?thesis
  proof cases
    case one
    then obtain a0 where a0: "a0 < length tab'" "tab' ! a0 \<noteq> None" using live_count_eq_0 [of tab'] by auto
    then obtain a where a: "List.find (\<lambda>i. tab' ! i \<noteq> None) [0..<length tab'] = Some a"
      using find_upt_exists [of 0 a0 "length tab'" "\<lambda>i. tab' ! i \<noteq> None"] by blast
    have a': "a < length tab'" "tab' ! a \<noteq> None" using find_upt_Some [OF a] by auto
    show ?thesis unfolding run using one a compact_one(1) [OF len(2) one a'] compact_one(2) [OF len(2) one a', of 1] ch
      by (simp del: child.simps ct_wf.simps)
  next
    case left
    obtain j where j: "List.find (\<lambda>i. tab' ! i \<noteq> None) [1..<length tab'] = Some j" "1 \<le> j" "j < length tab'"
      "unat (mn + of_nat j :: byte) = unat mn + j"
      "ct_wf (CT (mn + of_nat j) (length tab' - j) (live_count tab') (NextTable (drop j tab')))"
      "\<And>lv lv'. child (CT (mn + of_nat j) (length tab' - j) lv' (NextTable (drop j tab')))
        = child (CT mn (length tab') lv (NextTable tab'))"
      by (rule compact_left [OF len(2) left(1)]) (use ends left assms(1) len in auto)
    then show ?thesis unfolding run using left ch by (simp del: child.simps ct_wf.simps)
  next
    case right
    obtain j where "List.find (\<lambda>i. tab' ! (length tab' - 1 - i) \<noteq> None) [1..<length tab'] = Some j"
      "1 \<le> j" "j < length tab'"
      "ct_wf (CT mn (length tab' - j) (live_count tab') (NextTable (take (length tab' - j) tab')))"
      "\<And>lv lv'. child (CT mn (length tab' - j) lv' (NextTable (take (length tab' - j) tab')))
        = child (CT mn (length tab') lv (NextTable tab'))"
      by (rule compact_right [OF len(2) right(1)]) (use ends right assms(1) len in auto)
    then show ?thesis unfolding run using right ch by (simp del: child.simps ct_wf.simps)
  next
    case mid
    then show ?thesis unfolding run using ends ch len assms(1,2) by auto
  qed
qed

lemma mn_prune_spec:
  assumes "ct_wf t" "child t c = Some n"
  shows "\<exists>t'. mn_prune c t = Some t' \<and> ct_wf t' \<and> child t' = (child t)(c := None)"
  using assms(1)
proof (cases t rule: ct_wf_cases)
  case (table mn tab)
  have "unat mn \<le> unat c" "unat c - unat mn < length tab" "tab ! (unat c - unat mn) \<noteq> None"
    using assms(2) table(1) by (auto split: if_splits)
  with table mn_prune_table [of tab mn c] show ?thesis
    by (simp del: child.simps ct_wf.simps mn_prune.simps)
qed (use assms(2) in \<open>auto simp: fun_eq_iff word_unat_eq_iff split: if_splits\<close>)

definition rm_answer :: "nat \<Rightarrow> nat set \<Rightarrow> rm_result" where
  "rm_answer v S = (if v \<notin> S then not_found else if S = {v} then last_value_removed else values_remain)"

lemma vals_remove_child:
  assumes "child k' = (child k)(c := None)" "child k c = Some n" "\<And>x. vals n' x = {}"
    and "vals n' = (vals n)(cs := v)"
  shows "vals (MN ps k') = (vals (MN ps k))(c # cs := v)"
proof
  fix x
  have "vals n y = {}" if "y \<noteq> cs" for y using assms(3) [of y] assms(4) that by simp
  moreover have "v = {}" using assms(3) [of cs] assms(4) by simp
  ultimately show "vals (MN ps k') x = ((vals (MN ps k))(c # cs := v)) x"
    using assms(1,2) by (cases x) auto
qed

lemma mn_rm_spec:
  assumes "mn_wf n"
  shows "\<exists>n'. mn_rm p v n = Some (rm_answer v (vals n p), n') \<and> mn_wf n'
    \<and> vals n' = (vals n)(p := vals n p - {v})"
  using assms
proof (induction p arbitrary: n)
  case Nil
  obtain ps k where n: "n = MN ps k" by (cases n)
  have vs: "vals (MN ps' k) x = (if x = [] then vals (MN ps' k) [] else vals n x)" for x ps'
    using n by (cases x) auto
  show ?case
  proof (cases ps)
    case None
    with n have "(vals n)([] := vals n [] - {v}) = vals n" by (intro fun_upd_idem) simp
    with Nil n None show ?thesis by (simp add: rm_answer_def)
  next
    case (Some xs)
    have xs: "xs \<noteq> []" "sorted xs" "distinct xs" using Nil n Some by (auto simp: mn_wf_MN)
    have "remove1 v xs = [] \<longleftrightarrow> set xs = {v}" using xs by (metis Diff_eq_empty_iff remove1_idem set_empty set_remove1_eq subset_singleton_iff)
    moreover have "v \<in> set xs" if "remove1 v xs = []" using that xs(1) by (metis remove1_idem)
    ultimately show ?thesis using Nil n Some xs vs [where ps' = None] vs [where ps' = "Some (remove1 v xs)"]
      by (auto simp: mn_wf_MN rm_answer_def fun_eq_iff Let_def sorted_remove1)
  qed
next
  case (Cons c cs)
  obtain ps k where n: "n = MN ps k" by (cases n)
  have k: "ct_wf k" using Cons n by (simp add: mn_wf_MN)
  show ?case
  proof (cases "child k c")
    case None
    then have "mn_rm (c # cs) v n = Some (not_found, n)" "vals n (c # cs) = {}"
      using n k by (auto simp: ct_slot_child)
    with Cons.prems show ?thesis by (auto simp: fun_upd_idem rm_answer_def)
  next
    case (Some m)
    have m: "mn_wf m" "vals n (c # cs) = vals m cs" using Cons.prems n Some by (auto simp: mn_wf_MN)
    obtain m' where m': "mn_rm cs v m = Some (rm_answer v (vals m cs), m')" "mn_wf m'"
      "vals m' = (vals m)(cs := vals m cs - {v})"
      using Cons.IH [OF m(1)] by blast
    have rng: "in_range c k" "ct_count k \<noteq> 0" using Some by (cases k; auto split: if_splits)+
    define upd where "upd = (if mn_redundant m' then mn_prune c k else ct_store c (Some m') k)"
    obtain k' where k': "upd = Some k'" "ct_wf k'" "child k' = (child k)(c := if mn_redundant m' then None else Some m')"
      using mn_prune_spec [OF k Some] ct_store_child [OF k Some, of m']
      by (cases "mn_redundant m'") (auto simp: upd_def)
    have run: "mn_rm (c # cs) v n = Some (rm_answer v (vals m cs), MN ps k')"
      using n rng Some m' k'(1) ct_slot_child [OF k, of c] by (simp add: upd_def)
    have "vals (MN ps k') = (vals (MN ps k))(c # cs := vals m cs - {v})"
    proof (cases "mn_redundant m'")
      case True
      with k' show ?thesis
        by (intro vals_remove_child [OF _ Some vals_redundant [OF m'(2)] m'(3)]) auto
    next
      case False
      with k' m' Some show ?thesis by (intro vals_fun_upd_child) auto
    qed
    moreover have "mn_wf (MN ps k')" using Cons.prems n k' m' by (auto simp: mn_wf_MN split: if_splits)
    ultimately show ?thesis using run n m by auto
  qed
qed

subsection \<open>Matching\<close>

lemma mn_match_spec:
  assumes "mn_wf n"
  shows "mn_match d n = Some (concat (map (\<lambda>p. sorted_list_of_set (vals n p)) (prefixes d)))"
  using assms
proof (induction d arbitrary: n)
  case Nil
  obtain ps mn ct lv nx where n: "n = MN ps (CT mn ct lv nx)" by (cases n; cases "mkids n") auto
  with Nil show ?case
    by (auto simp: mn_wf_MN sorted_list_of_set.idem_if_sorted_distinct split: option.splits)
next
  case (Cons c cs)
  obtain ps mn ct lv nx where n: "n = MN ps (CT mn ct lv nx)" by (cases n; cases "mkids n") auto
  let ?k = "CT mn ct lv nx"
  have k: "ct_wf ?k" "pipes_ok ps" using Cons n by (simp_all add: mn_wf_MN)
  have here: "sorted_list_of_set (vals n []) = (case ps of None \<Rightarrow> [] | Some xs \<Rightarrow> xs)"
    using k(2) n by (auto simp: sorted_list_of_set.idem_if_sorted_distinct split: option.splits)
  have slot: "(if ct = 1 then (if c \<noteq> mn then Some None else get_node nx)
                 else if \<not> in_range c ?k then Some None
                 else get_table nx \<bind> (\<lambda>tab. tab_get tab (unat c - unat mn))) = Some (child ?k c)" if "ct \<noteq> 0"
    using k(1) that
    by (cases ?k rule: ct_wf_cases) (auto simp: word_unat_eq_iff split: option.splits)
  show ?case
  proof (cases "child ?k c")
    case None
    then have "vals n (c # p) = {}" for p using n by simp
    moreover have "mn_match (c # cs) n = Some (case ps of None \<Rightarrow> [] | Some xs \<Rightarrow> xs)"
      unfolding n mn_match.simps using slot None by (cases "ct = 0") (simp_all add: Let_def)
    ultimately show ?thesis using here by (simp add: comp_def)
  next
    case (Some m)
    then have "ct \<noteq> 0" by (auto split: if_splits)
    moreover have "mn_match cs m = Some (concat (map (\<lambda>p. sorted_list_of_set (vals m p)) (prefixes cs)))"
      using Cons Some n by (intro Cons.IH) (auto simp: mn_wf_MN)
    moreover have "vals n (c # p) = vals m p" for p using Some n by simp
    ultimately show ?thesis using here slot Some unfolding n mn_match.simps
      by (simp add: Let_def comp_def del: child.simps)
  qed
qed

end
