(* ===== verification/Mtrie_Topics.thy ===== *)
theory Mtrie_Topics
  imports Mtrie
begin

text \<open>
  The multi-trie of \<^verbatim>\<open>generic_mtrie_impl.hpp\<close> as a map from topics to sets of pipes: the removal of
  a pipe everywhere with its sweep and compaction of the tables, which callbacks it makes, the
  refinement of the map by sequences of operations, and where the count of prefixes goes
  wrong.
\<close>

subsection \<open>Removing a pipe everywhere\<close>

definition kept :: "mnode option \<Rightarrow> mnode option" where
  "kept p = (case p of None \<Rightarrow> None | Some n \<Rightarrow> if mn_redundant n then None else Some n)"

lemma kept_simps [simp]:
  "kept None = None" "mn_redundant n \<Longrightarrow> kept (Some n) = None" "\<not> mn_redundant n \<Longrightarrow> kept (Some n) = Some n"
  by (simp_all add: kept_def)

lemma live_count_kept: "live_count (map kept tab) \<le> live_count tab"
  by (induction tab) (auto simp: kept_def split: option.splits)

text \<open>What the sweep records: the first and the last child it keeps, or the values it started with.\<close>

definition ends_of :: "nat \<Rightarrow> mnode option list \<Rightarrow> byte \<Rightarrow> byte \<Rightarrow> byte \<Rightarrow> byte \<Rightarrow> bool" where
  "ends_of base tab lo hi lo' hi' \<longleftrightarrow> lo' \<le> lo \<and> hi \<le> hi'
     \<and> (\<forall>k < length tab. tab ! k \<noteq> None \<longrightarrow> unat lo' \<le> base + k \<and> base + k \<le> unat hi')
     \<and> (lo' = lo \<or> (\<exists>k < length tab. tab ! k \<noteq> None \<and> unat lo' = base + k))
     \<and> (hi' = hi \<or> (\<exists>k < length tab. tab ! k \<noteq> None \<and> unat hi' = base + k))"

lemma rm_sweep_spec:
  assumes "unat mn + i + length tab \<le> 256" "live_count tab \<le> lv"
  shows "\<exists>lo' hi'. rm_sweep mn i tab lv lo hi
      = Some (map kept tab, lv - live_count tab + live_count (map kept tab), lo', hi')
    \<and> ends_of (unat mn + i) (map kept tab) lo hi lo' hi'"
  using assms
proof (induction tab arbitrary: i lv lo hi)
  case Nil
  then show ?case by (simp add: ends_of_def)
next
  case (Cons p tab)
  show ?case
  proof (cases "kept p")
    case None
    define lv1 where "lv1 = (if p = None then lv else lv - 1)"
    have lv1: "live_count tab \<le> lv1" "lv1 - live_count tab = lv - live_count (p # tab)" "p = None \<or> 0 < lv"
      using Cons.prems by (auto simp: lv1_def split: if_splits)
    obtain lo' hi' where r: "rm_sweep mn (Suc i) tab lv1 lo hi
        = Some (map kept tab, lv1 - live_count tab + live_count (map kept tab), lo', hi')"
      "ends_of (unat mn + Suc i) (map kept tab) lo hi lo' hi'"
      using Cons.IH [of "Suc i" lv1 lo hi] Cons.prems lv1(1) by auto
    have "rm_sweep mn i (p # tab) lv lo hi = map_option (apfst (Cons None)) (rm_sweep mn (Suc i) tab lv1 lo hi)"
      using None lv1(3) by (cases p) (auto simp: lv1_def kept_def split: if_splits)
    with r None lv1(2) show ?thesis
      by (auto simp: ends_of_def All_less_Suc2 Ex_less_Suc2)
  next
    case (Some n)
    then have p: "p = Some n" "\<not> mn_redundant n" by (auto simp: kept_def split: option.splits if_splits)
    define ch where "ch = i + unat mn"
    define lo1 where "lo1 = (if ch < unat lo then of_nat ch else lo)"
    define hi1 where "hi1 = (if ch > unat hi then of_nat ch else hi)"
    have "ch < 256" using Cons.prems(1) by (simp add: ch_def)
    then have ch: "unat (of_nat ch :: byte) = ch" by (simp add: unat_of_nat)
    have b: "lo1 \<le> lo" "unat lo1 \<le> ch" "lo1 = lo \<or> unat lo1 = ch" "hi \<le> hi1" "ch \<le> unat hi1" "hi1 = hi \<or> unat hi1 = ch"
      using ch by (auto simp: lo1_def hi1_def word_le_nat_alt)
    obtain lo' hi' where r: "rm_sweep mn (Suc i) tab lv lo1 hi1
        = Some (map kept tab, lv - live_count tab + live_count (map kept tab), lo', hi')"
      "ends_of (unat mn + Suc i) (map kept tab) lo1 hi1 lo' hi'"
      using Cons.IH [of "Suc i" lv lo1 hi1] Cons.prems by auto
    have "rm_sweep mn i (p # tab) lv lo hi = map_option (apfst (Cons (Some n))) (rm_sweep mn (Suc i) tab lv lo1 hi1)"
      using p by (simp add: Let_def ch_def lo1_def hi1_def)
    moreover have "ends_of (unat mn + i) (map kept (p # tab)) lo hi lo' hi'"
    proof -
      have "unat lo' \<le> unat lo1" "unat hi1 \<le> unat hi'" using r(2) by (auto simp: ends_of_def word_le_nat_alt)
      then show ?thesis using r(2) b p unfolding ends_of_def
        by (auto simp: All_less_Suc2 Ex_less_Suc2 ch_def add_ac)
    qed
    moreover have "lv - live_count tab = Suc (lv - live_count (p # tab))" using Cons.prems(2) p by simp
    ultimately show ?thesis using r(1) p by simp
  qed
qed

lemma rm_compact_spec:
  assumes "2 \<le> length tab" "unat mn + length tab \<le> 256"
    and "ends_of (unat mn) tab (mn + of_nat (length tab) - 1) mn lo hi"
  shows "\<exists>k. rm_compact mn (length tab) tab (live_count tab) lo hi = Some k \<and> ct_wf k
    \<and> child k = child (CT mn (length tab) lv (NextTable tab))"
proof (cases "live_count tab = 0")
  case True
  then have "child (CT mn (length tab) lv (NextTable tab)) c = None" for c
    by (auto simp: live_count_eq_0)
  with True show ?thesis by (simp add: rm_compact_def fun_eq_iff)
next
  case False
  let ?L = "\<lambda>k. k < length tab \<and> tab ! k \<noteq> None"
  have top: "unat (mn + of_nat (length tab) - 1 :: byte) = unat mn + length tab - 1"
    using assms(1,2) unat_add_of_nat_byte [of mn "length tab - 1"] by (simp add: of_nat_diff add_diff_eq)
  obtain k0 where k0: "?L k0" using False by (auto simp: live_count_eq_0)
  have bnd: "unat lo \<le> unat mn + k \<and> unat mn + k \<le> unat hi" if "?L k" for k
    using assms(3) that by (auto simp: ends_of_def)
  have "\<exists>a. ?L a \<and> unat lo = unat mn + a"
  proof (cases "lo = mn + of_nat (length tab) - 1")
    case True
    then have "unat lo = unat mn + length tab - 1" using top by simp
    then have "unat lo = unat mn + k0" using bnd [OF k0] k0 by linarith
    with k0 show ?thesis by blast
  qed (use assms(3) in \<open>auto simp: ends_of_def\<close>)
  then obtain a where a: "?L a" "unat lo = unat mn + a" by blast
  have "\<exists>b. ?L b \<and> unat hi = unat mn + b"
  proof (cases "hi = mn")
    case True
    then have "unat hi = unat mn + k0" using bnd [OF k0] by simp
    with k0 show ?thesis by blast
  qed (use assms(3) in \<open>auto simp: ends_of_def\<close>)
  then obtain b where b: "?L b" "unat hi = unat mn + b" by blast
  have live: "\<forall>k < length tab. tab ! k \<noteq> None \<longrightarrow> a \<le> k \<and> k < Suc b" using bnd a(2) b(2) by fastforce
  have ab: "a \<le> b" using live a(1) by auto
  have lo: "lo = mn + of_nat a" using a unat_add_of_nat_byte [of mn a] assms(2) by (simp add: word_unat_eq_iff)
  have mn: "mn \<le> lo" using a(2) by (simp add: word_le_nat_alt)
  show ?thesis
  proof (cases "live_count tab = 1")
    case True
    then have "a = b" using live_count_one [of tab a b] a b by simp
    then have "lo = hi" using a b by (simp add: word_unat_eq_iff)
    then have "rm_compact mn (length tab) tab (live_count tab) lo hi = Some (CT (mn + of_nat a) 1 1 (NextNode (tab ! a)))"
      using True a mn by (simp add: rm_compact_def lo [symmetric])
    then show ?thesis using compact_one [OF assms(2) True, of a] a(1) by (simp del: child.simps ct_wf.simps)
  next
    case two: False
    then have "a \<noteq> b" using live live_count_drop_take [of tab a "Suc b"] live_count_le [of "take (Suc b - a) (drop a tab)"] False
      by auto
    then have lt: "a < b" using ab by simp
    have lt': "lo < hi" using lt a b by (simp add: word_less_nat_alt)
    have ct: "unat hi - unat lo + 1 = Suc b - a" "unat lo - unat mn = a" using a b lt by simp_all
    let ?k = "CT (mn + of_nat a) (Suc b - a) (live_count tab) (NextTable (take (Suc b - a) (drop a tab)))"
    have wf: "ct_wf ?k" using live lt a b assms(2) by (intro ct_wf_window) auto
    have ch: "child ?k = child (CT mn (length tab) lv (NextTable tab))"
      using live lt b assms(2) by (intro child_window) auto
    show ?thesis
    proof (cases "a = 0 \<and> Suc b = length tab")
      case True
      then have eq: "?k = CT mn (length tab) (live_count tab) (NextTable tab)" by simp
      from True have "\<not> (lo > mn \<or> unat hi < unat mn + length tab - 1)" using lo b by auto
      then have "rm_compact mn (length tab) tab (live_count tab) lo hi = Some (CT mn (length tab) (live_count tab) (NextTable tab))"
        using False two by (simp add: rm_compact_def)
      then show ?thesis using wf ch unfolding eq by blast
    next
      case cut: False
      then have ar: "lo > mn \<or> unat hi < unat mn + length tab - 1" "unat hi \<le> unat mn + length tab - 1" "Suc b - a < length tab"
        using a b by (auto simp: word_less_nat_alt)
      have "rm_compact mn (length tab) tab (live_count tab) lo hi = Some ?k"
        using False two lt' mn ar unfolding rm_compact_def ct lo [symmetric] by (simp add: Let_def)
      then show ?thesis using wf ch by (simp del: child.simps ct_wf.simps)
    qed
  qed
qed

text \<open>The calls a node makes itself.\<close>

definition called :: "bool \<Rightarrow> nat \<Rightarrow> nat set \<Rightarrow> bool" where
  "called uniq v S \<longleftrightarrow> v \<in> S \<and> (uniq \<longrightarrow> S = {v})"

lemma rm_here_spec:
  assumes "pipes_ok ps" "rm_here uniq v ps = (call, ps')"
  shows "pipes_ok ps'" "vals (MN ps' k) [] = vals (MN ps k0) [] - {v}" "call = called uniq v (vals (MN ps k0) [])"
proof -
  have *: "remove1 v xs = [] \<longleftrightarrow> set xs = {v}" if "v \<in> set xs" "distinct xs" for xs
    using that set_remove1_eq [OF that(2), of v] by (simp add: set_empty [symmetric] del: set_empty) blast
  show "pipes_ok ps'" "vals (MN ps' k) [] = vals (MN ps k0) [] - {v}" "call = called uniq v (vals (MN ps k0) [])"
    using assms * by (auto simp: rm_here_def called_def Let_def sorted_remove1 split: option.splits if_splits)
qed

lemma child_kept:
  assumes "\<And>c. child k c = (case child k0 c of None \<Rightarrow> None | Some n \<Rightarrow> kept (Some (F n)))"
    and "\<And>c n. child k0 c = Some n \<Longrightarrow> mn_wf (F n) \<and> (\<forall>p. vals (F n) p = vals n p - {v})"
  shows "vals (MN ps k) (c # cs) = vals (MN ps0 k0) (c # cs) - {v}"
proof (cases "child k0 c")
  case (Some n)
  have "vals n cs - {v} = {}" if "mn_redundant (F n)"
    using assms(2) [OF Some] vals_redundant [of "F n"] that by metis
  with Some assms(1) [of c] assms(2) [OF Some] show ?thesis by (auto simp: kept_def)
qed (simp add: assms(1))

text \<open>\<open>P n\<close> are the topics called below a node and \<open>F n\<close> the node afterwards.\<close>

lemma rm_value_spec:
  assumes "mn_wf n"
  shows "\<exists>ps n'. (\<forall>buff. rm_value uniq v buff n = Some (map ((@) buff) ps, n')) \<and> mn_wf n'
    \<and> (\<forall>p. vals n' p = vals n p - {v}) \<and> distinct ps \<and> set ps = {p. called uniq v (vals n p)}"
  using assms
proof (induction n rule: mn_wf.induct)
  case (1 k ps)
  have "\<forall>n. \<exists>r. (\<exists>c. child k c = Some n) \<longrightarrow> (\<forall>buff. rm_value uniq v buff n = Some (map ((@) buff) (fst r), snd r))
      \<and> mn_wf (snd r) \<and> (\<forall>p. vals (snd r) p = vals n p - {v}) \<and> distinct (fst r) \<and> set (fst r) = {p. called uniq v (vals n p)}"
    using 1(3) by (metis fst_conv snd_conv)
  then obtain R where R: "\<And>c n. child k c = Some n \<Longrightarrow> (\<forall>buff. rm_value uniq v buff n = Some (map ((@) buff) (fst (R n)), snd (R n)))
      \<and> mn_wf (snd (R n)) \<and> (\<forall>p. vals (snd (R n)) p = vals n p - {v}) \<and> distinct (fst (R n))
      \<and> set (fst (R n)) = {p. called uniq v (vals n p)}" by metis
  define F where "F n = snd (R n)" for n
  define sub where "sub c = (case child k c of None \<Rightarrow> [] | Some n \<Rightarrow> map ((#) c) (fst (R n)))" for c
  obtain call ps' where here: "rm_here uniq v ps = (call, ps')" by fastforce
  note here_ok = rm_here_spec [OF 1(2) here]
  define cs where "cs = map (\<lambda>i. ct_min k + of_nat i) [0..<ct_count k]"
  define qs where "qs = (if call then [[]] else []) @ concat (map sub cs)"
  have "unat (ct_min k + of_nat i) = unat (ct_min k) + i" if "i < ct_count k" for i
    using that ct_wf_bounds [OF 1(1)] by (intro unat_add_of_nat_byte) simp
  then have dcs: "distinct cs"
    by (auto simp: cs_def distinct_map inj_on_def word_unat_eq_iff)
  have cs: "c \<in> set cs" if "child k c = Some n" for c n
  proof -
    have "unat (ct_min k) \<le> unat c \<and> unat c < unat (ct_min k) + ct_count k"
      using child_in_range [OF that] by (cases k) auto
    then show ?thesis
      by (auto simp: cs_def byte_eq_add_diff intro!: image_eqI [of _ _ "unat c - unat (ct_min k)"])
  qed
  have nc: "\<not> called uniq v {}" by (simp add: called_def)
  have sets: "set (sub c) = {c # p | p. called uniq v (vals (MN ps k) (c # p))}" for c
    by (cases "child k c") (use R nc in \<open>auto simp: sub_def\<close>)
  have "set qs = {p. called uniq v (vals (MN ps k) p)}"
  proof (rule set_eqI)
    fix p
    show "p \<in> set qs \<longleftrightarrow> p \<in> {p. called uniq v (vals (MN ps k) p)}"
      using cs here_ok(3) [of k] nc by (cases p) (auto simp: qs_def sets split: option.splits)
  qed
  moreover have "distinct qs"
  proof -
    have "distinct (sub c)" for c using R by (auto simp: sub_def distinct_map split: option.splits)
    then have "distinct (concat (map sub cs))" using dcs by (intro distinct_concat_map) (auto simp: sets)
    then show ?thesis by (auto simp: qs_def sets)
  qed
  moreover have "\<exists>k'. (\<forall>buff. rm_value uniq v buff (MN ps k) = Some (map ((@) buff) qs, MN ps' k')) \<and> ct_wf k'
      \<and> (\<forall>c. child k' c = (case child k c of None \<Rightarrow> None | Some n \<Rightarrow> kept (Some (F n))))"
    using 1(1)
  proof (cases k rule: ct_wf_cases)
    case (empty mn nx)
    then show ?thesis using here by (intro exI [of _ k]) (auto simp: qs_def cs_def)
  next
    case (single mn n)
    have r: "rm_value uniq v buff n = Some (map ((@) buff) (fst (R n)), F n)" for buff using R [of mn n] single by (simp add: F_def)
    have q: "qs = (if call then [[]] else []) @ map ((#) mn) (fst (R n))" using single by (simp add: qs_def cs_def sub_def)
    show ?thesis
    proof (cases "mn_redundant (F n)")
      case True
      then show ?thesis using single here r q
        by (intro exI [of _ "CT mn 0 0 (NextNode None)"]) (auto simp: word_unat_eq_iff comp_def)
    next
      case False
      then show ?thesis using single here r q
        by (intro exI [of _ "CT mn 1 1 (NextNode (Some (F n)))"]) (auto simp: comp_def)
    qed
  next
    case (table mn tab)
    define tb where "tb = map (map_option F) tab"
    define top where "top = mn + of_nat (length tab) - 1"
    have tb: "length tb = length tab" "live_count tb = live_count tab"
      by (simp_all add: tb_def live_count_def filter_map comp_def)
    have vis: "those (map (\<lambda>i. case tab_get tab i of None \<Rightarrow> None | Some None \<Rightarrow> Some ([], None)
          | Some (Some n) \<Rightarrow> map_option (apsnd Some) (rm_value uniq v (buff @ [mn + of_nat i]) n)) [0..<length tab])
        = Some (map (\<lambda>i. (map ((@) buff) (sub (mn + of_nat i)), map_option F (tab ! i))) [0..<length tab])" for buff
    proof (rule those_map_Some)
      fix i assume "i \<in> set [0..<length tab]"
      then have i: "i < length tab" by simp
      then have "child k (mn + of_nat i) = tab ! i"
        using table unat_add_of_nat_byte [of mn i] by simp
      with i R [of "mn + of_nat i"] show "(case tab_get tab i of None \<Rightarrow> None | Some None \<Rightarrow> Some ([], None)
          | Some (Some n) \<Rightarrow> map_option (apsnd Some) (rm_value uniq v (buff @ [mn + of_nat i]) n))
        = Some (map ((@) buff) (sub (mn + of_nat i)), map_option F (tab ! i))"
        by (cases "tab ! i") (simp_all add: sub_def F_def comp_def)
    qed
    have sn: "map (\<lambda>i. map_option F (tab ! i)) [0..<length tab] = tb"
      by (rule nth_equalityI) (simp_all add: tb_def)
    obtain lo hi where sw: "rm_sweep mn 0 tb (live_count tab) top mn = Some (map kept tb, live_count (map kept tb), lo, hi)"
      "ends_of (unat mn) (map kept tb) top mn lo hi"
      using rm_sweep_spec [of mn 0 tb "live_count tab" top mn] table tb by auto
    obtain k' where k': "rm_compact mn (length tab) (map kept tb) (live_count (map kept tb)) lo hi = Some k'" "ct_wf k'"
      "child k' = child (CT mn (length tab) 0 (NextTable (map kept tb)))"
      using rm_compact_spec [of "map kept tb" mn lo hi 0] table tb sw(2) by (auto simp: top_def simp del: child.simps)
    have "rm_value uniq v buff (MN ps k) = Some (map ((@) buff) qs, MN ps' k')" for buff
    proof -
      have "ct_count k = length tab" "ct_min k = mn" using table(1) by simp_all
      then have cat: "concat (map (\<lambda>i. map ((@) buff) (sub (mn + of_nat i))) [0..<length tab]) = map ((@) buff) (concat (map sub cs))"
        by (simp add: cs_def map_concat comp_def)
      have "length tab \<noteq> 0" "length tab \<noteq> 1" using table(2) by auto
      then show ?thesis unfolding table(1) rm_value.simps here Let_def prod.case
        by (simp only: if_False next_t.case vis Option.bind.bind_lunit map_map comp_def snd_conv fst_conv sn sw(1) [unfolded top_def] k'(1) cat prod.case)
          (simp add: qs_def)
    qed
    moreover have "child k' c = (case child k c of None \<Rightarrow> None | Some n \<Rightarrow> kept (Some (F n)))" for c
      using table tb unfolding k'(3) by (auto simp: tb_def split: option.splits)
    ultimately show ?thesis using k'(2) by blast
  qed
  then obtain k' where k': "\<And>buff. rm_value uniq v buff (MN ps k) = Some (map ((@) buff) qs, MN ps' k')" "ct_wf k'"
    "\<And>c. child k' c = (case child k c of None \<Rightarrow> None | Some n \<Rightarrow> kept (Some (F n)))" by blast
  have "vals (MN ps' k') p = vals (MN ps k) p - {v}" for p
  proof (cases p)
    case Nil
    then show ?thesis using here_ok(2) by blast
  next
    case (Cons c cs)
    show ?thesis unfolding Cons by (rule child_kept [OF k'(3)]) (use R in \<open>simp add: F_def\<close>)
  qed
  moreover have "mn_wf (MN ps' k')"
    using k'(2,3) here_ok(1) R by (auto simp: mn_wf_MN kept_def F_def split: option.splits if_splits)
  ultimately show ?case using k'(1) by blast
qed

subsection \<open>The multi-trie as a map from topics to pipes\<close>

datatype mt_op = MAdd bytes nat | MRm bytes nat | MRmValue bool nat

datatype mt_answer = Added bool | Removed rm_result | Calls "bytes list"

fun mt_do :: "mt_op \<Rightarrow> mtrie \<Rightarrow> (mt_answer \<times> mtrie) option" where
  "mt_do (MAdd p v) t = map_option (apfst Added) (mt_add p v t)"
| "mt_do (MRm p v) t = map_option (apfst Removed) (mt_rm p v t)"
| "mt_do (MRmValue uniq v) t = map_option (apfst Calls) (mt_rm_value uniq v t)"

fun mt_run :: "mt_op list \<Rightarrow> mtrie \<Rightarrow> (mt_answer list \<times> mtrie) option" where
  "mt_run [] t = Some ([], t)"
| "mt_run (x # xs) t = do {
     (r, t') \<leftarrow> mt_do x t;
     (rs, t'') \<leftarrow> mt_run xs t';
     Some (r # rs, t'')
   }"

text \<open>The abstract store and the answer it allows.\<close>

type_synonym topics = "bytes \<Rightarrow> nat set"

fun topics_op :: "mt_op \<Rightarrow> topics \<Rightarrow> topics" where
  "topics_op (MAdd p v) T = T(p := insert v (T p))"
| "topics_op (MRm p v) T = T(p := T p - {v})"
| "topics_op (MRmValue uniq v) T = (\<lambda>p. T p - {v})"

fun answer_ok :: "mt_op \<Rightarrow> topics \<Rightarrow> mt_answer \<Rightarrow> bool" where
  "answer_ok (MAdd p v) T a \<longleftrightarrow> a = Added (T p = {})"
| "answer_ok (MRm p v) T a \<longleftrightarrow> a = Removed (rm_answer v (T p))"
| "answer_ok (MRmValue uniq v) T a \<longleftrightarrow> (\<exists>ps. a = Calls ps \<and> distinct ps \<and> set ps = {p. called uniq v (T p)})"

fun run_ok :: "mt_op list \<Rightarrow> topics \<Rightarrow> mt_answer list \<Rightarrow> bool" where
  "run_ok [] T as \<longleftrightarrow> as = []"
| "run_ok (x # xs) T as \<longleftrightarrow> (\<exists>a as'. as = a # as' \<and> answer_ok x T a \<and> run_ok xs (topics_op x T) as')"

definition topics_after :: "mt_op list \<Rightarrow> topics \<Rightarrow> topics" where
  "topics_after xs T = fold topics_op xs T"

definition no_topics :: topics where
  "no_topics = (\<lambda>p. {})"

text \<open>The count is at least the number of topics in use, which the assertion of \<^verbatim>\<open>rm\<close> needs.\<close>

definition mt_inv :: "topics \<Rightarrow> mtrie \<Rightarrow> bool" where
  "mt_inv T t \<longleftrightarrow> mn_wf (mt_root t) \<and> vals (mt_root t) = T \<and> finite {p. T p \<noteq> {}}
     \<and> card {p. T p \<noteq> {}} \<le> unat (num_prefixes t)"

lemma mt_inv_new: "mt_inv no_topics mt_new"
  by (simp add: mt_inv_def mt_new_def no_topics_def fun_eq_iff)

lemma mt_op_refines:
  assumes "mt_inv T t" "unat (num_prefixes t) + 1 < 2 ^ 32"
  shows "\<exists>a t'. mt_do x t = Some (a, t') \<and> answer_ok x T a \<and> mt_inv (topics_op x T) t'
    \<and> unat (num_prefixes t') \<le> unat (num_prefixes t) + 1"
proof -
  let ?used = "\<lambda>T. {p. T p \<noteq> {}}"
  have wf: "mn_wf (mt_root t)" and T: "vals (mt_root t) = T" and fin: "finite (?used T)"
    and c: "card (?used T) \<le> unat (num_prefixes t)" using assms(1) by (simp_all add: mt_inv_def)
  show ?thesis
  proof (cases x)
    case (MAdd p v)
    obtain n' where n': "mn_add p v (mt_root t) = Some (T p = {}, n')" "mn_wf n'" "vals n' = T(p := insert v (T p))"
      using mn_add_spec [OF wf, of p v] T by auto
    have u: "?used (T(p := insert v (T p))) = insert p (?used T)" by auto
    have inc: "unat (num_prefixes t + 1) = unat (num_prefixes t) + 1"
      using assms(2) by (simp add: unat_word_ariths)
    have "card (insert p (?used T)) = (if T p = {} then card (?used T) + 1 else card (?used T))"
      using fin by (auto simp: card_insert_if)
    with n' u fin c inc show ?thesis
      by (auto simp: MAdd mt_add_def mt_inv_def)
  next
    case (MRm p v)
    obtain n' where n': "mn_rm p v (mt_root t) = Some (rm_answer v (T p), n')" "mn_wf n'" "vals n' = T(p := T p - {v})"
      using mn_rm_spec [OF wf, of p v] T by auto
    show ?thesis
    proof (cases "T p = {v}")
      case True
      have u: "?used (T(p := T p - {v})) = ?used T - {p}" using True by auto
      have "p \<in> ?used T" using True by simp
      then have "0 < unat (num_prefixes t)" "card (?used T - {p}) = card (?used T) - 1" using c fin by (auto simp: card_gt_0_iff)
      then have dec: "unat (num_prefixes t - 1) = unat (num_prefixes t) - 1" "0 < num_prefixes t"
        using unat_minus_one [of "num_prefixes t"] by (auto simp: unat_gt_0 word_gt_0)
      have "rm_answer v (T p) = last_value_removed" using True by (simp add: rm_answer_def)
      with n' u fin c dec \<open>card (?used T - {p}) = _\<close> show ?thesis
        by (auto simp: MRm mt_rm_def mt_inv_def)
    next
      case False
      have u: "?used (T(p := T p - {v})) = ?used T" using False by auto
      have "rm_answer v (T p) \<noteq> last_value_removed" using False by (simp add: rm_answer_def)
      with n' u fin c show ?thesis by (auto simp: MRm mt_rm_def mt_inv_def)
    qed
  next
    case (MRmValue uniq v)
    obtain ps n' where n': "rm_value uniq v [] (mt_root t) = Some (map ((@) []) ps, n')" "mn_wf n'"
      "\<forall>p. vals n' p = T p - {v}" "distinct ps" "set ps = {p. called uniq v (T p)}"
      using rm_value_spec [OF wf, of uniq v] T by blast
    have "?used (\<lambda>p. T p - {v}) \<subseteq> ?used T" by auto
    then have "finite (?used (\<lambda>p. T p - {v}))" "card (?used (\<lambda>p. T p - {v})) \<le> card (?used T)"
      using fin finite_subset card_mono by blast+
    moreover have "vals n' = (\<lambda>p. T p - {v})" using n'(3) by blast
    ultimately show ?thesis using n' c by (auto simp: MRmValue mt_rm_value_def mt_inv_def map_idI)
  qed
qed

lemma mt_run_refines:
  "mt_inv T t \<Longrightarrow> unat (num_prefixes t) + length xs < 2 ^ 32 \<Longrightarrow>
   \<exists>as t'. mt_run xs t = Some (as, t') \<and> run_ok xs T as \<and> mt_inv (topics_after xs T) t'"
proof (induction xs arbitrary: T t)
  case (Cons x xs)
  obtain a t1 where t1: "mt_do x t = Some (a, t1)" "answer_ok x T a" "mt_inv (topics_op x T) t1"
    "unat (num_prefixes t1) \<le> unat (num_prefixes t) + 1"
    using mt_op_refines [OF Cons.prems(1), of x] Cons.prems(2) by auto
  obtain as t' where "mt_run xs t1 = Some (as, t')" "run_ok xs (topics_op x T) as" "mt_inv (topics_after xs (topics_op x T)) t'"
    using Cons.IH [OF t1(3)] t1(4) Cons.prems(2) by auto
  with t1 show ?case by (auto simp: topics_after_def)
qed (simp add: topics_after_def)

text \<open>C4: the multi-trie is the map from topics to sets of pipes. Fewer than 2 ^ 32 additions and removals, run from an
  empty multi-trie, end without a failed assertion and are answered as the map answers them:
  an addition says whether the topic is new, a removal whether it was the last pipe of the topic, and
  the removal of a pipe calls back once for each topic it is asked to report. A message matches
  the pipes of the prefixes of its topic, shortest prefix first, each set in order; and when no
  topic is left the root has no children.\<close>

theorem mtrie_refines_topics:
  assumes "length xs < 2 ^ 32"
  shows "\<exists>as t. mt_run xs mt_new = Some (as, t) \<and> run_ok xs no_topics as
    \<and> (\<forall>d. mn_match d (mt_root t) = Some (concat (map (\<lambda>p. sorted_list_of_set (topics_after xs no_topics p)) (prefixes d))))
    \<and> (topics_after xs no_topics = no_topics \<longrightarrow> mn_redundant (mt_root t))"
proof -
  obtain as t where t: "mt_run xs mt_new = Some (as, t)" "run_ok xs no_topics as" "mt_inv (topics_after xs no_topics) t"
    using mt_run_refines [OF mt_inv_new, of xs] assms by (auto simp: mt_new_def)
  then have "mn_match d (mt_root t) = Some (concat (map (\<lambda>p. sorted_list_of_set (topics_after xs no_topics p)) (prefixes d)))" for d
    using mn_match_spec [of "mt_root t" d] by (simp add: mt_inv_def)
  moreover have "mn_redundant (mt_root t)" if "topics_after xs no_topics = no_topics"
    using that t(3) vals_nonredundant [of "mt_root t"] by (auto simp: mt_inv_def no_topics_def)
  ultimately show ?thesis using t by blast
qed

theorem mtrie_refines_topics_witness:
  "\<exists>as t. mt_run [MAdd [1, 2] 7, MAdd [1] 9, MAdd [1, 2] 8, MRm [1, 2] 7] mt_new = Some (as, t)
     \<and> mn_match [1, 2, 3] (mt_root t) = Some [9, 8]"
proof -
  let ?xs = "[MAdd [1, 2] 7, MAdd [1] 9, MAdd [1, 2] 8, MRm [1, 2] 7]"
  have "topics_after ?xs no_topics [] = {}" "topics_after ?xs no_topics [1] = {9}" "topics_after ?xs no_topics [1, 2] = {8}"
    "topics_after ?xs no_topics [1, 2, 3] = {}"
    by (auto simp: topics_after_def no_topics_def)
  with mtrie_refines_topics [of ?xs] show ?thesis by auto
qed

text \<open>C38: removing a pipe everywhere, as is done when a subscriber disconnects, does not lower the count of prefixes: after
  one subscription and the loss of its subscriber the multi-trie is empty and reports one prefix,
  while removing the entry by its topic takes the count back to zero.\<close>

theorem mtrie_prefix_count_drifts:
  "\<exists>t1 t2 t3 ps. mt_add p v mt_new = Some (True, t1)
    \<and> mt_rm_value uniq v t1 = Some (ps, t2) \<and> vals (mt_root t2) = no_topics \<and> num_prefixes t2 = 1
    \<and> mt_rm p v t1 = Some (last_value_removed, t3) \<and> vals (mt_root t3) = no_topics \<and> num_prefixes t3 = 0"
proof -
  obtain n where n: "mn_add p v new_mnode = Some (True, n)" "mn_wf n" "vals n = no_topics(p := {v})"
    using mn_add_spec [OF mn_wf_new, of p v] by (auto simp: no_topics_def fun_eq_iff)
  obtain ps n2 where n2: "rm_value uniq v [] n = Some (ps, n2)" "\<forall>q. vals n2 q = vals n q - {v}"
    using rm_value_spec [OF n(2), of uniq v] by blast
  obtain n3 where n3: "mn_rm p v n = Some (last_value_removed, n3)" "vals n3 = (vals n)(p := {})"
    using mn_rm_spec [OF n(2), of p v] n(3) by (auto simp: rm_answer_def)
  have "vals n2 = no_topics" "vals n3 = no_topics" using n2(2) n3(2) n(3) by (auto simp: no_topics_def fun_eq_iff)
  with n n2(1) n3(1) show ?thesis
    by (auto simp: mt_add_def mt_rm_def mt_rm_value_def mt_new_def)
qed

end
