(* ===== verification/Pipe_Ends.thy ===== *)
theory Pipe_Ends
  imports Pipe
begin

text \<open>
  The pipes of a socket as its patterns use them. The fair queue, the load balancer and the distributor hold
  pointers to pipe ends and call \<^verbatim>\<open>read\<close>, \<^verbatim>\<open>write\<close> and the like on them; the operations
  are the fields of \<open>pipe_ops\<close>, with a pipe named by a number and the state of everything
  behind the calls as the parameter \<open>'w\<close>. \<open>net_ops\<close> are the operations of theory \<open>Pipe\<close> on a
  map of pipe ends. The locale \<open>message_source\<close> states what a reading client relies on, with the messages
  a pipe can still deliver as the abstract state.
\<close>

abbreviation has_more :: "msg \<Rightarrow> bool" where
  "has_more m \<equiv> has_flag f_more m"

record 'w pipe_ops =
  po_read :: "nat \<Rightarrow> 'w \<Rightarrow> (msg option \<times> 'w) option"
  po_check_read :: "nat \<Rightarrow> 'w \<Rightarrow> (bool \<times> 'w) option"
  po_write :: "nat \<Rightarrow> msg \<Rightarrow> 'w \<Rightarrow> (bool \<times> 'w) option"
  po_check_write :: "nat \<Rightarrow> 'w \<Rightarrow> (bool \<times> 'w) option"
  po_check_hwm :: "nat \<Rightarrow> 'w \<Rightarrow> bool option"
  po_flush :: "nat \<Rightarrow> 'w \<Rightarrow> 'w option"
  po_rollback :: "nat \<Rightarrow> 'w \<Rightarrow> 'w option"
  po_close :: "msg \<Rightarrow> 'w \<Rightarrow> 'w option"
  po_add_refs :: "int \<Rightarrow> msg \<Rightarrow> 'w \<Rightarrow> (msg \<times> 'w) option"
  po_rm_refs :: "int \<Rightarrow> msg \<Rightarrow> 'w \<Rightarrow> 'w option"

record net =
  n_pipes :: "nat \<rightharpoonup> pipe"
  n_world :: pipe_world

definition on_pipe :: "(pipe \<Rightarrow> pipe_world \<Rightarrow> ('a \<times> pipe \<times> pipe_world) option) \<Rightarrow> nat \<Rightarrow> net \<Rightarrow> ('a \<times> net) option" where
  "on_pipe f p n = do {
     e \<leftarrow> n_pipes n p;
     (r, e', w') \<leftarrow> f e (n_world n);
     Some (r, \<lparr>n_pipes = (n_pipes n)(p \<mapsto> e'), n_world = w'\<rparr>)
   }"

definition net_close :: "msg \<Rightarrow> net \<Rightarrow> net option" where
  "net_close m n = do {
     (rc, m', h) \<leftarrow> msg_close m (pw_heap (n_world n));
     zmq_assert (rc = 0);
     Some (n\<lparr>n_world := (n_world n)\<lparr>pw_heap := h\<rparr>\<rparr>)
   }"

definition net_ops :: "net pipe_ops" where
  "net_ops = \<lparr>po_read = on_pipe pipe_read,
     po_check_read = on_pipe pipe_check_read,
     po_write = (\<lambda>p m. on_pipe (pipe_write m) p),
     po_check_write = on_pipe (\<lambda>e w. case check_write e of (b, e') \<Rightarrow> Some (b, e', w)),
     po_check_hwm = (\<lambda>p n. map_option check_hwm (n_pipes n p)),
     po_flush = (\<lambda>p n. map_option snd (on_pipe (\<lambda>e w. map_option (\<lambda>w'. ((), e, w')) (pipe_flush e w)) p n)),
     po_rollback = (\<lambda>p n. map_option snd (on_pipe (\<lambda>e w. map_option (\<lambda>w'. ((), e, w')) (rollback e w)) p n)),
     po_close = net_close,
     po_add_refs = (\<lambda>k m n. map_option (\<lambda>(m', h). (m', n\<lparr>n_world := (n_world n)\<lparr>pw_heap := h\<rparr>\<rparr>)) (add_refs k m (pw_heap (n_world n)))),
     po_rm_refs = (\<lambda>k m n. map_option (\<lambda>(b, m', h). n\<lparr>n_world := (n_world n)\<lparr>pw_heap := h\<rparr>\<rparr>) (rm_refs k m (pw_heap (n_world n))))\<rparr>"

text \<open>A list of message parts that does not stop inside a message.\<close>

definition complete :: "msg list \<Rightarrow> bool" where
  "complete ms \<longleftrightarrow> ms = [] \<or> \<not> has_more (last ms)"

lemma complete_Cons: "complete (m # ms) \<Longrightarrow> complete ms"
  by (auto simp: complete_def split: if_splits)

lemma complete_more: "complete (m # ms) \<Longrightarrow> has_more m \<Longrightarrow> ms \<noteq> []"
  by (auto simp: complete_def)

locale message_source =
  fixes ops :: "'w pipe_ops"
    and inv :: "'w \<Rightarrow> bool"
    and live :: "'w \<Rightarrow> nat set"
    and queue :: "'w \<Rightarrow> nat \<Rightarrow> msg list"
  assumes read_law: "inv w \<Longrightarrow> p \<in> live w \<Longrightarrow> \<exists>w'. inv w' \<and> live w' = live w \<and>
      (case queue w p of
         [] \<Rightarrow> po_read ops p w = Some (None, w') \<and> queue w' = queue w
       | m # ms \<Rightarrow> po_read ops p w = Some (Some m, w') \<and> queue w' = (queue w)(p := ms))"
    and check_read_law: "inv w \<Longrightarrow> p \<in> live w \<Longrightarrow> \<exists>w'. inv w' \<and> live w' = live w \<and> queue w' = queue w \<and>
      po_check_read ops p w = Some (queue w p \<noteq> [], w')"
    and complete_law: "inv w \<Longrightarrow> p \<in> live w \<Longrightarrow> complete (queue w p)"
    and close_law: "po_close ops msg_init w = Some w"

subsection \<open>The pipe ends of a socket are a message source\<close>

definition readable :: "pipe \<Rightarrow> bool" where
  "readable e \<longleftrightarrow> in_active e \<and> (pstate e = active \<or> pstate e = waiting_for_delimiter)"

definition visible :: "msg pq \<Rightarrow> msg list" where
  "visible q = drop (rd q) (take (wr q) (hist q))"

definition end_queue :: "pipe \<Rightarrow> pipe_world \<Rightarrow> msg list" where
  "end_queue e w =
     (if readable e then
        (case get_up (in_pipe e) w of
           Some (Normal q) \<Rightarrow> takeWhile (\<lambda>m. \<not> is_delimiter m) (visible q)
         | _ \<Rightarrow> [])
      else [])"

definition net_queue :: "net \<Rightarrow> nat \<Rightarrow> msg list" where
  "net_queue n p = (case n_pipes n p of None \<Rightarrow> [] | Some e \<Rightarrow> end_queue e (n_world n))"

definition net_live :: "net \<Rightarrow> nat set" where
  "net_live n = dom (n_pipes n)"

text \<open>Every end reads from an ordinary pipe of its own, there are no credential frames in it, and what is visible of it
  ends with the last part of a message. An end that waits for the delimiter has nothing half-written.\<close>

definition end_ok :: "pipe \<Rightarrow> pipe_world \<Rightarrow> bool" where
  "end_ok e w \<longleftrightarrow> (\<exists>q. get_up (in_pipe e) w = Some (Normal q) \<and> pq_ok q \<and> (\<forall>m \<in> set (hist q). \<not> is_credential m))
     \<and> complete (end_queue e w)
     \<and> (pstate e = waiting_for_delimiter \<longrightarrow>
          out_pipe e = None \<or> (\<exists>q. get_up (out_pipe e) w = Some (Normal q) \<and> fl q = length (hist q)))"

definition net_inv :: "net \<Rightarrow> bool" where
  "net_inv n \<longleftrightarrow> (\<forall>p e. n_pipes n p = Some e \<longrightarrow> end_ok e (n_world n))
     \<and> (\<forall>p p' e e'. n_pipes n p = Some e \<longrightarrow> n_pipes n p' = Some e' \<longrightarrow> p \<noteq> p' \<longrightarrow> in_pipe e \<noteq> in_pipe e')"

lemma visible_Nil: "pq_ok q \<Longrightarrow> visible q = [] \<longleftrightarrow> \<not> rd q < wr q"
  by (auto simp: visible_def pq_ok_def)

lemma visible_Cons: "pq_ok q \<Longrightarrow> rd q < wr q \<Longrightarrow> visible q = hist q ! rd q # visible (q\<lparr>rd := rd q + 1\<rparr>)"
  by (auto simp: visible_def pq_ok_def Cons_nth_drop_Suc [symmetric] nth_take)

text \<open>What reading changes of the world: one shared pipe, and that only in what has been read of it.\<close>

definition read_only :: "nat option \<Rightarrow> pipe_world \<Rightarrow> pipe_world \<Rightarrow> bool" where
  "read_only a w w' \<longleftrightarrow> pw_heap w' = pw_heap w \<and> (\<forall>b. b \<noteq> a \<longrightarrow> get_up b w' = get_up b w)
     \<and> (\<exists>q q'. get_up a w = Some (Normal q) \<and> get_up a w' = Some (Normal q') \<and> hist q' = hist q \<and> fl q' = fl q)"

lemma get_up_put [simp]:
  "a \<noteq> None \<Longrightarrow> get_up a (put_up a u w) = Some u" "a \<noteq> b \<Longrightarrow> get_up b (put_up a u w) = get_up b w"
  by (auto simp: get_up_def put_up_def split: option.splits)

lemma put_up_same [simp]: "(put_up a u w)\<lparr>pw_heap := pw_heap w\<rparr> = put_up a u w"
  by (cases w) (simp add: put_up_def split: option.split)

lemma pw_heap_upd [simp]:
  "pw_heap (put_up a u w) = pw_heap w" "pw_heap (send_cmd c w) = pw_heap w" "pw_heap (acknowledge e w) = pw_heap w"
  by (simp_all add: put_up_def send_cmd_def acknowledge_def split: option.split)

lemma put_up_get: "get_up a w = Some u \<Longrightarrow> put_up a u w = w"
  by (cases w) (auto simp: get_up_def put_up_def fun_upd_idem split: option.splits)

lemma get_up_upd [simp]:
  "get_up a (pw_heap_update f w) = get_up a w" "get_up a (pw_cmds_update g w) = get_up a w"
  "get_up a (pw_events_update k w) = get_up a w" "get_up a (send_cmd c w) = get_up a w" "get_up a (acknowledge e w) = get_up a w"
  by (simp_all add: get_up_def send_cmd_def split: option.split)

lemma read_only_end:
  assumes "read_only a w w'" "in_pipe e \<noteq> a" "end_ok e w"
  shows "end_ok e w' \<and> end_queue e w' = end_queue e w"
proof -
  have same: "get_up (in_pipe e) w' = get_up (in_pipe e) w" using assms(1,2) by (simp add: read_only_def)
  have "\<exists>q'. get_up (out_pipe e) w' = Some (Normal q') \<and> fl q' = length (hist q')"
    if "get_up (out_pipe e) w = Some (Normal q)" "fl q = length (hist q)" for q
    using assms(1) that by (cases "out_pipe e = a") (auto simp: read_only_def)
  with same assms(3) show ?thesis by (auto simp: end_ok_def end_queue_def)
qed

text \<open>So an operation on one end keeps the invariant if it keeps that end in order.\<close>

lemma net_inv_step:
  assumes "net_inv n" "n_pipes n p = Some e" "read_only (in_pipe e) (n_world n) w'"
    and "in_pipe e' = in_pipe e" "end_ok e' w'"
  defines "n' \<equiv> \<lparr>n_pipes = (n_pipes n)(p \<mapsto> e'), n_world = w'\<rparr>"
  shows "net_inv n' \<and> net_live n' = net_live n \<and> net_queue n' = (net_queue n)(p := end_queue e' w')"
proof -
  have other: "end_ok f w' \<and> end_queue f w' = end_queue f (n_world n)" if "n_pipes n r = Some f" "r \<noteq> p" for r f
  proof (rule read_only_end [OF assms(3)])
    show "in_pipe f \<noteq> in_pipe e" using assms(1,2) that by (auto simp: net_inv_def)
    show "end_ok f (n_world n)" using assms(1) that by (auto simp: net_inv_def)
  qed
  have "net_inv n'" unfolding net_inv_def
  proof (intro conjI allI impI)
    fix r f assume "n_pipes n' r = Some f"
    then show "end_ok f (n_world n')" using other assms(5) by (auto simp: n'_def split: if_splits)
  next
    fix r r' f f' assume "n_pipes n' r = Some f" "n_pipes n' r' = Some f'" "r \<noteq> r'"
    moreover have "in_pipe g \<noteq> in_pipe g'" if "n_pipes n s = Some g" "n_pipes n s' = Some g'" "s \<noteq> s'" for s s' g g'
      using assms(1) that unfolding net_inv_def by blast
    ultimately show "in_pipe f \<noteq> in_pipe f'" using assms(2,4) by (auto simp: n'_def split: if_splits)
  qed
  moreover have "net_queue n' r = ((net_queue n)(p := end_queue e' w')) r" for r
    using other by (auto simp: net_queue_def n'_def split: option.splits)
  moreover have "net_live n' = net_live n" using assms(2) by (auto simp: net_live_def n'_def)
  ultimately show ?thesis by blast
qed

lemma rollback_idle:
  assumes "out_pipe e = None \<or> (\<exists>q. get_up (out_pipe e) w = Some (Normal q) \<and> fl q = length (hist q))"
  shows "\<exists>w'. rollback e w = Some w' \<and> (\<forall>b. get_up b w' = get_up b w) \<and> pw_heap w' = pw_heap w"
proof (cases "out_pipe e")
  case (Some a)
  with assms obtain q where q: "pw_upipes w a = Some (Normal q)" "fl q = length (hist q)"
    by (auto simp: get_up_def)
  then have "rollback_up (Normal q) (pw_heap w) = Some (Normal q, pw_heap w)"
    by (subst rollback_up.simps) (simp add: pq_unwrite_def)
  with Some q show ?thesis by (auto simp: rollback_def get_up_def put_up_def split: option.split)
qed (simp add: rollback_def)

lemma read_skip_none: "\<not> rd q < wr q \<Longrightarrow> read_skip (Normal q) h = Some (None, Normal (q\<lparr>asleep := True\<rparr>), h)"
  by (subst read_skip.simps) (simp add: pq_read_def)

lemma end_queue_state:
  "\<not> readable e \<Longrightarrow> end_queue e w = []"
  by (simp add: end_queue_def)

lemma delimiter_end:
  assumes "end_ok e w" "pstate e = active \<or> pstate e = waiting_for_delimiter"
    and "read_only (in_pipe e) w w1" "get_up (in_pipe e) w1 = Some (Normal q)" "pq_ok q"
  shows "\<exists>e' w'. process_delimiter e w1 = Some (e', w') \<and> in_pipe e' = in_pipe e \<and> read_only (in_pipe e) w w'
    \<and> end_ok e' w' \<and> end_queue e' w' = []"
proof -
  obtain q0 where q0: "get_up (in_pipe e) w = Some (Normal q0)" "\<forall>m \<in> set (hist q0). \<not> is_credential m" "hist q = hist q0"
    using assms(1,3,4) by (auto simp: end_ok_def read_only_def)
  show ?thesis
  proof (cases "pstate e = active")
    case True
    let ?e = "e\<lparr>pstate := delimiter_received\<rparr>"
    have "end_queue ?e w1 = []" by (rule end_queue_state) (simp add: readable_def)
    moreover from this have "end_ok ?e w1" using assms(4,5) q0 by (simp add: end_ok_def complete_def)
    ultimately show ?thesis using True assms(3) by (simp add: process_delimiter_def)
  next
    case False
    then have st: "pstate e = waiting_for_delimiter" using assms(2) by simp
    then have "out_pipe e = None \<or> (\<exists>q. get_up (out_pipe e) w = Some (Normal q) \<and> fl q = length (hist q))"
      using assms(1) by (simp add: end_ok_def)
    then have "out_pipe e = None \<or> (\<exists>q. get_up (out_pipe e) w1 = Some (Normal q) \<and> fl q = length (hist q))"
      using assms(3) by (cases "out_pipe e = in_pipe e") (auto simp: read_only_def)
    then obtain w' where w': "rollback e w1 = Some w'" "\<And>b. get_up b w' = get_up b w1" "pw_heap w' = pw_heap w1" using rollback_idle by blast
    let ?e = "e\<lparr>out_pipe := None, pstate := term_ack_sent\<rparr>" and ?w = "send_cmd PipeTermAck w'"
    have "end_queue ?e ?w = []" by (rule end_queue_state) (simp add: readable_def)
    moreover from this have "end_ok ?e ?w" using assms(4,5) q0 w'(2) by (simp add: end_ok_def complete_def)
    ultimately show ?thesis using st w' assms(3) by (simp add: process_delimiter_def read_only_def)
  qed
qed

lemma pipe_read_end:
  assumes "end_ok e w"
  shows "\<exists>v e' w'. pipe_read e w = Some (v, e', w') \<and> in_pipe e' = in_pipe e \<and> read_only (in_pipe e) w w' \<and> end_ok e' w'
    \<and> (case end_queue e w of [] \<Rightarrow> v = None \<and> end_queue e' w' = [] | m # ms \<Rightarrow> v = Some m \<and> end_queue e' w' = ms)"
proof -
  obtain q where q: "get_up (in_pipe e) w = Some (Normal q)" "pq_ok q" "\<forall>m \<in> set (hist q). \<not> is_credential m"
    using assms by (auto simp: end_ok_def)
  have a: "in_pipe e \<noteq> None" using q(1) by (cases "in_pipe e") (simp_all add: get_up_def)
  have ro: "read_only (in_pipe e) w w" using q by (auto simp: read_only_def)
  show ?thesis
  proof (cases "readable e")
    case False
    then have "pipe_read e w = Some (None, e, w)" by (auto simp: readable_def pipe_read_def)
    with False ro assms show ?thesis by (simp add: end_queue_state)
  next
    case True
    have eq: "end_queue e w = takeWhile (\<lambda>m. \<not> is_delimiter m) (visible q)" using True q by (simp add: end_queue_def)
    have run: "pipe_read e w = (case read_skip (Normal q) (pw_heap w) of None \<Rightarrow> None | Some (v, u', h') \<Rightarrow>
        (let w1 = (put_up (in_pipe e) u' w)\<lparr>pw_heap := h'\<rparr> in
        (case v of
           None \<Rightarrow> Some (None, e\<lparr>in_active := False\<rparr>, w1)
         | Some m \<Rightarrow>
             if is_delimiter m then do { (p', w') \<leftarrow> process_delimiter e w1; Some (None, p', w') }
             else
               (let p1 = (if \<not> has_flag f_more m \<and> \<not> is_routing_id m then e\<lparr>msgs_read := msgs_read e + 1\<rparr> else e)
                in Some (Some m, p1, acknowledge p1 w1)))))"
      using True q by (auto simp: pipe_read_def readable_def split: option.split)
    show ?thesis
    proof (cases "rd q < wr q")
      case False
      let ?q = "q\<lparr>asleep := True\<rparr>" let ?w = "put_up (in_pipe e) (Normal ?q) w" and ?e = "e\<lparr>in_active := False\<rparr>"
      have "pipe_read e w = Some (None, ?e, ?w)" unfolding run read_skip_none [OF False] by (simp add: Let_def)
      moreover have "end_queue ?e ?w = []" by (rule end_queue_state) (simp add: readable_def)
      moreover have "visible q = []" using False q(2) visible_Nil by blast
      moreover have "read_only (in_pipe e) w ?w" using q a by (auto simp: read_only_def)
      moreover have "pq_ok ?q" using pq_ok_ops(6) [OF q(2)] False by (simp add: pq_read_def)
      ultimately show ?thesis using eq assms q a unfolding end_ok_def
        by (cases "out_pipe e = in_pipe e") (auto simp: complete_def)
    next
      case more: True
      define m where "m = hist q ! rd q"
      define q' where "q' = q\<lparr>rd := rd q + 1\<rparr>"
      define w1 where "w1 = put_up (in_pipe e) (Normal q') w"
      have nc: "\<not> is_credential (hist q ! rd q)" using more q by (simp add: pq_ok_def)
      have vis: "visible q = m # visible q'" using visible_Cons [OF q(2) more] by (simp add: m_def q'_def)
      have q': "pq_ok q'" "hist q' = hist q" "fl q' = fl q"
        using pq_ok_ops(6) [OF q(2)] more by (simp_all add: pq_read_def q'_def)
      have ro1: "read_only (in_pipe e) w w1" using q q' a by (auto simp: read_only_def w1_def)
      have up1: "get_up (in_pipe e) w1 = Some (Normal q')" using a by (simp add: w1_def)
      note run1 = run [unfolded read_skip_plain [OF more nc], folded m_def q'_def]
      show ?thesis
      proof (cases "is_delimiter m")
        case True
        then have "pipe_read e w = (case process_delimiter e w1 of None \<Rightarrow> None | Some (p', w') \<Rightarrow> Some (None, p', w'))"
          unfolding run1 by (auto simp: Let_def w1_def split: option.split)
        moreover obtain e' w' where "process_delimiter e w1 = Some (e', w')" "in_pipe e' = in_pipe e" "read_only (in_pipe e) w w'"
          "end_ok e' w'" "end_queue e' w' = []"
          using delimiter_end [OF assms _ ro1 up1 q'(1)] \<open>readable e\<close> by (auto simp: readable_def)
        ultimately show ?thesis using eq vis True by simp
      next
        case False
        define e1 where "e1 = (if \<not> has_flag f_more m \<and> \<not> is_routing_id m then e\<lparr>msgs_read := msgs_read e + 1\<rparr> else e)"
        have r: "pipe_read e w = Some (Some m, e1, acknowledge e1 w1)"
          unfolding run1 using False by (simp add: Let_def w1_def e1_def)
        have e1: "in_pipe e1 = in_pipe e" "out_pipe e1 = out_pipe e" "pstate e1 = pstate e" "readable e1"
          using \<open>readable e\<close> by (auto simp: e1_def readable_def)
        have eq1: "end_queue e1 (acknowledge e1 w1) = takeWhile (\<lambda>m. \<not> is_delimiter m) (visible q')"
          using e1 up1 by (simp add: end_queue_def)
        moreover have "end_queue e w = m # takeWhile (\<lambda>m. \<not> is_delimiter m) (visible q')" using eq vis False by simp
        moreover from this have "complete (takeWhile (\<lambda>m. \<not> is_delimiter m) (visible q'))"
          using assms complete_Cons unfolding end_ok_def by metis
        moreover have "pstate e = waiting_for_delimiter \<longrightarrow> out_pipe e = None \<or>
            (\<exists>q. get_up (out_pipe e) (acknowledge e1 w1) = Some (Normal q) \<and> fl q = length (hist q))"
          using assms ro1 by (cases "out_pipe e = in_pipe e") (auto simp: end_ok_def read_only_def)
        ultimately have "end_ok e1 (acknowledge e1 w1)" using e1 up1 q q' unfolding end_ok_def by simp
        moreover have "read_only (in_pipe e) w (acknowledge e1 w1)" using ro1 by (simp add: read_only_def)
        ultimately show ?thesis using r e1 eq1 eq vis False by simp
      qed
    qed
  qed
qed

lemma pipe_check_read_end:
  assumes "end_ok e w"
  shows "\<exists>e' w'. pipe_check_read e w = Some (end_queue e w \<noteq> [], e', w') \<and> in_pipe e' = in_pipe e \<and> read_only (in_pipe e) w w'
    \<and> end_ok e' w' \<and> end_queue e' w' = end_queue e w"
proof -
  obtain q where q: "get_up (in_pipe e) w = Some (Normal q)" "pq_ok q" "\<forall>m \<in> set (hist q). \<not> is_credential m"
    using assms by (auto simp: end_ok_def)
  have a: "in_pipe e \<noteq> None" using q(1) by (cases "in_pipe e") (simp_all add: get_up_def)
  have ro: "read_only (in_pipe e) w w" using q by (auto simp: read_only_def)
  show ?thesis
  proof (cases "readable e")
    case False
    then have "pipe_check_read e w = Some (False, e, w)" by (auto simp: readable_def pipe_check_read_def)
    with False ro assms show ?thesis by (simp add: end_queue_state)
  next
    case True
    have eq: "end_queue e w = takeWhile (\<lambda>m. \<not> is_delimiter m) (visible q)" using True q by (simp add: end_queue_def)
    show ?thesis
    proof (cases "rd q < wr q")
      case False
      let ?q = "q\<lparr>asleep := True\<rparr>" let ?w = "put_up (in_pipe e) (Normal ?q) w" and ?e = "e\<lparr>in_active := False\<rparr>"
      have "pipe_check_read e w = Some (False, ?e, ?w)"
        using True q False by (auto simp: pipe_check_read_def readable_def pq_check_read_def Let_def)
      moreover have "end_queue ?e ?w = []" by (rule end_queue_state) (simp add: readable_def)
      moreover have "visible q = []" using False q(2) visible_Nil by blast
      moreover have "read_only (in_pipe e) w ?w" using q a by (auto simp: read_only_def)
      moreover have "pq_ok ?q" using pq_ok_ops(6) [OF q(2)] False by (simp add: pq_read_def)
      ultimately show ?thesis using eq assms q a unfolding end_ok_def
        by (cases "out_pipe e = in_pipe e") (auto simp: complete_def)
    next
      case more: True
      define m where "m = hist q ! rd q"
      define q' where "q' = q\<lparr>rd := rd q + 1\<rparr>"
      have vis: "visible q = m # visible q'" using visible_Cons [OF q(2) more] by (simp add: m_def q'_def)
      have put: "put_up (in_pipe e) (Normal q) w = w"
        using q(1) by (rule put_up_get)
      have run: "pipe_check_read e w = (if is_delimiter m then
          (case process_delimiter e (put_up (in_pipe e) (Normal q') w) of None \<Rightarrow> None | Some (p', w') \<Rightarrow> Some (False, p', w'))
          else Some (True, e, w))"
        using True q more put
        by (auto simp: pipe_check_read_def readable_def pq_check_read_def pq_read_def Let_def m_def q'_def split: option.split)
      show ?thesis
      proof (cases "is_delimiter m")
        case True
        define w1 where "w1 = put_up (in_pipe e) (Normal q') w"
        have q': "pq_ok q'" "hist q' = hist q" "fl q' = fl q"
          using pq_ok_ops(6) [OF q(2)] more by (simp_all add: pq_read_def q'_def)
        have ro1: "read_only (in_pipe e) w w1" using q q' a by (auto simp: read_only_def w1_def)
        have up1: "get_up (in_pipe e) w1 = Some (Normal q')" using a by (simp add: w1_def)
        obtain e' w' where "process_delimiter e w1 = Some (e', w')" "in_pipe e' = in_pipe e" "read_only (in_pipe e) w w'"
          "end_ok e' w'" "end_queue e' w' = []"
          using delimiter_end [OF assms _ ro1 up1 q'(1)] \<open>readable e\<close> by (auto simp: readable_def)
        with run True eq vis show ?thesis by (simp add: w1_def)
      next
        case False
        with run eq vis ro assms show ?thesis by simp
      qed
    qed
  qed
qed

lemma close_init: "msg_close msg_init h = Some (0, msg_init\<lparr>m_body := Closed\<rparr>, h)"
  by (simp add: msg_close_def msg_init_def fresh_msg_def msg_check_def drop_metadata_def drop_group_def)

interpretation pipe_src: message_source net_ops net_inv net_live net_queue
proof unfold_locales
  show "po_close net_ops msg_init n = Some n" for n by (simp add: net_ops_def net_close_def close_init)
  fix n p assume inv: "net_inv n" and live: "p \<in> net_live n"
  then obtain e where e: "n_pipes n p = Some e" "end_ok e (n_world n)" by (auto simp: net_live_def net_inv_def)
  then have que: "net_queue n p = end_queue e (n_world n)" by (simp add: net_queue_def)
  show "complete (net_queue n p)" using e que by (simp add: end_ok_def)
  obtain v e' w' where r: "pipe_read e (n_world n) = Some (v, e', w')" "in_pipe e' = in_pipe e"
    "read_only (in_pipe e) (n_world n) w'" "end_ok e' w'"
    "case end_queue e (n_world n) of [] \<Rightarrow> v = None \<and> end_queue e' w' = [] | m # ms \<Rightarrow> v = Some m \<and> end_queue e' w' = ms"
    using pipe_read_end [OF e(2)] by blast
  show "\<exists>w'. net_inv w' \<and> net_live w' = net_live n \<and>
      (case net_queue n p of
         [] \<Rightarrow> po_read net_ops p n = Some (None, w') \<and> net_queue w' = net_queue n
       | m # ms \<Rightarrow> po_read net_ops p n = Some (Some m, w') \<and> net_queue w' = (net_queue n)(p := ms))"
    using net_inv_step [OF inv e(1) r(3,2,4)] r(1,5) e(1) unfolding que
    by (intro exI [of _ "\<lparr>n_pipes = (n_pipes n)(p \<mapsto> e'), n_world = w'\<rparr>"])
      (auto simp: net_ops_def on_pipe_def que fun_upd_idem split: list.splits)
  obtain e' w' where c: "pipe_check_read e (n_world n) = Some (end_queue e (n_world n) \<noteq> [], e', w')" "in_pipe e' = in_pipe e"
    "read_only (in_pipe e) (n_world n) w'" "end_ok e' w'" "end_queue e' w' = end_queue e (n_world n)"
    using pipe_check_read_end [OF e(2)] by blast
  show "\<exists>w'. net_inv w' \<and> net_live w' = net_live n \<and> net_queue w' = net_queue n \<and>
      po_check_read net_ops p n = Some (net_queue n p \<noteq> [], w')"
    using net_inv_step [OF inv e(1) c(3,2,4)] c(1,5) e(1) unfolding que
    by (intro exI [of _ "\<lparr>n_pipes = (n_pipes n)(p \<mapsto> e'), n_world = w'\<rparr>"])
      (auto simp: net_ops_def on_pipe_def que fun_upd_idem)
qed

subsection \<open>A net for examples\<close>

text \<open>One pipe end for each list, with its messages ready to be read.\<close>

definition loaded :: "msg list \<Rightarrow> msg pq" where
  "loaded ms = pq_new\<lparr>hist := ms, wr := length ms, fl := length ms\<rparr>"

definition net_of :: "msg list list \<Rightarrow> net" where
  "net_of qs = \<lparr>n_pipes = (\<lambda>p. if p < length qs then Some (new_pipe p (p + length qs) 0 0 False) else None),
     n_world = idle_world\<lparr>pw_upipes := (\<lambda>a. if a < length qs then Some (Normal (loaded (qs ! a))) else None)\<rparr>\<rparr>"

lemma net_of_end:
  assumes "p < length qs" "complete (qs ! p)" "\<forall>m \<in> set (qs ! p). \<not> is_delimiter m \<and> \<not> is_credential m"
  shows "end_ok (new_pipe p a 0 0 False) (n_world (net_of qs)) \<and> end_queue (new_pipe p a 0 0 False) (n_world (net_of qs)) = qs ! p"
proof -
  have up: "get_up (Some p) (n_world (net_of qs)) = Some (Normal (loaded (qs ! p)))"
    using assms(1) by (simp add: get_up_def net_of_def)
  have "visible (loaded (qs ! p)) = qs ! p" by (simp add: visible_def loaded_def pq_new_def)
  moreover have "takeWhile (\<lambda>m. \<not> is_delimiter m) (qs ! p) = qs ! p" using assms(3) by (simp add: takeWhile_eq_all_conv)
  ultimately have eq: "end_queue (new_pipe p a 0 0 False) (n_world (net_of qs)) = qs ! p"
    using up by (simp add: end_queue_def readable_def new_pipe_def)
  have "pq_ok (loaded (qs ! p))" by (simp add: pq_ok_def loaded_def pq_new_def)
  moreover have "hist (loaded (qs ! p)) = qs ! p" by (simp add: loaded_def)
  ultimately show ?thesis using eq up assms(2,3) by (simp add: end_ok_def) (simp add: new_pipe_def)
qed

lemma net_of_inv:
  assumes "\<forall>ms \<in> set qs. complete ms \<and> (\<forall>m \<in> set ms. \<not> is_delimiter m \<and> \<not> is_credential m)"
  shows "net_inv (net_of qs)" "net_queue (net_of qs) p = (if p < length qs then qs ! p else [])" "net_live (net_of qs) = {..<length qs}"
proof -
  have e: "n_pipes (net_of qs) p = (if p < length qs then Some (new_pipe p (p + length qs) 0 0 False) else None)" for p
    by (simp add: net_of_def)
  have ok: "end_ok (new_pipe p a 0 0 False) (n_world (net_of qs)) \<and> end_queue (new_pipe p a 0 0 False) (n_world (net_of qs)) = qs ! p"
    if "p < length qs" for p a by (rule net_of_end) (use that assms in auto)
  then show "net_inv (net_of qs)" unfolding net_inv_def e by (auto simp: new_pipe_def split: if_splits)
  show "net_queue (net_of qs) p = (if p < length qs then qs ! p else [])" using ok unfolding net_queue_def e by simp
  show "net_live (net_of qs) = {..<length qs}" by (auto simp: net_live_def e split: if_splits)
qed

definition part_msg :: msg where
  "part_msg = set_flags f_more msg_init"

lemma part_msg_flags [simp]: "has_more part_msg" "\<not> is_delimiter part_msg" "\<not> is_credential part_msg"
  by (simp_all add: part_msg_def set_flags_def has_flag_def is_delimiter_def is_credential_def msg_init_def fresh_msg_def flag_defs)

end
