(* ===== verification/Fq.thy ===== *)
theory Fq
  imports Pipe_Ends Arr
begin

text \<open>
  The fair queue \<^verbatim>\<open>fq_t\<close> (fq.hpp, fq.cpp) that receiving sockets read their pipes through. The
  array of pipes is a list, which theory \<open>Arr\<close> justifies: the active pipes are its first
  \<open>fq_active\<close> entries.
\<close>

record fq =
  fq_pipes :: "nat list"
  fq_active :: nat
  fq_current :: nat
  fq_more :: bool

definition fq_new :: fq where
  "fq_new = \<lparr>fq_pipes = [], fq_active = 0, fq_current = 0, fq_more = False\<rparr>"

definition fq_attach :: "nat \<Rightarrow> fq \<Rightarrow> fq" where
  "fq_attach p f =
     (let ps = fq_pipes f @ [p] in
      f\<lparr>fq_pipes := list_swap (fq_active f) (length ps - 1) ps, fq_active := fq_active f + 1\<rparr>)"

text \<open>The active pipe at a position becomes inactive: \<^verbatim>\<open>_active--\<close>, the swap and the check of \<^verbatim>\<open>_current\<close>.\<close>

definition fq_deactivate :: "nat \<Rightarrow> fq \<Rightarrow> fq" where
  "fq_deactivate i f =
     (let a = fq_active f - 1 in
      f\<lparr>fq_active := a, fq_pipes := list_swap i a (fq_pipes f), fq_current := (if fq_current f = a then 0 else fq_current f)\<rparr>)"

definition fq_pipe_terminated :: "nat \<Rightarrow> fq \<Rightarrow> fq" where
  "fq_pipe_terminated p f =
     (let i = pos p (fq_pipes f); f1 = (if i < fq_active f then fq_deactivate i f else f)
      in f1\<lparr>fq_pipes := swap_out (pos p (fq_pipes f1)) (fq_pipes f1)\<rparr>)"

definition fq_activated :: "nat \<Rightarrow> fq \<Rightarrow> fq" where
  "fq_activated p f =
     f\<lparr>fq_pipes := list_swap (pos p (fq_pipes f)) (fq_active f) (fq_pipes f), fq_active := fq_active f + 1\<rparr>"

text \<open>The loop of \<^verbatim>\<open>recvpipe\<close>; a message comes with the pipe it was read from.\<close>

function fq_loop :: "'w pipe_ops \<Rightarrow> fq \<Rightarrow> 'w \<Rightarrow> ((errno + nat \<times> msg) \<times> fq \<times> 'w) option" where
  "fq_loop ops f w =
     (if fq_active f = 0 then Some (Inl EAGAIN, f, w)
      else do {
        p \<leftarrow> tab_get (fq_pipes f) (fq_current f);
        (v, w1) \<leftarrow> po_read ops p w;
        (case v of
           Some m \<Rightarrow>
             (let f1 = f\<lparr>fq_more := has_more m\<rparr>
              in Some (Inr (p, m),
                   if fq_more f1 then f1 else f1\<lparr>fq_current := (fq_current f1 + 1) mod fq_active f1\<rparr>, w1))
         | None \<Rightarrow> do {
             zmq_assert (\<not> fq_more f);
             fq_loop ops (fq_deactivate (fq_current f) f) w1
           })
      })"
  by pat_completeness auto

termination
  by (relation "measure (\<lambda>(ops, f, w). fq_active f)") (auto simp: fq_deactivate_def Let_def)

declare fq_loop.simps [simp del]

definition fq_recvpipe :: "'w pipe_ops \<Rightarrow> msg \<Rightarrow> fq \<Rightarrow> 'w \<Rightarrow> ((errno + nat \<times> msg) \<times> fq \<times> 'w) option" where
  "fq_recvpipe ops old f w = do { w1 \<leftarrow> po_close ops old w; fq_loop ops f w1 }"

function fq_has_in_loop :: "'w pipe_ops \<Rightarrow> fq \<Rightarrow> 'w \<Rightarrow> (bool \<times> fq \<times> 'w) option" where
  "fq_has_in_loop ops f w =
     (if fq_active f = 0 then Some (False, f, w)
      else do {
        p \<leftarrow> tab_get (fq_pipes f) (fq_current f);
        (ok, w1) \<leftarrow> po_check_read ops p w;
        if ok then Some (True, f, w1) else fq_has_in_loop ops (fq_deactivate (fq_current f) f) w1
      })"
  by pat_completeness auto

termination
  by (relation "measure (\<lambda>(ops, f, w). fq_active f)") (auto simp: fq_deactivate_def Let_def)

declare fq_has_in_loop.simps [simp del]

definition fq_has_in :: "'w pipe_ops \<Rightarrow> fq \<Rightarrow> 'w \<Rightarrow> (bool \<times> fq \<times> 'w) option" where
  "fq_has_in ops f w = (if fq_more f then Some (True, f, w) else fq_has_in_loop ops f w)"

subsection \<open>The order of service\<close>

definition fq_shape :: "fq \<Rightarrow> bool" where
  "fq_shape f \<longleftrightarrow> distinct (fq_pipes f) \<and> fq_active f \<le> length (fq_pipes f)
     \<and> (if fq_active f = 0 then fq_current f = 0 \<and> \<not> fq_more f else fq_current f < fq_active f)"

definition active_pipes :: "fq \<Rightarrow> nat set" where
  "active_pipes f = set (take (fq_active f) (fq_pipes f))"

text \<open>How many active pipes are served before the one at position \<open>i\<close>.\<close>

definition turns :: "nat \<Rightarrow> fq \<Rightarrow> nat" where
  "turns i f = (if fq_current f \<le> i then i - fq_current f else i + fq_active f - fq_current f)"

definition fdist :: "nat \<Rightarrow> fq \<Rightarrow> nat" where
  "fdist x f = turns (pos x (fq_pipes f)) f"

lemma active_pos: "fq_shape f \<Longrightarrow> x \<in> active_pipes f \<longleftrightarrow> pos x (fq_pipes f) < fq_active f"
proof -
  assume f: "fq_shape f"
  show ?thesis
  proof
    assume "x \<in> active_pipes f"
    then obtain i where "i < fq_active f" "i < length (fq_pipes f)" "fq_pipes f ! i = x"
      by (auto simp: active_pipes_def in_set_conv_nth)
    with f show "pos x (fq_pipes f) < fq_active f" by (auto simp: fq_shape_def pos_nth)
  next
    assume a: "pos x (fq_pipes f) < fq_active f"
    with f have "pos x (fq_pipes f) < length (fq_pipes f)" by (simp add: fq_shape_def)
    then have "x \<in> set (fq_pipes f)" by (rule pos_less)
    with a f show "x \<in> active_pipes f" using nth_pos [of x "fq_pipes f"]
      by (auto simp: active_pipes_def in_set_conv_nth fq_shape_def intro!: exI [of _ "pos x (fq_pipes f)"])
  qed
qed

lemma fdist_bound: "fq_shape f \<Longrightarrow> x \<in> active_pipes f \<Longrightarrow> fdist x f < fq_active f"
  using active_pos [of f x] by (auto simp: fdist_def turns_def fq_shape_def split: if_splits)

text \<open>Taking the current pipe out of turn brings every other active pipe no further from its own.\<close>

lemma deactivate_shape:
  assumes "fq_shape f" "0 < fq_active f" "\<not> fq_more f"
  defines "f' \<equiv> fq_deactivate (fq_current f) f"
  shows "fq_shape f'" and "set (fq_pipes f') = set (fq_pipes f)" and "fq_active f' = fq_active f - 1"
    and "active_pipes f' = active_pipes f - {fq_pipes f ! fq_current f}"
    and "x \<in> active_pipes f' \<Longrightarrow> fdist x f' \<le> fdist x f"
proof -
  let ?c = "fq_current f" and ?a = "fq_active f - 1" and ?ps = "fq_pipes f"
  have c: "?c < fq_active f" "?c < length ?ps" "?a < length ?ps" "distinct ?ps"
    using assms(1,2) by (auto simp: fq_shape_def)
  have ps': "fq_pipes f' = list_swap ?c ?a ?ps" by (simp add: f'_def fq_deactivate_def Let_def)
  show sh: "fq_shape f'" using assms(1-3) c by (auto simp: fq_shape_def f'_def fq_deactivate_def Let_def)
  show "set (fq_pipes f') = set (fq_pipes f)" "fq_active f' = fq_active f - 1"
    using c by (simp_all add: f'_def fq_deactivate_def Let_def)
  have new: "fq_pipes f' ! k = (if k = ?c then ?ps ! ?a else ?ps ! k)" if "k < ?a" for k
    using that c by (simp add: ps' nth_list_swap)
  have ap: "y \<in> active_pipes f' \<longleftrightarrow> (\<exists>k < ?a. fq_pipes f' ! k = y)" for y
    using c by (auto simp: active_pipes_def in_set_conv_nth ps' f'_def fq_deactivate_def Let_def)
  have ap0: "y \<in> active_pipes f \<longleftrightarrow> (\<exists>k < fq_active f. ?ps ! k = y)" for y
    using assms(1) by (auto simp: active_pipes_def in_set_conv_nth fq_shape_def)
  show "active_pipes f' = active_pipes f - {?ps ! ?c}"
  proof (rule set_eqI)
    fix y
    show "y \<in> active_pipes f' \<longleftrightarrow> y \<in> active_pipes f - {?ps ! ?c}"
    proof
      assume "y \<in> active_pipes f'"
      then obtain k where k: "k < ?a" "(if k = ?c then ?ps ! ?a else ?ps ! k) = y" using ap new by auto
      define j where "j = (if k = ?c then ?a else k)"
      have "j < fq_active f" "j \<noteq> ?c" "j < length ?ps" "?ps ! j = y" using k c by (auto simp: j_def split: if_splits)
      then show "y \<in> active_pipes f - {?ps ! ?c}" using c ap0 by (auto simp: nth_eq_iff_index_eq)
    next
      assume "y \<in> active_pipes f - {?ps ! ?c}"
      then obtain k where k: "k < fq_active f" "?ps ! k = y" "k \<noteq> ?c" using ap0 by auto
      show "y \<in> active_pipes f'"
      proof (cases "k = ?a")
        case True
        then have "?c < ?a" using c k by simp
        then show ?thesis using ap new [of ?c] k True by auto
      next
        case False
        then have "k < ?a" using k by simp
        then show ?thesis using ap new [of k] k by auto
      qed
    qed
  qed
  assume "x \<in> active_pipes f'"
  then obtain k where k: "k < ?a" "fq_pipes f' ! k = x" using ap by auto
  then have pk: "pos x (fq_pipes f') = k" using sh by (auto simp: fq_shape_def pos_nth f'_def fq_deactivate_def Let_def)
  have pk0: "pos x ?ps = (if k = ?c then ?a else k)"
    using new [OF k(1)] k(2) c pos_nth [of ?ps ?a] pos_nth [of ?ps k] k(1) by (auto split: if_splits)
  show "fdist x f' \<le> fdist x f"
    using k(1) c unfolding fdist_def pk pk0 turns_def by (auto simp: f'_def fq_deactivate_def Let_def)
qed

subsection \<open>What a receive does, over any message source\<close>

definition fq_ok :: "('w \<Rightarrow> nat set) \<Rightarrow> ('w \<Rightarrow> nat \<Rightarrow> msg list) \<Rightarrow> fq \<Rightarrow> 'w \<Rightarrow> bool" where
  "fq_ok live queue f w \<longleftrightarrow>
     fq_shape f \<and> set (fq_pipes f) \<subseteq> live w \<and> (fq_more f \<longrightarrow> queue w (fq_pipes f ! fq_current f) \<noteq> [])"

text \<open>Receiving up to \<open>n\<close> times, into an empty message each time, until nothing is there.\<close>

fun fq_recvs :: "'w pipe_ops \<Rightarrow> nat \<Rightarrow> fq \<Rightarrow> 'w \<Rightarrow> ((nat \<times> msg) list \<times> fq \<times> 'w) option" where
  "fq_recvs ops 0 f w = Some ([], f, w)"
| "fq_recvs ops (Suc n) f w = do {
     (r, f1, w1) \<leftarrow> fq_recvpipe ops msg_init f w;
     (case r of
        Inl e \<Rightarrow> Some ([], f1, w1)
      | Inr x \<Rightarrow> do { (tr, f2, w2) \<leftarrow> fq_recvs ops n f1 w1; Some (x # tr, f2, w2) })
   }"

text \<open>The parts of a message come from one pipe, without parts of another between them.\<close>

fun atomic :: "nat option \<Rightarrow> (nat \<times> msg) list \<Rightarrow> bool" where
  "atomic c [] \<longleftrightarrow> True"
| "atomic c ((p, m) # tr) \<longleftrightarrow> (c = None \<or> c = Some p) \<and> atomic (if has_more m then Some p else None) tr"

definition whole_messages :: "(nat \<times> msg) list \<Rightarrow> nat" where
  "whole_messages tr = length (filter (\<lambda>(p, m). \<not> has_more m) tr)"

definition taken :: "nat \<Rightarrow> (nat \<times> msg) list \<Rightarrow> msg list" where
  "taken x tr = map snd (filter (\<lambda>(p, m). p = x) tr)"

definition fq_reading :: "fq \<Rightarrow> nat option" where
  "fq_reading f = (if fq_more f then Some (fq_pipes f ! fq_current f) else None)"

context message_source
begin

lemma fq_loop_spec:
  assumes "inv w" "fq_ok live queue f w"
  shows "\<exists>r f' w'. fq_loop ops f w = Some (r, f', w') \<and> inv w' \<and> fq_ok live queue f' w' \<and> active_pipes f' \<subseteq> active_pipes f \<and>
    (case r of
       Inl e \<Rightarrow> e = EAGAIN \<and> queue w' = queue w \<and> (\<forall>x \<in> active_pipes f. queue w x = [])
     | Inr (p, m) \<Rightarrow> p \<in> active_pipes f \<and> (fq_more f \<longrightarrow> p = fq_pipes f ! fq_current f)
         \<and> queue w p = m # queue w' p \<and> (\<forall>x. x \<noteq> p \<longrightarrow> queue w' x = queue w x)
         \<and> fq_more f' = has_more m \<and> (has_more m \<longrightarrow> p = fq_pipes f' ! fq_current f')
         \<and> (\<forall>x \<in> active_pipes f. x \<noteq> p \<longrightarrow> queue w x \<noteq> [] \<longrightarrow>
              x \<in> active_pipes f' \<and> fdist x f' + (if has_more m then 0 else 1) \<le> fdist x f))"
  using assms
proof (induction "fq_active f" arbitrary: f w)
  case 0
  then have "active_pipes f = {}" by (simp add: active_pipes_def)
  with 0 show ?case by (subst fq_loop.simps) auto
next
  case (Suc a)
  define p where "p = fq_pipes f ! fq_current f"
  have sh: "fq_shape f" and pos: "0 < fq_active f" and cur: "fq_current f < fq_active f" "fq_current f < length (fq_pipes f)"
    using Suc.prems(2) Suc.hyps(2) by (auto simp: fq_ok_def fq_shape_def)
  have p: "p \<in> live w" "p \<in> active_pipes f"
    using Suc.prems(2) nth_mem [OF cur(2)] cur
    by (auto simp: p_def fq_ok_def active_pipes_def in_set_conv_nth intro!: exI [of _ "fq_current f"])
  have run: "fq_loop ops f w = (case po_read ops p w of None \<Rightarrow> None | Some (v, w1) \<Rightarrow>
        (case v of
           Some m \<Rightarrow>
             (let f1 = f\<lparr>fq_more := has_more m\<rparr>
              in Some (Inr (p, m),
                   if fq_more f1 then f1 else f1\<lparr>fq_current := (fq_current f1 + 1) mod fq_active f1\<rparr>, w1))
         | None \<Rightarrow> if fq_more f then None else fq_loop ops (fq_deactivate (fq_current f) f) w1))"
    using pos cur by (subst fq_loop.simps) (auto simp: p_def zmq_assert_def split: option.split)
  obtain w1 where w1: "inv w1" "live w1 = live w" "case queue w p of [] \<Rightarrow> po_read ops p w = Some (None, w1) \<and> queue w1 = queue w
       | m # ms \<Rightarrow> po_read ops p w = Some (Some m, w1) \<and> queue w1 = (queue w)(p := ms)"
    using read_law [OF Suc.prems(1) p(1)] by blast
  show ?case
  proof (cases "queue w p")
    case Nil
    with Suc.prems(2) have nm: "\<not> fq_more f" by (auto simp: fq_ok_def p_def)
    let ?f = "fq_deactivate (fq_current f) f"
    note d = deactivate_shape [OF sh pos nm, folded p_def]
    have "fq_more ?f = False" using nm by (simp add: fq_deactivate_def Let_def)
    with d(1,2) Suc.prems(2) w1 have ok: "fq_ok live queue ?f w1" by (simp add: fq_ok_def)
    have "a = fq_active ?f" using d(3) Suc.hyps(2) by simp
    from Suc.hyps(1) [OF this w1(1) ok]
    obtain r f' w' where IH: "fq_loop ops ?f w1 = Some (r, f', w')" "inv w'" "fq_ok live queue f' w'" "active_pipes f' \<subseteq> active_pipes ?f"
      "case r of Inl e \<Rightarrow> e = EAGAIN \<and> queue w' = queue w1 \<and> (\<forall>x \<in> active_pipes ?f. queue w1 x = [])
       | Inr (p, m) \<Rightarrow> p \<in> active_pipes ?f \<and> (fq_more ?f \<longrightarrow> p = fq_pipes ?f ! fq_current ?f)
         \<and> queue w1 p = m # queue w' p \<and> (\<forall>x. x \<noteq> p \<longrightarrow> queue w' x = queue w1 x)
         \<and> fq_more f' = has_more m \<and> (has_more m \<longrightarrow> p = fq_pipes f' ! fq_current f')
         \<and> (\<forall>x \<in> active_pipes ?f. x \<noteq> p \<longrightarrow> queue w1 x \<noteq> [] \<longrightarrow>
              x \<in> active_pipes f' \<and> fdist x f' + (if has_more m then 0 else 1) \<le> fdist x ?f)" by blast
    have q1: "queue w1 = queue w" "po_read ops p w = Some (None, w1)" using w1(3) Nil by simp_all
    then have "fq_loop ops f w = Some (r, f', w')" unfolding run using IH(1) nm by simp
    moreover have "case r of Inl e \<Rightarrow> e = EAGAIN \<and> queue w' = queue w \<and> (\<forall>x \<in> active_pipes f. queue w x = [])
     | Inr (p, m) \<Rightarrow> p \<in> active_pipes f \<and> (fq_more f \<longrightarrow> p = fq_pipes f ! fq_current f)
         \<and> queue w p = m # queue w' p \<and> (\<forall>x. x \<noteq> p \<longrightarrow> queue w' x = queue w x)
         \<and> fq_more f' = has_more m \<and> (has_more m \<longrightarrow> p = fq_pipes f' ! fq_current f')
         \<and> (\<forall>x \<in> active_pipes f. x \<noteq> p \<longrightarrow> queue w x \<noteq> [] \<longrightarrow>
              x \<in> active_pipes f' \<and> fdist x f' + (if has_more m then 0 else 1) \<le> fdist x f)"
    proof (cases r)
      case (Inl e)
      with IH(5) q1 Nil d(4) show ?thesis by auto
    next
      case (Inr y)
      obtain r m where y: "y = (r, m)" by (cases y)
      have "x \<in> active_pipes f' \<and> fdist x f' + (if has_more m then 0 else 1) \<le> fdist x f"
        if "x \<in> active_pipes f" "x \<noteq> r" "queue w x \<noteq> []" for x
      proof -
        have x: "x \<in> active_pipes ?f" using that Nil d(4) by auto
        then have "x \<in> active_pipes f' \<and> fdist x f' + (if has_more m then 0 else 1) \<le> fdist x ?f"
          using IH(5) that Inr y q1 by simp
        with d(5) [OF x] show ?thesis by linarith
      qed
      with IH(5) Inr y q1 nm d(4) show ?thesis by auto
    qed
    ultimately show ?thesis using IH(2,3,4) d(4) by blast
  next
    case (Cons m ms)
    then have q1: "queue w1 = (queue w)(p := ms)" "po_read ops p w = Some (Some m, w1)" using w1(3) by simp_all
    define f' where "f' = (if has_more m then f\<lparr>fq_more := has_more m\<rparr>
       else f\<lparr>fq_more := has_more m, fq_current := (fq_current f + 1) mod fq_active f\<rparr>)"
    have r: "fq_loop ops f w = Some (Inr (p, m), f', w1)" unfolding run using q1 by (simp add: f'_def Let_def)
    have f': "fq_pipes f' = fq_pipes f" "fq_active f' = fq_active f" "fq_more f' = has_more m"
      "has_more m \<Longrightarrow> fq_current f' = fq_current f" "\<not> has_more m \<Longrightarrow> fq_current f' = (fq_current f + 1) mod fq_active f"
      by (simp_all add: f'_def)
    have ap: "active_pipes f' = active_pipes f" by (simp add: active_pipes_def f')
    have sh': "fq_shape f'" using sh pos f' by (cases "has_more m") (auto simp: fq_shape_def)
    have "ms \<noteq> []" if "has_more m" using complete_more [of m ms] complete_law [OF Suc.prems(1) p(1)] Cons that by simp
    then have "fq_ok live queue f' w1" using sh' f' Suc.prems(2) w1(2) q1(1) by (auto simp: fq_ok_def p_def [symmetric])
    moreover have "fdist x f' + (if has_more m then 0 else 1) \<le> fdist x f" if "x \<in> active_pipes f" "x \<noteq> p" for x
    proof (cases "has_more m")
      case False
      have i: "pos x (fq_pipes f) < fq_active f" using that(1) active_pos [OF sh] by simp
      have "pos x (fq_pipes f) \<noteq> fq_current f"
        using that nth_pos [of x "fq_pipes f"] by (auto simp: p_def active_pipes_def dest: in_set_takeD)
      with i cur(1) False f' show ?thesis by (cases "fq_current f + 1 = fq_active f") (auto simp: fdist_def turns_def)
    qed (simp add: fdist_def turns_def f')
    ultimately show ?thesis using r w1(1) p(2) q1(1) Cons f' ap by (auto simp: p_def [symmetric])
  qed
qed

lemma fq_recvs_spec:
  assumes "inv w" "fq_ok live queue f w"
  shows "\<exists>tr f' w'. fq_recvs ops n f w = Some (tr, f', w') \<and> inv w' \<and> fq_ok live queue f' w'
    \<and> atomic (fq_reading f) tr \<and> (\<forall>x. taken x tr @ queue w' x = queue w x)
    \<and> (\<forall>x \<in> active_pipes f. queue w x \<noteq> [] \<longrightarrow> x \<in> fst ` set tr \<or>
         length tr = n \<and> x \<in> active_pipes f' \<and> fdist x f' + whole_messages tr \<le> fdist x f)"
  using assms
proof (induction n arbitrary: f w)
  case 0
  then show ?case by (simp add: taken_def whole_messages_def)
next
  case (Suc n)
  obtain r f1 w1 where s: "fq_loop ops f w = Some (r, f1, w1)" "inv w1" "fq_ok live queue f1 w1"
    "case r of
       Inl e \<Rightarrow> e = EAGAIN \<and> queue w1 = queue w \<and> (\<forall>x \<in> active_pipes f. queue w x = [])
     | Inr (p, m) \<Rightarrow> p \<in> active_pipes f \<and> (fq_more f \<longrightarrow> p = fq_pipes f ! fq_current f)
         \<and> queue w p = m # queue w1 p \<and> (\<forall>x. x \<noteq> p \<longrightarrow> queue w1 x = queue w x)
         \<and> fq_more f1 = has_more m \<and> (has_more m \<longrightarrow> p = fq_pipes f1 ! fq_current f1)
         \<and> (\<forall>x \<in> active_pipes f. x \<noteq> p \<longrightarrow> queue w x \<noteq> [] \<longrightarrow>
              x \<in> active_pipes f1 \<and> fdist x f1 + (if has_more m then 0 else 1) \<le> fdist x f)"
    using fq_loop_spec [OF Suc.prems] by blast
  have recv: "fq_recvpipe ops msg_init f w = Some (r, f1, w1)" using s(1) by (simp add: fq_recvpipe_def close_law)
  show ?case
  proof (cases r)
    case (Inl e)
    with recv s show ?thesis by (simp add: taken_def)
  next
    case (Inr y)
    obtain p m where y: "y = (p, m)" by (cases y)
    note s4 = s(4) [unfolded Inr y sum.case prod.case]
    obtain tr f' w' where IH: "fq_recvs ops n f1 w1 = Some (tr, f', w')" "inv w'" "fq_ok live queue f' w'"
      "atomic (fq_reading f1) tr" "\<And>x. taken x tr @ queue w' x = queue w1 x"
      "\<And>x. x \<in> active_pipes f1 \<Longrightarrow> queue w1 x \<noteq> [] \<Longrightarrow> x \<in> fst ` set tr \<or>
         length tr = n \<and> x \<in> active_pipes f' \<and> fdist x f' + whole_messages tr \<le> fdist x f1"
      using Suc.IH [OF s(2,3)] by blast
    have "fq_recvs ops (Suc n) f w = Some ((p, m) # tr, f', w')" using recv IH(1) Inr y by simp
    moreover have "fq_reading f1 = (if has_more m then Some p else None)" using s4 by (simp add: fq_reading_def)
    then have "atomic (fq_reading f) ((p, m) # tr)" using IH(4) s4 by (simp add: fq_reading_def)
    moreover have "taken x ((p, m) # tr) @ queue w' x = queue w x" for x
      using IH(5) [of x] s4 by (cases "x = p") (auto simp: taken_def)
    moreover have "x \<in> fst ` set ((p, m) # tr) \<or>
         length ((p, m) # tr) = Suc n \<and> x \<in> active_pipes f' \<and> fdist x f' + whole_messages ((p, m) # tr) \<le> fdist x f"
      if "x \<in> active_pipes f" "queue w x \<noteq> []" for x
    proof (cases "x = p")
      case False
      then have "x \<in> active_pipes f1" "fdist x f1 + (if has_more m then 0 else 1) \<le> fdist x f" "queue w1 x \<noteq> []"
        using s4 that by auto
      with IH(6) [of x] show ?thesis by (auto simp: whole_messages_def)
    qed simp
    ultimately show ?thesis using IH(2,3) by blast
  qed
qed

end


definition busy_fq :: fq where
  "busy_fq = \<lparr>fq_pipes = [0, 1, 2], fq_active = 3, fq_current = 2, fq_more = True\<rparr>"

lemma busy_fq_ok: "qs = [[msg_init], [], [part_msg, msg_init]] \<Longrightarrow> net_inv (net_of qs) \<and> fq_ok net_live net_queue busy_fq (net_of qs)"
proof -
  assume qs: "qs = [[msg_init], [], [part_msg, msg_init]]"
  have ok: "\<forall>ms \<in> set qs. complete ms \<and> (\<forall>m \<in> set ms. \<not> is_delimiter m \<and> \<not> is_credential m)"
    by (simp add: qs complete_def)
  show ?thesis using net_of_inv [OF ok] by (auto simp: qs fq_ok_def fq_shape_def busy_fq_def numeral_3_eq_3)
qed


text \<open>C39: a terminated pipe can make the queue mix messages. If the queue is inside a message of the last active pipe and another
  pipe, not the first, is terminated, the swap moves the pipe being read while \<^verbatim>\<open>_current\<close> is set to zero: the
  next part is read from the first pipe, as if it continued the message.\<close>

theorem fq_termination_mixes:
  assumes "net_inv w" "fq_ok net_live net_queue f w" "fq_more f" "fq_current f = fq_active f - 1"
    and "0 < pos p (fq_pipes f)" "pos p (fq_pipes f) < fq_current f" "net_queue w (hd (fq_pipes f)) = m # ms"
  shows "hd (fq_pipes f) \<noteq> fq_pipes f ! fq_current f
    \<and> (\<exists>f' w'. fq_recvpipe net_ops msg_init (fq_pipe_terminated p f) w = Some (Inr (hd (fq_pipes f), m), f', w'))"
proof -
  let ?ps = "fq_pipes f" and ?a = "fq_active f - 1" and ?i = "pos p (fq_pipes f)"
  have sh: "distinct ?ps" "fq_active f \<le> length ?ps" "set ?ps \<subseteq> net_live w" using assms(2) by (auto simp: fq_ok_def fq_shape_def)
  have lt: "?a < length ?ps" "?i < ?a" "1 < ?a" "?ps \<noteq> []" "\<not> fq_active f \<le> Suc 0" using assms(4,5,6) sh(2) by auto
  have hd: "hd ?ps = ?ps ! 0" using lt(4) by (simp add: hd_conv_nth)
  have "hd ?ps \<noteq> ?ps ! fq_current f" using sh(1) lt assms(4) unfolding hd by (subst nth_eq_iff_index_eq) auto
  define qs where "qs = list_swap ?i ?a ?ps"
  have p: "p = ?ps ! ?i" using nth_pos [OF pos_less, of p ?ps] lt by simp
  have qs: "length qs = length ?ps" "distinct qs" "qs ! 0 = ?ps ! 0" "qs ! ?a = p"
    using lt sh(1) assms(5) p by (simp_all add: qs_def nth_list_swap not_le)
  have "pos p qs = ?a" using pos_nth [OF qs(2), of ?a] qs(1,4) lt(1) by simp
  then have f': "fq_pipe_terminated p f = f\<lparr>fq_active := ?a, fq_current := 0, fq_pipes := swap_out ?a qs\<rparr>"
    using lt assms(4) by (simp add: fq_pipe_terminated_def fq_deactivate_def Let_def qs_def)
  have "swap_out ?a qs ! 0 = ?ps ! 0" using nth_swap_out [of 0 qs ?a] qs lt by simp
  then have get: "tab_get (swap_out ?a qs) 0 = Some (hd ?ps)" using lt qs(1) hd by simp
  have "hd ?ps \<in> net_live w" using sh(3) lt(4) by auto
  then obtain w' where "po_read net_ops (hd ?ps) w = Some (Some m, w')"
    using pipe_src.read_law [OF assms(1), of "hd ?ps"] assms(7) by auto
  then have "\<exists>f' w'. fq_loop net_ops (fq_pipe_terminated p f) w = Some (Inr (hd ?ps, m), f', w')"
    unfolding f' using get lt by (subst fq_loop.simps) (simp add: Let_def)
  with \<open>hd ?ps \<noteq> _\<close> show ?thesis by (simp add: fq_recvpipe_def pipe_src.close_law)
qed

theorem fq_termination_mixes_witness:
  "\<exists>f' w'. fq_recvpipe net_ops msg_init (fq_pipe_terminated 1 busy_fq) (net_of [[msg_init], [], [part_msg, msg_init]])
     = Some (Inr (0, msg_init), f', w')"
proof -
  let ?w = "net_of [[msg_init], [], [part_msg, msg_init]]"
  have q: "net_queue ?w (hd (fq_pipes busy_fq)) = msg_init # []"
    using net_of_inv(2) [of "[[msg_init], [], [part_msg, msg_init]]" 0] by (simp add: complete_def busy_fq_def)
  have ok: "net_inv ?w" "fq_ok net_live net_queue busy_fq ?w" using busy_fq_ok [OF refl] by blast+
  have "fq_more busy_fq" "fq_current busy_fq = fq_active busy_fq - 1" "0 < pos 1 (fq_pipes busy_fq)"
    "pos 1 (fq_pipes busy_fq) < fq_current busy_fq" by (simp_all add: busy_fq_def pos_def)
  from fq_termination_mixes [OF ok this q] show ?thesis by (simp add: busy_fq_def)
qed

end
