(* ===== verification/Lb.thy ===== *)
theory Lb
  imports Pipe_Ends Arr
begin

text \<open>
  The load balancer \<^verbatim>\<open>lb_t\<close> (lb.hpp, lb.cpp) that sending sockets write their pipes through, with the contract it
  relies on: what a pipe has passed on to its reader, and what was written of a message
  that is not flushed yet.
\<close>

record lb =
  lb_pipes :: "nat list"
  lb_active :: nat
  lb_current :: nat
  lb_more :: bool
  lb_dropping :: bool

definition lb_new :: lb where
  "lb_new = \<lparr>lb_pipes = [], lb_active = 0, lb_current = 0, lb_more = False, lb_dropping = False\<rparr>"

definition lb_activated :: "nat \<Rightarrow> lb \<Rightarrow> lb" where
  "lb_activated p l =
     l\<lparr>lb_pipes := list_swap (pos p (lb_pipes l)) (lb_active l) (lb_pipes l), lb_active := lb_active l + 1\<rparr>"

definition lb_attach :: "nat \<Rightarrow> lb \<Rightarrow> lb" where
  "lb_attach p l = lb_activated p (l\<lparr>lb_pipes := lb_pipes l @ [p]\<rparr>)"

definition lb_pipe_terminated :: "nat \<Rightarrow> lb \<Rightarrow> lb" where
  "lb_pipe_terminated p l =
     (let i = pos p (lb_pipes l);
          l1 = (if i = lb_current l \<and> lb_more l then l\<lparr>lb_dropping := True\<rparr> else l);
          l2 = (if i < lb_active l1
                then (let a = lb_active l1 - 1 in
                      l1\<lparr>lb_active := a, lb_pipes := list_swap i a (lb_pipes l1),
                         lb_current := (if lb_current l1 = a then 0 else lb_current l1)\<rparr>)
                else l1)
      in l2\<lparr>lb_pipes := swap_out (pos p (lb_pipes l2)) (lb_pipes l2)\<rparr>)"

text \<open>The result of \<^verbatim>\<open>sendpipe\<close>: sent to a pipe, dropped, or refused with the return code.\<close>

datatype lb_result = SentTo nat | Dropped | Refused int errno

text \<open>The loop that looks for a pipe to write to; \<open>Inl\<close> is the early return.\<close>

function lb_loop :: "'w pipe_ops \<Rightarrow> msg \<Rightarrow> lb \<Rightarrow> 'w \<Rightarrow> ((lb_result + nat option) \<times> lb \<times> 'w) option" where
  "lb_loop ops m l w =
     (if lb_active l = 0 then Some (Inr None, l, w)
      else do {
        p \<leftarrow> tab_get (lb_pipes l) (lb_current l);
        (ok, w1) \<leftarrow> po_write ops p m w;
        if ok then Some (Inr (Some p), l, w1)
        else if lb_more l then do {
          w2 \<leftarrow> po_rollback ops p w1;
          Some (Inl (Refused (-2) EAGAIN), l\<lparr>lb_dropping := has_more m, lb_more := False\<rparr>, w2)
        } else
          (let a = lb_active l - 1; l1 = l\<lparr>lb_active := a\<rparr> in
           lb_loop ops m
             (if lb_current l < a then l1\<lparr>lb_pipes := list_swap (lb_current l) a (lb_pipes l)\<rparr>
              else l1\<lparr>lb_current := 0\<rparr>) w1)
      })"
  by pat_completeness auto

termination
  by (relation "measure (\<lambda>(ops, m, l, w). lb_active l)") auto

declare lb_loop.simps [simp del]

definition lb_sendpipe :: "'w pipe_ops \<Rightarrow> msg \<Rightarrow> lb \<Rightarrow> 'w \<Rightarrow> (lb_result \<times> lb \<times> 'w) option" where
  "lb_sendpipe ops m l w =
     (if lb_dropping l then do {
        w1 \<leftarrow> po_close ops m w;
        Some (Dropped, l\<lparr>lb_more := has_more m, lb_dropping := has_more m\<rparr>, w1)
      } else do {
        (r, l1, w1) \<leftarrow> lb_loop ops m l w;
        (case r of
           Inl e \<Rightarrow> Some (e, l1, w1)
         | Inr None \<Rightarrow> Some (Refused (-1) EAGAIN, l1, w1)
         | Inr (Some p) \<Rightarrow>
             (let l2 = l1\<lparr>lb_more := has_more m\<rparr> in
              if \<not> lb_more l2 then do {
                w2 \<leftarrow> po_flush ops p w1;
                Some (SentTo p, l2\<lparr>lb_current := (if lb_current l2 + 1 \<ge> lb_active l2 then 0 else lb_current l2 + 1)\<rparr>, w2)
              } else Some (SentTo p, l2, w1)))
      })"

function lb_has_out_loop :: "'w pipe_ops \<Rightarrow> lb \<Rightarrow> 'w \<Rightarrow> (bool \<times> lb \<times> 'w) option" where
  "lb_has_out_loop ops l w =
     (if lb_active l = 0 then Some (False, l, w)
      else do {
        p \<leftarrow> tab_get (lb_pipes l) (lb_current l);
        (ok, w1) \<leftarrow> po_check_write ops p w;
        if ok then Some (True, l, w1)
        else
          (let a = lb_active l - 1 in
           lb_has_out_loop ops
             (l\<lparr>lb_active := a, lb_pipes := list_swap (lb_current l) a (lb_pipes l),
                lb_current := (if lb_current l = a then 0 else lb_current l)\<rparr>) w1)
      })"
  by pat_completeness auto

termination
  by (relation "measure (\<lambda>(ops, l, w). lb_active l)") auto

declare lb_has_out_loop.simps [simp del]

definition lb_has_out :: "'w pipe_ops \<Rightarrow> lb \<Rightarrow> 'w \<Rightarrow> (bool \<times> lb \<times> 'w) option" where
  "lb_has_out ops l w = (if lb_more l then Some (True, l, w) else lb_has_out_loop ops l w)"

subsection \<open>The contract of a writable pipe\<close>

locale message_sink =
  fixes ops :: "'w pipe_ops"
    and inv :: "'w \<Rightarrow> bool"
    and live :: "'w \<Rightarrow> nat set"
    and writable :: "'w \<Rightarrow> nat \<Rightarrow> bool"
    and sent :: "'w \<Rightarrow> nat \<Rightarrow> msg list"
    and half :: "'w \<Rightarrow> nat \<Rightarrow> msg list"
  assumes write_law: "inv w \<Longrightarrow> p \<in> live w \<Longrightarrow> \<exists>w'. po_write ops p m w = Some (writable w p, w') \<and> inv w' \<and> live w' = live w
      \<and> sent w' = sent w \<and> half w' = (if writable w p then (half w)(p := half w p @ [m]) else half w)
      \<and> (\<forall>r. r \<noteq> p \<longrightarrow> writable w' r = writable w r) \<and> (writable w p \<longrightarrow> has_more m \<longrightarrow> writable w' p)
      \<and> (\<not> writable w p \<longrightarrow> \<not> writable w' p)"
    and flush_law: "inv w \<Longrightarrow> p \<in> live w \<Longrightarrow> half w p = hs @ [m] \<Longrightarrow> \<not> has_more m \<Longrightarrow>
      \<exists>w'. po_flush ops p w = Some w' \<and> inv w' \<and> live w' = live w
      \<and> sent w' = (sent w)(p := sent w p @ half w p) \<and> half w' = (half w)(p := []) \<and> writable w' = writable w"

definition lb_shape :: "lb \<Rightarrow> bool" where
  "lb_shape l \<longleftrightarrow> distinct (lb_pipes l) \<and> lb_active l \<le> length (lb_pipes l)
     \<and> (if lb_active l = 0 then lb_current l = 0 \<and> \<not> lb_more l else lb_current l < lb_active l)"

definition lb_ok :: "('w \<Rightarrow> nat set) \<Rightarrow> ('w \<Rightarrow> nat \<Rightarrow> bool) \<Rightarrow> lb \<Rightarrow> 'w \<Rightarrow> bool" where
  "lb_ok live writable l w \<longleftrightarrow> lb_shape l \<and> set (lb_pipes l) \<subseteq> live w \<and> \<not> lb_dropping l
     \<and> (lb_more l \<longrightarrow> writable w (lb_pipes l ! lb_current l))"

definition lb_actives :: "lb \<Rightarrow> nat set" where
  "lb_actives l = set (take (lb_active l) (lb_pipes l))"

text \<open>Sending the parts of a message, until one is refused.\<close>

fun lb_sends :: "'w pipe_ops \<Rightarrow> msg list \<Rightarrow> lb \<Rightarrow> 'w \<Rightarrow> (lb_result list \<times> lb \<times> 'w) option" where
  "lb_sends ops [] l w = Some ([], l, w)"
| "lb_sends ops (m # ms) l w = do {
     (r, l1, w1) \<leftarrow> lb_sendpipe ops m l w;
     (case r of
        Refused c e \<Rightarrow> Some ([r], l1, w1)
      | _ \<Rightarrow> do { (rs, l2, w2) \<leftarrow> lb_sends ops ms l1 w1; Some (r # rs, l2, w2) })
   }"

text \<open>Passing over a pipe that cannot be written.\<close>

lemma lb_skip_shape:
  assumes "lb_shape l" "0 < lb_active l" "\<not> lb_more l"
  defines "l' \<equiv> (if lb_current l < lb_active l - 1 then l\<lparr>lb_active := lb_active l - 1\<rparr>\<lparr>lb_pipes := list_swap (lb_current l) (lb_active l - 1) (lb_pipes l)\<rparr>
              else l\<lparr>lb_active := lb_active l - 1\<rparr>\<lparr>lb_current := 0\<rparr>)"
  shows "lb_shape l'" "set (lb_pipes l') = set (lb_pipes l)" "lb_active l' = lb_active l - 1" "lb_more l' = lb_more l"
    "lb_dropping l' = lb_dropping l" "lb_actives l = insert (lb_pipes l ! lb_current l) (lb_actives l')"
proof -
  let ?c = "lb_current l" and ?a = "lb_active l - 1" and ?ps = "lb_pipes l"
  have c: "?c < lb_active l" "?c < length ?ps" "?a < length ?ps" "distinct ?ps"
    using assms(1,2) by (auto simp: lb_shape_def)
  show "lb_shape l'" "set (lb_pipes l') = set ?ps" "lb_active l' = ?a" "lb_more l' = lb_more l" "lb_dropping l' = lb_dropping l"
    using assms(1-3) c by (auto simp: l'_def lb_shape_def)
  have ac: "y \<in> lb_actives l \<longleftrightarrow> (\<exists>k < lb_active l. ?ps ! k = y)" for y
    using assms(1) by (auto simp: lb_actives_def in_set_conv_nth lb_shape_def)
  have ac': "y \<in> lb_actives l' \<longleftrightarrow> (\<exists>k < ?a. (if k = ?c then ?ps ! ?a else ?ps ! k) = y)" for y
  proof -
    have "lb_pipes l' ! k = (if k = ?c then ?ps ! ?a else ?ps ! k)" if "k < ?a" for k
      using c that by (auto simp: l'_def nth_list_swap)
    moreover have "y \<in> lb_actives l' \<longleftrightarrow> (\<exists>k < ?a. lb_pipes l' ! k = y)"
      using c by (auto simp: l'_def lb_actives_def in_set_conv_nth)
    ultimately show ?thesis by auto
  qed
  show "lb_actives l = insert (?ps ! ?c) (lb_actives l')"
  proof (rule set_eqI)
    fix y
    show "y \<in> lb_actives l \<longleftrightarrow> y \<in> insert (?ps ! ?c) (lb_actives l')"
    proof
      assume "y \<in> lb_actives l"
      then obtain k where k: "k < lb_active l" "?ps ! k = y" using ac by blast
      consider "k = ?c" | "k \<noteq> ?c" "k = ?a" | "k \<noteq> ?c" "k < ?a" using k(1) by linarith
      then show "y \<in> insert (?ps ! ?c) (lb_actives l')"
      proof cases
        case 2
        then have "?c < ?a" using c by simp
        then show ?thesis using ac' k 2 by auto
      qed (use ac' k in auto)
    next
      assume "y \<in> insert (?ps ! ?c) (lb_actives l')"
      then consider "y = ?ps ! ?c" | k where "k < ?a" "(if k = ?c then ?ps ! ?a else ?ps ! k) = y" using ac' by auto
      then show "y \<in> lb_actives l"
      proof cases
        case 1
        then show ?thesis using ac c by blast
      next
        case 2
        then show ?thesis using ac [of y] by (cases "k = ?c") (auto intro: exI [of _ ?a] exI [of _ k])
      qed
    qed
  qed
qed

lemma lb_current_active: "lb_shape l \<Longrightarrow> lb_more l \<Longrightarrow> lb_pipes l ! lb_current l \<in> lb_actives l"
  by (auto simp: lb_shape_def lb_actives_def in_set_conv_nth split: if_splits intro!: exI [of _ "lb_current l"])

context message_sink
begin

lemma lb_loop_spec:
  assumes "inv w" "lb_ok live writable l w"
  shows "\<exists>r l' w'. lb_loop ops m l w = Some (Inr r, l', w') \<and> inv w' \<and> live w' = live w \<and> lb_shape l' \<and> set (lb_pipes l') \<subseteq> live w'
    \<and> \<not> lb_dropping l' \<and> sent w' = sent w \<and>
    (case r of
       None \<Rightarrow> half w' = half w \<and> lb_active l' = 0 \<and> \<not> lb_more l' \<and> (\<forall>p \<in> lb_actives l. \<not> writable w p)
     | Some p \<Rightarrow> half w' = (half w)(p := half w p @ [m]) \<and> p \<in> lb_actives l \<and> writable w p \<and> 0 < lb_active l'
         \<and> p = lb_pipes l' ! lb_current l' \<and> (lb_more l \<longrightarrow> p = lb_pipes l ! lb_current l) \<and> (has_more m \<longrightarrow> writable w' p))"
  using assms
proof (induction "lb_active l" arbitrary: l w)
  case 0
  then show ?case by (subst lb_loop.simps) (auto simp: lb_ok_def lb_shape_def lb_actives_def)
next
  case (Suc a)
  define p where "p = lb_pipes l ! lb_current l"
  have sh: "lb_shape l" and pos: "0 < lb_active l" and cur: "lb_current l < lb_active l" "lb_current l < length (lb_pipes l)"
    using Suc.prems(2) Suc.hyps(2) by (auto simp: lb_ok_def lb_shape_def)
  have p: "p \<in> live w" "p \<in> lb_actives l"
    using Suc.prems(2) nth_mem [OF cur(2)] cur
    by (auto simp: p_def lb_ok_def lb_actives_def in_set_conv_nth intro!: exI [of _ "lb_current l"])
  obtain w1 where w1: "po_write ops p m w = Some (writable w p, w1)" "inv w1" "live w1 = live w" "sent w1 = sent w"
    "half w1 = (if writable w p then (half w)(p := half w p @ [m]) else half w)" "\<forall>r. r \<noteq> p \<longrightarrow> writable w1 r = writable w r"
    "writable w p \<longrightarrow> has_more m \<longrightarrow> writable w1 p" "\<not> writable w p \<longrightarrow> \<not> writable w1 p"
    using write_law [OF Suc.prems(1) p(1), of m] by blast
  have get: "tab_get (lb_pipes l) (lb_current l) = Some p" using cur by (simp add: p_def)
  show ?case
  proof (cases "writable w p")
    case True
    then have "lb_loop ops m l w = Some (Inr (Some p), l, w1)"
      using pos get w1(1) by (subst lb_loop.simps) simp
    with True w1 p sh pos Suc.prems(2) show ?thesis
      by (intro exI [of _ "Some p"] exI [of _ l] exI [of _ w1]) (simp add: lb_ok_def p_def [symmetric])
  next
    case False
    then have nm: "\<not> lb_more l" using Suc.prems(2) by (auto simp: lb_ok_def p_def)
    define l1 where "l1 = (if lb_current l < lb_active l - 1 then l\<lparr>lb_active := lb_active l - 1\<rparr>\<lparr>lb_pipes := list_swap (lb_current l) (lb_active l - 1) (lb_pipes l)\<rparr>
              else l\<lparr>lb_active := lb_active l - 1\<rparr>\<lparr>lb_current := 0\<rparr>)"
    note d = lb_skip_shape [OF sh pos nm, folded l1_def p_def]
    have run: "lb_loop ops m l w = lb_loop ops m l1 w1"
      using pos get w1(1) False nm by (subst lb_loop.simps) (simp add: l1_def Let_def)
    have ok: "lb_ok live writable l1 w1" using d Suc.prems(2) w1(3) nm by (simp add: lb_ok_def)
    have "a = lb_active l1" using d(3) Suc.hyps(2) by simp
    from Suc.hyps(1) [OF this w1(2) ok] obtain r l' w' where IH: "lb_loop ops m l1 w1 = Some (Inr r, l', w')" "inv w'" "live w' = live w1"
      "lb_shape l'" "set (lb_pipes l') \<subseteq> live w'" "\<not> lb_dropping l'" "sent w' = sent w1"
      "case r of
       None \<Rightarrow> half w' = half w1 \<and> lb_active l' = 0 \<and> \<not> lb_more l' \<and> (\<forall>p \<in> lb_actives l1. \<not> writable w1 p)
     | Some p \<Rightarrow> half w' = (half w1)(p := half w1 p @ [m]) \<and> p \<in> lb_actives l1 \<and> writable w1 p \<and> 0 < lb_active l'
         \<and> p = lb_pipes l' ! lb_current l' \<and> (lb_more l1 \<longrightarrow> p = lb_pipes l1 ! lb_current l1) \<and> (has_more m \<longrightarrow> writable w' p)"
      by blast
    have wr: "writable w1 = writable w" using w1(6,8) False by (auto simp: fun_eq_iff)
    have "half w1 = half w" using w1(5) False by simp
    with IH wr False nm d(6) w1(3,4) show ?thesis unfolding run
      by (intro exI [of _ r] exI [of _ l'] exI [of _ w']) (auto split: option.splits)
  qed
qed

text \<open>One part of a message.\<close>

lemma lb_send_spec:
  assumes "inv w" "lb_ok live writable l w" "half w = (\<lambda>_. [])(q := hs)" "if lb_more l then q = lb_pipes l ! lb_current l else hs = []"
  shows "\<exists>r l' w'. lb_sendpipe ops m l w = Some (r, l', w') \<and> inv w' \<and> lb_ok live writable l' w' \<and>
    (case r of
       SentTo p \<Rightarrow> (lb_more l \<longrightarrow> p = q) \<and> p \<in> lb_actives l \<and> writable w p
         \<and> (if has_more m then lb_more l' \<and> p = lb_pipes l' ! lb_current l' \<and> half w' = (\<lambda>_. [])(p := hs @ [m]) \<and> sent w' = sent w
            else \<not> lb_more l' \<and> half w' = (\<lambda>_. []) \<and> sent w' = (sent w)(p := sent w p @ hs @ [m]))
     | Refused c e \<Rightarrow> c = -1 \<and> e = EAGAIN \<and> \<not> lb_more l \<and> \<not> lb_more l' \<and> half w' = half w \<and> sent w' = sent w \<and> (\<forall>p \<in> lb_actives l. \<not> writable w p)
     | Dropped \<Rightarrow> False)"
proof -
  obtain r l1 w1 where L: "lb_loop ops m l w = Some (Inr r, l1, w1)" "inv w1" "live w1 = live w" "lb_shape l1"
    "set (lb_pipes l1) \<subseteq> live w1" "\<not> lb_dropping l1" "sent w1 = sent w"
    "case r of
       None \<Rightarrow> half w1 = half w \<and> lb_active l1 = 0 \<and> \<not> lb_more l1 \<and> (\<forall>p \<in> lb_actives l. \<not> writable w p)
     | Some p \<Rightarrow> half w1 = (half w)(p := half w p @ [m]) \<and> p \<in> lb_actives l \<and> writable w p \<and> 0 < lb_active l1
         \<and> p = lb_pipes l1 ! lb_current l1 \<and> (lb_more l \<longrightarrow> p = lb_pipes l ! lb_current l) \<and> (has_more m \<longrightarrow> writable w1 p)"
    using lb_loop_spec [OF assms(1,2), of m] by blast
  have nd: "\<not> lb_dropping l" using assms(2) by (simp add: lb_ok_def)
  show ?thesis
  proof (cases r)
    case None
    have "\<not> lb_more l" using L(8) None assms(2) lb_current_active [of l] by (auto simp: lb_ok_def)
    with None L nd show ?thesis
      by (intro exI [of _ "Refused (-1) EAGAIN"] exI [of _ l1] exI [of _ w1]) (simp add: lb_sendpipe_def lb_ok_def)
  next
    case (Some p)
    note L8 = L(8) [unfolded Some option.case]
    have pq: "lb_more l \<longrightarrow> p = q" using L8 assms(4) by auto
    have P: "p \<in> lb_actives l" "writable w p" "0 < lb_active l1" "lb_pipes l1 ! lb_current l1 = p" "has_more m \<longrightarrow> writable w1 p"
      using L8 by blast+
    have hp: "half w p = hs" "half w1 = (\<lambda>_. [])(p := hs @ [m])"
      using L8 pq assms(3,4) by (auto simp: fun_eq_iff split: if_splits)
    show ?thesis
    proof (cases "has_more m")
      case True
      let ?l = "l1\<lparr>lb_more := True\<rparr>"
      have "lb_sendpipe ops m l w = Some (SentTo p, ?l, w1)" using nd L(1) Some True by (simp add: lb_sendpipe_def Let_def)
      moreover have "lb_ok live writable ?l w1" using L(4-6) P True by (auto simp: lb_ok_def lb_shape_def)
      ultimately show ?thesis using L(2,7) P True pq hp
        by (intro exI [of _ "SentTo p"] exI [of _ ?l] exI [of _ w1]) simp
    next
      case False
      have "p \<in> live w1" using L(4,5) P nth_mem [of "lb_current l1" "lb_pipes l1"] by (auto simp: lb_shape_def)
      then obtain w2 where w2: "po_flush ops p w1 = Some w2" "inv w2" "live w2 = live w1"
        "sent w2 = (sent w1)(p := sent w1 p @ half w1 p)" "half w2 = (half w1)(p := [])"
        using flush_law [OF L(2), of p hs m] hp False by auto
      let ?l = "l1\<lparr>lb_more := False, lb_current := (if lb_current l1 + 1 \<ge> lb_active l1 then 0 else lb_current l1 + 1)\<rparr>"
      have "lb_sendpipe ops m l w = Some (SentTo p, ?l, w2)" using nd L(1) Some False w2(1) by (simp add: lb_sendpipe_def Let_def)
      moreover have "lb_ok live writable ?l w2" using L(4-6) P False w2(3) by (auto simp: lb_ok_def lb_shape_def)
      moreover have "half w2 = (\<lambda>_. [])" "sent w2 = (sent w)(p := sent w p @ hs @ [m])" using w2(4,5) hp L(7) by (auto simp: fun_eq_iff)
      ultimately show ?thesis using P False pq w2(2)
        by (intro exI [of _ "SentTo p"] exI [of _ ?l] exI [of _ w2]) simp
    qed
  qed
qed

lemma lb_sends_rest:
  assumes "inv w" "lb_ok live writable l w" "lb_more l" "q = lb_pipes l ! lb_current l" "half w = (\<lambda>_. [])(q := hs)"
    and "\<forall>m \<in> set ms. has_more m" "\<not> has_more m"
  shows "\<exists>l' w'. lb_sends ops (ms @ [m]) l w = Some (replicate (length ms + 1) (SentTo q), l', w') \<and> inv w' \<and> lb_ok live writable l' w'
    \<and> \<not> lb_more l' \<and> half w' = (\<lambda>_. []) \<and> sent w' = (sent w)(q := sent w q @ hs @ ms @ [m])"
  using assms(1-6)
proof (induction ms arbitrary: w l hs)
  case Nil
  obtain r l' w' where s: "lb_sendpipe ops m l w = Some (r, l', w')" "inv w'" "lb_ok live writable l' w'"
    "case r of
       SentTo p \<Rightarrow> (lb_more l \<longrightarrow> p = q) \<and> p \<in> lb_actives l \<and> writable w p
         \<and> (if has_more m then lb_more l' \<and> p = lb_pipes l' ! lb_current l' \<and> half w' = (\<lambda>_. [])(p := hs @ [m]) \<and> sent w' = sent w
            else \<not> lb_more l' \<and> half w' = (\<lambda>_. []) \<and> sent w' = (sent w)(p := sent w p @ hs @ [m]))
     | Refused c e \<Rightarrow> c = -1 \<and> e = EAGAIN \<and> \<not> lb_more l \<and> \<not> lb_more l' \<and> half w' = half w \<and> sent w' = sent w \<and> (\<forall>p \<in> lb_actives l. \<not> writable w p)
     | Dropped \<Rightarrow> False"
    using lb_send_spec [OF Nil.prems(1,2,5), of m] Nil.prems(3,4) by auto
  with Nil.prems(3) assms(7) show ?case by (cases r) auto
next
  case (Cons x ms)
  obtain r l1 w1 where s: "lb_sendpipe ops x l w = Some (r, l1, w1)" "inv w1" "lb_ok live writable l1 w1"
    "case r of
       SentTo p \<Rightarrow> (lb_more l \<longrightarrow> p = q) \<and> p \<in> lb_actives l \<and> writable w p
         \<and> (if has_more x then lb_more l1 \<and> p = lb_pipes l1 ! lb_current l1 \<and> half w1 = (\<lambda>_. [])(p := hs @ [x]) \<and> sent w1 = sent w
            else \<not> lb_more l1 \<and> half w1 = (\<lambda>_. []) \<and> sent w1 = (sent w)(p := sent w p @ hs @ [x]))
     | Refused c e \<Rightarrow> c = -1 \<and> e = EAGAIN \<and> \<not> lb_more l \<and> \<not> lb_more l1 \<and> half w1 = half w \<and> sent w1 = sent w \<and> (\<forall>p \<in> lb_actives l. \<not> writable w p)
     | Dropped \<Rightarrow> False"
    using lb_send_spec [OF Cons.prems(1,2,5), of x] Cons.prems(3,4) by auto
  have hm: "has_more x" using Cons.prems(6) by simp
  have r: "r = SentTo q" using s(4) Cons.prems(3) by (cases r) auto
  then have s': "lb_more l1" "q = lb_pipes l1 ! lb_current l1" "half w1 = (\<lambda>_. [])(q := hs @ [x])" "sent w1 = sent w"
    using s(4) hm by simp_all
  have "\<forall>m \<in> set ms. has_more m" using Cons.prems(6) by simp
  from Cons.IH [OF s(2,3) s'(1,2,3) this] obtain l' w' where
    "lb_sends ops (ms @ [m]) l1 w1 = Some (replicate (length ms + 1) (SentTo q), l', w')" "inv w'" "lb_ok live writable l' w'"
    "\<not> lb_more l'" "half w' = (\<lambda>_. [])" "sent w' = (sent w1)(q := sent w1 q @ (hs @ [x]) @ ms @ [m])"
    by blast
  with s(1) r s'(4) show ?case by auto
qed

lemma lb_sends_message:
  assumes "inv w" "lb_ok live writable l w" "\<not> lb_more l" "half w = (\<lambda>_. [])" "\<forall>m \<in> set ms. has_more m" "\<not> has_more m"
  shows "\<exists>l' w'. inv w' \<and> lb_ok live writable l' w' \<and> \<not> lb_more l' \<and> half w' = (\<lambda>_. []) \<and>
    (if \<exists>p \<in> lb_actives l. writable w p
     then \<exists>p \<in> lb_actives l. lb_sends ops (ms @ [m]) l w = Some (replicate (length ms + 1) (SentTo p), l', w')
            \<and> writable w p \<and> sent w' = (sent w)(p := sent w p @ ms @ [m])
     else lb_sends ops (ms @ [m]) l w = Some ([Refused (-1) EAGAIN], l', w') \<and> sent w' = sent w)"
proof -
  obtain x xs where x: "ms @ [m] = x # xs" by (cases ms) auto
  have pre: "half w = (\<lambda>_. [])(undefined := [])" by (simp add: assms(4) fun_eq_iff)
  obtain r l1 w1 where s: "lb_sendpipe ops x l w = Some (r, l1, w1)" "inv w1" "lb_ok live writable l1 w1"
    and s0: "case r of
       SentTo p \<Rightarrow> (lb_more l \<longrightarrow> p = undefined) \<and> p \<in> lb_actives l \<and> writable w p
         \<and> (if has_more x then lb_more l1 \<and> p = lb_pipes l1 ! lb_current l1 \<and> half w1 = (\<lambda>_. [])(p := [] @ [x]) \<and> sent w1 = sent w
            else \<not> lb_more l1 \<and> half w1 = (\<lambda>_. []) \<and> sent w1 = (sent w)(p := sent w p @ [] @ [x]))
     | Refused c e \<Rightarrow> c = -1 \<and> e = EAGAIN \<and> \<not> lb_more l \<and> \<not> lb_more l1 \<and> half w1 = half w \<and> sent w1 = sent w \<and> (\<forall>p \<in> lb_actives l. \<not> writable w p)
     | Dropped \<Rightarrow> False"
    using lb_send_spec [OF assms(1,2) pre, of x] assms(3) by auto
  have s4: "case r of
       SentTo p \<Rightarrow> p \<in> lb_actives l \<and> writable w p
         \<and> (if has_more x then lb_more l1 \<and> p = lb_pipes l1 ! lb_current l1 \<and> half w1 = (\<lambda>_. [])(p := [x]) \<and> sent w1 = sent w
            else \<not> lb_more l1 \<and> half w1 = (\<lambda>_. []) \<and> sent w1 = (sent w)(p := sent w p @ [x]))
     | Refused c e \<Rightarrow> c = -1 \<and> e = EAGAIN \<and> \<not> lb_more l \<and> \<not> lb_more l1 \<and> half w1 = half w \<and> sent w1 = sent w \<and> (\<forall>p \<in> lb_actives l. \<not> writable w p)
     | Dropped \<Rightarrow> False"
    using s0 by (cases r) auto
  show ?thesis
  proof (cases r)
    case (SentTo p)
    then have p: "p \<in> lb_actives l" "writable w p" using s4 by auto
    show ?thesis
    proof (cases ms)
      case Nil
      then have "x = m" "xs = []" using x by simp_all
      with s s4 SentTo assms(6) p Nil show ?thesis by (intro exI [of _ l1] exI [of _ w1]) auto
    next
      case (Cons y ys)
      then have xy: "x = y" "xs = ys @ [m]" "has_more x" using x assms(5) by auto
      obtain l' w' where "lb_sends ops (ys @ [m]) l1 w1 = Some (replicate (length ys + 1) (SentTo p), l', w')" "inv w'" "lb_ok live writable l' w'"
        "\<not> lb_more l'" "half w' = (\<lambda>_. [])" "sent w' = (sent w1)(p := sent w1 p @ [x] @ ys @ [m])"
        using lb_sends_rest [OF s(2,3), of p "[x]" ys m] s4 SentTo xy(3) assms(5,6) Cons by auto
      with s(1) s4 SentTo xy p Cons show ?thesis by (intro exI [of _ l'] exI [of _ w']) auto
    qed
  next
    case (Refused c e)
    with s s4 assms(4) x show ?thesis by (intro exI [of _ l1] exI [of _ w1]) auto
  qed (use s4 in simp)
qed

end

subsection \<open>The pipe ends of a socket are a message sink\<close>

definition end_sent :: "pipe \<Rightarrow> pipe_world \<Rightarrow> msg list" where
  "end_sent e w = (case get_up (out_pipe e) w of Some (Normal q) \<Rightarrow> take (wr q) (hist q) | _ \<Rightarrow> [])"

definition end_half :: "pipe \<Rightarrow> pipe_world \<Rightarrow> msg list" where
  "end_half e w = (case get_up (out_pipe e) w of Some (Normal q) \<Rightarrow> drop (wr q) (hist q) | _ \<Rightarrow> [])"

definition on_end :: "(pipe \<Rightarrow> pipe_world \<Rightarrow> 'a) \<Rightarrow> 'a \<Rightarrow> net \<Rightarrow> nat \<Rightarrow> 'a" where
  "on_end f d n p = (case n_pipes n p of None \<Rightarrow> d | Some e \<Rightarrow> f e (n_world n))"

definition net_sent :: "net \<Rightarrow> nat \<Rightarrow> msg list" where "net_sent = on_end end_sent []"
definition net_half :: "net \<Rightarrow> nat \<Rightarrow> msg list" where "net_half = on_end end_half []"
definition net_writable :: "net \<Rightarrow> nat \<Rightarrow> bool" where "net_writable = on_end (\<lambda>e w. fst (check_write e)) False"

text \<open>An end without a pipe to write to is not active; otherwise it writes to an ordinary pipe of its own, and a
  last part in it that is not flushed ends what may be flushed.\<close>

definition out_ok :: "pipe \<Rightarrow> pipe_world \<Rightarrow> bool" where
  "out_ok e w \<longleftrightarrow> (out_pipe e = None \<and> pstate e \<noteq> active)
     \<or> (pstate e \<noteq> term_ack_sent \<and> (\<exists>q. get_up (out_pipe e) w = Some (Normal q) \<and> pq_ok q
          \<and> (drop (wr q) (hist q) \<noteq> [] \<longrightarrow> \<not> has_more (last (hist q)) \<longrightarrow> fl q = length (hist q))))"

definition net_out_inv :: "net \<Rightarrow> bool" where
  "net_out_inv n \<longleftrightarrow> (\<forall>p e. n_pipes n p = Some e \<longrightarrow> out_ok e (n_world n))
     \<and> (\<forall>p p' e e'. n_pipes n p = Some e \<longrightarrow> n_pipes n p' = Some e' \<longrightarrow> p \<noteq> p' \<longrightarrow> out_pipe e = None \<or> out_pipe e \<noteq> out_pipe e')"

lemma net_out_step:
  assumes "net_out_inv n" "n_pipes n p = Some e" "\<forall>b. b \<noteq> out_pipe e \<longrightarrow> get_up b w' = get_up b (n_world n)"
    and "out_pipe e' = out_pipe e" "out_ok e' w'"
  defines "n' \<equiv> \<lparr>n_pipes = (n_pipes n)(p \<mapsto> e'), n_world = w'\<rparr>"
  shows "net_out_inv n' \<and> net_live n' = net_live n \<and> net_sent n' = (net_sent n)(p := end_sent e' w')
    \<and> net_half n' = (net_half n)(p := end_half e' w') \<and> net_writable n' = (net_writable n)(p := fst (check_write e'))"
proof -
  have other: "out_ok f w' \<and> end_sent f w' = end_sent f (n_world n) \<and> end_half f w' = end_half f (n_world n)"
    if "n_pipes n r = Some f" "r \<noteq> p" for r f
  proof (cases "out_pipe f = None")
    case True
    have "out_ok f (n_world n)" using assms(1) that by (auto simp: net_out_inv_def)
    with True show ?thesis by (simp add: out_ok_def end_sent_def end_half_def get_up_def)
  next
    case False
    have "out_pipe f = None \<or> out_pipe f \<noteq> out_pipe e" using assms(1,2) that unfolding net_out_inv_def by blast
    with False have "out_pipe f \<noteq> out_pipe e" by metis
    moreover have "out_ok f (n_world n)" using assms(1) that by (auto simp: net_out_inv_def)
    ultimately show ?thesis using assms(3) by (simp add: out_ok_def end_sent_def end_half_def)
  qed
  have "net_out_inv n'" unfolding net_out_inv_def
  proof (intro conjI allI impI)
    fix r f assume "n_pipes n' r = Some f"
    then show "out_ok f (n_world n')" using other assms(5) by (auto simp: n'_def split: if_splits)
  next
    fix r r' f f' assume "n_pipes n' r = Some f" "n_pipes n' r' = Some f'" "r \<noteq> r'"
    moreover have "out_pipe g = None \<or> out_pipe g \<noteq> out_pipe g'" if "n_pipes n s = Some g" "n_pipes n s' = Some g'" "s \<noteq> s'" for s s' g g'
      using assms(1) that unfolding net_out_inv_def by blast
    ultimately show "out_pipe f = None \<or> out_pipe f \<noteq> out_pipe f'" using assms(2,4) by (auto simp: n'_def split: if_splits)
  qed
  moreover have "net_sent n' = (net_sent n)(p := end_sent e' w')" "net_half n' = (net_half n)(p := end_half e' w')"
    "net_writable n' = (net_writable n)(p := fst (check_write e'))"
    using other by (auto simp: net_sent_def net_half_def net_writable_def on_end_def n'_def fun_eq_iff split: option.splits)
  moreover have "net_live n' = net_live n" using assms(2) by (auto simp: net_live_def n'_def)
  ultimately show ?thesis by blast
qed

lemma pipe_write_end:
  assumes "out_ok e w"
  shows "\<exists>e' w'. pipe_write m e w = Some (fst (check_write e), e', w') \<and> out_pipe e' = out_pipe e \<and> out_ok e' w'
    \<and> (\<forall>b. b \<noteq> out_pipe e \<longrightarrow> get_up b w' = get_up b w) \<and> end_sent e' w' = end_sent e w
    \<and> end_half e' w' = (if fst (check_write e) then end_half e w @ [m] else end_half e w)
    \<and> (if fst (check_write e) then has_more m \<longrightarrow> fst (check_write e') else \<not> fst (check_write e'))"
proof (cases "fst (check_write e)")
  case False
  then obtain e1 where e1: "check_write e = (False, e1)" by (cases "check_write e") auto
  then have f: "e1 = e \<or> e1 = e\<lparr>out_active := False\<rparr>" by (auto simp: check_write_def split: if_splits)
  then have "\<not> fst (check_write e1)" using e1 by (auto simp: check_write_def split: if_splits)
  with e1 f assms show ?thesis by (auto simp: pipe_write_def end_sent_def end_half_def out_ok_def Let_def)
next
  case True
  then have c: "check_write e = (True, e)" "pstate e = active" by (auto simp: check_write_def split: if_splits)
  then obtain q where q: "get_up (out_pipe e) w = Some (Normal q)" "pq_ok q" using assms by (auto simp: out_ok_def)
  have a: "out_pipe e \<noteq> None" using q(1) by (cases "out_pipe e") (simp_all add: get_up_def)
  define q' where "q' = pq_write m (has_more m) q"
  define w' where "w' = put_up (out_pipe e) (Normal q') w"
  define e' where "e' = (if \<not> has_more m \<and> \<not> is_routing_id m then e\<lparr>msgs_written := msgs_written e + 1\<rparr> else e)"
  have run: "pipe_write m e w = Some (True, e', w')"
    using c q(1) by (auto simp: pipe_write_def up_write_at_def w'_def q'_def e'_def Let_def)
  have e': "out_pipe e' = out_pipe e" "pstate e' = active" using c(2) by (simp_all add: e'_def)
  have up: "get_up (out_pipe e) w' = Some (Normal q')" using a by (simp add: w'_def)
  have q': "pq_ok q'" "hist q' = hist q @ [m]" "wr q' = wr q" "\<not> has_more m \<Longrightarrow> fl q' = length (hist q')" "wr q \<le> length (hist q)"
    using pq_ok_ops(2) [OF q(2)] q(2) by (simp_all add: q'_def pq_write_def pq_ok_def)
  have "out_ok e' w'" using e' up q' by (simp add: out_ok_def)
  moreover have "end_sent e' w' = end_sent e w" "end_half e' w' = end_half e w @ [m]"
    using e'(1) up q(1) q' by (simp_all add: end_sent_def end_half_def)
  moreover have "has_more m \<longrightarrow> fst (check_write e')" using c(1) by (simp add: e'_def)
  moreover have "\<forall>b. b \<noteq> out_pipe e \<longrightarrow> get_up b w' = get_up b w" by (auto simp: w'_def)
  ultimately show ?thesis using run e'(1) True by simp
qed

lemma pipe_flush_end:
  assumes "out_ok e w" "end_half e w = hs @ [m]" "\<not> has_more m"
  shows "\<exists>w'. pipe_flush e w = Some w' \<and> out_ok e w' \<and> (\<forall>b. b \<noteq> out_pipe e \<longrightarrow> get_up b w' = get_up b w)
    \<and> end_sent e w' = end_sent e w @ end_half e w \<and> end_half e w' = []"
proof -
  obtain q where q: "get_up (out_pipe e) w = Some (Normal q)" "pq_ok q" "pstate e \<noteq> term_ack_sent"
    "drop (wr q) (hist q) \<noteq> [] \<longrightarrow> \<not> has_more (last (hist q)) \<longrightarrow> fl q = length (hist q)"
    using assms(1,2) by (auto simp: out_ok_def end_half_def get_up_def)
  obtain a where a: "out_pipe e = Some a" using q(1) by (cases "out_pipe e") (simp_all add: get_up_def)
  have half: "drop (wr q) (hist q) = hs @ [m]" using assms(2) q(1) by (simp add: end_half_def)
  then have "last (hist q) = m" by (metis append_is_Nil_conv drop_eq_Nil last_drop last_snoc not_Cons_self2 not_le)
  then have fl: "fl q = length (hist q)" using q(4) half assms(3) by simp
  have wr: "wr q < length (hist q)" using half by (metis drop_eq_Nil append_is_Nil_conv not_Cons_self2 not_le)
  define q' where "q' = q\<lparr>wr := fl q, asleep := False\<rparr>"
  define w' where "w' = (let w1 = put_up (Some a) (Normal q') w in if asleep q then send_cmd ActivateRead w1 else w1)"
  have "pipe_flush e w = Some w'"
    using q(1,3) a fl wr by (auto simp: pipe_flush_def get_up_def pq_flush_def w'_def q'_def Let_def)
  moreover have up: "get_up (Some a) w' = Some (Normal q')" "\<And>b. b \<noteq> Some a \<Longrightarrow> get_up b w' = get_up b w"
    by (simp_all add: w'_def Let_def)
  moreover have "pq_ok q'" using pq_ok_ops(4) [OF q(2)] fl wr by (simp add: q'_def pq_flush_def)
  moreover have "hist q' = hist q" "wr q' = length (hist q)" using fl by (simp_all add: q'_def)
  moreover have "take (wr q) (hist q) @ hs @ [m] = hist q" using append_take_drop_id [of "wr q" "hist q"] half by simp
  ultimately show ?thesis using a q(1,3) half
    by (intro exI [of _ w']) (simp add: out_ok_def end_sent_def end_half_def)
qed

interpretation pipe_snk: message_sink net_ops net_out_inv net_live net_writable net_sent net_half
proof unfold_locales
  fix n p m assume inv: "net_out_inv n" and live: "p \<in> net_live n"
  then obtain e where e: "n_pipes n p = Some e" "out_ok e (n_world n)" by (auto simp: net_live_def net_out_inv_def)
  have at: "net_sent n p = end_sent e (n_world n)" "net_half n p = end_half e (n_world n)" "net_writable n p = fst (check_write e)"
    using e(1) by (simp_all add: net_sent_def net_half_def net_writable_def on_end_def)
  obtain e' w' where r: "pipe_write m e (n_world n) = Some (fst (check_write e), e', w')" "out_pipe e' = out_pipe e" "out_ok e' w'"
    "\<forall>b. b \<noteq> out_pipe e \<longrightarrow> get_up b w' = get_up b (n_world n)" "end_sent e' w' = end_sent e (n_world n)"
    "end_half e' w' = (if fst (check_write e) then end_half e (n_world n) @ [m] else end_half e (n_world n))"
    "if fst (check_write e) then has_more m \<longrightarrow> fst (check_write e') else \<not> fst (check_write e')"
    using pipe_write_end [OF e(2), of m] by blast
  show "\<exists>w'. po_write net_ops p m n = Some (net_writable n p, w') \<and> net_out_inv w' \<and> net_live w' = net_live n
      \<and> net_sent w' = net_sent n \<and> net_half w' = (if net_writable n p then (net_half n)(p := net_half n p @ [m]) else net_half n)
      \<and> (\<forall>r. r \<noteq> p \<longrightarrow> net_writable w' r = net_writable n r) \<and> (net_writable n p \<longrightarrow> has_more m \<longrightarrow> net_writable w' p)
      \<and> (\<not> net_writable n p \<longrightarrow> \<not> net_writable w' p)"
    using net_out_step [OF inv e(1) r(4,2,3)] r(1,5,6,7) e(1) at
    by (intro exI [of _ "\<lparr>n_pipes = (n_pipes n)(p \<mapsto> e'), n_world = w'\<rparr>"])
      (auto simp: net_ops_def on_pipe_def fun_upd_idem split: if_splits)
  fix hs assume half: "net_half n p = hs @ [m]" and fin: "\<not> has_more m"
  obtain w' where f: "pipe_flush e (n_world n) = Some w'" "out_ok e w'" "\<forall>b. b \<noteq> out_pipe e \<longrightarrow> get_up b w' = get_up b (n_world n)"
    "end_sent e w' = end_sent e (n_world n) @ end_half e (n_world n)" "end_half e w' = []"
    using pipe_flush_end [OF e(2) _ fin] half at(2) by metis
  show "\<exists>w'. po_flush net_ops p n = Some w' \<and> net_out_inv w' \<and> net_live w' = net_live n
      \<and> net_sent w' = (net_sent n)(p := net_sent n p @ net_half n p) \<and> net_half w' = (net_half n)(p := []) \<and> net_writable w' = net_writable n"
    using net_out_step [OF inv e(1) f(3) refl f(2)] f(1,4,5) e(1) at
    by (intro exI [of _ "\<lparr>n_pipes = (n_pipes n)(p \<mapsto> e), n_world = w'\<rparr>"])
      (auto simp: net_ops_def on_pipe_def fun_upd_idem)
qed


definition three_lb :: "bool \<Rightarrow> nat \<Rightarrow> lb" where
  "three_lb b c = \<lparr>lb_pipes = [0, 1, 2], lb_active = 3, lb_current = c, lb_more = b, lb_dropping = False\<rparr>"

definition three_out :: net where
  "three_out = \<lparr>n_pipes = (\<lambda>p. if p < 3 then Some (new_pipe p (p + 3) 0 0 False) else None),
     n_world = idle_world\<lparr>pw_upipes := (\<lambda>a. Some (Normal pq_new))\<rparr>\<rparr>"

lemma three_out_ok:
  "net_out_inv three_out" "net_live three_out = {0, 1, 2}" "net_half three_out = (\<lambda>_. [])" "net_sent three_out = (\<lambda>_. [])"
  "net_writable three_out p = (p < 3)"
proof -
  have up: "get_up (Some a) (n_world three_out) = Some (Normal pq_new)" for a by (simp add: three_out_def get_up_def)
  have e: "n_pipes three_out p = (if p < 3 then Some (new_pipe p (p + 3) 0 0 False) else None)" for p by (simp add: three_out_def)
  show "net_out_inv three_out" unfolding net_out_inv_def e
    using up pq_ok_ops(1) by (auto simp: new_pipe_def out_ok_def pq_new_def split: if_splits)
  show "net_live three_out = {0, 1, 2}" unfolding net_live_def dom_def e by (auto split: if_splits)
  show "net_half three_out = (\<lambda>_. [])" "net_sent three_out = (\<lambda>_. [])"
    unfolding net_half_def net_sent_def on_end_def e using up
    by (simp_all add: fun_eq_iff new_pipe_def end_half_def end_sent_def pq_new_def)
  show "net_writable three_out p = (p < 3)"
    unfolding net_writable_def on_end_def e by (simp add: new_pipe_def check_write_def check_hwm_def)
qed

lemma three_lb_ok: "c < 3 \<Longrightarrow> lb_ok net_live net_writable (three_lb b c) three_out"
  using three_out_ok(2) by (auto simp: lb_ok_def lb_shape_def three_lb_def three_out_ok(5) less_Suc_eq numeral_3_eq_3)


text \<open>C40: a terminated pipe can make the balancer split a message. If it is inside a message sent to the last active pipe and another pipe,
  not the first, is terminated, the swap moves the pipe while \<^verbatim>\<open>_current\<close> is set to zero, and nothing is
  dropped: the next part goes to the first pipe.\<close>

theorem lb_termination_splits:
  assumes "net_out_inv w" "lb_ok net_live net_writable l w" "lb_more l" "lb_current l = lb_active l - 1"
    and "0 < pos p (lb_pipes l)" "pos p (lb_pipes l) < lb_current l" "net_writable w (hd (lb_pipes l))" "has_more m"
  shows "hd (lb_pipes l) \<noteq> lb_pipes l ! lb_current l
    \<and> (\<exists>l' w'. lb_sendpipe net_ops m (lb_pipe_terminated p l) w = Some (SentTo (hd (lb_pipes l)), l', w')
         \<and> net_half w' (hd (lb_pipes l)) = net_half w (hd (lb_pipes l)) @ [m])"
proof -
  let ?ps = "lb_pipes l" and ?a = "lb_active l - 1" and ?i = "pos p (lb_pipes l)"
  have sh: "distinct ?ps" "lb_active l \<le> length ?ps" "set ?ps \<subseteq> net_live w" "\<not> lb_dropping l"
    using assms(2) by (auto simp: lb_ok_def lb_shape_def)
  have lt: "?a < length ?ps" "?i < ?a" "1 < ?a" "?ps \<noteq> []" "\<not> lb_active l \<le> Suc 0" using assms(4,5,6) sh(2) by auto
  have hd: "hd ?ps = ?ps ! 0" using lt(4) by (simp add: hd_conv_nth)
  have ne: "hd ?ps \<noteq> ?ps ! lb_current l" using sh(1) lt assms(4) unfolding hd by (subst nth_eq_iff_index_eq) auto
  define qs where "qs = list_swap ?i ?a ?ps"
  have p: "p = ?ps ! ?i" using nth_pos [OF pos_less, of p ?ps] lt by simp
  have qs: "length qs = length ?ps" "distinct qs" "qs ! 0 = ?ps ! 0" "qs ! ?a = p"
    using lt sh(1) assms(5) p by (simp_all add: qs_def nth_list_swap not_le)
  have "pos p qs = ?a" using pos_nth [OF qs(2), of ?a] qs(1,4) lt(1) by simp
  then have l': "lb_pipe_terminated p l = l\<lparr>lb_active := ?a, lb_pipes := swap_out ?a qs, lb_current := 0\<rparr>"
    using lt assms(4) by (simp add: lb_pipe_terminated_def Let_def qs_def)
  have "swap_out ?a qs ! 0 = ?ps ! 0" using nth_swap_out [of 0 qs ?a] qs lt by simp
  then have get: "tab_get (swap_out ?a qs) 0 = Some (hd ?ps)" using lt qs(1) hd by simp
  have "hd ?ps \<in> net_live w" using sh(3) lt(4) by auto
  then obtain w' where w': "po_write net_ops (hd ?ps) m w = Some (True, w')" "net_half w' = (net_half w)(hd ?ps := net_half w (hd ?ps) @ [m])"
    using pipe_snk.write_law [OF assms(1), of "hd ?ps" m] assms(7) by auto
  have "lb_loop net_ops m (lb_pipe_terminated p l) w = Some (Inr (Some (hd ?ps)), lb_pipe_terminated p l, w')"
    unfolding l' using get lt w'(1) by (subst lb_loop.simps) simp
  then show ?thesis using ne w'(2) sh(4) assms(8) by (simp add: lb_sendpipe_def l' Let_def)
qed

theorem lb_termination_splits_witness:
  "\<exists>l' w'. lb_sendpipe net_ops part_msg (lb_pipe_terminated 1 (three_lb True 2)) three_out = Some (SentTo 0, l', w')"
proof -
  have "lb_more (three_lb True 2)" "lb_current (three_lb True 2) = lb_active (three_lb True 2) - 1" "0 < pos 1 (lb_pipes (three_lb True 2))"
    "pos 1 (lb_pipes (three_lb True 2)) < lb_current (three_lb True 2)" "net_writable three_out (hd (lb_pipes (three_lb True 2)))"
    by (simp_all add: three_lb_def pos_def three_out_ok(5))
  from lb_termination_splits [OF three_out_ok(1) three_lb_ok this, of part_msg] show ?thesis by (auto simp: three_lb_def)
qed

end
