(* ===== verification/Msg_Refs.thy ===== *)
theory Msg_Refs
  imports Msg
begin

text \<open>
  The two operations of \<^verbatim>\<open>msg_t\<close> for copies that are made without \<^verbatim>\<open>copy\<close>: \<open>add_refs\<close> before a message is
  written to several pipes and \<open>rm_refs\<close> for the writes that failed. The lemmas keep the exact counts of
  theory \<open>Msg\<close> through both.
\<close>

lemma holders_simps [simp]:
  "holders c [] = 0" "holders c (m # ms) = (if m_body m = Lmsg c then 1 else 0) + holders c ms"
  "holders c (xs @ ys) = holders c xs + holders c ys" "holders c (replicate n m) = (if m_body m = Lmsg c then n else 0)"
  by (simp_all add: holders_def filter_replicate)

lemma refs_ok_cong: "set xs = set ys \<Longrightarrow> (\<And>c. holders c xs = holders c ys) \<Longrightarrow> refs_ok xs h = refs_ok ys h"
  unfolding refs_ok_def content_ok_def by presburger

definition same_part :: "msg \<Rightarrow> msg \<Rightarrow> bool" where
  "same_part m m' \<longleftrightarrow> m' = m \<or> m' = set_flags f_shared m"

lemma set_shared [simp]:
  "m_body (set_flags f_shared m) = m_body m" "plain (set_flags f_shared m) = plain m"
  "has_flag f_more (set_flags f_shared m) = has_flag f_more m"
  by (simp_all add: set_flags_def has_flag_def plain_def flag_defs bit.conj_disj_distrib2 bit.disj_conj_distrib)

text \<open>Messages without a content block may be copied and forgotten.\<close>

lemma refs_ok_no_content:
  assumes "refs_ok (replicate n m @ ms) h" "\<And>c. m_body m \<noteq> Lmsg c" "plain m"
  shows "refs_ok (replicate k m @ ms) h"
proof -
  have "content_ok (replicate k m @ ms) h c" for c
  proof -
    have "content_ok (replicate n m @ ms) h c" using assms(1) by (simp add: refs_ok_def)
    then show ?thesis using assms(2) by (auto simp: content_ok_def split: option.splits)
  qed
  then show ?thesis using assms(1,3) by (auto simp: refs_ok_def)
qed

text \<open>What is known of a content block with a holder.\<close>

lemma content_holder:
  assumes "refs_ok ms h" "m \<in> set ms" "m_body m = Lmsg c"
  obtains ct where "h_contents h c = Some ct" "if has_flag f_shared m then unat (c_refcnt ct) = holders c ms else holders c ms = 1"
proof -
  have "content_ok ms h c" "holders c ms \<ge> 1" using assms holders_pos [OF assms(2,3)] by (auto simp: refs_ok_def)
  then show thesis using that assms(2,3) by (auto simp: content_ok_def split: option.splits)
qed

text \<open>Changing the count of one block to the number of its holders.\<close>

lemma refs_ok_recount:
  assumes "refs_ok ms h" "h_contents h' = (h_contents h)(c := v)" "\<forall>m \<in> set ms'. plain m"
    and "\<And>d. d \<noteq> c \<Longrightarrow> holders d ms' = holders d ms" "\<And>d m. d \<noteq> c \<Longrightarrow> m \<in> set ms' \<Longrightarrow> m_body m = Lmsg d \<Longrightarrow> m \<in> set ms"
    and "case v of None \<Rightarrow> holders c ms' = 0
       | Some ct \<Rightarrow> 1 \<le> holders c ms' \<and> unat (c_refcnt ct) = holders c ms' \<and> (\<forall>m \<in> set ms'. m_body m = Lmsg c \<longrightarrow> has_flag f_shared m)"
  shows "refs_ok ms' h'"
  unfolding refs_ok_def
proof (intro conjI allI)
  fix d
  show "content_ok ms' h' d"
  proof (cases "d = c")
    case True
    with assms(2,6) show ?thesis by (auto simp: content_ok_def split: option.splits)
  next
    case False
    have "content_ok ms h d" using assms(1) by (simp add: refs_ok_def)
    then show ?thesis using False assms(2,4,5) by (auto simp: content_ok_def split: option.splits)
  qed
qed (rule assms(3))

lemma add_refs_spec:
  assumes "refs_ok (m # ms) h" "1 \<le> n" "n + length ms < 2 ^ 32"
  shows "\<exists>m' h'. add_refs (int n - 1) m h = Some (m', h') \<and> same_part m m' \<and> refs_ok (replicate n m' @ ms) h'"
proof -
  have plain: "plain m" "m_metadata m = None" using assms(1) by (auto simp: refs_ok_def plain_def)
  consider "n = 1" | "2 \<le> n" "\<And>c. m_body m \<noteq> Lmsg c" | c where "2 \<le> n" "m_body m = Lmsg c"
    using assms(2) by fastforce
  then show ?thesis
  proof cases
    case 1
    with assms(1) plain show ?thesis by (auto simp: add_refs_def same_part_def)
  next
    case 2
    have "content_of m = None" using 2(2) plain(1) by (auto simp: content_of_def plain_def split: mbody.splits)
    moreover have "refs_ok (replicate n m @ ms) h" using refs_ok_no_content [of 1 m ms h n] assms(1) 2(2) plain(1) by simp
    ultimately show ?thesis using 2(1) plain(2) by (auto simp: add_refs_def share_content_def same_part_def)
  next
    case 3
    obtain ct where ct: "h_contents h c = Some ct"
      "if has_flag f_shared m then unat (c_refcnt ct) = holders c (m # ms) else holders c (m # ms) = 1"
      using content_holder [OF assms(1) _ 3(2)] by auto
    define r where "r = (if has_flag f_shared m then c_refcnt ct + of_int (int n - 1) else of_int (int n - 1 + 1))"
    define m' where "m' = (if has_flag f_shared m then m else set_flags f_shared m)"
    define h' where "h' = h\<lparr>h_contents := (h_contents h)(c \<mapsto> ct\<lparr>c_refcnt := r\<rparr>)\<rparr>"
    have run: "add_refs (int n - 1) m h = Some (m', h')"
      using 3 plain ct by (simp add: add_refs_def share_content_def content_of_def set_refcnt_def r_def m'_def h'_def)
    have m': "m_body m' = Lmsg c" "has_flag f_shared m'" "plain m'" using 3(2) plain by (auto simp: m'_def)
    have hold: "holders c (replicate n m' @ ms) = n + holders c ms" using m' by simp
    have "holders c ms \<le> length ms" by (rule holders_le)
    obtain j where j: "n = Suc j" using assms(2) by (cases n) auto
    have k: "of_int (int n - 1) = (of_nat j :: u32)" "unat (of_nat j :: u32) = j" using assms(3) by (simp_all add: j unat_of_nat)
    have r: "unat r = n + holders c ms"
    proof (cases "has_flag f_shared m")
      case True
      then have "unat (c_refcnt ct) = 1 + holders c ms" using ct(2) 3(2) by simp
      then show ?thesis using True \<open>holders c ms \<le> length ms\<close> assms(3) unfolding r_def k(1) by (simp add: unat_word_ariths k(2) j)
    next
      case False
      then show ?thesis using ct(2) 3(2) assms(3) by (simp add: r_def unat_of_nat)
    qed
    have sh: "has_flag f_shared x" if "x \<in> set ms" "m_body x = Lmsg c" for x
    proof -
      have "holders c ms \<ge> 1" using that by (rule holders_pos)
      moreover have "content_ok (m # ms) h c" using assms(1) by (simp add: refs_ok_def)
      ultimately show ?thesis using that ct(1) 3(2) by (auto simp: content_ok_def split: if_splits)
    qed
    have "refs_ok (replicate n m' @ ms) h'"
    proof (rule refs_ok_recount [OF assms(1), of h' c "Some (ct\<lparr>c_refcnt := r\<rparr>)"])
      show "\<forall>x \<in> set (replicate n m' @ ms). plain x" using assms(1) m'(3) by (auto simp: refs_ok_def)
      show "case Some (ct\<lparr>c_refcnt := r\<rparr>) of None \<Rightarrow> holders c (replicate n m' @ ms) = 0
        | Some ct \<Rightarrow> 1 \<le> holders c (replicate n m' @ ms) \<and> unat (c_refcnt ct) = holders c (replicate n m' @ ms)
            \<and> (\<forall>m \<in> set (replicate n m' @ ms). m_body m = Lmsg c \<longrightarrow> has_flag f_shared m)"
        using hold r m'(2) sh assms(2) by auto
    qed (use m'(1) 3(2) in \<open>auto simp: h'_def\<close>)
    moreover have "same_part m m'" by (simp add: same_part_def m'_def)
    ultimately show ?thesis using run by blast
  qed
qed

lemma rm_refs_spec:
  assumes "refs_ok (replicate (a + f) m @ ms) h" "1 \<le> f" "msg_check m" "a + f + length ms < 2 ^ 32"
  shows "\<exists>b m' h'. rm_refs (int f) m h = Some (b, m', h') \<and> refs_ok (replicate a m @ ms) h'"
proof -
  have mem: "m \<in> set (replicate (a + f) m @ ms)" using assms(2) by simp
  have plain: "plain m" "m_metadata m = None" using assms(1) mem by (auto simp: refs_ok_def plain_def)
  consider "\<And>c. m_body m \<noteq> Lmsg c" | c where "m_body m = Lmsg c" "\<not> has_flag f_shared m" | c where "m_body m = Lmsg c" "has_flag f_shared m" by blast
  then show ?thesis
  proof cases
    case 1
    have "content_of m = None" using 1 plain(1) by (auto simp: content_of_def plain_def split: mbody.splits)
    moreover have "msg_close m h = Some (0, m\<lparr>m_metadata := None, m_body := Closed\<rparr>, h)"
      using msg_close_plain [OF plain(1) assms(3), of h] 1 by (simp split: mbody.splits)
    moreover have "refs_ok (replicate a m @ ms) h" using refs_ok_no_content [OF assms(1) 1 plain(1)] .
    ultimately show ?thesis using assms(2) plain(2) by (auto simp: rm_refs_def)
  next
    case 2
    obtain ct where "holders c (replicate (a + f) m @ ms) = 1" using content_holder [OF assms(1) mem 2(1)] 2(2) by auto
    then have n: "f = 1" "a = 0" "holders c ms = 0" using 2(1) assms(2) by auto
    then have one: "refs_ok (m # ms) h" using assms(1) by simp
    obtain m' h' where c: "msg_close m h = Some (0, m', h')" "m_body m' = Closed" "refs_ok (m' # ms) h'"
      using msg_close_refs [OF one, of 0] assms(3) by auto
    have "refs_ok ms h'" using refs_ok_no_content [of 1 m' ms h' 0] c(2,3) by (simp add: refs_ok_def)
    with c n plain(2) 2 show ?thesis by (auto simp: rm_refs_def)
  next
    case 3
    let ?N = "a + f + holders c ms"
    obtain ct where ct: "h_contents h c = Some ct" "unat (c_refcnt ct) = ?N" using content_holder [OF assms(1) mem 3(1)] 3 by auto
    define r where "r = c_refcnt ct - of_int (int f)"
    have "unat (of_int (int f) :: u32) = f" using assms(4) by (simp add: unat_of_nat)
    then have r: "unat r = a + holders c ms" using ct(2) by (simp add: r_def unat_sub_if_size)
    define h1 where "h1 = h\<lparr>h_contents := (h_contents h)(c \<mapsto> ct\<lparr>c_refcnt := r\<rparr>)\<rparr>"
    have sh: "has_flag f_shared x \<and> x \<in> set (replicate (a + f) m @ ms)" if "x \<in> set (replicate a m @ ms)" "m_body x = Lmsg c" for x
    proof -
      have x: "x \<in> set (replicate (a + f) m @ ms)" using that(1) by (auto simp: split: if_splits)
      moreover have "?N \<noteq> 1 \<or> x = m"
      proof (cases "x \<in> set ms")
        case True
        then have "holders c ms \<ge> 1" using that(2) by (rule holders_pos)
        then show ?thesis using assms(2) by simp
      qed (use that(1) in \<open>auto split: if_splits\<close>)
      moreover have "content_ok (replicate (a + f) m @ ms) h c" using assms(1) by (simp add: refs_ok_def)
      ultimately show ?thesis using that(2) ct(1) 3 by (auto simp: content_ok_def split: if_splits)
    qed
    have pl: "\<forall>x \<in> set (replicate a m @ ms). plain x" using assms(1) plain(1) by (auto simp: refs_ok_def)
    have other: "holders d (replicate a m @ ms) = holders d (replicate (a + f) m @ ms)" if "d \<noteq> c" for d using that 3(1) by auto
    have run: "rm_refs (int f) m h = (if r \<noteq> 0 then Some (True, m, h1) else do { h2 \<leftarrow> free_content c h1; Some (False, m, h2) })"
      using assms(2) plain(2) 3 ct(1) by (simp add: rm_refs_def content_of_def counter_sub_def set_refcnt_def r_def h1_def)
    show ?thesis
    proof (cases "r = 0")
      case True
      then have z: "a = 0" "holders c ms = 0" using r by simp_all
      obtain h2 where h2: "free_content c h1 = Some h2" "h_contents h2 = (h_contents h1)(c := None)"
        using free_content_lost [of h1 c] by (auto simp: h1_def)
      have "refs_ok (replicate a m @ ms) h2"
        by (rule refs_ok_recount [OF assms(1), of h2 c None]) (use h2(2) z pl other 3(1) in \<open>auto simp: h1_def\<close>)
      with True h2(1) run show ?thesis by auto
    next
      case False
      then have "1 \<le> a + holders c ms" using r by (cases "a + holders c ms") (simp_all add: unat_eq_zero)
      then have "refs_ok (replicate a m @ ms) h1"
        by (intro refs_ok_recount [OF assms(1), of h1 c "Some (ct\<lparr>c_refcnt := r\<rparr>)"]) (use pl other r sh 3(1) in \<open>auto simp: h1_def\<close>)
      with False run show ?thesis by auto
    qed
  qed
qed

end
