(* ===== verification/Dist.thy ===== *)
theory Dist
  imports Lb Msg_Refs
begin

text \<open>
  The distributor \<^verbatim>\<open>dist_t\<close> (dist.hpp, dist.cpp) that publishing sockets write their pipes through. The pipes are
  kept in one array in which the matching, the active and the eligible ones are
  segments from the front, each inside the next.
\<close>

record dist =
  di_pipes :: "nat list"
  di_matching :: nat
  di_active :: nat
  di_eligible :: nat
  di_more :: bool

definition dist_new :: dist where
  "dist_new = \<lparr>di_pipes = [], di_matching = 0, di_active = 0, di_eligible = 0, di_more = False\<rparr>"

definition dist_attach :: "nat \<Rightarrow> dist \<Rightarrow> dist" where
  "dist_attach p d =
     (let ps = di_pipes d @ [p] in
      if di_more d then
        d\<lparr>di_pipes := list_swap (di_eligible d) (length ps - 1) ps, di_eligible := di_eligible d + 1\<rparr>
      else
        d\<lparr>di_pipes := list_swap (di_active d) (length ps - 1) ps, di_active := di_active d + 1, di_eligible := di_eligible d + 1\<rparr>)"

definition dist_has_pipe :: "nat \<Rightarrow> dist \<Rightarrow> bool" where
  "dist_has_pipe p d = (let i = pos p (di_pipes d) in if i \<ge> length (di_pipes d) then False else di_pipes d ! i = p)"

definition dist_match :: "nat \<Rightarrow> dist \<Rightarrow> dist" where
  "dist_match p d =
     (if pos p (di_pipes d) < di_matching d then d
      else if pos p (di_pipes d) \<ge> di_eligible d then d
      else d\<lparr>di_pipes := list_swap (pos p (di_pipes d)) (di_matching d) (di_pipes d), di_matching := di_matching d + 1\<rparr>)"

definition dist_unmatch :: "dist \<Rightarrow> dist" where
  "dist_unmatch d = d\<lparr>di_matching := 0\<rparr>"

definition dist_reverse_match :: "dist \<Rightarrow> dist" where
  "dist_reverse_match d =
     fold (\<lambda>i e. e\<lparr>di_pipes := list_swap i (di_matching e) (di_pipes e), di_matching := di_matching e + 1\<rparr>)
       [di_matching d..<di_eligible d] (dist_unmatch d)"

definition dist_pipe_terminated :: "nat \<Rightarrow> dist \<Rightarrow> dist" where
  "dist_pipe_terminated p d =
     (let d1 = (if pos p (di_pipes d) < di_matching d
                then d\<lparr>di_pipes := list_swap (pos p (di_pipes d)) (di_matching d - 1) (di_pipes d), di_matching := di_matching d - 1\<rparr> else d);
          d2 = (if pos p (di_pipes d1) < di_active d1
                then d1\<lparr>di_pipes := list_swap (pos p (di_pipes d1)) (di_active d1 - 1) (di_pipes d1), di_active := di_active d1 - 1\<rparr> else d1);
          d3 = (if pos p (di_pipes d2) < di_eligible d2
                then d2\<lparr>di_pipes := list_swap (pos p (di_pipes d2)) (di_eligible d2 - 1) (di_pipes d2), di_eligible := di_eligible d2 - 1\<rparr> else d2)
      in d3\<lparr>di_pipes := swap_out (pos p (di_pipes d3)) (di_pipes d3)\<rparr>)"

definition dist_activated :: "nat \<Rightarrow> dist \<Rightarrow> dist" where
  "dist_activated p d =
     (let d1 = (if di_eligible d < length (di_pipes d)
                then d\<lparr>di_pipes := list_swap (pos p (di_pipes d)) (di_eligible d) (di_pipes d), di_eligible := di_eligible d + 1\<rparr> else d)
      in if \<not> di_more d1 \<and> di_active d1 < length (di_pipes d1)
         then d1\<lparr>di_pipes := list_swap (di_eligible d1 - 1) (di_active d1) (di_pipes d1), di_active := di_active d1 + 1\<rparr> else d1)"

text \<open>Writing to one pipe; a pipe that cannot take the message is moved behind the eligible ones.\<close>

definition dist_write :: "'w pipe_ops \<Rightarrow> nat \<Rightarrow> msg \<Rightarrow> dist \<Rightarrow> 'w \<Rightarrow> (bool \<times> dist \<times> 'w) option" where
  "dist_write ops p m d w = do {
     (ok, w1) \<leftarrow> po_write ops p m w;
     if \<not> ok then
       (let d1 = d\<lparr>di_pipes := list_swap (pos p (di_pipes d)) (di_matching d - 1) (di_pipes d), di_matching := di_matching d - 1\<rparr>;
            d2 = d1\<lparr>di_pipes := list_swap (pos p (di_pipes d1)) (di_active d1 - 1) (di_pipes d1), di_active := di_active d1 - 1\<rparr>;
            d3 = d2\<lparr>di_pipes := list_swap (di_active d2) (di_eligible d2 - 1) (di_pipes d2), di_eligible := di_eligible d2 - 1\<rparr>
        in Some (False, d3, w1))
     else if \<not> has_more m then do { w2 \<leftarrow> po_flush ops p w1; Some (True, d, w2) }
     else Some (True, d, w1)
   }"

lemma dist_write_matching: "dist_write ops p m d w = Some (ok, d', w') \<Longrightarrow> di_matching d' = (if ok then di_matching d else di_matching d - 1)"
  by (auto simp: dist_write_def Let_def split: Option.bind_splits if_splits)

text \<open>The loop over the matching pipes from position \<open>i\<close> on, with the number of writes that failed.\<close>

function dist_loop :: "'w pipe_ops \<Rightarrow> msg \<Rightarrow> nat \<Rightarrow> int \<Rightarrow> dist \<Rightarrow> 'w \<Rightarrow> (int \<times> dist \<times> 'w) option" where
  "dist_loop ops m i failed d w =
     (if i < di_matching d then do {
        p \<leftarrow> tab_get (di_pipes d) i;
        (ok, d1, w1) \<leftarrow> dist_write ops p m d w;
        if \<not> ok then dist_loop ops m i (failed + 1) d1 w1 else dist_loop ops m (i + 1) failed d1 w1
      } else Some (failed, d, w))"
  by pat_completeness auto

termination
  by (relation "measure (\<lambda>(ops, m, i, failed, d, w). di_matching d - i)") (auto dest: dist_write_matching)

declare dist_loop.simps [simp del]

definition distribute :: "'w pipe_ops \<Rightarrow> msg \<Rightarrow> dist \<Rightarrow> 'w \<Rightarrow> (dist \<times> 'w) option" where
  "distribute ops m d w =
     (if di_matching d = 0 then do { w1 \<leftarrow> po_close ops m w; Some (d, w1) }
      else if is_vsm m then do { (failed, d1, w1) \<leftarrow> dist_loop ops m 0 0 d w; Some (d1, w1) }
      else do {
        (m1, w1) \<leftarrow> po_add_refs ops (int (di_matching d) - 1) m w;
        (failed, d1, w2) \<leftarrow> dist_loop ops m1 0 0 d w1;
        if failed \<noteq> 0 then do { w3 \<leftarrow> po_rm_refs ops failed m1 w2; Some (d1, w3) } else Some (d1, w2)
      })"

definition send_to_matching :: "'w pipe_ops \<Rightarrow> msg \<Rightarrow> dist \<Rightarrow> 'w \<Rightarrow> (dist \<times> 'w) option" where
  "send_to_matching ops m d w = do {
     (d1, w1) \<leftarrow> distribute ops m d w;
     Some ((if \<not> has_more m then d1\<lparr>di_active := di_eligible d1\<rparr> else d1)\<lparr>di_more := has_more m\<rparr>, w1)
   }"

definition send_to_all :: "'w pipe_ops \<Rightarrow> msg \<Rightarrow> dist \<Rightarrow> 'w \<Rightarrow> (dist \<times> 'w) option" where
  "send_to_all ops m d w = send_to_matching ops m (d\<lparr>di_matching := di_active d\<rparr>) w"

definition dist_has_out :: "dist \<Rightarrow> bool" where
  "dist_has_out d = True"

fun check_hwms :: "'w pipe_ops \<Rightarrow> nat list \<Rightarrow> 'w \<Rightarrow> bool option" where
  "check_hwms ops [] w = Some True"
| "check_hwms ops (p # ps) w = do { ok \<leftarrow> po_check_hwm ops p w; if \<not> ok then Some False else check_hwms ops ps w }"

definition dist_check_hwm :: "'w pipe_ops \<Rightarrow> dist \<Rightarrow> 'w \<Rightarrow> bool option" where
  "dist_check_hwm ops d w = check_hwms ops (take (di_matching d) (di_pipes d)) w"

subsection \<open>The segments as sets\<close>

definition dist_shape :: "dist \<Rightarrow> bool" where
  "dist_shape d \<longleftrightarrow> distinct (di_pipes d) \<and> di_matching d \<le> di_active d \<and> di_active d \<le> di_eligible d
     \<and> di_eligible d \<le> length (di_pipes d) \<and> (\<not> di_more d \<longrightarrow> di_active d = di_eligible d)"

definition front :: "nat \<Rightarrow> nat list \<Rightarrow> nat set" where
  "front k ps = set (take k ps)"

abbreviation matching :: "dist \<Rightarrow> nat set" where "matching d \<equiv> front (di_matching d) (di_pipes d)"
abbreviation actives :: "dist \<Rightarrow> nat set" where "actives d \<equiv> front (di_active d) (di_pipes d)"
abbreviation eligibles :: "dist \<Rightarrow> nat set" where "eligibles d \<equiv> front (di_eligible d) (di_pipes d)"

lemma front_iff: "x \<in> front k ps \<longleftrightarrow> (\<exists>t < k. t < length ps \<and> ps ! t = x)"
  by (auto simp: front_def in_set_conv_nth)

lemma front_pos: "distinct ps \<Longrightarrow> k \<le> length ps \<Longrightarrow> x \<in> front k ps \<longleftrightarrow> pos x ps < k"
  unfolding front_iff using pos_nth [of ps] nth_pos [OF pos_less, of x ps] by fastforce

lemma front_all: "front (length ps) ps = set ps"
  by (simp add: front_def)

lemma nth_front: "i < k \<Longrightarrow> i < length ps \<Longrightarrow> ps ! i \<in> front k ps"
  by (auto simp: front_iff)

text \<open>Swapping two positions leaves a segment as it is when both or none of them are in it.\<close>

lemma front_swap_sub:
  assumes "i < length ps" "j < length ps" "i < k \<longleftrightarrow> j < k"
  shows "front k ps \<subseteq> front k (list_swap i j ps)"
proof
  fix x assume "x \<in> front k ps"
  then obtain t where t: "t < k" "t < length ps" "ps ! t = x" by (auto simp: front_iff)
  define u where "u = (if t = i then j else if t = j then i else t)"
  have "u < k \<and> u < length ps" unfolding u_def using t(1,2) assms by presburger
  then have "u < k" "u < length (list_swap i j ps)" by simp_all
  moreover have "list_swap i j ps ! u = x"
    unfolding u_def using t assms by (cases "t = i"; cases "t = j"; cases "i = j") (simp_all add: nth_list_swap)
  ultimately show "x \<in> front k (list_swap i j ps)" using nth_front [of u k "list_swap i j ps"] by simp
qed

lemma list_swap_swap: "i < length ps \<Longrightarrow> j < length ps \<Longrightarrow> list_swap i j (list_swap i j ps) = ps"
  by (rule nth_equalityI) (auto simp: nth_list_swap)

lemma front_swap:
  assumes "i < length ps" "j < length ps" "i < k \<longleftrightarrow> j < k"
  shows "front k (list_swap i j ps) = front k ps"
  using front_swap_sub [OF assms] front_swap_sub [of i "list_swap i j ps" j k] assms by (auto simp: list_swap_swap)

text \<open>Taking an element out of a segment through its last position, and into it through the first position behind it.\<close>

lemma front_Suc: "k < length ps \<Longrightarrow> front (Suc k) ps = insert (ps ! k) (front k ps)"
  by (auto simp: front_iff less_Suc_eq)

lemma front_not_nth: "distinct ps \<Longrightarrow> k < length ps \<Longrightarrow> ps ! k \<notin> front k ps"
  by (auto simp: front_iff nth_eq_iff_index_eq)

lemma front_out:
  assumes "distinct ps" "i < k" "k \<le> length ps"
  shows "front (k - 1) (list_swap i (k - 1) ps) = front k ps - {ps ! i}"
proof -
  let ?qs = "list_swap i (k - 1) ps"
  have b: "i < length ps" "k - 1 < length ps" "Suc (k - 1) = k" using assms by auto
  have "front k ?qs = front k ps" using b assms(2) by (intro front_swap) auto
  moreover have "front k ?qs = insert (?qs ! (k - 1)) (front (k - 1) ?qs)" using front_Suc [of "k - 1" ?qs] b by simp
  moreover have "?qs ! (k - 1) = ps ! i" using b by (simp add: nth_list_swap)
  moreover have "?qs ! (k - 1) \<notin> front (k - 1) ?qs" using b assms(1) by (intro front_not_nth) auto
  ultimately show ?thesis by auto
qed

lemma front_in:
  assumes "k \<le> i" "i < length ps"
  shows "front (Suc k) (list_swap i k ps) = insert (ps ! i) (front k ps)"
proof -
  have b: "k < length ps" using assms by simp
  have "front (Suc k) (list_swap i k ps) = insert (list_swap i k ps ! k) (front k (list_swap i k ps))"
    using b by (simp add: front_Suc)
  then show ?thesis using b assms by (simp add: front_swap nth_list_swap)
qed


lemma list_swap_at [simp]: "i < length ps \<Longrightarrow> j < length ps \<Longrightarrow> list_swap i j ps ! j = ps ! i"
  by (simp add: nth_list_swap)

lemma pos_swap: "distinct ps \<Longrightarrow> i < length ps \<Longrightarrow> j < length ps \<Longrightarrow> pos (ps ! i) (list_swap i j ps) = j"
  using pos_nth [of "list_swap i j ps" j] by simp

lemma take_swap: "k \<le> i \<Longrightarrow> k \<le> j \<Longrightarrow> i < length ps \<Longrightarrow> j < length ps \<Longrightarrow> take k (list_swap i j ps) = take k ps"
  by (simp add: list_swap_def)

text \<open>Moving the pipe at a matching position behind the eligible ones.\<close>

definition dist_drop :: "nat \<Rightarrow> dist \<Rightarrow> dist" where
  "dist_drop p d =
     (let d1 = d\<lparr>di_pipes := list_swap (pos p (di_pipes d)) (di_matching d - 1) (di_pipes d), di_matching := di_matching d - 1\<rparr>;
          d2 = d1\<lparr>di_pipes := list_swap (pos p (di_pipes d1)) (di_active d1 - 1) (di_pipes d1), di_active := di_active d1 - 1\<rparr>
      in d2\<lparr>di_pipes := list_swap (di_active d2) (di_eligible d2 - 1) (di_pipes d2), di_eligible := di_eligible d2 - 1\<rparr>)"

lemma dist_drop_spec:
  assumes "dist_shape d" "i < di_matching d"
  defines "p \<equiv> di_pipes d ! i"
  shows "dist_shape (dist_drop p d)" "matching (dist_drop p d) = matching d - {p}" "actives (dist_drop p d) = actives d - {p}"
    "eligibles (dist_drop p d) = eligibles d - {p}" "set (di_pipes (dist_drop p d)) = set (di_pipes d)"
    "take i (di_pipes (dist_drop p d)) = take i (di_pipes d)" "di_more (dist_drop p d) = di_more d"
    "di_matching (dist_drop p d) = di_matching d - 1"
proof -
  let ?ps = "di_pipes d" and ?m = "di_matching d - 1" and ?a = "di_active d - 1" and ?e = "di_eligible d - 1"
  have b: "distinct ?ps" "i < length ?ps" "?m < length ?ps" "?a < length ?ps" "?e < length ?ps" "?m \<le> ?a" "?a \<le> ?e" "i \<le> ?m"
    "di_matching d \<le> length ?ps" "di_active d \<le> length ?ps" "di_eligible d \<le> length ?ps" "?m < di_active d" "?a < di_eligible d"
    "di_matching d \<le> di_active d" "di_active d \<le> di_eligible d"
    using assms(1,2) by (auto simp: dist_shape_def)
  define ps1 where "ps1 = list_swap i ?m ?ps"
  define ps2 where "ps2 = list_swap ?m ?a ps1"
  define ps3 where "ps3 = list_swap ?a ?e ps2"
  have l: "length ps1 = length ?ps" "length ps2 = length ?ps" "length ps3 = length ?ps" by (simp_all add: ps1_def ps2_def ps3_def)
  have di: "distinct ps1" "distinct ps2" "distinct ps3" using b by (simp_all add: ps1_def ps2_def ps3_def)
  have at: "pos p ?ps = i" "ps1 ! ?m = p" "ps2 ! ?a = p" using b l by (simp_all add: p_def pos_nth ps1_def ps2_def)
  then have pos1: "pos p ps1 = ?m" using pos_nth [OF di(1), of ?m] b l by simp
  have r: "dist_drop p d = d\<lparr>di_pipes := ps3, di_matching := ?m, di_active := ?a, di_eligible := ?e\<rparr>"
    by (simp add: dist_drop_def at(1) pos1 ps1_def [symmetric] ps2_def [symmetric] ps3_def [symmetric] Let_def del: One_nat_def)
  have m: "front ?m ps3 = front (di_matching d) ?ps - {p}"
  proof -
    have "front ?m ps3 = front ?m ps2" unfolding ps3_def using b l by (intro front_swap) auto
    also have "\<dots> = front ?m ps1" unfolding ps2_def using b l by (intro front_swap) auto
    also have "\<dots> = front (di_matching d) ?ps - {p}" unfolding ps1_def p_def using b assms(2) by (intro front_out) auto
    finally show ?thesis .
  qed
  have a: "front ?a ps3 = front (di_active d) ?ps - {p}"
  proof -
    have "front ?a ps3 = front ?a ps2" unfolding ps3_def using b l by (intro front_swap) auto
    also have "\<dots> = front (di_active d) ps1 - {ps1 ! ?m}" unfolding ps2_def using b l di by (intro front_out) auto
    also have "front (di_active d) ps1 = front (di_active d) ?ps" unfolding ps1_def using b by (intro front_swap) auto
    finally show ?thesis unfolding at(2) .
  qed
  have e: "front ?e ps3 = front (di_eligible d) ?ps - {p}"
  proof -
    have "front ?e ps3 = front (di_eligible d) ps2 - {ps2 ! ?a}" unfolding ps3_def using b l di by (intro front_out) auto
    also have "front (di_eligible d) ps2 = front (di_eligible d) ps1" unfolding ps2_def using b l by (intro front_swap) auto
    also have "front (di_eligible d) ps1 = front (di_eligible d) ?ps" unfolding ps1_def using b by (intro front_swap) auto
    finally show ?thesis unfolding at(3) .
  qed
  show "matching (dist_drop p d) = matching d - {p}" "actives (dist_drop p d) = actives d - {p}" "eligibles (dist_drop p d) = eligibles d - {p}"
    using m a e by (simp_all add: r)
  show "dist_shape (dist_drop p d)" using assms(1) b di(3) l(3) by (simp add: dist_shape_def r)
  show "set (di_pipes (dist_drop p d)) = set ?ps" using b l by (simp add: r ps3_def ps2_def ps1_def)
  show "take i (di_pipes (dist_drop p d)) = take i ?ps" using b l by (simp add: r ps3_def ps2_def ps1_def take_swap)
qed (simp_all add: dist_drop_def Let_def)

subsection \<open>What the other operations do to the segments\<close>

lemma dist_match_spec:
  assumes "dist_shape d" "\<not> di_more d"
  shows "dist_shape (dist_match p d) \<and> matching (dist_match p d) = matching d \<union> ({p} \<inter> eligibles d)
    \<and> actives (dist_match p d) = actives d \<and> eligibles (dist_match p d) = eligibles d"
proof -
  let ?ps = "di_pipes d" and ?i = "pos p (di_pipes d)" and ?m = "di_matching d"
  have b: "distinct ?ps" "?m \<le> di_active d" "di_active d = di_eligible d" "di_eligible d \<le> length ?ps"
    using assms by (auto simp: dist_shape_def)
  have el: "p \<in> eligibles d \<longleftrightarrow> ?i < di_eligible d" and ma: "p \<in> matching d \<longleftrightarrow> ?i < ?m" using b by (auto simp: front_pos)
  consider "?i < ?m" | "di_eligible d \<le> ?i" | "?m \<le> ?i" "?i < di_eligible d" by linarith
  then show ?thesis
  proof cases
    case 1
    with assms(1) b el ma show ?thesis by (auto simp: dist_match_def)
  next
    case 2
    with assms(1) b el ma show ?thesis by (auto simp: dist_match_def)
  next
    case 3
    then have i: "?i < length ?ps" "?ps ! ?i = p" "?m < length ?ps" using b nth_pos [OF pos_less, of p ?ps] by auto
    have r: "dist_match p d = d\<lparr>di_pipes := list_swap ?i ?m ?ps, di_matching := ?m + 1\<rparr>" using 3 by (simp add: dist_match_def)
    have "front (Suc ?m) (list_swap ?i ?m ?ps) = insert p (front ?m ?ps)" using front_in [of ?m ?i ?ps] 3 i by simp
    moreover have "front (di_eligible d) (list_swap ?i ?m ?ps) = front (di_eligible d) ?ps" using 3 i by (intro front_swap) auto
    ultimately show ?thesis using b 3 i el assms by (auto simp: r dist_shape_def)
  qed
qed


lemma front_0 [simp]: "front 0 ps = {}"
  by (simp add: front_def)

lemma list_swap_sym: "list_swap i j xs = list_swap j i xs"
  by (cases "i = j") (simp_all add: list_swap_def list_update_swap)

lemma list_swap_same [simp]: "list_swap i i xs = xs"
  by (simp add: list_swap_def)

lemma front_append: "k \<le> length ps \<Longrightarrow> front k (ps @ qs) = front k ps"
  by (simp add: front_def)

lemma dist_attach_spec:
  assumes "dist_shape d" "p \<notin> set (di_pipes d)"
  shows "dist_shape (dist_attach p d) \<and> matching (dist_attach p d) = matching d
    \<and> actives (dist_attach p d) = actives d \<union> (if di_more d then {} else {p})
    \<and> eligibles (dist_attach p d) = eligibles d \<union> {p} \<and> set (di_pipes (dist_attach p d)) = insert p (set (di_pipes d))"
proof -
  let ?ps = "di_pipes d @ [p]" and ?e = "di_eligible d" and ?l = "length (di_pipes d)"
  have b: "distinct ?ps" "di_matching d \<le> di_active d" "di_active d \<le> ?e" "?e \<le> ?l" "\<not> di_more d \<longrightarrow> di_active d = ?e"
    using assms by (auto simp: dist_shape_def)
  have r: "dist_attach p d = d\<lparr>di_pipes := list_swap ?e ?l ?ps, di_active := (if di_more d then di_active d else Suc (di_active d)), di_eligible := Suc ?e\<rparr>"
    using b(5) by (simp add: dist_attach_def Let_def)
  have below: "front k (list_swap ?e ?l ?ps) = front k (di_pipes d)" if "k \<le> ?e" for k
    using b(4) that by (subst front_swap) (auto simp: front_append)
  have sw: "list_swap ?e ?l ?ps = list_swap ?l ?e ?ps" by (rule list_swap_sym)
  have "front (Suc ?e) (list_swap ?l ?e ?ps) = insert (?ps ! ?l) (front ?e ?ps)" using b(4) by (intro front_in) auto
  then have up: "front (Suc ?e) (list_swap ?e ?l ?ps) = insert p (front ?e (di_pipes d))" using b(4) by (simp add: sw front_append)
  show ?thesis using b below up assms(2) by (auto simp: r dist_shape_def)
qed

lemma dist_unmatch_spec: "dist_shape d \<Longrightarrow> dist_shape (dist_unmatch d) \<and> matching (dist_unmatch d) = {}
    \<and> actives (dist_unmatch d) = actives d \<and> eligibles (dist_unmatch d) = eligibles d"
  by (simp add: dist_unmatch_def dist_shape_def)

text \<open>Reversing: after \<open>k\<close> rounds the first \<open>k\<close> positions hold the pipes that were behind the matching ones, as long as
  no position is read that was written.\<close>

lemma dist_reverse_match_spec:
  assumes "dist_shape d" "\<not> di_more d"
  shows "dist_shape (dist_reverse_match d) \<and> matching (dist_reverse_match d) = eligibles d - matching d
    \<and> actives (dist_reverse_match d) = actives d \<and> eligibles (dist_reverse_match d) = eligibles d"
proof -
  let ?m = "di_matching d" and ?e = "di_eligible d"
  let ?step = "\<lambda>i e. e\<lparr>di_pipes := list_swap i (di_matching e) (di_pipes e), di_matching := di_matching e + 1\<rparr>"
  have b: "distinct (di_pipes d)" "?m \<le> ?e" "?e \<le> length (di_pipes d)" "di_active d = ?e"
    using assms by (auto simp: dist_shape_def)
  have *: "\<exists>ps. fold ?step [?m..<?m + k] (dist_unmatch d) = d\<lparr>di_pipes := ps, di_matching := k\<rparr> \<and> distinct ps
      \<and> length ps = length (di_pipes d) \<and> front ?e ps = eligibles d \<and> front k ps = set (take k (drop ?m (di_pipes d)))
      \<and> (\<forall>t \<ge> ?m + k. t < length ps \<longrightarrow> ps ! t = di_pipes d ! t)" if "?m + k \<le> ?e" for k
    using that
  proof (induction k)
    case 0
    with b show ?case by (intro exI [of _ "di_pipes d"]) (auto simp: dist_unmatch_def)
  next
    case (Suc k)
    then obtain ps where IH: "fold ?step [?m..<?m + k] (dist_unmatch d) = d\<lparr>di_pipes := ps, di_matching := k\<rparr>" "distinct ps"
      "length ps = length (di_pipes d)" "front ?e ps = eligibles d" "front k ps = set (take k (drop ?m (di_pipes d)))"
      "\<forall>t \<ge> ?m + k. t < length ps \<longrightarrow> ps ! t = di_pipes d ! t" by auto
    let ?qs = "list_swap (?m + k) k ps"
    have i: "?m + k < length ps" "k < length ps" "?m + k < ?e" "k < ?e" using Suc.prems b IH(3) by auto
    have "fold ?step [?m..<?m + Suc k] (dist_unmatch d) = d\<lparr>di_pipes := ?qs, di_matching := Suc k\<rparr>" using IH(1) by simp
    moreover have "front ?e ?qs = eligibles d" using i IH(4) by (subst front_swap) auto
    moreover have "front (Suc k) ?qs = set (take (Suc k) (drop ?m (di_pipes d)))"
    proof -
      have "front (Suc k) ?qs = insert (ps ! (?m + k)) (front k ps)" using i by (intro front_in) auto
      also have "ps ! (?m + k) = di_pipes d ! (?m + k)" using IH(6) i by simp
      finally show ?thesis using i IH(3,5) by (simp add: take_Suc_conv_app_nth)
    qed
    moreover have "\<forall>t \<ge> ?m + Suc k. t < length ?qs \<longrightarrow> ?qs ! t = di_pipes d ! t" using IH(6) i by (auto simp: nth_list_swap)
    moreover have "distinct ?qs" "length ?qs = length (di_pipes d)" using i IH(2,3) by simp_all
    ultimately show ?case by blast
  qed
  obtain ps where ps: "dist_reverse_match d = d\<lparr>di_pipes := ps, di_matching := ?e - ?m\<rparr>" "distinct ps" "length ps = length (di_pipes d)"
    "front ?e ps = eligibles d" "front (?e - ?m) ps = set (take (?e - ?m) (drop ?m (di_pipes d)))"
    using * [of "?e - ?m"] b(2) by (auto simp: dist_reverse_match_def)
  have app: "take ?e (di_pipes d) = take ?m (di_pipes d) @ take (?e - ?m) (drop ?m (di_pipes d))" by (metis b(2) le_add_diff_inverse take_add)
  have "distinct (take ?e (di_pipes d))" using b(1) by simp
  then have "front (?e - ?m) ps = eligibles d - matching d" using ps(5) by (auto simp: front_def app)
  then show ?thesis using ps b assms(2) by (simp add: dist_shape_def)
qed


text \<open>Taking a pipe out of one segment when it is in it.\<close>

lemma segment_out:
  assumes "distinct ps" "p \<in> set ps" "k \<le> length ps"
  defines "ps' \<equiv> (if pos p ps < k then list_swap (pos p ps) (k - 1) ps else ps)"
    and "k' \<equiv> (if pos p ps < k then k - 1 else k)"
  shows "distinct ps'" "set ps' = set ps" "length ps' = length ps" "front k' ps' = front k ps - {p}" "k' \<le> pos p ps'"
    "\<And>j. k \<le> j \<Longrightarrow> front j ps' = front j ps" "\<And>j. j \<le> pos p ps \<Longrightarrow> j \<le> k \<Longrightarrow> j \<le> k' \<and> front j ps' = front j ps"
proof -
  have i: "pos p ps < length ps" "ps ! pos p ps = p" using nth_pos [OF assms(2)] by auto
  have p: "p \<notin> front k ps" if "\<not> pos p ps < k" using that assms(1,3) by (simp add: front_pos)
  show "distinct ps'" "set ps' = set ps" "length ps' = length ps" using assms(1,3) i by (simp_all add: ps'_def)
  show "front k' ps' = front k ps - {p}" using front_out [OF assms(1) _ assms(3), of "pos p ps"] i p by (auto simp: ps'_def k'_def)
  show "k' \<le> pos p ps'" using pos_swap [OF assms(1) i(1), of "k - 1"] i assms(3) by (auto simp: ps'_def k'_def)
  show "front j ps' = front j ps" if "k \<le> j" for j
    using that i assms(3) by (cases "pos p ps < k") (simp_all add: ps'_def front_swap)
  show "j \<le> k' \<and> front j ps' = front j ps" if "j \<le> pos p ps" "j \<le> k" for j
    using that i assms(3) by (cases "pos p ps < k") (simp_all add: ps'_def k'_def front_swap)
qed

lemma front_swap_out: "j \<le> i \<Longrightarrow> j \<le> length ps - 1 \<Longrightarrow> front j (swap_out i ps) = front j ps"
  by (simp add: front_def swap_out_def butlast_conv_take min_absorb1)

lemma dist_pipe_terminated_spec:
  assumes "dist_shape d" "p \<in> set (di_pipes d)"
  shows "dist_shape (dist_pipe_terminated p d) \<and> matching (dist_pipe_terminated p d) = matching d - {p}
    \<and> actives (dist_pipe_terminated p d) = actives d - {p} \<and> eligibles (dist_pipe_terminated p d) = eligibles d - {p}
    \<and> set (di_pipes (dist_pipe_terminated p d)) = set (di_pipes d) - {p}"
proof -
  let ?ps = "di_pipes d" and ?m = "di_matching d" and ?a = "di_active d" and ?e = "di_eligible d"
  have b: "distinct ?ps" "?m \<le> ?a" "?a \<le> ?e" "?e \<le> length ?ps" "\<not> di_more d \<longrightarrow> ?a = ?e" using assms(1) by (auto simp: dist_shape_def)
  define ps1 where "ps1 = (if pos p ?ps < ?m then list_swap (pos p ?ps) (?m - 1) ?ps else ?ps)"
  define m1 where "m1 = (if pos p ?ps < ?m then ?m - 1 else ?m)"
  have "?m \<le> length ?ps" using b by simp
  note s1 = segment_out [OF b(1) assms(2) this, folded ps1_def m1_def]
  define ps2 where "ps2 = (if pos p ps1 < ?a then list_swap (pos p ps1) (?a - 1) ps1 else ps1)"
  define a1 where "a1 = (if pos p ps1 < ?a then ?a - 1 else ?a)"
  have "?a \<le> length ps1" "p \<in> set ps1" using b s1 assms(2) by simp_all
  note s2 = segment_out [OF s1(1) this(2,1), folded ps2_def a1_def]
  define ps3 where "ps3 = (if pos p ps2 < ?e then list_swap (pos p ps2) (?e - 1) ps2 else ps2)"
  define e1 where "e1 = (if pos p ps2 < ?e then ?e - 1 else ?e)"
  have "?e \<le> length ps2" "p \<in> set ps2" using b s1 s2 assms(2) by simp_all
  note s3 = segment_out [OF s2(1) this(2,1), folded ps3_def e1_def]
  define d1 where "d1 = d\<lparr>di_pipes := ps1, di_matching := m1\<rparr>"
  define d2 where "d2 = d\<lparr>di_pipes := ps2, di_matching := m1, di_active := a1\<rparr>"
  define d3 where "d3 = d\<lparr>di_pipes := ps3, di_matching := m1, di_active := a1, di_eligible := e1\<rparr>"
  have r1: "(if pos p ?ps < ?m then d\<lparr>di_pipes := list_swap (pos p ?ps) (?m - 1) ?ps, di_matching := ?m - 1\<rparr> else d) = d1"
    by (simp add: d1_def ps1_def m1_def)
  have r2: "(if pos p (di_pipes d1) < di_active d1 then d1\<lparr>di_pipes := list_swap (pos p (di_pipes d1)) (di_active d1 - 1) (di_pipes d1), di_active := di_active d1 - 1\<rparr> else d1) = d2"
    by (simp add: d1_def d2_def ps2_def a1_def)
  have r3: "(if pos p (di_pipes d2) < di_eligible d2 then d2\<lparr>di_pipes := list_swap (pos p (di_pipes d2)) (di_eligible d2 - 1) (di_pipes d2), di_eligible := di_eligible d2 - 1\<rparr> else d2) = d3"
    by (simp add: d3_def d2_def ps3_def e1_def)
  have r: "dist_pipe_terminated p d = d3\<lparr>di_pipes := swap_out (pos p ps3) ps3\<rparr>"
    unfolding dist_pipe_terminated_def Let_def r1 r2 r3 by (simp add: d3_def)
  have le: "m1 \<le> ?m" "a1 \<le> ?a" "e1 \<le> ?e" "m1 \<le> a1" "a1 \<le> e1"
    using s2(7) [of m1] s1(5) s3(7) [of a1] s2(5) b by (auto simp: m1_def a1_def e1_def split: if_splits)
  have p3: "p \<in> set ps3" "pos p ps3 < length ps3" using nth_pos [of p ps3] s1 s2 s3 assms(2) by auto
  have len: "e1 \<le> length ps3 - 1" using s3(5) p3(2) by linarith
  have f: "front m1 ps3 = front ?m ?ps - {p}" "front a1 ps3 = front ?a ?ps - {p}" "front e1 ps3 = front ?e ?ps - {p}"
  proof -
    have "front m1 ps3 = front m1 ps2" "front m1 ps2 = front m1 ps1"
      using s3(7) [of m1] s2(7) [of m1] s1(5) s2(5) le b by auto
    then show "front m1 ps3 = front ?m ?ps - {p}" using s1(4) by simp
    have "front a1 ps3 = front a1 ps2" "front ?a ps1 = front ?a ?ps" using s3(7) [of a1] s2(5) le b s1(6) [of ?a] by auto
    then show "front a1 ps3 = front ?a ?ps - {p}" using s2(4) by simp
    have "front ?e ps2 = front ?e ps1" "front ?e ps1 = front ?e ?ps" using s2(6) [of ?e] s1(6) [of ?e] b by auto
    then show "front e1 ps3 = front ?e ?ps - {p}" using s3(4) by simp
  qed
  have out: "front j (swap_out (pos p ps3) ps3) = front j ps3" if "j \<le> e1" for j
    using that s3(5) len by (intro front_swap_out) auto
  have so: "set (swap_out (pos p ps3) ps3) = set ?ps - {p}" "distinct (swap_out (pos p ps3) ps3)"
    using set_swap_out [OF s3(1) p3(2)] nth_pos [OF p3(1)] s1 s2 s3 by auto
  have "pos p ps2 = ?a - 1" if "pos p ps1 < ?a"
    using that pos_swap [OF s1(1), of "pos p ps1" "?a - 1"] nth_pos [of p ps1] s1(2,3) assms(2) b by (simp add: ps2_def)
  moreover have "ps2 = ps1" if "\<not> pos p ps1 < ?a" using that by (simp add: ps2_def)
  ultimately have eq: "a1 = e1" if "\<not> di_more d" using that b(5) by (cases "pos p ps1 < ?a") (auto simp: a1_def e1_def)
  show ?thesis using f out [of m1] out [of a1] out [of e1] so eq le len by (simp add: r d3_def dist_shape_def)
qed


lemma dist_activated_spec:
  assumes "dist_shape d" "p \<in> set (di_pipes d) - eligibles d"
  shows "dist_shape (dist_activated p d) \<and> matching (dist_activated p d) = matching d
    \<and> actives (dist_activated p d) = actives d \<union> (if di_more d then {} else {p})
    \<and> eligibles (dist_activated p d) = eligibles d \<union> {p} \<and> set (di_pipes (dist_activated p d)) = set (di_pipes d)"
proof -
  let ?ps = "di_pipes d" and ?e = "di_eligible d" and ?i = "pos p (di_pipes d)"
  have b: "distinct ?ps" "di_matching d \<le> di_active d" "di_active d \<le> ?e" "?e \<le> length ?ps" "\<not> di_more d \<longrightarrow> di_active d = ?e"
    using assms by (auto simp: dist_shape_def)
  have i: "?i < length ?ps" "?ps ! ?i = p" "?e \<le> ?i" using nth_pos [of p ?ps] assms(2) b by (auto simp: front_pos not_less)
  have r: "dist_activated p d = d\<lparr>di_pipes := list_swap ?i ?e ?ps, di_active := (if di_more d then di_active d else Suc (di_active d)), di_eligible := Suc ?e\<rparr>"
    using b(5) i by (simp add: dist_activated_def Let_def)
  have below: "front k (list_swap ?i ?e ?ps) = front k ?ps" if "k \<le> ?e" for k using that i by (simp add: front_swap)
  have "front (Suc ?e) (list_swap ?i ?e ?ps) = insert p (front ?e ?ps)" using front_in [OF i(3,1)] i(2) by simp
  then show ?thesis using b below i assms(2) by (auto simp: r dist_shape_def)
qed

subsection \<open>Distributing a part\<close>

text \<open>A message sink whose pipes share a heap of message contents, which writing leaves alone.\<close>

locale shared_sink = message_sink ops inv live writable sent half
  for ops :: "'w pipe_ops" and inv live writable sent half +
  fixes heap :: "'w \<Rightarrow> msg_heap"
  assumes write_heap: "inv w \<Longrightarrow> p \<in> live w \<Longrightarrow> po_write ops p m w = Some (b, w') \<Longrightarrow> heap w' = heap w"
    and flush_heap: "inv w \<Longrightarrow> p \<in> live w \<Longrightarrow> po_flush ops p w = Some w' \<Longrightarrow> heap w' = heap w"
    and close_law: "inv w \<Longrightarrow> msg_close m (heap w) = Some (0, m', h) \<Longrightarrow> \<exists>w'. po_close ops m w = Some w' \<and> inv w'
      \<and> live w' = live w \<and> sent w' = sent w \<and> half w' = half w \<and> writable w' = writable w \<and> heap w' = h"
    and add_refs_law: "inv w \<Longrightarrow> add_refs k m (heap w) = Some (m', h) \<Longrightarrow> \<exists>w'. po_add_refs ops k m w = Some (m', w') \<and> inv w'
      \<and> live w' = live w \<and> sent w' = sent w \<and> half w' = half w \<and> writable w' = writable w \<and> heap w' = h"
    and rm_refs_law: "inv w \<Longrightarrow> rm_refs k m (heap w) = Some (b, m', h) \<Longrightarrow> \<exists>w'. po_rm_refs ops k m w = Some w' \<and> inv w'
      \<and> live w' = live w \<and> sent w' = sent w \<and> half w' = half w \<and> writable w' = writable w \<and> heap w' = h"

definition dist_ok :: "('w \<Rightarrow> nat set) \<Rightarrow> dist \<Rightarrow> 'w \<Rightarrow> bool" where
  "dist_ok live d w \<longleftrightarrow> dist_shape d \<and> set (di_pipes d) \<subseteq> live w"

text \<open>The pipes that took a part: what is passed on to their readers and what is still held back.\<close>

definition took :: "msg \<Rightarrow> nat set \<Rightarrow> (nat \<Rightarrow> msg list) \<times> (nat \<Rightarrow> msg list) \<Rightarrow> (nat \<Rightarrow> msg list) \<times> (nat \<Rightarrow> msg list)" where
  "took m R sh =
     (\<lambda>p. if p \<in> R \<and> \<not> has_more m then fst sh p @ snd sh p @ [m] else fst sh p,
      \<lambda>p. if p \<in> R then (if has_more m then snd sh p @ [m] else []) else snd sh p)"

lemma took_empty [simp]: "took m {} sh = sh"
  by (simp add: took_def)

lemma took_insert: "p \<notin> R \<Longrightarrow> took m (insert p R) sh = took m R (took m {p} sh)"
  by (auto simp: took_def fun_eq_iff)

definition dist_without :: "nat set \<Rightarrow> dist \<Rightarrow> dist \<Rightarrow> bool" where
  "dist_without B d d' \<longleftrightarrow> dist_shape d' \<and> set (di_pipes d') = set (di_pipes d) \<and> di_more d' = di_more d
     \<and> matching d' = matching d - B \<and> actives d' = actives d - B \<and> eligibles d' = eligibles d - B"

lemma dist_without_trans: "dist_without B d d1 \<Longrightarrow> dist_without C d1 d2 \<Longrightarrow> dist_without (B \<union> C) d d2"
  by (auto simp: dist_without_def)

lemma set_drop_distinct: "distinct xs \<Longrightarrow> set (drop i xs) = set xs - set (take i xs)"
proof -
  assume "distinct xs"
  then have "set (take i xs) \<inter> set (drop i xs) = {}" by (simp add: set_take_disj_set_drop_if_distinct)
  moreover have "set (take i xs) \<union> set (drop i xs) = set xs" by (metis append_take_drop_id set_append)
  ultimately show ?thesis by blast
qed

context shared_sink
begin

lemma dist_write_spec:
  assumes "inv w" "dist_ok live d w" "i < di_matching d"
  defines "p \<equiv> di_pipes d ! i"
  shows "\<exists>w'. dist_write ops p m d w = Some (writable w p, if writable w p then d else dist_drop p d, w') \<and> inv w'
    \<and> live w' = live w \<and> heap w' = heap w \<and> (sent w', half w') = took m (if writable w p then {p} else {}) (sent w, half w)
    \<and> (\<forall>r. r \<noteq> p \<longrightarrow> writable w' r = writable w r) \<and> (writable w p \<longrightarrow> has_more m \<longrightarrow> writable w' p)"
proof -
  have "i < length (di_pipes d)" using assms(2,3) by (auto simp: dist_ok_def dist_shape_def)
  then have p: "p \<in> live w" using assms(2) by (auto simp: p_def dist_ok_def)
  obtain w1 where w1: "po_write ops p m w = Some (writable w p, w1)" "inv w1" "live w1 = live w" "sent w1 = sent w"
    "half w1 = (if writable w p then (half w)(p := half w p @ [m]) else half w)" "\<forall>r. r \<noteq> p \<longrightarrow> writable w1 r = writable w r"
    "writable w p \<longrightarrow> has_more m \<longrightarrow> writable w1 p"
    using write_law [OF assms(1) p, of m] by blast
  have h1: "heap w1 = heap w" using write_heap [OF assms(1) p w1(1)] .
  consider "\<not> writable w p" | "writable w p" "has_more m" | "writable w p" "\<not> has_more m" by blast
  then show ?thesis
  proof cases
    case 1
    with w1 h1 show ?thesis by (intro exI [of _ w1]) (simp add: dist_write_def dist_drop_def Let_def)
  next
    case 2
    with w1 h1 show ?thesis by (intro exI [of _ w1]) (auto simp: dist_write_def took_def)
  next
    case 3
    then have "half w1 p = half w p @ [m]" using w1(5) by simp
    from flush_law [OF w1(2) _ this 3(2)] obtain w2 where w2: "po_flush ops p w1 = Some w2" "inv w2" "live w2 = live w1"
      "sent w2 = (sent w1)(p := sent w1 p @ half w1 p)" "half w2 = (half w1)(p := [])" "writable w2 = writable w1"
      using p w1(3) by auto
    have "heap w2 = heap w1" using flush_heap [OF w1(2) _ w2(1)] p w1(3) by simp
    with 3 w1 w2 h1 show ?thesis by (intro exI [of _ w2]) (auto simp: dist_write_def took_def fun_eq_iff)
  qed
qed

lemma dist_loop_spec:
  assumes "inv w" "dist_ok live d w" "i \<le> di_matching d"
  defines "S \<equiv> set (drop i (take (di_matching d) (di_pipes d)))"
  shows "\<exists>d' w'. dist_loop ops m i k d w = Some (k + int (card {p \<in> S. \<not> writable w p}), d', w') \<and> inv w' \<and> live w' = live w
    \<and> heap w' = heap w \<and> dist_without {p \<in> S. \<not> writable w p} d d' \<and> (sent w', half w') = took m {p \<in> S. writable w p} (sent w, half w)
    \<and> (has_more m \<longrightarrow> (\<forall>p \<in> S. writable w p \<longrightarrow> writable w' p)) \<and> (\<forall>p. p \<notin> S \<longrightarrow> writable w' p = writable w p)"
  unfolding S_def using assms(1-3)
proof (induction "di_matching d - i" arbitrary: i k d w)
  case 0
  then have i: "i = di_matching d" "\<not> i < di_matching d" "drop i (take (di_matching d) (di_pipes d)) = []" by (auto simp: dist_ok_def dist_shape_def)
  then have "dist_loop ops m i k d w = Some (k, d, w)" by (subst dist_loop.simps) simp
  with 0 show ?case unfolding i(3) by (simp add: dist_ok_def dist_without_def)
next
  case (Suc n)
  define p where "p = di_pipes d ! i"
  have i: "i < di_matching d" "i < length (di_pipes d)" "di_matching d \<le> length (di_pipes d)" "distinct (di_pipes d)"
    using Suc.hyps(2) Suc.prems(2) by (auto simp: dist_ok_def dist_shape_def)
  let ?S = "set (drop i (take (di_matching d) (di_pipes d)))" and ?T = "set (drop (Suc i) (take (di_matching d) (di_pipes d)))"
  have S: "?S = insert p ?T" "p \<notin> ?T"
  proof -
    have "drop i (take (di_matching d) (di_pipes d)) = p # drop (Suc i) (take (di_matching d) (di_pipes d))"
      using i by (simp add: p_def Cons_nth_drop_Suc [symmetric])
    moreover have "distinct (drop i (take (di_matching d) (di_pipes d)))" using i by simp
    ultimately show "?S = insert p ?T" "p \<notin> ?T" by simp_all
  qed
  have fin: "finite ?T" by simp
  obtain w1 where w1: "dist_write ops p m d w = Some (writable w p, if writable w p then d else dist_drop p d, w1)" "inv w1" "live w1 = live w"
    "heap w1 = heap w" "(sent w1, half w1) = took m (if writable w p then {p} else {}) (sent w, half w)"
    "\<forall>r. r \<noteq> p \<longrightarrow> writable w1 r = writable w r" "writable w p \<longrightarrow> has_more m \<longrightarrow> writable w1 p"
    using dist_write_spec [OF Suc.prems(1,2) i(1)] unfolding p_def by blast
  have get: "tab_get (di_pipes d) i = Some p" using i by (simp add: p_def)
  have wT: "{r \<in> ?T. writable w1 r} = {r \<in> ?T. writable w r}" "{r \<in> ?T. \<not> writable w1 r} = {r \<in> ?T. \<not> writable w r}" using w1(6) S(2) by auto
  show ?case
  proof (cases "writable w p")
    case True
    have sets: "{r \<in> ?S. writable w r} = insert p {r \<in> ?T. writable w r}" "{r \<in> ?S. \<not> writable w r} = {r \<in> ?T. \<not> writable w r}"
      using True S by auto
    have run: "dist_loop ops m i k d w = dist_loop ops m (Suc i) k d w1"
      using i(1) get w1(1) True by (subst dist_loop.simps) simp
    have ok: "dist_ok live d w1" "n = di_matching d - Suc i" "Suc i \<le> di_matching d"
      using Suc.prems(2) w1(3) Suc.hyps(2) i(1) by (auto simp: dist_ok_def)
    obtain d' w' where IH: "dist_loop ops m (Suc i) k d w1 = Some (k + int (card {p \<in> ?T. \<not> writable w1 p}), d', w')" "inv w'" "live w' = live w1"
      "heap w' = heap w1" "dist_without {p \<in> ?T. \<not> writable w1 p} d d'" "(sent w', half w') = took m {p \<in> ?T. writable w1 p} (sent w1, half w1)"
      "has_more m \<longrightarrow> (\<forall>p \<in> ?T. writable w1 p \<longrightarrow> writable w' p)" "\<forall>p. p \<notin> ?T \<longrightarrow> writable w' p = writable w1 p"
      using Suc.hyps(1) [OF ok(2) w1(2) ok(1,3), of k] by blast
    have tk: "(sent w', half w') = took m {r \<in> ?S. writable w r} (sent w, half w)"
      using IH(6) w1(5) True S(2) unfolding sets(1) wT by (subst took_insert) auto
    show ?thesis unfolding run sets(2)
      by (intro exI [of _ d'] exI [of _ w'] conjI) (use IH w1 True S wT tk in auto)
  next
    case False
    let ?d1 = "dist_drop p d"
    note dd = dist_drop_spec [OF _ i(1), folded p_def]
    have sh: "dist_shape d" using Suc.prems(2) by (simp add: dist_ok_def)
    note dd = dd [OF sh]
    have sets: "{r \<in> ?S. writable w r} = {r \<in> ?T. writable w r}" "{r \<in> ?S. \<not> writable w r} = insert p {r \<in> ?T. \<not> writable w r}"
      using False S by auto
    have run: "dist_loop ops m i k d w = dist_loop ops m i (k + 1) ?d1 w1"
      using i(1) get w1(1) False by (subst dist_loop.simps) simp
    have ok: "dist_ok live ?d1 w1" "n = di_matching ?d1 - i" "i \<le> di_matching ?d1"
      using Suc.prems(2) w1(3) Suc.hyps(2) i(1) dd by (auto simp: dist_ok_def)
    have T1: "set (drop i (take (di_matching ?d1) (di_pipes ?d1))) = ?T"
    proof -
      have "take i (take (di_matching ?d1) (di_pipes ?d1)) = take i (di_pipes d)" using dd(6) ok(3) by (simp add: min_absorb1)
      moreover have "take (Suc i) (take (di_matching d) (di_pipes d)) = take i (di_pipes d) @ [p]"
        using i by (simp add: min_absorb1 take_Suc_conv_app_nth p_def)
      moreover have "set (take (di_matching ?d1) (di_pipes ?d1)) = set (take (di_matching d) (di_pipes d)) - {p}" using dd(2) by (simp add: front_def)
      moreover have "distinct (take (di_matching ?d1) (di_pipes ?d1))" "distinct (take (di_matching d) (di_pipes d))" using dd(1) i by (auto simp: dist_shape_def)
      ultimately show ?thesis by (simp add: set_drop_distinct) blast
    qed
    obtain d' w' where IH: "dist_loop ops m i (k + 1) ?d1 w1 = Some (k + 1 + int (card {p \<in> ?T. \<not> writable w1 p}), d', w')" "inv w'" "live w' = live w1"
      "heap w' = heap w1" "dist_without {p \<in> ?T. \<not> writable w1 p} ?d1 d'" "(sent w', half w') = took m {p \<in> ?T. writable w1 p} (sent w1, half w1)"
      "has_more m \<longrightarrow> (\<forall>p \<in> ?T. writable w1 p \<longrightarrow> writable w' p)" "\<forall>p. p \<notin> ?T \<longrightarrow> writable w' p = writable w1 p"
      using Suc.hyps(1) [OF ok(2) w1(2) ok(1,3), of "k + 1", unfolded T1] by blast
    have wo: "dist_without (insert p {r \<in> ?T. \<not> writable w r}) d d'"
      using dist_without_trans [of "{p}" d ?d1, OF _ IH(5)] dd wT by (simp add: dist_without_def)
    have cd: "card (insert p {r \<in> ?T. \<not> writable w r}) = Suc (card {r \<in> ?T. \<not> writable w r})" using S(2) by simp
    show ?thesis unfolding run sets
      by (intro exI [of _ d'] exI [of _ w'] conjI) (use IH w1 False S wT wo cd in auto)
  qed
qed

lemma distribute_spec:
  assumes "inv w" "dist_ok live d w" "refs_ok (m # ms) (heap w)" "msg_check m" "length ms + di_matching d < 2 ^ 32"
  defines "R \<equiv> {p \<in> matching d. writable w p}"
  shows "\<exists>m' d' w'. distribute ops m d w = Some (d', w') \<and> inv w' \<and> live w' = live w \<and> same_part m m'
    \<and> dist_without {p \<in> matching d. \<not> writable w p} d d' \<and> (sent w', half w') = took m' R (sent w, half w)
    \<and> (has_more m \<longrightarrow> (\<forall>p \<in> R. writable w' p)) \<and> refs_ok (replicate (card R) m' @ ms) (heap w')"
proof -
  let ?B = "{p \<in> matching d. \<not> writable w p}"
  have sh: "dist_shape d" using assms(2) by (simp add: dist_ok_def)
  have S: "set (drop 0 (take (di_matching d) (di_pipes d))) = matching d" by (simp add: front_def)
  have "card (matching d) = di_matching d" using sh by (simp add: front_def distinct_card dist_shape_def)
  moreover have "matching d = R \<union> ?B" "R \<inter> ?B = {}" by (auto simp: R_def)
  moreover have "finite (matching d)" by (simp add: front_def)
  ultimately have cd: "card R + card ?B = di_matching d" by (metis card_Un_disjoint finite_Un)
  have plain: "plain m" using assms(3) by (simp add: refs_ok_def)
  have refl: "same_part m m" by (simp add: same_part_def)
  consider "di_matching d = 0" | "di_matching d \<noteq> 0" "is_vsm m" | "di_matching d \<noteq> 0" "\<not> is_vsm m" by blast
  then show ?thesis
  proof cases
    case 1
    obtain m' h where c: "msg_close m (heap w) = Some (0, m', h)" "m_body m' = Closed" "refs_ok (m' # ms) h"
      using msg_close_refs [OF assms(3), of 0] assms(4) by auto
    obtain w' where w': "po_close ops m w = Some w'" "inv w'" "live w' = live w" "sent w' = sent w" "half w' = half w" "writable w' = writable w" "heap w' = h"
      using close_law [OF assms(1) c(1)] by blast
    have E: "R = {}" "?B = {}" using 1 by (auto simp: R_def)
    have "refs_ok ms h" using refs_ok_no_content [of 1 m' ms h 0] c(2,3) by (simp add: refs_ok_def)
    with 1 w' sh refl show ?thesis unfolding E
      by (intro exI [of _ m] exI [of _ d] exI [of _ w']) (simp add: distribute_def dist_without_def)
  next
    case 2
    obtain d' w' where l: "dist_loop ops m 0 0 d w = Some (0 + int (card ?B), d', w')" "inv w'" "live w' = live w" "heap w' = heap w"
      "dist_without ?B d d'" "(sent w', half w') = took m R (sent w, half w)" "has_more m \<longrightarrow> (\<forall>p \<in> R. writable w' p)"
      using dist_loop_spec [OF assms(1,2), of 0 m 0, unfolded S] unfolding R_def by auto
    have "refs_ok (replicate (card R) m @ ms) (heap w)"
      using refs_ok_no_content [of 1 m ms "heap w" "card R"] assms(3) plain 2(2) by (auto simp: is_vsm_def split: mbody.splits)
    with 2 l refl show ?thesis by (intro exI [of _ m] exI [of _ d'] exI [of _ w']) (simp add: distribute_def)
  next
    case 3
    obtain m' h where a: "add_refs (int (di_matching d) - 1) m (heap w) = Some (m', h)" "same_part m m'" "refs_ok (replicate (di_matching d) m' @ ms) h"
      using add_refs_spec [OF assms(3), of "di_matching d"] 3(1) assms(5) by auto
    obtain w1 where w1: "po_add_refs ops (int (di_matching d) - 1) m w = Some (m', w1)" "inv w1" "live w1 = live w" "sent w1 = sent w" "half w1 = half w"
      "writable w1 = writable w" "heap w1 = h"
      using add_refs_law [OF assms(1) a(1)] by blast
    have ok1: "dist_ok live d w1" using assms(2) w1(3) by (simp add: dist_ok_def)
    have mm: "has_more m' = has_more m" "msg_check m'" using a(2) assms(4) by (auto simp: same_part_def msg_check_def)
    obtain d' w' where l: "dist_loop ops m' 0 0 d w1 = Some (0 + int (card ?B), d', w')" "inv w'" "live w' = live w" "heap w' = h"
      "dist_without ?B d d'" "(sent w', half w') = took m' R (sent w, half w)" "has_more m' \<longrightarrow> (\<forall>p \<in> R. writable w' p)"
      using dist_loop_spec [OF w1(2) ok1, of 0 m' 0, unfolded S] w1 unfolding R_def by auto
    show ?thesis
    proof (cases "card ?B = 0")
      case True
      then have "card R = di_matching d" using cd by simp
      with 3 a w1(1) l mm True show ?thesis by (intro exI [of _ m'] exI [of _ d'] exI [of _ w']) (simp add: distribute_def)
    next
      case False
      have "refs_ok (replicate (card R + card ?B) m' @ ms) (heap w')" using a(3) l(4) cd by simp
      from rm_refs_spec [OF this _ mm(2)] obtain b m'' h' where r: "rm_refs (int (card ?B)) m' (heap w') = Some (b, m'', h')"
        "refs_ok (replicate (card R) m' @ ms) h'"
        using False assms(5) cd by auto
      obtain w2 where w2: "po_rm_refs ops (int (card ?B)) m' w' = Some w2" "inv w2" "live w2 = live w'" "sent w2 = sent w'" "half w2 = half w'"
        "writable w2 = writable w'" "heap w2 = h'"
        using rm_refs_law [OF l(2) r(1)] by blast
      with 3 a w1(1) l mm False r show ?thesis
        by (intro exI [of _ m'] exI [of _ d'] exI [of _ w2]) (simp add: distribute_def)
    qed
  qed
qed

end

text \<open>Sending the parts of a message.\<close>

fun dist_sends :: "'w pipe_ops \<Rightarrow> msg list \<Rightarrow> dist \<Rightarrow> 'w \<Rightarrow> (dist \<times> 'w) option" where
  "dist_sends ops [] d w = Some (d, w)"
| "dist_sends ops (m # ms) d w = do { (d1, w1) \<leftarrow> send_to_matching ops m d w; dist_sends ops ms d1 w1 }"

definition copies :: "nat \<Rightarrow> msg list \<Rightarrow> msg list" where
  "copies k ms = concat (map (replicate k) ms)"

lemma copies_simps [simp]: "copies k [] = []" "copies k (m # ms) = replicate k m @ copies k ms"
  by (simp_all add: copies_def)

context shared_sink
begin

lemma send_to_matching_spec:
  assumes "inv w" "dist_ok live d w" "refs_ok (m # ms) (heap w)" "msg_check m" "length ms + di_matching d < 2 ^ 32"
  defines "R \<equiv> {p \<in> matching d. writable w p}"
  shows "\<exists>m' d' w'. send_to_matching ops m d w = Some (d', w') \<and> inv w' \<and> live w' = live w \<and> same_part m m' \<and> dist_ok live d' w'
    \<and> di_more d' = has_more m \<and> matching d' = R
    \<and> (if has_more m then actives d' = actives d - (matching d - R) else actives d' = eligibles d - (matching d - R))
    \<and> eligibles d' = eligibles d - (matching d - R) \<and> (sent w', half w') = took m' R (sent w, half w)
    \<and> (has_more m \<longrightarrow> (\<forall>p \<in> R. writable w' p)) \<and> refs_ok (replicate (card R) m' @ ms) (heap w')"
proof -
  have B: "{p \<in> matching d. \<not> writable w p} = matching d - R" "R = matching d - (matching d - R)" by (auto simp: R_def)
  obtain m' d1 w' where r: "distribute ops m d w = Some (d1, w')" "inv w'" "live w' = live w" "same_part m m'"
    "dist_without (matching d - R) d d1" "(sent w', half w') = took m' R (sent w, half w)"
    "has_more m \<longrightarrow> (\<forall>p \<in> R. writable w' p)" "refs_ok (replicate (card R) m' @ ms) (heap w')"
    using distribute_spec [OF assms(1-5)] unfolding B(1) R_def [symmetric] by blast
  define d' where "d' = (if \<not> has_more m then d1\<lparr>di_active := di_eligible d1\<rparr> else d1)\<lparr>di_more := has_more m\<rparr>"
  have "send_to_matching ops m d w = Some (d', w')" using r(1) by (simp add: send_to_matching_def d'_def)
  moreover have "dist_ok live d' w'" using r(3,5) assms(2) by (auto simp: dist_ok_def dist_without_def dist_shape_def d'_def)
  moreover have "di_more d' = has_more m" "matching d' = R" "eligibles d' = eligibles d - (matching d - R)"
    "if has_more m then actives d' = actives d - (matching d - R) else actives d' = eligibles d - (matching d - R)"
    using r(5) B(2) by (auto simp: dist_without_def d'_def)
  ultimately show ?thesis using r(2-4,6-8) by blast
qed

lemma took_more: "has_more m \<Longrightarrow> took m R (s, h) = (s, \<lambda>p. if p \<in> R then h p @ [m] else h p)"
  and took_last: "\<not> has_more m \<Longrightarrow> took m R (s, h) = (\<lambda>p. if p \<in> R then s p @ h p @ [m] else s p, \<lambda>p. if p \<in> R then [] else h p)"
  by (auto simp: took_def fun_eq_iff)

lemma same_part_more: "same_part m m' \<Longrightarrow> has_more m' = has_more m"
  by (auto simp: same_part_def)

lemma dist_sends_rest:
  assumes "inv w" "dist_ok live d w" "\<forall>p \<in> matching d. writable w p" "\<forall>m \<in> set ms. has_more m" "\<not> has_more m"
    and "\<forall>x \<in> set (ms @ [m]). msg_check x" "refs_ok (ms @ [m] @ others) (heap w)"
    and "length others + (length ms + 1) * (di_matching d + 1) < 2 ^ 32"
  shows "\<exists>ms' d' w'. dist_sends ops (ms @ [m]) d w = Some (d', w') \<and> inv w' \<and> live w' = live w \<and> list_all2 same_part (ms @ [m]) ms'
    \<and> dist_ok live d' w' \<and> \<not> di_more d' \<and> actives d' = eligibles d
    \<and> sent w' = (\<lambda>p. if p \<in> matching d then sent w p @ half w p @ ms' else sent w p)
    \<and> half w' = (\<lambda>p. if p \<in> matching d then [] else half w p) \<and> refs_ok (copies (card (matching d)) ms' @ others) (heap w')"
  using assms
proof (induction ms arbitrary: d w others)
  case Nil
  have R: "{p \<in> matching d. writable w p} = matching d" using Nil.prems(3) by auto
  obtain m' d' w' where r: "send_to_matching ops m d w = Some (d', w')" "inv w'" "live w' = live w" "same_part m m'" "dist_ok live d' w'"
    "di_more d' = has_more m" "if has_more m then actives d' = actives d - (matching d - matching d) else actives d' = eligibles d - (matching d - matching d)"
    "(sent w', half w') = took m' (matching d) (sent w, half w)" "refs_ok (replicate (card (matching d)) m' @ others) (heap w')"
    using send_to_matching_spec [OF Nil.prems(1,2), of m others, unfolded R] Nil.prems(6-8) by auto
  have "\<not> has_more m'" using r(4) Nil.prems(5) same_part_more by blast
  with r Nil.prems(5) show ?case by (intro exI [of _ "[m']"] exI [of _ d'] exI [of _ w']) (simp add: took_last)
next
  case (Cons x xs)
  have R: "{p \<in> matching d. writable w p} = matching d" using Cons.prems(3) by auto
  have len: "length (xs @ [m] @ others) + di_matching d < 2 ^ 32" using Cons.prems(8) by (simp add: algebra_simps)
  have x: "has_more x" "msg_check x" "refs_ok (x # xs @ [m] @ others) (heap w)" using Cons.prems(4,6,7) by simp_all
  obtain x' d1 w1 where r: "send_to_matching ops x d w = Some (d1, w1)" "inv w1" "live w1 = live w" "same_part x x'" "dist_ok live d1 w1"
    "matching d1 = matching d" "eligibles d1 = eligibles d - (matching d - matching d)"
    "(sent w1, half w1) = took x' (matching d) (sent w, half w)" "\<forall>p \<in> matching d. writable w1 p"
    "refs_ok (replicate (card (matching d)) x' @ xs @ [m] @ others) (heap w1)"
    using send_to_matching_spec [OF Cons.prems(1,2) x(3,2) len, unfolded R] x(1) by auto
  have x': "has_more x'" using r(4) x(1) same_part_more by blast
  have sh: "dist_shape d" "dist_shape d1" using Cons.prems(2) r(5) by (auto simp: dist_ok_def)
  have cd: "card (matching d) = di_matching d" "card (matching d1) = di_matching d1" using sh by (auto simp: front_def distinct_card dist_shape_def)
  let ?others = "replicate (card (matching d)) x' @ others"
  have refs: "refs_ok (xs @ [m] @ ?others) (heap w1)" using r(10) by (subst refs_ok_cong [where ys = "replicate (card (matching d)) x' @ xs @ [m] @ others"]) auto
  have len1: "length ?others + (length xs + 1) * (di_matching d1 + 1) < 2 ^ 32" using Cons.prems(8) cd r(6) by (simp add: algebra_simps)
  obtain ms' d' w' where IH: "dist_sends ops (xs @ [m]) d1 w1 = Some (d', w')" "inv w'" "live w' = live w1" "list_all2 same_part (xs @ [m]) ms'"
    "dist_ok live d' w'" "\<not> di_more d'" "actives d' = eligibles d1"
    "sent w' = (\<lambda>p. if p \<in> matching d1 then sent w1 p @ half w1 p @ ms' else sent w1 p)"
    "half w' = (\<lambda>p. if p \<in> matching d1 then [] else half w1 p)" "refs_ok (copies (card (matching d1)) ms' @ ?others) (heap w')"
    using Cons.IH [OF r(2,5) _ _ Cons.prems(5) _ refs len1] r(6,9) Cons.prems(4,6) by auto
  have "refs_ok (copies (card (matching d)) (x' # ms') @ others) (heap w')"
    using IH(10) r(6) by (subst refs_ok_cong [where ys = "copies (card (matching d1)) ms' @ ?others"]) auto
  with IH r x' show ?case by (intro exI [of _ "x' # ms'"] exI [of _ d'] exI [of _ w']) (auto simp: took_more fun_eq_iff)
qed

lemma dist_sends_message:
  assumes "inv w" "dist_ok live d w" "\<not> di_more d" "half w = (\<lambda>_. [])" "\<forall>m \<in> set ms. has_more m" "\<not> has_more m"
    and "\<forall>x \<in> set (ms @ [m]). msg_check x" "refs_ok (ms @ [m] @ others) (heap w)"
    and "length others + (length ms + 1) * (di_matching d + 1) < 2 ^ 32"
  defines "R \<equiv> {p \<in> matching d. writable w p}"
  shows "\<exists>ms' d' w'. dist_sends ops (ms @ [m]) d w = Some (d', w') \<and> list_all2 same_part (ms @ [m]) ms'
    \<and> half w' = (\<lambda>_. []) \<and> sent w' = (\<lambda>p. sent w p @ (if p \<in> R then ms' else []))
    \<and> refs_ok (copies (card R) ms' @ others) (heap w')
    \<and> dist_ok live d' w' \<and> \<not> di_more d' \<and> actives d' = actives d - (matching d - R)"
proof (cases ms)
  case Nil
  obtain m' d' w' where r: "send_to_matching ops m d w = Some (d', w')" "same_part m m'" "dist_ok live d' w'"
    "di_more d' = has_more m" "if has_more m then actives d' = actives d - (matching d - R) else actives d' = eligibles d - (matching d - R)"
    "(sent w', half w') = took m' R (sent w, half w)" "refs_ok (replicate (card R) m' @ others) (heap w')"
    using send_to_matching_spec [OF assms(1,2), of m others] assms(7-9) Nil unfolding R_def by auto
  have "\<not> has_more m'" using r(2) assms(6) same_part_more by blast
  moreover have "actives d = eligibles d" using assms(2,3) by (auto simp: dist_ok_def dist_shape_def)
  ultimately show ?thesis using r assms(4,6) Nil by (intro exI [of _ "[m']"] exI [of _ d'] exI [of _ w']) (auto simp: took_last fun_eq_iff)
next
  case (Cons x xs)
  have len: "length (xs @ [m] @ others) + di_matching d < 2 ^ 32" using assms(9) by (simp add: Cons algebra_simps)
  have x: "has_more x" "msg_check x" "refs_ok (x # xs @ [m] @ others) (heap w)" using assms(5,7,8) by (simp_all add: Cons)
  obtain x' d1 w1 where r: "send_to_matching ops x d w = Some (d1, w1)" "inv w1" "live w1 = live w" "same_part x x'" "dist_ok live d1 w1"
    "matching d1 = R" "eligibles d1 = eligibles d - (matching d - R)"
    "(sent w1, half w1) = took x' R (sent w, half w)" "\<forall>p \<in> R. writable w1 p"
    "refs_ok (replicate (card R) x' @ xs @ [m] @ others) (heap w1)"
    using send_to_matching_spec [OF assms(1,2) x(3,2) len] x(1) unfolding R_def [symmetric] by auto
  have x': "has_more x'" using r(4) x(1) same_part_more by blast
  have sh: "dist_shape d" "dist_shape d1" using assms(2) r(5) by (auto simp: dist_ok_def)
  have cd: "card (matching d) = di_matching d" "card (matching d1) = di_matching d1" using sh by (auto simp: front_def distinct_card dist_shape_def)
  have "card R \<le> card (matching d)" by (intro card_mono) (auto simp: R_def front_def)
  then have le: "card R = di_matching d1" "di_matching d1 \<le> di_matching d" using cd r(6) by simp_all
  let ?others = "replicate (card R) x' @ others"
  have refs: "refs_ok (xs @ [m] @ ?others) (heap w1)" using r(10) by (subst refs_ok_cong [where ys = "replicate (card R) x' @ xs @ [m] @ others"]) auto
  have len1: "length ?others + (length xs + 1) * (di_matching d1 + 1) < 2 ^ 32"
  proof -
    have "(length xs + 1) * (di_matching d1 + 1) \<le> (length xs + 1) * (di_matching d + 1)" using le(2) by (intro mult_le_mono) auto
    then show ?thesis using assms(9) le by (simp add: Cons algebra_simps)
  qed
  obtain ms' d' w' where IH: "dist_sends ops (xs @ [m]) d1 w1 = Some (d', w')" "inv w'" "live w' = live w1" "list_all2 same_part (xs @ [m]) ms'"
    "dist_ok live d' w'" "\<not> di_more d'" "actives d' = eligibles d1"
    "sent w' = (\<lambda>p. if p \<in> matching d1 then sent w1 p @ half w1 p @ ms' else sent w1 p)"
    "half w' = (\<lambda>p. if p \<in> matching d1 then [] else half w1 p)" "refs_ok (copies (card (matching d1)) ms' @ ?others) (heap w')"
    using dist_sends_rest [OF r(2,5) _ _ assms(6) _ refs len1] r(6,9) assms(5,7) Cons by auto
  have "refs_ok (copies (card R) (x' # ms') @ others) (heap w')"
    using IH(10) r(6) by (subst refs_ok_cong [where ys = "copies (card (matching d1)) ms' @ ?others"]) auto
  moreover have "actives d = eligibles d" using assms(2,3) by (auto simp: dist_ok_def dist_shape_def)
  ultimately show ?thesis using IH r x' assms(4)
    by (intro exI [of _ "x' # ms'"] exI [of _ d'] exI [of _ w']) (auto simp: Cons took_more fun_eq_iff)
qed

end

subsection \<open>The pipe ends of a socket share one heap\<close>

definition net_heap :: "net \<Rightarrow> msg_heap" where
  "net_heap n = pw_heap (n_world n)"

definition with_heap :: "msg_heap \<Rightarrow> net \<Rightarrow> net" where
  "with_heap h n = n\<lparr>n_world := (n_world n)\<lparr>pw_heap := h\<rparr>\<rparr>"

lemma with_heap_same [simp]:
  "net_out_inv (with_heap h n) = net_out_inv n" "net_live (with_heap h n) = net_live n" "net_sent (with_heap h n) = net_sent n"
  "net_half (with_heap h n) = net_half n" "net_writable (with_heap h n) = net_writable n" "net_heap (with_heap h n) = h"
  by (simp_all add: with_heap_def net_out_inv_def out_ok_def net_live_def net_sent_def net_half_def net_writable_def on_end_def end_sent_def
      end_half_def net_heap_def fun_eq_iff cong: option.case_cong)

lemma pipe_write_heap: "out_ok e w \<Longrightarrow> pipe_write m e w = Some (b, e', w') \<Longrightarrow> pw_heap w' = pw_heap w"
  by (auto simp: pipe_write_def up_write_at_def out_ok_def check_write_def put_up_def Let_def bind_eq_Some_conv
      split: if_splits option.splits prod.splits)

lemma pipe_flush_heap: "pipe_flush e w = Some w' \<Longrightarrow> pw_heap w' = pw_heap w"
  by (auto simp: pipe_flush_def put_up_def send_cmd_def Let_def bind_eq_Some_conv case_prod_beta split: if_splits option.splits)

interpretation pipe_share: shared_sink net_ops net_out_inv net_live net_writable net_sent net_half net_heap
proof unfold_locales
  fix n p m b n' assume inv: "net_out_inv n" and live: "p \<in> net_live n"
  then obtain e where e: "n_pipes n p = Some e" "out_ok e (n_world n)" by (auto simp: net_live_def net_out_inv_def)
  show "net_heap n' = net_heap n" if "po_write net_ops p m n = Some (b, n')"
    using that e(1) pipe_write_heap [OF e(2)] by (auto simp: net_ops_def on_pipe_def net_heap_def bind_eq_Some_conv)
  show "net_heap n' = net_heap n" if "po_flush net_ops p n = Some n'"
    using that e(1) pipe_flush_heap by (auto simp: net_ops_def on_pipe_def net_heap_def bind_eq_Some_conv)
next
  fix n m m' h assume inv: "net_out_inv n" and "msg_close m (net_heap n) = Some (0, m', h)"
  then have "po_close net_ops m n = Some (with_heap h n)" by (simp add: net_ops_def net_close_def net_heap_def with_heap_def)
  with inv show "\<exists>n'. po_close net_ops m n = Some n' \<and> net_out_inv n' \<and> net_live n' = net_live n \<and> net_sent n' = net_sent n
      \<and> net_half n' = net_half n \<and> net_writable n' = net_writable n \<and> net_heap n' = h"
    by (intro exI [of _ "with_heap h n"]) simp
next
  fix n k m m' h assume inv: "net_out_inv n" and "add_refs k m (net_heap n) = Some (m', h)"
  then have "po_add_refs net_ops k m n = Some (m', with_heap h n)" by (simp add: net_ops_def net_heap_def with_heap_def)
  with inv show "\<exists>n'. po_add_refs net_ops k m n = Some (m', n') \<and> net_out_inv n' \<and> net_live n' = net_live n \<and> net_sent n' = net_sent n
      \<and> net_half n' = net_half n \<and> net_writable n' = net_writable n \<and> net_heap n' = h"
    by (intro exI [of _ "with_heap h n"]) simp
next
  fix n k m b m' h assume inv: "net_out_inv n" and "rm_refs k m (net_heap n) = Some (b, m', h)"
  then have "po_rm_refs net_ops k m n = Some (with_heap h n)" by (simp add: net_ops_def net_heap_def with_heap_def)
  with inv show "\<exists>n'. po_rm_refs net_ops k m n = Some n' \<and> net_out_inv n' \<and> net_live n' = net_live n \<and> net_sent n' = net_sent n
      \<and> net_half n' = net_half n \<and> net_writable n' = net_writable n \<and> net_heap n' = h"
    by (intro exI [of _ "with_heap h n"]) simp
qed

text \<open>C23: publishing. A message of any number of parts goes whole, in order and once to each of the matching pipes that can be written, and to no
  other pipe; the message contents then have exactly as many references as there are copies in pipes (none is left if no pipe took the message); a
  full pipe is moved out of the active ones and the distributor is between messages again.\<close>

theorem dist_publishes:
  assumes "net_out_inv w" "dist_ok net_live d w" "\<not> di_more d" "net_half w = (\<lambda>_. [])" "\<forall>m \<in> set ms. has_more m" "\<not> has_more m"
    and "\<forall>x \<in> set (ms @ [m]). msg_check x" "refs_ok (ms @ [m] @ others) (net_heap w)"
    and "length others + (length ms + 1) * (di_matching d + 1) < 2 ^ 32"
  defines "R \<equiv> {p \<in> matching d. net_writable w p}"
  shows "\<exists>ms' d' w'. dist_sends net_ops (ms @ [m]) d w = Some (d', w') \<and> list_all2 same_part (ms @ [m]) ms'
    \<and> net_half w' = (\<lambda>_. []) \<and> net_sent w' = (\<lambda>p. net_sent w p @ (if p \<in> R then ms' else []))
    \<and> refs_ok (copies (card R) ms' @ others) (net_heap w')
    \<and> dist_ok net_live d' w' \<and> \<not> di_more d' \<and> actives d' = actives d - (matching d - R)"
  using pipe_share.dist_sends_message [OF assms(1-9)] unfolding R_def by blast

definition three_dist :: dist where
  "three_dist = \<lparr>di_pipes = [0, 1, 2], di_matching = 2, di_active = 3, di_eligible = 3, di_more = False\<rparr>"

definition large_msg :: msg where
  "large_msg = fresh_msg (Lmsg 0)"

definition large_heap :: msg_heap where
  "large_heap = \<lparr>h_contents = [0 \<mapsto> new_content [1, 2, 3] 3 None], h_metadata = Map.empty, h_groups = Map.empty, h_freed = [], h_errno = EOK\<rparr>"

theorem dist_publishes_witness:
  "\<exists>ms' d' w'. dist_sends net_ops [part_msg, large_msg] three_dist (with_heap large_heap three_out) = Some (d', w')
     \<and> net_sent w' 1 = ms' \<and> net_sent w' 2 = [] \<and> refs_ok (copies 2 ms') (net_heap w')"
proof -
  let ?w = "with_heap large_heap three_out"
  have "net_out_inv ?w" "dist_ok net_live three_dist ?w" "\<not> di_more three_dist" "net_half ?w = (\<lambda>_. [])" "\<not> has_more large_msg"
    using three_out_ok by (auto simp: dist_ok_def dist_shape_def three_dist_def large_msg_def fresh_msg_def has_flag_def less_Suc_eq numeral_3_eq_3)
  moreover have "\<forall>x \<in> set [part_msg]. has_more x" by simp
  moreover have "\<forall>x \<in> set ([part_msg] @ [large_msg]). msg_check x"
    by (simp_all add: part_msg_def large_msg_def fresh_msg_def msg_check_def msg_init_def set_flags_def)
  moreover have "refs_ok ([part_msg] @ [large_msg] @ []) (net_heap ?w)"
    by (auto simp: refs_ok_def content_ok_def large_heap_def large_msg_def part_msg_def msg_init_def set_flags_def fresh_msg_def plain_def has_flag_def new_content_def)
  moreover have "length [] + (length [part_msg] + 1) * (di_matching three_dist + 1) < 2 ^ 32" by (simp add: three_dist_def)
  ultimately obtain ms' d' w' where r: "dist_sends net_ops ([part_msg] @ [large_msg]) three_dist ?w = Some (d', w')"
    "net_sent w' = (\<lambda>p. net_sent ?w p @ (if p \<in> {p \<in> matching three_dist. net_writable ?w p} then ms' else []))"
    "refs_ok (copies (card {p \<in> matching three_dist. net_writable ?w p}) ms' @ []) (net_heap w')"
    using dist_publishes [of ?w three_dist "[part_msg]" large_msg "[]"] by blast
  have R: "{p \<in> matching three_dist. net_writable ?w p} = {0, 1}" by (auto simp: three_dist_def front_def three_out_ok(5))
  have "net_sent w' 1 = ms'" "net_sent w' 2 = []" unfolding r(2) R by (simp_all add: three_out_ok(4))
  moreover have "refs_ok (copies 2 ms') (net_heap w')" using r(3) unfolding R by (simp add: numeral_2_eq_2)
  moreover have "[part_msg, large_msg] = [part_msg] @ [large_msg]" by simp
  ultimately show ?thesis using r(1) by metis
qed

end
