(* ===== verification/Sockopt.thy ===== *)
theory Sockopt
  imports Prelude
begin

text \<open>
  Option values as the socket options of the library see them (the helper functions of
  options.cpp): a pointer, perhaps null, and a length. The host is taken to store integers with the low
  byte first, with 32 bits in an \<^verbatim>\<open>int\<close>.
\<close>

datatype optval = NullVal nat | Val bytes

fun optvallen :: "optval \<Rightarrow> nat" where
  "optvallen (NullVal n) = n"
| "optvallen (Val b) = length b"

fun le_nat :: "bytes \<Rightarrow> nat" where
  "le_nat [] = 0"
| "le_nat (b # bs) = unat b + 256 * le_nat bs"

fun le_bytes :: "nat \<Rightarrow> nat \<Rightarrow> bytes" where
  "le_bytes 0 v = []"
| "le_bytes (Suc n) v = of_nat v # le_bytes n (v div 256)"

definition int_of_bytes :: "bytes \<Rightarrow> int" where
  "int_of_bytes b = sint (of_nat (le_nat b) :: u32)"

definition bytes_of_int :: "int \<Rightarrow> bytes" where
  "bytes_of_int v = le_bytes 4 (unat (of_int v :: u32))"

lemma length_le_bytes [simp]: "length (le_bytes n v) = n"
  by (induction n arbitrary: v) simp_all

lemma le_nat_bytes: "le_nat (le_bytes n v) = v mod 256 ^ n"
proof (induction n arbitrary: v)
  case (Suc n)
  have "unat (of_nat v :: byte) = v mod 256" by (simp add: unat_of_nat)
  then show ?case using Suc by (simp add: mod_mult2_eq)
qed simp

definition is_int32 :: "int \<Rightarrow> bool" where
  "is_int32 v \<longleftrightarrow> - 2147483648 \<le> v \<and> v < 2147483648"

lemma int_bytes [simp]: "length (bytes_of_int v) = 4" "is_int32 v \<Longrightarrow> int_of_bytes (bytes_of_int v) = v"
proof -
  show "length (bytes_of_int v) = 4" by (simp add: bytes_of_int_def)
  assume v: "is_int32 v"
  have "unat (of_int v :: u32) < 2 ^ 32" using unsigned_less [of "of_int v :: u32", where 'a = nat] by simp
  then have "le_nat (bytes_of_int v) = unat (of_int v :: u32)" by (simp add: bytes_of_int_def le_nat_bytes)
  then have "int_of_bytes (bytes_of_int v) = sint (of_int v :: u32)" by (simp add: int_of_bytes_def)
  also have "\<dots> = v" using v by (simp add: is_int32_def signed_of_int signed_take_bit_int_eq_self_iff)
  finally show "int_of_bytes (bytes_of_int v) = v" .
qed

lemma int_of_bytes_range: "is_int32 (int_of_bytes b)"
  using sint_ge [of "of_nat (le_nat b) :: u32"] sint_lt [of "of_nat (le_nat b) :: u32"] by (simp add: is_int32_def int_of_bytes_def)

text \<open>\<open>do_getsockopt\<close>: the buffer with the value in front and zeros behind, and the new length.\<close>

definition do_getsockopt :: "nat \<Rightarrow> bytes \<Rightarrow> errno + bytes \<times> nat" where
  "do_getsockopt len v = (if len < length v then Inl EINVAL else Inr (v @ replicate (len - length v) 0, length v))"

definition do_getsockopt_string :: "nat \<Rightarrow> bytes \<Rightarrow> errno + bytes \<times> nat" where
  "do_getsockopt_string len s = do_getsockopt len (s @ [0])"

definition do_getsockopt_int :: "nat \<Rightarrow> int \<Rightarrow> errno + bytes \<times> nat" where
  "do_getsockopt_int len v = do_getsockopt len (bytes_of_int v)"

text \<open>The setters return the new value. Copying from a null pointer is undefined.\<close>

definition do_setsockopt :: "nat \<Rightarrow> optval \<Rightarrow> (errno + bytes) option" where
  "do_setsockopt sz v =
     (if optvallen v = sz then (case v of Val b \<Rightarrow> Some (Inr b) | NullVal _ \<Rightarrow> None) else Some (Inl EINVAL))"

definition do_setsockopt_int_as_bool_strict :: "optval \<Rightarrow> (errno + bool) option" where
  "do_setsockopt_int_as_bool_strict v = do {
     r \<leftarrow> do_setsockopt 4 v;
     Some (case r of
        Inl e \<Rightarrow> Inl e
      | Inr b \<Rightarrow> (let n = int_of_bytes b in if n = 0 \<or> n = 1 then Inr (n \<noteq> 0) else Inl EINVAL))
   }"

definition do_setsockopt_int_as_bool_relaxed :: "optval \<Rightarrow> (errno + bool) option" where
  "do_setsockopt_int_as_bool_relaxed v = do {
     r \<leftarrow> do_setsockopt 4 v;
     Some (case r of Inl e \<Rightarrow> Inl e | Inr b \<Rightarrow> Inr (int_of_bytes b \<noteq> 0))
   }"

definition do_setsockopt_string_allow_empty_strict :: "nat option \<Rightarrow> optval \<Rightarrow> errno + bytes" where
  "do_setsockopt_string_allow_empty_strict mx v = (case v of
     NullVal n \<Rightarrow> if n = 0 then Inr [] else Inl EINVAL
   | Val b \<Rightarrow> if length b > 0 \<and> (case mx of None \<Rightarrow> True | Some k \<Rightarrow> length b \<le> k) then Inr b else Inl EINVAL)"

definition do_setsockopt_string_allow_empty_relaxed :: "nat \<Rightarrow> optval \<Rightarrow> (errno + bytes) option" where
  "do_setsockopt_string_allow_empty_relaxed mx v =
     (if optvallen v > 0 \<and> optvallen v \<le> mx then (case v of Val b \<Rightarrow> Some (Inr b) | NullVal _ \<Rightarrow> None)
      else Some (Inl EINVAL))"

text \<open>A set of integers, as the list of the values put in; the reading of the bytes is that of the type.\<close>

definition do_setsockopt_set :: "(bytes \<Rightarrow> int) \<Rightarrow> optval \<Rightarrow> int list \<Rightarrow> errno + int list" where
  "do_setsockopt_set rd v s = (case v of
     NullVal n \<Rightarrow> if n = 0 then Inr [] else Inl EINVAL
   | Val b \<Rightarrow> if length b = 4 then Inr (List.insert (rd b) s) else Inl EINVAL)"

definition uint_of_bytes :: "bytes \<Rightarrow> int" where
  "uint_of_bytes b = int (le_nat b)"

end
