(* ===== verification/Xsub.thy ===== *)
theory Xsub
  imports Fq Dist Trie Sockopt
begin

text \<open>
  The subscriber sockets: \<^verbatim>\<open>xsub_t\<close> (xsub.hpp, xsub.cpp) and \<^verbatim>\<open>sub_t\<close> (sub.hpp, sub.cpp), which put a fair queue, a
  distributor and a subscription trie together. A received message comes with the pipe it was read from.
\<close>

record 'w sock_ops =
  so_pipe :: "'w pipe_ops"
  so_bytes :: "msg \<Rightarrow> 'w \<Rightarrow> bytes option"
  so_init_subscribe :: "bytes \<Rightarrow> 'w \<Rightarrow> (msg \<times> 'w) option"
  so_init_cancel :: "bytes \<Rightarrow> 'w \<Rightarrow> (msg \<times> 'w) option"

record xsub =
  xs_fq :: fq
  xs_dist :: dist
  xs_subscriptions :: trie_with_size
  xs_verbose_unsubs :: bool
  xs_has_message :: bool
  xs_message :: "nat \<times> msg"
  xs_more_send :: bool
  xs_more_recv :: bool
  xs_process_subscribe :: bool
  xs_only_first_subscribe :: bool
  xs_filter :: bool
  xs_invert_matching :: bool

definition xsub_new :: xsub where
  "xsub_new = \<lparr>xs_fq = fq_new, xs_dist = dist_new, xs_subscriptions = tws_new, xs_verbose_unsubs = False, xs_has_message = False,
     xs_message = (0, msg_init), xs_more_send = False, xs_more_recv = False, xs_process_subscribe = False, xs_only_first_subscribe = False,
     xs_filter = False, xs_invert_matching = False\<rparr>"

definition sub_new :: xsub where
  "sub_new = xsub_new\<lparr>xs_filter := True\<rparr>"

text \<open>The subscriptions known, sent to one pipe.\<close>

definition send_subscription :: "'w sock_ops \<Rightarrow> nat \<Rightarrow> bytes \<Rightarrow> 'w \<Rightarrow> 'w option" where
  "send_subscription ops p topic w = do {
     (m, w1) \<leftarrow> so_init_subscribe ops topic w;
     (sent, w2) \<leftarrow> po_write (so_pipe ops) p m w1;
     if \<not> sent then po_close (so_pipe ops) m w2 else Some w2
   }"

fun send_subscriptions :: "'w sock_ops \<Rightarrow> nat \<Rightarrow> bytes list \<Rightarrow> 'w \<Rightarrow> 'w option" where
  "send_subscriptions ops p [] w = Some w"
| "send_subscriptions ops p (t # ts) w = do { w1 \<leftarrow> send_subscription ops p t w; send_subscriptions ops p ts w1 }"

definition xsub_hiccuped :: "'w sock_ops \<Rightarrow> nat \<Rightarrow> xsub \<Rightarrow> 'w \<Rightarrow> 'w option" where
  "xsub_hiccuped ops p s w = do {
     ts \<leftarrow> tws_apply (xs_subscriptions s);
     w1 \<leftarrow> send_subscriptions ops p ts w;
     po_flush (so_pipe ops) p w1
   }"

definition xsub_attach_pipe :: "'w sock_ops \<Rightarrow> nat \<Rightarrow> xsub \<Rightarrow> 'w \<Rightarrow> (xsub \<times> 'w) option" where
  "xsub_attach_pipe ops p s w = do {
     let s1 = s\<lparr>xs_fq := fq_attach p (xs_fq s), xs_dist := dist_attach p (xs_dist s)\<rparr>;
     ts \<leftarrow> tws_apply (xs_subscriptions s1);
     w1 \<leftarrow> send_subscriptions ops p ts w;
     w2 \<leftarrow> po_flush (so_pipe ops) p w1;
     Some (s1, w2)
   }"

definition xsub_read_activated :: "nat \<Rightarrow> xsub \<Rightarrow> xsub" where
  "xsub_read_activated p s = s\<lparr>xs_fq := fq_activated p (xs_fq s)\<rparr>"

definition xsub_write_activated :: "nat \<Rightarrow> xsub \<Rightarrow> xsub" where
  "xsub_write_activated p s = s\<lparr>xs_dist := dist_activated p (xs_dist s)\<rparr>"

definition xsub_pipe_terminated :: "nat \<Rightarrow> xsub \<Rightarrow> xsub" where
  "xsub_pipe_terminated p s = s\<lparr>xs_fq := fq_pipe_terminated p (xs_fq s), xs_dist := dist_pipe_terminated p (xs_dist s)\<rparr>"

definition OPT_SUBSCRIBE :: int where "OPT_SUBSCRIBE = 6"
definition OPT_UNSUBSCRIBE :: int where "OPT_UNSUBSCRIBE = 7"
definition OPT_ONLY_FIRST_SUBSCRIBE :: int where "OPT_ONLY_FIRST_SUBSCRIBE = 108"
definition OPT_TOPICS_COUNT :: int where "OPT_TOPICS_COUNT = 116"

definition xsub_setsockopt :: "int \<Rightarrow> optval \<Rightarrow> xsub \<Rightarrow> (errno option \<times> xsub) option" where
  "xsub_setsockopt opt v s =
     (if opt = OPT_ONLY_FIRST_SUBSCRIBE then
        (if optvallen v \<noteq> 4 then Some (Some EINVAL, s)
         else (case v of
             NullVal _ \<Rightarrow> None
           | Val b \<Rightarrow> if int_of_bytes b < 0 then Some (Some EINVAL, s)
                      else Some (None, s\<lparr>xs_only_first_subscribe := (int_of_bytes b \<noteq> 0)\<rparr>)))
      else Some (Some EINVAL, s))"

definition xsub_getsockopt :: "int \<Rightarrow> nat \<Rightarrow> xsub \<Rightarrow> errno + bytes \<times> nat" where
  "xsub_getsockopt opt len s =
     (if opt = OPT_TOPICS_COUNT then do_getsockopt_int len (sint (tws_num_prefixes (xs_subscriptions s))) else Inl EINVAL)"

definition xsub_send :: "'w sock_ops \<Rightarrow> msg \<Rightarrow> xsub \<Rightarrow> 'w \<Rightarrow> (xsub \<times> 'w) option" where
  "xsub_send ops m s w = do {
     b \<leftarrow> so_bytes ops m w;
     let first_part = \<not> xs_more_send s;
     let s1 = s\<lparr>xs_more_send := has_more m\<rparr>;
     let s2 = (if first_part then s1\<lparr>xs_process_subscribe := \<not> xs_only_first_subscribe s1\<rparr> else s1);
     let to_all = (\<lambda>s. do { (d, w1) \<leftarrow> send_to_all (so_pipe ops) m (xs_dist s) w; Some (s\<lparr>xs_dist := d\<rparr>, w1) });
     if \<not> first_part \<and> \<not> xs_process_subscribe s2 then to_all s2
     else if is_subscribe m \<or> (b \<noteq> [] \<and> hd b = 1) then do {
       let topic = (if \<not> is_subscribe m then tl b else b);
       (r, t) \<leftarrow> tws_add topic (xs_subscriptions s2);
       to_all (s2\<lparr>xs_subscriptions := t, xs_process_subscribe := True\<rparr>)
     } else if is_cancel m \<or> (b \<noteq> [] \<and> hd b = 0) then do {
       let topic = (if \<not> is_cancel m then tl b else b);
       (r, t) \<leftarrow> tws_rm topic (xs_subscriptions s2);
       let s3 = s2\<lparr>xs_subscriptions := t, xs_process_subscribe := True\<rparr>;
       if r \<or> xs_verbose_unsubs s3 then to_all s3
       else do { w1 \<leftarrow> po_close (so_pipe ops) m w; Some (s3, w1) }
     } else to_all s2
   }"

definition xsub_has_out :: "xsub \<Rightarrow> bool" where
  "xsub_has_out s = True"

definition xsub_match :: "'w sock_ops \<Rightarrow> msg \<Rightarrow> xsub \<Rightarrow> 'w \<Rightarrow> bool option" where
  "xsub_match ops m s w = do {
     b \<leftarrow> so_bytes ops m w;
     matching \<leftarrow> tws_check b (xs_subscriptions s);
     Some (matching \<noteq> xs_invert_matching s)
   }"

text \<open>Popping the remaining parts of a message that does not match; the result is the last one.\<close>

partial_function (option) xsub_skip :: "'w sock_ops \<Rightarrow> msg \<Rightarrow> fq \<Rightarrow> 'w \<Rightarrow> (msg \<times> fq \<times> 'w) option" where
  "xsub_skip ops m f w =
     (if has_more m then do {
        (r, f1, w1) \<leftarrow> fq_recvpipe (so_pipe ops) m f w;
        zmq_assert (\<not> isl r);
        xsub_skip ops (snd (projr r)) f1 w1
      } else Some (m, f, w))"

text \<open>The loops of \<^verbatim>\<open>xrecv\<close> and \<^verbatim>\<open>xhas_in\<close>; \<open>m\<close> is the message that is overwritten, and \<open>pass\<close> says that the parts are
  passed on without a look at the subscriptions.\<close>

partial_function (option) xsub_recv_loop ::
  "'w sock_ops \<Rightarrow> bool \<Rightarrow> msg \<Rightarrow> xsub \<Rightarrow> 'w \<Rightarrow> ((errno + nat \<times> msg) \<times> xsub \<times> 'w) option" where
  "xsub_recv_loop ops pass m s w = do {
     (r, f1, w1) \<leftarrow> fq_recvpipe (so_pipe ops) m (xs_fq s) w;
     let s1 = s\<lparr>xs_fq := f1\<rparr>;
     if isl r then Some (r, s1, w1)
     else do {
       ok \<leftarrow> (if pass \<or> \<not> xs_filter s1 then Some True else xsub_match ops (snd (projr r)) s1 w1);
       if ok then Some (r, s1, w1)
       else do {
         (m2, f2, w2) \<leftarrow> xsub_skip ops (snd (projr r)) f1 w1;
         xsub_recv_loop ops pass m2 (s1\<lparr>xs_fq := f2\<rparr>) w2
       }
     }
   }"

definition xsub_recv :: "'w sock_ops \<Rightarrow> msg \<Rightarrow> xsub \<Rightarrow> 'w \<Rightarrow> ((errno + nat \<times> msg) \<times> xsub \<times> 'w) option" where
  "xsub_recv ops m s w =
     (if xs_has_message s then do {
        w1 \<leftarrow> po_close (so_pipe ops) m w;
        let p = xs_message s;
        Some (Inr p, s\<lparr>xs_has_message := False, xs_message := (0, msg_init), xs_more_recv := has_more (snd p)\<rparr>, w1)
      } else do {
        (r, s1, w1) \<leftarrow> xsub_recv_loop ops (xs_more_recv s) m s w;
        Some (r, if \<not> isl r then s1\<lparr>xs_more_recv := has_more (snd (projr r))\<rparr> else s1, w1)
      })"

definition xsub_has_in :: "'w sock_ops \<Rightarrow> xsub \<Rightarrow> 'w \<Rightarrow> (bool \<times> xsub \<times> 'w) option" where
  "xsub_has_in ops s w =
     (if xs_more_recv s then Some (True, s, w)
      else if xs_has_message s then Some (True, s, w)
      else do {
        (r, s1, w1) \<leftarrow> xsub_recv_loop ops False (snd (xs_message s)) s w;
        (case r of
           Inl e \<Rightarrow> do { zmq_assert (e = EAGAIN); Some (False, s1\<lparr>xs_message := (0, msg_init)\<rparr>, w1) }
         | Inr p \<Rightarrow> Some (True, s1\<lparr>xs_message := p, xs_has_message := True\<rparr>, w1))
      })"

text \<open>\<open>sub_t\<close> restricts the socket: subscriptions are options, and sending is refused.\<close>

definition sub_setsockopt :: "'w sock_ops \<Rightarrow> int \<Rightarrow> bytes \<Rightarrow> xsub \<Rightarrow> 'w \<Rightarrow> (errno option \<times> xsub \<times> 'w) option" where
  "sub_setsockopt ops opt b s w =
     (if opt \<noteq> OPT_SUBSCRIBE \<and> opt \<noteq> OPT_UNSUBSCRIBE then Some (Some EINVAL, s, w)
      else do {
        (m, w1) \<leftarrow> (if opt = OPT_SUBSCRIBE then so_init_subscribe ops b w else so_init_cancel ops b w);
        (s1, w2) \<leftarrow> xsub_send ops m s w1;
        w3 \<leftarrow> po_close (so_pipe ops) msg_init w2;
        Some (None, s1, w3)
      })"

definition sub_send :: "msg \<Rightarrow> xsub \<Rightarrow> errno \<times> xsub" where
  "sub_send m s = (ENOTSUP, s)"

definition sub_has_out :: "xsub \<Rightarrow> bool" where
  "sub_has_out s = False"


subsection \<open>What a subscriber receives\<close>

text \<open>Of what is read from the pipes, whole messages whose first part passes: \<open>k\<close> says whether the queue is inside a message, and whether
  that message is kept.\<close>

fun kept :: "(msg \<Rightarrow> bool) \<Rightarrow> bool option \<Rightarrow> (nat \<times> msg) list \<Rightarrow> (nat \<times> msg) list" where
  "kept P k [] = []"
| "kept P k ((p, m) # tr) =
     (let b = (case k of None \<Rightarrow> P m | Some b \<Rightarrow> b) in
      (if b then [(p, m)] else []) @ kept P (if has_more m then Some b else None) tr)"

fun mode_after :: "(msg \<Rightarrow> bool) \<Rightarrow> bool option \<Rightarrow> (nat \<times> msg) list \<Rightarrow> bool option" where
  "mode_after P k [] = k"
| "mode_after P k ((p, m) # tr) =
     (let b = (case k of None \<Rightarrow> P m | Some b \<Rightarrow> b) in mode_after P (if has_more m then Some b else None) tr)"

fun reading_after :: "nat option \<Rightarrow> (nat \<times> msg) list \<Rightarrow> nat option" where
  "reading_after c [] = c"
| "reading_after c ((p, m) # tr) = reading_after (if has_more m then Some p else None) tr"

lemma trace_append:
  "kept P k (tr @ tr2) = kept P k tr @ kept P (mode_after P k tr) tr2"
  "mode_after P k (tr @ tr2) = mode_after P (mode_after P k tr) tr2"
  "atomic c (tr @ tr2) \<longleftrightarrow> atomic c tr \<and> atomic (reading_after c tr) tr2"
  "reading_after c (tr @ tr2) = reading_after (reading_after c tr) tr2"
  "taken x (tr @ tr2) = taken x tr @ taken x tr2"
proof -
  show "kept P k (tr @ tr2) = kept P k tr @ kept P (mode_after P k tr) tr2"
    by (induction P k tr rule: kept.induct) (simp_all add: Let_def)
  show "mode_after P k (tr @ tr2) = mode_after P (mode_after P k tr) tr2"
    by (induction P k tr rule: mode_after.induct) (simp_all add: Let_def)
  show "atomic c (tr @ tr2) \<longleftrightarrow> atomic c tr \<and> atomic (reading_after c tr) tr2"
    by (induction c tr rule: atomic.induct) auto
  show "reading_after c (tr @ tr2) = reading_after (reading_after c tr) tr2"
    by (induction c tr rule: reading_after.induct) auto
  show "taken x (tr @ tr2) = taken x tr @ taken x tr2" by (simp add: taken_def)
qed

lemma kept_cong:
  "(\<And>p m. (p, m) \<in> set tr \<Longrightarrow> P m = Q m) \<Longrightarrow> kept P k tr = kept Q k tr \<and> mode_after P k tr = mode_after Q k tr"
proof (induction tr arbitrary: k)
  case (Cons a tr)
  obtain p m where a: "a = (p, m)" by (cases a)
  have "P m = Q m" using Cons.prems a by auto
  moreover have "kept P k' tr = kept Q k' tr \<and> mode_after P k' tr = mode_after Q k' tr" for k' using Cons.IH Cons.prems by auto
  ultimately show ?case by (cases k) (simp_all add: a Let_def)
qed simp

definition passes :: "xsub \<Rightarrow> bytes \<Rightarrow> bool" where
  "passes s b \<longleftrightarrow> \<not> xs_filter s \<or> (\<exists>t. prefix t b \<and> 0 < mult (tws_trie (xs_subscriptions s)) t) \<noteq> xs_invert_matching s"

text \<open>A message source whose messages are accounted for: \<open>hs\<close> are the messages in hand, and \<open>body\<close> the bytes of one.\<close>

locale filter_source = message_source "so_pipe ops" inv live queue
  for ops :: "'w sock_ops" and inv live queue +
  fixes acct :: "'w \<Rightarrow> msg list \<Rightarrow> bool"
    and body :: "'w \<Rightarrow> msg \<Rightarrow> bytes"
  assumes read_acct: "inv w \<Longrightarrow> p \<in> live w \<Longrightarrow> acct w hs \<Longrightarrow> po_read (so_pipe ops) p w = Some (v, w') \<Longrightarrow>
      acct w' (case v of None \<Rightarrow> hs | Some m \<Rightarrow> m # hs) \<and> body w' = body w"
    and close_acct: "inv w \<Longrightarrow> acct w (m # hs) \<Longrightarrow> \<exists>w'. po_close (so_pipe ops) m w = Some w' \<and> inv w' \<and> live w' = live w
      \<and> queue w' = queue w \<and> acct w' hs \<and> (\<forall>x. x \<in> set hs \<or> (\<exists>p. x \<in> set (queue w' p)) \<longrightarrow> body w' x = body w x)"
    and init_acct: "acct w hs \<Longrightarrow> acct w (msg_init # hs)"
    and bytes_acct: "acct w (m # hs) \<Longrightarrow> so_bytes ops m w = Some (body w m)"
begin

lemma fq_loop_acct:
  assumes "inv w" "fq_ok live queue f w" "acct w hs" "fq_loop (so_pipe ops) f w = Some (r, f', w')"
  shows "acct w' (case r of Inl e \<Rightarrow> hs | Inr (p, m) \<Rightarrow> m # hs) \<and> body w' = body w"
  using assms
proof (induction "fq_active f" arbitrary: f w)
  case 0
  then show ?case by (subst (asm) fq_loop.simps) auto
next
  case (Suc a)
  define p where "p = fq_pipes f ! fq_current f"
  have sh: "fq_shape f" and pos: "0 < fq_active f" and cur: "fq_current f < length (fq_pipes f)"
    using Suc.prems(2) Suc.hyps(2) by (auto simp: fq_ok_def fq_shape_def)
  have p: "p \<in> live w" using Suc.prems(2) nth_mem [OF cur] by (auto simp: p_def fq_ok_def)
  obtain w1 where w1: "inv w1" "live w1 = live w" "case queue w p of [] \<Rightarrow> po_read (so_pipe ops) p w = Some (None, w1) \<and> queue w1 = queue w
       | m # ms \<Rightarrow> po_read (so_pipe ops) p w = Some (Some m, w1) \<and> queue w1 = (queue w)(p := ms)"
    using read_law [OF Suc.prems(1) p] by blast
  have get: "tab_get (fq_pipes f) (fq_current f) = Some p" using cur by (simp add: p_def)
  show ?case
  proof (cases "queue w p")
    case Nil
    with Suc.prems(2) have nm: "\<not> fq_more f" by (auto simp: fq_ok_def p_def)
    let ?f = "fq_deactivate (fq_current f) f"
    note d = deactivate_shape [OF sh pos nm]
    have q: "po_read (so_pipe ops) p w = Some (None, w1)" "queue w1 = queue w" using w1(3) Nil by simp_all
    have "fq_more ?f = False" using nm by (simp add: fq_deactivate_def Let_def)
    then have ok: "fq_ok live queue ?f w1" using d(1,2) Suc.prems(2) w1(2) by (simp add: fq_ok_def)
    have a: "acct w1 hs" "body w1 = body w" using read_acct [OF Suc.prems(1) p Suc.prems(3) q(1)] by simp_all
    have "fq_loop (so_pipe ops) ?f w1 = Some (r, f', w')"
      using Suc.prems(4) pos get q(1) nm by (subst (asm) fq_loop.simps) simp
    with Suc.hyps(1) [OF _ w1(1) ok a(1)] d(3) Suc.hyps(2) a(2) show ?thesis by simp
  next
    case (Cons m ms)
    then have q: "po_read (so_pipe ops) p w = Some (Some m, w1)" using w1(3) by simp
    have "r = Inr (p, m)" "w' = w1" using Suc.prems(4) pos get q by (subst (asm) fq_loop.simps, simp add: Let_def)+
    with read_acct [OF Suc.prems(1) p Suc.prems(3) q] show ?thesis by simp
  qed
qed

definition same_bodies :: "'w \<Rightarrow> 'w \<Rightarrow> msg list \<Rightarrow> bool" where
  "same_bodies w w' hs \<longleftrightarrow> (\<forall>x. x \<in> set hs \<or> (\<exists>p. x \<in> set (queue w' p)) \<longrightarrow> body w' x = body w x)"

lemma recv_step:
  assumes "inv w" "fq_ok live queue f w" "acct w (m # hs)"
  shows "\<exists>r f' w'. fq_recvpipe (so_pipe ops) m f w = Some (r, f', w') \<and> inv w' \<and> fq_ok live queue f' w' \<and> active_pipes f' \<subseteq> active_pipes f
    \<and> same_bodies w w' hs \<and>
    (case r of
       Inl e \<Rightarrow> e = EAGAIN \<and> queue w' = queue w \<and> acct w' hs \<and> \<not> fq_more f \<and> \<not> fq_more f'
     | Inr (p, m') \<Rightarrow> p \<in> active_pipes f \<and> (fq_more f \<longrightarrow> p = fq_pipes f ! fq_current f) \<and> acct w' (m' # hs) \<and> body w' m' = body w m'
         \<and> queue w p = m' # queue w' p \<and> (\<forall>x. x \<noteq> p \<longrightarrow> queue w' x = queue w x)
         \<and> fq_more f' = has_more m' \<and> (has_more m' \<longrightarrow> p = fq_pipes f' ! fq_current f'))"
proof -
  obtain w1 where w1: "po_close (so_pipe ops) m w = Some w1" "inv w1" "live w1 = live w" "queue w1 = queue w" "acct w1 hs"
    "\<forall>x. x \<in> set hs \<or> (\<exists>p. x \<in> set (queue w1 p)) \<longrightarrow> body w1 x = body w x"
    using close_acct [OF assms(1,3)] by blast
  have ok: "fq_ok live queue f w1" using assms(2) w1(3,4) by (simp add: fq_ok_def)
  obtain r f' w' where s: "fq_loop (so_pipe ops) f w1 = Some (r, f', w')" "inv w'" "fq_ok live queue f' w'" "active_pipes f' \<subseteq> active_pipes f"
    "case r of
       Inl e \<Rightarrow> e = EAGAIN \<and> queue w' = queue w1 \<and> (\<forall>x \<in> active_pipes f. queue w1 x = [])
     | Inr (p, m) \<Rightarrow> p \<in> active_pipes f \<and> (fq_more f \<longrightarrow> p = fq_pipes f ! fq_current f)
         \<and> queue w1 p = m # queue w' p \<and> (\<forall>x. x \<noteq> p \<longrightarrow> queue w' x = queue w1 x)
         \<and> fq_more f' = has_more m \<and> (has_more m \<longrightarrow> p = fq_pipes f' ! fq_current f')
         \<and> (\<forall>x \<in> active_pipes f. x \<noteq> p \<longrightarrow> queue w1 x \<noteq> [] \<longrightarrow>
              x \<in> active_pipes f' \<and> fdist x f' + (if has_more m then 0 else 1) \<le> fdist x f)"
    using fq_loop_spec [OF w1(2) ok] by blast
  note a = fq_loop_acct [OF w1(2) ok w1(5) s(1)]
  have run: "fq_recvpipe (so_pipe ops) m f w = Some (r, f', w')" using w1(1) s(1) by (simp add: fq_recvpipe_def)
  have sub: "set (queue w' x) \<subseteq> set (queue w1 x)" for x
    using s(5) by (cases r) (auto split: prod.splits, (metis list.set_intros(2) set_ConsD)+)
  have sb: "same_bodies w w' hs" unfolding same_bodies_def
  proof (intro allI impI)
    fix x assume "x \<in> set hs \<or> (\<exists>p. x \<in> set (queue w' p))"
    then have "x \<in> set hs \<or> (\<exists>p. x \<in> set (queue w1 p))" using sub by blast
    then have "body w1 x = body w x" using w1(6) by blast
    then show "body w' x = body w x" using a by simp
  qed
  have idle: "\<not> fq_more f \<and> \<not> fq_more f'" if "\<forall>x \<in> active_pipes f. queue w x = []" "queue w' = queue w"
  proof -
    have c: "fq_pipes g ! fq_current g \<in> active_pipes g" if "fq_shape g" "fq_more g" for g
      using that by (auto simp: fq_shape_def active_pipes_def in_set_conv_nth split: if_splits intro!: exI [of _ "fq_current g"])
    have "\<not> fq_more f" using c [of f] assms(2) that(1) by (auto simp: fq_ok_def)
    moreover have "\<not> fq_more f'" using c [of f'] s(3,4) that by (auto simp: fq_ok_def)
    ultimately show ?thesis by blast
  qed
  show ?thesis
  proof (cases r)
    case (Inl e)
    with run s(2-5) a sb idle w1(4) show ?thesis by (intro exI [of _ r] exI [of _ f'] exI [of _ w']) simp
  next
    case (Inr y)
    obtain p m' where y: "y = (p, m')" by (cases y)
    have "m' \<in> set (queue w1 p)" using s(5) Inr y by simp
    then have "body w1 m' = body w m'" using w1(6) by blast
    with y Inr run s(2-5) a sb w1(4) show ?thesis by (intro exI [of _ r] exI [of _ f'] exI [of _ w']) simp
  qed
qed

text \<open>How much can still be read.\<close>

definition left :: "fq \<Rightarrow> 'w \<Rightarrow> nat" where
  "left f w = (\<Sum>x \<in> active_pipes f. length (queue w x))"

lemma left_less:
  assumes "active_pipes f' \<subseteq> active_pipes f" "p \<in> active_pipes f" "queue w p = m # queue w' p" "\<forall>x. x \<noteq> p \<longrightarrow> queue w' x = queue w x"
  shows "left f' w' < left f w"
proof -
  have fin: "finite (active_pipes f)" by (simp add: active_pipes_def)
  have "left f' w' \<le> (\<Sum>x \<in> active_pipes f. length (queue w' x))" unfolding left_def using assms(1) fin by (intro sum_mono2) auto
  also have "\<dots> < left f w" unfolding left_def
  proof (rule sum_strict_mono_ex1 [OF fin])
    show "\<forall>x \<in> active_pipes f. length (queue w' x) \<le> length (queue w x)" using assms(3,4) by (metis le_SucI length_Cons order_refl)
    show "\<exists>x \<in> active_pipes f. length (queue w' x) < length (queue w x)" using assms(2,3) by (intro bexI [of _ p]) simp_all
  qed
  finally show ?thesis .
qed

text \<open>A trace from one state to another.\<close>

definition reads :: "fq \<Rightarrow> 'w \<Rightarrow> (nat \<times> msg) list \<Rightarrow> fq \<Rightarrow> 'w \<Rightarrow> msg list \<Rightarrow> bool" where
  "reads f w tr f' w' hs \<longleftrightarrow> inv w' \<and> fq_ok live queue f' w' \<and> active_pipes f' \<subseteq> active_pipes f \<and> same_bodies w w' hs
     \<and> (\<forall>x. taken x tr @ queue w' x = queue w x) \<and> atomic (fq_reading f) tr \<and> reading_after (fq_reading f) tr = fq_reading f'"

lemma reads_Nil: "inv w \<Longrightarrow> fq_ok live queue f w \<Longrightarrow> reads f w [] f w hs"
  by (simp add: reads_def same_bodies_def taken_def)

lemma reads_in_queue: "reads f w tr f' w' hs \<Longrightarrow> (p, m) \<in> set tr \<Longrightarrow> m \<in> set (queue w p)"
proof -
  assume "reads f w tr f' w' hs" "(p, m) \<in> set tr"
  then have "m \<in> set (taken p tr)" "taken p tr @ queue w' p = queue w p" by (auto simp: reads_def taken_def image_iff intro: bexI [of _ "(p, m)"])
  then show ?thesis by (metis UnI1 set_append)
qed

lemma reads_trans:
  assumes "reads f w tr f1 w1 hs" "reads f1 w1 tr2 f2 w2 hs'" "set hs \<subseteq> set hs'"
  shows "reads f w (tr @ tr2) f2 w2 hs"
proof -
  have "set (queue w2 p) \<subseteq> set (queue w1 p)" for p using assms(2) unfolding reads_def by (metis Un_upper2 set_append)
  then have "same_bodies w w2 hs" using assms unfolding reads_def same_bodies_def by (metis subsetD)
  moreover have "taken x (tr @ tr2) @ queue w2 x = queue w x" for x using assms(1,2) by (simp add: reads_def trace_append)
  ultimately show ?thesis using assms(1,2) by (auto simp: reads_def trace_append)
qed

lemma skip_spec:
  assumes "inv w" "fq_ok live queue f w" "acct w (m # hs)" "fq_more f = has_more m"
  shows "\<exists>m' tr f' w'. xsub_skip ops m f w = Some (m', f', w') \<and> reads f w tr f' w' hs \<and> acct w' (m' # hs) \<and> \<not> fq_more f'
    \<and> (\<forall>P. kept P (if has_more m then Some False else None) tr = [] \<and> mode_after P (if has_more m then Some False else None) tr = None)"
  using assms
proof (induction "left f w" arbitrary: m f w rule: less_induct)
  case less
  show ?case
  proof (cases "has_more m")
    case False
    then have "xsub_skip ops m f w = Some (m, f, w)" by (subst xsub_skip.simps) simp
    with False less.prems reads_Nil [OF less.prems(1,2), of hs] show ?thesis
      by (intro exI [of _ m] exI [of _ "[]"] exI [of _ f] exI [of _ w]) simp
  next
    case True
    obtain r f1 w1 where s: "fq_recvpipe (so_pipe ops) m f w = Some (r, f1, w1)" "inv w1" "fq_ok live queue f1 w1" "active_pipes f1 \<subseteq> active_pipes f"
      "same_bodies w w1 hs"
      "case r of
       Inl e \<Rightarrow> e = EAGAIN \<and> queue w1 = queue w \<and> acct w1 hs \<and> \<not> fq_more f \<and> \<not> fq_more f1
     | Inr (p, m') \<Rightarrow> p \<in> active_pipes f \<and> (fq_more f \<longrightarrow> p = fq_pipes f ! fq_current f) \<and> acct w1 (m' # hs) \<and> body w1 m' = body w m'
         \<and> queue w p = m' # queue w1 p \<and> (\<forall>x. x \<noteq> p \<longrightarrow> queue w1 x = queue w x)
         \<and> fq_more f1 = has_more m' \<and> (has_more m' \<longrightarrow> p = fq_pipes f1 ! fq_current f1)"
      using recv_step [OF less.prems(1-3)] by blast
    have more: "fq_more f" using True less.prems(4) by simp
    then obtain p m' where r: "r = Inr (p, m')" using s(6) by (cases r) auto
    note t = s(6) [unfolded r sum.case prod.case]
    have lt: "left f1 w1 < left f w" using left_less [OF s(4), of p w m' w1] t by simp
    have one: "reads f w [(p, m')] f1 w1 hs" using s(2-5) t more by (auto simp: reads_def taken_def fq_reading_def)
    obtain m2 tr f2 w2 where IH: "xsub_skip ops m' f1 w1 = Some (m2, f2, w2)" "reads f1 w1 tr f2 w2 hs" "acct w2 (m2 # hs)" "\<not> fq_more f2"
      "\<forall>P. kept P (if has_more m' then Some False else None) tr = [] \<and> mode_after P (if has_more m' then Some False else None) tr = None"
      using less.hyps [OF lt s(2,3), of m'] t by blast
    have "xsub_skip ops m f w = Some (m2, f2, w2)" using True s(1) r IH(1) by (subst xsub_skip.simps) simp
    moreover have "reads f w ((p, m') # tr) f2 w2 hs" using reads_trans [OF one IH(2)] by simp
    ultimately show ?thesis using IH(3-5) True
      by (intro exI [of _ m2] exI [of _ "(p, m') # tr"] exI [of _ f2] exI [of _ w2]) (simp add: Let_def)
  qed
qed

lemma recv_loop_spec:
  assumes "inv w" "fq_ok live queue (xs_fq s) w" "acct w (m # hs)" "pass = fq_more (xs_fq s)" "tws_wf (xs_subscriptions s)"
  defines "P \<equiv> \<lambda>m. passes s (body w m)"
  shows "\<exists>r tr f' w'. xsub_recv_loop ops pass m s w = Some (r, s\<lparr>xs_fq := f'\<rparr>, w') \<and> reads (xs_fq s) w tr f' w' hs \<and>
    (case r of
       Inl e \<Rightarrow> e = EAGAIN \<and> \<not> pass \<and> acct w' hs \<and> \<not> fq_more f' \<and> kept P (if pass then Some True else None) tr = []
         \<and> mode_after P (if pass then Some True else None) tr = None
     | Inr (p, m') \<Rightarrow> acct w' (m' # hs) \<and> fq_more f' = has_more m' \<and> body w' m' = body w m'
         \<and> kept P (if pass then Some True else None) tr = [(p, m')]
         \<and> mode_after P (if pass then Some True else None) tr = (if has_more m' then Some True else None))"
  unfolding P_def using assms(1-5)
proof (induction "left (xs_fq s) w" arbitrary: m s w rule: less_induct)
  case less
  let ?f = "xs_fq s"
  obtain r f1 w1 where s: "fq_recvpipe (so_pipe ops) m ?f w = Some (r, f1, w1)" "inv w1" "fq_ok live queue f1 w1" "active_pipes f1 \<subseteq> active_pipes ?f"
    "same_bodies w w1 hs"
    "case r of
       Inl e \<Rightarrow> e = EAGAIN \<and> queue w1 = queue w \<and> acct w1 hs \<and> \<not> fq_more ?f \<and> \<not> fq_more f1
     | Inr (p, m') \<Rightarrow> p \<in> active_pipes ?f \<and> (fq_more ?f \<longrightarrow> p = fq_pipes ?f ! fq_current ?f) \<and> acct w1 (m' # hs) \<and> body w1 m' = body w m'
         \<and> queue w p = m' # queue w1 p \<and> (\<forall>x. x \<noteq> p \<longrightarrow> queue w1 x = queue w x)
         \<and> fq_more f1 = has_more m' \<and> (has_more m' \<longrightarrow> p = fq_pipes f1 ! fq_current f1)"
    using recv_step [OF less.prems(1-3)] by blast
  show ?case
  proof (cases r)
    case (Inl e)
    note t = s(6) [unfolded Inl sum.case]
    have "xsub_recv_loop ops pass m s w = Some (Inl e, s\<lparr>xs_fq := f1\<rparr>, w1)" using s(1) Inl by (subst xsub_recv_loop.simps) (simp add: Let_def)
    moreover have "reads ?f w [] f1 w1 hs" using s(2-5) t by (simp add: reads_def taken_def fq_reading_def)
    ultimately show ?thesis using t less.prems(4) by (intro exI [of _ "Inl e"] exI [of _ "[]"] exI [of _ f1] exI [of _ w1]) simp
  next
    case (Inr y)
    obtain p m' where y: "y = (p, m')" by (cases y)
    note t = s(6) [unfolded Inr y sum.case prod.case]
    have one: "reads ?f w [(p, m')] f1 w1 hs" using s(2-5) t by (auto simp: reads_def taken_def fq_reading_def)
    have chk: "xsub_match ops m' (s\<lparr>xs_fq := f1\<rparr>) w1 = Some ((\<exists>t. prefix t (body w m') \<and> 0 < mult (tws_trie (xs_subscriptions s)) t) \<noteq> xs_invert_matching s)"
      using bytes_acct [of w1 m' hs] t tws.check_law [OF less.prems(5)] by (simp add: xsub_match_def)
    have ok: "(if pass \<or> \<not> xs_filter s then Some True else xsub_match ops m' (s\<lparr>xs_fq := f1\<rparr>) w1) = Some (pass \<or> passes s (body w m'))"
      unfolding chk by (auto simp: passes_def)
    have run: "xsub_recv_loop ops pass m s w = (if pass \<or> passes s (body w m') then Some (r, s\<lparr>xs_fq := f1\<rparr>, w1)
        else do { (m2, f2, w2) \<leftarrow> xsub_skip ops m' f1 w1; xsub_recv_loop ops pass m2 (s\<lparr>xs_fq := f2\<rparr>) w2 })"
      using s(1) Inr y ok by (subst xsub_recv_loop.simps, cases "pass \<or> \<not> xs_filter s") (simp_all add: Let_def)
    show ?thesis
    proof (cases "pass \<or> passes s (body w m')")
      case True
      then show ?thesis unfolding run using one t Inr y
        by (intro exI [of _ r] exI [of _ "[(p, m')]"] exI [of _ f1] exI [of _ w1]) (auto simp: Let_def)
    next
      case False
      obtain m2 tr2 f2 w2 where k: "xsub_skip ops m' f1 w1 = Some (m2, f2, w2)" "reads f1 w1 tr2 f2 w2 hs" "acct w2 (m2 # hs)" "\<not> fq_more f2"
        "\<forall>P. kept P (if has_more m' then Some False else None) tr2 = [] \<and> mode_after P (if has_more m' then Some False else None) tr2 = None"
        using skip_spec [OF s(2,3), of m' hs] t by blast
      have r2: "reads ?f w ((p, m') # tr2) f2 w2 hs" using reads_trans [OF one k(2)] by simp
      have "left f2 w2 \<le> left f1 w1"
      proof -
        have "length (queue w2 x) \<le> length (queue w1 x)" for x using k(2) unfolding reads_def by (metis le_add2 length_append)
        moreover have "active_pipes f2 \<subseteq> active_pipes f1" "finite (active_pipes f1)" using k(2) by (auto simp: reads_def active_pipes_def)
        ultimately show ?thesis unfolding left_def by (meson order_trans sum_mono sum_mono2 zero_le)
      qed
      then have lt: "left (xs_fq (s\<lparr>xs_fq := f2\<rparr>)) w2 < left ?f w" using left_less [OF s(4), of p w m' w1] t by simp
      have pre: "inv w2" "fq_ok live queue (xs_fq (s\<lparr>xs_fq := f2\<rparr>)) w2" "pass = fq_more (xs_fq (s\<lparr>xs_fq := f2\<rparr>))"
        "tws_wf (xs_subscriptions (s\<lparr>xs_fq := f2\<rparr>))" using k(2,4) False less.prems(5) by (simp_all add: reads_def)
      have np: "\<not> pass" using False by simp
      let ?P = "\<lambda>m. passes s (body w m)" and ?Q = "\<lambda>m. passes (s\<lparr>xs_fq := f2\<rparr>) (body w2 m)"
      obtain r3 tr3 f3 w3 where IH: "xsub_recv_loop ops pass m2 (s\<lparr>xs_fq := f2\<rparr>) w2 = Some (r3, s\<lparr>xs_fq := f3\<rparr>, w3)" "reads f2 w2 tr3 f3 w3 hs"
        "case r3 of
       Inl e \<Rightarrow> e = EAGAIN \<and> \<not> pass \<and> acct w3 hs \<and> \<not> fq_more f3 \<and> kept ?Q (if pass then Some True else None) tr3 = []
         \<and> mode_after ?Q (if pass then Some True else None) tr3 = None
     | Inr (p, m') \<Rightarrow> acct w3 (m' # hs) \<and> fq_more f3 = has_more m' \<and> body w3 m' = body w2 m'
         \<and> kept ?Q (if pass then Some True else None) tr3 = [(p, m')]
         \<and> mode_after ?Q (if pass then Some True else None) tr3 = (if has_more m' then Some True else None)"
        using less.hyps [OF lt pre(1,2) k(3) pre(3,4)] by auto
      have PQ: "?P x = ?Q x \<and> body w2 x = body w x" if "(q, x) \<in> set tr3" for q x
      proof -
        have "x \<in> set (queue w2 q)" using reads_in_queue [OF IH(2) that] .
        then have "body w2 x = body w x" using r2 by (auto simp: reads_def same_bodies_def)
        then show ?thesis by (simp add: passes_def)
      qed
      have cong: "kept ?P None tr3 = kept ?Q None tr3 \<and> mode_after ?P None tr3 = mode_after ?Q None tr3" by (rule kept_cong) (rule PQ [THEN conjunct1])
      have dropped: "kept ?P None ((p, m') # tr2 @ tr3) = kept ?P None tr3" "mode_after ?P None ((p, m') # tr2 @ tr3) = mode_after ?P None tr3"
        using k(5) False by (simp_all add: trace_append Let_def)
      have bodies: "body w2 x = body w x" if "kept ?P None tr3 = [(q, x)]" for q x
      proof -
        have "set (kept P k tr) \<subseteq> set tr" for P k tr by (induction P k tr rule: kept.induct) (auto simp: Let_def)
        then have "(q, x) \<in> set tr3" using that by (metis list.set_intros(1) subsetD)
        then show ?thesis using PQ by blast
      qed
      have r4: "reads ?f w ((p, m') # tr2 @ tr3) f3 w3 hs" using reads_trans [OF r2 IH(2)] by simp
      have run2: "xsub_recv_loop ops pass m s w = Some (r3, s\<lparr>xs_fq := f3\<rparr>, w3)" unfolding run using False k(1) IH(1) by simp
      show ?thesis
      proof (cases r3)
        case (Inl e)
        with run2 r4 IH(3) dropped cong np show ?thesis
          by (intro exI [of _ r3] exI [of _ "(p, m') # tr2 @ tr3"] exI [of _ f3] exI [of _ w3]) (simp del: kept.simps mode_after.simps)
      next
        case (Inr z)
        obtain q x where z: "z = (q, x)" by (cases z)
        from run2 r4 IH(3) dropped cong np bodies [of q x] Inr z show ?thesis
          by (intro exI [of _ r3] exI [of _ "(p, m') # tr2 @ tr3"] exI [of _ f3] exI [of _ w3]) (simp del: kept.simps mode_after.simps)
      qed
    qed
  qed
qed

end

text \<open>A client that receives, or polls, a number of times: the messages it gets with the pipes they came from.\<close>

datatype client_op = Recv | Poll

fun xsub_run :: "'w sock_ops \<Rightarrow> client_op list \<Rightarrow> xsub \<Rightarrow> 'w \<Rightarrow> ((nat \<times> msg) list \<times> xsub \<times> 'w) option" where
  "xsub_run ops [] s w = Some ([], s, w)"
| "xsub_run ops (Recv # xs) s w = do {
     (r, s1, w1) \<leftarrow> xsub_recv ops msg_init s w;
     (out, s2, w2) \<leftarrow> xsub_run ops xs s1 w1;
     Some (if isl r then out else projr r # out, s2, w2)
   }"
| "xsub_run ops (Poll # xs) s w = do { (b, s1, w1) \<leftarrow> xsub_has_in ops s w; xsub_run ops xs s1 w1 }"

definition pending :: "xsub \<Rightarrow> (nat \<times> msg) list" where
  "pending s = (if xs_has_message s then [xs_message s] else [])"

definition xs_mode :: "xsub \<Rightarrow> bool option" where
  "xs_mode s = (if fq_more (xs_fq s) then Some True else None)"

definition xs_inv :: "('w \<Rightarrow> bool) \<Rightarrow> ('w \<Rightarrow> nat set) \<Rightarrow> ('w \<Rightarrow> nat \<Rightarrow> msg list) \<Rightarrow> ('w \<Rightarrow> msg list \<Rightarrow> bool) \<Rightarrow> xsub \<Rightarrow> 'w \<Rightarrow> msg list \<Rightarrow> bool" where
  "xs_inv iv lv qu ac s w hs \<longleftrightarrow> iv w \<and> fq_ok lv qu (xs_fq s) w \<and> tws_wf (xs_subscriptions s) \<and>
     (if xs_has_message s
      then ac w (snd (xs_message s) # hs) \<and> fq_more (xs_fq s) = has_more (snd (xs_message s)) \<and> \<not> xs_more_recv s
      else ac w hs \<and> xs_message s = (0, msg_init) \<and> xs_more_recv s = fq_more (xs_fq s))"

context filter_source
begin

definition client_step :: "xsub \<Rightarrow> 'w \<Rightarrow> msg list \<Rightarrow> (nat \<times> msg) list \<Rightarrow> xsub \<Rightarrow> 'w \<Rightarrow> (nat \<times> msg) list \<Rightarrow> bool" where
  "client_step s w hs out s' w' tr \<longleftrightarrow> reads (xs_fq s) w tr (xs_fq s') w' hs
     \<and> pending s @ kept (\<lambda>m. passes s (body w m)) (xs_mode s) tr = out @ pending s'
     \<and> xs_mode s' = mode_after (\<lambda>m. passes s (body w m)) (xs_mode s) tr
     \<and> xs_inv inv live queue acct s' w' (rev (map snd out) @ hs) \<and> passes s' = passes s
     \<and> (\<forall>x \<in> set (out @ pending s'). body w' (snd x) = body w (snd x))"

lemma xsub_recv_step:
  assumes "xs_inv inv live queue acct s w hs"
  shows "\<exists>r s' w' tr. xsub_recv ops msg_init s w = Some (r, s', w') \<and> client_step s w hs (if isl r then [] else [projr r]) s' w' tr"
proof (cases "xs_has_message s")
  case True
  obtain p m where m: "xs_message s = (p, m)" by (cases "xs_message s")
  have i: "inv w" "fq_ok live queue (xs_fq s) w" "tws_wf (xs_subscriptions s)" "acct w (msg_init # m # hs)" "fq_more (xs_fq s) = has_more m"
    using assms True init_acct m by (auto simp: xs_inv_def)
  obtain w1 where w1: "po_close (so_pipe ops) msg_init w = Some w1" "inv w1" "live w1 = live w" "queue w1 = queue w" "acct w1 (m # hs)"
    "\<forall>x. x \<in> set (m # hs) \<or> (\<exists>p. x \<in> set (queue w1 p)) \<longrightarrow> body w1 x = body w x"
    using close_acct [OF i(1,4)] by blast
  define s' where "s' = s\<lparr>xs_has_message := False, xs_message := (0, msg_init), xs_more_recv := has_more m\<rparr>"
  have "xsub_recv ops msg_init s w = Some (Inr (p, m), s', w1)" using True w1(1) m by (simp add: xsub_recv_def s'_def Let_def)
  moreover have "reads (xs_fq s) w [] (xs_fq s') w1 hs"
    using w1 i(2) by (auto simp: reads_def same_bodies_def taken_def s'_def fq_ok_def)
  then have "client_step s w hs [(p, m)] s' w1 []"
    using w1(2-6) i True m
    by (auto simp: client_step_def pending_def xs_mode_def xs_inv_def passes_def fq_ok_def s'_def fun_eq_iff)
  ultimately show ?thesis by (intro exI [of _ "Inr (p, m)"] exI [of _ s'] exI [of _ w1] exI [of _ "[]"]) simp
next
  case False
  have i: "inv w" "fq_ok live queue (xs_fq s) w" "tws_wf (xs_subscriptions s)" "acct w (msg_init # hs)" "xs_message s = (0, msg_init)"
    "xs_more_recv s = fq_more (xs_fq s)"
    using assms False init_acct by (auto simp: xs_inv_def)
  let ?P = "\<lambda>m. passes s (body w m)"
  have mode: "(if xs_more_recv s then Some True else None) = xs_mode s" using i(6) by (simp add: xs_mode_def)
  obtain r tr f' w' where r: "xsub_recv_loop ops (xs_more_recv s) msg_init s w = Some (r, s\<lparr>xs_fq := f'\<rparr>, w')" "reads (xs_fq s) w tr f' w' hs"
    "case r of
       Inl e \<Rightarrow> e = EAGAIN \<and> \<not> xs_more_recv s \<and> acct w' hs \<and> \<not> fq_more f' \<and> kept ?P (xs_mode s) tr = [] \<and> mode_after ?P (xs_mode s) tr = None
     | Inr (p, m') \<Rightarrow> acct w' (m' # hs) \<and> fq_more f' = has_more m' \<and> body w' m' = body w m' \<and> kept ?P (xs_mode s) tr = [(p, m')]
         \<and> mode_after ?P (xs_mode s) tr = (if has_more m' then Some True else None)"
    using recv_loop_spec [OF i(1,2,4,6,3)] unfolding mode by blast
  define s' where "s' = (if isl r then s\<lparr>xs_fq := f'\<rparr> else s\<lparr>xs_fq := f', xs_more_recv := has_more (snd (projr r))\<rparr>)"
  have run: "xsub_recv ops msg_init s w = Some (r, s', w')" using False r(1) by (simp add: xsub_recv_def s'_def)
  have w': "inv w'" "fq_ok live queue f' w'" using r(2) by (simp_all add: reads_def)
  have "client_step s w hs (if isl r then [] else [projr r]) s' w' tr"
    using r(2,3) w' i False
    by (cases r) (auto simp: client_step_def pending_def xs_mode_def xs_inv_def passes_def s'_def fun_eq_iff)
  with run show ?thesis by blast
qed

lemma xsub_poll_step:
  assumes "xs_inv inv live queue acct s w hs"
  shows "\<exists>b s' w' tr. xsub_has_in ops s w = Some (b, s', w') \<and> client_step s w hs [] s' w' tr"
proof (cases "xs_more_recv s \<or> xs_has_message s")
  case True
  have "reads (xs_fq s) w [] (xs_fq s) w hs" using assms by (intro reads_Nil) (auto simp: xs_inv_def)
  then have "client_step s w hs [] s w []" using assms by (simp add: client_step_def)
  with True show ?thesis by (intro exI [of _ True] exI [of _ s] exI [of _ w] exI [of _ "[]"]) (auto simp: xsub_has_in_def)
next
  case False
  have i: "inv w" "fq_ok live queue (xs_fq s) w" "tws_wf (xs_subscriptions s)" "acct w (msg_init # hs)" "xs_message s = (0, msg_init)"
    "False = fq_more (xs_fq s)"
    using assms False init_acct by (auto simp: xs_inv_def)
  let ?P = "\<lambda>m. passes s (body w m)"
  have mode: "(if False then Some True else None) = xs_mode s" using i(6) by (simp add: xs_mode_def)
  obtain r tr f' w' where r: "xsub_recv_loop ops False msg_init s w = Some (r, s\<lparr>xs_fq := f'\<rparr>, w')" "reads (xs_fq s) w tr f' w' hs"
    "case r of
       Inl e \<Rightarrow> e = EAGAIN \<and> \<not> False \<and> acct w' hs \<and> \<not> fq_more f' \<and> kept ?P (xs_mode s) tr = [] \<and> mode_after ?P (xs_mode s) tr = None
     | Inr (p, m') \<Rightarrow> acct w' (m' # hs) \<and> fq_more f' = has_more m' \<and> body w' m' = body w m' \<and> kept ?P (xs_mode s) tr = [(p, m')]
         \<and> mode_after ?P (xs_mode s) tr = (if has_more m' then Some True else None)"
    using recv_loop_spec [OF i(1,2,4,6,3)] unfolding mode by blast
  define s' where "s' = (if isl r then s\<lparr>xs_fq := f', xs_message := (0, msg_init)\<rparr>
     else s\<lparr>xs_fq := f', xs_message := projr r, xs_has_message := True\<rparr>)"
  have run: "xsub_has_in ops s w = Some (\<not> isl r, s', w')"
    using False r(1,3) i(5) by (cases r) (auto simp: xsub_has_in_def s'_def)
  have w': "inv w'" "fq_ok live queue f' w'" using r(2) by (simp_all add: reads_def)
  have "client_step s w hs [] s' w' tr"
    using r(2,3) w' i False
    by (cases r) (auto simp: client_step_def pending_def xs_mode_def xs_inv_def passes_def s'_def fun_eq_iff)
  with run show ?thesis by blast
qed

lemma client_step_trans:
  assumes "client_step s w hs out1 s1 w1 tr1" "client_step s1 w1 (rev (map snd out1) @ hs) out2 s2 w2 tr2"
  shows "client_step s w hs (out1 @ out2) s2 w2 (tr1 @ tr2)"
proof -
  let ?P = "\<lambda>m. passes s (body w m)" and ?Q = "\<lambda>m. passes s1 (body w1 m)"
  have r: "reads (xs_fq s) w tr1 (xs_fq s1) w1 hs" "reads (xs_fq s1) w1 tr2 (xs_fq s2) w2 (rev (map snd out1) @ hs)" "passes s1 = passes s"
    using assms by (auto simp: client_step_def)
  have in1: "body w1 x = body w x" if "(q, x) \<in> set tr2" for q x
    using reads_in_queue [OF r(2) that] r(1) by (auto simp: reads_def same_bodies_def)
  have cong: "kept ?P k tr2 = kept ?Q k tr2 \<and> mode_after ?P k tr2 = mode_after ?Q k tr2" for k
    using in1 r(3) by (intro kept_cong) simp
  have sub: "set (kept P k tr) \<subseteq> set tr" for P k tr by (induction P k tr rule: kept.induct) (auto simp: Let_def)
  have out: "body w2 (snd x) = body w (snd x)" if "x \<in> set ((out1 @ out2) @ pending s2)" for x
  proof (cases "x \<in> set out1")
    case True
    then have "body w2 (snd x) = body w1 (snd x)" using r(2) by (auto simp: reads_def same_bodies_def)
    moreover have "body w1 (snd x) = body w (snd x)" using True assms(1) by (auto simp: client_step_def)
    ultimately show ?thesis by simp
  next
    case False
    then have x: "x \<in> set (out2 @ pending s2)" using that by auto
    then have "body w2 (snd x) = body w1 (snd x)" using assms(2) by (auto simp: client_step_def)
    moreover have "x \<in> set (pending s1) \<union> set tr2"
    proof -
      have "x \<in> set (pending s1 @ kept ?Q (xs_mode s1) tr2)" using x assms(2) unfolding client_step_def by metis
      then show ?thesis using sub by auto
    qed
    moreover have "body w1 (snd x) = body w (snd x)" if "x \<in> set (pending s1)" using that assms(1) by (auto simp: client_step_def)
    ultimately show ?thesis using in1 [of "fst x" "snd x"] by auto
  qed
  have "pending s @ kept ?P (xs_mode s) (tr1 @ tr2) = (out1 @ out2) @ pending s2"
    using assms cong unfolding client_step_def trace_append by (metis append.assoc)
  moreover have "xs_mode s2 = mode_after ?P (xs_mode s) (tr1 @ tr2)" using assms cong unfolding client_step_def trace_append by metis
  moreover have "reads (xs_fq s) w (tr1 @ tr2) (xs_fq s2) w2 hs" by (rule reads_trans [OF r(1,2)]) auto
  ultimately show ?thesis using assms(2) r(3) out unfolding client_step_def by simp
qed

lemma xsub_run_spec:
  assumes "xs_inv inv live queue acct s w hs"
  shows "\<exists>out s' w' tr. xsub_run ops xs s w = Some (out, s', w') \<and> client_step s w hs out s' w' tr"
  using assms
proof (induction xs arbitrary: s w hs)
  case Nil
  have "reads (xs_fq s) w [] (xs_fq s) w hs" using Nil by (intro reads_Nil) (auto simp: xs_inv_def)
  with Nil show ?case by (intro exI [of _ "[]"]) (auto simp: client_step_def)
next
  case (Cons x xs)
  show ?case
  proof (cases x)
    case Recv
    obtain r s1 w1 tr1 where 1: "xsub_recv ops msg_init s w = Some (r, s1, w1)" "client_step s w hs (if isl r then [] else [projr r]) s1 w1 tr1"
      using xsub_recv_step [OF Cons.prems] by blast
    have "xs_inv inv live queue acct s1 w1 (rev (map snd (if isl r then [] else [projr r])) @ hs)" using 1(2) by (simp add: client_step_def)
    from Cons.IH [OF this] obtain out s2 w2 tr2 where 2: "xsub_run ops xs s1 w1 = Some (out, s2, w2)"
      "client_step s1 w1 (rev (map snd (if isl r then [] else [projr r])) @ hs) out s2 w2 tr2" by blast
    from client_step_trans [OF 1(2) 2(2)] 1(1) 2(1) Recv show ?thesis by (cases "isl r") auto
  next
    case Poll
    obtain b s1 w1 tr1 where 1: "xsub_has_in ops s w = Some (b, s1, w1)" "client_step s w hs [] s1 w1 tr1"
      using xsub_poll_step [OF Cons.prems] by blast
    have "xs_inv inv live queue acct s1 w1 (rev (map snd ([] :: (nat \<times> msg) list)) @ hs)" using 1(2) by (simp add: client_step_def)
    from Cons.IH [OF this] obtain out s2 w2 tr2 where 2: "xsub_run ops xs s1 w1 = Some (out, s2, w2)"
      "client_step s1 w1 (rev (map snd ([] :: (nat \<times> msg) list)) @ hs) out s2 w2 tr2" by blast
    from client_step_trans [OF 1(2) 2(2)] 1(1) 2(1) Poll show ?thesis by auto
  qed
qed

end

subsection \<open>The pipe ends of a subscriber\<close>

definition net_sock :: "(net \<Rightarrow> nat option) \<Rightarrow> net sock_ops" where
  "net_sock mal = \<lparr>so_pipe = net_ops,
     so_bytes = (\<lambda>m n. msg_bytes m (net_heap n)),
     so_init_subscribe = (\<lambda>b n. let (rc, m, h) = msg_init_subscribe b (mal n) (net_heap n) in if rc = 0 then Some (m, with_heap h n) else None),
     so_init_cancel = (\<lambda>b n. let (rc, m, h) = msg_init_cancel b (mal n) (net_heap n) in if rc = 0 then Some (m, with_heap h n) else None)\<rparr>"

definition net_body :: "net \<Rightarrow> msg \<Rightarrow> bytes" where
  "net_body n m = (case msg_bytes m (net_heap n) of Some b \<Rightarrow> b | None \<Rightarrow> [])"

text \<open>A message of an application: it has its bytes in itself or in a content block of its own.\<close>

definition regular :: "msg \<Rightarrow> bool" where
  "regular m \<longleftrightarrow> (case m_body m of Vsm _ _ \<Rightarrow> True | Lmsg _ \<Rightarrow> True | _ \<Rightarrow> False)"

definition net_acct :: "msg list \<Rightarrow> net \<Rightarrow> msg list \<Rightarrow> bool" where
  "net_acct others n hs \<longleftrightarrow>
     (\<exists>ps. distinct ps \<and> (\<forall>p. net_queue n p \<noteq> [] \<longrightarrow> p \<in> set ps) \<and> refs_ok (hs @ concat (map (net_queue n) ps) @ others) (net_heap n))
     \<and> (\<forall>m. m \<in> set hs \<or> (\<exists>p. m \<in> set (net_queue n p)) \<longrightarrow> regular m)"

lemma with_heap_reading [simp]: "net_inv (with_heap h n) = net_inv n" "net_queue (with_heap h n) = net_queue n"
proof -
  have "end_queue e (pw_heap_update f w) = end_queue e w" for e f w by (simp add: end_queue_def)
  then show "net_inv (with_heap h n) = net_inv n" "net_queue (with_heap h n) = net_queue n"
    by (auto simp: with_heap_def net_inv_def end_ok_def net_queue_def fun_eq_iff split: option.split)
qed

lemma msg_bytes_regular:
  assumes "refs_ok ms h" "m \<in> set ms" "regular m"
  shows "\<exists>b. msg_bytes m h = Some b"
proof (cases "m_body m")
  case (Lmsg c)
  then obtain ct where "h_contents h c = Some ct" using content_holder [OF assms(1,2)] by metis
  with Lmsg show ?thesis by (simp add: msg_bytes_def msg_data_def msg_size_def)
qed (use assms(3) in \<open>auto simp: regular_def msg_bytes_def msg_data_def msg_size_def\<close>)

lemma msg_bytes_lost:
  assumes "lost h h'" "refs_ok ms h'" "m \<in> set ms" "regular m"
  shows "msg_bytes m h' = msg_bytes m h"
proof (cases "m_body m")
  case (Lmsg c)
  then obtain ct where ct: "h_contents h' c = Some ct" using content_holder [OF assms(2,3)] by metis
  then have "payload h' c = payload h c" using lost_keeps [OF assms(1), of c] by (simp add: payload_def)
  with ct obtain ct0 where "h_contents h c = Some ct0" "c_data ct0 = c_data ct" "c_size ct0 = c_size ct"
    by (auto simp: payload_def map_option_case split: option.splits)
  with ct Lmsg show ?thesis by (simp add: msg_bytes_def msg_data_def msg_size_def)
qed (use assms(4) in \<open>auto simp: regular_def msg_bytes_def msg_data_def msg_size_def\<close>)

lemma net_close_acct:
  assumes "net_acct others n (m # hs)"
  shows "\<exists>m' h. msg_close m (net_heap n) = Some (0, m', h) \<and> net_acct others (with_heap h n) hs
    \<and> (\<forall>x. x \<in> set hs \<or> (\<exists>p. x \<in> set (net_queue n p)) \<longrightarrow> net_body (with_heap h n) x = net_body n x)"
proof -
  obtain ps where ps: "distinct ps" "\<forall>p. net_queue n p \<noteq> [] \<longrightarrow> p \<in> set ps" "refs_ok (m # hs @ concat (map (net_queue n) ps) @ others) (net_heap n)"
    using assms by (auto simp: net_acct_def)
  have reg: "regular x" if "x \<in> set (m # hs) \<or> (\<exists>p. x \<in> set (net_queue n p))" for x using assms that by (auto simp: net_acct_def)
  have chk: "msg_check m" using reg [of m] by (auto simp: regular_def msg_check_def)
  have plain: "plain m" using ps(3) by (simp add: refs_ok_def)
  let ?l = "hs @ concat (map (net_queue n) ps) @ others"
  obtain m' h where c: "msg_close m (net_heap n) = Some (0, m', h)" "m_body m' = Closed" "refs_ok (m' # ?l) h" "lost (net_heap n) h"
    using msg_close_refs [OF ps(3), of 0] chk by auto
  have rl: "refs_ok ?l h" using refs_ok_no_content [of 1 m' ?l h 0] c(2,3) by (simp add: refs_ok_def)
  moreover have "net_body (with_heap h n) x = net_body n x" if "x \<in> set hs \<or> (\<exists>p. x \<in> set (net_queue n p))" for x
  proof -
    have "x \<in> set ?l" using that ps(2) by (auto, metis empty_iff list.set(1))
    then have "msg_bytes x h = msg_bytes x (net_heap n)" using msg_bytes_lost [OF c(4) rl] reg that by auto
    then show ?thesis by (simp add: net_body_def)
  qed
  moreover have "net_acct others (with_heap h n) hs" using ps(1,2) rl reg by (auto simp: net_acct_def)
  ultimately show ?thesis using c(1) by auto
qed

lemma net_read_acct:
  assumes "net_inv n" "p \<in> net_live n" "net_acct others n hs" "po_read net_ops p n = Some (v, n')"
  shows "net_acct others n' (case v of None \<Rightarrow> hs | Some m \<Rightarrow> m # hs) \<and> net_heap n' = net_heap n"
proof -
  obtain e where e: "n_pipes n p = Some e" "end_ok e (n_world n)" using assms(1,2) by (auto simp: net_live_def net_inv_def)
  obtain v' e' w' where r: "pipe_read e (n_world n) = Some (v', e', w')" "read_only (in_pipe e) (n_world n) w'"
    using pipe_read_end [OF e(2)] by blast
  have heap: "net_heap n' = net_heap n"
    using assms(4) e(1) r by (auto simp: net_ops_def on_pipe_def net_heap_def read_only_def)
  obtain ps where ps: "distinct ps" "\<forall>p. net_queue n p \<noteq> [] \<longrightarrow> p \<in> set ps" "refs_ok (hs @ concat (map (net_queue n) ps) @ others) (net_heap n)"
    using assms(3) by (auto simp: net_acct_def)
  have reg: "regular x" if "x \<in> set hs \<or> (\<exists>p. x \<in> set (net_queue n p))" for x using assms(3) that by (auto simp: net_acct_def)
  obtain n1 where q: "case net_queue n p of [] \<Rightarrow> po_read net_ops p n = Some (None, n1) \<and> net_queue n1 = net_queue n
       | m # ms \<Rightarrow> po_read net_ops p n = Some (Some m, n1) \<and> net_queue n1 = (net_queue n)(p := ms)"
    using pipe_src.read_law [OF assms(1,2)] by blast
  show ?thesis
  proof (cases "net_queue n p")
    case Nil
    with q assms(4) have "v = None" "net_queue n' = net_queue n" by auto
    with assms(3) heap show ?thesis by (simp add: net_acct_def)
  next
    case (Cons m ms)
    with q assms(4) have v: "v = Some m" "net_queue n' = (net_queue n)(p := ms)" by auto
    obtain xs ys where s: "ps = xs @ p # ys" using ps(2) Cons split_list [of p ps] by auto
    have np: "p \<notin> set xs" "p \<notin> set ys" using ps(1) s by auto
    have same: "map (net_queue n') zs = map (net_queue n) zs" if "p \<notin> set zs" for zs using that v(2) by auto
    have "refs_ok ((m # hs) @ concat (map (net_queue n') ps) @ others) (net_heap n)
        = refs_ok (hs @ concat (map (net_queue n) ps) @ others) (net_heap n)"
      by (rule refs_ok_cong) (auto simp: s same np v(2) Cons)
    then have "refs_ok ((m # hs) @ concat (map (net_queue n') ps) @ others) (net_heap n')" using ps(3) heap by simp
    moreover have "\<forall>q. net_queue n' q \<noteq> [] \<longrightarrow> q \<in> set ps" using ps(2) Cons v(2) by auto
    moreover have "regular x" if "x \<in> set (m # hs) \<or> (\<exists>p. x \<in> set (net_queue n' p))" for x
    proof -
      have "x \<in> set hs \<or> (\<exists>p. x \<in> set (net_queue n p))" using that v(2) Cons by (auto split: if_splits intro: exI [of _ p])
      then show ?thesis by (rule reg)
    qed
    ultimately show ?thesis using ps(1) v(1) heap unfolding net_acct_def by auto
  qed
qed

lemma net_sock_pipe [simp]: "so_pipe (net_sock mal) = net_ops"
  by (simp add: net_sock_def)

interpretation net_sub: filter_source "net_sock mal" net_inv net_live net_queue "net_acct others" net_body
proof unfold_locales
  show "\<exists>w'. net_inv w' \<and> net_live w' = net_live w \<and> (case net_queue w p of
         [] \<Rightarrow> po_read (so_pipe (net_sock mal)) p w = Some (None, w') \<and> net_queue w' = net_queue w
       | m # ms \<Rightarrow> po_read (so_pipe (net_sock mal)) p w = Some (Some m, w') \<and> net_queue w' = (net_queue w)(p := ms))"
    if "net_inv w" "p \<in> net_live w" for w p
    unfolding net_sock_pipe by (rule pipe_src.read_law [OF that])
  show "\<exists>w'. net_inv w' \<and> net_live w' = net_live w \<and> net_queue w' = net_queue w \<and> po_check_read (so_pipe (net_sock mal)) p w = Some (net_queue w p \<noteq> [], w')"
    if "net_inv w" "p \<in> net_live w" for w p
    unfolding net_sock_pipe by (rule pipe_src.check_read_law [OF that])
  show "complete (net_queue w p)" if "net_inv w" "p \<in> net_live w" for w p using pipe_src.complete_law [OF that] .
  show "po_close (so_pipe (net_sock mal)) msg_init w = Some w" for w using pipe_src.close_law by (simp add: net_sock_def)
  show "net_acct others w' (case v of None \<Rightarrow> hs | Some m \<Rightarrow> m # hs) \<and> net_body w' = net_body w"
    if "net_inv w" "p \<in> net_live w" "net_acct others w hs" "po_read (so_pipe (net_sock mal)) p w = Some (v, w')" for w p hs v w'
    using net_read_acct [OF that(1-3)] that(4) by (simp add: net_sock_def net_body_def fun_eq_iff)
  show "\<exists>w'. po_close (so_pipe (net_sock mal)) m w = Some w' \<and> net_inv w' \<and> net_live w' = net_live w \<and> net_queue w' = net_queue w
      \<and> net_acct others w' hs \<and> (\<forall>x. x \<in> set hs \<or> (\<exists>p. x \<in> set (net_queue w' p)) \<longrightarrow> net_body w' x = net_body w x)"
    if "net_inv w" "net_acct others w (m # hs)" for w m hs
  proof -
    note h0 = that
    obtain m' h where h: "msg_close m (net_heap w) = Some (0, m', h)" "net_acct others (with_heap h w) hs"
      "\<forall>x. x \<in> set hs \<or> (\<exists>p. x \<in> set (net_queue w p)) \<longrightarrow> net_body (with_heap h w) x = net_body w x"
      using net_close_acct [OF h0(2)] by blast
    then have "po_close net_ops m w = Some (with_heap h w)" by (simp add: net_ops_def net_close_def net_heap_def with_heap_def)
    with h h0(1) show ?thesis by (intro exI [of _ "with_heap h w"]) (simp add: net_sock_def)
  qed
  show "net_acct others w (msg_init # hs)" if "net_acct others w hs" for w hs
  proof -
    note h0 = that
    obtain ps where ps: "distinct ps" "\<forall>p. net_queue w p \<noteq> [] \<longrightarrow> p \<in> set ps" "refs_ok (hs @ concat (map (net_queue w) ps) @ others) (net_heap w)"
      using h0 by (auto simp: net_acct_def)
    have "refs_ok (msg_init # hs @ concat (map (net_queue w) ps) @ others) (net_heap w)"
      using refs_ok_no_content [of 0 msg_init _ "net_heap w" 1] ps(3) by (simp add: msg_init_def fresh_msg_def plain_def)
    moreover have "regular msg_init" by (simp add: regular_def msg_init_def fresh_msg_def)
    ultimately show ?thesis using h0 ps(1,2) unfolding net_acct_def by auto
  qed
  show "so_bytes (net_sock mal) m w = Some (net_body w m)" if "net_acct others w (m # hs)" for w m hs
    using that msg_bytes_regular [of _ "net_heap w" m] by (fastforce simp: net_acct_def net_sock_def net_body_def)
qed

text \<open>C22: what a subscriber receives. However often the application receives or polls, no assertion fails and each call returns; what it has been given, with a message
  found by a poll and not yet taken, is exactly the messages read from the pipes, whole and in their order, whose first part has a subscribed prefix (or has none,
  with inverted matching), the bytes as they were in the pipes; and the contents of the messages that were dropped have been released, since the counts are exact for
  the messages handed out and those still in the pipes.\<close>

theorem sub_receives_matching:
  assumes "net_inv w" "fq_ok net_live net_queue (xs_fq s) w" "tws_wf (xs_subscriptions s)" "net_acct others w []"
    and "\<not> xs_has_message s" "xs_message s = (0, msg_init)" "\<not> xs_more_recv s" "\<not> fq_more (xs_fq s)"
  shows "\<exists>out s' w' tr. xsub_run (net_sock mal) xs s w = Some (out, s', w')
    \<and> (\<forall>x. taken x tr @ net_queue w' x = net_queue w x) \<and> atomic None tr
    \<and> out @ pending s' = kept (\<lambda>m. passes s (net_body w m)) None tr
    \<and> map (\<lambda>x. net_body w' (snd x)) out = map (\<lambda>x. net_body w (snd x)) out
    \<and> net_acct others w' (map snd (pending s') @ rev (map snd out))"
proof -
  have "xs_inv net_inv net_live net_queue (net_acct others) s w []" using assms by (simp add: xs_inv_def)
  from net_sub.xsub_run_spec [OF this] obtain out s' w' tr where r: "xsub_run (net_sock mal) xs s w = Some (out, s', w')"
    "net_sub.client_step others s w [] out s' w' tr" by blast
  have idle: "xs_mode s = None" "pending s = []" "fq_reading (xs_fq s) = None" using assms(5,8) by (simp_all add: xs_mode_def pending_def fq_reading_def)
  have "net_acct others w' (map snd (pending s') @ rev (map snd out))"
    using r(2) by (auto simp: net_sub.client_step_def xs_inv_def pending_def)
  with r idle show ?thesis
    by (intro exI [of _ out] exI [of _ s'] exI [of _ w'] exI [of _ tr]) (auto simp: net_sub.client_step_def net_sub.reads_def)
qed

definition text_msg :: "byte \<Rightarrow> bytes \<Rightarrow> msg" where
  "text_msg f b = (fresh_msg (Vsm b (length b)))\<lparr>m_flags := f\<rparr>"

definition two_queues :: "msg list list" where
  "two_queues = [[text_msg 1 [65], text_msg 0 [1, 2]], [text_msg 0 [66], text_msg 0 [65, 7]]]"

definition two_sub :: "trie_with_size \<Rightarrow> xsub" where
  "two_sub t = sub_new\<lparr>xs_subscriptions := t, xs_fq := \<lparr>fq_pipes = [0, 1], fq_active = 2, fq_current = 0, fq_more = False\<rparr>\<rparr>"

theorem sub_receives_matching_witness:
  "\<exists>t out s' w' tr. tws_add [65] tws_new = Some (True, t) \<and> xsub_run (net_sock (\<lambda>_. None)) [Poll, Recv, Recv, Recv] (two_sub t) (net_of two_queues) = Some (out, s', w')
     \<and> out @ pending s' = kept (\<lambda>m. passes (two_sub t) (net_body (net_of two_queues) m)) None tr \<and> atomic None tr"
proof -
  let ?w = "net_of two_queues"
  obtain t where t: "tws_add [65] tws_new = Some (True, t)" "tws_wf t"
    using tws.add_law [OF tws.invar_empty, of "[65]", unfolded tws.mul_empty] by auto
  have ok: "\<forall>ms \<in> set two_queues. complete ms \<and> (\<forall>m \<in> set ms. \<not> is_delimiter m \<and> \<not> is_credential m)"
    by (auto simp: two_queues_def text_msg_def complete_def has_flag_def is_delimiter_def is_credential_def fresh_msg_def flag_defs)
  note net = net_of_inv [OF ok]
  have len: "length two_queues = 2" by (simp add: two_queues_def)
  have "fq_ok net_live net_queue (xs_fq (two_sub t)) ?w" using net(3) len by (auto simp: two_sub_def sub_new_def fq_ok_def fq_shape_def)
  moreover have "net_acct [] ?w []"
  proof -
    have "net_heap ?w = mv_heap (no_msgs 0)" by (simp add: net_of_def net_heap_def idle_world_def)
    then have none: "h_contents (net_heap ?w) c = None" for c by (simp add: no_msgs_def)
    have q: "net_queue ?w 0 = [text_msg 1 [65], text_msg 0 [1, 2]]" "net_queue ?w (Suc 0) = [text_msg 0 [66], text_msg 0 [65, 7]]"
      using net(2) len by (simp_all add: two_queues_def)
    have reg: "regular m \<and> plain m \<and> (\<forall>c. m_body m \<noteq> Lmsg c)" if "m \<in> set (net_queue ?w 0 @ net_queue ?w (Suc 0))" for m
      using that by (auto simp: q text_msg_def fresh_msg_def regular_def plain_def)
    have "refs_ok ([] @ concat (map (net_queue ?w) [0, Suc 0]) @ []) (net_heap ?w)"
      using reg none by (auto simp: refs_ok_def content_ok_def holders_def filter_empty_conv)
    moreover have "p \<in> set [0, Suc 0]" if "net_queue ?w p \<noteq> []" for p
      using that net(2) len by (auto split: if_splits)
    ultimately show ?thesis using reg unfolding net_acct_def
      by (intro conjI exI [of _ "[0, Suc 0]"]) (auto, metis Un_iff empty_iff insert_iff list.set(1) list.simps(15) set_append)
  qed
  moreover have "tws_wf (xs_subscriptions (two_sub t))" "\<not> xs_has_message (two_sub t)" "xs_message (two_sub t) = (0, msg_init)"
    "\<not> xs_more_recv (two_sub t)" "\<not> fq_more (xs_fq (two_sub t))"
    using t(2) by (simp_all add: two_sub_def sub_new_def xsub_new_def)
  ultimately show ?thesis using sub_receives_matching [of ?w "two_sub t" "[]" "\<lambda>_. None" "[Poll, Recv, Recv, Recv]"] net(1) t(1) by blast
qed

end
