(* ===== verification/Pipe_Term.thy ===== *)
theory Pipe_Term
  imports Pipe_Ends
begin

text \<open>
  How the two ends of a pipe shut down (the protocol described above \<^verbatim>\<open>pipe_t::terminate\<close> in pipe.cpp): each end may
  ask for it, a term command and its acknowledgements cross between the threads, a delimiter marks the end of the
  messages, and the end that gets the last acknowledgement deletes itself. The steps are the operations of
  theory \<open>Pipe\<close>, each run in any world of messages; what is kept between them are the two ends, the
  commands of the protocol on their way to each, and who has called \<^verbatim>\<open>terminate\<close>, since only then there is a
  delimiter to be read.
\<close>

record pipe_duo =
  pd_end :: "bool \<Rightarrow> pipe option"
  pd_to :: "bool \<Rightarrow> pipe_cmd list"
  pd_called :: "bool \<Rightarrow> bool"

definition term_cmds :: "pipe_world \<Rightarrow> pipe_cmd list" where
  "term_cmds w = filter (\<lambda>c. c = PipeTerm \<or> c = PipeTermAck) (pw_cmds w)"

text \<open>One end has acted and is \<open>e\<close> now; its commands go to the other.\<close>

definition duo_act :: "bool \<Rightarrow> pipe option \<Rightarrow> pipe_cmd list \<Rightarrow> pipe_duo \<Rightarrow> pipe_duo" where
  "duo_act b e cs s = s\<lparr>pd_end := (pd_end s)(b := e), pd_to := (pd_to s)(\<not> b := pd_to s (\<not> b) @ cs)\<rparr>"

definition duo_pop :: "bool \<Rightarrow> pipe_duo \<Rightarrow> pipe_duo" where
  "duo_pop b s = s\<lparr>pd_to := (pd_to s)(b := tl (pd_to s b))\<rparr>"

inductive close_step :: "pipe_duo \<Rightarrow> pipe_duo \<Rightarrow> bool" where
  term_cmd: "pd_to s b = PipeTerm # cs \<Longrightarrow> pd_end s b = Some p \<Longrightarrow> pw_cmds w = [] \<Longrightarrow> process_pipe_term p w = Some (p', w') \<Longrightarrow>
    close_step s (duo_act b (Some p') (term_cmds w') (duo_pop b s))"
| ack_cmd: "pd_to s b = PipeTermAck # cs \<Longrightarrow> pd_end s b = Some p \<Longrightarrow> pw_cmds w = [] \<Longrightarrow> process_pipe_term_ack p w = Some w' \<Longrightarrow>
    close_step s (duo_act b None (term_cmds w') (duo_pop b s))"
| delimiter_read: "pd_end s b = Some p \<Longrightarrow> pd_called s (\<not> b) \<Longrightarrow> pstate p = active \<or> pstate p = waiting_for_delimiter \<Longrightarrow>
    pw_cmds w = [] \<Longrightarrow> process_delimiter p w = Some (p', w') \<Longrightarrow> close_step s (duo_act b (Some p') (term_cmds w') s)"

inductive duo_step :: "pipe_duo \<Rightarrow> pipe_duo \<Rightarrow> bool" where
  closing: "close_step s s' \<Longrightarrow> duo_step s s'"
| called: "pd_end s b = Some p \<Longrightarrow> pw_cmds w = [] \<Longrightarrow> pipe_terminate d p w = Some (p', w') \<Longrightarrow>
    duo_step s ((duo_act b (Some p') (term_cmds w') s)\<lparr>pd_called := (pd_called s)(b := True)\<rparr>)"
| nodelay: "pd_end s b = Some p \<Longrightarrow> duo_step s (duo_act b (Some (set_nodelay p)) [] s)"

definition attached :: "pipe \<Rightarrow> pipe" where
  "attached p = p\<lparr>sink_set := True\<rparr>"

definition new_duo :: "nat \<Rightarrow> nat \<Rightarrow> int \<Rightarrow> int \<Rightarrow> bool \<Rightarrow> bool \<Rightarrow> pipe_duo" where
  "new_duo u1 u2 h1 h2 c1 c2 = \<lparr>pd_end = (\<lambda>b. Some (attached (if b then new_pipe u1 u2 h2 h1 c1 else new_pipe u2 u1 h1 h2 c2))),
     pd_to = (\<lambda>b. []), pd_called = (\<lambda>b. False)\<rparr>"

subsection \<open>What the operations do to the protocol\<close>

definition st :: "pipe_duo \<Rightarrow> bool \<Rightarrow> pipe_state option" where
  "st s b = map_option pstate (pd_end s b)"

lemma term_cmds_send [simp]:
  "term_cmds (send_cmd c w) = term_cmds w @ (if c = PipeTerm \<or> c = PipeTermAck then [c] else [])"
  "pw_cmds w = [] \<Longrightarrow> term_cmds w = []"
  by (simp_all add: term_cmds_def send_cmd_def)

lemma term_cmds_more [simp]:
  "term_cmds (put_up a u w) = term_cmds w" "term_cmds (pw_heap_update f w) = term_cmds w" "term_cmds (raise_event e w) = term_cmds w"
  "term_cmds (pw_upipes_update g w) = term_cmds w"
  by (simp_all add: term_cmds_def raise_event_def)

lemma rollback_term_cmds: "rollback p w = Some w' \<Longrightarrow> term_cmds w' = term_cmds w"
  by (simp add: term_cmds_def rollback_cmds)

lemma flush_term_cmds: "pipe_flush p w = Some w' \<Longrightarrow> term_cmds w' = term_cmds w"
  by (auto simp: pipe_flush_def Let_def bind_eq_Some_conv case_prod_beta split: option.splits if_splits)

lemma up_write_at_term_cmds: "up_write_at a m i w = Some w' \<Longrightarrow> term_cmds w' = term_cmds w"
  by (auto simp: up_write_at_def bind_eq_Some_conv)

lemma terminate_tail_effect:
  "terminate_tail p w = Some (p', w') \<Longrightarrow> p' = p\<lparr>out_active := False\<rparr> \<and> term_cmds w' = term_cmds w"
  unfolding terminate_tail_def Let_def
  by (simp split: option.splits) (auto simp: bind_eq_Some_conv dest!: rollback_term_cmds flush_term_cmds up_write_at_term_cmds)

text \<open>What an end keeps through all of this.\<close>

definition steady :: "pipe \<Rightarrow> bool" where
  "steady p \<longleftrightarrow> sink_set p \<and> in_pipe p \<noteq> None \<and> disconnect_msg p = msg_init \<and> (pstate p = term_req_sent2 \<or> pstate p = term_ack_sent \<longrightarrow> out_pipe p = None)"

lemma pipe_terminate_effect:
  assumes "pipe_terminate d p w = Some (p', w')" "pw_cmds w = []" "steady p"
  shows "steady p' \<and> (case pstate p of
      active \<Rightarrow> pstate p' = term_req_sent1 \<and> term_cmds w' = [PipeTerm]
    | delimiter_received \<Rightarrow> pstate p' = term_req_sent1 \<and> term_cmds w' = [PipeTerm]
    | waiting_for_delimiter \<Rightarrow> pstate p' = waiting_for_delimiter \<and> term_cmds w' = [] \<or> pstate p' = term_ack_sent \<and> term_cmds w' = [PipeTermAck]
    | _ \<Rightarrow> pstate p' = pstate p \<and> term_cmds w' = [])"
  using assms
  by (cases "pstate p") (auto simp: pipe_terminate_def Let_def steady_def dest!: terminate_tail_effect rollback_term_cmds
      split: if_splits Option.bind_splits)

lemma process_delimiter_effect:
  assumes "process_delimiter p w = Some (p', w')" "pw_cmds w = []" "steady p"
  shows "steady p' \<and> (if pstate p = active then pstate p' = delimiter_received \<and> term_cmds w' = []
    else pstate p = waiting_for_delimiter \<and> pstate p' = term_ack_sent \<and> term_cmds w' = [PipeTermAck])"
  using assms by (auto simp: process_delimiter_def steady_def dest: rollback_term_cmds split: if_splits Option.bind_splits)

lemma process_pipe_term_effect:
  assumes "process_pipe_term p w = Some (p', w')" "pw_cmds w = []" "steady p"
  shows "steady p' \<and> (case pstate p of
      active \<Rightarrow> pstate p' = waiting_for_delimiter \<and> term_cmds w' = [] \<or> pstate p' = term_ack_sent \<and> term_cmds w' = [PipeTermAck]
    | delimiter_received \<Rightarrow> pstate p' = term_ack_sent \<and> term_cmds w' = [PipeTermAck]
    | term_req_sent1 \<Rightarrow> pstate p' = term_req_sent2 \<and> term_cmds w' = [PipeTermAck]
    | _ \<Rightarrow> False)"
  using assms by (cases "pstate p") (auto simp: process_pipe_term_def steady_def split: if_splits Option.bind_splits)

lemma process_pipe_term_ack_effect:
  assumes "process_pipe_term_ack p w = Some w'" "pw_cmds w = []"
  shows "(pstate p = term_req_sent1 \<and> term_cmds w' = [PipeTermAck])
    \<or> ((pstate p = term_ack_sent \<or> pstate p = term_req_sent2) \<and> term_cmds w' = [])"
proof -
  let ?w1 = "raise_event PipeTerminated w"
  obtain w2 where w2: "(if pstate p = term_req_sent1 then Some (send_cmd PipeTermAck ?w1)
      else do { zmq_assert (pstate p = term_ack_sent \<or> pstate p = term_req_sent2); Some ?w1 }) = Some w2"
    and t: "term_cmds w' = term_cmds w2"
    using assms(1) unfolding process_pipe_term_ack_def Let_def by (auto simp: bind_eq_Some_conv)
  from w2 assms(2) show ?thesis unfolding t by (auto simp: bind_eq_Some_conv split: if_splits)
qed

subsection \<open>The table of reachable situations\<close>

text \<open>The states of two ends, gone ends being \<open>None\<close>, with the commands on their way to the first and to the second.\<close>

definition duo_row :: "pipe_state option \<Rightarrow> pipe_state option \<Rightarrow> pipe_cmd list \<Rightarrow> pipe_cmd list \<Rightarrow> bool" where
  "duo_row a b ta tb \<longleftrightarrow> (a, b, ta, tb) \<in> {
     (Some active, Some active, [], []),
     (Some term_req_sent1, Some active, [], [PipeTerm]),
     (Some term_req_sent1, Some delimiter_received, [], [PipeTerm]),
     (Some term_req_sent1, Some waiting_for_delimiter, [], []),
     (Some term_req_sent1, Some term_ack_sent, [PipeTermAck], []),
     (Some term_req_sent1, Some term_req_sent1, [PipeTerm], [PipeTerm]),
     (Some term_req_sent1, Some term_req_sent2, [PipeTerm, PipeTermAck], []),
     (Some term_req_sent2, Some term_req_sent2, [PipeTermAck], [PipeTermAck]),
     (None, Some term_ack_sent, [], [PipeTermAck]),
     (None, Some term_req_sent2, [], [PipeTermAck]),
     (None, None, [], [])}"

definition duo_ok :: "pipe_duo \<Rightarrow> bool" where
  "duo_ok s \<longleftrightarrow> (\<exists>b. duo_row (st s b) (st s (\<not> b)) (pd_to s b) (pd_to s (\<not> b)))
     \<and> (\<forall>b p. pd_end s b = Some p \<longrightarrow> steady p) \<and> (\<forall>b. (pd_called s b \<longrightarrow> st s b \<noteq> Some active) \<and> (st s b = Some term_req_sent1 \<longrightarrow> pd_called s b))"

definition duo_at :: "pipe_duo \<Rightarrow> bool \<Rightarrow> bool" where
  "duo_at s b \<longleftrightarrow> duo_row (st s b) (st s (\<not> b)) (pd_to s b) (pd_to s (\<not> b)) \<or> duo_row (st s (\<not> b)) (st s b) (pd_to s (\<not> b)) (pd_to s b)"

lemma ex_bool: "(\<exists>c. P c) \<longleftrightarrow> P b \<or> P (\<not> b)"
  by (cases b) (auto simp: ex_bool_eq)

lemma duo_ok_at: "duo_ok s \<longleftrightarrow> duo_at s b \<and> (\<forall>b p. pd_end s b = Some p \<longrightarrow> steady p) \<and> (\<forall>b. (pd_called s b \<longrightarrow> st s b \<noteq> Some active) \<and> (st s b = Some term_req_sent1 \<longrightarrow> pd_called s b))"
  unfolding duo_ok_def duo_at_def ex_bool [of _ b] by simp

lemma duo_act_simps [simp]:
  "st (duo_act b e cs s) b = map_option pstate e" "st (duo_act b e cs s) (\<not> b) = st s (\<not> b)"
  "pd_to (duo_act b e cs s) b = pd_to s b" "pd_to (duo_act b e cs s) (\<not> b) = pd_to s (\<not> b) @ cs"
  "pd_end (duo_act b e cs s) b = e" "pd_end (duo_act b e cs s) (\<not> b) = pd_end s (\<not> b)" "pd_called (duo_act b e cs s) = pd_called s"
  "st (duo_pop b s) = st s" "pd_to (duo_pop b s) b = tl (pd_to s b)" "pd_to (duo_pop b s) (\<not> b) = pd_to s (\<not> b)"
  "pd_end (duo_pop b s) = pd_end s" "pd_called (duo_pop b s) = pd_called s"
  "st (pd_called_update f s) = st s" "pd_to (pd_called_update f s) = pd_to s" "pd_end (pd_called_update f s) = pd_end s"
  by (simp_all add: duo_act_def duo_pop_def st_def fun_eq_iff)

text \<open>An act of one end keeps the table when its row does.\<close>

lemma duo_okI:
  assumes "duo_ok s" "\<And>p. e = Some p \<Longrightarrow> steady p" "\<And>p. e = Some p \<Longrightarrow> v \<Longrightarrow> pstate p \<noteq> active"
    and "\<And>p. e = Some p \<Longrightarrow> pstate p = term_req_sent1 \<Longrightarrow> v"
    and "duo_row (map_option pstate e) (st s (\<not> b)) ta (tb @ cs) \<or> duo_row (st s (\<not> b)) (map_option pstate e) (tb @ cs) ta"
    and "s' = duo_act b e cs s1" "pd_to s1 b = ta" "pd_to s1 (\<not> b) = tb" "pd_end s1 = pd_end s" "pd_called s1 = (pd_called s)(b := v)"
  shows "duo_ok s'"
proof -
  have st1: "st s1 = st s" by (simp add: st_def assms(9) fun_eq_iff)
  have "duo_at s' b" using assms(5,7,8) st1 unfolding duo_at_def assms(6) by simp
  moreover have "steady p" if "pd_end s' c = Some p" for c p
    using that assms(1,2,9) unfolding duo_ok_def assms(6) by (cases "c = b") (auto simp: duo_act_def)
  moreover have "(pd_called s' c \<longrightarrow> st s' c \<noteq> Some active) \<and> (st s' c = Some term_req_sent1 \<longrightarrow> pd_called s' c)" for c
    using assms(1,3,4,10) st1 unfolding assms(6) by (cases "c = b") (auto simp: duo_ok_def st_def duo_act_def assms(9))
  ultimately show ?thesis using duo_ok_at by blast
qed

lemma close_step_ok:
  assumes "close_step s s'" "duo_ok s"
  shows "duo_ok s'"
  using assms
proof (induction rule: close_step.induct)
  case (term_cmd s b cs p w p' w')
  note at = term_cmd.prems [unfolded duo_ok_at [of s b]]
  have p: "steady p" "st s b = Some (pstate p)" using at term_cmd.hyps(2) by (auto simp: st_def)
  note e = process_pipe_term_effect [OF term_cmd.hyps(4,3) p(1)]
  have row: "duo_row (Some (pstate p')) (st s (\<not> b)) cs (pd_to s (\<not> b) @ term_cmds w') \<or>
      duo_row (st s (\<not> b)) (Some (pstate p')) (pd_to s (\<not> b) @ term_cmds w') cs"
    using at e p(2) term_cmd.hyps(1) unfolding duo_at_def duo_row_def by (cases "pstate p") auto
  show ?case
    by (rule duo_okI [OF term_cmd.prems _ _ _ _ refl, where v = "pd_called s b" and ta = cs and tb = "pd_to s (\<not> b)"])
      (use row e term_cmd.hyps(1) in \<open>auto split: pipe_state.splits\<close>)
next
  case (ack_cmd s b cs p w w')
  note at = ack_cmd.prems [unfolded duo_ok_at [of s b]]
  have p: "st s b = Some (pstate p)" using ack_cmd.hyps(2) by (auto simp: st_def)
  note e = process_pipe_term_ack_effect [OF ack_cmd.hyps(4,3)]
  have row: "duo_row None (st s (\<not> b)) cs (pd_to s (\<not> b) @ term_cmds w') \<or>
      duo_row (st s (\<not> b)) None (pd_to s (\<not> b) @ term_cmds w') cs"
    using at e p ack_cmd.hyps(1) unfolding duo_at_def duo_row_def by auto
  show ?case
    by (rule duo_okI [OF ack_cmd.prems _ _ _ _ refl, where v = "pd_called s b" and ta = cs and tb = "pd_to s (\<not> b)"])
      (use row ack_cmd.hyps(1) in auto)
next
  case (delimiter_read s b p w p' w')
  note at = delimiter_read.prems [unfolded duo_ok_at [of s b]]
  have p: "steady p" "st s b = Some (pstate p)" "st s (\<not> b) \<noteq> Some active"
    using at delimiter_read.hyps(1,2) by (auto simp: st_def)
  note e = process_delimiter_effect [OF delimiter_read.hyps(5,4) p(1)]
  have row: "duo_row (Some (pstate p')) (st s (\<not> b)) (pd_to s b) (pd_to s (\<not> b) @ term_cmds w') \<or>
      duo_row (st s (\<not> b)) (Some (pstate p')) (pd_to s (\<not> b) @ term_cmds w') (pd_to s b)"
    using at e p(2,3) unfolding duo_at_def duo_row_def by (auto split: if_splits)
  show ?case
    by (rule duo_okI [OF delimiter_read.prems _ _ _ _ refl, where v = "pd_called s b" and ta = "pd_to s b" and tb = "pd_to s (\<not> b)"])
      (use row e in \<open>auto split: if_splits\<close>)
qed

lemma duo_step_ok:
  assumes "duo_step s s'" "duo_ok s"
  shows "duo_ok s'"
  using assms
proof (induction rule: duo_step.induct)
  case (closing s s')
  then show ?case by (rule close_step_ok)
next
  case (called s b p w d p' w')
  note at = called.prems [unfolded duo_ok_at [of s b]]
  have p: "steady p" "st s b = Some (pstate p)" using at called.hyps(1) by (auto simp: st_def)
  note e = pipe_terminate_effect [OF called.hyps(3,2) p(1)]
  have row: "duo_row (Some (pstate p')) (st s (\<not> b)) (pd_to s b) (pd_to s (\<not> b) @ term_cmds w') \<or>
      duo_row (st s (\<not> b)) (Some (pstate p')) (pd_to s (\<not> b) @ term_cmds w') (pd_to s b)"
    using at e p(2) unfolding duo_at_def duo_row_def by (cases "pstate p") auto
  have na: "pstate p' \<noteq> active" using e by (cases "pstate p") auto
  let ?s1 = "s\<lparr>pd_called := (pd_called s)(b := True)\<rparr>"
  have "(duo_act b (Some p') (term_cmds w') s)\<lparr>pd_called := (pd_called s)(b := True)\<rparr> = duo_act b (Some p') (term_cmds w') ?s1"
    by (simp add: duo_act_def)
  then show ?case
    by (rule duo_okI [OF called.prems, where v = True and ta = "pd_to s b" and tb = "pd_to s (\<not> b)", rotated 4]) (use row e na in auto)
next
  case (nodelay s b p)
  note at = nodelay.prems [unfolded duo_ok_at [of s b]]
  have p: "steady p" "st s b = Some (pstate p)" using at nodelay.hyps by (auto simp: st_def)
  show ?case
    by (rule duo_okI [OF nodelay.prems _ _ _ _ refl, where v = "pd_called s b" and ta = "pd_to s b" and tb = "pd_to s (\<not> b)"])
      (use at p in \<open>auto simp: steady_def set_nodelay_def duo_at_def\<close>)
qed

lemma new_duo_ok: "duo_ok (new_duo u1 u2 h1 h2 c1 c2)"
  by (auto simp: duo_ok_def new_duo_def duo_row_def st_def attached_def new_pipe_def steady_def split: if_splits)

lemma duo_reach_ok: "duo_step\<^sup>*\<^sup>* (new_duo u1 u2 h1 h2 c1 c2) s \<Longrightarrow> duo_ok s"
  by (induction rule: rtranclp_induct) (use new_duo_ok duo_step_ok in auto)

subsection \<open>Progress\<close>

definition open_world :: "msg_heap \<Rightarrow> pipe_world" where
  "open_world h = \<lparr>pw_upipes = (\<lambda>_. Some (Normal pq_new)), pw_heap = h, pw_cmds = [], pw_events = [], pw_lock = True\<rparr>"

lemma open_world_ops:
  "rollback p (open_world h) \<noteq> None"
  "steady p \<Longrightarrow> pstate p = term_req_sent1 \<or> pstate p = term_ack_sent \<or> pstate p = term_req_sent2 \<Longrightarrow>
    process_pipe_term_ack p (open_world h) \<noteq> None"
proof -
  have un: "rollback_up (Normal pq_new) h = Some (Normal pq_new, h)"
    by (subst rollback_up.simps) (simp add: pq_unwrite_def pq_new_def)
  then show "rollback p (open_world h) \<noteq> None" by (simp add: rollback_def open_world_def split: option.splits)
  have dr: "drain (Normal pq_new) h = Some (0, Normal (pq_new\<lparr>asleep := True\<rparr>), h)"
    by (subst drain.simps) (simp add: pq_read_def pq_new_def)
  show "process_pipe_term_ack p (open_world h) \<noteq> None"
    if "steady p" "pstate p = term_req_sent1 \<or> pstate p = term_ack_sent \<or> pstate p = term_req_sent2"
    using that dr by (auto simp: process_pipe_term_ack_def steady_def open_world_def raise_event_def send_cmd_def close_init Let_def)
qed

fun state_left :: "pipe_state \<Rightarrow> nat" where
  "state_left active = 2"
| "state_left delimiter_received = 1"
| "state_left waiting_for_delimiter = 1"
| "state_left term_ack_sent = 0"
| "state_left term_req_sent1 = 2"
| "state_left term_req_sent2 = 1"

definition duo_left :: "pipe_duo \<Rightarrow> nat" where
  "duo_left s = (case (pd_end s True, pd_end s False) of
     (Some p, Some q) \<Rightarrow> state_left (pstate p) + state_left (pstate q)
   | (None, None) \<Rightarrow> 0
   | _ \<Rightarrow> 1)"

lemma duo_left_at: "duo_left s = (case (pd_end s b, pd_end s (\<not> b)) of
     (Some p, Some q) \<Rightarrow> state_left (pstate p) + state_left (pstate q)
   | (None, None) \<Rightarrow> 0
   | _ \<Rightarrow> 1)"
  by (cases b) (auto simp: duo_left_def split: option.splits)

lemma duo_left_bound: "duo_left s \<le> 4"
proof -
  have "state_left x \<le> 2" for x by (cases x) auto
  then show ?thesis by (auto simp: duo_left_def split: option.splits intro: add_mono [of _ 2 _ 2, simplified])
qed

lemma close_step_left:
  assumes "close_step s s'" "duo_ok s"
  shows "duo_left s' < duo_left s \<and> pd_called s' = pd_called s"
  using assms
proof (induction rule: close_step.induct)
  case (term_cmd s b cs p w p' w')
  note at = term_cmd.prems [unfolded duo_ok_at [of s b]]
  note e = process_pipe_term_effect [OF term_cmd.hyps(4,3)]
  show ?case
    using at e term_cmd.hyps(1,2) unfolding duo_left_at [of _ b] duo_at_def duo_row_def st_def
    by (cases "pstate p") (auto split: option.splits)
next
  case (ack_cmd s b cs p w w')
  note at = ack_cmd.prems [unfolded duo_ok_at [of s b]]
  show ?case
    using at ack_cmd.hyps(1,2) unfolding duo_left_at [of _ b] duo_at_def duo_row_def st_def
    by (auto split: option.splits)
next
  case (delimiter_read s b p w p' w')
  note at = delimiter_read.prems [unfolded duo_ok_at [of s b]]
  note e = process_delimiter_effect [OF delimiter_read.hyps(5,4)]
  show ?case
    using at e delimiter_read.hyps(1,2) unfolding duo_left_at [of _ b] duo_at_def duo_row_def st_def
    by (auto split: option.splits if_splits)
qed


lemma close_step_possible:
  assumes "duo_ok s" "pd_called s c" "duo_left s \<noteq> 0"
  shows "\<exists>s'. close_step s s'"
proof -
  obtain b where row: "duo_row (st s b) (st s (\<not> b)) (pd_to s b) (pd_to s (\<not> b))" using assms(1) by (auto simp: duo_ok_def)
  have na: "steady p" if "pd_end s d = Some p" for d p using assms(1) that by (auto simp: duo_ok_def)
  have world: "pw_cmds (open_world h) = []" for h by (simp add: open_world_def)
  have T: "\<exists>s'. close_step s s'" if "pd_to s d = PipeTerm # cs" "st s d \<in> {Some active, Some delimiter_received, Some term_req_sent1}" for d cs
  proof -
    note h = that
    obtain p where p: "pd_end s d = Some p" "pstate p \<in> {active, delimiter_received, term_req_sent1}" using h(2) by (auto simp: st_def)
    then have "process_pipe_term p (open_world undefined) \<noteq> None" by (auto simp: process_pipe_term_def)
    then show ?thesis using close_step.term_cmd [OF that(1) p(1) world] by fast
  qed
  have A: "\<exists>s'. close_step s s'" if "pd_to s d = PipeTermAck # cs" "st s d \<in> {Some term_req_sent1, Some term_ack_sent, Some term_req_sent2}" for d cs
  proof -
    note h = that
    obtain p where p: "pd_end s d = Some p" "pstate p = term_req_sent1 \<or> pstate p = term_ack_sent \<or> pstate p = term_req_sent2" using h(2) by (auto simp: st_def)
    then have "process_pipe_term_ack p (open_world undefined) \<noteq> None" using open_world_ops(2) na by blast
    then show ?thesis using close_step.ack_cmd [OF that(1) p(1) world] by fast
  qed
  have D: "\<exists>s'. close_step s s'" if "st s b = Some term_req_sent1" "st s (\<not> b) = Some waiting_for_delimiter"
  proof -
    note h = that
    obtain p where p: "pd_end s (\<not> b) = Some p" "pstate p = waiting_for_delimiter" using h(2) by (auto simp: st_def)
    have call: "pd_called s (\<not> \<not> b)" using assms(1) that(1) by (simp add: duo_ok_def)
    moreover from p(2) obtain w1 where "pstate p = waiting_for_delimiter" "rollback p (open_world undefined) = Some w1" using open_world_ops(1) by fast
    ultimately have "\<exists>r. process_delimiter p (open_world undefined) = Some r" by (simp add: process_delimiter_def)
    then show ?thesis using close_step.delimiter_read [OF p(1) call _ world] p(2) by fast
  qed
  have both: "st s b \<noteq> Some active \<or> st s (\<not> b) \<noteq> Some active"
    using assms(1,2) by (cases "c = b") (auto simp: duo_ok_def)
  have left: "st s b \<noteq> None \<or> st s (\<not> b) \<noteq> None"
    using assms(3) by (auto simp: duo_left_at [of s b] st_def split: option.splits)
  show ?thesis using row both left T A D unfolding duo_row_def by auto
qed

lemma terminate_started:
  "\<exists>s. duo_step\<^sup>*\<^sup>* (new_duo u1 u2 h1 h2 False False) s \<and> pd_called s True \<and> pd_to s False = [PipeTerm] \<and> pd_end s True \<noteq> None"
proof -
  let ?s = "new_duo u1 u2 h1 h2 False False" and ?p = "attached (new_pipe u1 u2 h2 h1 False)" and ?w = "open_world undefined"
  have un: "rollback_up (Normal pq_new) h = Some (Normal pq_new, h)" for h
    by (subst rollback_up.simps) (simp add: pq_unwrite_def pq_new_def)
  have e: "pd_end ?s True = Some ?p" and w: "pw_cmds ?w = []" and p: "pstate ?p = active" "steady ?p"
    by (simp_all add: new_duo_def open_world_def attached_def new_pipe_def steady_def)
  have "\<exists>p' w'. pipe_terminate True ?p ?w = Some (p', w')"
    by (simp add: pipe_terminate_def terminate_tail_def attached_def new_pipe_def open_world_def send_cmd_def rollback_def un [unfolded pq_new_def]
        up_write_at_def get_up_def pipe_flush_def put_up_def Let_def pq_defs)
  then obtain p' w' where t: "pipe_terminate True ?p ?w = Some (p', w')" by blast
  show ?thesis using pipe_terminate_effect [OF t w p(2)] p(1) r_into_rtranclp [of duo_step, OF duo_step.called [OF e w t]]
    by (intro exI conjI) (auto simp: duo_act_def new_duo_def)
qed





end
