(* ===== verification/Z85.thy ===== *)
theory Z85
  imports Sockopt
begin

text \<open>
  The Z85 text form of binary keys (\<^verbatim>\<open>zmq_z85_encode\<close> and \<^verbatim>\<open>zmq_z85_decode\<close> of
  zmq_utils.cpp): four bytes as five characters. The loops work on 32-bit words as the source's do. The
  decoder writes into its destination while it reads, so what a failed call leaves there is part
  of its result. \<open>None\<close> is a failing assertion or a write outside the destination.
\<close>

definition bytes_of_string :: "string \<Rightarrow> bytes" where
  "bytes_of_string s = map (\<lambda>c. of_nat (of_char c)) s"

definition z85_encoder :: bytes where
  "z85_encoder = bytes_of_string
     ''0123456789abcdefghijklmnopqrstuvwxyzABCDEFGHIJKLMNOPQRSTUVWXYZ.-:+=^!/*?&<>()[]{}@%$#''"

definition z85_decoder :: "nat list" where
  "z85_decoder =
     [0xFF, 0x44, 0xFF, 0x54, 0x53, 0x52, 0x48, 0xFF, 0x4B, 0x4C, 0x46, 0x41,
      0xFF, 0x3F, 0x3E, 0x45, 0x00, 0x01, 0x02, 0x03, 0x04, 0x05, 0x06, 0x07,
      0x08, 0x09, 0x40, 0xFF, 0x49, 0x42, 0x4A, 0x47, 0x51, 0x24, 0x25, 0x26,
      0x27, 0x28, 0x29, 0x2A, 0x2B, 0x2C, 0x2D, 0x2E, 0x2F, 0x30, 0x31, 0x32,
      0x33, 0x34, 0x35, 0x36, 0x37, 0x38, 0x39, 0x3A, 0x3B, 0x3C, 0x3D, 0x4D,
      0xFF, 0x4E, 0x43, 0xFF, 0xFF, 0x0A, 0x0B, 0x0C, 0x0D, 0x0E, 0x0F, 0x10,
      0x11, 0x12, 0x13, 0x14, 0x15, 0x16, 0x17, 0x18, 0x19, 0x1A, 0x1B, 0x1C,
      0x1D, 0x1E, 0x1F, 0x20, 0x21, 0x22, 0x23, 0x4F, 0xFF, 0x50, 0xFF, 0xFF]"

text \<open>The digits of a value: the inner \<^verbatim>\<open>while (divisor)\<close> loop of both functions.\<close>

fun z85_digits :: "nat \<Rightarrow> nat \<Rightarrow> nat \<Rightarrow> nat list" where
  "z85_digits base divisor v =
     (if divisor = 0 \<or> base < 2 then [] else v div divisor mod base # z85_digits base (divisor div base) v)"

declare z85_digits.simps [simp del]

definition z85_digits_85 :: "u32 \<Rightarrow> bytes" where
  "z85_digits_85 v = map ((!) z85_encoder) (z85_digits 85 (85 * 85 * 85 * 85) (unat v))"

definition z85_digits_256 :: "u32 \<Rightarrow> bytes" where
  "z85_digits_256 v = map of_nat (z85_digits 256 (256 * 256 * 256) (unat v))"

fun z85_encode_loop :: "bytes \<Rightarrow> nat \<Rightarrow> u32 \<Rightarrow> bytes" where
  "z85_encode_loop [] byte_nbr v = []"
| "z85_encode_loop (b # data) byte_nbr v =
     (let v = v * 256 + ucast b; byte_nbr = byte_nbr + 1
      in if byte_nbr mod 4 = 0 then z85_digits_85 v @ z85_encode_loop data byte_nbr 0
         else z85_encode_loop data byte_nbr v)"

definition zmq_z85_encode :: "bytes \<Rightarrow> (errno + bytes) option" where
  "zmq_z85_encode data =
     (if length data mod 4 \<noteq> 0 then Some (Inl EINVAL)
      else (let dest = z85_encode_loop data 0 0 in do {
        zmq_assert (length dest = length data * 5 div 4);
        Some (Inr (dest @ [0]))
      }))"

text \<open>Writing the four bytes of a group at \<open>byte_nbr\<close>.\<close>

definition write_at :: "bytes \<Rightarrow> nat \<Rightarrow> bytes \<Rightarrow> bytes option" where
  "write_at dest i bs = (if i + length bs \<le> length dest then Some (take i dest @ bs @ drop (i + length bs) dest) else None)"

fun z85_decode_loop :: "bytes \<Rightarrow> nat \<Rightarrow> nat \<Rightarrow> u32 \<Rightarrow> bytes \<Rightarrow> (bool \<times> nat \<times> bytes) option" where
  "z85_decode_loop [] char_nbr byte_nbr v dest = Some (char_nbr mod 5 = 0, byte_nbr, dest)"
| "z85_decode_loop (c # s) char_nbr byte_nbr v dest =
     (if 0xFFFFFFFF div 85 < v then Some (False, byte_nbr, dest)
      else
        let v = v * 85; index = unat (c - 32); char_nbr = char_nbr + 1 in
        if index \<ge> length z85_decoder then Some (False, byte_nbr, dest)
        else
          let summand = (of_nat (z85_decoder ! index) :: u32) in
          if summand = 0xFF \<or> summand > 0xFFFFFFFF - v then Some (False, byte_nbr, dest)
          else
            let v = v + summand in
            if char_nbr mod 5 = 0 then do {
              dest \<leftarrow> write_at dest byte_nbr (z85_digits_256 v);
              z85_decode_loop s char_nbr (byte_nbr + 4) 0 dest
            } else z85_decode_loop s char_nbr byte_nbr v dest)"

declare z85_decode_loop.simps(2) [simp del]

text \<open>The C string at the start of a buffer; \<open>None\<close> when no null byte ends it.\<close>

definition c_bytes :: "bytes \<Rightarrow> bytes" where
  "c_bytes b = takeWhile (\<lambda>c. c \<noteq> 0) b"

definition zmq_z85_decode :: "bytes \<Rightarrow> bytes \<Rightarrow> (bool \<times> bytes) option" where
  "zmq_z85_decode dest str =
     (let s = c_bytes str in
      if length s < 5 \<or> length s mod 5 \<noteq> 0 then Some (False, dest)
      else do {
        (ok, byte_nbr, dest') \<leftarrow> z85_decode_loop s 0 0 0 dest;
        (if ok then do { zmq_assert (byte_nbr = length s * 4 div 5); Some (True, dest') }
         else Some (False, dest'))
      })"

lemma z85_encoder_numbers: "z85_encoder =
  [48, 49, 50, 51, 52, 53, 54, 55, 56, 57, 97, 98, 99, 100, 101, 102, 103, 104, 105, 106, 107, 108, 109, 110, 111, 112, 113, 114, 115, 116, 117, 118, 119, 120, 121, 122, 65, 66, 67, 68, 69, 70, 71, 72, 73, 74, 75, 76, 77, 78, 79, 80, 81, 82, 83, 84, 85, 86, 87, 88, 89, 90, 46, 45, 58, 43, 61, 94, 33, 47, 42, 63, 38, 60, 62, 40, 41, 91, 93, 123, 125, 64, 37, 36, 35]"
  by (simp add: z85_encoder_def bytes_of_string_def)

lemma z85_encoder_length [simp]: "length z85_encoder = 85"
  by (simp add: z85_encoder_numbers)

lemma z85_decoder_length [simp]: "length z85_decoder = 96"
  by (simp add: z85_decoder_def)

lemma z85_tables_list: "map (\<lambda>c. z85_decoder ! unat (c - 32)) z85_encoder = [0..<85]"
  by (simp add: z85_encoder_numbers z85_decoder_def upt_rec)

lemma z85_range_list: "list_all (\<lambda>c. unat (c - 32) < 96 \<and> c \<noteq> 0) z85_encoder"
  by (simp add: z85_encoder_numbers)

lemma z85_inverse_list:
  "list_all (\<lambda>i. z85_decoder ! i = 255 \<or> z85_decoder ! i < 85 \<and> z85_encoder ! (z85_decoder ! i) = of_nat i + 32) [0..<96]"
  by (simp add: z85_encoder_numbers z85_decoder_def upt_rec)

subsection \<open>The two tables are inverse to each other\<close>

lemma list_all_upt: "list_all P [a..<b] \<longleftrightarrow> (\<forall>i. a \<le> i \<longrightarrow> i < b \<longrightarrow> P i)"
  by (auto simp: list_all_iff)

lemma z85_encoder_char:
  assumes "k < 85"
  shows "unat (z85_encoder ! k - 32) < 96" "z85_decoder ! unat (z85_encoder ! k - 32) = k" "z85_encoder ! k \<noteq> 0"
proof -
  have in_tab: "z85_encoder ! k \<in> set z85_encoder" using assms by simp
  then show "unat (z85_encoder ! k - 32) < 96" "z85_encoder ! k \<noteq> 0" using z85_range_list by (simp_all add: list_all_iff)
  have "map (\<lambda>c. z85_decoder ! unat (c - 32)) z85_encoder ! k = k" using assms by (simp only: z85_tables_list) simp
  then show "z85_decoder ! unat (z85_encoder ! k - 32) = k" using assms by simp
qed

lemma z85_decoder_char:
  assumes "unat (c - 32 :: byte) < 96" "z85_decoder ! unat (c - 32) \<noteq> 255"
  shows "z85_decoder ! unat (c - 32) < 85" "z85_encoder ! (z85_decoder ! unat (c - 32)) = c"
proof -
  let ?P = "\<lambda>i. z85_decoder ! i = 255 \<or> z85_decoder ! i < 85 \<and> z85_encoder ! (z85_decoder ! i) = of_nat i + 32"
  have "?P (unat (c - 32))"
    by (rule list_all_upt [where P = ?P and a = 0 and b = 96, THEN iffD1, rule_format]) (use z85_inverse_list assms(1) in \<open>simp_all only: le0\<close>)
  then show "z85_decoder ! unat (c - 32) < 85" "z85_encoder ! (z85_decoder ! unat (c - 32)) = c" using assms(2) by simp_all
qed

subsection \<open>One character\<close>

lemma z85_acc:
  assumes "unat (v :: u32) * 85 + k < 4294967296"
  shows "unat (v * 85) = unat v * 85" "unat (v * 85 + of_nat k) = unat v * 85 + k"
proof -
  show a: "unat (v * 85) = unat v * 85" using assms by (simp add: unat_word_ariths)
  have "unat (of_nat k :: u32) = k" using assms by (simp add: unat_of_nat)
  with a show "unat (v * 85 + of_nat k) = unat v * 85 + k" using assms by (simp add: unat_word_ariths)
qed

lemma z85_guards:
  fixes v :: u32
  assumes "k < 85"
  shows "\<not> 0xFFFFFFFF div 85 < v \<and> \<not> (of_nat k :: u32) > 0xFFFFFFFF - v * 85 \<longleftrightarrow> unat v * 85 + k < 4294967296"
proof (cases "unat v \<le> 50529027")
  case True
  have e: "unat (v * 85) = unat v * 85" using True by (simp add: unat_word_ariths)
  then have "v * 85 \<le> 0xFFFFFFFF" using True by (simp add: word_le_nat_alt)
  then have "unat (0xFFFFFFFF - v * 85) = 4294967295 - unat v * 85" using e by (simp add: unat_sub)
  moreover have "unat (of_nat k :: u32) = k" using assms by (simp add: unat_of_nat)
  ultimately show ?thesis using True by (auto simp: word_less_nat_alt)
next
  case False
  then show ?thesis by (auto simp: word_less_nat_alt)
qed

lemma z85_decode_step:
  assumes "k < 85" "unat v * 85 + k < 4294967296"
  shows "z85_decode_loop (z85_encoder ! k # s) n m v dest
    = (if Suc n mod 5 = 0 then do {
         dest \<leftarrow> write_at dest m (z85_digits_256 (v * 85 + of_nat k));
         z85_decode_loop s (Suc n) (m + 4) 0 dest
       } else z85_decode_loop s (Suc n) m (v * 85 + of_nat k) dest)"
proof -
  have "(of_nat k :: u32) \<noteq> 0xFF"
  proof
    assume "(of_nat k :: u32) = 0xFF"
    then have "unat (of_nat k :: u32) = unat (0xFF :: u32)" by (rule arg_cong)
    with assms(1) show False by (simp add: unat_of_nat)
  qed
  moreover have "\<not> 0xFFFFFFFF div 85 < v" "\<not> (of_nat k :: u32) > 0xFFFFFFFF - v * 85"
    using z85_guards [OF assms(1), of v] assms(2) by blast+
  ultimately show ?thesis using z85_encoder_char [OF assms(1)] by (simp add: Let_def z85_decode_loop.simps(2))
qed

lemma z85_decode_step_inv:
  assumes "z85_decode_loop (c # s) n m v dest = Some (True, m', dest')"
  obtains k where "k < 85" "c = z85_encoder ! k" "unat v * 85 + k < 4294967296"
proof -
  let ?k = "z85_decoder ! unat (c - 32)"
  have a: "\<not> 0xFFFFFFFF div 85 < v" using assms by (auto simp: z85_decode_loop.simps(2) split: if_splits)
  have b: "unat (c - 32) < 96" using assms a by (simp add: z85_decode_loop.simps(2) Let_def split: if_splits)
  have c: "(of_nat ?k :: u32) \<noteq> 0xFF" "\<not> (of_nat ?k :: u32) > 0xFFFFFFFF - v * 85" using assms a b by (auto simp: z85_decode_loop.simps(2) Let_def split: if_splits)
  have "?k \<noteq> 255" using c(1) by auto
  then have "?k < 85" "c = z85_encoder ! ?k" using z85_decoder_char [OF b] by auto
  with z85_guards [of ?k v] a c that show thesis by blast
qed


subsection \<open>One group of five characters\<close>

lemma div_div_mod_step: "v div (b * d) * b + v div d mod b = (v div d :: nat)"
  by (simp add: div_mult2_eq mult.commute [of b d])

lemma z85_digits_85_unfold:
  "z85_digits_85 v = [z85_encoder ! (unat v div 52200625 mod 85), z85_encoder ! (unat v div 614125 mod 85),
     z85_encoder ! (unat v div 7225 mod 85), z85_encoder ! (unat v div 85 mod 85), z85_encoder ! (unat v mod 85)]"
  by (simp add: z85_digits_85_def z85_digits.simps)

lemma z85_digits_256_unfold:
  "z85_digits_256 v = [of_nat (unat v div 16777216 mod 256), of_nat (unat v div 65536 mod 256),
     of_nat (unat v div 256 mod 256), of_nat (unat v mod 256)]"
  by (simp add: z85_digits_256_def z85_digits.simps)

lemma length_z85_digits [simp]: "length (z85_digits_85 v) = 5" "length (z85_digits_256 v) = 4"
  by (simp_all add: z85_digits_85_unfold z85_digits_256_unfold)

lemma u32_less: "unat (v :: u32) < 4294967296"
  using unsigned_less [of v, where 'a = nat] by simp

lemma z85_decode_group:
  assumes "n mod 5 = 0"
  shows "z85_decode_loop (z85_digits_85 v @ s) n m 0 dest
    = do { dest \<leftarrow> write_at dest m (z85_digits_256 v); z85_decode_loop s (n + 5) (m + 4) 0 dest }"
proof -
  let ?u = "unat v"
  have u: "?u < 4294967296" by (rule u32_less)
  have top: "?u div 52200625 < 85" using u by (simp add: div_less_iff_less_mult)
  then have steps: "?u div 52200625 mod 85 = ?u div 52200625"
    "?u div 52200625 * 85 + ?u div 614125 mod 85 = ?u div 614125"
    "?u div 614125 * 85 + ?u div 7225 mod 85 = ?u div 7225"
    "?u div 7225 * 85 + ?u div 85 mod 85 = ?u div 85"
    "?u div 85 * 85 + ?u mod 85 = ?u"
    using u div_div_mod_step [of ?u 85 614125] div_div_mod_step [of ?u 85 7225] div_div_mod_step [of ?u 85 85]
    by simp_all
  define a where "a = (of_nat (?u div 52200625) :: u32)"
  define b where "b = a * 85 + of_nat (?u div 614125 mod 85)"
  define c where "c = b * 85 + of_nat (?u div 7225 mod 85)"
  define d where "d = c * 85 + of_nat (?u div 85 mod 85)"
  have le: "?u div k < 4294967296" for k using u div_le_dividend [of ?u k] by linarith
  have a: "unat a = ?u div 52200625" unfolding a_def using le by (simp add: unat_of_nat)
  have b: "unat b = ?u div 614125" unfolding b_def using z85_acc(2) [of a "?u div 614125 mod 85"] steps(2) a le by simp
  have c: "unat c = ?u div 7225" unfolding c_def using z85_acc(2) [of b "?u div 7225 mod 85"] steps(3) b le by simp
  have d: "unat d = ?u div 85" unfolding d_def using z85_acc(2) [of c "?u div 85 mod 85"] steps(4) c le by simp
  have v: "d * 85 + of_nat (?u mod 85) = v"
    using z85_acc(2) [of d "?u mod 85"] steps(5) d u by (simp add: word_unat_eq_iff)
  have mods: "Suc n mod 5 \<noteq> 0" "Suc (Suc n) mod 5 \<noteq> 0" "Suc (Suc (Suc n)) mod 5 \<noteq> 0" "Suc (Suc (Suc (Suc n))) mod 5 \<noteq> 0"
    "Suc (Suc (Suc (Suc (Suc n)))) mod 5 = 0" "Suc (Suc (Suc (Suc (Suc n)))) = n + 5"
    using assms by presburger+
  have s1: "z85_decode_loop (z85_encoder ! (?u div 52200625 mod 85) # r) n m 0 dest = z85_decode_loop r (Suc n) m a dest" for r
    using z85_decode_step [of "?u div 52200625 mod 85" 0 r n m dest] mods(1) steps(1) by (simp add: a_def)
  have s2: "z85_decode_loop (z85_encoder ! (?u div 614125 mod 85) # r) (Suc n) m a dest = z85_decode_loop r (Suc (Suc n)) m b dest" for r
    using z85_decode_step [of "?u div 614125 mod 85" a r "Suc n" m dest] mods(2) steps(2) a le by (simp add: b_def)
  have s3: "z85_decode_loop (z85_encoder ! (?u div 7225 mod 85) # r) (Suc (Suc n)) m b dest = z85_decode_loop r (Suc (Suc (Suc n))) m c dest" for r
    using z85_decode_step [of "?u div 7225 mod 85" b r "Suc (Suc n)" m dest] mods(3) steps(3) b le by (simp add: c_def)
  have s4: "z85_decode_loop (z85_encoder ! (?u div 85 mod 85) # r) (Suc (Suc (Suc n))) m c dest = z85_decode_loop r (Suc (Suc (Suc (Suc n)))) m d dest" for r
    using z85_decode_step [of "?u div 85 mod 85" c r "Suc (Suc (Suc n))" m dest] mods(4) steps(4) c le by (simp add: d_def)
  have s5: "z85_decode_loop (z85_encoder ! (?u mod 85) # r) (Suc (Suc (Suc (Suc n)))) m d dest
      = do { dest \<leftarrow> write_at dest m (z85_digits_256 v); z85_decode_loop r (n + 5) (m + 4) 0 dest }" for r
    using z85_decode_step [of "?u mod 85" d r "Suc (Suc (Suc (Suc n)))" m dest] mods(5) steps(5) d u v
    by (simp add: mods(6) [symmetric])
  show ?thesis by (simp only: z85_digits_85_unfold append_Cons append_Nil s1 s2 s3 s4 s5)
qed

lemma z85_digits_horner:
  assumes "a < 85" "b < 85" "c < 85" "d < 85" "e < 85" "unat v = (((a * 85 + b) * 85 + c) * 85 + d) * 85 + e"
  shows "z85_digits_85 v = [z85_encoder ! a, z85_encoder ! b, z85_encoder ! c, z85_encoder ! d, z85_encoder ! e]"
proof -
  have quot: "(x * 85 + y) div 85 = x" "(x * 85 + y) mod 85 = y" if "y < 85" for x y :: nat using that by simp_all
  have pows: "u div 7225 = u div 85 div 85" "u div 614125 = u div 85 div 85 div 85" "u div 52200625 = u div 85 div 85 div 85 div 85"
    for u :: nat by (simp_all add: div_mult2_eq [symmetric])
  show ?thesis using assms by (simp only: z85_digits_85_unfold pows quot mod_less)
qed

lemma z85_decode_group_inv:
  assumes run: "z85_decode_loop s n m 0 dest = Some (True, m', dest')" and n: "n mod 5 = 0" and s: "s \<noteq> []"
  obtains v r where "s = z85_digits_85 v @ r"
proof -
  have mods: "Suc n mod 5 \<noteq> 0" "Suc (Suc n) mod 5 \<noteq> 0" "Suc (Suc (Suc n)) mod 5 \<noteq> 0" "Suc (Suc (Suc (Suc n))) mod 5 \<noteq> 0"
    using n by presburger+
  have one: "\<exists>k r. k < 85 \<and> t = z85_encoder ! k # r \<and> unat u * 85 + k < 4294967296
      \<and> (Suc i mod 5 \<noteq> 0 \<longrightarrow> z85_decode_loop r (Suc i) m (u * 85 + of_nat k) dest = Some (True, m', dest'))"
    if t: "z85_decode_loop t i m u dest = Some (True, m', dest')" and i: "t = [] \<longrightarrow> i mod 5 \<noteq> 0" for t i u
  proof (cases t)
    case (Cons c r)
    obtain k where k: "k < 85" "c = z85_encoder ! k" "unat u * 85 + k < 4294967296"
      using z85_decode_step_inv t [unfolded Cons] by metis
    then show ?thesis using t z85_decode_step [OF k(1,3), of r i m dest] Cons by (intro exI [of _ k] exI [of _ r]) auto
  qed (use t i in simp)
  obtain a r1 where a: "a < 85" "s = z85_encoder ! a # r1" "z85_decode_loop r1 (Suc n) m (of_nat a) dest = Some (True, m', dest')"
    using one [OF run] s mods(1) by auto
  obtain b r2 where b: "b < 85" "r1 = z85_encoder ! b # r2" "unat (of_nat a :: u32) * 85 + b < 4294967296"
      "z85_decode_loop r2 (Suc (Suc n)) m (of_nat a * 85 + of_nat b) dest = Some (True, m', dest')"
    using one [OF a(3)] mods(1,2) by auto
  obtain c r3 where c: "c < 85" "r2 = z85_encoder ! c # r3" "unat (of_nat a * 85 + of_nat b :: u32) * 85 + c < 4294967296"
      "z85_decode_loop r3 (Suc (Suc (Suc n))) m ((of_nat a * 85 + of_nat b) * 85 + of_nat c) dest = Some (True, m', dest')"
    using one [OF b(4)] mods(2,3) by auto
  obtain d r4 where d: "d < 85" "r3 = z85_encoder ! d # r4" "unat ((of_nat a * 85 + of_nat b) * 85 + of_nat c :: u32) * 85 + d < 4294967296"
      "z85_decode_loop r4 (Suc (Suc (Suc (Suc n)))) m (((of_nat a * 85 + of_nat b) * 85 + of_nat c) * 85 + of_nat d) dest = Some (True, m', dest')"
    using one [OF c(4)] mods(3,4) by auto
  obtain e r where e: "e < 85" "r4 = z85_encoder ! e # r"
      "unat (((of_nat a * 85 + of_nat b) * 85 + of_nat c) * 85 + of_nat d :: u32) * 85 + e < 4294967296"
    using one [OF d(4)] mods(4) by auto
  have "unat (of_nat a :: u32) = a" using a(1) by (simp add: unat_of_nat)
  then have "unat ((((of_nat a * 85 + of_nat b) * 85 + of_nat c) * 85 + of_nat d) * 85 + of_nat e :: u32)
      = (((a * 85 + b) * 85 + c) * 85 + d) * 85 + e"
    using z85_acc(2) [OF b(3)] z85_acc(2) [OF c(3)] z85_acc(2) [OF d(3)] z85_acc(2) [OF e(3)] by simp
  note digits = z85_digits_horner [OF a(1) b(1) c(1) d(1) e(1) this]
  show thesis
    by (rule that [of "(((of_nat a * 85 + of_nat b) * 85 + of_nat c) * 85 + of_nat d) * 85 + of_nat e" r])
      (simp only: digits a(2) b(2) c(2) d(2) e(2) append_Cons append_Nil)
qed

subsection \<open>The whole text\<close>

lemma write_at_write_at:
  assumes "write_at dest m xs = Some d1" "write_at d1 (m + length xs) ys = Some d2"
  shows "write_at dest m (xs @ ys) = Some d2"
  using assms by (auto simp: write_at_def add.assoc add.commute [of "length ys"] split: if_splits)

fun groups4 :: "'a list \<Rightarrow> bool" where
  "groups4 [] = True"
| "groups4 (a # b # c # d # xs) = groups4 xs"
| "groups4 _ = False"

lemma mod_4_plus_4: "Suc (Suc (Suc (Suc n))) mod 4 = n mod 4"
  by presburger

lemma groups4_iff: "groups4 xs \<longleftrightarrow> length xs mod 4 = 0"
  by (induction xs rule: groups4.induct) (simp_all add: mod_4_plus_4)

definition be_word :: "byte \<Rightarrow> byte \<Rightarrow> byte \<Rightarrow> byte \<Rightarrow> u32" where
  "be_word a b c d = ((ucast a * 256 + ucast b) * 256 + ucast c) * 256 + ucast d"

lemma z85_acc_256:
  assumes "unat (v :: u32) < 16777216"
  shows "unat (v * 256 + ucast (b :: byte)) = unat v * 256 + unat b"
proof -
  have "unat (ucast b :: u32) = unat b"
    using less_trans [OF unat_byte_less [of b], of 4294967296] by (simp add: unsigned_ucast_eq take_bit_nat_eq_self_iff)
  moreover have "unat (v * 256) = unat v * 256" using assms by (simp add: unat_word_ariths)
  moreover have "unat v * 256 + unat b < 4294967296" using assms unat_byte_less [of b] by linarith
  ultimately show ?thesis by (simp add: unat_word_ariths)
qed

lemma unat_be_word: "unat (be_word a b c d) = ((unat a * 256 + unat b) * 256 + unat c) * 256 + unat d"
proof -
  have a: "unat (ucast a :: u32) = unat a" using z85_acc_256 [of 0 a] by simp
  have b: "unat (ucast a * 256 + ucast b :: u32) = unat a * 256 + unat b"
    using z85_acc_256 [of "ucast a" b] a less_trans [OF unat_byte_less [of a], of 16777216] by simp
  have ab: "unat a * 256 + unat b < 65536" using unat_byte_less [of a] unat_byte_less [of b] by linarith
  have c: "unat ((ucast a * 256 + ucast b) * 256 + ucast c :: u32) = (unat a * 256 + unat b) * 256 + unat c"
    using z85_acc_256 [of "ucast a * 256 + ucast b" c] b less_trans [OF ab, of 16777216] by simp
  have "x * 256 + y < 16777216" if "x < 65536" "y < 256" for x y :: nat using that by linarith
  then have "(unat a * 256 + unat b) * 256 + unat c < 16777216" using ab unat_byte_less [of c] by blast
  then show ?thesis using z85_acc_256 [of "(ucast a * 256 + ucast b) * 256 + ucast c" d] c
    by (simp only: be_word_def)
qed

lemma word_of_nat_unat_id: "of_nat (unat (x :: byte)) = x"
  by simp

lemma be_word_digits: "z85_digits_256 (be_word a b c d) = [a, b, c, d]"
proof -
  have quot: "(x * 256 + y) div 256 = x" "(x * 256 + y) mod 256 = y" if "y < 256" for x y :: nat using that by simp_all
  have pows: "u div 65536 = u div 256 div 256" "u div 16777216 = u div 256 div 256 div 256"
    for u :: nat by (simp_all add: div_mult2_eq [symmetric])
  show ?thesis by (simp only: z85_digits_256_unfold unat_be_word pows quot unat_byte_less mod_less word_of_nat_unat_id)
qed

lemma be_word_cover: "\<exists>a b c d. be_word a b c d = v"
proof -
  let ?u = "unat v"
  define a where "a = (of_nat (?u div 16777216) :: byte)"
  define b where "b = (of_nat (?u div 65536 mod 256) :: byte)"
  define c where "c = (of_nat (?u div 256 mod 256) :: byte)"
  define d where "d = (of_nat (?u mod 256) :: byte)"
  have top: "?u div 16777216 < 256" using u32_less [of v] by (simp add: div_less_iff_less_mult)
  have "unat a = ?u div 16777216" unfolding a_def by (rule unat_of_nat_byte [OF top])
  moreover have "unat b = ?u div 65536 mod 256" "unat c = ?u div 256 mod 256" "unat d = ?u mod 256"
    unfolding b_def c_def d_def by (rule unat_of_nat_byte, simp)+
  ultimately have "unat (be_word a b c d) = ?u"
    using div_div_mod_step [of ?u 256 65536] div_div_mod_step [of ?u 256 256] top by (simp only: unat_be_word) simp
  then show ?thesis by (metis word_unat_eq_iff)
qed

lemma z85_encode_step:
  "z85_encode_loop (b # data) n v
    = (if Suc n mod 4 = 0 then z85_digits_85 (v * 256 + ucast b) @ z85_encode_loop data (Suc n) 0
       else z85_encode_loop data (Suc n) (v * 256 + ucast b))"
  by (simp add: Let_def)

lemma z85_encode_group:
  assumes "n mod 4 = 0"
  shows "z85_encode_loop (a # b # c # d # data) n 0 = z85_digits_85 (be_word a b c d) @ z85_encode_loop data (n + 4) 0"
proof -
  have mods: "Suc n mod 4 \<noteq> 0" "Suc (Suc n) mod 4 \<noteq> 0" "Suc (Suc (Suc n)) mod 4 \<noteq> 0" "Suc (Suc (Suc (Suc n))) mod 4 = 0"
    using assms by presburger+
  have four: "n + 4 = Suc (Suc (Suc (Suc n)))" by simp
  show ?thesis unfolding four
    by (simp only: z85_encode_step mods be_word_def mult_zero_left add_0 if_True if_False simp_thms)
qed

lemma length_z85_encode_loop:
  "groups4 data \<Longrightarrow> n mod 4 = 0 \<Longrightarrow> length (z85_encode_loop data n 0) * 4 = length data * 5"
  by (induction data arbitrary: n rule: groups4.induct) (simp_all add: z85_encode_group del: z85_encode_loop.simps(2))

lemma write_at_Some: "m + length xs \<le> length dest \<Longrightarrow> write_at dest m xs = Some (take m dest @ xs @ drop (m + length xs) dest)"
  by (simp add: write_at_def)

lemma length_write_at: "write_at dest m xs = Some d \<Longrightarrow> length d = length dest \<and> m + length xs \<le> length dest"
  by (auto simp: write_at_def split: if_splits)

lemma z85_decode_encode_loop:
  assumes "groups4 data" "n mod 5 = 0" "k mod 4 = 0" "m + length data \<le> length dest"
  shows "z85_decode_loop (z85_encode_loop data k 0) n m 0 dest
    = Some (True, m + length data, take m dest @ data @ drop (m + length data) dest)"
  using assms
proof (induction data arbitrary: n m k dest rule: groups4.induct)
  case (2 a b c d xs)
  let ?w = "be_word a b c d"
  obtain d1 where d1: "write_at dest m (z85_digits_256 ?w) = Some d1" using 2 by (simp add: write_at_Some)
  have run: "z85_decode_loop (z85_encode_loop xs (k + 4) 0) (n + 5) (m + 4) 0 d1
      = Some (True, m + 4 + length xs, take (m + 4) d1 @ xs @ drop (m + 4 + length xs) d1)"
    using 2 length_write_at [OF d1] by (intro 2(1)) simp_all
  have "write_at d1 (m + 4) xs = Some (take (m + 4) d1 @ xs @ drop (m + 4 + length xs) d1)"
    using 2 length_write_at [OF d1] by (simp add: write_at_def)
  then have "write_at d1 (m + length [a, b, c, d]) xs = Some (take (m + 4) d1 @ xs @ drop (m + 4 + length xs) d1)"
    by (simp only: length_Cons list.size add_Suc_right add_0_right numeral_eq_Suc pred_numeral_simps BitM.simps)
  from write_at_write_at [OF d1 [unfolded be_word_digits] this]
  have "write_at dest m ([a, b, c, d] @ xs) = Some (take (m + 4) d1 @ xs @ drop (m + 4 + length xs) d1)" .
  then have eq: "take (m + 4) d1 @ xs @ drop (m + 4 + length xs) d1 = take m dest @ (a # b # c # d # xs) @ drop (m + length (a # b # c # d # xs)) dest"
    using 2 by (simp add: write_at_def)
  have run1: "z85_decode_loop (z85_encode_loop (a # b # c # d # xs) k 0) n m 0 dest
      = z85_decode_loop (z85_encode_loop xs (k + 4) 0) (n + 5) (m + 4) 0 d1"
    using 2 d1 by (simp only: z85_encode_group z85_decode_group bind.bind_lunit)
  show ?case unfolding run1 run eq by simp
qed simp_all

lemma z85_encode_loop_shift: "groups4 data \<Longrightarrow> k mod 4 = 0 \<Longrightarrow> z85_encode_loop data k 0 = z85_encode_loop data 0 0"
proof (induction data arbitrary: k rule: groups4.induct)
  case (2 a b c d xs)
  have k4: "z85_encode_loop xs (k + 4) 0 = z85_encode_loop xs 0 0" by (rule 2(1)) (use 2(2,3) in simp_all)
  have z4: "z85_encode_loop xs (0 + 4) 0 = z85_encode_loop xs 0 0" by (rule 2(1)) (use 2(2) in simp_all)
  show ?case unfolding z85_encode_group [OF 2(3)] z85_encode_group [OF mod_0] k4 z4 ..
qed simp_all

lemma z85_decode_loop_inv:
  assumes "z85_decode_loop s n m 0 dest = Some (True, m', dest')" "n mod 5 = 0" "m \<le> length dest"
  shows "\<exists>data. groups4 data \<and> s = z85_encode_loop data 0 0 \<and> m + length data \<le> length dest"
  using assms
proof (induction "length s" arbitrary: s n m dest rule: less_induct)
  case less
  show ?case
  proof (cases "s = []")
    case True
    then show ?thesis using less(4) by (intro exI [of _ "[]"]) simp
  next
    case False
    obtain v r where s: "s = z85_digits_85 v @ r" using z85_decode_group_inv [OF less(2,3) False] by blast
    obtain d1 where d1: "write_at dest m (z85_digits_256 v) = Some d1" "z85_decode_loop r (n + 5) (m + 4) 0 d1 = Some (True, m', dest')"
      using less(2) unfolding s z85_decode_group [OF less(3)] by (auto simp: bind_eq_Some_conv)
    obtain a b c d where v: "be_word a b c d = v" using be_word_cover by blast
    have d1_len: "length d1 = length dest" "m + 4 \<le> length d1" using length_write_at [OF d1(1)] by simp_all
    have n5: "(n + 5) mod 5 = 0" using less(3) by simp
    have shorter: "length r < length s" by (simp add: s)
    obtain data where h: "groups4 data" "r = z85_encode_loop data 0 0" "m + 4 + length data \<le> length d1"
      using less(1) [OF shorter d1(2) n5 d1_len(2)] by blast
    have "z85_encode_loop data (0 + 4) 0 = z85_encode_loop data 0 0" by (rule z85_encode_loop_shift [OF h(1)]) simp
    then have "s = z85_encode_loop (a # b # c # d # data) 0 0" by (simp only: z85_encode_group mod_0 s v h(2))
    then show ?thesis using h(1,3) d1_len by (intro exI [of _ "a # b # c # d # data"]) simp
  qed
qed

lemma z85_text_nonzero: "c \<in> set (z85_encode_loop data n v) \<Longrightarrow> c \<noteq> 0"
proof (induction data arbitrary: n v)
  case (Cons b data)
  have "c \<noteq> 0" if "c \<in> set (z85_digits_85 w)" for w
    using that z85_encoder_char(3) by (auto simp: z85_digits_85_unfold)
  with Cons show ?case by (auto simp: z85_encode_step simp del: z85_encode_loop.simps split: if_splits)
qed simp

lemma c_bytes_text: "c_bytes (z85_encode_loop data n v @ [0]) = z85_encode_loop data n v"
proof -
  have "takeWhile (\<lambda>c. c \<noteq> 0) (z85_encode_loop data n v @ [0]) = z85_encode_loop data n v @ takeWhile (\<lambda>c. c \<noteq> 0) [0]"
    by (rule takeWhile_append2) (use z85_text_nonzero in blast)
  then show ?thesis by (simp add: c_bytes_def)
qed

lemma zmq_z85_encode_groups: "groups4 data \<Longrightarrow> zmq_z85_encode data = Some (Inr (z85_encode_loop data 0 0 @ [0]))"
proof -
  assume g: "groups4 data"
  then have "length (z85_encode_loop data 0 0) = length data * 5 div 4"
    using length_z85_encode_loop [of data 0] by simp
  with g show ?thesis by (simp add: zmq_z85_encode_def groups4_iff Let_def)
qed

lemma zmq_z85_encode_Inr: "zmq_z85_encode data = Some (Inr txt) \<longleftrightarrow> groups4 data \<and> txt = z85_encode_loop data 0 0 @ [0]"
  using zmq_z85_encode_groups [of data] by (auto simp: zmq_z85_encode_def groups4_iff)

lemma length_z85_text: "groups4 data \<Longrightarrow> length (z85_encode_loop data 0 0) = length data div 4 * 5"
  using length_z85_encode_loop [of data 0] by (simp add: groups4_iff) presburger

lemma zmq_z85_decode_text:
  assumes data: "groups4 data" "data \<noteq> []" "length data \<le> length dest" and s: "c_bytes str = z85_encode_loop data 0 0"
  shows "zmq_z85_decode dest str = Some (True, data @ drop (length data) dest)"
proof -
  have len: "length (z85_encode_loop data 0 0) = length data div 4 * 5" by (rule length_z85_text [OF data(1)])
  obtain k where k: "length data = 4 * k" using data(1) by (auto simp: groups4_iff elim: dvdE)
  then have "0 < k" using data(2) by (cases k) auto
  moreover have "z85_decode_loop (z85_encode_loop data 0 0) 0 0 0 dest = Some (True, 0 + length data, take 0 dest @ data @ drop (0 + length data) dest)"
    by (rule z85_decode_encode_loop) (use data in simp_all)
  ultimately show ?thesis using len k by (simp add: zmq_z85_decode_def s)
qed

lemma z85_decode_loop_returns:
  assumes "m = n div 5 * 4" "(n + length s) div 5 * 4 \<le> length dest"
  shows "\<exists>ok m' d. z85_decode_loop s n m v dest = Some (ok, m', d) \<and> length d = length dest \<and> (ok \<longrightarrow> m' = (n + length s) div 5 * 4)"
  using assms
proof (induction s arbitrary: n m v dest)
  case (Cons c s)
  show ?case
  proof (cases "\<exists>k. k < 85 \<and> c = z85_encoder ! k \<and> unat v * 85 + k < 4294967296")
    case True
    then obtain k where k: "k < 85" "c = z85_encoder ! k" "unat v * 85 + k < 4294967296" by blast
    show ?thesis
    proof (cases "Suc n mod 5 = 0")
      case five: True
      then have m4: "m + 4 = Suc n div 5 * 4" using Cons.prems(1) by (simp add: div_Suc)
      moreover have "Suc n div 5 * 4 \<le> (n + length (c # s)) div 5 * 4" by (intro mult_le_mono1 div_le_mono) simp
      ultimately have room: "m + length (z85_digits_256 (v * 85 + of_nat k)) \<le> length dest" using Cons.prems(2) by simp
      obtain d1 where d1: "write_at dest m (z85_digits_256 (v * 85 + of_nat k)) = Some d1" "length d1 = length dest"
        using write_at_Some [OF room] length_write_at by blast
      have "(Suc n + length s) div 5 * 4 \<le> length d1" using Cons.prems(2) d1(2) by simp
      from Cons.IH [OF m4 this, of 0] show ?thesis using d1 five z85_decode_step [OF k(1,3), of s n m dest] by (simp add: k(2))
    next
      case more: False
      then have m: "m = Suc n div 5 * 4" using Cons.prems(1) by (simp add: div_Suc)
      have "(Suc n + length s) div 5 * 4 \<le> length dest" using Cons.prems(2) by simp
      from Cons.IH [OF m this, of "v * 85 + of_nat k"] show ?thesis
        using more z85_decode_step [OF k(1,3), of s n m dest] by (simp add: k(2))
    qed
  next
    case False
    have "z85_decode_loop (c # s) n m v dest = Some (False, m, dest)"
    proof (cases "0xFFFFFFFF div 85 < v \<or> unat (c - 32) \<ge> 96")
      case True
      then show ?thesis by (auto simp: z85_decode_loop.simps(2) Let_def)
    next
      case ok: False
      let ?k = "z85_decoder ! unat (c - 32)"
      have "(of_nat ?k :: u32) = 0xFF \<or> (of_nat ?k :: u32) > 0xFFFFFFFF - v * 85"
      proof (cases "?k = 255")
        case True
        then show ?thesis by simp
      next
        case ne: False
        have r: "unat (c - 32) < 96" using ok by simp
        then show ?thesis using False ok z85_decoder_char [OF r ne] z85_guards [of ?k v] by auto
      qed
      with ok show ?thesis by (simp add: z85_decode_loop.simps(2) Let_def)
    qed
    then show ?thesis by (intro exI [of _ False]) simp
  qed
qed simp

lemma zmq_z85_decode_returns:
  assumes "length (c_bytes str) div 5 * 4 \<le> length dest"
  shows "\<exists>ok d. zmq_z85_decode dest str = Some (ok, d) \<and> length d = length dest"
proof -
  obtain ok m' d where run: "z85_decode_loop (c_bytes str) 0 0 0 dest = Some (ok, m', d)" "length d = length dest"
      "ok \<longrightarrow> m' = length (c_bytes str) div 5 * 4"
    using z85_decode_loop_returns [of 0 0 "c_bytes str" dest 0] assms by auto
  have "length (c_bytes str) div 5 * 4 = length (c_bytes str) * 4 div 5" if "length (c_bytes str) mod 5 = 0"
    using that by (auto elim!: dvdE)
  with run show ?thesis
    by (cases "length (c_bytes str) < 5 \<or> length (c_bytes str) mod 5 \<noteq> 0"; cases ok) (auto simp: zmq_z85_decode_def Let_def)
qed

text \<open>C31: the decoder succeeds on exactly the texts the encoder produces for data that fit the destination, and then it has
  put that data at the front of the destination and left the rest.\<close>

theorem z85_decoder_accepts_encodings:
  "zmq_z85_decode dest str = Some (True, dest') \<longleftrightarrow>
   (\<exists>data. data \<noteq> [] \<and> length data \<le> length dest \<and> zmq_z85_encode data = Some (Inr (c_bytes str @ [0]))
      \<and> dest' = data @ drop (length data) dest)"
proof
  assume dec: "zmq_z85_decode dest str = Some (True, dest')"
  then obtain m where s: "length (c_bytes str) \<ge> 5" and run: "z85_decode_loop (c_bytes str) 0 0 0 dest = Some (True, m, dest')"
    by (auto simp: zmq_z85_decode_def Let_def bind_eq_Some_conv split: if_splits)
  obtain data where data: "groups4 data" "c_bytes str = z85_encode_loop data 0 0" "length data \<le> length dest"
    using z85_decode_loop_inv [OF run] by auto
  then have ne: "data \<noteq> []" using s by auto
  then have "dest' = data @ drop (length data) dest" using zmq_z85_decode_text [OF data(1) ne data(3,2)] dec by simp
  with data ne show "\<exists>data. data \<noteq> [] \<and> length data \<le> length dest \<and> zmq_z85_encode data = Some (Inr (c_bytes str @ [0]))
      \<and> dest' = data @ drop (length data) dest"
    by (intro exI [of _ data]) (simp add: zmq_z85_encode_groups)
next
  assume "\<exists>data. data \<noteq> [] \<and> length data \<le> length dest \<and> zmq_z85_encode data = Some (Inr (c_bytes str @ [0]))
      \<and> dest' = data @ drop (length data) dest"
  then show "zmq_z85_decode dest str = Some (True, dest')"
    by (auto simp: zmq_z85_encode_Inr intro: zmq_z85_decode_text)
qed

theorem z85_vector: "zmq_z85_encode [0x86, 0x4F, 0xD2, 0x6F, 0xB5, 0x59, 0xF7, 0x5B] = Some (Inr (bytes_of_string ''HelloWorld'' @ [0]))"
proof -
  have a: "unat (be_word 0x86 0x4F 0xD2 0x6F) = 2253378159" "unat (be_word 0xB5 0x59 0xF7 0x5B) = 3042572123" by (simp_all add: unat_be_word)
  show ?thesis using zmq_z85_encode_groups [of "[0x86, 0x4F, 0xD2, 0x6F, 0xB5, 0x59, 0xF7, 0x5B]"]
    by (simp add: z85_encode_group z85_digits_85_unfold a z85_encoder_numbers bytes_of_string_def del: z85_encode_loop.simps(2))
qed

end
