(* ===== verification/Options.thy ===== *)
theory Options
  imports Z85
begin

text \<open>
  \<^verbatim>\<open>options_t\<close> (options.hpp, options.cpp): the options of a socket and the two large switches that
  set and read them. The structure is kept as one function per kind of member, from the member's name
  to its value; a switch is the table of its cases, from the option's number to the body of the case,
  so the compile-time conditions of the source choose which rows the table has. A setter's \<open>None\<close> is a
  read through a null pointer. \<^verbatim>\<open>ZMQ_ACT_MILITANT\<close> is taken to be off.
\<close>

subsection \<open>Option numbers\<close>

abbreviation ZMQ_AFFINITY :: int where "ZMQ_AFFINITY \<equiv> 4"
abbreviation ZMQ_ROUTING_ID :: int where "ZMQ_ROUTING_ID \<equiv> 5"
abbreviation ZMQ_RATE :: int where "ZMQ_RATE \<equiv> 8"
abbreviation ZMQ_RECOVERY_IVL :: int where "ZMQ_RECOVERY_IVL \<equiv> 9"
abbreviation ZMQ_SNDBUF :: int where "ZMQ_SNDBUF \<equiv> 11"
abbreviation ZMQ_RCVBUF :: int where "ZMQ_RCVBUF \<equiv> 12"
abbreviation ZMQ_TYPE :: int where "ZMQ_TYPE \<equiv> 16"
abbreviation ZMQ_LINGER :: int where "ZMQ_LINGER \<equiv> 17"
abbreviation ZMQ_RECONNECT_IVL :: int where "ZMQ_RECONNECT_IVL \<equiv> 18"
abbreviation ZMQ_BACKLOG :: int where "ZMQ_BACKLOG \<equiv> 19"
abbreviation ZMQ_RECONNECT_IVL_MAX :: int where "ZMQ_RECONNECT_IVL_MAX \<equiv> 21"
abbreviation ZMQ_MAXMSGSIZE :: int where "ZMQ_MAXMSGSIZE \<equiv> 22"
abbreviation ZMQ_SNDHWM :: int where "ZMQ_SNDHWM \<equiv> 23"
abbreviation ZMQ_RCVHWM :: int where "ZMQ_RCVHWM \<equiv> 24"
abbreviation ZMQ_MULTICAST_HOPS :: int where "ZMQ_MULTICAST_HOPS \<equiv> 25"
abbreviation ZMQ_RCVTIMEO :: int where "ZMQ_RCVTIMEO \<equiv> 27"
abbreviation ZMQ_SNDTIMEO :: int where "ZMQ_SNDTIMEO \<equiv> 28"
abbreviation ZMQ_IPV4ONLY :: int where "ZMQ_IPV4ONLY \<equiv> 31"
abbreviation ZMQ_TCP_KEEPALIVE :: int where "ZMQ_TCP_KEEPALIVE \<equiv> 34"
abbreviation ZMQ_TCP_KEEPALIVE_CNT :: int where "ZMQ_TCP_KEEPALIVE_CNT \<equiv> 35"
abbreviation ZMQ_TCP_KEEPALIVE_IDLE :: int where "ZMQ_TCP_KEEPALIVE_IDLE \<equiv> 36"
abbreviation ZMQ_TCP_KEEPALIVE_INTVL :: int where "ZMQ_TCP_KEEPALIVE_INTVL \<equiv> 37"
abbreviation ZMQ_TCP_ACCEPT_FILTER :: int where "ZMQ_TCP_ACCEPT_FILTER \<equiv> 38"
abbreviation ZMQ_IMMEDIATE :: int where "ZMQ_IMMEDIATE \<equiv> 39"
abbreviation ZMQ_IPV6 :: int where "ZMQ_IPV6 \<equiv> 42"
abbreviation ZMQ_MECHANISM :: int where "ZMQ_MECHANISM \<equiv> 43"
abbreviation ZMQ_PLAIN_SERVER :: int where "ZMQ_PLAIN_SERVER \<equiv> 44"
abbreviation ZMQ_PLAIN_USERNAME :: int where "ZMQ_PLAIN_USERNAME \<equiv> 45"
abbreviation ZMQ_PLAIN_PASSWORD :: int where "ZMQ_PLAIN_PASSWORD \<equiv> 46"
abbreviation ZMQ_CURVE_SERVER :: int where "ZMQ_CURVE_SERVER \<equiv> 47"
abbreviation ZMQ_CURVE_PUBLICKEY :: int where "ZMQ_CURVE_PUBLICKEY \<equiv> 48"
abbreviation ZMQ_CURVE_SECRETKEY :: int where "ZMQ_CURVE_SECRETKEY \<equiv> 49"
abbreviation ZMQ_CURVE_SERVERKEY :: int where "ZMQ_CURVE_SERVERKEY \<equiv> 50"
abbreviation ZMQ_CONFLATE :: int where "ZMQ_CONFLATE \<equiv> 54"
abbreviation ZMQ_ZAP_DOMAIN :: int where "ZMQ_ZAP_DOMAIN \<equiv> 55"
abbreviation ZMQ_TOS :: int where "ZMQ_TOS \<equiv> 57"
abbreviation ZMQ_IPC_FILTER_PID :: int where "ZMQ_IPC_FILTER_PID \<equiv> 58"
abbreviation ZMQ_IPC_FILTER_UID :: int where "ZMQ_IPC_FILTER_UID \<equiv> 59"
abbreviation ZMQ_IPC_FILTER_GID :: int where "ZMQ_IPC_FILTER_GID \<equiv> 60"
abbreviation ZMQ_GSSAPI_SERVER :: int where "ZMQ_GSSAPI_SERVER \<equiv> 62"
abbreviation ZMQ_GSSAPI_PRINCIPAL :: int where "ZMQ_GSSAPI_PRINCIPAL \<equiv> 63"
abbreviation ZMQ_GSSAPI_SERVICE_PRINCIPAL :: int where "ZMQ_GSSAPI_SERVICE_PRINCIPAL \<equiv> 64"
abbreviation ZMQ_GSSAPI_PLAINTEXT :: int where "ZMQ_GSSAPI_PLAINTEXT \<equiv> 65"
abbreviation ZMQ_HANDSHAKE_IVL :: int where "ZMQ_HANDSHAKE_IVL \<equiv> 66"
abbreviation ZMQ_SOCKS_PROXY :: int where "ZMQ_SOCKS_PROXY \<equiv> 68"
abbreviation ZMQ_INVERT_MATCHING :: int where "ZMQ_INVERT_MATCHING \<equiv> 74"
abbreviation ZMQ_HEARTBEAT_IVL :: int where "ZMQ_HEARTBEAT_IVL \<equiv> 75"
abbreviation ZMQ_HEARTBEAT_TTL :: int where "ZMQ_HEARTBEAT_TTL \<equiv> 76"
abbreviation ZMQ_HEARTBEAT_TIMEOUT :: int where "ZMQ_HEARTBEAT_TIMEOUT \<equiv> 77"
abbreviation ZMQ_CONNECT_TIMEOUT :: int where "ZMQ_CONNECT_TIMEOUT \<equiv> 79"
abbreviation ZMQ_TCP_MAXRT :: int where "ZMQ_TCP_MAXRT \<equiv> 80"
abbreviation ZMQ_MULTICAST_MAXTPDU :: int where "ZMQ_MULTICAST_MAXTPDU \<equiv> 84"
abbreviation ZMQ_VMCI_BUFFER_SIZE :: int where "ZMQ_VMCI_BUFFER_SIZE \<equiv> 85"
abbreviation ZMQ_VMCI_BUFFER_MIN_SIZE :: int where "ZMQ_VMCI_BUFFER_MIN_SIZE \<equiv> 86"
abbreviation ZMQ_VMCI_BUFFER_MAX_SIZE :: int where "ZMQ_VMCI_BUFFER_MAX_SIZE \<equiv> 87"
abbreviation ZMQ_VMCI_CONNECT_TIMEOUT :: int where "ZMQ_VMCI_CONNECT_TIMEOUT \<equiv> 88"
abbreviation ZMQ_USE_FD :: int where "ZMQ_USE_FD \<equiv> 89"
abbreviation ZMQ_GSSAPI_PRINCIPAL_NAMETYPE :: int where "ZMQ_GSSAPI_PRINCIPAL_NAMETYPE \<equiv> 90"
abbreviation ZMQ_GSSAPI_SERVICE_PRINCIPAL_NAMETYPE :: int where "ZMQ_GSSAPI_SERVICE_PRINCIPAL_NAMETYPE \<equiv> 91"
abbreviation ZMQ_BINDTODEVICE :: int where "ZMQ_BINDTODEVICE \<equiv> 92"
abbreviation ZMQ_ZAP_ENFORCE_DOMAIN :: int where "ZMQ_ZAP_ENFORCE_DOMAIN \<equiv> 93"
abbreviation ZMQ_LOOPBACK_FASTPATH :: int where "ZMQ_LOOPBACK_FASTPATH \<equiv> 94"
abbreviation ZMQ_METADATA :: int where "ZMQ_METADATA \<equiv> 95"
abbreviation ZMQ_MULTICAST_LOOP :: int where "ZMQ_MULTICAST_LOOP \<equiv> 96"
abbreviation ZMQ_ROUTER_NOTIFY :: int where "ZMQ_ROUTER_NOTIFY \<equiv> 97"
abbreviation ZMQ_SOCKS_USERNAME :: int where "ZMQ_SOCKS_USERNAME \<equiv> 99"
abbreviation ZMQ_SOCKS_PASSWORD :: int where "ZMQ_SOCKS_PASSWORD \<equiv> 100"
abbreviation ZMQ_IN_BATCH_SIZE :: int where "ZMQ_IN_BATCH_SIZE \<equiv> 101"
abbreviation ZMQ_OUT_BATCH_SIZE :: int where "ZMQ_OUT_BATCH_SIZE \<equiv> 102"
abbreviation ZMQ_WSS_KEY_PEM :: int where "ZMQ_WSS_KEY_PEM \<equiv> 103"
abbreviation ZMQ_WSS_CERT_PEM :: int where "ZMQ_WSS_CERT_PEM \<equiv> 104"
abbreviation ZMQ_WSS_TRUST_PEM :: int where "ZMQ_WSS_TRUST_PEM \<equiv> 105"
abbreviation ZMQ_WSS_HOSTNAME :: int where "ZMQ_WSS_HOSTNAME \<equiv> 106"
abbreviation ZMQ_WSS_TRUST_SYSTEM :: int where "ZMQ_WSS_TRUST_SYSTEM \<equiv> 107"
abbreviation ZMQ_RECONNECT_STOP :: int where "ZMQ_RECONNECT_STOP \<equiv> 109"
abbreviation ZMQ_HELLO_MSG :: int where "ZMQ_HELLO_MSG \<equiv> 110"
abbreviation ZMQ_DISCONNECT_MSG :: int where "ZMQ_DISCONNECT_MSG \<equiv> 111"
abbreviation ZMQ_PRIORITY :: int where "ZMQ_PRIORITY \<equiv> 112"
abbreviation ZMQ_BUSY_POLL :: int where "ZMQ_BUSY_POLL \<equiv> 113"
abbreviation ZMQ_HICCUP_MSG :: int where "ZMQ_HICCUP_MSG \<equiv> 114"
abbreviation ZMQ_NORM_MODE :: int where "ZMQ_NORM_MODE \<equiv> 117"
abbreviation ZMQ_NORM_UNICAST_NACK :: int where "ZMQ_NORM_UNICAST_NACK \<equiv> 118"
abbreviation ZMQ_NORM_BUFFER_SIZE :: int where "ZMQ_NORM_BUFFER_SIZE \<equiv> 119"
abbreviation ZMQ_NORM_SEGMENT_SIZE :: int where "ZMQ_NORM_SEGMENT_SIZE \<equiv> 120"
abbreviation ZMQ_NORM_BLOCK_SIZE :: int where "ZMQ_NORM_BLOCK_SIZE \<equiv> 121"
abbreviation ZMQ_NORM_NUM_PARITY :: int where "ZMQ_NORM_NUM_PARITY \<equiv> 122"
abbreviation ZMQ_NORM_NUM_AUTOPARITY :: int where "ZMQ_NORM_NUM_AUTOPARITY \<equiv> 123"
abbreviation ZMQ_NORM_PUSH :: int where "ZMQ_NORM_PUSH \<equiv> 124"

abbreviation ZMQ_NULL :: int where "ZMQ_NULL \<equiv> 0"
abbreviation ZMQ_PLAIN :: int where "ZMQ_PLAIN \<equiv> 1"
abbreviation ZMQ_CURVE :: int where "ZMQ_CURVE \<equiv> 2"
abbreviation ZMQ_GSSAPI :: int where "ZMQ_GSSAPI \<equiv> 3"
abbreviation UCHAR_MAX :: nat where "UCHAR_MAX \<equiv> 255"
abbreviation CURVE_KEYSIZE :: nat where "CURVE_KEYSIZE \<equiv> 32"
abbreviation CURVE_KEYSIZE_Z85 :: nat where "CURVE_KEYSIZE_Z85 \<equiv> 40"
abbreviation BINDDEVSIZ :: nat where "BINDDEVSIZ \<equiv> 16"

subsection \<open>The members\<close>

text \<open>The compile-time conditions of options.cpp.\<close>

record build =
  b_peercred :: bool
  b_local_peercred :: bool
  b_curve :: bool
  b_gssapi :: bool
  b_vmci :: bool
  b_draft :: bool
  b_wss :: bool
  b_norm :: bool

datatype int_opt =
    o_sndhwm | o_rcvhwm | o_rate | o_recovery_ivl | o_multicast_hops | o_multicast_maxtpdu | o_sndbuf | o_rcvbuf
  | o_tos | o_priority | o_type | o_linger | o_connect_timeout | o_tcp_maxrt | o_reconnect_stop | o_reconnect_ivl
  | o_reconnect_ivl_max | o_backlog | o_rcvtimeo | o_sndtimeo | o_immediate | o_tcp_keepalive | o_tcp_keepalive_cnt
  | o_tcp_keepalive_idle | o_tcp_keepalive_intvl | o_mechanism | o_as_server | o_gss_principal_nt
  | o_gss_service_principal_nt | o_socket_id | o_handshake_ivl | o_heartbeat_ttl | o_heartbeat_interval
  | o_heartbeat_timeout | o_vmci_connect_timeout | o_use_fd | o_in_batch_size | o_out_batch_size | o_router_notify
  | o_monitor_event_version | o_norm_mode | o_norm_buffer_size | o_norm_segment_size | o_norm_block_size
  | o_norm_num_parity | o_norm_num_autoparity | o_busy_poll

datatype bool_opt =
    o_ipv6 | o_filter | o_invert_matching | o_recv_routing_id | o_raw_socket | o_raw_notify | o_gss_plaintext
  | o_conflate | o_connected | o_zap_enforce_domain | o_loopback_fastpath | o_multicast_loop | o_zero_copy
  | o_wss_trust_system | o_can_send_hello_msg | o_can_recv_disconnect_msg | o_can_recv_hiccup_msg
  | o_norm_unicast_nacks | o_norm_push_enable

datatype bytes_opt =
    o_routing_id | o_socks_proxy_address | o_socks_proxy_username | o_socks_proxy_password | o_zap_domain
  | o_plain_username | o_plain_password | o_curve_public_key | o_curve_secret_key | o_curve_server_key
  | o_gss_principal | o_gss_service_principal | o_bound_device | o_wss_key_pem | o_wss_cert_pem | o_wss_trust_pem
  | o_wss_hostname | o_hello_msg | o_disconnect_msg | o_hiccup_msg

text \<open>The 64-bit members by their bits; \<^verbatim>\<open>maxmsgsize\<close> is the signed one.\<close>

datatype long_opt = o_affinity | o_maxmsgsize | o_vmci_buffer_size | o_vmci_buffer_min_size | o_vmci_buffer_max_size

text \<open>\<open>'m\<close> is the type of a resolved address mask.\<close>

record 'm options =
  ints :: "int_opt \<Rightarrow> int"
  bools :: "bool_opt \<Rightarrow> bool"
  byteses :: "bytes_opt \<Rightarrow> bytes"
  longs :: "long_opt \<Rightarrow> u64"
  tcp_accept_filters :: "'m list"
  ipc_uid_accept_filters :: "int list"
  ipc_gid_accept_filters :: "int list"
  ipc_pid_accept_filters :: "int list"
  app_metadata :: "bytes \<rightharpoonup> bytes"

definition default_hwm :: int where "default_hwm = 1000"

fun init_int :: "int_opt \<Rightarrow> int" where
  "init_int o_sndhwm = default_hwm"
| "init_int o_rcvhwm = default_hwm"
| "init_int o_rate = 100"
| "init_int o_recovery_ivl = 10000"
| "init_int o_multicast_hops = 1"
| "init_int o_multicast_maxtpdu = 1500"
| "init_int o_sndbuf = -1"
| "init_int o_rcvbuf = -1"
| "init_int o_tos = 0"
| "init_int o_priority = 0"
| "init_int o_type = -1"
| "init_int o_linger = -1"
| "init_int o_connect_timeout = 0"
| "init_int o_tcp_maxrt = 0"
| "init_int o_reconnect_stop = 0"
| "init_int o_reconnect_ivl = 100"
| "init_int o_reconnect_ivl_max = 0"
| "init_int o_backlog = 100"
| "init_int o_rcvtimeo = -1"
| "init_int o_sndtimeo = -1"
| "init_int o_immediate = 0"
| "init_int o_tcp_keepalive = -1"
| "init_int o_tcp_keepalive_cnt = -1"
| "init_int o_tcp_keepalive_idle = -1"
| "init_int o_tcp_keepalive_intvl = -1"
| "init_int o_mechanism = ZMQ_NULL"
| "init_int o_as_server = 0"
| "init_int o_gss_principal_nt = 0"
| "init_int o_gss_service_principal_nt = 0"
| "init_int o_socket_id = 0"
| "init_int o_handshake_ivl = 30000"
| "init_int o_heartbeat_ttl = 0"
| "init_int o_heartbeat_interval = 0"
| "init_int o_heartbeat_timeout = -1"
| "init_int o_vmci_connect_timeout = -1"
| "init_int o_use_fd = -1"
| "init_int o_in_batch_size = 8192"
| "init_int o_out_batch_size = 8192"
| "init_int o_router_notify = 0"
| "init_int o_monitor_event_version = 1"
| "init_int o_norm_mode = 1"
| "init_int o_norm_buffer_size = 2048"
| "init_int o_norm_segment_size = 1400"
| "init_int o_norm_block_size = 16"
| "init_int o_norm_num_parity = 4"
| "init_int o_norm_num_autoparity = 0"
| "init_int o_busy_poll = 0"

definition init_bool :: "bool_opt \<Rightarrow> bool" where
  "init_bool f = (f = o_raw_notify \<or> f = o_multicast_loop \<or> f = o_zero_copy)"

definition is_curve_key :: "bytes_opt \<Rightarrow> bool" where
  "is_curve_key f \<longleftrightarrow> f = o_curve_public_key \<or> f = o_curve_secret_key \<or> f = o_curve_server_key"

definition init_bytes :: "bytes_opt \<Rightarrow> bytes" where
  "init_bytes f = (if is_curve_key f then replicate CURVE_KEYSIZE 0 else [])"

definition init_long :: "long_opt \<Rightarrow> u64" where
  "init_long f = (if f = o_maxmsgsize then -1 else 0)"

definition options_t :: "'m options" where
  "options_t = \<lparr>ints = init_int, bools = init_bool, byteses = init_bytes, longs = init_long, tcp_accept_filters = [],
     ipc_uid_accept_filters = [], ipc_gid_accept_filters = [], ipc_pid_accept_filters = [], app_metadata = Map.empty\<rparr>"

text \<open>\<^verbatim>\<open>get_effective_conflate_option\<close>: dealer, pull, push, pub and sub sockets.\<close>

definition get_effective_conflate_option :: "'m options \<Rightarrow> bool" where
  "get_effective_conflate_option o1 \<longleftrightarrow> bools o1 o_conflate
     \<and> (ints o1 o_type = 5 \<or> ints o1 o_type = 7 \<or> ints o1 o_type = 8 \<or> ints o1 o_type = 1 \<or> ints o1 o_type = 2)"

definition put_int :: "int_opt \<Rightarrow> int \<Rightarrow> 'm options \<Rightarrow> 'm options" where
  "put_int f v o1 = o1\<lparr>ints := (ints o1)(f := v)\<rparr>"

definition put_bool :: "bool_opt \<Rightarrow> bool \<Rightarrow> 'm options \<Rightarrow> 'm options" where
  "put_bool f v o1 = o1\<lparr>bools := (bools o1)(f := v)\<rparr>"

definition put_bytes :: "bytes_opt \<Rightarrow> bytes \<Rightarrow> 'm options \<Rightarrow> 'm options" where
  "put_bytes f v o1 = o1\<lparr>byteses := (byteses o1)(f := v)\<rparr>"

definition put_long :: "long_opt \<Rightarrow> u64 \<Rightarrow> 'm options \<Rightarrow> 'm options" where
  "put_long f v o1 = o1\<lparr>longs := (longs o1)(f := v)\<rparr>"

subsection \<open>Bodies of the cases of \<^verbatim>\<open>setsockopt\<close>\<close>

text \<open>
  A body gets \<^verbatim>\<open>value\<close> when the length is that of an \<^verbatim>\<open>int\<close> (\<^verbatim>\<open>is_int\<close>), the option value
  and the options. Breaking out of the switch is \<open>invalid\<close>.
\<close>

type_synonym 'm set_body = "int option \<Rightarrow> optval \<Rightarrow> 'm options \<Rightarrow> (errno option \<times> 'm options) option"

definition invalid :: "'m options \<Rightarrow> (errno option \<times> 'm options) option" where
  "invalid o1 = Some (Some EINVAL, o1)"

definition set_int_then :: "(int \<Rightarrow> bool) \<Rightarrow> (int \<Rightarrow> 'm options \<Rightarrow> 'm options) \<Rightarrow> 'm set_body" where
  "set_int_then g f iv v o1 = (case iv of
     Some value \<Rightarrow> if g value then Some (None, f value o1) else invalid o1
   | None \<Rightarrow> invalid o1)"

definition set_int :: "int_opt \<Rightarrow> (int \<Rightarrow> bool) \<Rightarrow> 'm set_body" where
  "set_int f g = set_int_then g (put_int f)"

text \<open>The helper functions of options.cpp write through a pointer to the member; a refusal leaves it.\<close>

definition store :: "('a \<Rightarrow> 'm options \<Rightarrow> 'm options) \<Rightarrow> 'm options \<Rightarrow> errno + 'a \<Rightarrow> errno option \<times> 'm options" where
  "store f o1 r = (case r of Inl e \<Rightarrow> (Some e, o1) | Inr x \<Rightarrow> (None, f x o1))"

definition set_long :: "long_opt \<Rightarrow> 'm set_body" where
  "set_long f iv v o1 = map_option (store (\<lambda>b. put_long f (of_nat (le_nat b))) o1) (do_setsockopt 8 v)"

definition set_bool_strict :: "bool_opt \<Rightarrow> 'm set_body" where
  "set_bool_strict f iv v o1 = map_option (store (put_bool f) o1) (do_setsockopt_int_as_bool_strict v)"

definition set_bool_relaxed :: "bool_opt \<Rightarrow> 'm set_body" where
  "set_bool_relaxed f iv v o1 = map_option (store (put_bool f) o1) (do_setsockopt_int_as_bool_relaxed v)"

definition set_string_strict :: "bytes_opt \<Rightarrow> nat option \<Rightarrow> 'm set_body" where
  "set_string_strict f mx iv v o1 = Some (store (put_bytes f) o1 (do_setsockopt_string_allow_empty_strict mx v))"

definition set_string_relaxed :: "bytes_opt \<Rightarrow> nat \<Rightarrow> 'm set_body" where
  "set_string_relaxed f mx iv v o1 = map_option (store (put_bytes f) o1) (do_setsockopt_string_allow_empty_relaxed mx v)"

text \<open>The bytes behind a pointer; a null pointer may only be read for no bytes.\<close>

definition deref :: "optval \<Rightarrow> bytes option" where
  "deref v = (case v of Val b \<Rightarrow> Some b | NullVal n \<Rightarrow> if n = 0 then Some [] else None)"

definition set_routing_id_option :: "'m set_body" where
  "set_routing_id_option iv v o1 =
     (if optvallen v > 0 \<and> optvallen v \<le> UCHAR_MAX then do {
        b \<leftarrow> deref v;
        Some (None, put_bytes o_routing_id b o1)
      } else invalid o1)"

definition set_ipv4only :: "'m set_body" where
  "set_ipv4only iv v o1 = map_option (store (\<lambda>value. put_bool o_ipv6 (\<not> value)) o1) (do_setsockopt_int_as_bool_strict v)"

definition set_socks_credential :: "bytes_opt \<Rightarrow> 'm set_body" where
  "set_socks_credential f iv v o1 =
     (case v of
        NullVal _ \<Rightarrow> Some (None, put_bytes f [] o1)
      | Val b \<Rightarrow> if length b = 0 then Some (None, put_bytes f [] o1)
                 else Some (store (put_bytes f) o1 (do_setsockopt_string_allow_empty_strict (Some 255) v)))"

definition set_tcp_accept_filter :: "(bytes \<Rightarrow> bool \<Rightarrow> errno + 'm) \<Rightarrow> 'm set_body" where
  "set_tcp_accept_filter resolve iv v o1 =
     (case do_setsockopt_string_allow_empty_strict (Some UCHAR_MAX) v of
        Inl e \<Rightarrow> Some (Some e, o1)
      | Inr filter_str \<Rightarrow>
          if filter_str = [] then Some (None, o1\<lparr>tcp_accept_filters := []\<rparr>)
          else Some (store (\<lambda>mask o2. o2\<lparr>tcp_accept_filters := tcp_accept_filters o2 @ [mask]\<rparr>) o1
                       (resolve (c_bytes filter_str) (bools o1 o_ipv6))))"

definition set_ipc_filter_uid :: "'m set_body" where
  "set_ipc_filter_uid iv v o1 = Some (store (\<lambda>s o2. o2\<lparr>ipc_uid_accept_filters := s\<rparr>) o1
     (do_setsockopt_set uint_of_bytes v (ipc_uid_accept_filters o1)))"

definition set_ipc_filter_gid :: "'m set_body" where
  "set_ipc_filter_gid iv v o1 = Some (store (\<lambda>s o2. o2\<lparr>ipc_gid_accept_filters := s\<rparr>) o1
     (do_setsockopt_set uint_of_bytes v (ipc_gid_accept_filters o1)))"

definition set_ipc_filter_pid :: "'m set_body" where
  "set_ipc_filter_pid iv v o1 = Some (store (\<lambda>s o2. o2\<lparr>ipc_pid_accept_filters := s\<rparr>) o1
     (do_setsockopt_set int_of_bytes v (ipc_pid_accept_filters o1)))"

text \<open>\<^verbatim>\<open>ZMQ_PLAIN_SERVER\<close> and \<^verbatim>\<open>ZMQ_CURVE_SERVER\<close> differ in the mechanism only.\<close>

definition set_server :: "int \<Rightarrow> 'm set_body" where
  "set_server m = set_int_then (\<lambda>value. value = 0 \<or> value = 1)
     (\<lambda>value o1. put_int o_mechanism (if value \<noteq> 0 then m else ZMQ_NULL) (put_int o_as_server value o1))"

definition set_plain_credential :: "bytes_opt \<Rightarrow> 'm set_body" where
  "set_plain_credential f iv v o1 =
     (case v of
        NullVal n \<Rightarrow> if n = 0 then Some (None, put_int o_mechanism ZMQ_NULL o1) else invalid o1
      | Val b \<Rightarrow> if 0 < length b \<and> length b \<le> UCHAR_MAX
                 then Some (None, put_int o_mechanism ZMQ_PLAIN (put_int o_as_server 0 (put_bytes f b o1)))
                 else invalid o1)"

definition set_curve_key :: "bytes_opt \<Rightarrow> optval \<Rightarrow> 'm options \<Rightarrow> (bool \<times> 'm options) option" where
  "set_curve_key f v o1 =
     (if optvallen v = CURVE_KEYSIZE then do {
        b \<leftarrow> deref v;
        Some (True, put_int o_mechanism ZMQ_CURVE (put_bytes f b o1))
      } else if optvallen v = CURVE_KEYSIZE_Z85 + 1 \<or> optvallen v = CURVE_KEYSIZE_Z85 then do {
        b \<leftarrow> deref v;
        (ok, key) \<leftarrow> zmq_z85_decode (byteses o1 f) (b @ [0]);
        Some (ok, (if ok then put_int o_mechanism ZMQ_CURVE else id) (put_bytes f key o1))
      } else Some (False, o1))"

definition set_curve_key_option :: "bytes_opt \<Rightarrow> ('m options \<Rightarrow> 'm options) \<Rightarrow> 'm set_body" where
  "set_curve_key_option f k iv v o1 = do {
     (ok, o2) \<leftarrow> set_curve_key f v o1;
     (if ok then Some (None, k o2) else invalid o2)
   }"

definition set_gss_principal :: "bytes_opt \<Rightarrow> ('m options \<Rightarrow> 'm options) \<Rightarrow> 'm set_body" where
  "set_gss_principal f k iv v o1 =
     (case v of
        NullVal n \<Rightarrow> invalid o1
      | Val b \<Rightarrow> if 0 < length b \<and> length b \<le> UCHAR_MAX
                 then Some (None, k (put_int o_mechanism ZMQ_GSSAPI (put_bytes f b o1))) else invalid o1)"

text \<open>Signed division in C++ rounds towards zero.\<close>

definition c_div :: "int \<Rightarrow> int \<Rightarrow> int" where
  "c_div a b = (if a < 0 then - ((- a) div b) else a div b)"

definition deciseconds_per_millisecond :: int where "deciseconds_per_millisecond = 100"

definition set_heartbeat_ttl :: "'m set_body" where
  "set_heartbeat_ttl iv v o1 = (case map_option (\<lambda>value. c_div value deciseconds_per_millisecond) iv of
     Some value \<Rightarrow> if value \<ge> 0 \<and> value \<le> 65535 then Some (None, put_int o_heartbeat_ttl value o1) else invalid o1
   | None \<Rightarrow> invalid o1)"

text \<open>The position of the first colon, the length when there is none.\<close>

definition find_colon :: "bytes \<Rightarrow> nat" where
  "find_colon s = length (takeWhile (\<lambda>c. c \<noteq> 58) s)"

definition set_metadata_option :: "'m set_body" where
  "set_metadata_option iv v o1 =
     (if optvallen v > 0 \<and> iv = None then do {
        s \<leftarrow> deref v;
        let pos = find_colon s in
        if pos < length s \<and> pos \<noteq> 0 \<and> pos \<noteq> length s - 1
        then (let key = take pos s in
              if take 2 key = bytes_of_string ''X-'' \<and> length key \<le> UCHAR_MAX
              then Some (None, (if app_metadata o1 key = None
                                then o1\<lparr>app_metadata := (app_metadata o1)(key \<mapsto> drop (pos + 1) s)\<rparr> else o1))
              else invalid o1)
        else invalid o1
      } else invalid o1)"

definition set_raw :: "bytes_opt \<Rightarrow> 'm set_body" where
  "set_raw f iv v o1 = do { b \<leftarrow> deref v; Some (None, put_bytes f b o1) }"

subsection \<open>The switch\<close>

definition rows_basic :: "(int \<times> 'm set_body) list" where
  "rows_basic =
     [(ZMQ_SNDHWM, set_int o_sndhwm (\<lambda>value. value \<ge> 0)),
      (ZMQ_RCVHWM, set_int o_rcvhwm (\<lambda>value. value \<ge> 0)),
      (ZMQ_AFFINITY, set_long o_affinity),
      (ZMQ_ROUTING_ID, set_routing_id_option),
      (ZMQ_RATE, set_int o_rate (\<lambda>value. value > 0)),
      (ZMQ_RECOVERY_IVL, set_int o_recovery_ivl (\<lambda>value. value \<ge> 0)),
      (ZMQ_SNDBUF, set_int o_sndbuf (\<lambda>value. value \<ge> -1)),
      (ZMQ_RCVBUF, set_int o_rcvbuf (\<lambda>value. value \<ge> -1)),
      (ZMQ_TOS, set_int o_tos (\<lambda>value. value \<ge> 0)),
      (ZMQ_LINGER, set_int o_linger (\<lambda>value. value \<ge> -1)),
      (ZMQ_CONNECT_TIMEOUT, set_int o_connect_timeout (\<lambda>value. value \<ge> 0)),
      (ZMQ_TCP_MAXRT, set_int o_tcp_maxrt (\<lambda>value. value \<ge> 0)),
      (ZMQ_RECONNECT_STOP, set_int o_reconnect_stop (\<lambda>value. True)),
      (ZMQ_RECONNECT_IVL, set_int o_reconnect_ivl (\<lambda>value. value \<ge> -1)),
      (ZMQ_RECONNECT_IVL_MAX, set_int o_reconnect_ivl_max (\<lambda>value. value \<ge> 0)),
      (ZMQ_BACKLOG, set_int o_backlog (\<lambda>value. value \<ge> 0)),
      (ZMQ_MAXMSGSIZE, set_long o_maxmsgsize),
      (ZMQ_MULTICAST_HOPS, set_int o_multicast_hops (\<lambda>value. value > 0)),
      (ZMQ_MULTICAST_MAXTPDU, set_int o_multicast_maxtpdu (\<lambda>value. value > 0)),
      (ZMQ_RCVTIMEO, set_int o_rcvtimeo (\<lambda>value. value \<ge> -1)),
      (ZMQ_SNDTIMEO, set_int o_sndtimeo (\<lambda>value. value \<ge> -1)),
      (ZMQ_IPV4ONLY, set_ipv4only),
      (ZMQ_IPV6, set_bool_strict o_ipv6)]"

definition rows_transport :: "(bytes \<Rightarrow> bool \<Rightarrow> errno + 'm) \<Rightarrow> build \<Rightarrow> (int \<times> 'm set_body) list" where
  "rows_transport resolve B =
     [(ZMQ_SOCKS_PROXY, set_string_strict o_socks_proxy_address None),
      (ZMQ_SOCKS_USERNAME, set_socks_credential o_socks_proxy_username),
      (ZMQ_SOCKS_PASSWORD, set_socks_credential o_socks_proxy_password),
      (ZMQ_TCP_KEEPALIVE, set_int o_tcp_keepalive (\<lambda>value. value = -1 \<or> value = 0 \<or> value = 1)),
      (ZMQ_TCP_KEEPALIVE_CNT, set_int o_tcp_keepalive_cnt (\<lambda>value. value = -1 \<or> value \<ge> 0)),
      (ZMQ_TCP_KEEPALIVE_IDLE, set_int o_tcp_keepalive_idle (\<lambda>value. value = -1 \<or> value \<ge> 0)),
      (ZMQ_TCP_KEEPALIVE_INTVL, set_int o_tcp_keepalive_intvl (\<lambda>value. value = -1 \<or> value \<ge> 0)),
      (ZMQ_IMMEDIATE, set_int o_immediate (\<lambda>value. value = 0 \<or> value = 1)),
      (ZMQ_TCP_ACCEPT_FILTER, set_tcp_accept_filter resolve)]
     @ (if b_peercred B \<or> b_local_peercred B
        then [(ZMQ_IPC_FILTER_UID, set_ipc_filter_uid), (ZMQ_IPC_FILTER_GID, set_ipc_filter_gid)] else [])
     @ (if b_peercred B then [(ZMQ_IPC_FILTER_PID, set_ipc_filter_pid)] else [])"

definition rows_security :: "build \<Rightarrow> (int \<times> 'm set_body) list" where
  "rows_security B =
     [(ZMQ_PLAIN_SERVER, set_server ZMQ_PLAIN),
      (ZMQ_PLAIN_USERNAME, set_plain_credential o_plain_username),
      (ZMQ_PLAIN_PASSWORD, set_plain_credential o_plain_password),
      (ZMQ_ZAP_DOMAIN, set_string_relaxed o_zap_domain UCHAR_MAX)]
     @ (if b_curve B
        then [(ZMQ_CURVE_SERVER, set_server ZMQ_CURVE),
              (ZMQ_CURVE_PUBLICKEY, set_curve_key_option o_curve_public_key id),
              (ZMQ_CURVE_SECRETKEY, set_curve_key_option o_curve_secret_key id),
              (ZMQ_CURVE_SERVERKEY, set_curve_key_option o_curve_server_key (put_int o_as_server 0))]
        else [])
     @ [(ZMQ_CONFLATE, set_bool_strict o_conflate)]
     @ (if b_gssapi B
        then [(ZMQ_GSSAPI_SERVER, set_int_then (\<lambda>value. value = 0 \<or> value = 1)
                 (\<lambda>value o1. put_int o_mechanism ZMQ_GSSAPI (put_int o_as_server value o1))),
              (ZMQ_GSSAPI_PRINCIPAL, set_gss_principal o_gss_principal id),
              (ZMQ_GSSAPI_SERVICE_PRINCIPAL, set_gss_principal o_gss_service_principal (put_int o_as_server 0)),
              (ZMQ_GSSAPI_PLAINTEXT, set_bool_strict o_gss_plaintext),
              (ZMQ_GSSAPI_PRINCIPAL_NAMETYPE, set_int o_gss_principal_nt (\<lambda>value. value = 0 \<or> value = 1 \<or> value = 2)),
              (ZMQ_GSSAPI_SERVICE_PRINCIPAL_NAMETYPE,
                 set_int o_gss_service_principal_nt (\<lambda>value. value = 0 \<or> value = 1 \<or> value = 2))]
        else [])"

definition rows_session :: "build \<Rightarrow> (int \<times> 'm set_body) list" where
  "rows_session B =
     [(ZMQ_HANDSHAKE_IVL, set_int o_handshake_ivl (\<lambda>value. value \<ge> 0)),
      (ZMQ_INVERT_MATCHING, set_bool_relaxed o_invert_matching),
      (ZMQ_HEARTBEAT_IVL, set_int o_heartbeat_interval (\<lambda>value. value \<ge> 0)),
      (ZMQ_HEARTBEAT_TTL, set_heartbeat_ttl),
      (ZMQ_HEARTBEAT_TIMEOUT, set_int o_heartbeat_timeout (\<lambda>value. value \<ge> 0))]
     @ (if b_vmci B
        then [(ZMQ_VMCI_BUFFER_SIZE, set_long o_vmci_buffer_size),
              (ZMQ_VMCI_BUFFER_MIN_SIZE, set_long o_vmci_buffer_min_size),
              (ZMQ_VMCI_BUFFER_MAX_SIZE, set_long o_vmci_buffer_max_size),
              (ZMQ_VMCI_CONNECT_TIMEOUT, set_int o_vmci_connect_timeout (\<lambda>value. True))]
        else [])
     @ [(ZMQ_USE_FD, set_int o_use_fd (\<lambda>value. value \<ge> -1)),
        (ZMQ_BINDTODEVICE, set_string_strict o_bound_device (Some BINDDEVSIZ)),
        (ZMQ_ZAP_ENFORCE_DOMAIN, set_bool_relaxed o_zap_enforce_domain),
        (ZMQ_LOOPBACK_FASTPATH, set_bool_relaxed o_loopback_fastpath),
        (ZMQ_METADATA, set_metadata_option),
        (ZMQ_MULTICAST_LOOP, set_bool_relaxed o_multicast_loop)]"

definition rows_draft :: "build \<Rightarrow> (int \<times> 'm set_body) list" where
  "rows_draft B =
     [(ZMQ_IN_BATCH_SIZE, set_int o_in_batch_size (\<lambda>value. value > 0)),
      (ZMQ_OUT_BATCH_SIZE, set_int o_out_batch_size (\<lambda>value. value > 0)),
      (ZMQ_BUSY_POLL, set_int o_busy_poll (\<lambda>value. True))]
     @ (if b_wss B
        then [(ZMQ_WSS_KEY_PEM, set_raw o_wss_key_pem),
              (ZMQ_WSS_CERT_PEM, set_raw o_wss_cert_pem),
              (ZMQ_WSS_TRUST_PEM, set_raw o_wss_trust_pem),
              (ZMQ_WSS_HOSTNAME, set_raw o_wss_hostname),
              (ZMQ_WSS_TRUST_SYSTEM, set_bool_strict o_wss_trust_system)]
        else [])
     @ (if b_norm B
        then [(ZMQ_NORM_MODE, set_int o_norm_mode (\<lambda>value. value \<ge> 0 \<and> value \<le> 4)),
              (ZMQ_NORM_UNICAST_NACK, set_bool_strict o_norm_unicast_nacks),
              (ZMQ_NORM_BUFFER_SIZE, set_int o_norm_buffer_size (\<lambda>value. value > 0)),
              (ZMQ_NORM_SEGMENT_SIZE, set_int o_norm_segment_size (\<lambda>value. value > 0)),
              (ZMQ_NORM_BLOCK_SIZE, set_int o_norm_block_size (\<lambda>value. value > 0 \<and> value \<le> 255)),
              (ZMQ_NORM_NUM_PARITY, set_int o_norm_num_parity (\<lambda>value. value \<ge> 0 \<and> value < 255)),
              (ZMQ_NORM_NUM_AUTOPARITY, set_int o_norm_num_autoparity (\<lambda>value. value \<ge> 0 \<and> value < 255)),
              (ZMQ_NORM_PUSH, set_bool_strict o_norm_push_enable)]
        else [])
     @ [(ZMQ_HELLO_MSG, set_raw o_hello_msg),
        (ZMQ_DISCONNECT_MSG, set_raw o_disconnect_msg),
        (ZMQ_PRIORITY, set_int o_priority (\<lambda>value. value \<ge> 0)),
        (ZMQ_HICCUP_MSG, set_raw o_hiccup_msg)]"

definition set_rows :: "(bytes \<Rightarrow> bool \<Rightarrow> errno + 'm) \<Rightarrow> build \<Rightarrow> (int \<times> 'm set_body) list" where
  "set_rows resolve B = rows_basic @ rows_transport resolve B @ rows_security B @ rows_session B
     @ (if b_draft B then rows_draft B else [])"

text \<open>The value is read first, for any option, when its length is that of an \<^verbatim>\<open>int\<close>.\<close>

definition read_value :: "optval \<Rightarrow> int option option" where
  "read_value v = (if optvallen v = 4 then map_option (\<lambda>b. Some (int_of_bytes b)) (deref v) else Some None)"

definition setsockopt :: "(bytes \<Rightarrow> bool \<Rightarrow> errno + 'm) \<Rightarrow> build \<Rightarrow> int \<Rightarrow> optval \<Rightarrow> 'm options \<Rightarrow> (errno option \<times> 'm options) option" where
  "setsockopt resolve B option1 v o1 = do {
     iv \<leftarrow> read_value v;
     (case map_of (set_rows resolve B) option1 of
        Some body \<Rightarrow> body iv v o1
      | None \<Rightarrow> invalid o1)
   }"

end
