(* ===== verification/Options_Get.thy ===== *)
theory Options_Get
  imports Options
begin

text \<open>
  \<^verbatim>\<open>options_t::getsockopt\<close>, the second switch of options.cpp, with the same table form as the first.
  The result is the error, what was written to the buffer (the whole buffer, or nothing) and the
  length passed back. \<open>None\<close> is a failing assertion.
\<close>

type_synonym 'm get_body = "nat \<Rightarrow> 'm options \<Rightarrow> (errno option \<times> bytes option \<times> nat) option"

definition get_int :: "('m options \<Rightarrow> int) \<Rightarrow> 'm get_body" where
  "get_int g len o1 = Some (if len = 4 then (None, Some (bytes_of_int (g o1)), len) else (Some EINVAL, None, len))"

definition as_int :: "bool \<Rightarrow> int" where
  "as_int b = (if b then 1 else 0)"

definition get_bool :: "bool_opt \<Rightarrow> 'm get_body" where
  "get_bool f = get_int (\<lambda>o1. as_int (bools o1 f))"

definition get_long :: "long_opt \<Rightarrow> 'm get_body" where
  "get_long f len o1 =
     Some (if len = 8 then (None, Some (le_bytes 8 (unat (longs o1 f))), len) else (Some EINVAL, None, len))"

definition got :: "nat \<Rightarrow> errno + bytes \<times> nat \<Rightarrow> errno option \<times> bytes option \<times> nat" where
  "got len r = (case r of Inl e \<Rightarrow> (Some e, None, len) | Inr (b, n) \<Rightarrow> (None, Some b, n))"

definition get_routing_id :: "'m get_body" where
  "get_routing_id len o1 = Some (got len (do_getsockopt len (byteses o1 o_routing_id)))"

definition get_string :: "bytes_opt \<Rightarrow> 'm get_body" where
  "get_string f len o1 = Some (got len (do_getsockopt_string len (byteses o1 f)))"

definition do_getsockopt_curve_key :: "bytes_opt \<Rightarrow> 'm get_body" where
  "do_getsockopt_curve_key f len o1 =
     (if len = CURVE_KEYSIZE then Some (None, Some (byteses o1 f), len)
      else if len = CURVE_KEYSIZE_Z85 + 1 then do {
        r \<leftarrow> zmq_z85_encode (byteses o1 f);
        Some (None, (case r of Inl _ \<Rightarrow> None | Inr txt \<Rightarrow> Some txt), len)
      } else Some (Some EINVAL, None, len))"

text \<open>The case of \<^verbatim>\<open>ZMQ_BUSY_POLL\<close> stores the value and then breaks out of the switch.\<close>

definition get_busy_poll :: "'m get_body" where
  "get_busy_poll len o1 = Some (Some EINVAL, (if len = 4 then Some (bytes_of_int (ints o1 o_busy_poll)) else None), len)"

definition is_server :: "int \<Rightarrow> 'm options \<Rightarrow> int" where
  "is_server m o1 = as_int (ints o1 o_as_server \<noteq> 0 \<and> ints o1 o_mechanism = m)"

definition get_rows_basic :: "(int \<times> 'm get_body) list" where
  "get_rows_basic =
     [(ZMQ_SNDHWM, get_int (\<lambda>o1. ints o1 o_sndhwm)),
      (ZMQ_RCVHWM, get_int (\<lambda>o1. ints o1 o_rcvhwm)),
      (ZMQ_AFFINITY, get_long o_affinity),
      (ZMQ_ROUTING_ID, get_routing_id),
      (ZMQ_RATE, get_int (\<lambda>o1. ints o1 o_rate)),
      (ZMQ_RECOVERY_IVL, get_int (\<lambda>o1. ints o1 o_recovery_ivl)),
      (ZMQ_SNDBUF, get_int (\<lambda>o1. ints o1 o_sndbuf)),
      (ZMQ_RCVBUF, get_int (\<lambda>o1. ints o1 o_rcvbuf)),
      (ZMQ_TOS, get_int (\<lambda>o1. ints o1 o_tos)),
      (ZMQ_TYPE, get_int (\<lambda>o1. ints o1 o_type)),
      (ZMQ_LINGER, get_int (\<lambda>o1. ints o1 o_linger)),
      (ZMQ_CONNECT_TIMEOUT, get_int (\<lambda>o1. ints o1 o_connect_timeout)),
      (ZMQ_TCP_MAXRT, get_int (\<lambda>o1. ints o1 o_tcp_maxrt)),
      (ZMQ_RECONNECT_STOP, get_int (\<lambda>o1. ints o1 o_reconnect_stop)),
      (ZMQ_RECONNECT_IVL, get_int (\<lambda>o1. ints o1 o_reconnect_ivl)),
      (ZMQ_RECONNECT_IVL_MAX, get_int (\<lambda>o1. ints o1 o_reconnect_ivl_max)),
      (ZMQ_BACKLOG, get_int (\<lambda>o1. ints o1 o_backlog)),
      (ZMQ_MAXMSGSIZE, get_long o_maxmsgsize),
      (ZMQ_MULTICAST_HOPS, get_int (\<lambda>o1. ints o1 o_multicast_hops)),
      (ZMQ_MULTICAST_MAXTPDU, get_int (\<lambda>o1. ints o1 o_multicast_maxtpdu))]"

definition get_rows_transport :: "(int \<times> 'm get_body) list" where
  "get_rows_transport =
     [(ZMQ_RCVTIMEO, get_int (\<lambda>o1. ints o1 o_rcvtimeo)),
      (ZMQ_SNDTIMEO, get_int (\<lambda>o1. ints o1 o_sndtimeo)),
      (ZMQ_IPV4ONLY, get_int (\<lambda>o1. 1 - as_int (bools o1 o_ipv6))),
      (ZMQ_IPV6, get_bool o_ipv6),
      (ZMQ_IMMEDIATE, get_int (\<lambda>o1. ints o1 o_immediate)),
      (ZMQ_SOCKS_PROXY, get_string o_socks_proxy_address),
      (ZMQ_SOCKS_USERNAME, get_string o_socks_proxy_username),
      (ZMQ_SOCKS_PASSWORD, get_string o_socks_proxy_password),
      (ZMQ_TCP_KEEPALIVE, get_int (\<lambda>o1. ints o1 o_tcp_keepalive)),
      (ZMQ_TCP_KEEPALIVE_CNT, get_int (\<lambda>o1. ints o1 o_tcp_keepalive_cnt)),
      (ZMQ_TCP_KEEPALIVE_IDLE, get_int (\<lambda>o1. ints o1 o_tcp_keepalive_idle)),
      (ZMQ_TCP_KEEPALIVE_INTVL, get_int (\<lambda>o1. ints o1 o_tcp_keepalive_intvl))]"

definition get_rows_security :: "build \<Rightarrow> (int \<times> 'm get_body) list" where
  "get_rows_security B =
     [(ZMQ_MECHANISM, get_int (\<lambda>o1. ints o1 o_mechanism)),
      (ZMQ_PLAIN_SERVER, get_int (is_server ZMQ_PLAIN)),
      (ZMQ_PLAIN_USERNAME, get_string o_plain_username),
      (ZMQ_PLAIN_PASSWORD, get_string o_plain_password),
      (ZMQ_ZAP_DOMAIN, get_string o_zap_domain)]
     @ (if b_curve B
        then [(ZMQ_CURVE_SERVER, get_int (is_server ZMQ_CURVE)),
              (ZMQ_CURVE_PUBLICKEY, do_getsockopt_curve_key o_curve_public_key),
              (ZMQ_CURVE_SECRETKEY, do_getsockopt_curve_key o_curve_secret_key),
              (ZMQ_CURVE_SERVERKEY, do_getsockopt_curve_key o_curve_server_key)]
        else [])
     @ [(ZMQ_CONFLATE, get_bool o_conflate)]
     @ (if b_gssapi B
        then [(ZMQ_GSSAPI_SERVER, get_int (is_server ZMQ_GSSAPI)),
              (ZMQ_GSSAPI_PRINCIPAL, get_string o_gss_principal),
              (ZMQ_GSSAPI_SERVICE_PRINCIPAL, get_string o_gss_service_principal),
              (ZMQ_GSSAPI_PLAINTEXT, get_bool o_gss_plaintext),
              (ZMQ_GSSAPI_PRINCIPAL_NAMETYPE, get_int (\<lambda>o1. ints o1 o_gss_principal_nt)),
              (ZMQ_GSSAPI_SERVICE_PRINCIPAL_NAMETYPE, get_int (\<lambda>o1. ints o1 o_gss_service_principal_nt))]
        else [])"

definition get_rows_session :: "(int \<times> 'm get_body) list" where
  "get_rows_session =
     [(ZMQ_HANDSHAKE_IVL, get_int (\<lambda>o1. ints o1 o_handshake_ivl)),
      (ZMQ_INVERT_MATCHING, get_bool o_invert_matching),
      (ZMQ_HEARTBEAT_IVL, get_int (\<lambda>o1. ints o1 o_heartbeat_interval)),
      (ZMQ_HEARTBEAT_TTL, get_int (\<lambda>o1. ints o1 o_heartbeat_ttl * 100)),
      (ZMQ_HEARTBEAT_TIMEOUT, get_int (\<lambda>o1. ints o1 o_heartbeat_timeout)),
      (ZMQ_USE_FD, get_int (\<lambda>o1. ints o1 o_use_fd)),
      (ZMQ_BINDTODEVICE, get_string o_bound_device),
      (ZMQ_ZAP_ENFORCE_DOMAIN, get_bool o_zap_enforce_domain),
      (ZMQ_LOOPBACK_FASTPATH, get_bool o_loopback_fastpath),
      (ZMQ_MULTICAST_LOOP, get_bool o_multicast_loop)]"

definition get_rows_draft :: "build \<Rightarrow> (int \<times> 'm get_body) list" where
  "get_rows_draft B =
     [(ZMQ_ROUTER_NOTIFY, get_int (\<lambda>o1. ints o1 o_router_notify)),
      (ZMQ_IN_BATCH_SIZE, get_int (\<lambda>o1. ints o1 o_in_batch_size)),
      (ZMQ_OUT_BATCH_SIZE, get_int (\<lambda>o1. ints o1 o_out_batch_size)),
      (ZMQ_PRIORITY, get_int (\<lambda>o1. ints o1 o_priority)),
      (ZMQ_BUSY_POLL, get_busy_poll)]
     @ (if b_norm B
        then [(ZMQ_NORM_MODE, get_int (\<lambda>o1. ints o1 o_norm_mode)),
              (ZMQ_NORM_UNICAST_NACK, get_bool o_norm_unicast_nacks),
              (ZMQ_NORM_BUFFER_SIZE, get_int (\<lambda>o1. ints o1 o_norm_buffer_size)),
              (ZMQ_NORM_SEGMENT_SIZE, get_int (\<lambda>o1. ints o1 o_norm_segment_size)),
              (ZMQ_NORM_BLOCK_SIZE, get_int (\<lambda>o1. ints o1 o_norm_block_size)),
              (ZMQ_NORM_NUM_PARITY, get_int (\<lambda>o1. ints o1 o_norm_num_parity)),
              (ZMQ_NORM_NUM_AUTOPARITY, get_int (\<lambda>o1. ints o1 o_norm_num_autoparity)),
              (ZMQ_NORM_PUSH, get_bool o_norm_push_enable)]
        else [])"

definition get_rows :: "build \<Rightarrow> (int \<times> 'm get_body) list" where
  "get_rows B = get_rows_basic @ get_rows_transport @ get_rows_security B @ get_rows_session
     @ (if b_draft B then get_rows_draft B else [])"

definition getsockopt :: "build \<Rightarrow> int \<Rightarrow> nat \<Rightarrow> 'm options \<Rightarrow> (errno option \<times> bytes option \<times> nat) option" where
  "getsockopt B option1 len o1 = (case map_of (get_rows B) option1 of
     Some body \<Rightarrow> body len o1
   | None \<Rightarrow> Some (Some EINVAL, None, len))"

end
