(* ===== verification/Options_Facts.thy ===== *)
theory Options_Facts
  imports Options_Get
begin

text \<open>
  What holds of the options: every option keeps a value of its range through any sequence of calls, a
  refused call leaves the options alone but for the bytes of a key, what was set is what is
  read, and what the two switches do at their edges.
\<close>

subsection \<open>Ranges\<close>

definition int_lo :: "int_opt \<Rightarrow> int" where
  "int_lo f =
     (if f \<in> {o_rate, o_multicast_hops, o_multicast_maxtpdu, o_in_batch_size, o_out_batch_size, o_norm_buffer_size,
              o_norm_segment_size, o_norm_block_size} then 1
      else if f \<in> {o_sndhwm, o_rcvhwm, o_recovery_ivl, o_tos, o_connect_timeout, o_tcp_maxrt, o_reconnect_ivl_max,
              o_backlog, o_immediate, o_mechanism, o_as_server, o_gss_principal_nt, o_gss_service_principal_nt,
              o_handshake_ivl, o_heartbeat_ttl, o_heartbeat_interval, o_norm_mode, o_norm_num_parity,
              o_norm_num_autoparity, o_priority} then 0
      else if f \<in> {o_reconnect_stop, o_busy_poll, o_vmci_connect_timeout} then -2147483648
      else -1)"

definition int_hi :: "int_opt \<Rightarrow> int" where
  "int_hi f =
     (if f \<in> {o_immediate, o_as_server, o_tcp_keepalive} then 1
      else if f \<in> {o_gss_principal_nt, o_gss_service_principal_nt} then 2
      else if f = o_mechanism then 3
      else if f = o_norm_mode then 4
      else if f \<in> {o_norm_num_parity, o_norm_num_autoparity} then 254
      else if f = o_norm_block_size then 255
      else if f = o_heartbeat_ttl then 65535
      else 2147483647)"

definition bytes_ok :: "bytes_opt \<Rightarrow> bytes \<Rightarrow> bool" where
  "bytes_ok f b =
     (if is_curve_key f then length b = CURVE_KEYSIZE
      else if f \<in> {o_routing_id, o_socks_proxy_username, o_socks_proxy_password, o_zap_domain, o_plain_username,
                   o_plain_password, o_gss_principal, o_gss_service_principal} then length b \<le> UCHAR_MAX
      else f = o_bound_device \<longrightarrow> length b \<le> BINDDEVSIZ)"

definition key_ok :: "bytes \<Rightarrow> bytes \<Rightarrow> bool" where
  "key_ok k v \<longleftrightarrow> take 2 k = bytes_of_string ''X-'' \<and> length k \<le> UCHAR_MAX \<and> 58 \<notin> set k \<and> v \<noteq> []"

definition options_ok :: "'m options \<Rightarrow> bool" where
  "options_ok o1 \<longleftrightarrow> (\<forall>f. int_lo f \<le> ints o1 f \<and> ints o1 f \<le> int_hi f) \<and> (\<forall>f. bytes_ok f (byteses o1 f))
     \<and> (\<forall>k v. app_metadata o1 k = Some v \<longrightarrow> key_ok k v)"

lemma options_ok_other [simp]:
  "options_ok o1 \<Longrightarrow> options_ok (o1\<lparr>tcp_accept_filters := a\<rparr>)"
  "options_ok o1 \<Longrightarrow> options_ok (o1\<lparr>ipc_uid_accept_filters := s\<rparr>)"
  "options_ok o1 \<Longrightarrow> options_ok (o1\<lparr>ipc_gid_accept_filters := s\<rparr>)"
  "options_ok o1 \<Longrightarrow> options_ok (o1\<lparr>ipc_pid_accept_filters := s\<rparr>)"
  by (simp_all add: options_ok_def)

lemma options_t_ok: "options_ok options_t"
proof -
  have "int_lo f \<le> init_int f \<and> init_int f \<le> int_hi f" for f by (cases f) (simp_all add: int_lo_def int_hi_def default_hwm_def)
  moreover have "bytes_ok f (init_bytes f)" for f by (auto simp: bytes_ok_def init_bytes_def)
  ultimately show ?thesis by (simp add: options_ok_def options_t_def)
qed

text \<open>
  What every body of the switch does: it returns when it is given bytes, it keeps the ranges, and when it
  refuses it leaves the options as they were, up to the bytes of the key it may have been writing.
\<close>

definition unchanged :: "bytes_opt option \<Rightarrow> 'm options \<Rightarrow> 'm options \<Rightarrow> bool" where
  "unchanged key o1 o2 \<longleftrightarrow> o2 = o1 \<or> (\<exists>f b. key = Some f \<and> length b = CURVE_KEYSIZE \<and> o2 = put_bytes f b o1)"

definition result_ok :: "bytes_opt option \<Rightarrow> 'm options \<Rightarrow> errno option \<times> 'm options \<Rightarrow> bool" where
  "result_ok key o1 r \<longleftrightarrow> options_ok (snd r) \<and> (fst r \<noteq> None \<longrightarrow> unchanged key o1 (snd r))"

definition body_ok :: "bytes_opt option \<Rightarrow> 'm set_body \<Rightarrow> bool" where
  "body_ok key body \<longleftrightarrow> (\<forall>iv v o1. options_ok o1 \<longrightarrow> (\<forall>i. iv = Some i \<longrightarrow> is_int32 i) \<longrightarrow>
     pred_option (result_ok key o1) (body iv v o1) \<and> (\<forall>b. v = Val b \<longrightarrow> body iv v o1 \<noteq> None))"

named_theorems body_intros "bodies of the switch that are in order"

lemma result_ok_simps [simp]:
  "result_ok key o1 (None, o2) \<longleftrightarrow> options_ok o2"
  "options_ok o1 \<Longrightarrow> result_ok key o1 (Some e, o1)"
  by (simp_all add: result_ok_def unchanged_def)

lemma body_okI:
  assumes "\<And>iv v o1. options_ok o1 \<Longrightarrow> (\<And>i. iv = Some i \<Longrightarrow> is_int32 i) \<Longrightarrow> pred_option (result_ok key o1) (body iv v o1)"
    and "\<And>iv b o1. options_ok o1 \<Longrightarrow> (\<And>i. iv = Some i \<Longrightarrow> is_int32 i) \<Longrightarrow> body iv (Val b) o1 \<noteq> None"
  shows "body_ok key body"
  unfolding body_ok_def using assms by blast

lemma pred_option_iff: "pred_option P x \<longleftrightarrow> (\<forall>y. x = Some y \<longrightarrow> P y)"
  by (cases x) simp_all

lemma pred_option_bind [simp]: "pred_option P (x \<bind> f) \<longleftrightarrow> (\<forall>y. x = Some y \<longrightarrow> pred_option P (f y))"
  by (cases x) simp_all

lemma pred_option_map [simp]: "pred_option P (map_option f x) \<longleftrightarrow> (\<forall>y. x = Some y \<longrightarrow> P (f y))"
  by (cases x) simp_all

lemma invalid_ok [simp]: "options_ok o1 \<Longrightarrow> pred_option (result_ok key o1) (invalid o1)" "\<exists>r o2. invalid o1 = Some (r, o2)"
  by (simp_all add: invalid_def)

lemma store_result [simp]: "options_ok o1 \<Longrightarrow> result_ok key o1 (store f o1 r) \<longleftrightarrow> (\<forall>x. r = Inr x \<longrightarrow> options_ok (f x o1))"
  by (cases r) (simp_all add: store_def)

lemma options_ok_simps [simp]:
  assumes "options_ok o1"
  shows "options_ok (put_bytes g b o1) \<longleftrightarrow> bytes_ok g b" "options_ok (put_bool h x o1)" "options_ok (put_long l y o1)"
    "options_ok (put_int f i o1) \<longleftrightarrow> int_lo f \<le> i \<and> i \<le> int_hi f"
  using assms by (auto simp: options_ok_def put_int_def put_bytes_def put_bool_def put_long_def)

lemma set_int_then_ok [body_intros]:
  assumes "\<And>i o1. is_int32 i \<Longrightarrow> g i \<Longrightarrow> options_ok o1 \<Longrightarrow> options_ok (f i o1)"
  shows "body_ok key (set_int_then g f)"
  by (rule body_okI) (use assms in \<open>simp_all add: set_int_then_def split: option.splits\<close>)

lemma set_int_ok [body_intros]:
  assumes "\<And>i. is_int32 i \<Longrightarrow> g i \<Longrightarrow> int_lo f \<le> i \<and> i \<le> int_hi f"
  shows "body_ok key (set_int f g)"
  unfolding set_int_def by (rule set_int_then_ok) (use assms in simp)

lemma do_setsockopt_val [simp]:
  "do_setsockopt n (Val b) \<noteq> None"
  "do_setsockopt_int_as_bool_strict (Val b) \<noteq> None"
  "do_setsockopt_int_as_bool_relaxed (Val b) \<noteq> None"
  "do_setsockopt_string_allow_empty_relaxed mx (Val b) \<noteq> None"
  by (simp_all add: do_setsockopt_def do_setsockopt_int_as_bool_strict_def do_setsockopt_int_as_bool_relaxed_def
      do_setsockopt_string_allow_empty_relaxed_def)

lemma set_stored_ok [body_intros]:
  "body_ok key (set_long f)"
  "body_ok key (set_bool_strict g)"
  "body_ok key (set_bool_relaxed g)"
  "body_ok key set_ipv4only"
  by (rule body_okI, simp_all only: set_long_def set_bool_strict_def set_bool_relaxed_def set_ipv4only_def
      pred_option_map store_result options_ok_simps option.map_disc_iff do_setsockopt_val simp_thms)+

lemma do_string_strict_Inr: "do_setsockopt_string_allow_empty_strict (Some k) v = Inr x \<Longrightarrow> length x \<le> k"
  by (auto simp: do_setsockopt_string_allow_empty_strict_def split: optval.splits if_splits)

lemma do_string_relaxed_Inr: "do_setsockopt_string_allow_empty_relaxed k v = Some (Inr x) \<Longrightarrow> length x \<le> k"
  by (auto simp: do_setsockopt_string_allow_empty_relaxed_def split: optval.splits if_splits)

lemma set_string_ok [body_intros]:
  "(\<And>b. bytes_ok f b) \<Longrightarrow> body_ok key (set_string_strict f None)"
  "(\<And>b. length b \<le> k \<Longrightarrow> bytes_ok f b) \<Longrightarrow> body_ok key (set_string_strict f (Some k))"
  "(\<And>b. length b \<le> k \<Longrightarrow> bytes_ok f b) \<Longrightarrow> body_ok key (set_string_relaxed f k)"
  by (rule body_okI; auto simp: set_string_strict_def set_string_relaxed_def dest: do_string_strict_Inr do_string_relaxed_Inr)+

lemma deref_length: "deref v = Some b \<Longrightarrow> length b = optvallen v"
  by (auto simp: deref_def split: optval.splits if_splits)

lemma deref_val [simp]: "deref (Val b) = Some b"
  by (simp add: deref_def)

lemma set_routing_id_option_ok [body_intros]: "body_ok key set_routing_id_option"
  by (rule body_okI) (auto simp: set_routing_id_option_def bytes_ok_def is_curve_key_def dest!: deref_length)

lemma set_raw_ok [body_intros]: "(\<And>b. bytes_ok f b) \<Longrightarrow> body_ok key (set_raw f)"
  by (rule body_okI) (simp_all add: set_raw_def)

lemma set_socks_credential_ok [body_intros]: "(\<And>b. length b \<le> UCHAR_MAX \<Longrightarrow> bytes_ok f b) \<Longrightarrow> body_ok key (set_socks_credential f)"
  by (rule body_okI) (auto simp: set_socks_credential_def dest: do_string_strict_Inr split: optval.splits)

lemma set_tcp_accept_filter_ok [body_intros]: "body_ok key (set_tcp_accept_filter resolve)"
  by (rule body_okI) (auto simp: set_tcp_accept_filter_def split: sum.splits)

lemma set_ipc_filters_ok [body_intros]: "body_ok key set_ipc_filter_uid" "body_ok key set_ipc_filter_gid" "body_ok key set_ipc_filter_pid"
  by (rule body_okI, auto simp: set_ipc_filter_uid_def set_ipc_filter_gid_def set_ipc_filter_pid_def)+

lemma as_server_mechanism_range [simp]: "int_lo o_as_server = 0" "int_hi o_as_server = 1" "int_lo o_mechanism = 0" "int_hi o_mechanism = 3"
  by (simp_all add: int_lo_def int_hi_def)

lemma set_server_ok [body_intros]: "0 \<le> m \<Longrightarrow> m \<le> 3 \<Longrightarrow> body_ok key (set_server m)"
  unfolding set_server_def by (rule set_int_then_ok) auto

lemma set_plain_credential_ok [body_intros]: "(\<And>b. length b \<le> UCHAR_MAX \<Longrightarrow> bytes_ok f b) \<Longrightarrow> body_ok key (set_plain_credential f)"
  by (rule body_okI) (auto simp: set_plain_credential_def split: optval.splits)

lemma set_gss_principal_ok [body_intros]:
  "(\<And>b. length b \<le> UCHAR_MAX \<Longrightarrow> bytes_ok f b) \<Longrightarrow> (\<And>o1. options_ok o1 \<Longrightarrow> options_ok (k o1)) \<Longrightarrow> body_ok key (set_gss_principal f k)"
  by (rule body_okI) (auto simp: set_gss_principal_def split: optval.splits)

lemma set_heartbeat_ttl_ok [body_intros]: "body_ok key set_heartbeat_ttl"
  by (rule body_okI) (auto simp: set_heartbeat_ttl_def int_lo_def int_hi_def split: option.splits)

lemma find_colon_prefix: "58 \<notin> set (take (find_colon s) s)"
  unfolding find_colon_def takeWhile_eq_take [symmetric] by (auto dest: set_takeWhileD)

lemma set_metadata_option_ok [body_intros]: "body_ok key set_metadata_option"
proof (rule body_okI)
  fix iv v and o1 :: "'a options" assume ok: "options_ok o1"
  have "options_ok (o1\<lparr>app_metadata := (app_metadata o1)(take p s \<mapsto> drop (p + 1) s)\<rparr>)"
    if p: "p = find_colon s" "p < length s" "p \<noteq> length s - 1" and k: "take 2 (take p s) = bytes_of_string ''X-''"
      "length (take p s) \<le> UCHAR_MAX" for p s
  proof -
    have "key_ok (take p s) (drop (p + 1) s)" using p k find_colon_prefix [of s] unfolding key_ok_def by auto
    then show ?thesis using ok by (auto simp: options_ok_def)
  qed
  with ok show "pred_option (result_ok key o1) (set_metadata_option iv v o1)" by (auto simp: set_metadata_option_def Let_def)
qed (auto simp: set_metadata_option_def Let_def invalid_def)

lemma key_length: "options_ok o1 \<Longrightarrow> is_curve_key f \<Longrightarrow> length (byteses o1 f) = CURVE_KEYSIZE"
  by (auto simp: options_ok_def bytes_ok_def)

lemma bytes_ok_key [simp]: "is_curve_key f \<Longrightarrow> bytes_ok f b \<longleftrightarrow> length b = CURVE_KEYSIZE"
  by (simp add: bytes_ok_def)

lemma decode_key:
  assumes "options_ok o1" "is_curve_key f" "length b \<le> CURVE_KEYSIZE_Z85 + 1"
  shows "\<exists>ok k. zmq_z85_decode (byteses o1 f) (b @ [0]) = Some (ok, k) \<and> length k = CURVE_KEYSIZE"
proof -
  have "length (c_bytes (b @ [0])) \<le> CURVE_KEYSIZE_Z85 + 1"
    using assms(3) length_takeWhile_le [of "\<lambda>c. c \<noteq> 0" "b @ [0]"] takeWhile_append [of "\<lambda>c. c \<noteq> 0" b "[0]"]
    by (auto simp: c_bytes_def intro: order_trans [OF length_takeWhile_le])
  then have "length (c_bytes (b @ [0])) div 5 * 4 \<le> length (byteses o1 f)" using key_length [OF assms(1,2)] by simp
  from zmq_z85_decode_returns [OF this] show ?thesis using key_length [OF assms(1,2)] by simp
qed

lemma set_curve_key_option_ok [body_intros]:
  assumes f: "is_curve_key f" and k: "\<And>o1. options_ok o1 \<Longrightarrow> options_ok (k o1)"
  shows "body_ok (Some f) (set_curve_key_option f k)"
proof (rule body_okI)
  fix iv v and o1 :: "'a options" assume ok: "options_ok o1"
  show "pred_option (result_ok (Some f) o1) (set_curve_key_option f k iv v o1)"
  proof (cases "optvallen v = 41 \<or> optvallen v = 40")
    case True
    have "pred_option (\<lambda>b. \<exists>okk key. zmq_z85_decode (byteses o1 f) (b @ [0]) = Some (okk, key) \<and> length key = CURVE_KEYSIZE) (deref v)"
      using decode_key [OF ok f] deref_length [of v] True by (auto simp: pred_option_iff)
    then show ?thesis using True ok f k
      by (cases "deref v") (auto simp: set_curve_key_option_def set_curve_key_def invalid_def result_ok_def unchanged_def)
  next
    case False
    then show ?thesis using ok f k deref_length [of v]
      by (cases "deref v") (auto simp: set_curve_key_option_def set_curve_key_def)
  qed
next
  fix iv b and o1 :: "'a options" assume ok: "options_ok o1"
  show "set_curve_key_option f k iv (Val b) o1 \<noteq> None"
    using decode_key [OF ok f, of b]
    by (cases "length b = 41 \<or> length b = 40") (auto simp: set_curve_key_option_def set_curve_key_def invalid_def)
qed

subsection \<open>Every row of the switch\<close>

definition key_of :: "int \<Rightarrow> bytes_opt option" where
  "key_of option1 = (if option1 = ZMQ_CURVE_PUBLICKEY then Some o_curve_public_key
     else if option1 = ZMQ_CURVE_SECRETKEY then Some o_curve_secret_key
     else if option1 = ZMQ_CURVE_SERVERKEY then Some o_curve_server_key else None)"

lemmas range_simps = int_lo_def int_hi_def bytes_ok_def is_curve_key_def is_int32_def key_of_def

definition rows_ok :: "(int \<times> 'm set_body) list \<Rightarrow> bool" where
  "rows_ok rows \<longleftrightarrow> (\<forall>(c, body) \<in> set rows. body_ok (key_of c) body)"

lemma rows_ok_simps [simp]:
  "rows_ok []"
  "rows_ok ((c, body) # rows) \<longleftrightarrow> body_ok (key_of c) body \<and> rows_ok rows"
  "rows_ok (rows @ rows') \<longleftrightarrow> rows_ok rows \<and> rows_ok rows'"
  by (auto simp: rows_ok_def)

lemma rows_basic_ok: "rows_ok rows_basic"
  unfolding rows_basic_def rows_ok_simps by (intro conjI TrueI body_intros) (auto simp: range_simps)

lemma rows_transport_ok: "rows_ok (rows_transport resolve B)"
  unfolding rows_transport_def if_distrib [of rows_ok] rows_ok_simps
  by (intro conjI TrueI if_bool_eq_conj [THEN iffD2] impI body_intros) (auto simp: range_simps)

lemma rows_security_ok: "rows_ok (rows_security B)"
proof -
  have key: "key_of ZMQ_CURVE_PUBLICKEY = Some o_curve_public_key" "key_of ZMQ_CURVE_SECRETKEY = Some o_curve_secret_key"
    "key_of ZMQ_CURVE_SERVERKEY = Some o_curve_server_key" by (simp_all add: key_of_def)
  show ?thesis
    unfolding rows_security_def if_distrib [of rows_ok] rows_ok_simps key
    by (intro conjI TrueI if_bool_eq_conj [THEN iffD2] impI body_intros) (auto simp: range_simps)
qed

lemma rows_session_ok: "rows_ok (rows_session B)"
  unfolding rows_session_def if_distrib [of rows_ok] rows_ok_simps
  by (intro conjI TrueI if_bool_eq_conj [THEN iffD2] impI body_intros) (auto simp: range_simps)

lemma rows_draft_ok: "rows_ok (rows_draft B)"
  unfolding rows_draft_def if_distrib [of rows_ok] rows_ok_simps
  by (intro conjI TrueI if_bool_eq_conj [THEN iffD2] impI body_intros) (auto simp: range_simps)

lemma set_rows_ok: "rows_ok (set_rows resolve B)"
  by (simp add: set_rows_def rows_basic_ok rows_transport_ok rows_security_ok rows_session_ok rows_draft_ok)

subsection \<open>Calls and sequences of calls\<close>

lemma row_body_ok: "map_of (set_rows resolve B) c = Some body \<Longrightarrow> body_ok (key_of c) body"
  using set_rows_ok [of resolve B] by (auto simp: rows_ok_def dest: map_of_SomeD)

lemma body_okD:
  assumes "body_ok key body" "options_ok o1" "\<And>i. iv = Some i \<Longrightarrow> is_int32 i"
  shows "pred_option (result_ok key o1) (body iv v o1)" "body iv (Val b) o1 \<noteq> None"
  using assms unfolding body_ok_def by blast+

lemma read_value_int32: "read_value v = Some iv \<Longrightarrow> iv = Some i \<Longrightarrow> is_int32 i"
  using int_of_bytes_range by (auto simp: read_value_def split: if_splits)

lemma setsockopt_result:
  assumes ok: "options_ok o1"
  shows "pred_option (result_ok (key_of c) o1) (setsockopt resolve B c v o1)"
proof (cases "map_of (set_rows resolve B) c")
  case (Some body)
  have "pred_option (result_ok (key_of c) o1) (body iv v o1)" if "read_value v = Some iv" for iv
    by (rule body_okD [OF row_body_ok [OF Some] ok]) (rule read_value_int32 [OF that])
  with Some show ?thesis by (simp add: setsockopt_def)
qed (simp add: setsockopt_def ok)

lemma setsockopt_returns:
  assumes ok: "options_ok o1"
  shows "\<exists>r o2. setsockopt resolve B c (Val b) o1 = Some (r, o2)"
proof -
  obtain iv where iv: "read_value (Val b) = Some iv" by (cases "length b = 4") (auto simp: read_value_def)
  show ?thesis
  proof (cases "map_of (set_rows resolve B) c")
    case (Some body)
    have "body iv (Val b) o1 \<noteq> None" by (rule body_okD [OF row_body_ok [OF Some] ok]) (rule read_value_int32 [OF iv])
    with Some iv show ?thesis by (simp add: setsockopt_def)
  qed (simp add: setsockopt_def iv)
qed

text \<open>A program's calls of \<^verbatim>\<open>setsockopt\<close>, whatever each of them returns.\<close>

fun set_all :: "(bytes \<Rightarrow> bool \<Rightarrow> errno + 'm) \<Rightarrow> build \<Rightarrow> (int \<times> bytes) list \<Rightarrow> 'm options \<Rightarrow> 'm options option" where
  "set_all resolve B [] o1 = Some o1"
| "set_all resolve B ((c, b) # calls) o1 = do { (r, o2) \<leftarrow> setsockopt resolve B c (Val b) o1; set_all resolve B calls o2 }"

lemma set_all_ok: "options_ok o1 \<Longrightarrow> \<exists>o2. set_all resolve B calls o1 = Some o2 \<and> options_ok o2"
proof (induction calls arbitrary: o1)
  case (Cons call calls)
  obtain c b where call: "call = (c, b)" by (cases call)
  obtain r o2 where run: "setsockopt resolve B c (Val b) o1 = Some (r, o2)" using setsockopt_returns [OF Cons.prems] by blast
  then have "options_ok o2" using setsockopt_result [OF Cons.prems, of c resolve B "Val b"] by (simp add: result_ok_def)
  from Cons.IH [OF this] run show ?case by (simp add: call)
qed simp

text \<open>C15: whatever options a program sets, to whatever bytes, every call returns and each member
  keeps a value of its range.\<close>

theorem options_keep_their_types: "\<exists>o1. set_all resolve B calls options_t = Some o1 \<and> options_ok o1"
  by (rule set_all_ok [OF options_t_ok])

text \<open>C30: a refused call leaves all options as they were, but for the bytes of the CURVE key it names.\<close>

theorem refused_option_changes_nothing:
  assumes "options_ok o1" "setsockopt resolve B c v o1 = Some (Some e, o2)"
  shows "o2 = o1 \<or> (\<exists>f b. key_of c = Some f \<and> length b = CURVE_KEYSIZE \<and> o2 = put_bytes f b o1)"
  using setsockopt_result [OF assms(1), of c resolve B v] assms(2) by (simp add: result_ok_def unchanged_def)

subsection \<open>Reading back\<close>

lemma byte_256 [simp]: "(256 :: byte) * x = 0"
proof -
  have "(256 :: byte) = 0" by simp
  then show ?thesis by (simp only: mult_zero_left)
qed

lemma le_bytes_nat: "le_bytes (length b) (le_nat b) = b"
  by (induction b) simp_all

lemma le_nat_less: "le_nat b < 256 ^ length b"
proof (induction b)
  case (Cons x b)
  then show ?case using unat_byte_less [of x] by (simp del: unat_byte_less)
qed simp

lemma bytes_of_int_of_bytes: "length b = 4 \<Longrightarrow> bytes_of_int (int_of_bytes b) = b"
proof -
  assume b: "length b = 4"
  have "le_nat b < 256 ^ length b" by (rule le_nat_less)
  then have "unat (of_nat (le_nat b) :: u32) = le_nat b" using b by (simp add: unat_of_nat)
  then show ?thesis using le_bytes_nat [of b] b by (simp add: bytes_of_int_def int_of_bytes_def)
qed

lemma bytes_of_int_unfold:
  "bytes_of_int v = (let n = unat (of_int v :: u32) in [of_nat n, of_nat (n div 256), of_nat (n div 65536), of_nat (n div 16777216)])"
proof -
  have four: "(4 :: nat) = Suc (Suc (Suc (Suc 0)))" by simp
  show ?thesis unfolding bytes_of_int_def four le_bytes.simps Let_def div_mult2_eq [symmetric] by simp
qed

lemma bytes_of_int_eq: "int_of_bytes b = i \<Longrightarrow> length b = 4 \<Longrightarrow> bytes_of_int i = b"
  using bytes_of_int_of_bytes by blast

text \<open>
  What an option reads back as after it was set to \<open>b\<close>: the same bytes, a string with its null byte,
  the truth value as an integer, or the time to live in the tenths of a second kept.
\<close>

definition as_set :: "bytes \<Rightarrow> bytes" where
  "as_set b = b"

definition as_string :: "bytes \<Rightarrow> bytes" where
  "as_string b = b @ [0]"

definition as_truth :: "bytes \<Rightarrow> bytes" where
  "as_truth b = bytes_of_int (as_int (int_of_bytes b \<noteq> 0))"

definition as_deciseconds :: "bytes \<Rightarrow> bytes" where
  "as_deciseconds b = bytes_of_int (c_div (int_of_bytes b) 100 * 100)"

definition reads_back :: "'m set_body \<Rightarrow> 'm get_body \<Rightarrow> (bytes \<Rightarrow> bytes) \<Rightarrow> bool" where
  "reads_back sb gb ex \<longleftrightarrow> (\<forall>iv b o1 o2. read_value (Val b) = Some iv \<longrightarrow> sb iv (Val b) o1 = Some (None, o2)
     \<longrightarrow> gb (length (ex b)) o2 = Some (None, Some (ex b), length (ex b)))"

lemma reads_backI:
  assumes "\<And>iv b o1 o2. iv = (if length b = 4 then Some (int_of_bytes b) else None) \<Longrightarrow> sb iv (Val b) o1 = Some (None, o2)
    \<Longrightarrow> gb (length (ex b)) o2 = Some (None, Some (ex b), length (ex b))"
  shows "reads_back sb gb ex"
  unfolding reads_back_def
proof (intro allI impI)
  fix iv b o1 o2 assume h: "read_value (Val b) = Some iv" "sb iv (Val b) o1 = Some (None, o2)"
  from h(1) have "iv = (if length b = 4 then Some (int_of_bytes b) else None)" by (simp add: read_value_def split: if_splits)
  from assms [OF this h(2)] show "gb (length (ex b)) o2 = Some (None, Some (ex b), length (ex b))" .
qed

named_theorems readback "pairs of bodies that read back what was set"

lemma put_reads [simp]:
  "ints (put_int f i o1) = (ints o1)(f := i)" "ints (put_bool h x o1) = ints o1" "ints (put_bytes g b o1) = ints o1"
  "bools (put_bool h x o1) = (bools o1)(h := x)" "bools (put_int f i o1) = bools o1"
  "byteses (put_bytes g b o1) = (byteses o1)(g := b)" "byteses (put_int f i o1) = byteses o1"
  "longs (put_long l y o1) = (longs o1)(l := y)"
  by (simp_all add: put_int_def put_bool_def put_bytes_def put_long_def)

lemma store_None: "store f o1 r = (None, o2) \<longleftrightarrow> (\<exists>x. r = Inr x \<and> o2 = f x o1)"
  by (cases r) (auto simp: store_def)

lemma set_int_then_None: "set_int_then g f iv v o1 = Some (None, o2) \<longleftrightarrow> (\<exists>i. iv = Some i \<and> g i \<and> o2 = f i o1)"
  by (auto simp: set_int_then_def invalid_def split: option.splits)

lemma reads_int [readback]: "reads_back (set_int f g) (get_int (\<lambda>o1. ints o1 f)) as_set"
  by (rule reads_backI) (auto simp: set_int_def set_int_then_None get_int_def as_set_def bytes_of_int_of_bytes split: if_splits)

lemma le_nat_long: "length b = 8 \<Longrightarrow> le_bytes 8 (unat (of_nat (le_nat b) :: u64)) = b"
proof -
  assume b: "length b = 8"
  have "le_nat b < 256 ^ length b" by (rule le_nat_less)
  then have "unat (of_nat (le_nat b) :: u64) = le_nat b" using b by (simp add: unat_of_nat)
  then show ?thesis using le_bytes_nat [of b] b by simp
qed

lemma reads_long [readback]: "reads_back (set_long f) (get_long f) as_set"
  by (rule reads_backI)
    (auto simp: set_long_def do_setsockopt_def store_None get_long_def as_set_def le_nat_long split: if_splits)

lemma strict_None:
  "do_setsockopt_int_as_bool_strict (Val b) = Some (Inr x) \<longleftrightarrow>
   length b = 4 \<and> (int_of_bytes b = 0 \<and> \<not> x \<or> int_of_bytes b = 1 \<and> x)"
  by (auto simp: do_setsockopt_int_as_bool_strict_def do_setsockopt_def Let_def split: if_splits)

lemma reads_bool_strict [readback]: "reads_back (set_bool_strict f) (get_bool f) as_set"
proof (rule reads_backI)
  fix iv b and o1 o2 :: "'a options" assume "set_bool_strict f iv (Val b) o1 = Some (None, o2)"
  then obtain x where x: "do_setsockopt_int_as_bool_strict (Val b) = Some (Inr x)" "o2 = put_bool f x o1"
    by (auto simp: set_bool_strict_def store_None)
  then have "as_int x = int_of_bytes b" "length b = 4" by (auto simp: strict_None as_int_def)
  then show "get_bool f (length (as_set b)) o2 = Some (None, Some (as_set b), length (as_set b))"
    by (simp add: get_bool_def get_int_def as_set_def x(2) bytes_of_int_of_bytes)
qed

lemma reads_ipv4only [readback]: "reads_back set_ipv4only (get_int (\<lambda>o1. 1 - as_int (bools o1 o_ipv6))) as_set"
proof (rule reads_backI)
  fix iv b and o1 o2 :: "'a options" assume "set_ipv4only iv (Val b) o1 = Some (None, o2)"
  then obtain x where x: "do_setsockopt_int_as_bool_strict (Val b) = Some (Inr x)" "o2 = put_bool o_ipv6 (\<not> x) o1"
    by (auto simp: set_ipv4only_def store_None)
  then have "1 - as_int (\<not> x) = int_of_bytes b" "length b = 4" by (auto simp: strict_None as_int_def)
  then show "get_int (\<lambda>o1. 1 - as_int (bools o1 o_ipv6)) (length (as_set b)) o2 = Some (None, Some (as_set b), length (as_set b))"
    by (simp add: get_int_def as_set_def x(2) bytes_of_int_of_bytes)
qed

lemma reads_bool_relaxed [readback]: "reads_back (set_bool_relaxed f) (get_bool f) as_truth"
  by (rule reads_backI)
    (auto simp: set_bool_relaxed_def do_setsockopt_int_as_bool_relaxed_def do_setsockopt_def store_None get_bool_def get_int_def
      as_truth_def split: if_splits)

lemma reads_string [readback]:
  "reads_back (set_string_strict f mx) (get_string f) as_string"
  "reads_back (set_string_relaxed f k) (get_string f) as_string"
  "reads_back (set_socks_credential f) (get_string f) as_string"
  "reads_back (set_plain_credential f) (get_string f) as_string"
  "reads_back (set_gss_principal f id) (get_string f) as_string"
  "reads_back (set_gss_principal f (put_int h i)) (get_string f) as_string"
  by (rule reads_backI, auto simp: set_string_strict_def set_string_relaxed_def set_socks_credential_def set_plain_credential_def
      set_gss_principal_def do_setsockopt_string_allow_empty_strict_def do_setsockopt_string_allow_empty_relaxed_def
      store_None invalid_def get_string_def do_getsockopt_string_def do_getsockopt_def got_def as_string_def split: if_splits)+

lemma reads_routing_id [readback]: "reads_back set_routing_id_option get_routing_id as_set"
  by (rule reads_backI)
    (auto simp: set_routing_id_option_def invalid_def get_routing_id_def do_getsockopt_def got_def as_set_def split: if_splits)

lemma reads_server [readback]: "m \<noteq> 0 \<Longrightarrow> reads_back (set_server m) (get_int (is_server m)) as_set"
  by (rule reads_backI)
    (auto simp: set_server_def set_int_then_None get_int_def is_server_def as_int_def as_set_def intro: bytes_of_int_eq split: if_splits)

lemma reads_gss_server [readback]:
  "reads_back (set_int_then (\<lambda>value. value = 0 \<or> value = 1)
     (\<lambda>value o1. put_int o_mechanism ZMQ_GSSAPI (put_int o_as_server value o1))) (get_int (is_server ZMQ_GSSAPI)) as_set"
  by (rule reads_backI)
    (auto simp: set_int_then_None get_int_def is_server_def as_int_def as_set_def intro: bytes_of_int_eq split: if_splits)

lemma reads_ttl [readback]: "reads_back set_heartbeat_ttl (get_int (\<lambda>o1. ints o1 o_heartbeat_ttl * 100)) as_deciseconds"
  by (rule reads_backI)
    (auto simp: set_heartbeat_ttl_def invalid_def get_int_def as_deciseconds_def deciseconds_per_millisecond_def
      split: option.splits if_splits)

subsection \<open>The options that can be both set and read\<close>

definition readable_basic :: "(int \<times> (bytes \<Rightarrow> bytes)) list" where
  "readable_basic = map (\<lambda>c. (c, as_set))
     [ZMQ_SNDHWM, ZMQ_RCVHWM, ZMQ_AFFINITY, ZMQ_ROUTING_ID, ZMQ_RATE, ZMQ_RECOVERY_IVL, ZMQ_SNDBUF, ZMQ_RCVBUF, ZMQ_TOS,
      ZMQ_LINGER, ZMQ_CONNECT_TIMEOUT, ZMQ_TCP_MAXRT, ZMQ_RECONNECT_STOP, ZMQ_RECONNECT_IVL, ZMQ_RECONNECT_IVL_MAX,
      ZMQ_BACKLOG, ZMQ_MAXMSGSIZE, ZMQ_MULTICAST_HOPS, ZMQ_MULTICAST_MAXTPDU, ZMQ_RCVTIMEO, ZMQ_SNDTIMEO, ZMQ_IPV4ONLY,
      ZMQ_IPV6]"

definition readable_transport :: "(int \<times> (bytes \<Rightarrow> bytes)) list" where
  "readable_transport =
     [(ZMQ_SOCKS_PROXY, as_string), (ZMQ_SOCKS_USERNAME, as_string), (ZMQ_SOCKS_PASSWORD, as_string),
      (ZMQ_TCP_KEEPALIVE, as_set), (ZMQ_TCP_KEEPALIVE_CNT, as_set), (ZMQ_TCP_KEEPALIVE_IDLE, as_set),
      (ZMQ_TCP_KEEPALIVE_INTVL, as_set), (ZMQ_IMMEDIATE, as_set)]"

definition readable_security :: "(int \<times> (bytes \<Rightarrow> bytes)) list" where
  "readable_security =
     [(ZMQ_PLAIN_SERVER, as_set), (ZMQ_PLAIN_USERNAME, as_string), (ZMQ_PLAIN_PASSWORD, as_string), (ZMQ_ZAP_DOMAIN, as_string),
      (ZMQ_CURVE_SERVER, as_set), (ZMQ_CONFLATE, as_set), (ZMQ_GSSAPI_SERVER, as_set), (ZMQ_GSSAPI_PRINCIPAL, as_string),
      (ZMQ_GSSAPI_SERVICE_PRINCIPAL, as_string), (ZMQ_GSSAPI_PLAINTEXT, as_set), (ZMQ_GSSAPI_PRINCIPAL_NAMETYPE, as_set),
      (ZMQ_GSSAPI_SERVICE_PRINCIPAL_NAMETYPE, as_set)]"

definition readable_session :: "(int \<times> (bytes \<Rightarrow> bytes)) list" where
  "readable_session =
     [(ZMQ_HANDSHAKE_IVL, as_set), (ZMQ_INVERT_MATCHING, as_truth), (ZMQ_HEARTBEAT_IVL, as_set),
      (ZMQ_HEARTBEAT_TTL, as_deciseconds), (ZMQ_HEARTBEAT_TIMEOUT, as_set), (ZMQ_USE_FD, as_set),
      (ZMQ_BINDTODEVICE, as_string), (ZMQ_ZAP_ENFORCE_DOMAIN, as_truth), (ZMQ_LOOPBACK_FASTPATH, as_truth),
      (ZMQ_MULTICAST_LOOP, as_truth)]"

definition readable_draft :: "(int \<times> (bytes \<Rightarrow> bytes)) list" where
  "readable_draft =
     map (\<lambda>c. (c, as_set)) [ZMQ_IN_BATCH_SIZE, ZMQ_OUT_BATCH_SIZE, ZMQ_PRIORITY, ZMQ_NORM_MODE, ZMQ_NORM_UNICAST_NACK,
       ZMQ_NORM_BUFFER_SIZE, ZMQ_NORM_SEGMENT_SIZE, ZMQ_NORM_BLOCK_SIZE, ZMQ_NORM_NUM_PARITY, ZMQ_NORM_NUM_AUTOPARITY,
       ZMQ_NORM_PUSH]"

definition readable :: "(int \<times> (bytes \<Rightarrow> bytes)) list" where
  "readable = readable_basic @ readable_transport @ readable_security @ readable_session @ readable_draft"

definition pair_ok :: "(bytes \<Rightarrow> bool \<Rightarrow> errno + 'm) \<Rightarrow> build \<Rightarrow> int \<times> (bytes \<Rightarrow> bytes) \<Rightarrow> bool" where
  "pair_ok resolve B e \<longleftrightarrow> (\<forall>sb. (fst e, sb) \<in> set (set_rows resolve B) \<longrightarrow>
     (\<exists>gb. (fst e, gb) \<in> set (get_rows B) \<and> reads_back sb gb (snd e)))"

lemmas row_defs = set_rows_def rows_basic_def rows_transport_def rows_security_def rows_session_def rows_draft_def
  get_rows_def get_rows_basic_def get_rows_transport_def get_rows_security_def get_rows_session_def get_rows_draft_def

lemma readable_basic_ok: "list_all (pair_ok resolve B) readable_basic"
  by (simp add: readable_basic_def pair_ok_def row_defs if_split_mem2 readback)

lemma readable_transport_ok: "list_all (pair_ok resolve B) readable_transport"
  by (simp add: readable_transport_def pair_ok_def row_defs if_split_mem2 readback)

lemma readable_security_ok: "list_all (pair_ok resolve B) readable_security"
  by (simp add: readable_security_def pair_ok_def row_defs if_split_mem2 readback)

lemma readable_session_ok: "list_all (pair_ok resolve B) readable_session"
  by (simp add: readable_session_def pair_ok_def row_defs if_split_mem2 readback)

lemma readable_draft_ok: "list_all (pair_ok resolve B) readable_draft"
  by (simp add: readable_draft_def pair_ok_def row_defs if_split_mem2 readback)

lemma readable_ok: "list_all (pair_ok resolve B) readable"
  by (simp add: readable_def readable_basic_ok readable_transport_ok readable_security_ok readable_session_ok readable_draft_ok)

text \<open>No number has two cases: with all conditions on the numbers are distinct, with fewer there are fewer.\<close>

definition all_on :: build where
  "all_on = \<lparr>b_peercred = True, b_local_peercred = True, b_curve = True, b_gssapi = True, b_vmci = True, b_draft = True,
     b_wss = True, b_norm = True\<rparr>"

lemma get_numbers_distinct: "distinct (map fst (get_rows all_on))"
  by (simp add: row_defs all_on_def)

lemma subseq_map_if: "subseq (map fst (if b then xs else [])) (map fst xs)"
  by simp

lemma get_numbers_subseq:
  "subseq (map fst (get_rows B :: (int \<times> 'm get_body) list)) (map fst (get_rows all_on :: (int \<times> 'm get_body) list))"
proof -
  have security: "subseq (map fst (get_rows_security B :: (int \<times> 'm get_body) list)) (map fst (get_rows_security all_on :: (int \<times> 'm get_body) list))"
    unfolding get_rows_security_def all_on_def build.simps if_True map_append
    by (rule list_emb_append_mono | rule subseq_map_if | simp)+
  have "subseq (map fst (get_rows_draft B :: (int \<times> 'm get_body) list)) (map fst (get_rows_draft all_on :: (int \<times> 'm get_body) list))"
    unfolding get_rows_draft_def all_on_def build.simps if_True map_append
    by (rule list_emb_append_mono | rule subseq_map_if | simp)+
  then have draft: "subseq (map fst (if b_draft B then get_rows_draft B else [] :: (int \<times> 'm get_body) list))
      (map fst (if b_draft all_on then get_rows_draft all_on else [] :: (int \<times> 'm get_body) list))"
    by (cases "b_draft B") (simp_all add: all_on_def)
  show ?thesis
    unfolding get_rows_def map_append
    by (rule list_emb_append_mono subseq_order.order_refl security draft)+
qed

lemma subseq_distinct: "subseq xs ys \<Longrightarrow> distinct ys \<Longrightarrow> distinct xs"
  by (metis subseq_conv_nths distinct_nthsI)

lemma get_row: "(c, gb) \<in> set (get_rows B) \<Longrightarrow> map_of (get_rows B) c = Some gb"
  using subseq_distinct [OF get_numbers_subseq get_numbers_distinct] by (rule map_of_is_SomeI)


text \<open>The kinds of options of the witness: without drafts, with CURVE.\<close>

definition linux_build :: build where
  "linux_build = \<lparr>b_peercred = True, b_local_peercred = False, b_curve = True, b_gssapi = False, b_vmci = False, b_draft = False,
     b_wss = False, b_norm = False\<rparr>"

definition no_masks :: "bytes \<Rightarrow> bool \<Rightarrow> errno + bytes" where
  "no_masks b ipv6 = Inr b"


subsection \<open>Keys\<close>

definition key_options :: "(int \<times> bytes_opt) list" where
  "key_options = [(ZMQ_CURVE_PUBLICKEY, o_curve_public_key), (ZMQ_CURVE_SECRETKEY, o_curve_secret_key),
     (ZMQ_CURVE_SERVERKEY, o_curve_server_key)]"

lemma list_membership:
  assumes "x \<in> set [a, b, c]"
  obtains "x = a" | "x = b" | "x = c"
  using assms by auto

lemma key_row:
  fixes resolve :: "bytes \<Rightarrow> bool \<Rightarrow> errno + 'm"
  assumes "b_curve B" "(c, f) \<in> set key_options"
  obtains k where "map_of (set_rows resolve B) c = Some (set_curve_key_option f k)"
    "map_of (get_rows B :: (int \<times> 'm get_body) list) c = Some (do_getsockopt_curve_key f)" "\<And>o1. byteses (k o1) = byteses o1" "is_curve_key f"
proof -
  have "c = ZMQ_CURVE_PUBLICKEY \<or> c = ZMQ_CURVE_SECRETKEY \<or> c = ZMQ_CURVE_SERVERKEY"
    using assms(2) by (auto simp: key_options_def)
  then have none: "map_of (rows_basic :: (int \<times> 'm set_body) list) c = None" "map_of (rows_transport resolve B) c = None"
    by (auto simp: map_of_eq_None_iff rows_basic_def rows_transport_def)
  define k :: "'m options \<Rightarrow> 'm options" where "k = (if c = ZMQ_CURVE_SERVERKEY then put_int o_as_server 0 else id)"
  have "distinct (map fst (rows_security B :: (int \<times> 'm set_body) list))"
    by (cases "b_curve B"; cases "b_gssapi B") (simp_all add: rows_security_def)
  moreover have "(c, set_curve_key_option f k) \<in> set (rows_security B :: (int \<times> 'm set_body) list)"
    using assms(2) unfolding k_def key_options_def rows_security_def by (elim list_membership) (simp_all add: assms(1))
  ultimately have k: "map_of (rows_security B :: (int \<times> 'm set_body) list) c = Some (set_curve_key_option f k)"
    by (rule map_of_is_SomeI)
  have kb: "byteses (k o1) = byteses o1" for o1 by (simp add: k_def)
  have set_row: "map_of (set_rows resolve B) c = Some (set_curve_key_option f k)"
    using none k by (simp add: set_rows_def map_add_def)
  have get: "map_of (get_rows B :: (int \<times> 'm get_body) list) c = Some (do_getsockopt_curve_key f)"
  proof (rule get_row)
    have "(c, do_getsockopt_curve_key f) \<in> set (get_rows_security B :: (int \<times> 'm get_body) list)"
      using assms(2) unfolding key_options_def get_rows_security_def by (elim list_membership) (simp_all add: assms(1))
    then show "(c, do_getsockopt_curve_key f) \<in> set (get_rows B :: (int \<times> 'm get_body) list)"
      by (simp add: get_rows_def)
  qed
  have "is_curve_key f" using assms by (auto simp: key_options_def is_curve_key_def)
  then show thesis by (rule that [OF set_row get kb])
qed

text \<open>C29: a key set as 32 bytes is read as its 40 characters, and those characters, set on any
  socket, give the 32 bytes back.\<close>

theorem curve_key_roundtrip:
  fixes resolve :: "bytes \<Rightarrow> bool \<Rightarrow> errno + 'm"
  assumes "b_curve B" "(c, f) \<in> set key_options" "length key = CURVE_KEYSIZE" "options_ok o1" "options_ok o3"
  shows "\<exists>o2 zs o4. setsockopt resolve B c (Val key) o1 = Some (None, o2)
     \<and> getsockopt B c (CURVE_KEYSIZE_Z85 + 1) o2 = Some (None, Some (zs @ [0]), CURVE_KEYSIZE_Z85 + 1) \<and> length zs = CURVE_KEYSIZE_Z85
     \<and> setsockopt resolve B c (Val zs) o3 = Some (None, o4)
     \<and> getsockopt B c CURVE_KEYSIZE o4 = Some (None, Some key, CURVE_KEYSIZE)"
proof -
  obtain k where k: "map_of (set_rows resolve B) c = Some (set_curve_key_option f k)"
    "map_of (get_rows B :: (int \<times> 'm get_body) list) c = Some (do_getsockopt_curve_key f)" "\<And>o1. byteses (k o1) = byteses o1" "is_curve_key f"
    using key_row [OF assms(1,2)] by metis
  define zs where "zs = z85_encode_loop key 0 0"
  have g: "groups4 key" using assms(3) by (simp add: groups4_iff)
  have len: "length zs = CURVE_KEYSIZE_Z85" using length_z85_text [OF g] assms(3) by (simp add: zs_def)
  have key3: "length (byteses o3 f) = CURVE_KEYSIZE" by (rule key_length [OF assms(5) k(4)])
  have ne: "key \<noteq> []" using assms(3) by auto
  have dec: "zmq_z85_decode (byteses o3 f) (zs @ [0]) = Some (True, key)"
    using zmq_z85_decode_text [OF g ne, of "byteses o3 f" "zs @ [0]"] c_bytes_text [of key 0 0] assms(3) key3 by (auto simp: zs_def)
  have set1: "setsockopt resolve B c (Val key) o1 = Some (None, k (put_int o_mechanism ZMQ_CURVE (put_bytes f key o1)))"
    using assms(3) by (simp add: setsockopt_def read_value_def k(1) set_curve_key_option_def set_curve_key_def)
  have set2: "setsockopt resolve B c (Val zs) o3 = Some (None, k (put_int o_mechanism ZMQ_CURVE (put_bytes f key o3)))"
    using len dec by (simp add: setsockopt_def read_value_def k(1) set_curve_key_option_def set_curve_key_def)
  show ?thesis
  proof (intro exI conjI)
    show "getsockopt B c (CURVE_KEYSIZE_Z85 + 1) (k (put_int o_mechanism ZMQ_CURVE (put_bytes f key o1)))
        = Some (None, Some (zs @ [0]), CURVE_KEYSIZE_Z85 + 1)"
      using zmq_z85_encode_groups [OF g] by (simp add: getsockopt_def k(2,3) do_getsockopt_curve_key_def zs_def)
    show "getsockopt B c CURVE_KEYSIZE (k (put_int o_mechanism ZMQ_CURVE (put_bytes f key o3))) = Some (None, Some key, CURVE_KEYSIZE)"
      by (simp add: getsockopt_def k(2,3) do_getsockopt_curve_key_def)
  qed (fact set1 len set2)+
qed

theorem curve_key_roundtrip_witness:
  "\<exists>o2 zs o4. setsockopt no_masks linux_build ZMQ_CURVE_SECRETKEY (Val (replicate 32 7)) options_t = Some (None, o2)
     \<and> getsockopt linux_build ZMQ_CURVE_SECRETKEY 41 o2 = Some (None, Some (zs @ [0]), 41)
     \<and> setsockopt no_masks linux_build ZMQ_CURVE_SECRETKEY (Val zs) options_t = Some (None, o4)
     \<and> getsockopt linux_build ZMQ_CURVE_SECRETKEY 32 o4 = Some (None, Some (replicate 32 7), 32)"
  using curve_key_roundtrip [of linux_build ZMQ_CURVE_SECRETKEY o_curve_secret_key "replicate 32 7" options_t options_t no_masks]
  by (auto simp: linux_build_def key_options_def options_t_ok)

text \<open>A key of 40 bytes with a null byte after the first five or more characters sets the front of the key only.\<close>

theorem key_text_cut_short:
  fixes resolve :: "bytes \<Rightarrow> bool \<Rightarrow> errno + 'm"
  assumes "b_curve B" "(c, f) \<in> set key_options" "options_ok o1" "length zs = CURVE_KEYSIZE_Z85"
    and "data \<noteq> []" "zmq_z85_encode data = Some (Inr (c_bytes zs @ [0]))"
  shows "\<exists>o2. setsockopt resolve B c (Val zs) o1 = Some (None, o2)
     \<and> byteses o2 f = data @ drop (length data) (byteses o1 f)"
proof -
  obtain k where k: "map_of (set_rows resolve B) c = Some (set_curve_key_option f k)"
    "map_of (get_rows B :: (int \<times> 'm get_body) list) c = Some (do_getsockopt_curve_key f)" "\<And>o1. byteses (k o1) = byteses o1" "is_curve_key f"
    using key_row [OF assms(1,2)] by metis
  have c: "c_bytes (zs @ [0]) = c_bytes zs"
    by (cases "0 \<in> set zs") (auto simp: c_bytes_def takeWhile_append intro: takeWhile_eq_all_conv [THEN iffD2, symmetric])
  have g: "groups4 data" "c_bytes zs = z85_encode_loop data 0 0" using assms(6) by (auto simp: zmq_z85_encode_Inr)
  have "length (c_bytes zs) \<le> CURVE_KEYSIZE_Z85" using length_takeWhile_le [of _ zs] assms(4) by (simp add: c_bytes_def)
  then have "length data \<le> length (byteses o1 f)"
    using length_z85_encode_loop [OF g(1), of 0] g(2) key_length [OF assms(3) k(4)] by simp
  from zmq_z85_decode_text [OF g(1) assms(5) this, of "zs @ [0]"]
  have "zmq_z85_decode (byteses o1 f) (zs @ [0]) = Some (True, data @ drop (length data) (byteses o1 f))" using c g(2) by simp
  then show ?thesis
    using assms(4) k(3) by (auto simp: setsockopt_def read_value_def k(1) set_curve_key_option_def set_curve_key_def)
qed

lemma hello_encoded: "zmq_z85_encode [0x86, 0x4F, 0xD2, 0x6F] = Some (Inr (bytes_of_string ''Hello'' @ [0]))"
proof -
  have a: "unat (be_word 0x86 0x4F 0xD2 0x6F) = 2253378159" by (simp add: unat_be_word)
  show ?thesis using zmq_z85_encode_groups [of "[0x86, 0x4F, 0xD2, 0x6F]"]
    by (simp add: z85_encode_group z85_digits_85_unfold a z85_encoder_numbers bytes_of_string_def del: z85_encode_loop.simps(2))
qed

theorem key_text_cut_short_witness:
  "\<exists>o2. setsockopt no_masks linux_build ZMQ_CURVE_SECRETKEY (Val (bytes_of_string ''Hello'' @ replicate 35 0)) options_t = Some (None, o2)
     \<and> byteses o2 o_curve_secret_key = [0x86, 0x4F, 0xD2, 0x6F] @ replicate 28 0"
proof -
  let ?zs = "bytes_of_string ''Hello'' @ replicate 35 0"
  have cut: "c_bytes ?zs = bytes_of_string ''Hello''"
    by (simp add: c_bytes_def bytes_of_string_def takeWhile_append)
  have len: "length ?zs = CURVE_KEYSIZE_Z85" by (simp add: bytes_of_string_def)
  have enc: "zmq_z85_encode [0x86, 0x4F, 0xD2, 0x6F] = Some (Inr (c_bytes ?zs @ [0]))"
    unfolding cut by (rule hello_encoded)
  have mem: "(ZMQ_CURVE_SECRETKEY, o_curve_secret_key) \<in> set key_options" "b_curve linux_build"
    by (simp_all add: key_options_def linux_build_def)
  have zero: "byteses (options_t :: bytes options) o_curve_secret_key = replicate 32 0" by (simp add: options_t_def init_bytes_def is_curve_key_def)
  have four: "length [0x86 :: byte, 0x4F, 0xD2, 0x6F] = 4" by simp
  have tail: "drop 4 (replicate 32 (0 :: byte)) = replicate 28 0" by (simp add: drop_replicate)
  show ?thesis
    using key_text_cut_short [OF mem(2,1) options_t_ok len _ enc, of no_masks] unfolding zero four tail by simp
qed

subsection \<open>Edges\<close>

text \<open>
  A refused key of 40 characters whose second group has a character that is not of the alphabet:
  the first group has been written when the fault is found, and the caller gets \<^verbatim>\<open>EINVAL\<close>.
\<close>

theorem refused_key_is_overwritten:
  "setsockopt no_masks linux_build ZMQ_CURVE_SECRETKEY (Val (bytes_of_string ''Hello'' @ replicate 35 127)) options_t
     = Some (Some EINVAL, put_bytes o_curve_secret_key ([0x86, 0x4F, 0xD2, 0x6F] @ replicate 28 0) options_t)"
proof -
  let ?zs = "bytes_of_string ''Hello'' @ replicate 35 127"
  have zero: "byteses (options_t :: bytes options) o_curve_secret_key = replicate 32 0" by (simp add: options_t_def init_bytes_def is_curve_key_def)
  have hello: "bytes_of_string ''Hello'' = z85_digits_85 (be_word 0x86 0x4F 0xD2 0x6F)"
    using hello_encoded z85_encode_group [of 0 "0x86" "0x4F" "0xD2" "0x6F" "[]"]
    by (simp add: zmq_z85_encode_Inr del: z85_encode_loop.simps(2))
  have str: "c_bytes (?zs @ [0]) = ?zs"
    by (simp add: c_bytes_def bytes_of_string_def takeWhile_append)
  have len: "length ?zs = 40" by (simp add: bytes_of_string_def)
  have split: "replicate 35 127 = (127 :: byte) # replicate 34 127" by (simp add: numeral_eq_Suc)
  have loop: "z85_decode_loop ?zs 0 0 0 (replicate 32 0) = Some (False, 4, [0x86, 0x4F, 0xD2, 0x6F] @ replicate 28 0)"
    unfolding hello z85_decode_group [OF mod_0] split
    by (simp add: be_word_digits write_at_def z85_decode_loop.simps(2) z85_decoder_def drop_replicate)
  have "zmq_z85_decode (replicate 32 0) (?zs @ [0]) = Some (False, [0x86, 0x4F, 0xD2, 0x6F] @ replicate 28 0)"
    unfolding zmq_z85_decode_def str Let_def loop len by simp
  moreover have "map_of (set_rows no_masks linux_build) ZMQ_CURVE_SECRETKEY = Some (set_curve_key_option o_curve_secret_key id)"
    by (simp add: row_defs linux_build_def)
  ultimately show ?thesis
    using len zero by (simp add: setsockopt_def read_value_def set_curve_key_option_def set_curve_key_def invalid_def)
qed

theorem refused_option_changes_nothing_witness:
  "\<exists>b. length b = 32 \<and> setsockopt no_masks linux_build ZMQ_CURVE_SECRETKEY (Val (bytes_of_string ''Hello'' @ replicate 35 127)) options_t
     = Some (Some EINVAL, put_bytes o_curve_secret_key b options_t)"
proof -
  obtain o2 where o2: "setsockopt no_masks linux_build ZMQ_CURVE_SECRETKEY (Val (bytes_of_string ''Hello'' @ replicate 35 127)) options_t
      = Some (Some EINVAL, o2 :: bytes options)" using refused_key_is_overwritten by blast
  have same: "put_bytes f (byteses options_t f) (options_t :: bytes options) = options_t" for f
    by (simp add: put_bytes_def options_t_def)
  have "length (byteses (options_t :: bytes options) o_curve_secret_key) = 32" by (simp add: options_t_def init_bytes_def is_curve_key_def)
  then have "\<exists>b. length b = 32 \<and> o2 = put_bytes o_curve_secret_key b options_t"
    if "o2 = options_t" using that same [of o_curve_secret_key, symmetric] by blast
  then have "\<exists>b. length b = 32 \<and> o2 = put_bytes o_curve_secret_key b options_t"
    using refused_option_changes_nothing [OF options_t_ok o2] by (auto simp: key_of_def)
  with o2 show ?thesis by auto
qed

text \<open>With the draft options the busy-polling time can be set and never read.\<close>

theorem busy_poll_never_read:
  fixes o1 :: "'m options"
  assumes "b_draft B"
  shows "\<exists>out. getsockopt B ZMQ_BUSY_POLL len o1 = Some (Some EINVAL, out, len)"
proof -
  have "map_of (get_rows B :: (int \<times> 'm get_body) list) ZMQ_BUSY_POLL = Some get_busy_poll" by (rule get_row) (simp add: row_defs assms)
  then show ?thesis by (simp add: getsockopt_def get_busy_poll_def)
qed

text \<open>A negative time to live of less than a tenth of a second is taken as none.\<close>

theorem negative_ttl_is_zero:
  assumes "-100 < int_of_bytes b" "int_of_bytes b < 0" "length b = 4"
  shows "setsockopt resolve B ZMQ_HEARTBEAT_TTL (Val b) o1 = Some (None, put_int o_heartbeat_ttl 0 o1)"
proof -
  have "(- int_of_bytes b) div 100 = 0" using assms(1,2) by simp
  then have "c_div (int_of_bytes b) 100 = 0" using assms(2) by (simp add: c_div_def)
  moreover have "map_of (set_rows resolve B) ZMQ_HEARTBEAT_TTL = Some set_heartbeat_ttl"
    by (cases "b_peercred B"; cases "b_local_peercred B"; cases "b_curve B"; cases "b_gssapi B") (simp_all add: row_defs map_add_def)
  ultimately show ?thesis
    using assms(3) by (simp add: setsockopt_def read_value_def set_heartbeat_ttl_def deciseconds_per_millisecond_def)
qed

end
