(* ===== verification/Xpub.thy ===== *)
theory Xpub
  imports Xsub Mtrie_Topics
begin

text \<open>
  The publishing sockets: \<^verbatim>\<open>xpub_t\<close> (xpub.hpp, xpub.cpp) and \<^verbatim>\<open>pub_t\<close> (pub.hpp, pub.cpp). Requests read from the pipes go into a
  multi-trie and, when they change which topics anybody wants, are queued for the application; a message is matched against the
  multi-trie and handed to the distributor. \<open>None\<close> is a failed assertion or an access outside a message.
\<close>

record 'w pub_ops =
  pb_sock :: "'w sock_ops"
  pb_add_metadata :: "nat \<Rightarrow> 'w \<Rightarrow> 'w option"
  pb_drop_metadata :: "nat \<Rightarrow> 'w \<Rightarrow> 'w option"
  pb_set_metadata :: "nat \<Rightarrow> msg \<Rightarrow> 'w \<Rightarrow> (msg \<times> 'w) option"
  pb_new_msg :: "bytes \<Rightarrow> 'w \<Rightarrow> (msg \<times> 'w) option"
  pb_copy :: "msg \<Rightarrow> 'w \<Rightarrow> (msg \<times> msg \<times> 'w) option"
  pb_set_nodelay :: "nat \<Rightarrow> 'w \<Rightarrow> 'w option"

definition SOCK_PUB :: int where "SOCK_PUB = 1"
definition SOCK_XPUB :: int where "SOCK_XPUB = 9"

record xpub =
  xp_subscriptions :: mtrie
  xp_manual_subscriptions :: mtrie
  xp_dist :: dist
  xp_verbose_subs :: bool
  xp_verbose_unsubs :: bool
  xp_more_send :: bool
  xp_more_recv :: bool
  xp_process_subscribe :: bool
  xp_only_first_subscribe :: bool
  xp_lossy :: bool
  xp_manual :: bool
  xp_send_last_pipe :: bool
  xp_last_pipe :: "nat option"
  xp_pending_pipes :: "nat option list"
  xp_welcome_msg :: msg
  xp_pending_data :: "bytes list"
  xp_pending_metadata :: "nat option list"
  xp_pending_flags :: "byte list"
  xp_type :: int
  xp_invert_matching :: bool

definition xpub_new :: xpub where
  "xpub_new = \<lparr>xp_subscriptions = mt_new, xp_manual_subscriptions = mt_new, xp_dist = dist_new, xp_verbose_subs = False,
     xp_verbose_unsubs = False, xp_more_send = False, xp_more_recv = False, xp_process_subscribe = False,
     xp_only_first_subscribe = False, xp_lossy = True, xp_manual = False, xp_send_last_pipe = False, xp_last_pipe = None,
     xp_pending_pipes = [], xp_welcome_msg = msg_init, xp_pending_data = [], xp_pending_metadata = [], xp_pending_flags = [],
     xp_type = SOCK_XPUB, xp_invert_matching = False\<rparr>"

definition pub_new :: xpub where
  "pub_new = xpub_new\<lparr>xp_type := SOCK_PUB\<rparr>"

text \<open>The destructor closes the welcome message and drops the references held by the queued notifications.\<close>

fun drop_pending :: "'w pub_ops \<Rightarrow> nat option list \<Rightarrow> 'w \<Rightarrow> 'w option" where
  "drop_pending ops [] w = Some w"
| "drop_pending ops (None # ms) w = drop_pending ops ms w"
| "drop_pending ops (Some a # ms) w = do { w1 \<leftarrow> pb_drop_metadata ops a w; drop_pending ops ms w1 }"

definition xpub_destroy :: "'w pub_ops \<Rightarrow> xpub \<Rightarrow> 'w \<Rightarrow> 'w option" where
  "xpub_destroy ops s w = do {
     w1 \<leftarrow> po_close (so_pipe (pb_sock ops)) (xp_welcome_msg s) w;
     drop_pending ops (xp_pending_metadata s) w1
   }"

text \<open>The topic of a subscribe or cancel message with the bytes \<open>b\<close>: after the name of the command, if it is one.\<close>

definition command_topic :: "msg \<Rightarrow> bytes \<Rightarrow> bytes option" where
  "command_topic m b =
     (let n = (if \<not> has_flag f_command m then 0 else if is_subscribe m then 10 else 7)
      in if n \<le> length b then Some (drop n b) else None)"

text \<open>What a message asks for: \<open>Some (subscribe, topic)\<close>, or nothing.\<close>

definition request_of :: "msg \<Rightarrow> bytes \<Rightarrow> (bool \<times> bytes) option option" where
  "request_of m b =
     (if is_subscribe m \<or> is_cancel m then do { t \<leftarrow> command_topic m b; Some (Some (is_subscribe m, t)) }
      else if b \<noteq> [] \<and> (hd b = 0 \<or> hd b = 1) then Some (Some (hd b = 1, tl b))
      else Some None)"

text \<open>Applying a request to the multi-tries, and whether the application has to be told.\<close>

definition xpub_apply :: "nat \<Rightarrow> bool \<Rightarrow> bytes \<Rightarrow> xpub \<Rightarrow> (bool \<times> xpub) option" where
  "xpub_apply p sub topic s =
     (if xp_manual s then do {
        t \<leftarrow> (if \<not> sub then map_option snd (mt_rm topic p (xp_manual_subscriptions s))
              else map_option snd (mt_add topic p (xp_manual_subscriptions s)));
        Some (False, s\<lparr>xp_manual_subscriptions := t, xp_pending_pipes := xp_pending_pipes s @ [Some p]\<rparr>)
      } else if \<not> sub then do {
        (r, t) \<leftarrow> mt_rm topic p (xp_subscriptions s);
        Some (r \<noteq> values_remain \<or> xp_verbose_unsubs s, s\<lparr>xp_subscriptions := t\<rparr>)
      } else do {
        (first_added, t) \<leftarrow> mt_add topic p (xp_subscriptions s);
        Some (first_added \<or> xp_verbose_subs s, s\<lparr>xp_subscriptions := t\<rparr>)
      })"

definition push_pending :: "bytes \<Rightarrow> nat option \<Rightarrow> byte \<Rightarrow> xpub \<Rightarrow> xpub" where
  "push_pending b md f s = s\<lparr>xp_pending_data := xp_pending_data s @ [b], xp_pending_metadata := xp_pending_metadata s @ [md],
     xp_pending_flags := xp_pending_flags s @ [f]\<rparr>"

definition keep_metadata :: "'w pub_ops \<Rightarrow> nat option \<Rightarrow> 'w \<Rightarrow> 'w option" where
  "keep_metadata ops md w = (case md of None \<Rightarrow> Some w | Some a \<Rightarrow> pb_add_metadata ops a w)"

text \<open>One round of the loop of \<^verbatim>\<open>xread_activated\<close>, on a message that was read.\<close>

definition xpub_process :: "'w pub_ops \<Rightarrow> nat \<Rightarrow> msg \<Rightarrow> xpub \<Rightarrow> 'w \<Rightarrow> (xpub \<times> 'w) option" where
  "xpub_process ops p m s w = do {
     b \<leftarrow> so_bytes (pb_sock ops) m w;
     let first_part = \<not> xp_more_recv s;
     let s1 = s\<lparr>xp_more_recv := has_more m\<rparr>;
     req \<leftarrow> (if first_part \<or> xp_process_subscribe s1 then request_of m b else Some None);
     let s2 = (if first_part then s1\<lparr>xp_process_subscribe := \<not> xp_only_first_subscribe s1 \<or> req \<noteq> None\<rparr> else s1);
     (s3, w1) \<leftarrow> (case req of
         Some (sub, topic) \<Rightarrow> do {
           (notify, s3) \<leftarrow> xpub_apply p sub topic s2;
           if xp_manual s3 \<or> (xp_type s3 = SOCK_XPUB \<and> notify) then do {
             w1 \<leftarrow> keep_metadata ops (m_metadata m) w;
             Some (push_pending ((if sub then 1 else 0) # topic) (m_metadata m) 0 s3, w1)
           } else Some (s3, w)
         }
       | None \<Rightarrow>
           if xp_type s2 \<noteq> SOCK_PUB then do {
             w1 \<leftarrow> keep_metadata ops (m_metadata m) w;
             Some (push_pending b (m_metadata m) (m_flags m) s2, w1)
           } else Some (s2, w));
     w2 \<leftarrow> po_close (so_pipe (pb_sock ops)) m w1;
     Some (s3, w2)
   }"

partial_function (option) xpub_read_activated :: "'w pub_ops \<Rightarrow> nat \<Rightarrow> xpub \<Rightarrow> 'w \<Rightarrow> (xpub \<times> 'w) option" where
  "xpub_read_activated ops p s w = do {
     (v, w1) \<leftarrow> po_read (so_pipe (pb_sock ops)) p w;
     (case v of
        None \<Rightarrow> Some (s, w1)
      | Some m \<Rightarrow> do { (s1, w2) \<leftarrow> xpub_process ops p m s w1; xpub_read_activated ops p s1 w2 })
   }"

definition xpub_attach_pipe :: "'w pub_ops \<Rightarrow> nat \<Rightarrow> bool \<Rightarrow> xpub \<Rightarrow> 'w \<Rightarrow> (xpub \<times> 'w) option" where
  "xpub_attach_pipe ops p subscribe_to_all s w = do {
     let s1 = s\<lparr>xp_dist := dist_attach p (xp_dist s)\<rparr>;
     s2 \<leftarrow> (if subscribe_to_all then map_option (\<lambda>(b, t). s1\<lparr>xp_subscriptions := t\<rparr>) (mt_add [] p (xp_subscriptions s1)) else Some s1);
     wb \<leftarrow> so_bytes (pb_sock ops) (xp_welcome_msg s2) w;
     (s3, w1) \<leftarrow> (if wb \<noteq> [] then do {
         (copy, src, w1) \<leftarrow> pb_copy ops (xp_welcome_msg s2) w;
         (ok, w2) \<leftarrow> po_write (so_pipe (pb_sock ops)) p copy w1;
         zmq_assert ok;
         w3 \<leftarrow> po_flush (so_pipe (pb_sock ops)) p w2;
         Some (s2\<lparr>xp_welcome_msg := src\<rparr>, w3)
       } else Some (s2, w));
     xpub_read_activated ops p s3 w1
   }"

definition pub_attach_pipe :: "'w pub_ops \<Rightarrow> nat \<Rightarrow> bool \<Rightarrow> xpub \<Rightarrow> 'w \<Rightarrow> (xpub \<times> 'w) option" where
  "pub_attach_pipe ops p subscribe_to_all s w = do {
     w1 \<leftarrow> pb_set_nodelay ops p w;
     xpub_attach_pipe ops p subscribe_to_all s w1
   }"

definition xpub_write_activated :: "nat \<Rightarrow> xpub \<Rightarrow> xpub" where
  "xpub_write_activated p s = s\<lparr>xp_dist := dist_activated p (xp_dist s)\<rparr>"

definition OPT_XPUB_VERBOSE :: int where "OPT_XPUB_VERBOSE = 40"
definition OPT_XPUB_NODROP :: int where "OPT_XPUB_NODROP = 69"
definition OPT_XPUB_MANUAL :: int where "OPT_XPUB_MANUAL = 71"
definition OPT_XPUB_WELCOME_MSG :: int where "OPT_XPUB_WELCOME_MSG = 72"
definition OPT_XPUB_VERBOSER :: int where "OPT_XPUB_VERBOSER = 78"
definition OPT_XPUB_MANUAL_LAST_VALUE :: int where "OPT_XPUB_MANUAL_LAST_VALUE = 98"

lemmas xpub_opt_defs = OPT_XPUB_VERBOSE_def OPT_XPUB_NODROP_def OPT_XPUB_MANUAL_def OPT_XPUB_WELCOME_MSG_def OPT_XPUB_VERBOSER_def
  OPT_XPUB_MANUAL_LAST_VALUE_def OPT_ONLY_FIRST_SUBSCRIBE_def OPT_SUBSCRIBE_def OPT_UNSUBSCRIBE_def OPT_TOPICS_COUNT_def

text \<open>The bytes an option value points to; a null pointer can be read as no bytes only.\<close>

fun val_bytes :: "optval \<Rightarrow> bytes option" where
  "val_bytes (Val b) = Some b"
| "val_bytes (NullVal n) = (if n = 0 then Some [] else None)"

definition xpub_flag_option :: "int \<Rightarrow> bool \<Rightarrow> xpub \<Rightarrow> xpub" where
  "xpub_flag_option opt v s =
     (if opt = OPT_XPUB_VERBOSE then s\<lparr>xp_verbose_subs := v, xp_verbose_unsubs := False\<rparr>
      else if opt = OPT_XPUB_VERBOSER then s\<lparr>xp_verbose_subs := v, xp_verbose_unsubs := v\<rparr>
      else if opt = OPT_XPUB_MANUAL_LAST_VALUE then s\<lparr>xp_manual := v, xp_send_last_pipe := v\<rparr>
      else if opt = OPT_XPUB_NODROP then s\<lparr>xp_lossy := \<not> v\<rparr>
      else if opt = OPT_XPUB_MANUAL then s\<lparr>xp_manual := v\<rparr>
      else if opt = OPT_ONLY_FIRST_SUBSCRIBE then s\<lparr>xp_only_first_subscribe := v\<rparr>
      else s)"

definition xpub_setsockopt :: "'w pub_ops \<Rightarrow> int \<Rightarrow> optval \<Rightarrow> xpub \<Rightarrow> 'w \<Rightarrow> (errno option \<times> xpub \<times> 'w) option" where
  "xpub_setsockopt ops opt v s w =
     (if opt \<in> {OPT_XPUB_VERBOSE, OPT_XPUB_VERBOSER, OPT_XPUB_MANUAL_LAST_VALUE, OPT_XPUB_NODROP, OPT_XPUB_MANUAL, OPT_ONLY_FIRST_SUBSCRIBE} then
        (if optvallen v \<noteq> 4 then Some (Some EINVAL, s, w)
         else (case v of
             NullVal _ \<Rightarrow> None
           | Val b \<Rightarrow> if int_of_bytes b < 0 then Some (Some EINVAL, s, w)
                      else Some (None, xpub_flag_option opt (int_of_bytes b \<noteq> 0) s, w)))
      else if opt = OPT_SUBSCRIBE \<and> xp_manual s then
        (case xp_last_pipe s of
           None \<Rightarrow> Some (None, s, w)
         | Some p \<Rightarrow> do { b \<leftarrow> val_bytes v; (r, t) \<leftarrow> mt_add b p (xp_subscriptions s); Some (None, s\<lparr>xp_subscriptions := t\<rparr>, w) })
      else if opt = OPT_UNSUBSCRIBE \<and> xp_manual s then
        (case xp_last_pipe s of
           None \<Rightarrow> Some (None, s, w)
         | Some p \<Rightarrow> do { b \<leftarrow> val_bytes v; (r, t) \<leftarrow> mt_rm b p (xp_subscriptions s); Some (None, s\<lparr>xp_subscriptions := t\<rparr>, w) })
      else if opt = OPT_XPUB_WELCOME_MSG then do {
        w1 \<leftarrow> po_close (so_pipe (pb_sock ops)) (xp_welcome_msg s) w;
        if optvallen v > 0 then do {
          b \<leftarrow> val_bytes v;
          (m, w2) \<leftarrow> pb_new_msg ops b w1;
          Some (None, s\<lparr>xp_welcome_msg := m\<rparr>, w2)
        } else Some (None, s\<lparr>xp_welcome_msg := msg_init\<rparr>, w1)
      } else Some (Some EINVAL, s, w))"

definition xpub_getsockopt :: "int \<Rightarrow> nat \<Rightarrow> xpub \<Rightarrow> errno + bytes \<times> nat" where
  "xpub_getsockopt opt len s =
     (if opt = OPT_TOPICS_COUNT then do_getsockopt_int len (sint (num_prefixes (xp_subscriptions s))) else Inl EINVAL)"

text \<open>The callback of a removal: the topics nobody wants any more are queued as cancellations.\<close>

definition send_unsubscription :: "bytes \<Rightarrow> xpub \<Rightarrow> xpub" where
  "send_unsubscription topic s =
     (if xp_type s \<noteq> SOCK_PUB then
        (let s1 = push_pending (0 # topic) None 0 s
         in if xp_manual s1 then s1\<lparr>xp_last_pipe := None, xp_pending_pipes := xp_pending_pipes s1 @ [None]\<rparr> else s1)
      else s)"

definition xpub_pipe_terminated :: "nat \<Rightarrow> xpub \<Rightarrow> xpub option" where
  "xpub_pipe_terminated p s = do {
     s2 \<leftarrow> (if xp_manual s then do {
         (topics, mt) \<leftarrow> mt_rm_value False p (xp_manual_subscriptions s);
         let s1 = fold send_unsubscription topics (s\<lparr>xp_manual_subscriptions := mt\<rparr>);
         (stubs, t) \<leftarrow> mt_rm_value False p (xp_subscriptions s1);
         let s2 = s1\<lparr>xp_subscriptions := t\<rparr>;
         Some (if xp_last_pipe s2 = Some p then s2\<lparr>xp_last_pipe := None\<rparr> else s2)
       } else do {
         (topics, t) \<leftarrow> mt_rm_value (\<not> xp_verbose_unsubs s) p (xp_subscriptions s);
         Some (fold send_unsubscription topics (s\<lparr>xp_subscriptions := t\<rparr>))
       });
     Some (s2\<lparr>xp_dist := dist_pipe_terminated p (xp_dist s2)\<rparr>)
   }"

definition mark_as_matching :: "nat \<Rightarrow> xpub \<Rightarrow> xpub" where
  "mark_as_matching p s = s\<lparr>xp_dist := dist_match p (xp_dist s)\<rparr>"

definition mark_last_pipe_as_matching :: "nat \<Rightarrow> xpub \<Rightarrow> xpub" where
  "mark_last_pipe_as_matching p s = (if xp_last_pipe s = Some p then s\<lparr>xp_dist := dist_match p (xp_dist s)\<rparr> else s)"

text \<open>Selecting the pipes at the first part of a message.\<close>

definition xpub_select :: "bytes \<Rightarrow> xpub \<Rightarrow> xpub option" where
  "xpub_select b s = do {
     let s1 = s\<lparr>xp_dist := dist_unmatch (xp_dist s)\<rparr>;
     ps \<leftarrow> mn_match b (mt_root (xp_subscriptions s1));
     let s2 = (if xp_manual s1 \<and> xp_last_pipe s1 \<noteq> None \<and> xp_send_last_pipe s1
               then (fold mark_last_pipe_as_matching ps s1)\<lparr>xp_last_pipe := None\<rparr>
               else fold mark_as_matching ps s1);
     Some (if xp_invert_matching s2 then s2\<lparr>xp_dist := dist_reverse_match (xp_dist s2)\<rparr> else s2)
   }"

definition xpub_send :: "'w pub_ops \<Rightarrow> msg \<Rightarrow> xpub \<Rightarrow> 'w \<Rightarrow> (errno option \<times> xpub \<times> 'w) option" where
  "xpub_send ops m s w = do {
     let msg_more = has_more m;
     s1 \<leftarrow> (if \<not> xp_more_send s then do { b \<leftarrow> so_bytes (pb_sock ops) m w; xpub_select b s } else Some s);
     ok \<leftarrow> (if xp_lossy s1 then Some True else dist_check_hwm (so_pipe (pb_sock ops)) (xp_dist s1) w);
     if ok then do {
       (d, w1) \<leftarrow> send_to_matching (so_pipe (pb_sock ops)) m (xp_dist s1) w;
       Some (None, s1\<lparr>xp_dist := (if \<not> msg_more then dist_unmatch d else d), xp_more_send := msg_more\<rparr>, w1)
     } else Some (Some EAGAIN, s1, w)
   }"

definition xpub_has_out :: "xpub \<Rightarrow> bool" where
  "xpub_has_out s = dist_has_out (xp_dist s)"

text \<open>Receiving: the message variable \<open>m\<close> is overwritten.\<close>

definition xpub_recv :: "'w pub_ops \<Rightarrow> msg \<Rightarrow> xpub \<Rightarrow> 'w \<Rightarrow> ((errno + msg) \<times> xpub \<times> 'w) option" where
  "xpub_recv ops m s w =
     (case xp_pending_data s of
        [] \<Rightarrow> Some (Inl EAGAIN, s, w)
      | b # bs \<Rightarrow> do {
          let s1 = (case xp_pending_pipes s of
               [] \<Rightarrow> s
             | q # qs \<Rightarrow>
                 if xp_manual s then
                   s\<lparr>xp_pending_pipes := qs,
                     xp_last_pipe := (case q of None \<Rightarrow> None | Some p \<Rightarrow> if dist_has_pipe p (xp_dist s) then Some p else None)\<rparr>
                 else s);
          w1 \<leftarrow> po_close (so_pipe (pb_sock ops)) m w;
          (m1, w2) \<leftarrow> pb_new_msg ops b w1;
          (md, mds) \<leftarrow> (case xp_pending_metadata s1 of [] \<Rightarrow> None | x # xs \<Rightarrow> Some (x, xs));
          (m2, w3) \<leftarrow> (case md of
               None \<Rightarrow> Some (m1, w2)
             | Some a \<Rightarrow> do { (m2, w3) \<leftarrow> pb_set_metadata ops a m1 w2; w4 \<leftarrow> pb_drop_metadata ops a w3; Some (m2, w4) });
          (f, fs) \<leftarrow> (case xp_pending_flags s1 of [] \<Rightarrow> None | x # xs \<Rightarrow> Some (x, xs));
          Some (Inr (set_flags f m2), s1\<lparr>xp_pending_data := bs, xp_pending_metadata := mds, xp_pending_flags := fs\<rparr>, w3)
        })"

definition xpub_has_in :: "xpub \<Rightarrow> bool" where
  "xpub_has_in s \<longleftrightarrow> xp_pending_data s \<noteq> []"

definition pub_recv :: "xpub \<Rightarrow> errno \<times> xpub" where
  "pub_recv s = (ENOTSUP, s)"

definition pub_has_in :: "xpub \<Rightarrow> bool" where
  "pub_has_in s = False"

end
