(* ===== verification/Xpub_Facts.thy ===== *)
theory Xpub_Facts
  imports Xpub
begin

text \<open>
  What the publishing sockets of theory \<open>Xpub\<close> guarantee: the notifications queued for the application are exactly enough to know which
  topics somebody wants, and a message reaches exactly the pipes that asked for it.
\<close>

subsection \<open>The topic of a command\<close>

lemma command_topic_body:
  assumes "command_topic m b = Some t" "msg_data m h = Some b" "msg_size m h = Some (length b)" "is_subscribe m \<or> is_cancel m"
  shows "command_body m h = Some (Some t) \<and> command_body_size m h = Some (of_nat (length t))"
proof -
  have "\<not> (is_ping m \<or> is_pong m)" using assms(4) by (auto simp: is_ping_def is_pong_def is_subscribe_def is_cancel_def flag_defs)
  moreover have "\<not> (is_subscribe m \<and> is_cancel m)" by (auto simp: is_subscribe_def is_cancel_def flag_defs)
  ultimately show ?thesis using assms
    by (auto simp: command_topic_def command_body_def command_body_size_def Let_def of_nat_diff split: if_splits)
qed

subsection \<open>What the application knows\<close>

text \<open>The application keeps the topics it was told to subscribe to and not told to cancel since.\<close>

fun replay :: "bytes \<Rightarrow> bytes set \<Rightarrow> bytes set" where
  "replay [] V = V"
| "replay (c # t) V = (if c = 1 then insert t V else if c = 0 then V - {t} else V)"

definition view :: "bytes list \<Rightarrow> bytes set" where
  "view U = fold replay U {}"

definition wanted :: "topics \<Rightarrow> bytes set" where
  "wanted T = {t. T t \<noteq> {}}"

lemma view_snoc: "view (U @ [b]) = replay b (view U)"
  by (simp add: view_def)

lemma view_snoc2: "view (u @ U @ [b]) = replay b (view (u @ U))"
  using view_snoc [of "u @ U" b] by simp

lemma view_cancels: "view (U @ map ((#) 0) ts) = view U - set ts"
  by (induction ts rule: rev_induct) (auto simp flip: append_assoc simp: view_snoc)

text \<open>What a message read from pipe \<open>p\<close> does to the topics, and when it is one a subscriber sends: a cancellation is for a topic of its own, or
  one nobody wants, and a message that is no request does not share its content.\<close>

definition msg_effect :: "nat \<Rightarrow> msg \<Rightarrow> bytes \<Rightarrow> topics \<Rightarrow> topics" where
  "msg_effect p m b T = (case request_of m b of
       Some (Some (True, t)) \<Rightarrow> T(t := insert p (T t))
     | Some (Some (False, t)) \<Rightarrow> T(t := T t - {p})
     | _ \<Rightarrow> T)"

definition fair_request :: "nat \<Rightarrow> msg \<Rightarrow> bytes \<Rightarrow> topics \<Rightarrow> bool" where
  "fair_request p m b T \<longleftrightarrow> (case request_of m b of
       None \<Rightarrow> False
     | Some (Some (False, t)) \<Rightarrow> p \<in> T t \<or> T t = {}
     | Some (Some (True, t)) \<Rightarrow> True
     | Some None \<Rightarrow> \<not> has_flag f_shared m)"

fun effects :: "nat \<Rightarrow> (msg \<times> bytes) list \<Rightarrow> topics \<Rightarrow> topics" where
  "effects p [] T = T"
| "effects p ((m, b) # ms) T = effects p ms (msg_effect p m b T)"

fun fair_requests :: "nat \<Rightarrow> (msg \<times> bytes) list \<Rightarrow> topics \<Rightarrow> bool" where
  "fair_requests p [] T \<longleftrightarrow> True"
| "fair_requests p ((m, b) # ms) T \<longleftrightarrow> fair_request p m b T \<and> fair_requests p ms (msg_effect p m b T)"

unbundle bit_operations_syntax

definition knows :: "topics \<Rightarrow> bytes list \<Rightarrow> xpub \<Rightarrow> bool" where
  "knows T u s \<longleftrightarrow> mt_inv T (xp_subscriptions s) \<and> \<not> xp_manual s \<and> \<not> xp_verbose_unsubs s \<and> \<not> xp_only_first_subscribe s
     \<and> (xp_more_recv s \<longrightarrow> xp_process_subscribe s) \<and> xp_type s = SOCK_XPUB \<and> view (u @ xp_pending_data s) = wanted T
     \<and> length (xp_pending_metadata s) = length (xp_pending_data s) \<and> length (xp_pending_flags s) = length (xp_pending_data s)
     \<and> set (xp_pending_metadata s) \<subseteq> {None} \<and> (\<forall>f \<in> set (xp_pending_flags s). f AND f_shared = 0)"

lemma apply_knows:
  assumes "mt_inv T (xp_subscriptions s)" "\<not> xp_manual s" "\<not> xp_verbose_unsubs s" "unat (num_prefixes (xp_subscriptions s)) + 1 < 2 ^ 32"
    and "\<not> sub \<longrightarrow> p \<in> T t \<or> T t = {}"
  shows "\<exists>notify tr. xpub_apply p sub t s = Some (notify, s\<lparr>xp_subscriptions := tr\<rparr>)
    \<and> mt_inv (if sub then T(t := insert p (T t)) else T(t := T t - {p})) tr
    \<and> unat (num_prefixes tr) \<le> unat (num_prefixes (xp_subscriptions s)) + 1
    \<and> (if notify then replay ((if sub then 1 else 0) # t) (wanted T) else wanted T)
        = wanted (if sub then T(t := insert p (T t)) else T(t := T t - {p}))"
proof (cases sub)
  case True
  obtain a tr where r: "mt_do (MAdd t p) (xp_subscriptions s) = Some (a, tr)" "answer_ok (MAdd t p) T a" "mt_inv (topics_op (MAdd t p) T) tr"
    "unat (num_prefixes tr) \<le> unat (num_prefixes (xp_subscriptions s)) + 1"
    using mt_op_refines [OF assms(1,4)] by blast
  then have "mt_add t p (xp_subscriptions s) = Some (T t = {}, tr)" by auto
  with r True assms(2) show ?thesis
    by (intro exI [of _ "T t = {} \<or> xp_verbose_subs s"] exI [of _ tr]) (auto simp: xpub_apply_def wanted_def)
next
  case False
  obtain a tr where r: "mt_do (MRm t p) (xp_subscriptions s) = Some (a, tr)" "answer_ok (MRm t p) T a" "mt_inv (topics_op (MRm t p) T) tr"
    "unat (num_prefixes tr) \<le> unat (num_prefixes (xp_subscriptions s)) + 1"
    using mt_op_refines [OF assms(1,4)] by blast
  then have "mt_rm t p (xp_subscriptions s) = Some (rm_answer p (T t), tr)" by auto
  with r False assms(2,3,5) show ?thesis
    by (intro exI [of _ "rm_answer p (T t) \<noteq> values_remain"] exI [of _ tr])
      (auto simp: xpub_apply_def wanted_def rm_answer_def split: if_splits)
qed

lemma request_plain: "request_of m b = Some None \<Longrightarrow> replay b V = V"
  by (cases b) (auto simp: request_of_def bind_eq_Some_conv split: if_splits)

locale pub_source = filter_source "pb_sock pops" inv live queue acct body
  for pops :: "'w pub_ops" and inv live queue acct body +
  assumes no_metadata: "acct w (m # hs) \<Longrightarrow> m_metadata m = None"
begin

lemma process_spec:
  assumes "inv w" "acct w (m # hs)" "knows T u s" "fair_request p m (body w m) T"
    and "unat (num_prefixes (xp_subscriptions s)) + 1 < 2 ^ 32"
  shows "\<exists>s' w'. xpub_process pops p m s w = Some (s', w') \<and> knows (msg_effect p m (body w m) T) u s'
    \<and> unat (num_prefixes (xp_subscriptions s')) \<le> unat (num_prefixes (xp_subscriptions s)) + 1
    \<and> xp_dist s' = xp_dist s \<and> xp_welcome_msg s' = xp_welcome_msg s
    \<and> inv w' \<and> live w' = live w \<and> queue w' = queue w \<and> acct w' hs \<and> same_bodies w w' hs"
proof -
  let ?b = "body w m"
  obtain w' where w': "po_close (so_pipe (pb_sock pops)) m w = Some w'" "inv w'" "live w' = live w" "queue w' = queue w" "acct w' hs"
    "same_bodies w w' hs"
    using close_acct [OF assms(1,2)] unfolding same_bodies_def by blast
  have b: "so_bytes (pb_sock pops) m w = Some ?b" by (rule bytes_acct [OF assms(2)])
  have md: "m_metadata m = None" by (rule no_metadata [OF assms(2)])
  note k = assms(3) [unfolded knows_def]
  define s2 where "s2 = (let s1 = s\<lparr>xp_more_recv := has_more m\<rparr> in if xp_more_recv s then s1 else s1\<lparr>xp_process_subscribe := True\<rparr>)"
  have s2: "xp_subscriptions s2 = xp_subscriptions s" "\<not> xp_manual s2" "\<not> xp_verbose_unsubs s2" "\<not> xp_only_first_subscribe s2"
    "xp_process_subscribe s2" "xp_type s2 = SOCK_XPUB" "xp_pending_data s2 = xp_pending_data s" "xp_pending_metadata s2 = xp_pending_metadata s"
    "xp_pending_flags s2 = xp_pending_flags s" "xp_dist s2 = xp_dist s" "xp_welcome_msg s2 = xp_welcome_msg s"
    using k by (auto simp: s2_def Let_def)
  obtain req where req: "request_of m ?b = Some req" using assms(4) by (auto simp: fair_request_def split: option.splits)
  have look: "\<not> xp_more_recv s \<or> xp_process_subscribe s" using k by blast
  show ?thesis
  proof (cases req)
    case None
    define s3 where "s3 = push_pending ?b None (m_flags m) s2"
    have "xpub_process pops p m s w = Some (s3, w')"
      using b req None look k w'(1) md
      by (auto simp: xpub_process_def Let_def s2_def s3_def keep_metadata_def SOCK_XPUB_def SOCK_PUB_def)
    moreover have "knows T u s3"
      using k s2 request_plain [of m ?b] req None assms(4)
      by (simp add: knows_def s3_def push_pending_def view_snoc2 fair_request_def has_flag_def)
    ultimately show ?thesis using w' req None s2 by (simp add: msg_effect_def s3_def push_pending_def)
  next
    case (Some st)
    obtain sub t where st: "st = (sub, t)" by (cases st)
    let ?T = "if sub then T(t := insert p (T t)) else T(t := T t - {p})"
    have fair: "\<not> sub \<longrightarrow> p \<in> T t \<or> T t = {}" using assms(4) req Some st by (auto simp: fair_request_def split: bool.splits)
    have inv2: "mt_inv T (xp_subscriptions s2)" "unat (num_prefixes (xp_subscriptions s2)) + 1 < 2 ^ 32" using k s2(1) assms(5) by simp_all
    obtain notify tr where a: "xpub_apply p sub t s2 = Some (notify, s2\<lparr>xp_subscriptions := tr\<rparr>)" "mt_inv ?T tr"
      "unat (num_prefixes tr) \<le> unat (num_prefixes (xp_subscriptions s2)) + 1"
      "(if notify then replay ((if sub then 1 else 0) # t) (wanted T) else wanted T) = wanted ?T"
      using apply_knows [OF inv2(1) s2(2,3) inv2(2) fair] by blast
    have eff: "msg_effect p m ?b T = ?T" using req Some st by (simp add: msg_effect_def split: bool.splits)
    define s3 where "s3 = (let s3 = s2\<lparr>xp_subscriptions := tr\<rparr> in if notify then push_pending ((if sub then 1 else 0) # t) None 0 s3 else s3)"
    have "xpub_process pops p m s w = Some (s3, w')"
      using b req Some st look k w'(1) md a(1) s2(2,6)
      by (auto simp: xpub_process_def Let_def s2_def s3_def keep_metadata_def SOCK_XPUB_def SOCK_PUB_def)
    moreover have "knows ?T u s3"
      using k s2 a(2,4) by (cases notify) (simp_all add: knows_def s3_def push_pending_def Let_def view_snoc2)
    moreover have "xp_subscriptions s3 = tr" "xp_dist s3 = xp_dist s" "xp_welcome_msg s3 = xp_welcome_msg s"
      using s2 by (simp_all add: s3_def push_pending_def Let_def)
    ultimately show ?thesis using w' a(3) s2(1) eff by simp
  qed
qed

lemma read_spec:
  assumes "inv w" "p \<in> live w" "acct w hs" "knows T u s" "fair_requests p (map (\<lambda>m. (m, body w m)) (queue w p)) T"
    and "unat (num_prefixes (xp_subscriptions s)) + length (queue w p) < 2 ^ 32"
  shows "\<exists>s' w'. xpub_read_activated pops p s w = Some (s', w') \<and> knows (effects p (map (\<lambda>m. (m, body w m)) (queue w p)) T) u s'
    \<and> xp_dist s' = xp_dist s \<and> xp_welcome_msg s' = xp_welcome_msg s
    \<and> inv w' \<and> live w' = live w \<and> queue w' = (queue w)(p := []) \<and> acct w' hs"
  using assms
proof (induction "queue w p" arbitrary: w s T)
  case Nil
  obtain w1 where w1: "inv w1" "live w1 = live w" "po_read (so_pipe (pb_sock pops)) p w = Some (None, w1)" "queue w1 = queue w"
    using read_law [OF Nil.prems(1,2)] Nil.hyps [symmetric] by auto
  have "acct w1 hs" using read_acct [OF Nil.prems(1,2,3) w1(3)] by simp
  then show ?case using w1 Nil.prems Nil.hyps [symmetric]
    by (intro exI [of _ s] exI [of _ w1]) (auto simp: xpub_read_activated.simps)
next
  case (Cons m ms)
  note q = Cons.hyps(2) [symmetric]
  obtain w1 where w1: "inv w1" "live w1 = live w" "po_read (so_pipe (pb_sock pops)) p w = Some (Some m, w1)" "queue w1 = (queue w)(p := ms)"
    using read_law [OF Cons.prems(1,2)] q by auto
  have a1: "acct w1 (m # hs)" "body w1 = body w" using read_acct [OF Cons.prems(1,2,3) w1(3)] by simp_all
  have fair: "fair_request p m (body w1 m) T" "fair_requests p (map (\<lambda>m. (m, body w m)) ms) (msg_effect p m (body w m) T)"
    using Cons.prems(5) q a1(2) by simp_all
  have n: "unat (num_prefixes (xp_subscriptions s)) + 1 < 2 ^ 32" using Cons.prems(6) q by simp
  obtain s1 w2 where s1: "xpub_process pops p m s w1 = Some (s1, w2)" "knows (msg_effect p m (body w1 m) T) u s1"
    "unat (num_prefixes (xp_subscriptions s1)) \<le> unat (num_prefixes (xp_subscriptions s)) + 1"
    "xp_dist s1 = xp_dist s" "xp_welcome_msg s1 = xp_welcome_msg s"
    "inv w2" "live w2 = live w1" "queue w2 = queue w1" "acct w2 hs" "same_bodies w1 w2 hs"
    using process_spec [OF w1(1) a1(1) Cons.prems(4) fair(1) n] by blast
  have q2: "queue w2 p = ms" using s1(8) w1(4) by simp
  have "body w2 x = body w x" if "x \<in> set ms" for x
    using s1(10) that q2 a1(2) by (auto simp: same_bodies_def)
  then have bodies: "map (\<lambda>m. (m, body w2 m)) ms = map (\<lambda>m. (m, body w m)) ms" by simp
  obtain s' w' where r: "xpub_read_activated pops p s1 w2 = Some (s', w')"
    "knows (effects p (map (\<lambda>m. (m, body w2 m)) ms) (msg_effect p m (body w1 m) T)) u s'"
    "xp_dist s' = xp_dist s1" "xp_welcome_msg s' = xp_welcome_msg s1" "inv w'" "live w' = live w2" "queue w' = (queue w2)(p := [])" "acct w' hs"
    using Cons.hyps(1) [OF q2 [symmetric] s1(6) _ s1(9,2)] q2 bodies fair(2) a1(2) s1(3,7) w1(2) Cons.prems(2,6) q by auto
  have "xpub_read_activated pops p s w = Some (s', w')"
    by (subst xpub_read_activated.simps) (simp add: w1(3) s1(1) r(1))
  with r s1 w1 bodies a1(2) q show ?case by (intro exI [of _ s'] exI [of _ w']) (simp add: fun_eq_iff)
qed

end

subsection \<open>Attaching, losing and receiving\<close>

datatype pub_act = Attached nat | Readable nat | Lost nat | Receive

text \<open>The calls a socket gets, with the messages handed to the application.\<close>

fun pub_do :: "'w pub_ops \<Rightarrow> pub_act \<Rightarrow> xpub \<Rightarrow> 'w \<Rightarrow> (msg list \<times> xpub \<times> 'w) option" where
  "pub_do ops (Attached p) s w = map_option (Pair []) (xpub_attach_pipe ops p False s w)"
| "pub_do ops (Readable p) s w = map_option (Pair []) (xpub_read_activated ops p s w)"
| "pub_do ops (Lost p) s w = map_option (\<lambda>s'. ([], s', w)) (xpub_pipe_terminated p s)"
| "pub_do ops Receive s w = map_option (\<lambda>(r, s', w'). (case r of Inl _ \<Rightarrow> [] | Inr m \<Rightarrow> [m], s', w')) (xpub_recv ops msg_init s w)"

fun act_effect :: "('w \<Rightarrow> nat \<Rightarrow> msg list) \<Rightarrow> ('w \<Rightarrow> msg \<Rightarrow> bytes) \<Rightarrow> pub_act \<Rightarrow> 'w \<Rightarrow> topics \<Rightarrow> topics" where
  "act_effect queue body (Attached p) w T = effects p (map (\<lambda>m. (m, body w m)) (queue w p)) T"
| "act_effect queue body (Readable p) w T = effects p (map (\<lambda>m. (m, body w m)) (queue w p)) T"
| "act_effect queue body (Lost p) w T = (\<lambda>t. T t - {p})"
| "act_effect queue body Receive w T = T"

definition reads_ok :: "('w \<Rightarrow> nat set) \<Rightarrow> ('w \<Rightarrow> nat \<Rightarrow> msg list) \<Rightarrow> ('w \<Rightarrow> msg \<Rightarrow> bytes) \<Rightarrow> nat \<Rightarrow> topics \<Rightarrow> xpub \<Rightarrow> 'w \<Rightarrow> bool" where
  "reads_ok live queue body p T s w \<longleftrightarrow> p \<in> live w \<and> fair_requests p (map (\<lambda>m. (m, body w m)) (queue w p)) T
     \<and> unat (num_prefixes (xp_subscriptions s)) + length (queue w p) < 2 ^ 32"

fun act_ok :: "('w \<Rightarrow> nat set) \<Rightarrow> ('w \<Rightarrow> nat \<Rightarrow> msg list) \<Rightarrow> ('w \<Rightarrow> msg \<Rightarrow> bytes) \<Rightarrow> ('w \<Rightarrow> bytes \<Rightarrow> bool) \<Rightarrow> pub_act \<Rightarrow> topics \<Rightarrow> xpub \<Rightarrow> 'w \<Rightarrow> bool" where
  "act_ok live queue body room (Attached p) T s w \<longleftrightarrow> reads_ok live queue body p T s w \<and> xp_welcome_msg s = msg_init"
| "act_ok live queue body room (Readable p) T s w \<longleftrightarrow> reads_ok live queue body p T s w"
| "act_ok live queue body room (Lost p) T s w \<longleftrightarrow> unat (num_prefixes (xp_subscriptions s)) + 1 < 2 ^ 32"
| "act_ok live queue body room Receive T s w \<longleftrightarrow> (\<forall>b bs. xp_pending_data s = b # bs \<longrightarrow> room w b)"

lemma fold_unsubscribed:
  "\<not> xp_manual s \<Longrightarrow> xp_type s = SOCK_XPUB \<Longrightarrow> fold send_unsubscription ts s =
     s\<lparr>xp_pending_data := xp_pending_data s @ map ((#) 0) ts, xp_pending_metadata := xp_pending_metadata s @ replicate (length ts) None,
       xp_pending_flags := xp_pending_flags s @ replicate (length ts) 0\<rparr>"
  by (induction ts arbitrary: s) (simp_all add: send_unsubscription_def push_pending_def SOCK_PUB_def SOCK_XPUB_def)

locale pub_client = pub_source pops inv live queue acct body
  for pops :: "'w pub_ops" and inv live queue acct body +
  fixes room :: "'w \<Rightarrow> bytes \<Rightarrow> bool"
  assumes init_bytes: "so_bytes (pb_sock pops) msg_init w = Some []"
    and new_law: "inv w \<Longrightarrow> acct w hs \<Longrightarrow> room w b \<Longrightarrow> f AND f_shared = 0 \<Longrightarrow> \<exists>m w'. pb_new_msg pops b w = Some (m, w') \<and> inv w'
      \<and> live w' = live w \<and> queue w' = queue w \<and> acct w' (set_flags f m # hs) \<and> body w' (set_flags f m) = b"
begin

lemma act_spec:
  assumes "inv w" "acct w hs" "knows T u s" "act_ok live queue body room a T s w"
  shows "\<exists>ms s' w'. pub_do pops a s w = Some (ms, s', w') \<and> inv w' \<and> acct w' (ms @ hs) \<and> live w' = live w
    \<and> knows (act_effect queue body a w T) (u @ map (body w') ms) s'"
proof (cases a)
  case (Attached p)
  let ?s = "s\<lparr>xp_dist := dist_attach p (xp_dist s)\<rparr>"
  have "knows T u ?s" "xp_subscriptions ?s = xp_subscriptions s" using assms(3) by (simp_all add: knows_def)
  then obtain s' w' where r: "xpub_read_activated pops p ?s w = Some (s', w')"
    "knows (effects p (map (\<lambda>m. (m, body w m)) (queue w p)) T) u s'" "inv w'" "live w' = live w" "acct w' hs"
    using read_spec [OF assms(1) _ assms(2), of p T u ?s] assms(4) Attached by (auto simp: reads_ok_def)
  have "xpub_attach_pipe pops p False s w = Some (s', w')"
    using assms(4) Attached r(1) init_bytes by (simp add: xpub_attach_pipe_def Let_def)
  with r Attached show ?thesis by auto
next
  case (Readable p)
  then obtain s' w' where r: "xpub_read_activated pops p s w = Some (s', w')"
    "knows (effects p (map (\<lambda>m. (m, body w m)) (queue w p)) T) u s'" "inv w'" "live w' = live w" "acct w' hs"
    using read_spec [OF assms(1) _ assms(2,3), of p] assms(4) by (auto simp: reads_ok_def)
  with Readable show ?thesis by auto
next
  case (Lost p)
  have k: "mt_inv T (xp_subscriptions s)" "unat (num_prefixes (xp_subscriptions s)) + 1 < 2 ^ 32" using assms(3,4) Lost by (simp_all add: knows_def)
  from mt_op_refines [OF k, of "MRmValue True p"] obtain ts t where t: "mt_rm_value True p (xp_subscriptions s) = Some (ts, t)"
    "set ts = {q. called True p (T q)}" "mt_inv (\<lambda>q. T q - {p}) t" by auto
  have "wanted T - set ts = wanted (\<lambda>q. T q - {p})" by (auto simp: t(2) wanted_def called_def)
  then have "knows (\<lambda>q. T q - {p}) u (fold send_unsubscription ts (s\<lparr>xp_subscriptions := t\<rparr>)\<lparr>xp_dist := d\<rparr>)" for d
    using assms(3) t(3) view_cancels [of "u @ xp_pending_data s" ts] by (auto simp: knows_def fold_unsubscribed)
  moreover have "xpub_pipe_terminated p s = Some (fold send_unsubscription ts (s\<lparr>xp_subscriptions := t\<rparr>)
      \<lparr>xp_dist := dist_pipe_terminated p (xp_dist s)\<rparr>)"
    using assms(3) t(1) by (simp add: xpub_pipe_terminated_def knows_def fold_unsubscribed Let_def)
  ultimately show ?thesis using assms(1,2) Lost by auto
next
  case Receive
  show ?thesis
  proof (cases "xp_pending_data s")
    case Nil
    with assms Receive show ?thesis by (auto simp: xpub_recv_def)
  next
    case (Cons b bs)
    obtain mds where md: "xp_pending_metadata s = None # mds" using assms(3) Cons by (cases "xp_pending_metadata s") (auto simp: knows_def)
    obtain f fs where f: "xp_pending_flags s = f # fs" "f AND f_shared = 0" using assms(3) Cons by (cases "xp_pending_flags s") (auto simp: knows_def)
    have room: "room w b" using assms(4) Receive Cons by simp
    obtain m w' where m: "pb_new_msg pops b w = Some (m, w')" "inv w'" "live w' = live w" "acct w' (set_flags f m # hs)" "body w' (set_flags f m) = b"
      using new_law [OF assms(1,2) room f(2)] by blast
    let ?s = "s\<lparr>xp_pending_data := bs, xp_pending_metadata := mds, xp_pending_flags := fs\<rparr>"
    have "xpub_recv pops msg_init s w = Some (Inr (set_flags f m), ?s, w')"
      using Cons md f(1) m(1) assms(3) close_law by (simp add: xpub_recv_def knows_def Let_def split: list.split)
    moreover have "knows T (u @ [b]) ?s" using assms(3) Cons md f by (auto simp: knows_def)
    ultimately show ?thesis using Receive m by auto
  qed
qed

end

subsection \<open>The pipe ends of a publisher\<close>

definition net_pub :: "(net \<Rightarrow> nat option) \<Rightarrow> net pub_ops" where
  "net_pub mal = \<lparr>pb_sock = net_sock mal,
     pb_add_metadata = (\<lambda>a n. map_option (\<lambda>h. with_heap h n) (add_metadata_ref (Some a) (net_heap n))),
     pb_drop_metadata = (\<lambda>a n. map_option (\<lambda>h. with_heap h n) (drop_metadata (Some a) (net_heap n))),
     pb_set_metadata = (\<lambda>a m n. map_option (apsnd (\<lambda>h. with_heap h n)) (set_metadata a m (net_heap n))),
     pb_new_msg = (\<lambda>b n. let (rc, m, h) = msg_init_buffer b (mal n) (net_heap n) in if rc = 0 then Some (m, with_heap h n) else None),
     pb_copy = (\<lambda>m n. do { (rc, d, m', h) \<leftarrow> msg_copy msg_init m (net_heap n); if rc = 0 then Some (d, m', with_heap h n) else None }),
     pb_set_nodelay = (\<lambda>p n. map_option (\<lambda>e. n\<lparr>n_pipes := (n_pipes n)(p \<mapsto> set_nodelay e)\<rparr>) (n_pipes n p))\<rparr>"

text \<open>A message of these bytes fits into the message itself, or the allocator has a block for it.\<close>

definition net_room :: "(net \<Rightarrow> nat option) \<Rightarrow> net \<Rightarrow> bytes \<Rightarrow> bool" where
  "net_room mal n b \<longleftrightarrow> length b \<le> max_vsm_size
     \<or> (length b + sizeof_content < 2 ^ 64 \<and> (\<exists>a. mal n = Some a \<and> h_contents (net_heap n) a = None))"

lemma net_pub_sock [simp]: "pb_sock (net_pub mal) = net_sock mal"
  by (simp add: net_pub_def)

lemma refs_ok_flags:
  assumes "refs_ok (fresh_msg x # ms) h" "f AND f_shared = 0"
  shows "refs_ok (set_flags f (fresh_msg x) # ms) h"
  unfolding refs_ok_def
proof (intro conjI allI)
  fix c
  have "holders c (set_flags f (fresh_msg x) # ms) = holders c (fresh_msg x # ms)" by (simp add: holders_def set_flags_def fresh_msg_def)
  moreover have "\<not> has_flag f_shared (set_flags f (fresh_msg x))" "\<not> has_flag f_shared (fresh_msg x)" "m_body (set_flags f (fresh_msg x)) = m_body (fresh_msg x)"
    using assms(2) by (simp_all add: has_flag_def set_flags_def fresh_msg_def)
  moreover have "content_ok (fresh_msg x # ms) h c" using assms(1) by (simp add: refs_ok_def)
  ultimately show "content_ok (set_flags f (fresh_msg x) # ms) h c" by (auto simp: content_ok_def split: option.splits)
next
  show "\<forall>m \<in> set (set_flags f (fresh_msg x) # ms). plain m"
    using assms(1) by (auto simp: refs_ok_def plain_def set_flags_def fresh_msg_def)
qed

lemma net_new_msg:
  assumes "net_acct others n hs" "net_room mal n b" "f AND f_shared = 0"
  shows "\<exists>m h. msg_init_buffer b (mal n) (net_heap n) = (0, m, h) \<and> net_acct others (with_heap h n) (set_flags f m # hs)
    \<and> msg_bytes (set_flags f m) h = Some b"
proof -
  obtain ps where ps: "distinct ps" "\<forall>p. net_queue n p \<noteq> [] \<longrightarrow> p \<in> set ps" "refs_ok (hs @ concat (map (net_queue n) ps) @ others) (net_heap n)"
    using assms(1) by (auto simp: net_acct_def)
  have reg: "regular x" if "x \<in> set hs \<or> (\<exists>p. x \<in> set (net_queue n p))" for x using assms(1) that by (auto simp: net_acct_def)
  let ?l = "hs @ concat (map (net_queue n) ps) @ others"
  have "\<exists>x h. msg_init_buffer b (mal n) (net_heap n) = (0, fresh_msg x, h) \<and> refs_ok (fresh_msg x # ?l) h \<and> regular (set_flags f (fresh_msg x))
      \<and> msg_bytes (set_flags f (fresh_msg x)) h = Some b"
  proof (cases "length b \<le> max_vsm_size")
    case True
    have "refs_ok (fresh_msg (Vsm b (length b)) # ?l) (net_heap n)"
      using refs_ok_no_content [of 0 "fresh_msg (Vsm b (length b))" ?l "net_heap n" 1] ps(3) by (simp add: fresh_msg_def plain_def)
    with True show ?thesis
      by (intro exI [of _ "Vsm b (length b)"] exI [of _ "net_heap n"])
        (simp add: msg_init_buffer_def msg_init_size_def regular_def set_flags_def fresh_msg_def msg_bytes_def msg_data_def msg_size_def)
  next
    case False
    then obtain a where a: "length b + sizeof_content < 2 ^ 64" "mal n = Some a" "h_contents (net_heap n) a = None"
      using assms(2) by (auto simp: net_room_def)
    let ?h = "(net_heap n)\<lparr>h_contents := (h_contents (net_heap n))(a \<mapsto> new_content b (length b) None)\<rparr>"
    have "refs_ok (fresh_msg Closed # ?l) (net_heap n)"
      using refs_ok_no_content [of 0 "fresh_msg Closed" ?l "net_heap n" 1] ps(3) by (simp add: fresh_msg_def plain_def)
    from refs_ok_alloc [OF this, of 0 a "fresh_msg (Lmsg a)" ?h] have r: "refs_ok (fresh_msg (Lmsg a) # ?l) ?h"
      using a(3) by (simp add: fresh_msg_def)
    have "length b < (sizeof_content + length b) mod 2 ^ 64" using a(1) by (simp add: sizeof_content_def)
    then have "msg_init_buffer b (mal n) (net_heap n) = (0, fresh_msg (Lmsg a), ?h)"
      using False a(2) by (simp add: msg_init_buffer_def msg_init_size_def)
    with r show ?thesis
      by (intro exI [of _ "Lmsg a"] exI [of _ ?h])
        (simp add: regular_def set_flags_def fresh_msg_def msg_bytes_def msg_data_def msg_size_def new_content_def)
  qed
  then obtain x h where x: "msg_init_buffer b (mal n) (net_heap n) = (0, fresh_msg x, h)" "refs_ok (fresh_msg x # ?l) h" "regular (set_flags f (fresh_msg x))"
    "msg_bytes (set_flags f (fresh_msg x)) h = Some b" by blast
  have "refs_ok ((set_flags f (fresh_msg x) # hs) @ concat (map (net_queue n) ps) @ others) h"
    using refs_ok_flags [OF x(2) assms(3)] by simp
  then have "net_acct others (with_heap h n) (set_flags f (fresh_msg x) # hs)"
    using ps(1,2) reg x(3) unfolding net_acct_def by auto
  with x show ?thesis by blast
qed

interpretation net_publisher: pub_client "net_pub mal" net_inv net_live net_queue "net_acct others" net_body "net_room mal"
proof (unfold_locales, goal_cases)
  case (9 w m hs)
  then show ?case by (auto simp: net_acct_def refs_ok_def plain_def)
next
  case 10
  show ?case by (simp add: net_sock_def msg_bytes_def msg_init_def fresh_msg_def msg_data_def msg_size_def)
next
  case (11 w hs b f)
  then obtain m h where "msg_init_buffer b (mal w) (net_heap w) = (0, m, h)" "net_acct others (with_heap h w) (set_flags f m # hs)"
    "msg_bytes (set_flags f m) h = Some b" using net_new_msg by blast
  with 11 show ?case by (intro exI [of _ m] exI [of _ "with_heap h w"]) (simp add: net_pub_def net_body_def)
next
  case 1
  then show ?case unfolding net_pub_sock by (rule net_sub.read_law)
next
  case 2
  then show ?case unfolding net_pub_sock by (rule net_sub.check_read_law)
next
  case 3
  then show ?case unfolding net_pub_sock by (rule net_sub.complete_law)
next
  case 4
  show ?case unfolding net_pub_sock by (rule net_sub.close_law)
next
  case 5
  then show ?case unfolding net_pub_sock by (rule net_sub.read_acct)
next
  case 6
  then show ?case unfolding net_pub_sock by (rule net_sub.close_acct)
next
  case 7
  then show ?case unfolding net_pub_sock by (rule net_sub.init_acct)
next
  case 8
  then show ?case unfolding net_pub_sock by (rule net_sub.bytes_acct)
qed


lemma knows_new: "knows no_topics [] xpub_new"
  using mt_inv_new by (simp add: knows_def xpub_new_def view_def wanted_def no_topics_def)

definition one_queue :: "msg list list" where
  "one_queue = [[text_msg 0 [1, 65], text_msg 0 [1, 66], text_msg 0 [0, 65]]]"


text \<open>The condition on cancellations is needed: one for a topic the pipe never asked for is reported upstream although other pipes still want the
  topic.\<close>

lemma foreign_cancel_reported:
  assumes "mt_inv T (xp_subscriptions s)" "unat (num_prefixes (xp_subscriptions s)) + 1 < 2 ^ 32" "\<not> xp_manual s" "p \<notin> T t" "T t \<noteq> {}"
  shows "\<exists>tr. xpub_apply p False t s = Some (True, s\<lparr>xp_subscriptions := tr\<rparr>) \<and> mt_inv T tr"
proof -
  obtain a tr where r: "mt_do (MRm t p) (xp_subscriptions s) = Some (a, tr)" "answer_ok (MRm t p) T a" "mt_inv (topics_op (MRm t p) T) tr"
    using mt_op_refines [OF assms(1,2)] by blast
  moreover have "topics_op (MRm t p) T = T" using assms(4) by (simp add: fun_upd_idem)
  ultimately show ?thesis using assms by (auto simp: xpub_apply_def rm_answer_def)
qed

text \<open>The condition on shared messages is needed as well: the flags of a message from a subscriber are given to the copy the application receives.
  With the flag of a shared content the copy's own content block is never freed.\<close>

lemma shared_flag_leaks:
  assumes "xp_pending_data s = b # bs" "xp_pending_metadata s = None # mds" "xp_pending_flags s = f # fs" "f AND f_shared \<noteq> 0" "\<not> xp_manual s"
    and "length b > max_vsm_size" "length b + sizeof_content < 2 ^ 64" "mal w = Some a"
  shows "\<exists>m s' w' m' h. xpub_recv (net_pub mal) msg_init s w = Some (Inr m, s', w') \<and> net_body w' m = b
    \<and> msg_close m (net_heap w') = Some (0, m', h) \<and> h_contents h a \<noteq> None"
proof -
  let ?h = "(net_heap w)\<lparr>h_contents := (h_contents (net_heap w))(a \<mapsto> new_content b (length b) None)\<rparr>"
  let ?m = "set_flags f (fresh_msg (Lmsg a))"
  let ?s = "s\<lparr>xp_pending_data := bs, xp_pending_metadata := mds, xp_pending_flags := fs\<rparr>"
  have "length b < (sizeof_content + length b) mod 2 ^ 64" using assms(7) by (simp add: sizeof_content_def)
  then have "msg_init_buffer b (mal w) (net_heap w) = (0, fresh_msg (Lmsg a), ?h)"
    using assms(6,8) by (simp add: msg_init_buffer_def msg_init_size_def)
  then have "pb_new_msg (net_pub mal) b w = Some (fresh_msg (Lmsg a), with_heap ?h w)" by (simp add: net_pub_def)
  then have "xpub_recv (net_pub mal) msg_init s w = Some (Inr ?m, ?s, with_heap ?h w)"
    using assms(1-3,5) net_publisher.close_law [of mal] by (simp add: xpub_recv_def Let_def split: list.split)
  moreover have "net_body (with_heap ?h w) ?m = b"
    by (simp add: net_body_def msg_bytes_def msg_data_def msg_size_def set_flags_def fresh_msg_def new_content_def)
  moreover have "has_flag f_shared ?m" using assms(4) by (simp add: has_flag_def set_flags_def fresh_msg_def)
  then have "\<exists>m' h. msg_close ?m ?h = Some (0, m', h) \<and> h_contents h a \<noteq> None"
    by (simp add: msg_close_def msg_check_def set_flags_def fresh_msg_def release_content_def counter_sub_def new_content_def set_refcnt_def
        drop_metadata_def drop_group_def)
  ultimately show ?thesis by (metis with_heap_same(6))
qed

end
