(* ===== verification/Xpub_Send.thy ===== *)
theory Xpub_Send
  imports Xpub_Facts
begin

text \<open>
  Sending through the publishing sockets of theory \<open>Xpub\<close>: the selection of the pipes by the multi-trie, inverted or restricted to the last pipe,
  and the distribution of a whole message to them.
\<close>

subsection \<open>Selecting the pipes\<close>

lemma dist_match_keeps:
  assumes "dist_shape d"
  shows "set (di_pipes (dist_match p d)) = set (di_pipes d)" "di_more (dist_match p d) = di_more d"
proof -
  have "set (list_swap (pos p (di_pipes d)) (di_matching d) (di_pipes d)) = set (di_pipes d)"
    if "di_matching d \<le> pos p (di_pipes d)" "pos p (di_pipes d) < di_eligible d"
    using that assms by (intro list_swap_simps(2)) (auto simp: dist_shape_def)
  then show "set (di_pipes (dist_match p d)) = set (di_pipes d)" "di_more (dist_match p d) = di_more d"
    by (auto simp: dist_match_def not_less)
qed

lemma fold_match_spec:
  "dist_shape d \<Longrightarrow> \<not> di_more d \<Longrightarrow> dist_shape (fold dist_match ps d) \<and> \<not> di_more (fold dist_match ps d)
    \<and> set (di_pipes (fold dist_match ps d)) = set (di_pipes d)
    \<and> matching (fold dist_match ps d) = matching d \<union> (set ps \<inter> eligibles d)
    \<and> actives (fold dist_match ps d) = actives d \<and> eligibles (fold dist_match ps d) = eligibles d"
proof (induction ps arbitrary: d)
  case (Cons p ps)
  note m = dist_match_spec [OF Cons.prems, of p] and k = dist_match_keeps [OF Cons.prems(1), of p]
  from Cons.IH [of "dist_match p d"] m k Cons.prems(2) show ?case by auto
qed simp

lemma reverse_keeps:
  assumes "dist_shape d" "\<not> di_more d"
  shows "set (di_pipes (dist_reverse_match d)) = set (di_pipes d)" "di_more (dist_reverse_match d) = di_more d"
proof -
  let ?f = "\<lambda>i e. e\<lparr>di_pipes := list_swap i (di_matching e) (di_pipes e), di_matching := di_matching e + 1\<rparr>"
  have "length (di_pipes (fold ?f is e)) = length (di_pipes e) \<and> set (di_pipes (fold ?f is e)) = set (di_pipes e) \<and> di_more (fold ?f is e) = di_more e"
    if "\<forall>i \<in> set is. i < length (di_pipes e)" "di_matching e + length is \<le> length (di_pipes e)" for "is" e
    using that by (induction "is" arbitrary: e) simp_all
  from this [of "[di_matching d..<di_eligible d]" "dist_unmatch d"] assms(1)
  show "set (di_pipes (dist_reverse_match d)) = set (di_pipes d)" "di_more (dist_reverse_match d) = di_more d"
    by (auto simp: dist_reverse_match_def dist_unmatch_def dist_shape_def)
qed

text \<open>The pipes that asked for a message with the bytes \<open>b\<close>.\<close>

definition subscribed :: "topics \<Rightarrow> bytes \<Rightarrow> nat set" where
  "subscribed T b = {p. \<exists>t. prefix t b \<and> p \<in> T t}"

text \<open>The pipes a message is meant for.\<close>

definition addressed :: "topics \<Rightarrow> bytes \<Rightarrow> xpub \<Rightarrow> nat set" where
  "addressed T b s =
     (let hit = eligibles (xp_dist s) \<inter> subscribed T b \<inter>
            (if xp_manual s \<and> xp_send_last_pipe s then (case xp_last_pipe s of None \<Rightarrow> UNIV | Some p \<Rightarrow> {p}) else UNIV)
      in if xp_invert_matching s then eligibles (xp_dist s) - hit else hit)"

lemma set_matched: "finite {t. T t \<noteq> {}} \<Longrightarrow> (\<And>t. finite (T t)) \<Longrightarrow>
    set (concat (map (\<lambda>p. sorted_list_of_set (T p)) (prefixes b))) = subscribed T b"
  by (auto simp: subscribed_def)

lemma finite_vals: "finite (vals n p)"
proof (induction p arbitrary: n)
  case (Cons c cs)
  then show ?case by (simp split: option.split)
qed (simp split: option.split)

lemma fold_mark: "fold mark_as_matching ps s = s\<lparr>xp_dist := fold dist_match ps (xp_dist s)\<rparr>"
  by (induction ps arbitrary: s) (simp_all add: mark_as_matching_def)

lemma fold_mark_last:
  "xp_last_pipe s = Some p \<Longrightarrow> fold mark_last_pipe_as_matching ps s = s\<lparr>xp_dist := fold dist_match (filter ((=) p) ps) (xp_dist s)\<rparr>"
  by (induction ps arbitrary: s) (simp_all add: mark_last_pipe_as_matching_def)

lemma select_spec:
  assumes "dist_shape (xp_dist s)" "\<not> di_more (xp_dist s)" "mt_inv T (xp_subscriptions s)"
  shows "\<exists>d. xpub_select b s = Some (s\<lparr>xp_dist := d,
        xp_last_pipe := (if xp_manual s \<and> xp_send_last_pipe s then None else xp_last_pipe s)\<rparr>)
    \<and> dist_shape d \<and> \<not> di_more d \<and> set (di_pipes d) = set (di_pipes (xp_dist s)) \<and> matching d = addressed T b s
    \<and> actives d = actives (xp_dist s) \<and> eligibles d = eligibles (xp_dist s)"
proof -
  let ?d0 = "dist_unmatch (xp_dist s)"
  have n: "mn_wf (mt_root (xp_subscriptions s))" "vals (mt_root (xp_subscriptions s)) = T" "finite {t. T t \<noteq> {}}"
    using assms(3) by (simp_all add: mt_inv_def)
  define ps where "ps = concat (map (\<lambda>p. sorted_list_of_set (T p)) (prefixes b))"
  have ps: "mn_match b (mt_root (xp_subscriptions s)) = Some ps" "set ps = subscribed T b"
    using mn_match_spec [OF n(1), of b] n(2) set_matched [OF n(3)] finite_vals [of "mt_root (xp_subscriptions s)"] by (simp_all add: ps_def)
  have d0: "dist_shape ?d0" "\<not> di_more ?d0" "matching ?d0 = {}" "actives ?d0 = actives (xp_dist s)" "eligibles ?d0 = eligibles (xp_dist s)"
    "set (di_pipes ?d0) = set (di_pipes (xp_dist s))"
    using dist_unmatch_spec [OF assms(1)] assms(2) by (simp_all add: dist_unmatch_def)
  define last where "last = (xp_manual s \<and> xp_last_pipe s \<noteq> None \<and> xp_send_last_pipe s)"
  define qs where "qs = (if last then filter ((=) (the (xp_last_pipe s))) ps else ps)"
  let ?d1 = "fold dist_match qs ?d0"
  note d1 = fold_match_spec [OF d0(1,2), of qs]
  have d1': "dist_shape ?d1" "\<not> di_more ?d1" using d1 by simp_all
  note rv = dist_reverse_match_spec [OF d1'] and rk = reverse_keeps [OF d1']
  define d where "d = (if xp_invert_matching s then dist_reverse_match ?d1 else ?d1)"
  have hit: "matching ?d1 = eligibles (xp_dist s) \<inter> subscribed T b \<inter>
      (if xp_manual s \<and> xp_send_last_pipe s then (case xp_last_pipe s of None \<Rightarrow> UNIV | Some p \<Rightarrow> {p}) else UNIV)"
    using d1 d0 ps(2) by (auto simp: qs_def last_def split: option.splits if_splits)
  have "xpub_select b s = Some (s\<lparr>xp_dist := d, xp_last_pipe := (if xp_manual s \<and> xp_send_last_pipe s then None else xp_last_pipe s)\<rparr>)"
    using ps(1) fold_mark_last [of "s\<lparr>xp_dist := ?d0\<rparr>" "the (xp_last_pipe s)" ps]
    by (auto simp: xpub_select_def Let_def d_def qs_def last_def fold_mark)
  moreover have "matching d = addressed T b s" using rv d1 d0(5) hit by (simp add: d_def addressed_def Let_def)
  ultimately show ?thesis using d1 d0 rv rk by (intro exI [of _ d]) (simp add: d_def)
qed

subsection \<open>Sending a whole message\<close>

fun xpub_sends :: "'w pub_ops \<Rightarrow> msg list \<Rightarrow> xpub \<Rightarrow> 'w \<Rightarrow> (errno option \<times> xpub \<times> 'w) option" where
  "xpub_sends ops [] s w = Some (None, s, w)"
| "xpub_sends ops (m # ms) s w = do {
     (r, s1, w1) \<leftarrow> xpub_send ops m s w;
     (case r of Some e \<Rightarrow> Some (Some e, s1, w1) | None \<Rightarrow> xpub_sends ops ms s1 w1)
   }"

text \<open>Between messages nothing is matched and no part is outstanding.\<close>

definition idle :: "('w \<Rightarrow> nat set) \<Rightarrow> xpub \<Rightarrow> 'w \<Rightarrow> bool" where
  "idle live s w \<longleftrightarrow> dist_ok live (xp_dist s) w \<and> \<not> di_more (xp_dist s) \<and> \<not> xp_more_send s"

lemma sends_rest:
  assumes "xp_lossy s" "xp_more_send s" "\<forall>m \<in> set ms. has_more m" "\<not> has_more m"
    and "dist_sends (so_pipe (pb_sock ops)) (ms @ [m]) (xp_dist s) w = Some (d, w')"
  shows "xpub_sends ops (ms @ [m]) s w = Some (None, s\<lparr>xp_dist := dist_unmatch d, xp_more_send := False\<rparr>, w')"
  using assms
proof (induction ms arbitrary: s w)
  case Nil
  then show ?case by (auto simp: xpub_send_def bind_eq_Some_conv)
next
  case (Cons x xs)
  obtain d1 w1 where d1: "send_to_matching (so_pipe (pb_sock ops)) x (xp_dist s) w = Some (d1, w1)"
    "dist_sends (so_pipe (pb_sock ops)) (xs @ [m]) d1 w1 = Some (d, w')"
    using Cons.prems(5) by (auto simp: bind_eq_Some_conv)
  have s1: "xpub_send ops x s w = Some (None, s\<lparr>xp_dist := d1, xp_more_send := True\<rparr>, w1)"
    using Cons.prems(1-3) d1(1) by (simp add: xpub_send_def)
  have "xpub_sends ops (xs @ [m]) (s\<lparr>xp_dist := d1, xp_more_send := True\<rparr>) w1
      = Some (None, s\<lparr>xp_dist := d1, xp_more_send := True\<rparr>\<lparr>xp_dist := dist_unmatch d, xp_more_send := False\<rparr>, w')"
    by (rule Cons.IH) (use Cons.prems(1,3,4) d1(2) in simp_all)
  then show ?case using s1 by simp
qed

lemma sends_whole:
  assumes "xp_lossy s" "\<not> xp_more_send s" "\<forall>m \<in> set ms. has_more m" "\<not> has_more m"
    and "so_bytes (pb_sock ops) (hd (ms @ [m])) w = Some b" "xpub_select b s = Some s1" "xp_lossy s1"
    and "dist_sends (so_pipe (pb_sock ops)) (ms @ [m]) (xp_dist s1) w = Some (d, w')"
  shows "xpub_sends ops (ms @ [m]) s w = Some (None, s1\<lparr>xp_dist := dist_unmatch d, xp_more_send := False\<rparr>, w')"
proof (cases ms)
  case Nil
  with assms show ?thesis by (auto simp: xpub_send_def bind_eq_Some_conv)
next
  case (Cons x xs)
  obtain d1 w1 where d1: "send_to_matching (so_pipe (pb_sock ops)) x (xp_dist s1) w = Some (d1, w1)"
    "dist_sends (so_pipe (pb_sock ops)) (xs @ [m]) d1 w1 = Some (d, w')"
    using assms(8) Cons by (auto simp: bind_eq_Some_conv)
  have s1: "xpub_send ops x s w = Some (None, s1\<lparr>xp_dist := d1, xp_more_send := True\<rparr>, w1)"
    using assms Cons d1(1) by (simp add: xpub_send_def)
  have "xpub_sends ops (xs @ [m]) (s1\<lparr>xp_dist := d1, xp_more_send := True\<rparr>) w1
      = Some (None, s1\<lparr>xp_dist := d1, xp_more_send := True\<rparr>\<lparr>xp_dist := dist_unmatch d, xp_more_send := False\<rparr>, w')"
    by (rule sends_rest) (use assms(3,4,7) Cons d1(2) in simp_all)
  then show ?thesis using s1 Cons by simp
qed

text \<open>C9: a published message reaches its subscribers. Sent part by part by a socket that drops what a pipe cannot take (the default), a message goes whole, in
  order and once to every pipe that is subscribed to a prefix of its first part and can be written, and to no other pipe (with inverted matching to the pipes that are not subscribed,
  in the manual mode with the last value to the pipe of the last request only); the call never fails, the contents have one reference for each copy, and
  the socket is between messages again with nothing matched.\<close>

theorem publisher_reaches_subscribers:
  assumes "net_out_inv w" "idle net_live s w" "net_half w = (\<lambda>_. [])" "mt_inv T (xp_subscriptions s)" "xp_lossy s"
    and "\<forall>m \<in> set ms. has_more m" "\<not> has_more m" "\<forall>x \<in> set (ms @ [m]). msg_check x" "refs_ok (ms @ [m] @ others) (net_heap w)"
    and "msg_bytes (hd (ms @ [m])) (net_heap w) = Some b"
    and "length others + (length ms + 1) * (length (di_pipes (xp_dist s)) + 1) < 2 ^ 32"
  defines "R \<equiv> {p \<in> addressed T b s. net_writable w p}"
  shows "\<exists>ms' s' w'. xpub_sends (net_pub mal) (ms @ [m]) s w = Some (None, s', w') \<and> list_all2 same_part (ms @ [m]) ms'
    \<and> net_sent w' = (\<lambda>p. net_sent w p @ (if p \<in> R then ms' else [])) \<and> net_half w' = (\<lambda>_. [])
    \<and> refs_ok (copies (card R) ms' @ others) (net_heap w')
    \<and> idle net_live s' w' \<and> matching (xp_dist s') = {} \<and> actives (xp_dist s') = actives (xp_dist s) - (addressed T b s - R)"
proof -
  have sh: "dist_shape (xp_dist s)" "\<not> di_more (xp_dist s)" using assms(2) by (simp_all add: idle_def dist_ok_def)
  obtain d where d: "xpub_select b s = Some (s\<lparr>xp_dist := d, xp_last_pipe := (if xp_manual s \<and> xp_send_last_pipe s then None else xp_last_pipe s)\<rparr>)"
    "dist_shape d" "\<not> di_more d" "set (di_pipes d) = set (di_pipes (xp_dist s))" "matching d = addressed T b s"
    "actives d = actives (xp_dist s)" "eligibles d = eligibles (xp_dist s)"
    using select_spec [OF sh assms(4)] by blast
  have ok: "dist_ok net_live d w" using assms(2) d(2,4) by (simp add: idle_def dist_ok_def)
  have "di_matching d \<le> length (di_pipes d)" using d(2) by (auto simp: dist_shape_def)
  moreover have "length (di_pipes d) = length (di_pipes (xp_dist s))"
    using d(2,4) sh(1) by (metis dist_shape_def distinct_card)
  ultimately have "(length ms + 1) * (di_matching d + 1) \<le> (length ms + 1) * (length (di_pipes (xp_dist s)) + 1)"
    by (intro mult_le_mono) auto
  then have len: "length others + (length ms + 1) * (di_matching d + 1) < 2 ^ 32" using assms(11) by linarith
  obtain ms' d' w' where r: "dist_sends net_ops (ms @ [m]) d w = Some (d', w')" "list_all2 same_part (ms @ [m]) ms'"
    "net_half w' = (\<lambda>_. [])" "net_sent w' = (\<lambda>p. net_sent w p @ (if p \<in> R then ms' else []))"
    "refs_ok (copies (card R) ms' @ others) (net_heap w')"
    "dist_ok net_live d' w'" "\<not> di_more d'" "actives d' = actives d - (matching d - R)"
    using pipe_share.dist_sends_message [OF assms(1) ok d(3) assms(3,6-9) len] unfolding d(5) R_def [symmetric] by blast
  have "xpub_sends (net_pub mal) (ms @ [m]) s w
      = Some (None, s\<lparr>xp_dist := d, xp_last_pipe := (if xp_manual s \<and> xp_send_last_pipe s then None else xp_last_pipe s)\<rparr>
          \<lparr>xp_dist := dist_unmatch d', xp_more_send := False\<rparr>, w')"
    by (rule sends_whole) (use assms(2,5-7,10) d(1) r(1) in \<open>simp_all add: idle_def net_sock_def\<close>)
  moreover have "dist_shape (dist_unmatch d')" "matching (dist_unmatch d') = {}" "actives (dist_unmatch d') = actives d'"
    using dist_unmatch_spec [of d'] r(6) by (simp_all add: dist_ok_def)
  moreover have "set (di_pipes (dist_unmatch d')) = set (di_pipes d')" "\<not> di_more (dist_unmatch d')" using r(7) by (simp_all add: dist_unmatch_def)
  ultimately show ?thesis using r d(5,6) by (auto simp: idle_def dist_ok_def)
qed

definition three_pub :: "mtrie \<Rightarrow> xpub" where
  "three_pub t = xpub_new\<lparr>xp_dist := \<lparr>di_pipes = [0, 1, 2], di_matching = 0, di_active = 3, di_eligible = 3, di_more = False\<rparr>, xp_subscriptions := t\<rparr>"

theorem publisher_reaches_subscribers_witness:
  "\<exists>t ms' s' w'. mt_add [1] 1 mt_new = Some (True, t)
     \<and> xpub_sends (net_pub (\<lambda>_. None)) [large_msg] (three_pub t) (with_heap large_heap three_out) = Some (None, s', w')
     \<and> net_sent w' 1 = ms' \<and> net_sent w' 0 = [] \<and> refs_ok ms' (net_heap w') \<and> length ms' = 1"
proof -
  let ?w = "with_heap large_heap three_out" and ?T = "no_topics([1] := {1})"
  from mt_op_refines [OF mt_inv_new, of "MAdd [1] 1"] obtain t where t: "mt_add [1] 1 mt_new = Some (True, t)" "mt_inv ?T t"
    by (auto simp: mt_new_def no_topics_def)
  let ?s = "three_pub t"
  have T: "mt_inv ?T (xp_subscriptions ?s)" using t(2) by (simp add: three_pub_def)
  have pre: "net_out_inv ?w" "idle net_live ?s ?w" "net_half ?w = (\<lambda>_. [])" "xp_lossy ?s" "\<not> has_more large_msg"
    using three_out_ok by (auto simp: idle_def dist_ok_def dist_shape_def three_pub_def xpub_new_def large_msg_def fresh_msg_def has_flag_def)
  have chk: "\<forall>x \<in> set ([] @ [large_msg]). msg_check x" by (simp add: large_msg_def fresh_msg_def msg_check_def)
  have refs: "refs_ok ([] @ [large_msg] @ []) (net_heap ?w)"
    by (auto simp: refs_ok_def content_ok_def holders_def large_heap_def large_msg_def fresh_msg_def plain_def has_flag_def new_content_def)
  have b: "msg_bytes (hd ([] @ [large_msg])) (net_heap ?w) = Some [1, 2, 3]"
    by (simp add: large_msg_def large_heap_def fresh_msg_def new_content_def msg_bytes_def msg_data_def msg_size_def)
  have len: "length ([] :: msg list) + (length ([] :: msg list) + 1) * (length (di_pipes (xp_dist ?s)) + 1) < 2 ^ 32" by (simp add: three_pub_def xpub_new_def)
  have sub: "subscribed ?T [1, 2, 3] = {1}"
    by (auto simp: subscribed_def no_topics_def split: if_splits intro!: exI [of _ "[1]"])
  have el: "eligibles (xp_dist ?s) = {0, 1, 2}" by (auto simp: three_pub_def xpub_new_def front_def)
  have adr: "addressed ?T [1, 2, 3] ?s = {1}" unfolding addressed_def Let_def sub el by (simp add: three_pub_def xpub_new_def)
  have R: "{p \<in> addressed ?T [1, 2, 3] ?s. net_writable ?w p} = {1}" unfolding adr by (auto simp: three_out_ok(5))
  have none: "\<forall>x \<in> set ([] :: msg list). has_more x" by simp
  from publisher_reaches_subscribers [OF pre(1-3) T pre(4) none pre(5) chk refs b len, of "\<lambda>_. None", unfolded R]
  obtain ms' s' w' where r: "xpub_sends (net_pub (\<lambda>_. None)) ([] @ [large_msg]) ?s ?w = Some (None, s', w')" "list_all2 same_part ([] @ [large_msg]) ms'"
    "net_sent w' = (\<lambda>p. net_sent ?w p @ (if p \<in> {1} then ms' else []))" "refs_ok (copies (card {1 :: nat}) ms' @ []) (net_heap w')"
    by blast
  have c1: "copies 1 ms' = ms'" by (induction ms') (simp_all add: copies_def)
  then have "refs_ok ms' (net_heap w')" using r(4) by simp
  moreover have "net_sent w' 1 = ms'" "net_sent w' 0 = []" unfolding r(3) by (simp_all add: three_out_ok(4))
  moreover have "length ms' = 1" using r(2) by (auto dest: list_all2_lengthD)
  ultimately show ?thesis using t(1) r(1) by auto
qed

text \<open>C36: a failed attempt changes the addressees. A socket that waits for room and sends to the pipe of the last request (manual mode with the last value)
  answers that it cannot send while that pipe is at its high-water mark, and sends nothing; but the attempt has forgotten the pipe, so that the
  message is for every subscriber of its topic when it is tried again.\<close>

theorem failed_send_forgets_last_pipe:
  assumes "dist_shape (xp_dist s)" "\<not> di_more (xp_dist s)" "mt_inv T (xp_subscriptions s)" "\<not> xp_more_send s" "\<not> xp_lossy s"
    and "xp_manual s" "xp_send_last_pipe s" "xp_last_pipe s = Some p" "\<not> xp_invert_matching s"
    and "msg_bytes m (net_heap w) = Some b" "p \<in> eligibles (xp_dist s) \<inter> subscribed T b" "po_check_hwm net_ops p w = Some False"
  shows "\<exists>s'. xpub_send (net_pub mal) m s w = Some (Some EAGAIN, s', w) \<and> addressed T b s = {p}
    \<and> addressed T b s' = eligibles (xp_dist s) \<inter> subscribed T b"
proof -
  obtain d where d: "xpub_select b s = Some (s\<lparr>xp_dist := d, xp_last_pipe := None\<rparr>)"
    "matching d = addressed T b s" "eligibles d = eligibles (xp_dist s)" "dist_shape d"
    using select_spec [OF assms(1-3), of b] assms(6,7) by auto
  have ad: "addressed T b s = {p}" using assms(6-9,11) by (auto simp: addressed_def Let_def)
  have "set (take (di_matching d) (di_pipes d)) = {p}" "distinct (take (di_matching d) (di_pipes d))"
    using d(2,4) ad by (simp_all add: front_def dist_shape_def)
  then have "take (di_matching d) (di_pipes d) = [p]" by (metis distinct_card card.empty card_insert_disjoint empty_iff finite.emptyI length_0_conv
    length_Suc_conv list.set_intros(1) singletonD)
  then have "dist_check_hwm net_ops d w = Some False" using assms(12) by (simp add: dist_check_hwm_def)
  then have "xpub_send (net_pub mal) m s w = Some (Some EAGAIN, s\<lparr>xp_dist := d, xp_last_pipe := None\<rparr>, w)"
    using assms(4,5,10) d(1) by (simp add: xpub_send_def net_sock_def)
  with d(3) assms(9) ad show ?thesis by (simp add: addressed_def Let_def)
qed

definition full_out :: net where
  "full_out = three_out\<lparr>n_pipes := (n_pipes three_out)(1 \<mapsto> (new_pipe 1 4 0 1 False)\<lparr>msgs_written := 1\<rparr>)\<rparr>"

theorem failed_send_forgets_last_pipe_witness:
  "\<exists>t1 t s'. mt_add [] 0 mt_new = Some (True, t1) \<and> mt_add [] 1 t1 = Some (False, t)
     \<and> xpub_send (net_pub (\<lambda>_. None)) part_msg ((three_pub t)\<lparr>xp_lossy := False, xp_manual := True, xp_send_last_pipe := True, xp_last_pipe := Some 1\<rparr>) full_out
         = Some (Some EAGAIN, s', full_out)
     \<and> addressed (no_topics([] := {0, 1})) [] s' = {0, 1}"
proof -
  let ?T = "no_topics([] := {0, 1})"
  from mt_op_refines [OF mt_inv_new, of "MAdd [] 0"] obtain t1 where t1: "mt_add [] 0 mt_new = Some (True, t1)" "mt_inv (no_topics([] := {0})) t1"
    "unat (num_prefixes t1) \<le> 1" by (auto simp: mt_new_def no_topics_def)
  have "insert 1 ((no_topics([] := {0})) []) = {0, 1 :: nat}" by auto
  with mt_op_refines [OF t1(2), of "MAdd [] 1"] t1(3) obtain t where t: "mt_add [] 1 t1 = Some (False, t)" "mt_inv ?T t" by auto
  let ?s = "(three_pub t)\<lparr>xp_lossy := False, xp_manual := True, xp_send_last_pipe := True, xp_last_pipe := Some 1\<rparr>"
  have sub: "subscribed ?T [] = {0, 1}" by (auto simp: subscribed_def no_topics_def)
  have el: "eligibles (xp_dist ?s) = {0, 1, 2}" by (auto simp: three_pub_def xpub_new_def front_def)
  have pre: "dist_shape (xp_dist ?s)" "\<not> di_more (xp_dist ?s)" "mt_inv ?T (xp_subscriptions ?s)" "\<not> xp_more_send ?s" "\<not> xp_lossy ?s"
    "xp_manual ?s" "xp_send_last_pipe ?s" "xp_last_pipe ?s = Some 1" "\<not> xp_invert_matching ?s"
    using t(2) by (simp_all add: three_pub_def xpub_new_def dist_shape_def)
  have "msg_bytes part_msg (net_heap full_out) = Some []"
    by (simp add: part_msg_def msg_init_def fresh_msg_def set_flags_def msg_bytes_def msg_data_def msg_size_def)
  moreover have "1 \<in> eligibles (xp_dist ?s) \<inter> subscribed ?T []" unfolding sub el by simp
  moreover have "po_check_hwm net_ops 1 full_out = Some False"
    by (simp add: net_ops_def full_out_def check_hwm_def new_pipe_def)
  ultimately have "\<exists>s'. xpub_send (net_pub (\<lambda>_. None)) part_msg ?s full_out = Some (Some EAGAIN, s', full_out)
      \<and> addressed ?T [] ?s = {1} \<and> addressed ?T [] s' = eligibles (xp_dist ?s) \<inter> subscribed ?T []"
    by (rule failed_send_forgets_last_pipe [OF pre])
  then show ?thesis unfolding sub el using t1(1) t(1) by auto
qed

end
