(* ===== verification/Patterns.thy ===== *)
theory Patterns
  imports Xsub Lb
begin

text \<open>
  The socket types that put a fair queue or a load balancer behind the socket interface: \<^verbatim>\<open>pair_t\<close>, \<^verbatim>\<open>push_t\<close>, \<^verbatim>\<open>pull_t\<close> and \<^verbatim>\<open>dealer_t\<close>
  (pair.cpp, push.cpp, pull.cpp, dealer.cpp). The effects on pipes that the fair queue and the load balancer do not need are in \<open>peer_ops\<close>.
\<close>

record 'w peer_ops =
  pe_sock :: "'w sock_ops"
  pe_terminate :: "nat \<Rightarrow> bool \<Rightarrow> 'w \<Rightarrow> 'w option"
  pe_set_nodelay :: "nat \<Rightarrow> 'w \<Rightarrow> 'w option"
  pe_new_msg :: "bytes \<Rightarrow> 'w \<Rightarrow> (msg \<times> 'w) option"
  pe_set_metadata :: "nat \<Rightarrow> msg \<Rightarrow> 'w \<Rightarrow> (msg \<times> 'w) option"
  pe_routing_id :: "nat \<Rightarrow> 'w \<Rightarrow> bytes option"
  pe_set_routing_id :: "nat \<Rightarrow> bytes \<Rightarrow> 'w \<Rightarrow> 'w option"

abbreviation pe_pipe :: "'w peer_ops \<Rightarrow> 'w pipe_ops" where
  "pe_pipe ops \<equiv> so_pipe (pe_sock ops)"

subsection \<open>Exclusive pairs\<close>

text \<open>The state of a PAIR socket is its pipe.\<close>

type_synonym pair_sock = "nat option"

definition pair_new :: pair_sock where
  "pair_new = None"

definition pair_destroy :: "pair_sock \<Rightarrow> unit option" where
  "pair_destroy s = zmq_assert (s = None)"

definition pair_attach_pipe :: "'w peer_ops \<Rightarrow> nat \<Rightarrow> pair_sock \<Rightarrow> 'w \<Rightarrow> (pair_sock \<times> 'w) option" where
  "pair_attach_pipe ops p s w =
     (case s of None \<Rightarrow> Some (Some p, w) | Some _ \<Rightarrow> do { w1 \<leftarrow> pe_terminate ops p False w; Some (s, w1) })"

definition pair_pipe_terminated :: "nat \<Rightarrow> pair_sock \<Rightarrow> pair_sock" where
  "pair_pipe_terminated p s = (if s = Some p then None else s)"

definition pair_send :: "'w peer_ops \<Rightarrow> msg \<Rightarrow> pair_sock \<Rightarrow> 'w \<Rightarrow> (errno option \<times> 'w) option" where
  "pair_send ops m s w = (case s of
       None \<Rightarrow> Some (Some EAGAIN, w)
     | Some p \<Rightarrow> do {
         (ok, w1) \<leftarrow> po_write (pe_pipe ops) p m w;
         if \<not> ok then Some (Some EAGAIN, w1)
         else if \<not> has_more m then do { w2 \<leftarrow> po_flush (pe_pipe ops) p w1; Some (None, w2) }
         else Some (None, w1)
       })"

definition pair_recv :: "'w peer_ops \<Rightarrow> msg \<Rightarrow> pair_sock \<Rightarrow> 'w \<Rightarrow> ((errno + msg) \<times> 'w) option" where
  "pair_recv ops m s w = do {
     w1 \<leftarrow> po_close (pe_pipe ops) m w;
     (case s of
        None \<Rightarrow> Some (Inl EAGAIN, w1)
      | Some p \<Rightarrow> do {
          (v, w2) \<leftarrow> po_read (pe_pipe ops) p w1;
          Some (case v of None \<Rightarrow> Inl EAGAIN | Some m' \<Rightarrow> Inr m', w2)
        })
   }"

definition pair_has_in :: "'w peer_ops \<Rightarrow> pair_sock \<Rightarrow> 'w \<Rightarrow> (bool \<times> 'w) option" where
  "pair_has_in ops s w = (case s of None \<Rightarrow> Some (False, w) | Some p \<Rightarrow> po_check_read (pe_pipe ops) p w)"

definition pair_has_out :: "'w peer_ops \<Rightarrow> pair_sock \<Rightarrow> 'w \<Rightarrow> (bool \<times> 'w) option" where
  "pair_has_out ops s w = (case s of None \<Rightarrow> Some (False, w) | Some p \<Rightarrow> po_check_write (pe_pipe ops) p w)"

subsection \<open>Pipelines\<close>

definition push_attach_pipe :: "'w peer_ops \<Rightarrow> nat \<Rightarrow> lb \<Rightarrow> 'w \<Rightarrow> (lb \<times> 'w) option" where
  "push_attach_pipe ops p l w = do { w1 \<leftarrow> pe_set_nodelay ops p w; Some (lb_attach p l, w1) }"

definition push_write_activated :: "nat \<Rightarrow> lb \<Rightarrow> lb" where
  "push_write_activated p l = lb_activated p l"

definition push_pipe_terminated :: "nat \<Rightarrow> lb \<Rightarrow> lb" where
  "push_pipe_terminated p l = lb_pipe_terminated p l"

definition push_send :: "'w peer_ops \<Rightarrow> msg \<Rightarrow> lb \<Rightarrow> 'w \<Rightarrow> (lb_result \<times> lb \<times> 'w) option" where
  "push_send ops m l w = lb_sendpipe (pe_pipe ops) m l w"

definition push_has_out :: "'w peer_ops \<Rightarrow> lb \<Rightarrow> 'w \<Rightarrow> (bool \<times> lb \<times> 'w) option" where
  "push_has_out ops l w = lb_has_out (pe_pipe ops) l w"

definition pull_attach_pipe :: "nat \<Rightarrow> fq \<Rightarrow> fq" where
  "pull_attach_pipe p f = fq_attach p f"

definition pull_read_activated :: "nat \<Rightarrow> fq \<Rightarrow> fq" where
  "pull_read_activated p f = fq_activated p f"

definition pull_pipe_terminated :: "nat \<Rightarrow> fq \<Rightarrow> fq" where
  "pull_pipe_terminated p f = fq_pipe_terminated p f"

definition pull_recv :: "'w peer_ops \<Rightarrow> msg \<Rightarrow> fq \<Rightarrow> 'w \<Rightarrow> ((errno + nat \<times> msg) \<times> fq \<times> 'w) option" where
  "pull_recv ops m f w = fq_recvpipe (pe_pipe ops) m f w"

definition pull_has_in :: "'w peer_ops \<Rightarrow> fq \<Rightarrow> 'w \<Rightarrow> (bool \<times> fq \<times> 'w) option" where
  "pull_has_in ops f w = fq_has_in (pe_pipe ops) f w"

subsection \<open>Dealers\<close>

record dealer =
  de_fq :: fq
  de_lb :: lb
  de_probe_router :: bool

definition dealer_new :: dealer where
  "dealer_new = \<lparr>de_fq = fq_new, de_lb = lb_new, de_probe_router = False\<rparr>"

text \<open>The empty message by which a new pipe makes itself known to a router; it is not an error when it cannot be written.\<close>

definition send_probe :: "'w peer_ops \<Rightarrow> nat \<Rightarrow> 'w \<Rightarrow> 'w option" where
  "send_probe ops p w = do {
     (ok, w1) \<leftarrow> po_write (pe_pipe ops) p msg_init w;
     w2 \<leftarrow> po_flush (pe_pipe ops) p w1;
     po_close (pe_pipe ops) msg_init w2
   }"

definition dealer_attach_pipe :: "'w peer_ops \<Rightarrow> nat \<Rightarrow> 'a dealer_scheme \<Rightarrow> 'w \<Rightarrow> ('a dealer_scheme \<times> 'w) option" where
  "dealer_attach_pipe ops p s w = do {
     w1 \<leftarrow> (if de_probe_router s then send_probe ops p w else Some w);
     Some (s\<lparr>de_fq := fq_attach p (de_fq s), de_lb := lb_attach p (de_lb s)\<rparr>, w1)
   }"

definition OPT_PROBE_ROUTER :: int where "OPT_PROBE_ROUTER = 51"

text \<open>The value of an option of type \<^verbatim>\<open>int\<close>: 0 when the length is another one; a null pointer of that length cannot be read.\<close>

definition int_value :: "optval \<Rightarrow> (bool \<times> int) option" where
  "int_value v = (if optvallen v = 4 then (case v of NullVal _ \<Rightarrow> None | Val b \<Rightarrow> Some (True, int_of_bytes b)) else Some (False, 0))"

definition dealer_setsockopt :: "int \<Rightarrow> optval \<Rightarrow> 'a dealer_scheme \<Rightarrow> (errno option \<times> 'a dealer_scheme) option" where
  "dealer_setsockopt opt v s = do {
     (is_int, val) \<leftarrow> int_value v;
     if opt = OPT_PROBE_ROUTER \<and> is_int \<and> val \<ge> 0 then Some (None, s\<lparr>de_probe_router := (val \<noteq> 0)\<rparr>)
     else Some (Some EINVAL, s)
   }"

definition dealer_sendpipe :: "'w peer_ops \<Rightarrow> msg \<Rightarrow> 'a dealer_scheme \<Rightarrow> 'w \<Rightarrow> (lb_result \<times> 'a dealer_scheme \<times> 'w) option" where
  "dealer_sendpipe ops m s w = do { (r, l, w1) \<leftarrow> lb_sendpipe (pe_pipe ops) m (de_lb s) w; Some (r, s\<lparr>de_lb := l\<rparr>, w1) }"

definition dealer_recvpipe :: "'w peer_ops \<Rightarrow> msg \<Rightarrow> 'a dealer_scheme \<Rightarrow> 'w \<Rightarrow> ((errno + nat \<times> msg) \<times> 'a dealer_scheme \<times> 'w) option" where
  "dealer_recvpipe ops m s w = do { (r, f, w1) \<leftarrow> fq_recvpipe (pe_pipe ops) m (de_fq s) w; Some (r, s\<lparr>de_fq := f\<rparr>, w1) }"

definition dealer_has_in :: "'w peer_ops \<Rightarrow> 'a dealer_scheme \<Rightarrow> 'w \<Rightarrow> (bool \<times> 'a dealer_scheme \<times> 'w) option" where
  "dealer_has_in ops s w = do { (b, f, w1) \<leftarrow> fq_has_in (pe_pipe ops) (de_fq s) w; Some (b, s\<lparr>de_fq := f\<rparr>, w1) }"

definition dealer_has_out :: "'w peer_ops \<Rightarrow> 'a dealer_scheme \<Rightarrow> 'w \<Rightarrow> (bool \<times> 'a dealer_scheme \<times> 'w) option" where
  "dealer_has_out ops s w = do { (b, l, w1) \<leftarrow> lb_has_out (pe_pipe ops) (de_lb s) w; Some (b, s\<lparr>de_lb := l\<rparr>, w1) }"

definition dealer_read_activated :: "nat \<Rightarrow> 'a dealer_scheme \<Rightarrow> 'a dealer_scheme" where
  "dealer_read_activated p s = s\<lparr>de_fq := fq_activated p (de_fq s)\<rparr>"

definition dealer_write_activated :: "nat \<Rightarrow> 'a dealer_scheme \<Rightarrow> 'a dealer_scheme" where
  "dealer_write_activated p s = s\<lparr>de_lb := lb_activated p (de_lb s)\<rparr>"

definition dealer_pipe_terminated :: "nat \<Rightarrow> 'a dealer_scheme \<Rightarrow> 'a dealer_scheme" where
  "dealer_pipe_terminated p s = s\<lparr>de_fq := fq_pipe_terminated p (de_fq s), de_lb := lb_pipe_terminated p (de_lb s)\<rparr>"

end
