(* ===== verification/Req.thy ===== *)
theory Req
  imports Patterns
begin

text \<open>
  Requests: \<^verbatim>\<open>req_t\<close> and the session that guards the replies, \<^verbatim>\<open>req_session_t\<close> (req.hpp, req.cpp). A request socket is a dealer that puts an
  envelope before each request, and accepts the reply that comes back in such an envelope from the pipe the request went to.
\<close>

record req = dealer +
  rq_receiving_reply :: bool
  rq_message_begins :: bool
  rq_reply_pipe :: "nat option"
  rq_id_frames :: bool
  rq_request_id :: u32
  rq_strict :: bool

text \<open>The first request id is a random number.\<close>

definition req_new :: "u32 \<Rightarrow> req" where
  "req_new rnd = dealer.extend dealer_new \<lparr>rq_receiving_reply = False, rq_message_begins = True, rq_reply_pipe = None,
     rq_id_frames = False, rq_request_id = rnd, rq_strict = True\<rparr>"

text \<open>The bytes of the request id as the host stores them.\<close>

definition id_bytes :: "u32 \<Rightarrow> bytes" where
  "id_bytes i = le_bytes 4 (unat i)"

definition rc_of :: "lb_result \<Rightarrow> errno option" where
  "rc_of r = (case r of Refused c e \<Rightarrow> Some e | _ \<Rightarrow> None)"

text \<open>\<^verbatim>\<open>sendpipe\<close> with \<open>_reply_pipe\<close> as the variable that gets the pipe; a dropped message leaves it alone.\<close>

definition send_to_reply_pipe :: "'w peer_ops \<Rightarrow> msg \<Rightarrow> req \<Rightarrow> 'w \<Rightarrow> (errno option \<times> req \<times> 'w) option" where
  "send_to_reply_pipe ops m s w = do {
     (r, s1, w1) \<leftarrow> dealer_sendpipe ops m s w;
     Some (rc_of r, (case r of SentTo p \<Rightarrow> s1\<lparr>rq_reply_pipe := Some p\<rparr> | _ \<Rightarrow> s1), w1)
   }"

text \<open>Eating the messages that have arrived; each one is closed, the last attempt leaves an empty one.\<close>

partial_function (option) req_drain :: "'w peer_ops \<Rightarrow> req \<Rightarrow> 'w \<Rightarrow> (req \<times> 'w) option" where
  "req_drain ops s w = do {
     (r, s1, w1) \<leftarrow> dealer_recvpipe ops msg_init s w;
     (case r of
        Inl e \<Rightarrow> Some (s1, w1)
      | Inr (p, m) \<Rightarrow> do { w2 \<leftarrow> po_close (pe_pipe ops) m w1; req_drain ops s1 w2 })
   }"

text \<open>The envelope: the request id, when it is enabled, and the empty frame.\<close>

definition req_send_id :: "'w peer_ops \<Rightarrow> req \<Rightarrow> 'w \<Rightarrow> (errno option \<times> req \<times> 'w) option" where
  "req_send_id ops s w =
     (if rq_id_frames s then do {
        let s1 = s\<lparr>rq_request_id := rq_request_id s + 1\<rparr>;
        (m, w1) \<leftarrow> pe_new_msg ops (id_bytes (rq_request_id s1)) w;
        send_to_reply_pipe ops (set_flags f_more m) s1 w1
      } else Some (None, s, w))"

definition req_begin :: "'w peer_ops \<Rightarrow> req \<Rightarrow> 'w \<Rightarrow> (errno option \<times> req \<times> 'w) option" where
  "req_begin ops s w = do {
     (r1, s1, w1) \<leftarrow> req_send_id ops (s\<lparr>rq_reply_pipe := None\<rparr>) w;
     if r1 \<noteq> None then Some (r1, s1, w1)
     else do {
       (r2, s2, w2) \<leftarrow> send_to_reply_pipe ops (set_flags f_more msg_init) s1 w1;
       if r2 \<noteq> None then Some (r2, s2, w2)
       else do {
         zmq_assert (rq_reply_pipe s2 \<noteq> None);
         (s3, w3) \<leftarrow> req_drain ops (s2\<lparr>rq_message_begins := False\<rparr>) w2;
         Some (None, s3, w3)
       }
     }
   }"

definition req_send :: "'w peer_ops \<Rightarrow> msg \<Rightarrow> req \<Rightarrow> 'w \<Rightarrow> (errno option \<times> req \<times> 'w) option" where
  "req_send ops m s w =
     (if rq_receiving_reply s \<and> rq_strict s then Some (Some EFSM, s, w)
      else do {
        let s1 = (if rq_receiving_reply s then s\<lparr>rq_receiving_reply := False, rq_message_begins := True\<rparr> else s);
        (r, s2, w1) \<leftarrow> (if rq_message_begins s1 then req_begin ops s1 w else Some (None, s1, w));
        if r \<noteq> None then Some (r, s2, w1)
        else do {
          (r2, s3, w2) \<leftarrow> dealer_sendpipe ops m s2 w1;
          (case rc_of r2 of
             Some e \<Rightarrow> Some (Some e, s3, w2)
           | None \<Rightarrow> Some (None, if \<not> has_more m then s3\<lparr>rq_receiving_reply := True, rq_message_begins := True\<rparr> else s3, w2))
        }
      })"

text \<open>Receiving: parts of other pipes than the one the request went to are dropped. \<open>m\<close> is the message variable.\<close>

partial_function (option) recv_reply_pipe :: "'w peer_ops \<Rightarrow> msg \<Rightarrow> req \<Rightarrow> 'w \<Rightarrow> ((errno + nat \<times> msg) \<times> req \<times> 'w) option" where
  "recv_reply_pipe ops m s w = do {
     (r, s1, w1) \<leftarrow> dealer_recvpipe ops m s w;
     (case r of
        Inl e \<Rightarrow> Some (r, s1, w1)
      | Inr (p, m1) \<Rightarrow>
          if rq_reply_pipe s1 = None \<or> rq_reply_pipe s1 = Some p then Some (r, s1, w1)
          else recv_reply_pipe ops m1 s1 w1)
   }"

text \<open>The remaining frames of a message that is not wanted.\<close>

partial_function (option) skip_frames :: "'w peer_ops \<Rightarrow> msg \<Rightarrow> req \<Rightarrow> 'w \<Rightarrow> (msg \<times> req \<times> 'w) option" where
  "skip_frames ops m s w =
     (if has_more m then do {
        (r, s1, w1) \<leftarrow> recv_reply_pipe ops m s w;
        zmq_assert (\<not> isl r);
        skip_frames ops (snd (projr r)) s1 w1
      } else Some (m, s, w))"

text \<open>The first frame of a reply, when request ids are enabled: whether it is the one of the request.\<close>

definition req_check_id :: "'w peer_ops \<Rightarrow> msg \<Rightarrow> req \<Rightarrow> 'w \<Rightarrow> (bool \<times> (errno + msg) \<times> req \<times> 'w) option" where
  "req_check_id ops m s w =
     (if rq_id_frames s then do {
        (r, s1, w1) \<leftarrow> recv_reply_pipe ops m s w;
        (case r of
           Inl e \<Rightarrow> Some (True, Inl e, s1, w1)
         | Inr (p, m1) \<Rightarrow> do {
             b \<leftarrow> so_bytes (pe_sock ops) m1 w1;
             Some (has_more m1 \<and> b = id_bytes (rq_request_id s1), Inr m1, s1, w1)
           })
      } else Some (True, Inr m, s, w))"

text \<open>The loop that looks for the envelope of the reply.\<close>

partial_function (option) req_find_reply :: "'w peer_ops \<Rightarrow> msg \<Rightarrow> req \<Rightarrow> 'w \<Rightarrow> ((errno + msg) \<times> req \<times> 'w) option" where
  "req_find_reply ops m s w = do {
     (id_ok, r1, s1, w1) \<leftarrow> req_check_id ops m s w;
     (case r1 of
        Inl e \<Rightarrow> Some (Inl e, s1, w1)
      | Inr m1 \<Rightarrow>
          if \<not> id_ok then do {
            (m2, s2, w2) \<leftarrow> skip_frames ops m1 s1 w1;
            req_find_reply ops m2 s2 w2
          } else do {
            (r, s2, w2) \<leftarrow> recv_reply_pipe ops m1 s1 w1;
            (case r of
               Inl e \<Rightarrow> Some (Inl e, s2, w2)
             | Inr (p, m2) \<Rightarrow> do {
                 b \<leftarrow> so_bytes (pe_sock ops) m2 w2;
                 if \<not> has_more m2 \<or> b \<noteq> [] then do {
                   (m3, s3, w3) \<leftarrow> skip_frames ops m2 s2 w2;
                   req_find_reply ops m3 s3 w3
                 } else Some (Inr m2, s2\<lparr>rq_message_begins := False\<rparr>, w2)
               })
          })
   }"

declare req_drain.simps [code] recv_reply_pipe.simps [code] skip_frames.simps [code] req_find_reply.simps [code]

definition req_recv :: "'w peer_ops \<Rightarrow> msg \<Rightarrow> req \<Rightarrow> 'w \<Rightarrow> ((errno + msg) \<times> req \<times> 'w) option" where
  "req_recv ops m s w =
     (if \<not> rq_receiving_reply s then Some (Inl EFSM, s, w)
      else do {
        (r1, s1, w1) \<leftarrow> (if rq_message_begins s then req_find_reply ops m s w else Some (Inr m, s, w));
        if isl r1 then Some (r1, s1, w1)
        else do {
          (r, s2, w2) \<leftarrow> recv_reply_pipe ops (projr r1) s1 w1;
          (case r of
             Inl e \<Rightarrow> Some (Inl e, s2, w2)
           | Inr (p, m2) \<Rightarrow>
               Some (Inr m2, if \<not> has_more m2 then s2\<lparr>rq_receiving_reply := False, rq_message_begins := True\<rparr> else s2, w2))
        }
      })"

definition req_has_in :: "'w peer_ops \<Rightarrow> req \<Rightarrow> 'w \<Rightarrow> (bool \<times> req \<times> 'w) option" where
  "req_has_in ops s w = (if \<not> rq_receiving_reply s then Some (False, s, w) else dealer_has_in ops s w)"

definition req_has_out :: "'w peer_ops \<Rightarrow> req \<Rightarrow> 'w \<Rightarrow> (bool \<times> req \<times> 'w) option" where
  "req_has_out ops s w = (if rq_receiving_reply s \<and> rq_strict s then Some (False, s, w) else dealer_has_out ops s w)"

definition OPT_REQ_CORRELATE :: int where "OPT_REQ_CORRELATE = 52"
definition OPT_REQ_RELAXED :: int where "OPT_REQ_RELAXED = 53"

definition req_setsockopt :: "int \<Rightarrow> optval \<Rightarrow> req \<Rightarrow> (errno option \<times> req) option" where
  "req_setsockopt opt v s = do {
     (is_int, val) \<leftarrow> int_value v;
     if opt = OPT_REQ_CORRELATE \<and> is_int \<and> val \<ge> 0 then Some (None, s\<lparr>rq_id_frames := (val \<noteq> 0)\<rparr>)
     else if opt = OPT_REQ_RELAXED \<and> is_int \<and> val \<ge> 0 then Some (None, s\<lparr>rq_strict := (val = 0)\<rparr>)
     else dealer_setsockopt opt v s
   }"

definition req_pipe_terminated :: "nat \<Rightarrow> req \<Rightarrow> req" where
  "req_pipe_terminated p s = dealer_pipe_terminated p (if rq_reply_pipe s = Some p then s\<lparr>rq_reply_pipe := None\<rparr> else s)"

subsection \<open>The session of a request socket\<close>

datatype req_state = Bottom | RequestId | ReqBody

text \<open>A message from the peer with its flags and size: the new state, and whether it is passed on; \<open>None\<close> is the failure with \<^verbatim>\<open>EFAULT\<close>, at which the engine
  drops the connection.\<close>

definition req_session_push :: "byte \<Rightarrow> nat \<Rightarrow> req_state \<Rightarrow> (bool \<times> req_state) option" where
  "req_session_push flags sz st =
     (if flags AND f_command \<noteq> 0 then Some (False, st)
      else (case st of
          Bottom \<Rightarrow>
            if flags = f_more \<and> sz = 4 then Some (True, RequestId)
            else if flags = f_more \<and> sz = 0 then Some (True, ReqBody)
            else None
        | RequestId \<Rightarrow> if flags = f_more \<and> sz = 0 then Some (True, ReqBody) else None
        | ReqBody \<Rightarrow> if flags = f_more then Some (True, ReqBody) else if flags = 0 then Some (True, Bottom) else None))"

definition req_session_reset :: "req_state \<Rightarrow> req_state" where
  "req_session_reset st = Bottom"

end
