(* ===== verification/Req_Facts.thy ===== *)
theory Req_Facts
  imports Req
begin

text \<open>
  What a request socket guarantees: the calls that succeed alternate between whole requests and whole replies, and the reply handed out is
  one that came back in the envelope of the request from the pipe it was sent to.
\<close>

subsection \<open>Requests and replies alternate\<close>

datatype req_phase = Idle | Sending | Waiting | Receiving

definition phase :: "req \<Rightarrow> req_phase" where
  "phase s = (if rq_receiving_reply s then (if rq_message_begins s then Waiting else Receiving)
              else (if rq_message_begins s then Idle else Sending))"

lemma phase_simps [simp]:
  "phase (s\<lparr>de_fq := f\<rparr>) = phase s" "phase (s\<lparr>de_lb := l\<rparr>) = phase s" "phase (s\<lparr>de_probe_router := b\<rparr>) = phase s"
  "phase (s\<lparr>rq_reply_pipe := p\<rparr>) = phase s" "phase (s\<lparr>rq_request_id := i\<rparr>) = phase s" "phase (s\<lparr>rq_id_frames := b\<rparr>) = phase s"
  "phase (s\<lparr>rq_strict := b\<rparr>) = phase s"
  by (simp_all add: phase_def)

text \<open>What the envelope and the queues change is not the phase.\<close>

definition same_phase :: "req \<Rightarrow> req \<Rightarrow> bool" where
  "same_phase s s' \<longleftrightarrow> rq_receiving_reply s' = rq_receiving_reply s \<and> rq_message_begins s' = rq_message_begins s \<and> rq_strict s' = rq_strict s"

lemma same_phase_refl [simp]: "same_phase s s"
  by (simp add: same_phase_def)

lemma same_phase_trans: "same_phase s s1 \<Longrightarrow> same_phase s1 s2 \<Longrightarrow> same_phase s s2"
  by (simp add: same_phase_def)

lemma same_phase_phase: "same_phase s s' \<Longrightarrow> phase s' = phase s \<and> rq_strict s' = rq_strict s"
  by (simp add: same_phase_def phase_def)

lemma recvpipe_phase: "dealer_recvpipe ops m s w = Some (r, s', w') \<Longrightarrow> same_phase s s'"
  by (auto simp: dealer_recvpipe_def bind_eq_Some_conv same_phase_def)

lemma sendpipe_phase: "dealer_sendpipe ops m s w = Some (r, s', w') \<Longrightarrow> same_phase s s'"
  by (auto simp: dealer_sendpipe_def bind_eq_Some_conv same_phase_def)

lemma reply_send_phase: "send_to_reply_pipe ops m s w = Some (r, s', w') \<Longrightarrow> same_phase s s'"
proof -
  assume "send_to_reply_pipe ops m s w = Some (r, s', w')"
  then obtain r' s1 where d: "dealer_sendpipe ops m s w = Some (r', s1, w')" "s' = (case r' of SentTo p \<Rightarrow> s1\<lparr>rq_reply_pipe := Some p\<rparr> | _ \<Rightarrow> s1)"
    by (auto simp: send_to_reply_pipe_def bind_eq_Some_conv)
  have "same_phase s1 s'" by (simp add: d(2) same_phase_def split: lb_result.split)
  then show ?thesis using sendpipe_phase [OF d(1)] by (rule same_phase_trans [rotated])
qed

lemma drain_phase: "req_drain ops s w = Some r \<Longrightarrow> same_phase s (fst r)"
proof (rule req_drain.raw_induct [where P = "\<lambda>ops s w r. same_phase s (fst r)"], goal_cases)
  case (1 drain ops s w r)
  obtain r1 s1 w1 where d: "dealer_recvpipe ops msg_init s w = Some (r1, s1, w1)" using 1(3) by (auto simp: bind_eq_Some_conv)
  note p = recvpipe_phase [OF d]
  show ?case
  proof (cases r1)
    case (Inl e)
    with 1(3) d p show ?thesis by (cases r) simp
  next
    case (Inr x)
    then obtain w2 where "drain ops s1 w2 = Some r" using 1(3) d by (auto simp: bind_eq_Some_conv split: prod.splits)
    with 1(2) p show ?thesis by (blast intro: same_phase_trans)
  qed
qed

lemma recv_reply_phase: "recv_reply_pipe ops m s w = Some r \<Longrightarrow> same_phase s (fst (snd r))"
proof (rule recv_reply_pipe.raw_induct [where P = "\<lambda>ops m s w r. same_phase s (fst (snd r))"], goal_cases)
  case (1 rec ops m s w r)
  obtain r1 s1 w1 where d: "dealer_recvpipe ops m s w = Some (r1, s1, w1)" using 1(3) by (auto simp: bind_eq_Some_conv)
  note p = recvpipe_phase [OF d]
  show ?case
  proof (cases r1)
    case (Inl e)
    with 1(3) d p show ?thesis by auto
  next
    case (Inr x)
    then consider (here) "r = (r1, s1, w1)" | (further) m' where "rec ops m' s1 w1 = Some r"
      using 1(3) d by (auto split: prod.splits if_splits)
    then show ?thesis
    proof cases
      case here
      with p show ?thesis by simp
    next
      case further
      with same_phase_trans [OF p 1(2) [OF further]] show ?thesis by simp
    qed
  qed
qed

lemma skip_frames_phase: "skip_frames ops m s w = Some r \<Longrightarrow> same_phase s (fst (snd r))"
proof (rule skip_frames.raw_induct [where P = "\<lambda>ops m s w r. same_phase s (fst (snd r))"], goal_cases)
  case (1 rec ops m s w r)
  then consider "r = (m, s, w)" | r1 s1 w1 m' where "recv_reply_pipe ops m s w = Some (r1, s1, w1)" "rec ops m' s1 w1 = Some r"
    by (auto simp: bind_eq_Some_conv split: if_splits)
  then show ?case
  proof cases
    case 2
    from recv_reply_phase [OF 2(1)] 1(2) [OF 2(2)] show ?thesis by (auto intro: same_phase_trans)
  qed simp
qed

text \<open>Looking for the reply: the phase stays \<open>Waiting\<close> until an envelope is accepted.\<close>

definition found_phase :: "req \<Rightarrow> (errno + msg) \<times> req \<times> 'w \<Rightarrow> bool" where
  "found_phase s r \<longleftrightarrow> (case fst r of
     Inl e \<Rightarrow> same_phase s (fst (snd r))
   | Inr m \<Rightarrow> same_phase (s\<lparr>rq_message_begins := False\<rparr>) (fst (snd r)))"

lemma found_phase_trans: "same_phase s s1 \<Longrightarrow> found_phase s1 r \<Longrightarrow> found_phase s r"
  by (cases "fst r") (auto simp: found_phase_def same_phase_def)

lemma find_reply_phase: "req_find_reply ops m s w = Some r \<Longrightarrow> found_phase s r"
proof (rule req_find_reply.raw_induct [where P = "\<lambda>ops m s w r. found_phase s r"], goal_cases)
  case (1 rec ops m s w r)
  obtain id_ok r1 s1 w1 where h: "req_check_id ops m s w = Some (id_ok, r1, s1, w1)"
    using 1(3) by (cases "req_check_id ops m s w") auto
  have p1: "same_phase s s1"
  proof (cases "rq_id_frames s")
    case True
    with h obtain r2 s2 w2 where q: "recv_reply_pipe ops m s w = Some (r2, s2, w2)" by (auto simp: req_check_id_def bind_eq_Some_conv)
    then have "s2 = s1" using h True by (cases r2) (auto simp: req_check_id_def bind_eq_Some_conv)
    with recv_reply_phase [OF q] show ?thesis by simp
  qed (use h in \<open>simp add: req_check_id_def\<close>)
  show ?case
  proof (rule found_phase_trans [OF p1])
    note run = 1(3) [unfolded h, simplified]
    show "found_phase s1 r"
    proof (cases r1)
      case (Inl e)
      with run show ?thesis by (auto simp: found_phase_def)
    next
      case (Inr m1)
      show ?thesis
      proof (cases id_ok)
        case False
        with run Inr obtain m2 s2 w2 where k: "skip_frames ops m1 s1 w1 = Some (m2, s2, w2)" "rec ops m2 s2 w2 = Some r"
          by (auto simp: bind_eq_Some_conv)
        from found_phase_trans [OF _ 1(2) [OF k(2)]] skip_frames_phase [OF k(1)] show ?thesis by simp
      next
        case True
        with run Inr obtain r2 s2 w2 where q: "recv_reply_pipe ops m1 s1 w1 = Some (r2, s2, w2)" by (auto simp: bind_eq_Some_conv)
        have p2: "same_phase s1 s2" using recv_reply_phase [OF q] by simp
        show ?thesis
        proof (cases r2)
          case (Inl e)
          with run Inr True q p2 show ?thesis by (auto simp: found_phase_def)
        next
          fix x assume r2: "r2 = Inr x"
          obtain p m2 where x: "x = (p, m2)" by (cases x)
          obtain b where b: "so_bytes (pe_sock ops) m2 w2 = Some b" using run Inr True q r2 x by (auto simp: bind_eq_Some_conv)
          show ?thesis
          proof (cases "\<not> has_more m2 \<or> b \<noteq> []")
            case True
            then obtain m3 s3 w3 where k: "skip_frames ops m2 s2 w2 = Some (m3, s3, w3)" "rec ops m3 s3 w3 = Some r"
              using run Inr \<open>id_ok\<close> q r2 x b by (auto simp: bind_eq_Some_conv)
            have "same_phase s1 s3" using p2 skip_frames_phase [OF k(1)] by (auto intro: same_phase_trans)
            from found_phase_trans [OF this 1(2) [OF k(2)]] show ?thesis .
          next
            case False
            then have "r = (Inr m2, s2\<lparr>rq_message_begins := False\<rparr>, w2)" using run Inr \<open>id_ok\<close> q r2 x b by auto
            with p2 show ?thesis by (simp add: found_phase_def same_phase_def)
          qed
        qed
      qed
    qed
  qed
qed

text \<open>The calls of an application, and what else happens to the socket.\<close>

datatype req_call = CSend msg | CRecv | CAttach nat | CTerminated nat | CReadable nat | CWritable nat

fun req_do :: "'w peer_ops \<Rightarrow> req_call \<Rightarrow> req \<Rightarrow> 'w \<Rightarrow> ((errno + (bool \<times> msg) option) \<times> req \<times> 'w) option" where
  "req_do ops (CSend m) s w = map_option (\<lambda>(r, s', w'). (case r of None \<Rightarrow> Inr (Some (True, m)) | Some e \<Rightarrow> Inl e, s', w')) (req_send ops m s w)"
| "req_do ops CRecv s w = map_option (\<lambda>(r, s', w'). (case r of Inl e \<Rightarrow> Inl e | Inr m \<Rightarrow> Inr (Some (False, m)), s', w')) (req_recv ops msg_init s w)"
| "req_do ops (CAttach p) s w = map_option (\<lambda>(s', w'). (Inr None, s', w')) (dealer_attach_pipe ops p s w)"
| "req_do ops (CTerminated p) s w = Some (Inr None, req_pipe_terminated p s, w)"
| "req_do ops (CReadable p) s w = Some (Inr None, dealer_read_activated p s, w)"
| "req_do ops (CWritable p) s w = Some (Inr None, dealer_write_activated p s, w)"

fun req_calls :: "'w peer_ops \<Rightarrow> req_call list \<Rightarrow> req \<Rightarrow> 'w \<Rightarrow> ((errno + (bool \<times> msg) option) list \<times> req \<times> 'w) option" where
  "req_calls ops [] s w = Some ([], s, w)"
| "req_calls ops (c # cs) s w = do {
     (r, s1, w1) \<leftarrow> req_do ops c s w;
     (rs, s2, w2) \<leftarrow> req_calls ops cs s1 w1;
     Some (r # rs, s2, w2)
   }"

text \<open>The parts that were sent (\<open>True\<close>) and received (\<open>False\<close>), each with whether more follow.\<close>

fun parts_done :: "(errno + (bool \<times> msg) option) list \<Rightarrow> (bool \<times> bool) list" where
  "parts_done [] = []"
| "parts_done (Inr (Some (b, m)) # rs) = (b, has_more m) # parts_done rs"
| "parts_done (r # rs) = parts_done rs"

text \<open>A request of \<open>i + 1\<close> parts and its reply of \<open>j + 1\<close> parts.\<close>

definition exchange :: "nat \<times> nat \<Rightarrow> (bool \<times> bool) list" where
  "exchange ij = replicate (fst ij) (True, True) @ [(True, False)] @ replicate (snd ij) (False, True) @ [(False, False)]"

fun lockstep :: "req_phase \<Rightarrow> (bool \<times> bool) list \<Rightarrow> bool" where
  "lockstep ph [] \<longleftrightarrow> True"
| "lockstep ph ((b, fol) # es) \<longleftrightarrow>
     (if b then (ph = Idle \<or> ph = Sending) \<and> lockstep (if fol then Sending else Waiting) es
      else (ph = Waiting \<or> ph = Receiving) \<and> lockstep (if fol then Receiving else Idle) es)"

lemma lockstep_exchanges:
  "(ph = Idle \<or> ph = Sending) \<and> lockstep ph es \<longrightarrow> (\<exists>xs. prefix es (concat (map exchange xs)))"
  "(ph = Waiting \<or> ph = Receiving) \<and> lockstep ph es \<longrightarrow> (\<exists>j xs. prefix es (replicate j (False, True) @ [(False, False)] @ concat (map exchange xs)))"
proof (induction es arbitrary: ph)
  case Nil
  {
    case 1
    show ?case by simp
  next
    case 2
    show ?case by simp
  }
next
  case (Cons e es)
  obtain b fol where e: "e = (b, fol)" by (cases e)
  {
    case 1
    show ?case
    proof (intro impI)
      assume a: "(ph = Idle \<or> ph = Sending) \<and> lockstep ph (e # es)"
      then have b: b using e by (auto split: if_splits)
      show "\<exists>xs. prefix (e # es) (concat (map exchange xs))"
      proof (cases fol)
        case True
        with a b e Cons.IH(1) [of Sending] obtain xs where xs: "prefix es (concat (map exchange xs))" by auto
        show ?thesis
        proof (cases xs)
          case Nil
          with xs have "es = []" by simp
          with e b True have "prefix (e # es) (concat (map exchange [(1, 0)]))" by (simp add: exchange_def)
          then show ?thesis by blast
        next
          case (Cons ij ys)
          have "exchange (Suc (fst ij), snd ij) = (True, True) # exchange ij" by (simp add: exchange_def)
          with xs Cons e b True have "prefix (e # es) (concat (map exchange ((Suc (fst ij), snd ij) # ys)))" by simp
          then show ?thesis by blast
        qed
      next
        case False
        with a b e Cons.IH(2) [of Waiting] obtain j xs where "prefix es (replicate j (False, True) @ [(False, False)] @ concat (map exchange xs))" by auto
        with e b False have "prefix (e # es) (concat (map exchange ((0, j) # xs)))" by (simp add: exchange_def)
        then show ?thesis by blast
      qed
    qed
  next
    case 2
    show ?case
    proof (intro impI)
      assume a: "(ph = Waiting \<or> ph = Receiving) \<and> lockstep ph (e # es)"
      then have b: "\<not> b" using e by (auto split: if_splits)
      show "\<exists>j xs. prefix (e # es) (replicate j (False, True) @ [(False, False)] @ concat (map exchange xs))"
      proof (cases fol)
        case True
        with a b e Cons.IH(2) [of Receiving] obtain j xs where "prefix es (replicate j (False, True) @ [(False, False)] @ concat (map exchange xs))" by auto
        with e b True show ?thesis by (intro exI [of _ "Suc j"] exI [of _ xs]) simp
      next
        case False
        with a b e Cons.IH(1) [of Idle] obtain xs where "prefix es (concat (map exchange xs))" by auto
        with e b False show ?thesis by (intro exI [of _ 0] exI [of _ xs]) simp
      qed
    qed
  }
qed

lemma begin_phase:
  assumes "req_begin ops s w = Some (r, s', w')"
  shows "rq_receiving_reply s' = rq_receiving_reply s \<and> rq_strict s' = rq_strict s
    \<and> (rq_message_begins s \<longrightarrow> (if r = None then \<not> rq_message_begins s' else rq_message_begins s'))"
proof -
  let ?s0 = "s\<lparr>rq_reply_pipe := None\<rparr>"
  obtain r1 s1 w1 where h: "req_send_id ops ?s0 w = Some (r1, s1, w1)" using assms by (auto simp: req_begin_def bind_eq_Some_conv)
  have p1: "same_phase s s1"
    using h by (auto simp: req_send_id_def bind_eq_Some_conv Let_def same_phase_def dest!: reply_send_phase split: if_splits)
  consider (no_id) "r = r1" "s' = s1" "r1 \<noteq> None"
    | (no_bottom) r2 s2 w2 where "send_to_reply_pipe ops (set_flags f_more msg_init) s1 w1 = Some (r2, s2, w2)" "r2 \<noteq> None" "r = r2" "s' = s2"
    | (begun) r2 s2 w2 w3 where "send_to_reply_pipe ops (set_flags f_more msg_init) s1 w1 = Some (r2, s2, w2)"
        "req_drain ops (s2\<lparr>rq_message_begins := False\<rparr>) w2 = Some (s', w3)" "r = None"
    using assms h by (auto simp: req_begin_def bind_eq_Some_conv split: if_splits)
  then show ?thesis
  proof cases
    case no_id
    with p1 show ?thesis by (auto simp: same_phase_def)
  next
    case no_bottom
    with p1 reply_send_phase [OF no_bottom(1)] show ?thesis by (auto simp: same_phase_def)
  next
    case begun
    have "same_phase (s2\<lparr>rq_message_begins := False\<rparr>) s'" using drain_phase [OF begun(2)] by simp
    with p1 reply_send_phase [OF begun(1)] begun(3) show ?thesis by (auto simp: same_phase_def)
  qed
qed

lemma send_phase:
  assumes "req_send ops m s w = Some (r, s', w')" "rq_strict s"
  shows "rq_strict s' \<and> (case r of
      None \<Rightarrow> (phase s = Idle \<or> phase s = Sending) \<and> phase s' = (if has_more m then Sending else Waiting)
    | Some e \<Rightarrow> if phase s = Idle \<or> phase s = Sending then phase s' = Idle \<or> phase s' = Sending else e = EFSM \<and> s' = s)"
proof (cases "rq_receiving_reply s")
  case True
  with assms show ?thesis by (auto simp: req_send_def phase_def)
next
  case False
  obtain r1 s1 w1 where b: "(if rq_message_begins s then req_begin ops s w else Some (None, s, w)) = Some (r1, s1, w1)"
    using assms False by (auto simp: req_send_def bind_eq_Some_conv Let_def split: if_splits)
  have p1: "\<not> rq_receiving_reply s1" "rq_strict s1" "if r1 = None then \<not> rq_message_begins s1 else rq_message_begins s1"
    using b begin_phase [of ops s w r1 s1 w1] False assms(2) by (auto split: if_splits)
  show ?thesis
  proof (cases r1)
    case (Some e)
    then have "r = Some e" "s' = s1" using assms(1) False b by (auto simp: req_send_def Let_def)
    with Some p1 False show ?thesis by (auto simp: phase_def)
  next
    case None
    then obtain r2 s3 w2 where d: "dealer_sendpipe ops m s1 w1 = Some (r2, s3, w2)"
      using assms(1) False b by (auto simp: req_send_def bind_eq_Some_conv Let_def)
    note p3 = sendpipe_phase [OF d]
    show ?thesis
    proof (cases "rc_of r2")
      case (Some e)
      then have "r = Some e" "s' = s3" using assms(1) False b None d by (auto simp: req_send_def Let_def)
      with None p1 p3 False show ?thesis by (auto simp: phase_def same_phase_def)
    next
      case sent: None
      then have "r = None" "s' = (if \<not> has_more m then s3\<lparr>rq_receiving_reply := True, rq_message_begins := True\<rparr> else s3)"
        using assms(1) False b None d by (auto simp: req_send_def Let_def)
      with None p1 p3 False show ?thesis by (auto simp: phase_def same_phase_def)
    qed
  qed
qed

lemma recv_phase:
  assumes "req_recv ops m s w = Some (r, s', w')"
  shows "rq_strict s' = rq_strict s \<and> (case r of
      Inr m' \<Rightarrow> (phase s = Waiting \<or> phase s = Receiving) \<and> phase s' = (if has_more m' then Receiving else Idle)
    | Inl e \<Rightarrow> if phase s = Waiting \<or> phase s = Receiving then phase s' = Waiting \<or> phase s' = Receiving else e = EFSM \<and> s' = s)"
proof (cases "rq_receiving_reply s")
  case False
  with assms show ?thesis by (auto simp: req_recv_def phase_def)
next
  case True
  obtain r1 s1 w1 where b: "(if rq_message_begins s then req_find_reply ops m s w else Some (Inr m, s, w)) = Some (r1, s1, w1)"
    using assms True by (auto simp: req_recv_def bind_eq_Some_conv split: if_splits)
  have p1: "rq_receiving_reply s1" "rq_strict s1 = rq_strict s" "\<not> isl r1 \<longrightarrow> \<not> rq_message_begins s1"
    using b find_reply_phase [of ops m s w "(r1, s1, w1)"] True
    by (auto simp: found_phase_def same_phase_def split: if_splits sum.splits)
  show ?thesis
  proof (cases r1)
    case (Inl e)
    then have "r = Inl e" "s' = s1" using assms True b by (auto simp: req_recv_def)
    with p1 True show ?thesis by (auto simp: phase_def)
  next
    case (Inr m1)
    then obtain r2 s2 w2 where q: "recv_reply_pipe ops m1 s1 w1 = Some (r2, s2, w2)"
      using assms True b by (auto simp: req_recv_def bind_eq_Some_conv)
    have p2: "same_phase s1 s2" using recv_reply_phase [OF q] by simp
    show ?thesis
    proof (cases r2)
      case (Inl e)
      then have "r = Inl e" "s' = s2" using assms True b Inr q by (auto simp: req_recv_def)
      with Inr p1 p2 True show ?thesis by (auto simp: phase_def same_phase_def)
    next
      fix x assume r2: "r2 = Inr x"
      obtain p m2 where x: "x = (p, m2)" by (cases x)
      have "r = Inr m2" "s' = (if \<not> has_more m2 then s2\<lparr>rq_receiving_reply := False, rq_message_begins := True\<rparr> else s2)"
        using assms True b Inr q r2 x by (auto simp: req_recv_def)
      with Inr p1 p2 True show ?thesis by (auto simp: phase_def same_phase_def)
    qed
  qed
qed

lemma other_phase: "same_phase s (dealer_read_activated p s)" "same_phase s (dealer_write_activated p s)" "same_phase s (req_pipe_terminated p s)"
  "dealer_attach_pipe ops p s w = Some (s', w') \<Longrightarrow> same_phase s s'"
  by (auto simp: same_phase_def dealer_read_activated_def dealer_write_activated_def req_pipe_terminated_def dealer_pipe_terminated_def
      dealer_attach_pipe_def bind_eq_Some_conv)

lemma calls_lockstep:
  "req_calls ops cs s w = Some (rs, s', w') \<Longrightarrow> rq_strict s \<Longrightarrow> lockstep (phase s) (parts_done rs)"
proof (induction cs arbitrary: s w rs)
  case (Cons c cs)
  obtain r s1 w1 rs1 where c: "req_do ops c s w = Some (r, s1, w1)" "req_calls ops cs s1 w1 = Some (rs1, s', w')" "rs = r # rs1"
    using Cons.prems(1) by (auto simp: bind_eq_Some_conv)
  have quiet: "lockstep (phase s) (parts_done rs)" if "phase s1 = phase s" "rq_strict s1 = rq_strict s" "isl r \<or> r = Inr None"
    using Cons.IH [OF c(2)] Cons.prems(2) that c(3) by (cases r) auto
  have relaxed: "lockstep a es \<longleftrightarrow> lockstep b es" if "{a, b} \<subseteq> {Idle, Sending} \<or> {a, b} \<subseteq> {Waiting, Receiving}" for a b es
    using that by (cases es) (auto split: if_splits)
  show ?case
  proof (cases c)
    case (CSend m)
    then obtain r0 where r0: "req_send ops m s w = Some (r0, s1, w1)" "r = (case r0 of None \<Rightarrow> Inr (Some (True, m)) | Some e \<Rightarrow> Inl e)" using c(1) by auto
    note p = send_phase [OF r0(1) Cons.prems(2)]
    have IH: "lockstep (phase s1) (parts_done rs1)" using Cons.IH [OF c(2)] p by blast
    show ?thesis
    proof (cases r0)
      case None
      with p IH r0(2) c(3) show ?thesis by auto
    next
      case (Some e)
      with p IH r0(2) c(3) relaxed [of "phase s" "phase s1"] show ?thesis by (auto split: if_splits)
    qed
  next
    case CRecv
    then obtain r0 where r0: "req_recv ops msg_init s w = Some (r0, s1, w1)" "r = (case r0 of Inl e \<Rightarrow> Inl e | Inr m \<Rightarrow> Inr (Some (False, m)))" using c(1) by auto
    note p = recv_phase [OF r0(1)]
    have IH: "lockstep (phase s1) (parts_done rs1)" using Cons.IH [OF c(2)] p Cons.prems(2) by blast
    show ?thesis
    proof (cases r0)
      case (Inl e)
      with p IH r0(2) c(3) relaxed [of "phase s" "phase s1"] show ?thesis by (auto split: if_splits)
    next
      case (Inr m)
      with p IH r0(2) c(3) show ?thesis by auto
    qed
  next
    case (CAttach p)
    then have a: "dealer_attach_pipe ops p s w = Some (s1, w1)" "r = Inr None" using c(1) by auto
    with same_phase_phase [OF other_phase(4) [OF a(1)]] show ?thesis by (intro quiet) auto
  next
    case (CTerminated p)
    with c(1) same_phase_phase [OF other_phase(3) [of s p]] show ?thesis by (intro quiet) auto
  next
    case (CReadable p)
    with c(1) same_phase_phase [OF other_phase(1) [of s p]] show ?thesis by (intro quiet) auto
  next
    case (CWritable p)
    with c(1) same_phase_phase [OF other_phase(2) [of s p]] show ?thesis by (intro quiet) auto
  qed
qed (cases "phase s"; simp)


text \<open>A peer that sends every request back as its reply.\<close>

definition echo_pipe :: "(msg list \<times> msg list) pipe_ops" where
  "echo_pipe = \<lparr>po_read = (\<lambda>p (q, h). case q of [] \<Rightarrow> Some (None, q, h) | m # ms \<Rightarrow> Some (Some m, ms, h)),
     po_check_read = (\<lambda>p (q, h). Some (q \<noteq> [], q, h)),
     po_write = (\<lambda>p m (q, h). Some (True, q, h @ [m])),
     po_check_write = (\<lambda>p w. Some (True, w)),
     po_check_hwm = (\<lambda>p w. Some True),
     po_flush = (\<lambda>p (q, h). Some (q @ h, [])),
     po_rollback = (\<lambda>p (q, h). Some (q, [])),
     po_close = (\<lambda>m w. Some w),
     po_add_refs = (\<lambda>k m w. Some (m, w)),
     po_rm_refs = (\<lambda>k m w. Some w)\<rparr>"

definition vsm_bytes :: "msg \<Rightarrow> bytes option" where
  "vsm_bytes m = (case m_body m of Vsm d n \<Rightarrow> Some (take n d) | _ \<Rightarrow> None)"

definition echo_peer :: "(msg list \<times> msg list) peer_ops" where
  "echo_peer = \<lparr>pe_sock = \<lparr>so_pipe = echo_pipe, so_bytes = (\<lambda>m w. vsm_bytes m),
       so_init_subscribe = (\<lambda>b w. None), so_init_cancel = (\<lambda>b w. None)\<rparr>,
     pe_terminate = (\<lambda>p d w. Some w), pe_set_nodelay = (\<lambda>p w. Some w),
     pe_new_msg = (\<lambda>b w. Some (fresh_msg (Vsm b (length b)), w)),
     pe_set_metadata = (\<lambda>a m w. None), pe_routing_id = (\<lambda>p w. Some []), pe_set_routing_id = (\<lambda>p b w. Some w)\<rparr>"

definition echo_calls :: "req_call list" where
  "echo_calls = [CRecv, CAttach 0, CSend (text_msg 1 [7]), CSend (text_msg 0 [8]), CReadable 0, CSend (text_msg 0 [9]), CRecv, CRecv, CRecv]"


end
