(* ===== verification/Peer_Net.thy ===== *)
theory Peer_Net
  imports Patterns Xpub_Facts "HOL-Library.Multiset"
begin

text \<open>
  Sockets that read from and write to the same pipes: the laws their proofs use (\<open>duplex\<close>), and that the pipe ends of connected peers have them.
\<close>

subsection \<open>What such a socket relies on\<close>

text \<open>Reading and closing change nothing of what was written, writing changes nothing of what can be read, and neither changes the routing ids.\<close>

locale duplex = filter_source "pe_sock pops" inv live queue acct body + message_sink "pe_pipe pops" inv live writable sent half
  for pops :: "'w peer_ops" and inv live queue acct body writable sent half +
  fixes rid :: "'w \<Rightarrow> nat \<Rightarrow> bytes"
  assumes read_outs: "inv w \<Longrightarrow> p \<in> live w \<Longrightarrow> po_read (pe_pipe pops) p w = Some (v, w') \<Longrightarrow>
      sent w' = sent w \<and> half w' = half w \<and> writable w' = writable w \<and> rid w' = rid w"
    and close_outs: "inv w \<Longrightarrow> po_close (pe_pipe pops) m w = Some w' \<Longrightarrow>
      sent w' = sent w \<and> half w' = half w \<and> writable w' = writable w \<and> rid w' = rid w"
    and write_ins: "inv w \<Longrightarrow> p \<in> live w \<Longrightarrow> po_write (pe_pipe pops) p m w = Some (b, w') \<Longrightarrow>
      queue w' = queue w \<and> acct w' = acct w \<and> body w' = body w \<and> rid w' = rid w"
    and flush_ins: "inv w \<Longrightarrow> p \<in> live w \<Longrightarrow> po_flush (pe_pipe pops) p w = Some w' \<Longrightarrow>
      queue w' = queue w \<and> acct w' = acct w \<and> body w' = body w \<and> rid w' = rid w"
    and check_write_law: "inv w \<Longrightarrow> p \<in> live w \<Longrightarrow> \<exists>w'. po_check_write (pe_pipe pops) p w = Some (writable w p, w') \<and> inv w' \<and> live w' = live w
      \<and> queue w' = queue w \<and> acct w' = acct w \<and> body w' = body w \<and> sent w' = sent w \<and> half w' = half w \<and> writable w' = writable w \<and> rid w' = rid w"
    and check_hwm_total: "inv w \<Longrightarrow> p \<in> live w \<Longrightarrow> \<exists>b. po_check_hwm (pe_pipe pops) p w = Some b"
    and rid_law: "p \<in> live w \<Longrightarrow> pe_routing_id pops p w = Some (rid w p)"
    and new_law: "acct w hs \<Longrightarrow> length k \<le> max_vsm_size \<Longrightarrow> \<exists>m. pe_new_msg pops k w = Some (m, w)
      \<and> acct w (set_flags f_more m # hs) \<and> body w (set_flags f_more m) = k"
    and no_metadata: "acct w (m # hs) \<Longrightarrow> m_metadata m = None"
    and reorder_acct: "acct w hs \<Longrightarrow> mset hs = mset hs' \<Longrightarrow> acct w hs'"

subsection \<open>The pipe ends of a socket\<close>

definition net_peers :: "(net \<Rightarrow> nat option) \<Rightarrow> net peer_ops" where
  "net_peers mal = \<lparr>pe_sock = net_sock mal,
     pe_terminate = (\<lambda>p d n. map_option snd (on_pipe (\<lambda>e w. map_option (\<lambda>(e', w'). ((), e', w')) (pipe_terminate d e w)) p n)),
     pe_set_nodelay = (\<lambda>p n. map_option (\<lambda>e. n\<lparr>n_pipes := (n_pipes n)(p \<mapsto> set_nodelay e)\<rparr>) (n_pipes n p)),
     pe_new_msg = pb_new_msg (net_pub mal),
     pe_set_metadata = pb_set_metadata (net_pub mal),
     pe_routing_id = (\<lambda>p n. map_option router_socket_routing_id (n_pipes n p)),
     pe_set_routing_id = (\<lambda>p b n. map_option (\<lambda>e. n\<lparr>n_pipes := (n_pipes n)(p \<mapsto> e\<lparr>router_socket_routing_id := b\<rparr>)\<rparr>) (n_pipes n p))\<rparr>"

lemma net_peers_sock [simp]: "pe_sock (net_peers mal) = net_sock mal"
  by (simp add: net_peers_def)

definition net_rid :: "net \<Rightarrow> nat \<Rightarrow> bytes" where
  "net_rid = on_end (\<lambda>e w. router_socket_routing_id e) []"

text \<open>All peers are there: no end has begun to shut down and no delimiter is on its way. The pipes to read from and the pipes to write to are different ones.\<close>

definition connected :: "net \<Rightarrow> bool" where
  "connected n \<longleftrightarrow> (\<forall>p e. n_pipes n p = Some e \<longrightarrow> pstate e = active
     \<and> (\<forall>q. get_up (in_pipe e) (n_world n) = Some (Normal q) \<longrightarrow> (\<forall>m \<in> set (hist q). \<not> is_delimiter m))
     \<and> (\<forall>p' e'. n_pipes n p' = Some e' \<longrightarrow> in_pipe e \<noteq> out_pipe e'))"

definition duplex_inv :: "net \<Rightarrow> bool" where
  "duplex_inv n \<longleftrightarrow> net_inv n \<and> net_out_inv n \<and> connected n"

text \<open>An operation that leaves the writing side alone.\<close>

lemma outs_frame:
  assumes "net_out_inv n" "n_pipes n p = Some e" "out_pipe e' = out_pipe e" "pstate e' = pstate e" "fst (check_write e') = fst (check_write e)"
    and "router_socket_routing_id e' = router_socket_routing_id e"
    and all_same: "\<forall>r f. n_pipes n r = Some f \<longrightarrow> get_up (out_pipe f) w' = get_up (out_pipe f) (n_world n)"
  defines "n' \<equiv> \<lparr>n_pipes = (n_pipes n)(p \<mapsto> e'), n_world = w'\<rparr>"
  shows "net_out_inv n'" "net_sent n' = net_sent n" "net_half n' = net_half n" "net_writable n' = net_writable n" "net_rid n' = net_rid n"
proof -
  have same: "get_up (out_pipe f) w' = get_up (out_pipe f) (n_world n)" if "n_pipes n r = Some f" for r f using all_same that by blast
  have up: "get_up (out_pipe e) w' = get_up (out_pipe e) (n_world n)" using same [OF assms(2)] .
  have ok: "out_ok f (n_world n)" if "n_pipes n r = Some f" for r f using assms(1) that by (auto simp: net_out_inv_def)
  show "net_out_inv n'" unfolding net_out_inv_def
  proof (intro conjI allI impI)
    fix r f assume f: "n_pipes n' r = Some f"
    show "out_ok f (n_world n')"
      using f ok [OF assms(2)] ok [of r f] same [of r f] assms(3,4) up by (auto simp: n'_def out_ok_def split: if_splits)
  next
    fix r r' f f' assume "n_pipes n' r = Some f" "n_pipes n' r' = Some f'" "r \<noteq> r'"
    moreover have "out_pipe g = None \<or> out_pipe g \<noteq> out_pipe g'" if "n_pipes n s = Some g" "n_pipes n s' = Some g'" "s \<noteq> s'" for s s' g g'
      using assms(1) that unfolding net_out_inv_def by blast
    ultimately show "out_pipe f = None \<or> out_pipe f \<noteq> out_pipe f'" using assms(2,3) by (auto simp: n'_def split: if_splits)
  qed
  show "net_sent n' = net_sent n" "net_half n' = net_half n" "net_writable n' = net_writable n" "net_rid n' = net_rid n"
    using assms(2-6) up same
    by (auto simp: net_sent_def net_half_def net_writable_def net_rid_def on_end_def end_sent_def end_half_def n'_def fun_eq_iff split: option.split)
qed

text \<open>An operation that leaves the reading side alone.\<close>

lemma ins_frame:
  assumes "net_inv n" "connected n" "n_pipes n p = Some e" "in_pipe e' = in_pipe e" "out_pipe e' = out_pipe e" "pstate e' = pstate e" "in_active e' = in_active e"
    and all_same: "\<forall>r f. n_pipes n r = Some f \<longrightarrow> get_up (in_pipe f) w' = get_up (in_pipe f) (n_world n)"
    and heap: "pw_heap w' = net_heap n"
  defines "n' \<equiv> \<lparr>n_pipes = (n_pipes n)(p \<mapsto> e'), n_world = w'\<rparr>"
  shows "net_inv n'" "net_queue n' = net_queue n" "connected n'" "net_acct others n' = net_acct others n" "net_body n' = net_body n"
proof -
  have same: "get_up (in_pipe f) w' = get_up (in_pipe f) (n_world n)" if "n_pipes n r = Some f" for r f using all_same that by blast
  have ok: "end_ok f (n_world n)" "pstate f = active" if "n_pipes n r = Some f" for r f
    using assms(1,2) that by (auto simp: net_inv_def connected_def)
  have q: "end_queue f w' = end_queue f (n_world n)" if "n_pipes n r = Some f" for r f using same [OF that] by (simp add: end_queue_def)
  have "readable e' = readable e" using assms(6,7) by (simp add: readable_def)
  then have q': "end_queue e' w' = end_queue e (n_world n)" using same [OF assms(3)] assms(4) by (simp add: end_queue_def)
  show "net_inv n'" unfolding net_inv_def
  proof (intro conjI allI impI)
    fix r f assume f: "n_pipes n' r = Some f"
    have "end_ok e' w'" using ok [OF assms(3)] same [OF assms(3)] assms(4,6) q' by (simp add: end_ok_def)
    moreover have "end_ok f w'" if "n_pipes n r = Some f" using ok [OF that] same [OF that] q [OF that] by (simp add: end_ok_def)
    ultimately show "end_ok f (n_world n')" using f by (auto simp: n'_def split: if_splits)
  next
    fix r r' f f' assume "n_pipes n' r = Some f" "n_pipes n' r' = Some f'" "r \<noteq> r'"
    moreover have "in_pipe g \<noteq> in_pipe g'" if "n_pipes n s = Some g" "n_pipes n s' = Some g'" "s \<noteq> s'" for s s' g g'
      using assms(1) that unfolding net_inv_def by blast
    ultimately show "in_pipe f \<noteq> in_pipe f'" using assms(3,4) by (auto simp: n'_def split: if_splits)
  qed
  show qs: "net_queue n' = net_queue n" using assms(3) q q' by (auto simp: net_queue_def n'_def fun_eq_iff split: option.split)
  show "connected n'" unfolding connected_def
  proof (intro allI impI)
    fix r f assume f: "n_pipes n' r = Some f"
    define f0 where "f0 = (if r = p then e else f)"
    have f0: "n_pipes n r = Some f0" "in_pipe f = in_pipe f0" "pstate f = pstate f0" using f assms(3,4,6) by (auto simp: f0_def n'_def split: if_splits)
    have c: "pstate f0 = active" "\<forall>q. get_up (in_pipe f0) (n_world n) = Some (Normal q) \<longrightarrow> (\<forall>m \<in> set (hist q). \<not> is_delimiter m)"
      "\<forall>p' e'. n_pipes n p' = Some e' \<longrightarrow> in_pipe f0 \<noteq> out_pipe e'" using assms(2) f0(1) unfolding connected_def by blast+
    moreover have "in_pipe f0 \<noteq> out_pipe g" if "n_pipes n' s = Some g" for s g
      using c(3) that assms(3,5) by (auto simp: n'_def split: if_splits)
    ultimately show "pstate f = active \<and> (\<forall>q. get_up (in_pipe f) (n_world n') = Some (Normal q) \<longrightarrow> (\<forall>m \<in> set (hist q). \<not> is_delimiter m))
        \<and> (\<forall>p' e'. n_pipes n' p' = Some e' \<longrightarrow> in_pipe f \<noteq> out_pipe e')"
      using f0 same [OF f0(1)] by (simp add: n'_def)
  qed
  have h: "net_heap n' = net_heap n" using heap by (simp add: net_heap_def n'_def)
  show "net_acct others n' = net_acct others n" "net_body n' = net_body n" by (simp_all add: fun_eq_iff net_acct_def net_body_def qs h)
qed

text \<open>Reading without a delimiter changes the end only in what has been read.\<close>

lemma pipe_read_plain:
  assumes "end_ok e w" "\<forall>q. get_up (in_pipe e) w = Some (Normal q) \<longrightarrow> (\<forall>m \<in> set (hist q). \<not> is_delimiter m)" "pipe_read e w = Some (v, e', w')"
  shows "out_pipe e' = out_pipe e \<and> pstate e' = pstate e \<and> fst (check_write e') = fst (check_write e)
    \<and> router_socket_routing_id e' = router_socket_routing_id e"
proof -
  obtain q where q: "get_up (in_pipe e) w = Some (Normal q)" "pq_ok q" "\<forall>m \<in> set (hist q). \<not> is_credential m" "\<forall>m \<in> set (hist q). \<not> is_delimiter m"
    using assms(1,2) by (auto simp: end_ok_def)
  have "e' = e \<or> e' = e\<lparr>in_active := False\<rparr> \<or> e' = e\<lparr>msgs_read := msgs_read e + 1\<rparr>"
  proof (cases "rd q < wr q")
    case False
    with assms(3) q(1) show ?thesis by (auto simp: pipe_read_def read_skip_none Let_def split: if_splits)
  next
    case True
    then have m: "hist q ! rd q \<in> set (hist q)" using q(2) by (simp add: pq_ok_def)
    with assms(3) q True show ?thesis
      by (auto simp: pipe_read_def read_skip_plain Let_def split: if_splits)
  qed
  then show ?thesis by (auto simp: check_write_def check_hwm_def Let_def)
qed


lemma pipe_check_read_plain:
  assumes "end_ok e w" "\<forall>q. get_up (in_pipe e) w = Some (Normal q) \<longrightarrow> (\<forall>m \<in> set (hist q). \<not> is_delimiter m)" "pipe_check_read e w = Some (b, e', w')"
  shows "out_pipe e' = out_pipe e \<and> pstate e' = pstate e \<and> fst (check_write e') = fst (check_write e)
    \<and> router_socket_routing_id e' = router_socket_routing_id e"
proof -
  obtain q where q: "get_up (in_pipe e) w = Some (Normal q)" "pq_ok q" "\<forall>m \<in> set (hist q). \<not> is_delimiter m"
    using assms(1,2) by (auto simp: end_ok_def)
  have "e' = e \<or> e' = e\<lparr>in_active := False\<rparr>"
  proof (cases "rd q < wr q")
    case False
    with assms(3) q(1) show ?thesis by (auto simp: pipe_check_read_def pq_check_read_def Let_def split: if_splits)
  next
    case True
    then have m: "hist q ! rd q \<in> set (hist q)" using q(2) by (simp add: pq_ok_def)
    with assms(3) q True show ?thesis by (auto simp: pipe_check_read_def pq_check_read_def Let_def split: if_splits)
  qed
  then show ?thesis by (auto simp: check_write_def check_hwm_def Let_def)
qed

lemma connected_end:
  assumes "connected n" "n_pipes n p = Some e"
  shows "pstate e = active" "\<forall>q. get_up (in_pipe e) (n_world n) = Some (Normal q) \<longrightarrow> (\<forall>m \<in> set (hist q). \<not> is_delimiter m)"
    "n_pipes n p' = Some e' \<Longrightarrow> in_pipe e \<noteq> out_pipe e'"
  using assms unfolding connected_def by blast+

text \<open>A step of an end that only reads.\<close>

lemma read_step_duplex:
  assumes "duplex_inv n" "n_pipes n p = Some e" "read_only (in_pipe e) (n_world n) w'" "in_pipe e' = in_pipe e" "end_ok e' w'"
    and "out_pipe e' = out_pipe e" "pstate e' = pstate e" "fst (check_write e') = fst (check_write e)" "router_socket_routing_id e' = router_socket_routing_id e"
  defines "n' \<equiv> \<lparr>n_pipes = (n_pipes n)(p \<mapsto> e'), n_world = w'\<rparr>"
  shows "duplex_inv n'" "net_sent n' = net_sent n" "net_half n' = net_half n" "net_writable n' = net_writable n" "net_rid n' = net_rid n"
proof -
  have i: "net_inv n" "net_out_inv n" "connected n" using assms(1) by (simp_all add: duplex_inv_def)
  have up: "get_up a w' = get_up a (n_world n)" if "a \<noteq> in_pipe e" for a using assms(3) that by (simp add: read_only_def)
  have same: "\<forall>r f. n_pipes n r = Some f \<longrightarrow> get_up (out_pipe f) w' = get_up (out_pipe f) (n_world n)"
    using up connected_end(3) [OF i(3) assms(2)] by metis
  note fr = outs_frame [OF i(2) assms(2,6-9) same, folded n'_def]
  show "net_sent n' = net_sent n" "net_half n' = net_half n" "net_writable n' = net_writable n" "net_rid n' = net_rid n" using fr by blast+
  have "net_inv n'" using net_inv_step [OF i(1) assms(2-5)] by (simp add: n'_def)
  moreover have "connected n'" unfolding connected_def
  proof (intro allI impI)
    fix r f assume f: "n_pipes n' r = Some f"
    define f0 where "f0 = (if r = p then e else f)"
    have f0: "n_pipes n r = Some f0" "in_pipe f = in_pipe f0" "pstate f = pstate f0" using f assms(2,4,7) by (auto simp: f0_def n'_def split: if_splits)
    note c = connected_end [OF i(3) f0(1)]
    have "in_pipe f0 \<noteq> out_pipe g" if "n_pipes n' s = Some g" for s g
      using c(3) that assms(2,6) by (auto simp: n'_def split: if_splits)
    moreover have "\<forall>m \<in> set (hist q). \<not> is_delimiter m" if q: "get_up (in_pipe f0) w' = Some (Normal q)" for q
    proof (cases "in_pipe f0 = in_pipe e")
      case True
      with assms(3) q obtain q0 where "get_up (in_pipe f0) (n_world n) = Some (Normal q0)" "hist q = hist q0" by (auto simp: read_only_def)
      with c(2) show ?thesis by simp
    next
      case False
      with up q c(2) show ?thesis by simp
    qed
    ultimately show "pstate f = active \<and> (\<forall>q. get_up (in_pipe f) (n_world n') = Some (Normal q) \<longrightarrow> (\<forall>m \<in> set (hist q). \<not> is_delimiter m))
        \<and> (\<forall>p' e'. n_pipes n' p' = Some e' \<longrightarrow> in_pipe f \<noteq> out_pipe e')"
      using f0 c(1) by (simp add: n'_def)
  qed
  ultimately show "duplex_inv n'" using fr(1) by (simp add: duplex_inv_def)
qed

lemma net_read_duplex:
  assumes "duplex_inv n" "p \<in> net_live n" "po_read net_ops p n = Some (v, n')"
  shows "duplex_inv n'" "net_sent n' = net_sent n" "net_half n' = net_half n" "net_writable n' = net_writable n" "net_rid n' = net_rid n"
proof -
  obtain e where e: "n_pipes n p = Some e" "end_ok e (n_world n)" "connected n"
    using assms(1,2) by (auto simp: net_live_def net_inv_def duplex_inv_def)
  obtain v0 e' w' where r: "pipe_read e (n_world n) = Some (v0, e', w')" "in_pipe e' = in_pipe e" "read_only (in_pipe e) (n_world n) w'" "end_ok e' w'"
    using pipe_read_end [OF e(2)] by blast
  have n': "n' = \<lparr>n_pipes = (n_pipes n)(p \<mapsto> e'), n_world = w'\<rparr>" using assms(3) e(1) r(1) by (simp add: net_ops_def on_pipe_def)
  note k = pipe_read_plain [OF e(2) connected_end(2) [OF e(3,1)] r(1)]
  show "duplex_inv n'" "net_sent n' = net_sent n" "net_half n' = net_half n" "net_writable n' = net_writable n" "net_rid n' = net_rid n"
    unfolding n' using read_step_duplex [OF assms(1) e(1) r(3,2,4)] k by blast+
qed

lemma net_check_read_duplex:
  assumes "duplex_inv n" "p \<in> net_live n" "po_check_read net_ops p n = Some (b, n')"
  shows "duplex_inv n'"
proof -
  obtain e where e: "n_pipes n p = Some e" "end_ok e (n_world n)" "connected n"
    using assms(1,2) by (auto simp: net_live_def net_inv_def duplex_inv_def)
  obtain b0 e' w' where r: "pipe_check_read e (n_world n) = Some (b0, e', w')" "in_pipe e' = in_pipe e" "read_only (in_pipe e) (n_world n) w'" "end_ok e' w'"
    using pipe_check_read_end [OF e(2)] by blast
  have n': "n' = \<lparr>n_pipes = (n_pipes n)(p \<mapsto> e'), n_world = w'\<rparr>" using assms(3) e(1) r(1) by (simp add: net_ops_def on_pipe_def)
  note k = pipe_check_read_plain [OF e(2) connected_end(2) [OF e(3,1)] r(1)]
  show "duplex_inv n'" unfolding n' using read_step_duplex [OF assms(1) e(1) r(3,2,4)] k by blast
qed

lemma with_heap_duplex [simp]:
  "connected (with_heap h n) = connected n" "duplex_inv (with_heap h n) = duplex_inv n" "net_rid (with_heap h n) = net_rid n"
proof -
  have w: "n_pipes (with_heap h n) = n_pipes n" "get_up a (n_world (with_heap h n)) = get_up a (n_world n)" for a by (simp_all add: with_heap_def)
  then show c: "connected (with_heap h n) = connected n" by (simp add: connected_def)
  show "duplex_inv (with_heap h n) = duplex_inv n" by (simp add: duplex_inv_def c)
  show "net_rid (with_heap h n) = net_rid n" by (simp add: net_rid_def on_end_def w fun_eq_iff cong: option.case_cong)
qed

text \<open>Writing.\<close>

lemma write_step_duplex:
  assumes "duplex_inv n" "n_pipes n p = Some e" "\<forall>b. b \<noteq> out_pipe e \<longrightarrow> get_up b w' = get_up b (n_world n)" "pw_heap w' = net_heap n"
    and "in_pipe e' = in_pipe e" "out_pipe e' = out_pipe e" "pstate e' = pstate e" "in_active e' = in_active e" "router_socket_routing_id e' = router_socket_routing_id e"
  defines "n' \<equiv> \<lparr>n_pipes = (n_pipes n)(p \<mapsto> e'), n_world = w'\<rparr>"
  shows "net_out_inv n' \<Longrightarrow> duplex_inv n'" "net_queue n' = net_queue n" "net_acct others n' = net_acct others n" "net_body n' = net_body n" "net_rid n' = net_rid n"
proof -
  have i: "net_inv n" "net_out_inv n" "connected n" using assms(1) by (simp_all add: duplex_inv_def)
  have same: "\<forall>r f. n_pipes n r = Some f \<longrightarrow> get_up (in_pipe f) w' = get_up (in_pipe f) (n_world n)"
    using assms(3) connected_end(3) [OF i(3) _ assms(2)] by blast
  note fr = ins_frame [OF i(1,3) assms(2,5-8) same assms(4), folded n'_def]
  show "net_out_inv n' \<Longrightarrow> duplex_inv n'" "net_queue n' = net_queue n" "net_acct others n' = net_acct others n" "net_body n' = net_body n"
    using fr by (simp_all add: duplex_inv_def)
  show "net_rid n' = net_rid n" using assms(2,9) by (auto simp: net_rid_def on_end_def n'_def fun_eq_iff split: option.split)
qed

lemma pipe_write_keeps:
  "pipe_write m e w = Some (b, e', w') \<Longrightarrow> in_pipe e' = in_pipe e \<and> out_pipe e' = out_pipe e \<and> pstate e' = pstate e \<and> in_active e' = in_active e
     \<and> router_socket_routing_id e' = router_socket_routing_id e"
  by (auto simp: pipe_write_def check_write_def Let_def bind_eq_Some_conv split: if_splits prod.splits)

lemma net_write_duplex:
  assumes "duplex_inv n" "p \<in> net_live n" "po_write net_ops p m n = Some (b, n')"
  shows "duplex_inv n'" "net_queue n' = net_queue n" "net_acct others n' = net_acct others n" "net_body n' = net_body n" "net_rid n' = net_rid n"
proof -
  obtain e where e: "n_pipes n p = Some e" "out_ok e (n_world n)" "net_out_inv n"
    using assms(1,2) by (auto simp: net_live_def net_out_inv_def duplex_inv_def)
  obtain b0 e' w' where r: "pipe_write m e (n_world n) = Some (b0, e', w')" "\<forall>b. b \<noteq> out_pipe e \<longrightarrow> get_up b w' = get_up b (n_world n)"
    "out_pipe e' = out_pipe e" "out_ok e' w'"
    using pipe_write_end [OF e(2), of m] by blast
  have n': "n' = \<lparr>n_pipes = (n_pipes n)(p \<mapsto> e'), n_world = w'\<rparr>" using assms(3) e(1) r(1) by (simp add: net_ops_def on_pipe_def)
  have o: "net_out_inv \<lparr>n_pipes = (n_pipes n)(p \<mapsto> e'), n_world = w'\<rparr>" using net_out_step [OF e(3,1) r(2-4)] by blast
  have h: "pw_heap w' = net_heap n" using pipe_write_heap [OF e(2) r(1)] by (simp add: net_heap_def)
  show "duplex_inv n'" "net_queue n' = net_queue n" "net_acct others n' = net_acct others n" "net_body n' = net_body n" "net_rid n' = net_rid n"
    unfolding n' using write_step_duplex [OF assms(1) e(1) r(2) h] o pipe_write_keeps [OF r(1)] by blast+
qed

lemma net_flush_duplex:
  assumes "duplex_inv n" "p \<in> net_live n" "po_flush net_ops p n = Some n'"
  shows "net_out_inv n' \<Longrightarrow> duplex_inv n'" "net_queue n' = net_queue n" "net_acct others n' = net_acct others n" "net_body n' = net_body n" "net_rid n' = net_rid n"
proof -
  obtain e where e: "n_pipes n p = Some e" using assms(2) by (auto simp: net_live_def)
  obtain w' where f: "pipe_flush e (n_world n) = Some w'" "n' = \<lparr>n_pipes = (n_pipes n)(p \<mapsto> e), n_world = w'\<rparr>"
    using assms(3) e by (auto simp: net_ops_def on_pipe_def bind_eq_Some_conv)
  have up: "\<forall>b. b \<noteq> out_pipe e \<longrightarrow> get_up b w' = get_up b (n_world n)"
  proof (intro allI impI)
    fix b assume b: "b \<noteq> out_pipe e"
    show "get_up b w' = get_up b (n_world n)"
    proof (cases "pstate e = term_ack_sent \<or> out_pipe e = None")
      case True
      with f(1) show ?thesis by (auto simp: pipe_flush_def split: if_splits)
    next
      case False
      then obtain a where a: "out_pipe e = Some a" by blast
      with False f(1) obtain u where u: "(let (ok, u') = up_flush u; w1 = put_up (Some a) u' (n_world n)
          in Some (if \<not> ok then send_cmd ActivateRead w1 else w1)) = Some w'"
        by (auto simp: pipe_flush_def bind_eq_Some_conv)
      obtain ok u' where "up_flush u = (ok, u')" by (cases "up_flush u")
      with u have "w' = (if \<not> ok then send_cmd ActivateRead (put_up (Some a) u' (n_world n)) else put_up (Some a) u' (n_world n))"
        by (simp add: Let_def)
      with a b show ?thesis by simp
    qed
  qed
  have h: "pw_heap w' = net_heap n" using pipe_flush_heap [OF f(1)] by (simp add: net_heap_def)
  show "net_out_inv n' \<Longrightarrow> duplex_inv n'" "net_queue n' = net_queue n" "net_acct others n' = net_acct others n" "net_body n' = net_body n"
    "net_rid n' = net_rid n"
    using write_step_duplex [OF assms(1) e up h refl refl refl refl refl] unfolding f(2) by blast+
qed

lemma net_check_write_duplex:
  assumes "duplex_inv n" "p \<in> net_live n"
  shows "\<exists>n'. po_check_write net_ops p n = Some (net_writable n p, n') \<and> duplex_inv n' \<and> net_live n' = net_live n \<and> net_queue n' = net_queue n
    \<and> net_acct others n' = net_acct others n \<and> net_body n' = net_body n \<and> net_sent n' = net_sent n \<and> net_half n' = net_half n
    \<and> net_writable n' = net_writable n \<and> net_rid n' = net_rid n"
proof -
  obtain e where e: "n_pipes n p = Some e" "net_out_inv n" using assms by (auto simp: net_live_def duplex_inv_def)
  obtain b e' where c: "check_write e = (b, e')" by (cases "check_write e")
  then have e': "e' = e \<or> e' = e\<lparr>out_active := False\<rparr>" "fst (check_write e') = fst (check_write e)"
    by (auto simp: check_write_def split: if_splits)
  let ?n = "\<lparr>n_pipes = (n_pipes n)(p \<mapsto> e'), n_world = n_world n\<rparr>"
  have k: "out_pipe e' = out_pipe e" "in_pipe e' = in_pipe e" "pstate e' = pstate e" "in_active e' = in_active e"
    "router_socket_routing_id e' = router_socket_routing_id e"
    using e'(1) by auto
  note fr = outs_frame [OF e(2,1) k(1,3) e'(2) k(5), of "n_world n", simplified]
  have h: "pw_heap (n_world n) = net_heap n" by (simp add: net_heap_def)
  note ws = write_step_duplex [OF assms(1) e(1) _ h k(2,1,3,4,5), simplified]
  moreover have "po_check_write net_ops p n = Some (net_writable n p, ?n)" using e(1) c by (simp add: net_ops_def on_pipe_def net_writable_def on_end_def)
  moreover have "net_live ?n = net_live n" using e(1) by (auto simp: net_live_def)
  ultimately show ?thesis using fr ws by (intro exI [of _ ?n]) simp
qed

lemma duplex_parts: "duplex_inv n \<Longrightarrow> net_inv n" "duplex_inv n \<Longrightarrow> net_out_inv n"
  by (simp_all add: duplex_inv_def)

interpretation net_duplex: duplex "net_peers mal" duplex_inv net_live net_queue "net_acct others" net_body net_writable net_sent net_half net_rid
proof (unfold_locales, goal_cases)
  case (1 w p)
  obtain w' where w': "net_inv w'" "net_live w' = net_live w"
    "case net_queue w p of [] \<Rightarrow> po_read net_ops p w = Some (None, w') \<and> net_queue w' = net_queue w
     | m # ms \<Rightarrow> po_read net_ops p w = Some (Some m, w') \<and> net_queue w' = (net_queue w)(p := ms)"
    using pipe_src.read_law [OF duplex_parts(1) [OF 1(1)] 1(2)] by blast
  then have "duplex_inv w'" using net_read_duplex(1) [OF 1] by (auto split: list.splits)
  with w' show ?case by (intro exI [of _ w']) (simp split: list.splits)
next
  case (2 w p)
  obtain w' where w': "net_inv w'" "net_live w' = net_live w" "net_queue w' = net_queue w" "po_check_read net_ops p w = Some (net_queue w p \<noteq> [], w')"
    using pipe_src.check_read_law [OF duplex_parts(1) [OF 2(1)] 2(2)] by blast
  with net_check_read_duplex [OF 2 w'(4)] show ?case by (intro exI [of _ w']) simp
next
  case (3 w p)
  then show ?case using pipe_src.complete_law duplex_parts(1) by blast
next
  case (4 w)
  show ?case using pipe_src.close_law by simp
next
  case (5 w p hs v w')
  then show ?case using net_sub.read_acct [OF duplex_parts(1)] by simp
next
  case (6 w m hs)
  obtain m' h where h: "msg_close m (net_heap w) = Some (0, m', h)" "net_acct others (with_heap h w) hs"
    "\<forall>x. x \<in> set hs \<or> (\<exists>p. x \<in> set (net_queue w p)) \<longrightarrow> net_body (with_heap h w) x = net_body w x"
    using net_close_acct [OF 6(2)] by blast
  then have "po_close net_ops m w = Some (with_heap h w)" by (simp add: net_ops_def net_close_def net_heap_def with_heap_def)
  with h 6(1) show ?case by (intro exI [of _ "with_heap h w"]) simp
next
  case (7 w hs)
  then show ?case by (rule net_sub.init_acct)
next
  case (8 w m hs)
  then show ?case using net_sub.bytes_acct by simp
next
  case (9 w p m)
  obtain w' where w': "po_write net_ops p m w = Some (net_writable w p, w')" "net_live w' = net_live w" "net_sent w' = net_sent w"
    "net_half w' = (if net_writable w p then (net_half w)(p := net_half w p @ [m]) else net_half w)"
    "\<forall>r. r \<noteq> p \<longrightarrow> net_writable w' r = net_writable w r" "net_writable w p \<longrightarrow> has_more m \<longrightarrow> net_writable w' p"
    "\<not> net_writable w p \<longrightarrow> \<not> net_writable w' p"
    using pipe_snk.write_law [OF duplex_parts(2) [OF 9(1)] 9(2)] by blast
  with net_write_duplex(1) [OF 9 w'(1)] show ?case by (intro exI [of _ w']) simp
next
  case (10 w p hs m)
  obtain w' where w': "po_flush net_ops p w = Some w'" "net_out_inv w'" "net_live w' = net_live w"
    "net_sent w' = (net_sent w)(p := net_sent w p @ net_half w p)" "net_half w' = (net_half w)(p := [])" "net_writable w' = net_writable w"
    using pipe_snk.flush_law [OF duplex_parts(2) [OF 10(1)] 10(2-4)] by blast
  with net_flush_duplex(1) [OF 10(1,2) w'(1,2)] show ?case by (intro exI [of _ w']) simp
next
  case (11 w p v w')
  then show ?case using net_read_duplex by simp
next
  case (12 w m w')
  then have "\<exists>h. w' = with_heap h w" by (auto simp: net_ops_def net_close_def with_heap_def bind_eq_Some_conv)
  then show ?case by auto
next
  case (13 w p m b w')
  then show ?case using net_write_duplex by simp
next
  case (14 w p w')
  then show ?case using net_flush_duplex by simp
next
  case (15 w p)
  then show ?case using net_check_write_duplex by simp
next
  case (16 w p)
  then show ?case by (auto simp: net_ops_def net_live_def)
next
  case (17 w p)
  then show ?case by (auto simp: net_peers_def net_live_def net_rid_def on_end_def)
next
  case (18 w hs k)
  then have r: "net_room mal w k" by (simp add: net_room_def)
  have f: "f_more AND f_shared = 0" by (simp add: flag_defs)
  obtain m h where m: "msg_init_buffer k (mal w) (net_heap w) = (0, m, h)" "net_acct others (with_heap h w) (set_flags f_more m # hs)"
    "msg_bytes (set_flags f_more m) h = Some k"
    using net_new_msg [OF 18(1) r f] by blast
  have "h = net_heap w" using m(1) 18(2) by (simp add: msg_init_buffer_def msg_init_size_def Let_def split: if_splits)
  moreover have "with_heap (net_heap w) w = w" by (simp add: with_heap_def net_heap_def)
  ultimately show ?case using m by (intro exI [of _ m]) (simp add: net_peers_def net_pub_def net_body_def)
next
  case (19 w m hs)
  then show ?case by (auto simp: net_acct_def refs_ok_def plain_def)
next
  case (20 w hs hs')
  obtain ps where ps: "distinct ps" "\<forall>p. net_queue w p \<noteq> [] \<longrightarrow> p \<in> set ps" "refs_ok (hs @ concat (map (net_queue w) ps) @ others) (net_heap w)"
    using 20(1) by (auto simp: net_acct_def)
  have s: "set hs = set hs'" using 20(2) by (rule mset_eq_setD)
  have h: "holders c hs = holders c hs'" for c
    using arg_cong [OF 20(2), of "\<lambda>M. size (filter_mset (\<lambda>m. m_body m = Lmsg c) M)"] by (simp add: holders_def flip: size_mset mset_filter)
  have "refs_ok (hs' @ concat (map (net_queue w) ps) @ others) (net_heap w) = refs_ok (hs @ concat (map (net_queue w) ps) @ others) (net_heap w)"
    by (rule refs_ok_cong) (auto simp: s h)
  with ps 20(1) s show ?case by (auto simp: net_acct_def)
qed

end
