(* ===== verification/Req_Reply.thy ===== *)
theory Req_Reply
  imports Req_Facts Peer_Net
begin

text \<open>
  Which message a request socket hands out: the first one that came from the pipe of the request in the envelope of the request. What it
  passed over before are whole messages that are not such a reply.
\<close>

subsection \<open>Whole messages of a trace\<close>

text \<open>A message as read: its pipe and its parts.\<close>

definition whole :: "nat \<times> msg list \<Rightarrow> bool" where
  "whole b \<longleftrightarrow> snd b \<noteq> [] \<and> (\<forall>m \<in> set (butlast (snd b)). has_more m) \<and> \<not> has_more (last (snd b))"

definition spread :: "(nat \<times> msg list) list \<Rightarrow> (nat \<times> msg) list" where
  "spread bs = concat (map (\<lambda>(p, ms). map (Pair p) ms) bs)"

lemma spread_simps [simp]:
  "spread [] = []" "spread ((p, ms) # bs) = map (Pair p) ms @ spread bs" "spread (bs @ cs) = spread bs @ spread cs"
  by (simp_all add: spread_def)

text \<open>A trace that starts and ends between messages consists of whole messages.\<close>

lemma trace_blocks:
  "atomic c tr \<Longrightarrow> reading_after c tr = None \<Longrightarrow>
   case c of None \<Rightarrow> \<exists>bs. tr = spread bs \<and> (\<forall>b \<in> set bs. whole b)
   | Some p \<Rightarrow> \<exists>ms bs. tr = map (Pair p) ms @ spread bs \<and> whole (p, ms) \<and> (\<forall>b \<in> set bs. whole b)"
proof (induction tr arbitrary: c)
  case Nil
  then show ?case by (auto intro: exI [of _ "[]"] split: option.splits)
next
  case (Cons x tr)
  obtain p m where x: "x = (p, m)" by (cases x)
  have c: "c = None \<or> c = Some p" and tr: "atomic (if has_more m then Some p else None) tr" "reading_after (if has_more m then Some p else None) tr = None"
    using Cons.prems x by (auto split: if_splits)
  have "\<exists>ms bs. x # tr = map (Pair p) ms @ spread bs \<and> whole (p, ms) \<and> (\<forall>b \<in> set bs. whole b)"
  proof (cases "has_more m")
    case True
    with Cons.IH [OF tr] obtain ms bs where "tr = map (Pair p) ms @ spread bs" "whole (p, ms)" "\<forall>b \<in> set bs. whole b" by auto
    with x True show ?thesis by (intro exI [of _ "m # ms"] exI [of _ bs]) (auto simp: whole_def)
  next
    case False
    with Cons.IH [OF tr] obtain bs where "tr = spread bs" "\<forall>b \<in> set bs. whole b" by auto
    with x False show ?thesis by (intro exI [of _ "[m]"] exI [of _ bs]) (auto simp: whole_def)
  qed
  then obtain ms bs where b: "x # tr = map (Pair p) ms @ spread bs" "whole (p, ms)" "\<forall>b \<in> set bs. whole b" by blast
  show ?case
  proof (cases c)
    case None
    with b show ?thesis by (auto intro!: exI [of _ "(p, ms) # bs"])
  next
    case (Some q)
    with b c show ?thesis by auto
  qed
qed

subsection \<open>Which messages are replies\<close>

definition wanted_pipe :: "req \<Rightarrow> nat \<Rightarrow> bool" where
  "wanted_pipe s p \<longleftrightarrow> rq_reply_pipe s = None \<or> rq_reply_pipe s = Some p"

text \<open>The parts of a message in front of its body: the request id, when it is expected, and an empty part.\<close>

definition envelope :: "req \<Rightarrow> (msg \<Rightarrow> bytes) \<Rightarrow> msg list \<Rightarrow> bool" where
  "envelope s bd ms \<longleftrightarrow>
     (if rq_id_frames s then \<exists>i d. ms = [i, d] \<and> bd i = id_bytes (rq_request_id s) \<and> bd d = [] else \<exists>d. ms = [d] \<and> bd d = [])"

definition is_reply :: "req \<Rightarrow> (msg \<Rightarrow> bytes) \<Rightarrow> nat \<times> msg list \<Rightarrow> bool" where
  "is_reply s bd b \<longleftrightarrow> wanted_pipe s (fst b) \<and> (\<exists>env body. snd b = env @ body \<and> body \<noteq> [] \<and> envelope s bd env)"

lemma butlast_no_more: "whole (p, ms) \<Longrightarrow> ms = m # rest \<Longrightarrow> has_more m \<longleftrightarrow> rest \<noteq> []"
  by (cases rest) (auto simp: whole_def)

context filter_source
begin

text \<open>Reading one part.\<close>

lemma part_spec:
  assumes "pe_sock pops = ops" "inv w" "fq_ok live queue (de_fq s) w" "acct w (m # hs)"
  shows "\<exists>r f w'. dealer_recvpipe pops m s w = Some (r, s\<lparr>de_fq := f\<rparr>, w') \<and>
    (case r of
       Inl e \<Rightarrow> e = EAGAIN \<and> reads (de_fq s) w [] f w' hs \<and> acct w' hs \<and> fq_reading (de_fq s) = None \<and> fq_reading f = None
     | Inr (p, m') \<Rightarrow> reads (de_fq s) w [(p, m')] f w' hs \<and> acct w' (m' # hs) \<and> body w' m' = body w m'
         \<and> fq_reading f = (if has_more m' then Some p else None) \<and> left f w' < left (de_fq s) w)"
proof -
  obtain r f w' where s: "fq_recvpipe (so_pipe ops) m (de_fq s) w = Some (r, f, w')" "inv w'" "fq_ok live queue f w'"
    "active_pipes f \<subseteq> active_pipes (de_fq s)" "same_bodies w w' hs"
    "case r of
       Inl e \<Rightarrow> e = EAGAIN \<and> queue w' = queue w \<and> acct w' hs \<and> \<not> fq_more (de_fq s) \<and> \<not> fq_more f
     | Inr (p, m') \<Rightarrow> p \<in> active_pipes (de_fq s) \<and> (fq_more (de_fq s) \<longrightarrow> p = fq_pipes (de_fq s) ! fq_current (de_fq s)) \<and> acct w' (m' # hs)
         \<and> body w' m' = body w m' \<and> queue w p = m' # queue w' p \<and> (\<forall>x. x \<noteq> p \<longrightarrow> queue w' x = queue w x)
         \<and> fq_more f = has_more m' \<and> (has_more m' \<longrightarrow> p = fq_pipes f ! fq_current f)"
    using recv_step [OF assms(2-4)] by blast
  have run: "dealer_recvpipe pops m s w = Some (r, s\<lparr>de_fq := f\<rparr>, w')" using s(1) assms(1) by (simp add: dealer_recvpipe_def)
  show ?thesis
  proof (cases r)
    case (Inl e)
    with run s show ?thesis by (auto simp: reads_def taken_def fq_reading_def)
  next
    case (Inr x)
    obtain p m' where x: "x = (p, m')" by (cases x)
    have "left f w' < left (de_fq s) w" using left_less [OF s(4), of p w m' w'] s(6) Inr x by auto
    with run s Inr x show ?thesis by (auto simp: reads_def taken_def fq_reading_def)
  qed
qed

text \<open>Reading one part of a wanted pipe: those of others are passed over.\<close>

lemma reply_part_spec:
  assumes "pe_sock pops = ops" "inv w" "fq_ok live queue (de_fq s) w" "acct w (m # hs)"
  shows "\<exists>r tr f w'. recv_reply_pipe pops m s w = Some (r, s\<lparr>de_fq := f\<rparr>, w') \<and> reads (de_fq s) w tr f w' hs \<and>
    (case r of
       Inl e \<Rightarrow> e = EAGAIN \<and> acct w' hs \<and> fq_reading f = None \<and> (\<forall>x \<in> set tr. \<not> wanted_pipe s (fst x))
     | Inr (p, m') \<Rightarrow> acct w' (m' # hs) \<and> body w' m' = body w m' \<and> wanted_pipe s p \<and> fq_reading f = (if has_more m' then Some p else None)
         \<and> (\<exists>tr0. tr = tr0 @ [(p, m')] \<and> (\<forall>x \<in> set tr0. \<not> wanted_pipe s (fst x))) \<and> left f w' < left (de_fq s) w)"
  using assms(2-4)
proof (induction "left (de_fq s) w" arbitrary: m s w rule: less_induct)
  case less
  obtain r f w1 where s: "dealer_recvpipe pops m s w = Some (r, s\<lparr>de_fq := f\<rparr>, w1)"
    "case r of
       Inl e \<Rightarrow> e = EAGAIN \<and> reads (de_fq s) w [] f w1 hs \<and> acct w1 hs \<and> fq_reading (de_fq s) = None \<and> fq_reading f = None
     | Inr (p, m') \<Rightarrow> reads (de_fq s) w [(p, m')] f w1 hs \<and> acct w1 (m' # hs) \<and> body w1 m' = body w m'
         \<and> fq_reading f = (if has_more m' then Some p else None) \<and> left f w1 < left (de_fq s) w"
    using part_spec [OF assms(1) less.prems] by blast
  show ?case
  proof (cases r)
    case (Inl e)
    have "recv_reply_pipe pops m s w = Some (Inl e, s\<lparr>de_fq := f\<rparr>, w1)" using s(1) Inl by (subst recv_reply_pipe.simps) simp
    with s(2) Inl show ?thesis by (intro exI [of _ "Inl e"] exI [of _ "[]"] exI [of _ f] exI [of _ w1]) simp
  next
    case (Inr x)
    obtain p m' where x: "x = (p, m')" by (cases x)
    note t = s(2) [unfolded Inr x sum.case prod.case]
    show ?thesis
    proof (cases "wanted_pipe s p")
      case True
      then have "recv_reply_pipe pops m s w = Some (r, s\<lparr>de_fq := f\<rparr>, w1)"
        using s(1) Inr x by (subst recv_reply_pipe.simps) (auto simp: wanted_pipe_def)
      with t True Inr x show ?thesis by (intro exI [of _ r] exI [of _ "[(p, m')]"] exI [of _ f] exI [of _ w1]) simp
    next
      case False
      let ?s = "s\<lparr>de_fq := f\<rparr>"
      have pre: "left (de_fq ?s) w1 < left (de_fq s) w" "inv w1" "fq_ok live queue (de_fq ?s) w1" "acct w1 (m' # hs)"
        using t by (simp_all add: reads_def)
      have wp: "wanted_pipe ?s = wanted_pipe s" by (simp add: wanted_pipe_def fun_eq_iff)
      obtain r2 tr f2 w2 where IH0: "recv_reply_pipe pops m' ?s w1 = Some (r2, ?s\<lparr>de_fq := f2\<rparr>, w2)" "reads (de_fq ?s) w1 tr f2 w2 hs"
        "case r2 of
         Inl e \<Rightarrow> e = EAGAIN \<and> acct w2 hs \<and> fq_reading f2 = None \<and> (\<forall>x \<in> set tr. \<not> wanted_pipe s (fst x))
       | Inr (p, m') \<Rightarrow> acct w2 (m' # hs) \<and> body w2 m' = body w1 m' \<and> wanted_pipe s p \<and> fq_reading f2 = (if has_more m' then Some p else None)
           \<and> (\<exists>tr0. tr = tr0 @ [(p, m')] \<and> (\<forall>x \<in> set tr0. \<not> wanted_pipe s (fst x))) \<and> left f2 w2 < left (de_fq ?s) w1"
        using less.hyps [OF pre, unfolded wp] by blast
      have IH: "recv_reply_pipe pops m' ?s w1 = Some (r2, s\<lparr>de_fq := f2\<rparr>, w2)" "reads f w1 tr f2 w2 hs" using IH0(1,2) by simp_all
      have run: "recv_reply_pipe pops m s w = Some (r2, s\<lparr>de_fq := f2\<rparr>, w2)"
        using s(1) Inr x False IH(1) by (subst recv_reply_pipe.simps) (auto simp: wanted_pipe_def)
      have rd: "reads (de_fq s) w ((p, m') # tr) f2 w2 hs" using reads_trans [OF _ IH(2), of "de_fq s" w "[(p, m')]"] t by simp
      have sb: "body w1 y = body w y" if "(q, y) \<in> set tr" for q y
        using reads_in_queue [OF IH(2) that] t by (auto simp: reads_def same_bodies_def)
      show ?thesis
      proof (cases r2)
        case (Inl e)
        with run rd IH0(3) False show ?thesis
          by (intro exI [of _ r2] exI [of _ "(p, m') # tr"] exI [of _ f2] exI [of _ w2]) simp
      next
        case (Inr y)
        obtain q m2 where y: "y = (q, m2)" by (cases y)
        note u = IH0(3) [unfolded Inr y sum.case prod.case]
        then obtain tr0 where tr0: "tr = tr0 @ [(q, m2)]" "\<forall>x \<in> set tr0. \<not> wanted_pipe s (fst x)" by blast
        then have "body w1 m2 = body w m2" using sb [of q m2] by simp
        with run rd u tr0 False Inr y t show ?thesis
          by (intro exI [of _ r2] exI [of _ "(p, m') # tr"] exI [of _ f2] exI [of _ w2]) (auto intro!: exI [of _ "(p, m') # tr0"])
      qed
    qed
  qed
qed

text \<open>In the middle of a message of a wanted pipe the next part is read at once.\<close>

lemma reply_next_part:
  assumes "pe_sock pops = ops" "inv w" "fq_ok live queue (de_fq s) w" "acct w (m # hs)" "fq_reading (de_fq s) = Some p" "wanted_pipe s p"
  shows "\<exists>m' f w'. recv_reply_pipe pops m s w = Some (Inr (p, m'), s\<lparr>de_fq := f\<rparr>, w') \<and> reads (de_fq s) w [(p, m')] f w' hs
    \<and> acct w' (m' # hs) \<and> body w' m' = body w m' \<and> fq_reading f = (if has_more m' then Some p else None) \<and> left f w' < left (de_fq s) w"
proof -
  obtain r tr f w' where s: "recv_reply_pipe pops m s w = Some (r, s\<lparr>de_fq := f\<rparr>, w')" "reads (de_fq s) w tr f w' hs"
    "case r of
       Inl e \<Rightarrow> e = EAGAIN \<and> acct w' hs \<and> fq_reading f = None \<and> (\<forall>x \<in> set tr. \<not> wanted_pipe s (fst x))
     | Inr (p, m') \<Rightarrow> acct w' (m' # hs) \<and> body w' m' = body w m' \<and> wanted_pipe s p \<and> fq_reading f = (if has_more m' then Some p else None)
         \<and> (\<exists>tr0. tr = tr0 @ [(p, m')] \<and> (\<forall>x \<in> set tr0. \<not> wanted_pipe s (fst x))) \<and> left f w' < left (de_fq s) w"
    using reply_part_spec [OF assms(1-4)] by blast
  have at: "atomic (Some p) tr" "reading_after (Some p) tr = fq_reading f" using s(2) assms(5) by (simp_all add: reads_def)
  have first: "\<exists>m tr'. tr = (p, m) # tr'" if "tr \<noteq> []" using that at(1) by (cases tr) auto
  show ?thesis
  proof (cases r)
    case (Inl e)
    with s(3) first assms(6) have "tr = []" by fastforce
    with at(2) s(3) Inl show ?thesis by simp
  next
    case (Inr x)
    obtain q m' where x: "x = (q, m')" by (cases x)
    with s(3) Inr obtain tr0 where tr0: "tr = tr0 @ [(q, m')]" "\<forall>x \<in> set tr0. \<not> wanted_pipe s (fst x)" by auto
    have "tr0 = []" using first tr0 assms(6) by (cases tr0) auto
    moreover have "q = p" using first tr0(1) calculation by auto
    ultimately show ?thesis using s Inr x tr0(1) by auto
  qed
qed

text \<open>Passing over the rest of a message.\<close>

lemma skip_frames_spec:
  assumes "pe_sock pops = ops" "inv w" "fq_ok live queue (de_fq s) w" "acct w (m # hs)" "wanted_pipe s p"
    and "fq_reading (de_fq s) = (if has_more m then Some p else None)"
  shows "\<exists>m' ms f w'. skip_frames pops m s w = Some (m', s\<lparr>de_fq := f\<rparr>, w') \<and> reads (de_fq s) w (map (Pair p) ms) f w' hs
    \<and> acct w' (m' # hs) \<and> fq_reading f = None \<and> whole (p, m # ms) \<and> left f w' \<le> left (de_fq s) w"
  using assms(2-6)
proof (induction "left (de_fq s) w" arbitrary: m s w rule: less_induct)
  case less
  show ?case
  proof (cases "has_more m")
    case False
    then have "skip_frames pops m s w = Some (m, s, w)" by (subst skip_frames.simps) simp
    with False less.prems reads_Nil [OF less.prems(1,2), of hs] show ?thesis
      by (intro exI [of _ m] exI [of _ "[]"] exI [of _ "de_fq s"] exI [of _ w]) (simp add: whole_def)
  next
    case True
    then have rd: "fq_reading (de_fq s) = Some p" using less.prems(5) by simp
    obtain m' f w1 where s: "recv_reply_pipe pops m s w = Some (Inr (p, m'), s\<lparr>de_fq := f\<rparr>, w1)" "reads (de_fq s) w [(p, m')] f w1 hs"
      "acct w1 (m' # hs)" "fq_reading f = (if has_more m' then Some p else None)" "left f w1 < left (de_fq s) w"
      using reply_next_part [OF assms(1) less.prems(1-3) rd less.prems(4)] by blast
    let ?s = "s\<lparr>de_fq := f\<rparr>"
    have pre: "left (de_fq ?s) w1 < left (de_fq s) w" "inv w1" "fq_ok live queue (de_fq ?s) w1" "acct w1 (m' # hs)" "wanted_pipe ?s p"
      "fq_reading (de_fq ?s) = (if has_more m' then Some p else None)"
      using s less.prems(4) by (simp_all add: reads_def wanted_pipe_def)
    obtain m2 ms f2 w2 where IH: "skip_frames pops m' ?s w1 = Some (m2, s\<lparr>de_fq := f2\<rparr>, w2)" "reads f w1 (map (Pair p) ms) f2 w2 hs"
      "acct w2 (m2 # hs)" "fq_reading f2 = None" "whole (p, m' # ms)" "left f2 w2 \<le> left f w1"
      using less.hyps [OF pre] by auto
    have "skip_frames pops m s w = Some (m2, s\<lparr>de_fq := f2\<rparr>, w2)" using True s(1) IH(1) by (subst skip_frames.simps) simp
    moreover have "reads (de_fq s) w (map (Pair p) (m' # ms)) f2 w2 hs" using reads_trans [OF s(2) IH(2)] by simp
    ultimately show ?thesis using IH(3-6) True s(5)
      by (intro exI [of _ m2] exI [of _ "m' # ms"] exI [of _ f2] exI [of _ w2]) (auto simp: whole_def)
  qed
qed

end

subsection \<open>Finding the reply\<close>

lemma reading_after_Some: "reading_after c tr = Some p \<Longrightarrow> c = Some p \<or> (\<exists>m. (p, m) \<in> set tr)"
  by (induction c tr rule: reading_after.induct) (auto split: if_splits)

lemma foreign_blocks:
  assumes "atomic None tr" "reading_after None tr = None" "\<forall>x \<in> set tr. \<not> P (fst x)"
  shows "\<exists>bs. tr = spread bs \<and> (\<forall>b \<in> set bs. whole b \<and> \<not> P (fst b))"
proof -
  obtain bs where bs: "tr = spread bs" "\<forall>b \<in> set bs. whole b" using trace_blocks [OF assms(1,2)] by auto
  have "\<not> P (fst b)" if b: "b \<in> set bs" for b
  proof -
    obtain p ms where p: "b = (p, ms)" by (cases b)
    then have "ms \<noteq> []" using bs(2) b by (auto simp: whole_def)
    then obtain m where "m \<in> set ms" by (cases ms) auto
    then have "(p, m) \<in> set tr" using bs(1) b p by (force simp: spread_def)
    then show ?thesis using assms(3) p by auto
  qed
  with bs show ?thesis by blast
qed

lemma foreign_before:
  assumes "atomic None (tr @ [(p, m)])" "\<forall>x \<in> set tr. \<not> P (fst x)" "P p"
  shows "\<exists>bs. tr = spread bs \<and> (\<forall>b \<in> set bs. whole b \<and> \<not> P (fst b))"
proof -
  have a: "atomic None tr" "reading_after None tr = None \<or> reading_after None tr = Some p" using assms(1) by (auto simp: trace_append)
  have "reading_after None tr \<noteq> Some p" using reading_after_Some [of None tr p] assms(2,3) by fastforce
  with a foreign_blocks [OF a(1)] assms(2) show ?thesis by blast
qed

lemma envelope_cong: "(\<And>m. m \<in> set ms \<Longrightarrow> bd m = bd' m) \<Longrightarrow> envelope s bd ms = envelope s bd' ms"
  by (auto simp: envelope_def)

lemma is_reply_cong:
  assumes "\<And>m. m \<in> set (snd b) \<Longrightarrow> bd m = bd' m"
  shows "is_reply s bd b = is_reply s bd' b"
proof -
  have "envelope s bd env = envelope s bd' env" if "snd b = env @ rest" for env rest using assms that by (intro envelope_cong) auto
  then show ?thesis unfolding is_reply_def by blast
qed

lemma reply_state [simp]: "wanted_pipe (s\<lparr>de_fq := f\<rparr>) = wanted_pipe s" "envelope (s\<lparr>de_fq := f\<rparr>) = envelope s" "is_reply (s\<lparr>de_fq := f\<rparr>) = is_reply s"
  by (simp_all add: fun_eq_iff wanted_pipe_def envelope_def is_reply_def)

text \<open>Why a message is not a reply.\<close>

lemma not_reply:
  "\<not> wanted_pipe s p \<Longrightarrow> \<not> is_reply s bd (p, ms)"
  "rq_id_frames s \<Longrightarrow> whole (p, i # ms) \<Longrightarrow> \<not> (has_more i \<and> bd i = id_bytes (rq_request_id s)) \<Longrightarrow> \<not> is_reply s bd (p, i # ms)"
  "rq_id_frames s \<Longrightarrow> whole (p, i # d # ms) \<Longrightarrow> \<not> (has_more d \<and> bd d = []) \<Longrightarrow> \<not> is_reply s bd (p, i # d # ms)"
  "\<not> rq_id_frames s \<Longrightarrow> whole (p, d # ms) \<Longrightarrow> \<not> (has_more d \<and> bd d = []) \<Longrightarrow> \<not> is_reply s bd (p, d # ms)"
  by (auto simp: is_reply_def envelope_def whole_def split: if_splits)

context filter_source
begin

lemma reply_first_part:
  assumes "pe_sock pops = ops" "inv w" "fq_ok live queue (de_fq s) w" "acct w (m # hs)" "fq_reading (de_fq s) = None"
  shows "\<exists>r bs tl f w'. recv_reply_pipe pops m s w = Some (r, s\<lparr>de_fq := f\<rparr>, w') \<and> reads (de_fq s) w (spread bs @ tl) f w' hs
    \<and> (\<forall>b \<in> set bs. whole b \<and> \<not> wanted_pipe s (fst b)) \<and>
    (case r of
       Inl e \<Rightarrow> e = EAGAIN \<and> tl = [] \<and> acct w' hs \<and> fq_reading f = None
     | Inr (p, m') \<Rightarrow> tl = [(p, m')] \<and> acct w' (m' # hs) \<and> body w' m' = body w m' \<and> wanted_pipe s p
         \<and> fq_reading f = (if has_more m' then Some p else None) \<and> left f w' < left (de_fq s) w)"
proof -
  obtain r tr f w' where s: "recv_reply_pipe pops m s w = Some (r, s\<lparr>de_fq := f\<rparr>, w')" "reads (de_fq s) w tr f w' hs"
    "case r of
       Inl e \<Rightarrow> e = EAGAIN \<and> acct w' hs \<and> fq_reading f = None \<and> (\<forall>x \<in> set tr. \<not> wanted_pipe s (fst x))
     | Inr (p, m') \<Rightarrow> acct w' (m' # hs) \<and> body w' m' = body w m' \<and> wanted_pipe s p \<and> fq_reading f = (if has_more m' then Some p else None)
         \<and> (\<exists>tr0. tr = tr0 @ [(p, m')] \<and> (\<forall>x \<in> set tr0. \<not> wanted_pipe s (fst x))) \<and> left f w' < left (de_fq s) w"
    using reply_part_spec [OF assms(1-4)] by blast
  have at: "atomic None tr" "reading_after None tr = fq_reading f" using s(2) assms(5) by (simp_all add: reads_def)
  show ?thesis
  proof (cases r)
    case (Inl e)
    with s(3) at foreign_blocks [of tr "wanted_pipe s"] obtain bs where "tr = spread bs" "\<forall>b \<in> set bs. whole b \<and> \<not> wanted_pipe s (fst b)" by auto
    with s Inl show ?thesis by (intro exI [of _ r] exI [of _ bs] exI [of _ "[]"] exI [of _ f] exI [of _ w']) simp
  next
    case (Inr x)
    obtain p m' where x: "x = (p, m')" by (cases x)
    note t = s(3) [unfolded Inr x sum.case prod.case]
    then obtain tr0 where tr0: "tr = tr0 @ [(p, m')]" "\<forall>x \<in> set tr0. \<not> wanted_pipe s (fst x)" by blast
    then obtain bs where "tr0 = spread bs" "\<forall>b \<in> set bs. whole b \<and> \<not> wanted_pipe s (fst b)"
      using foreign_before [of tr0 p m' "wanted_pipe s"] at(1) t by blast
    with s t tr0 Inr x show ?thesis by (intro exI [of _ r] exI [of _ bs] exI [of _ "[(p, m')]"] exI [of _ f] exI [of _ w']) simp
  qed
qed

definition found :: "req \<Rightarrow> 'w \<Rightarrow> msg list \<Rightarrow> (errno + msg) \<times> req \<times> 'w \<Rightarrow> bool" where
  "found s w hs res \<longleftrightarrow> (case res of (r, s', w') \<Rightarrow> \<exists>bs tl. reads (de_fq s) w (spread bs @ tl) (de_fq s') w' hs
     \<and> (\<forall>b \<in> set bs. whole b \<and> \<not> is_reply s (body w) b) \<and>
     (case r of
        Inl e \<Rightarrow> e = EAGAIN \<and> tl = [] \<and> s' = s\<lparr>de_fq := de_fq s'\<rparr> \<and> acct w' hs \<and> fq_reading (de_fq s') = None
      | Inr m' \<Rightarrow> s' = s\<lparr>de_fq := de_fq s', rq_message_begins := False\<rparr> \<and> acct w' (m' # hs)
          \<and> (\<exists>p env. tl = map (Pair p) env \<and> wanted_pipe s p \<and> envelope s (body w) env \<and> (\<forall>x \<in> set env. has_more x)
               \<and> fq_reading (de_fq s') = Some p)))"

text \<open>What was passed over first does not matter to what is found later.\<close>

lemma found_later:
  assumes "reads (de_fq s) w (spread bs) f w1 hs" "\<forall>b \<in> set bs. whole b \<and> \<not> is_reply s (body w) b" "found (s\<lparr>de_fq := f\<rparr>) w1 hs res"
  shows "found s w hs res"
proof -
  obtain r s' w' where res: "res = (r, s', w')" by (cases res)
  let ?s = "s\<lparr>de_fq := f\<rparr>"
  obtain cs tl where c0: "reads (de_fq ?s) w1 (spread cs @ tl) (de_fq s') w' hs" "\<forall>b \<in> set cs. whole b \<and> \<not> is_reply ?s (body w1) b"
    and t: "case r of
        Inl e \<Rightarrow> e = EAGAIN \<and> tl = [] \<and> s' = ?s\<lparr>de_fq := de_fq s'\<rparr> \<and> acct w' hs \<and> fq_reading (de_fq s') = None
      | Inr m' \<Rightarrow> s' = ?s\<lparr>de_fq := de_fq s', rq_message_begins := False\<rparr> \<and> acct w' (m' # hs)
          \<and> (\<exists>p env. tl = map (Pair p) env \<and> wanted_pipe ?s p \<and> envelope ?s (body w1) env \<and> (\<forall>x \<in> set env. has_more x)
               \<and> fq_reading (de_fq s') = Some p)"
    using assms(3) unfolding found_def res prod.case by blast
  have c: "reads f w1 (spread cs @ tl) (de_fq s') w' hs" "\<forall>b \<in> set cs. whole b \<and> \<not> is_reply s (body w1) b" using c0 by simp_all
  have rd: "reads (de_fq s) w (spread (bs @ cs) @ tl) (de_fq s') w' hs" using reads_trans [OF assms(1) c(1)] by simp
  have bd: "body w1 y = body w y" if "(q, y) \<in> set (spread cs @ tl)" for q y
    using reads_in_queue [OF c(1) that] assms(1) by (auto simp: reads_def same_bodies_def)
  have "\<not> is_reply s (body w) b" if b: "b \<in> set cs" for b
  proof -
    have "body w1 y = body w y" if "y \<in> set (snd b)" for y
      using bd [of "fst b" y] b that by (force simp: spread_def)
    then have "is_reply s (body w1) b = is_reply s (body w) b" by (rule is_reply_cong)
    with c(2) b show ?thesis by blast
  qed
  then have ok: "\<forall>b \<in> set (bs @ cs). whole b \<and> \<not> is_reply s (body w) b" using assms(2) c(2) by auto
  have env: "envelope s (body w1) e = envelope s (body w) e" if "tl = map (Pair p) e" for p e
    using bd that by (intro envelope_cong) auto
  show ?thesis
  proof (cases r)
    case (Inl e)
    with rd ok t show ?thesis unfolding res found_def prod.case by (intro exI [of _ "bs @ cs"] exI [of _ tl]) simp
  next
    case (Inr m')
    note u = t [unfolded Inr sum.case]
    then obtain p e where e: "tl = map (Pair p) e" "wanted_pipe ?s p" "envelope ?s (body w1) e" "\<forall>x \<in> set e. has_more x"
      "fq_reading (de_fq s') = Some p" by blast
    then have "envelope s (body w) e" using env [OF e(1)] by simp
    with rd ok u e Inr show ?thesis unfolding res found_def prod.case
      by (intro exI [of _ "bs @ cs"] exI [of _ tl]) auto
  qed
qed

text \<open>Passing over a message that is not a reply, and going on.\<close>

definition searches :: "'w peer_ops \<Rightarrow> req \<Rightarrow> msg list \<Rightarrow> nat \<Rightarrow> bool" where
  "searches pops s0 hs n \<longleftrightarrow> (\<forall>m s w. left (de_fq s) w < n \<longrightarrow> inv w \<longrightarrow> fq_ok live queue (de_fq s) w \<longrightarrow> acct w (m # hs)
     \<longrightarrow> fq_reading (de_fq s) = None \<longrightarrow> (\<exists>f. s = s0\<lparr>de_fq := f\<rparr>)
     \<longrightarrow> (\<exists>res. req_find_reply pops m s w = Some res \<and> found s w hs res))"

lemma skip_to_next:
  assumes "pe_sock pops = ops" "reads (de_fq s) w (spread bs @ map (Pair p) (pre @ [x])) f w1 hs" "\<forall>b \<in> set bs. whole b \<and> \<not> is_reply s (body w) b"
    and "acct w1 (x # hs)" "wanted_pipe s p" "fq_reading f = (if has_more x then Some p else None)" "\<forall>y \<in> set pre. has_more y"
    and bad: "\<And>ms. whole (p, pre @ x # ms) \<Longrightarrow> \<not> is_reply s (body w) (p, pre @ x # ms)"
    and less: "left f w1 < left (de_fq s) w" and IH: "searches pops s hs (left (de_fq s) w)"
  shows "\<exists>m2 s2 w2 res. skip_frames pops x (s\<lparr>de_fq := f\<rparr>) w1 = Some (m2, s2, w2) \<and> req_find_reply pops m2 s2 w2 = Some res \<and> found s w hs res"
proof -
  let ?s = "s\<lparr>de_fq := f\<rparr>"
  have pre: "inv w1" "fq_ok live queue (de_fq ?s) w1" "acct w1 (x # hs)" "wanted_pipe ?s p" "fq_reading (de_fq ?s) = (if has_more x then Some p else None)"
    using assms by (simp_all add: reads_def)
  obtain m2 ms f2 w2 where k: "skip_frames pops x ?s w1 = Some (m2, ?s\<lparr>de_fq := f2\<rparr>, w2)" "reads f w1 (map (Pair p) ms) f2 w2 hs"
    "acct w2 (m2 # hs)" "fq_reading f2 = None" "whole (p, x # ms)" "left f2 w2 \<le> left f w1"
    using skip_frames_spec [OF assms(1) pre] by auto
  let ?s2 = "s\<lparr>de_fq := f2\<rparr>"
  have "inv w2" "fq_ok live queue f2 w2" using k(2) by (simp_all add: reads_def)
  then obtain res where res: "req_find_reply pops m2 ?s2 w2 = Some res" "found ?s2 w2 hs res"
    using IH [unfolded searches_def, rule_format, of ?s2 w2 m2] k(3,4,6) less by auto
  have wh: "whole (p, pre @ x # ms)" using k(5) assms(7) by (auto simp: whole_def butlast_append)
  have "reads (de_fq s) w (spread (bs @ [(p, pre @ x # ms)])) f2 w2 hs" using reads_trans [OF assms(2) k(2)] by simp
  moreover have "\<forall>b \<in> set (bs @ [(p, pre @ x # ms)]). whole b \<and> \<not> is_reply s (body w) b" using assms(3) wh bad [OF wh] by simp
  ultimately have "found s w hs res" using res(2) by (rule found_later)
  moreover have "skip_frames pops x ?s w1 = Some (m2, ?s2, w2)" using k(1) by simp
  ultimately show ?thesis using res(1) by blast
qed

text \<open>The empty part in front of the body.\<close>

lemma at_delimiter:
  assumes "pe_sock pops = ops" "reads (de_fq s) w (spread bs @ map (Pair p) (pre @ [d])) f w1 hs" "\<forall>b \<in> set bs. whole b \<and> \<not> is_reply s (body w) b"
    and "acct w1 (d # hs)" "wanted_pipe s p" "fq_reading f = (if has_more d then Some p else None)" "\<forall>y \<in> set pre. has_more y"
    and good: "envelope s (body w) (pre @ [d]) \<longleftrightarrow> body w d = []" and same: "body w1 d = body w d"
    and bad: "\<And>ms. whole (p, pre @ d # ms) \<Longrightarrow> \<not> (has_more d \<and> body w d = []) \<Longrightarrow> \<not> is_reply s (body w) (p, pre @ d # ms)"
    and less: "left f w1 < left (de_fq s) w" and IH: "searches pops s hs (left (de_fq s) w)"
  shows "\<exists>res. do {
       b \<leftarrow> so_bytes (pe_sock pops) d w1;
       if \<not> has_more d \<or> b \<noteq> [] then do { (m3, s3, w3) \<leftarrow> skip_frames pops d (s\<lparr>de_fq := f\<rparr>) w1; req_find_reply pops m3 s3 w3 }
       else Some (Inr d, (s\<lparr>de_fq := f\<rparr>)\<lparr>rq_message_begins := False\<rparr>, w1) } = Some res \<and> found s w hs res"
proof -
  have b: "so_bytes (pe_sock pops) d w1 = Some (body w d)" using bytes_acct [OF assms(4)] same assms(1) by simp
  show ?thesis
  proof (cases "has_more d \<and> body w d = []")
    case True
    let ?s = "s\<lparr>de_fq := f, rq_message_begins := False\<rparr>"
    have "found s w hs (Inr d, ?s, w1)"
      unfolding found_def prod.case sum.case using assms(2-7) True good
      by (intro exI [of _ bs] exI [of _ "map (Pair p) (pre @ [d])"] conjI exI [of _ p] exI [of _ "pre @ [d]"]) auto
    with True b show ?thesis by auto
  next
    case False
    obtain m2 s2 w2 res where "skip_frames pops d (s\<lparr>de_fq := f\<rparr>) w1 = Some (m2, s2, w2)" "req_find_reply pops m2 s2 w2 = Some res" "found s w hs res"
      using skip_to_next [OF assms(1-7) bad less IH] False by blast
    with b False show ?thesis by (intro exI [of _ res]) auto
  qed
qed

lemma find_reply_spec:
  assumes "pe_sock pops = ops" "inv w" "fq_ok live queue (de_fq s) w" "acct w (m # hs)" "fq_reading (de_fq s) = None"
  shows "\<exists>res. req_find_reply pops m s w = Some res \<and> found s w hs res"
  using assms(2-5)
proof (induction "left (de_fq s) w" arbitrary: m s w rule: less_induct)
  case less
  have IH: "searches pops s hs (left (de_fq s) w)" unfolding searches_def using less.hyps by blast
  obtain r bs tl f w1 where st: "recv_reply_pipe pops m s w = Some (r, s\<lparr>de_fq := f\<rparr>, w1)" "reads (de_fq s) w (spread bs @ tl) f w1 hs"
    "\<forall>b \<in> set bs. whole b \<and> \<not> wanted_pipe s (fst b)"
    and c: "case r of
       Inl e \<Rightarrow> e = EAGAIN \<and> tl = [] \<and> acct w1 hs \<and> fq_reading f = None
     | Inr (p, m') \<Rightarrow> tl = [(p, m')] \<and> acct w1 (m' # hs) \<and> body w1 m' = body w m' \<and> wanted_pipe s p
         \<and> fq_reading f = (if has_more m' then Some p else None) \<and> left f w1 < left (de_fq s) w"
    using reply_first_part [OF assms(1) less.prems] by blast
  have bs: "\<forall>b \<in> set bs. whole b \<and> \<not> is_reply s (body w) b" using st(3) by (auto simp: is_reply_def)
  show ?case
  proof (cases r)
    case (Inl e)
    have "req_find_reply pops m s w = Some (Inl e, s\<lparr>de_fq := f\<rparr>, w1)"
      using st(1) Inl by (subst req_find_reply.simps) (auto simp: req_check_id_def)
    moreover have "found s w hs (Inl e, s\<lparr>de_fq := f\<rparr>, w1)" unfolding found_def prod.case
      using st(2) c Inl bs by (intro exI [of _ bs] exI [of _ "[]"]) simp
    ultimately show ?thesis by blast
  next
    case (Inr y)
    obtain p i where y: "y = (p, i)" by (cases y)
    note t = c [unfolded Inr y sum.case prod.case]
    let ?s = "s\<lparr>de_fq := f\<rparr>"
    have rd1: "reads (de_fq s) w (spread bs @ map (Pair p) ([] @ [i])) f w1 hs" using st(2) t by simp
    show ?thesis
    proof (cases "rq_id_frames s")
      case False
      have "\<exists>res. do {
         b \<leftarrow> so_bytes (pe_sock pops) i w1;
         if \<not> has_more i \<or> b \<noteq> [] then do { (m3, s3, w3) \<leftarrow> skip_frames pops i ?s w1; req_find_reply pops m3 s3 w3 }
         else Some (Inr i, ?s\<lparr>rq_message_begins := False\<rparr>, w1) } = Some res \<and> found s w hs res"
        using t False not_reply(4) [of s p i _ "body w"]
        by (intro at_delimiter [OF assms(1) rd1 bs _ _ _ _ _ _ _ _ IH]) (auto simp: envelope_def)
      moreover have "req_find_reply pops m s w = do {
         b \<leftarrow> so_bytes (pe_sock pops) i w1;
         if \<not> has_more i \<or> b \<noteq> [] then do { (m3, s3, w3) \<leftarrow> skip_frames pops i ?s w1; req_find_reply pops m3 s3 w3 }
         else Some (Inr i, ?s\<lparr>rq_message_begins := False\<rparr>, w1) }"
        using st(1) Inr y False by (subst req_find_reply.simps) (simp add: req_check_id_def)
      ultimately show ?thesis by simp
    next
      case True
      have b: "so_bytes (pe_sock pops) i w1 = Some (body w i)" using bytes_acct [of w1 i hs] t assms(1) by simp
      have chk: "req_check_id pops m s w = Some (has_more i \<and> body w i = id_bytes (rq_request_id s), Inr i, ?s, w1)"
        using st(1) Inr y True b by (simp add: req_check_id_def)
      show ?thesis
      proof (cases "has_more i \<and> body w i = id_bytes (rq_request_id s)")
        case False
        have "\<exists>m2 s2 w2 res. skip_frames pops i ?s w1 = Some (m2, s2, w2) \<and> req_find_reply pops m2 s2 w2 = Some res \<and> found s w hs res"
          using t True False not_reply(2) [of s p i _ "body w"]
          by (intro skip_to_next [OF assms(1) rd1 bs _ _ _ _ _ _ IH]) auto
        then obtain m2 s2 w2 res where k: "skip_frames pops i ?s w1 = Some (m2, s2, w2)" "req_find_reply pops m2 s2 w2 = Some res"
          "found s w hs res" by blast
        have "req_find_reply pops m s w = Some res" using chk k(1,2) False by (subst req_find_reply.simps) simp
        with k(3) show ?thesis by blast
      next
        case ok: True
        have pre: "inv w1" "fq_ok live queue (de_fq ?s) w1" "acct w1 (i # hs)" "fq_reading (de_fq ?s) = Some p" "wanted_pipe ?s p"
          using t ok rd1 by (simp_all add: reads_def)
        obtain d f2 w2 where n: "recv_reply_pipe pops i ?s w1 = Some (Inr (p, d), ?s\<lparr>de_fq := f2\<rparr>, w2)" "reads f w1 [(p, d)] f2 w2 hs"
          "acct w2 (d # hs)" "body w2 d = body w1 d" "fq_reading f2 = (if has_more d then Some p else None)" "left f2 w2 < left f w1"
          using reply_next_part [OF assms(1) pre] by auto
        have rd2: "reads (de_fq s) w (spread bs @ map (Pair p) ([i] @ [d])) f2 w2 hs" using reads_trans [OF rd1 n(2)] by simp
        have "body w1 d = body w d" using reads_in_queue [OF n(2), of p d] rd1 by (auto simp: reads_def same_bodies_def)
        then have "\<exists>res. do {
           b \<leftarrow> so_bytes (pe_sock pops) d w2;
           if \<not> has_more d \<or> b \<noteq> [] then do { (m3, s3, w3) \<leftarrow> skip_frames pops d (s\<lparr>de_fq := f2\<rparr>) w2; req_find_reply pops m3 s3 w3 }
           else Some (Inr d, (s\<lparr>de_fq := f2\<rparr>)\<lparr>rq_message_begins := False\<rparr>, w2) } = Some res \<and> found s w hs res"
          using t ok n True not_reply(3) [of s p i d _ "body w"]
          by (intro at_delimiter [OF assms(1) rd2 bs _ _ _ _ _ _ _ _ IH]) (auto simp: envelope_def)
        moreover have "req_find_reply pops m s w = do {
           b \<leftarrow> so_bytes (pe_sock pops) d w2;
           if \<not> has_more d \<or> b \<noteq> [] then do { (m3, s3, w3) \<leftarrow> skip_frames pops d (s\<lparr>de_fq := f2\<rparr>) w2; req_find_reply pops m3 s3 w3 }
           else Some (Inr d, (s\<lparr>de_fq := f2\<rparr>)\<lparr>rq_message_begins := False\<rparr>, w2) }"
          using chk n(1) ok by (subst req_find_reply.simps) simp
        ultimately show ?thesis by simp
      qed
    qed
  qed
qed

end

subsection \<open>Receiving a reply over real pipes\<close>


text \<open>A late reply of an earlier request, and the reply.\<close>

definition reply_queues :: "msg list list" where
  "reply_queues = [[text_msg 1 (id_bytes 4), text_msg 1 [], text_msg 0 [1]], [text_msg 1 (id_bytes 5), text_msg 1 [], text_msg 0 [2]]]"

definition waiting_req :: req where
  "waiting_req = (req_new 5)\<lparr>de_fq := \<lparr>fq_pipes = [0, 1], fq_active = 2, fq_current = 0, fq_more = False\<rparr>,
     rq_receiving_reply := True, rq_id_frames := True\<rparr>"

text \<open>In a network whose messages hold no shared content every count is exact.\<close>

lemma net_of_acct:
  assumes "\<forall>ms \<in> set qs. complete ms \<and> (\<forall>m \<in> set ms. \<not> is_delimiter m \<and> \<not> is_credential m)"
    and "\<forall>ms \<in> set qs. \<forall>m \<in> set ms. regular m \<and> plain m \<and> (\<forall>c. m_body m \<noteq> Lmsg c)"
    and "\<forall>m \<in> set hs. regular m \<and> plain m \<and> (\<forall>c. m_body m \<noteq> Lmsg c)"
  shows "net_acct [] (net_of qs) hs"
proof -
  let ?w = "net_of qs"
  note net = net_of_inv [OF assms(1)]
  have "net_heap ?w = mv_heap (no_msgs 0)" by (simp add: net_of_def net_heap_def idle_world_def)
  then have none: "h_contents (net_heap ?w) c = None" for c by (simp add: no_msgs_def)
  have reg: "regular m \<and> plain m \<and> (\<forall>c. m_body m \<noteq> Lmsg c)" if "m \<in> set (net_queue ?w p)" for m p
  proof -
    have "p < length qs" "m \<in> set (qs ! p)" using that net(2) [of p] by (auto split: if_splits)
    with assms(2) nth_mem [of p qs] show ?thesis by blast
  qed
  have "refs_ok (hs @ concat (map (net_queue ?w) [0..<length qs]) @ []) (net_heap ?w)"
    using reg none assms(3) by (auto simp: refs_ok_def content_ok_def holders_def filter_empty_conv)
  moreover have "p \<in> set [0..<length qs]" if "net_queue ?w p \<noteq> []" for p using that net(2) [of p] by (auto split: if_splits)
  ultimately show ?thesis using reg assms(3) unfolding net_acct_def
    by (intro conjI exI [of _ "[0..<length qs]"]) auto
qed

lemma text_msg_simps [simp]:
  "regular (text_msg f b)" "plain (text_msg f b)" "m_body (text_msg f b) \<noteq> Lmsg c" "has_more (text_msg f b) \<longleftrightarrow> f AND 1 \<noteq> 0"
  by (simp_all add: text_msg_def fresh_msg_def regular_def plain_def has_flag_def flag_defs)


end
