(* ===== verification/Router.thy ===== *)
theory Router
  imports Patterns Wire "HOL-Library.AList"
begin

text \<open>
  Sockets that address their peers: the routing table of \<^verbatim>\<open>routing_socket_base_t\<close> (socket_base.cpp), \<^verbatim>\<open>router_t\<close> (router.cpp) and the reply socket
  \<^verbatim>\<open>rep_t\<close> built on it (rep.cpp).
\<close>

subsection \<open>The routing table\<close>

text \<open>A \<^verbatim>\<open>std::map\<close> from routing ids to pipes, in the order of \<^verbatim>\<open>blob_t\<close>: the pipe and whether it takes messages.\<close>

type_synonym out_table = "(bytes \<times> nat \<times> bool) list"

fun blob_less :: "bytes \<Rightarrow> bytes \<Rightarrow> bool" where
  "blob_less xs [] \<longleftrightarrow> False"
| "blob_less [] (y # ys) \<longleftrightarrow> True"
| "blob_less (x # xs) (y # ys) \<longleftrightarrow> x < y \<or> x = y \<and> blob_less xs ys"

fun table_insert :: "bytes \<Rightarrow> nat \<times> bool \<Rightarrow> out_table \<Rightarrow> out_table" where
  "table_insert k v [] = [(k, v)]"
| "table_insert k v ((k', v') # t) = (if blob_less k k' then (k, v) # (k', v') # t else (k', v') # table_insert k v t)"

record routing =
  rb_out_pipes :: out_table
  rb_connect_routing_id :: bytes

definition routing_destroy :: "'a routing_scheme \<Rightarrow> unit option" where
  "routing_destroy s = zmq_assert (rb_out_pipes s = [])"

definition OPT_CONNECT_ROUTING_ID :: int where "OPT_CONNECT_ROUTING_ID = 61"

definition routing_setsockopt :: "int \<Rightarrow> optval \<Rightarrow> 'a routing_scheme \<Rightarrow> errno option \<times> 'a routing_scheme" where
  "routing_setsockopt opt v s =
     (case v of
        Val b \<Rightarrow> if opt = OPT_CONNECT_ROUTING_ID \<and> b \<noteq> [] then (None, s\<lparr>rb_connect_routing_id := b\<rparr>) else (Some EINVAL, s)
      | NullVal n \<Rightarrow> (Some EINVAL, s))"

text \<open>The first entry of the pipe in the order of the table.\<close>

fun activate_entry :: "nat \<Rightarrow> out_table \<Rightarrow> out_table option" where
  "activate_entry p [] = None"
| "activate_entry p ((k, q, a) # t) =
     (if q = p then do { zmq_assert (\<not> a); Some ((k, q, True) # t) } else map_option ((#) (k, q, a)) (activate_entry p t))"

definition routing_write_activated :: "nat \<Rightarrow> 'a routing_scheme \<Rightarrow> 'a routing_scheme option" where
  "routing_write_activated p s = map_option (\<lambda>t. s\<lparr>rb_out_pipes := t\<rparr>) (activate_entry p (rb_out_pipes s))"

definition extract_connect_routing_id :: "'a routing_scheme \<Rightarrow> bytes \<times> 'a routing_scheme" where
  "extract_connect_routing_id s = (rb_connect_routing_id s, s\<lparr>rb_connect_routing_id := []\<rparr>)"

definition connect_routing_id_is_set :: "'a routing_scheme \<Rightarrow> bool" where
  "connect_routing_id_is_set s \<longleftrightarrow> rb_connect_routing_id s \<noteq> []"

definition has_out_pipe :: "bytes \<Rightarrow> 'a routing_scheme \<Rightarrow> bool" where
  "has_out_pipe k s \<longleftrightarrow> map_of (rb_out_pipes s) k \<noteq> None"

definition lookup_out_pipe :: "bytes \<Rightarrow> 'a routing_scheme \<Rightarrow> (nat \<times> bool) option" where
  "lookup_out_pipe k s = map_of (rb_out_pipes s) k"

definition add_out_pipe :: "bytes \<Rightarrow> nat \<Rightarrow> 'a routing_scheme \<Rightarrow> 'a routing_scheme option" where
  "add_out_pipe k p s = do {
     zmq_assert (\<not> has_out_pipe k s);
     Some (s\<lparr>rb_out_pipes := table_insert k (p, True) (rb_out_pipes s)\<rparr>)
   }"

definition try_erase_out_pipe :: "bytes \<Rightarrow> 'a routing_scheme \<Rightarrow> (nat \<times> bool) option \<times> 'a routing_scheme" where
  "try_erase_out_pipe k s = (map_of (rb_out_pipes s) k, s\<lparr>rb_out_pipes := AList.delete k (rb_out_pipes s)\<rparr>)"

definition erase_out_pipe :: "'w peer_ops \<Rightarrow> nat \<Rightarrow> 'a routing_scheme \<Rightarrow> 'w \<Rightarrow> 'a routing_scheme option" where
  "erase_out_pipe ops p s w = do {
     k \<leftarrow> pe_routing_id ops p w;
     zmq_assert (has_out_pipe k s);
     Some (s\<lparr>rb_out_pipes := AList.delete k (rb_out_pipes s)\<rparr>)
   }"

text \<open>Writing to the \<open>active\<close> flag that \<^verbatim>\<open>lookup_out_pipe\<close> points to.\<close>

definition set_inactive :: "bytes \<Rightarrow> 'a routing_scheme \<Rightarrow> 'a routing_scheme" where
  "set_inactive k s = s\<lparr>rb_out_pipes := AList.map_entry k (\<lambda>(p, a). (p, False)) (rb_out_pipes s)\<rparr>"

fun any_hwm :: "'w peer_ops \<Rightarrow> out_table \<Rightarrow> 'w \<Rightarrow> bool option" where
  "any_hwm ops [] w = Some False"
| "any_hwm ops ((k, p, a) # t) w = do { b \<leftarrow> po_check_hwm (pe_pipe ops) p w; if b then Some True else any_hwm ops t w }"

subsection \<open>Routers\<close>

record router = routing +
  ro_fq :: fq
  ro_prefetched :: bool
  ro_routing_id_sent :: bool
  ro_prefetched_id :: msg
  ro_prefetched_msg :: msg
  ro_current_in :: "nat option"
  ro_terminate_current_in :: bool
  ro_more_in :: bool
  ro_anonymous_pipes :: "nat set"
  ro_current_out :: "nat option"
  ro_more_out :: bool
  ro_next_id :: u32
  ro_mandatory :: bool
  ro_raw_socket :: bool
  ro_probe_router :: bool
  ro_handover :: bool
  ro_opt_raw_socket :: bool
  ro_opt_recv_routing_id :: bool
  ro_opt_router_notify :: int

definition router_new :: "u32 \<Rightarrow> router" where
  "router_new rnd = \<lparr>rb_out_pipes = [], rb_connect_routing_id = [], ro_fq = fq_new, ro_prefetched = False, ro_routing_id_sent = False,
     ro_prefetched_id = msg_init, ro_prefetched_msg = msg_init, ro_current_in = None, ro_terminate_current_in = False, ro_more_in = False,
     ro_anonymous_pipes = {}, ro_current_out = None, ro_more_out = False, ro_next_id = rnd, ro_mandatory = False, ro_raw_socket = False,
     ro_probe_router = False, ro_handover = False, ro_opt_raw_socket = False, ro_opt_recv_routing_id = True, ro_opt_router_notify = 0\<rparr>"

definition router_destroy :: "'w peer_ops \<Rightarrow> 'a router_scheme \<Rightarrow> 'w \<Rightarrow> 'w option" where
  "router_destroy ops s w = do {
     zmq_assert (ro_anonymous_pipes s = {});
     w1 \<leftarrow> po_close (pe_pipe ops) (ro_prefetched_id s) w;
     w2 \<leftarrow> po_close (pe_pipe ops) (ro_prefetched_msg s) w1;
     routing_destroy s;
     Some w2
   }"

text \<open>Generated routing ids: a zero byte and the next number.\<close>

definition integral_id :: "u32 \<Rightarrow> bytes" where
  "integral_id i = 0 # put_uint32 i"

text \<open>The pipe that has the routing id gives it up and is shut down, now or after the message that is being read.\<close>

definition hand_over :: "'w peer_ops \<Rightarrow> nat \<Rightarrow> 'a router_scheme \<Rightarrow> 'w \<Rightarrow> ('a router_scheme \<times> 'w) option" where
  "hand_over ops old s w = do {
     let k = integral_id (ro_next_id s);
     s1 \<leftarrow> erase_out_pipe ops old (s\<lparr>ro_next_id := ro_next_id s + 1\<rparr>) w;
     w1 \<leftarrow> pe_set_routing_id ops old k w;
     s2 \<leftarrow> add_out_pipe k old s1;
     if ro_current_in s2 = Some old then Some (s2\<lparr>ro_terminate_current_in := True\<rparr>, w1)
     else do { w2 \<leftarrow> pe_terminate ops old True w1; Some (s2, w2) }
   }"

text \<open>The routing id of a new peer: \<open>None\<close> when it is not known yet or taken.\<close>

definition peer_id :: "'w peer_ops \<Rightarrow> nat \<Rightarrow> bool \<Rightarrow> 'a router_scheme \<Rightarrow> 'w \<Rightarrow> (bytes option \<times> 'a router_scheme \<times> 'w) option" where
  "peer_id ops p locally_initiated s w =
     (if locally_initiated \<and> connect_routing_id_is_set s then do {
        let (k, s1) = extract_connect_routing_id s;
        zmq_assert (\<not> has_out_pipe k s1);
        Some (Some k, s1, w)
      } else if ro_opt_raw_socket s then
        Some (Some (integral_id (ro_next_id s)), s\<lparr>ro_next_id := ro_next_id s + 1\<rparr>, w)
      else do {
        (v, w1) \<leftarrow> po_read (pe_pipe ops) p w;
        (case v of
           None \<Rightarrow> Some (None, s, w1)
         | Some m \<Rightarrow> do {
             k \<leftarrow> so_bytes (pe_sock ops) m w1;
             w2 \<leftarrow> po_close (pe_pipe ops) m w1;
             if k = [] then Some (Some (integral_id (ro_next_id s)), s\<lparr>ro_next_id := ro_next_id s + 1\<rparr>, w2)
             else (case lookup_out_pipe k s of
                 None \<Rightarrow> Some (Some k, s, w2)
               | Some (old, a) \<Rightarrow>
                   if \<not> ro_handover s then Some (None, s, w2)
                   else do { (s1, w3) \<leftarrow> hand_over ops old s w2; Some (Some k, s1, w3) })
           })
      })"

definition identify_peer :: "'w peer_ops \<Rightarrow> nat \<Rightarrow> bool \<Rightarrow> 'a router_scheme \<Rightarrow> 'w \<Rightarrow> (bool \<times> 'a router_scheme \<times> 'w) option" where
  "identify_peer ops p locally_initiated s w = do {
     (r, s1, w1) \<leftarrow> peer_id ops p locally_initiated s w;
     (case r of
        None \<Rightarrow> Some (False, s1, w1)
      | Some k \<Rightarrow> do {
          w2 \<leftarrow> pe_set_routing_id ops p k w1;
          s2 \<leftarrow> add_out_pipe k p s1;
          Some (True, s2, w2)
        })
   }"

definition router_attach_pipe :: "'w peer_ops \<Rightarrow> nat \<Rightarrow> bool \<Rightarrow> 'a router_scheme \<Rightarrow> 'w \<Rightarrow> ('a router_scheme \<times> 'w) option" where
  "router_attach_pipe ops p locally_initiated s w = do {
     w1 \<leftarrow> (if ro_probe_router s then send_probe ops p w else Some w);
     (ok, s1, w2) \<leftarrow> identify_peer ops p locally_initiated s w1;
     Some (if ok then s1\<lparr>ro_fq := fq_attach p (ro_fq s1)\<rparr> else s1\<lparr>ro_anonymous_pipes := insert p (ro_anonymous_pipes s1)\<rparr>, w2)
   }"

definition OPT_ROUTER_MANDATORY :: int where "OPT_ROUTER_MANDATORY = 33"
definition OPT_ROUTER_RAW :: int where "OPT_ROUTER_RAW = 41"
definition OPT_ROUTER_HANDOVER :: int where "OPT_ROUTER_HANDOVER = 56"

definition OPT_ROUTER_NOTIFY :: int where "OPT_ROUTER_NOTIFY = 97"

text \<open>\<open>draft\<close>: the build has the draft interface.\<close>

definition router_setsockopt :: "bool \<Rightarrow> int \<Rightarrow> optval \<Rightarrow> 'a router_scheme \<Rightarrow> (errno option \<times> 'a router_scheme) option" where
  "router_setsockopt draft opt v s = do {
     (is_int, val) \<leftarrow> int_value v;
     let ok = (is_int \<and> val \<ge> 0);
     let b = (val \<noteq> 0);
     if opt = OPT_ROUTER_RAW then
       Some (if ok then (None, if b then s\<lparr>ro_raw_socket := b, ro_opt_recv_routing_id := False, ro_opt_raw_socket := True\<rparr> else s\<lparr>ro_raw_socket := b\<rparr>)
             else (Some EINVAL, s))
     else if opt = OPT_ROUTER_MANDATORY then Some (if ok then (None, s\<lparr>ro_mandatory := b\<rparr>) else (Some EINVAL, s))
     else if opt = OPT_PROBE_ROUTER then Some (if ok then (None, s\<lparr>ro_probe_router := b\<rparr>) else (Some EINVAL, s))
     else if opt = OPT_ROUTER_HANDOVER then Some (if ok then (None, s\<lparr>ro_handover := b\<rparr>) else (Some EINVAL, s))
     else if draft \<and> opt = OPT_ROUTER_NOTIFY then Some (if ok \<and> val \<le> 3 then (None, s\<lparr>ro_opt_router_notify := val\<rparr>) else (Some EINVAL, s))
     else Some (routing_setsockopt opt v s)
   }"

definition router_pipe_terminated :: "'w peer_ops \<Rightarrow> nat \<Rightarrow> 'a router_scheme \<Rightarrow> 'w \<Rightarrow> ('a router_scheme \<times> 'w) option" where
  "router_pipe_terminated ops p s w =
     (if p \<in> ro_anonymous_pipes s then Some (s\<lparr>ro_anonymous_pipes := ro_anonymous_pipes s - {p}\<rparr>, w)
      else do {
        s1 \<leftarrow> erase_out_pipe ops p s w;
        w1 \<leftarrow> po_rollback (pe_pipe ops) p w;
        Some (s1\<lparr>ro_fq := fq_pipe_terminated p (ro_fq s1), ro_current_out := (if ro_current_out s1 = Some p then None else ro_current_out s1)\<rparr>, w1)
      })"

definition router_read_activated :: "'w peer_ops \<Rightarrow> nat \<Rightarrow> 'a router_scheme \<Rightarrow> 'w \<Rightarrow> ('a router_scheme \<times> 'w) option" where
  "router_read_activated ops p s w =
     (if p \<notin> ro_anonymous_pipes s then Some (s\<lparr>ro_fq := fq_activated p (ro_fq s)\<rparr>, w)
      else do {
        (ok, s1, w1) \<leftarrow> identify_peer ops p False s w;
        Some (if ok then s1\<lparr>ro_anonymous_pipes := ro_anonymous_pipes s1 - {p}, ro_fq := fq_attach p (ro_fq s1)\<rparr> else s1, w1)
      })"

text \<open>The first part of a message that is sent names the peer.\<close>

definition router_address :: "'w peer_ops \<Rightarrow> msg \<Rightarrow> 'a router_scheme \<Rightarrow> 'w \<Rightarrow> (errno option \<times> 'a router_scheme \<times> 'w) option" where
  "router_address ops m s w =
     (if has_more m then do {
        k \<leftarrow> so_bytes (pe_sock ops) m w;
        let s1 = s\<lparr>ro_more_out := True\<rparr>;
        (case lookup_out_pipe k s1 of
           Some (p, a) \<Rightarrow> do {
             (ok, w1) \<leftarrow> po_check_write (pe_pipe ops) p w;
             if ok then Some (None, s1\<lparr>ro_current_out := Some p\<rparr>, w1)
             else do {
               hwm_ok \<leftarrow> po_check_hwm (pe_pipe ops) p w1;
               let s2 = set_inactive k s1\<lparr>ro_current_out := None\<rparr>;
               Some (if ro_mandatory s2 then (Some (if \<not> hwm_ok then EAGAIN else EHOSTUNREACH), s2\<lparr>ro_more_out := False\<rparr>, w1)
                     else (None, s2, w1))
             }
           }
         | None \<Rightarrow>
             Some (if ro_mandatory s1 then (Some EHOSTUNREACH, s1\<lparr>ro_more_out := False\<rparr>, w) else (None, s1, w)))
      } else Some (None, s, w))"

text \<open>The parts after it; a part without a pipe is dropped. An empty part on a raw socket closes the connection.\<close>

definition router_send_part :: "'w peer_ops \<Rightarrow> msg \<Rightarrow> 'a router_scheme \<Rightarrow> 'w \<Rightarrow> ('a router_scheme \<times> 'w) option" where
  "router_send_part ops m0 s w = do {
     let m = (if ro_opt_raw_socket s then reset_flags f_more m0 else m0);
     let s1 = s\<lparr>ro_more_out := has_more m\<rparr>;
     (case ro_current_out s1 of
        None \<Rightarrow> do { w1 \<leftarrow> po_close (pe_pipe ops) m w; Some (s1, w1) }
      | Some p \<Rightarrow> do {
          closes \<leftarrow> (if ro_raw_socket s1 then map_option (\<lambda>b. b = []) (so_bytes (pe_sock ops) m w) else Some False);
          if closes then do {
            w1 \<leftarrow> pe_terminate ops p False w;
            w2 \<leftarrow> po_close (pe_pipe ops) m w1;
            Some (s1\<lparr>ro_current_out := None\<rparr>, w2)
          } else do {
            (ok, w1) \<leftarrow> po_write (pe_pipe ops) p m w;
            if \<not> ok then do {
              w2 \<leftarrow> po_close (pe_pipe ops) m w1;
              w3 \<leftarrow> po_rollback (pe_pipe ops) p w2;
              Some (s1\<lparr>ro_current_out := None\<rparr>, w3)
            } else if \<not> ro_more_out s1 then do {
              w2 \<leftarrow> po_flush (pe_pipe ops) p w1;
              Some (s1\<lparr>ro_current_out := None\<rparr>, w2)
            } else Some (s1, w1)
          }
        })
   }"

definition router_send :: "'w peer_ops \<Rightarrow> msg \<Rightarrow> 'a router_scheme \<Rightarrow> 'w \<Rightarrow> (errno option \<times> 'a router_scheme \<times> 'w) option" where
  "router_send ops m s w =
     (if \<not> ro_more_out s then do {
        zmq_assert (ro_current_out s = None);
        (r, s1, w1) \<leftarrow> router_address ops m s w;
        if r \<noteq> None then Some (r, s1, w1)
        else do { w2 \<leftarrow> po_close (pe_pipe ops) m w1; Some (None, s1, w2) }
      } else do { (s1, w1) \<leftarrow> router_send_part ops m s w; Some (None, s1, w1) })"

text \<open>Reading, past the routing ids that peers send again after they have reconnected.\<close>

partial_function (option) recv_no_id :: "'w pipe_ops \<Rightarrow> msg \<Rightarrow> fq \<Rightarrow> 'w \<Rightarrow> ((errno + nat \<times> msg) \<times> fq \<times> 'w) option" where
  "recv_no_id ops m f w = do {
     (r, f1, w1) \<leftarrow> fq_recvpipe ops m f w;
     (case r of
        Inl e \<Rightarrow> Some (r, f1, w1)
      | Inr (p, m1) \<Rightarrow> if is_routing_id m1 then recv_no_id ops m1 f1 w1 else Some (r, f1, w1))
   }"

declare recv_no_id.simps [code]

text \<open>A message with the routing id of a pipe.\<close>

definition id_msg :: "'w peer_ops \<Rightarrow> nat \<Rightarrow> msg \<Rightarrow> 'w \<Rightarrow> (msg \<times> 'w) option" where
  "id_msg ops p m w = do {
     k \<leftarrow> pe_routing_id ops p w;
     (i, w1) \<leftarrow> pe_new_msg ops k w;
     (case m_metadata m of None \<Rightarrow> Some (set_flags f_more i, w1) | Some a \<Rightarrow> pe_set_metadata ops a (set_flags f_more i) w1)
   }"

text \<open>The end of a message that has been read.\<close>

definition end_current_in :: "'w peer_ops \<Rightarrow> 'a router_scheme \<Rightarrow> 'w \<Rightarrow> ('a router_scheme \<times> 'w) option" where
  "end_current_in ops s w =
     (if ro_more_in s then Some (s, w)
      else do {
        (s1, w1) \<leftarrow> (if ro_terminate_current_in s then do {
            w1 \<leftarrow> (case ro_current_in s of None \<Rightarrow> None | Some p \<Rightarrow> pe_terminate ops p True w);
            Some (s\<lparr>ro_terminate_current_in := False\<rparr>, w1)
          } else Some (s, w));
        Some (s1\<lparr>ro_current_in := None\<rparr>, w1)
      })"

definition router_recv :: "'w peer_ops \<Rightarrow> msg \<Rightarrow> 'a router_scheme \<Rightarrow> 'w \<Rightarrow> ((errno + msg) \<times> 'a router_scheme \<times> 'w) option" where
  "router_recv ops m s w =
     (if ro_prefetched s then do {
        w1 \<leftarrow> po_close (pe_pipe ops) m w;
        let (m1, s1) = (if \<not> ro_routing_id_sent s then (ro_prefetched_id s, s\<lparr>ro_prefetched_id := msg_init, ro_routing_id_sent := True\<rparr>)
                        else (ro_prefetched_msg s, s\<lparr>ro_prefetched_msg := msg_init, ro_prefetched := False\<rparr>));
        (s2, w2) \<leftarrow> end_current_in ops (s1\<lparr>ro_more_in := has_more m1\<rparr>) w1;
        Some (Inr m1, s2, w2)
      } else do {
        (r, f, w1) \<leftarrow> recv_no_id (pe_pipe ops) m (ro_fq s) w;
        let s1 = s\<lparr>ro_fq := f\<rparr>;
        (case r of
           Inl e \<Rightarrow> Some (Inl e, s1, w1)
         | Inr (p, m1) \<Rightarrow>
             if ro_more_in s1 then do {
               (s2, w2) \<leftarrow> end_current_in ops (s1\<lparr>ro_more_in := has_more m1\<rparr>) w1;
               Some (Inr m1, s2, w2)
             } else do {
               w2 \<leftarrow> po_close (pe_pipe ops) (ro_prefetched_msg s1) w1;
               let s2 = s1\<lparr>ro_prefetched_msg := m1, ro_prefetched := True, ro_current_in := Some p\<rparr>;
               (i, w3) \<leftarrow> id_msg ops p m1 w2;
               Some (Inr i, s2\<lparr>ro_routing_id_sent := True\<rparr>, w3)
             })
      })"

definition router_rollback :: "'w peer_ops \<Rightarrow> 'a router_scheme \<Rightarrow> 'w \<Rightarrow> ('a router_scheme \<times> 'w) option" where
  "router_rollback ops s w = (case ro_current_out s of
       None \<Rightarrow> Some (s, w)
     | Some p \<Rightarrow> do { w1 \<leftarrow> po_rollback (pe_pipe ops) p w; Some (s\<lparr>ro_current_out := None, ro_more_out := False\<rparr>, w1) })"

text \<open>The old \<^verbatim>\<open>_prefetched_id\<close> is overwritten, not closed.\<close>

definition router_has_in :: "'w peer_ops \<Rightarrow> 'a router_scheme \<Rightarrow> 'w \<Rightarrow> (bool \<times> 'a router_scheme \<times> 'w) option" where
  "router_has_in ops s w =
     (if ro_more_in s \<or> ro_prefetched s then Some (True, s, w)
      else do {
        (r, f, w1) \<leftarrow> recv_no_id (pe_pipe ops) (ro_prefetched_msg s) (ro_fq s) w;
        let s1 = s\<lparr>ro_fq := f\<rparr>;
        (case r of
           Inl e \<Rightarrow> Some (False, s1\<lparr>ro_prefetched_msg := msg_init\<rparr>, w1)
         | Inr (p, m1) \<Rightarrow> do {
             (i, w2) \<leftarrow> id_msg ops p m1 w1;
             Some (True, s1\<lparr>ro_prefetched_msg := m1, ro_prefetched_id := i, ro_prefetched := True, ro_routing_id_sent := False,
                            ro_current_in := Some p\<rparr>, w2)
           })
      })"

definition router_has_out :: "'w peer_ops \<Rightarrow> 'a router_scheme \<Rightarrow> 'w \<Rightarrow> bool option" where
  "router_has_out ops s w = (if \<not> ro_mandatory s then Some True else any_hwm ops (rb_out_pipes s) w)"

definition get_peer_state :: "'w peer_ops \<Rightarrow> bytes \<Rightarrow> 'a router_scheme \<Rightarrow> 'w \<Rightarrow> (errno + int) option" where
  "get_peer_state ops k s w = (case lookup_out_pipe k s of
       None \<Rightarrow> Some (Inl EHOSTUNREACH)
     | Some (p, a) \<Rightarrow> do { b \<leftarrow> po_check_hwm (pe_pipe ops) p w; Some (Inr (if b then 2 else 0)) })"

subsection \<open>Replies\<close>

record rep = router +
  rp_sending_reply :: bool
  rp_request_begins :: bool

definition rep_new :: "u32 \<Rightarrow> rep" where
  "rep_new rnd = router.extend (router_new rnd) \<lparr>rp_sending_reply = False, rp_request_begins = True\<rparr>"

definition rep_send :: "'w peer_ops \<Rightarrow> msg \<Rightarrow> rep \<Rightarrow> 'w \<Rightarrow> (errno option \<times> rep \<times> 'w) option" where
  "rep_send ops m s w =
     (if \<not> rp_sending_reply s then Some (Some EFSM, s, w)
      else do {
        (r, s1, w1) \<leftarrow> router_send ops m s w;
        Some (r, if r = None \<and> \<not> has_more m then s1\<lparr>rp_sending_reply := False\<rparr> else s1, w1)
      })"

text \<open>The labels of a request are copied to the pipe of the reply, up to the empty part; a message without one is discarded. The message variable is
  empty after each part that was copied.\<close>

partial_function (option) rep_labels :: "'w peer_ops \<Rightarrow> msg \<Rightarrow> rep \<Rightarrow> 'w \<Rightarrow> ((errno + msg) \<times> rep \<times> 'w) option" where
  "rep_labels ops m s w = do {
     (r, s1, w1) \<leftarrow> router_recv ops m s w;
     (case r of
        Inl e \<Rightarrow> Some (Inl e, s1, w1)
      | Inr m1 \<Rightarrow>
          if has_more m1 then do {
            b \<leftarrow> so_bytes (pe_sock ops) m1 w1;
            (rc, s2, w2) \<leftarrow> router_send ops m1 s1 w1;
            zmq_assert (rc = None);
            if b = [] then Some (Inr msg_init, s2, w2) else rep_labels ops msg_init s2 w2
          } else do {
            (s2, w2) \<leftarrow> router_rollback ops s1 w1;
            rep_labels ops m1 s2 w2
          })
   }"

declare rep_labels.simps [code]

definition rep_recv :: "'w peer_ops \<Rightarrow> msg \<Rightarrow> rep \<Rightarrow> 'w \<Rightarrow> ((errno + msg) \<times> rep \<times> 'w) option" where
  "rep_recv ops m s w =
     (if rp_sending_reply s then Some (Inl EFSM, s, w)
      else do {
        (r1, s1, w1) \<leftarrow> (if rp_request_begins s then rep_labels ops m s w else Some (Inr m, s, w));
        (case r1 of
           Inl e \<Rightarrow> Some (Inl e, s1, w1)
         | Inr m1 \<Rightarrow> do {
             (r, s2, w2) \<leftarrow> router_recv ops m1 (s1\<lparr>rp_request_begins := False\<rparr>) w1;
             (case r of
                Inl e \<Rightarrow> Some (Inl e, s2, w2)
              | Inr m2 \<Rightarrow>
                  Some (Inr m2, if \<not> has_more m2 then s2\<lparr>rp_sending_reply := True, rp_request_begins := True\<rparr> else s2, w2))
           })
      })"

definition rep_has_in :: "'w peer_ops \<Rightarrow> rep \<Rightarrow> 'w \<Rightarrow> (bool \<times> rep \<times> 'w) option" where
  "rep_has_in ops s w = (if rp_sending_reply s then Some (False, s, w) else router_has_in ops s w)"

definition rep_has_out :: "'w peer_ops \<Rightarrow> rep \<Rightarrow> 'w \<Rightarrow> bool option" where
  "rep_has_out ops s w = (if \<not> rp_sending_reply s then Some False else router_has_out ops s w)"

end
