(* ===== verification/Rep_Facts.thy ===== *)
theory Rep_Facts
  imports Router Peer_Net Req_Reply
begin

text \<open>
  What a router and a reply socket guarantee: a message goes whole to the peer it names, and the reply to a request goes with the envelope of the
  request to the peer that sent the request.
\<close>

subsection \<open>What an application does with a reply socket\<close>

text \<open>Receiving part after part up to the last one, and sending the parts of a reply.\<close>

partial_function (option) rep_request :: "'w peer_ops \<Rightarrow> rep \<Rightarrow> 'w \<Rightarrow> ((errno + msg list) \<times> rep \<times> 'w) option" where
  "rep_request ops s w = do {
     (r, s1, w1) \<leftarrow> rep_recv ops msg_init s w;
     (case r of
        Inl e \<Rightarrow> Some (Inl e, s1, w1)
      | Inr m \<Rightarrow>
          if has_more m then do {
            (r2, s2, w2) \<leftarrow> rep_request ops s1 w1;
            Some (map_sum id ((#) m) r2, s2, w2)
          } else Some (Inr [m], s1, w1))
   }"

fun rep_reply :: "'w peer_ops \<Rightarrow> msg list \<Rightarrow> rep \<Rightarrow> 'w \<Rightarrow> (errno option list \<times> rep \<times> 'w) option" where
  "rep_reply ops [] s w = Some ([], s, w)"
| "rep_reply ops (m # ms) s w = do {
     (r, s1, w1) \<leftarrow> rep_send ops m s w;
     (rs, s2, w2) \<leftarrow> rep_reply ops ms s1 w1;
     Some (r # rs, s2, w2)
   }"

declare rep_request.simps [code]

subsection \<open>Reading and writing the same pipes\<close>

definition outs :: "('w \<Rightarrow> nat set) \<Rightarrow> ('w \<Rightarrow> nat \<Rightarrow> msg list) \<Rightarrow> ('w \<Rightarrow> nat \<Rightarrow> msg list) \<Rightarrow> ('w \<Rightarrow> nat \<Rightarrow> bool) \<Rightarrow> ('w \<Rightarrow> nat \<Rightarrow> bytes) \<Rightarrow> 'w \<Rightarrow> 'w \<Rightarrow> bool" where
  "outs live sent half writable rid w w' \<longleftrightarrow> live w' = live w \<and> sent w' = sent w \<and> half w' = half w \<and> writable w' = writable w \<and> rid w' = rid w"

lemma outs_refl [simp]: "outs live sent half writable rid w w"
  by (simp add: outs_def)

lemma outs_trans: "outs live sent half writable rid w w1 \<Longrightarrow> outs live sent half writable rid w1 w2 \<Longrightarrow> outs live sent half writable rid w w2"
  by (simp add: outs_def)

text \<open>What is still to come of the message that is being read from \<open>p\<close>.\<close>

definition held :: "'a router_scheme \<Rightarrow> msg list" where
  "held s = (if ro_prefetched s then [ro_prefetched_msg s] else [])"

definition midway :: "'a router_scheme \<Rightarrow> nat \<Rightarrow> bool" where
  "midway s p \<longleftrightarrow> (if ro_prefetched s
     then ro_routing_id_sent s \<and> fq_reading (ro_fq s) = (if has_more (ro_prefetched_msg s) then Some p else None)
     else ro_more_in s \<and> ro_prefetched_msg s = msg_init \<and> fq_reading (ro_fq s) = Some p)"

text \<open>Between two requests.\<close>

definition rep_idle :: "rep \<Rightarrow> bool" where
  "rep_idle s \<longleftrightarrow> rp_request_begins s \<and> \<not> rp_sending_reply s \<and> \<not> ro_prefetched s \<and> ro_prefetched_msg s = msg_init \<and> \<not> ro_more_in s
     \<and> \<not> ro_terminate_current_in s \<and> \<not> ro_more_out s \<and> ro_current_out s = None \<and> \<not> ro_opt_raw_socket s \<and> \<not> ro_raw_socket s
     \<and> \<not> ro_mandatory s \<and> \<not> fq_more (ro_fq s)"

text \<open>The labels in front of a request, and a queue of requests.\<close>

definition label_stack :: "(msg \<Rightarrow> bytes) \<Rightarrow> msg list \<Rightarrow> bool" where
  "label_stack bd env \<longleftrightarrow> (\<exists>ls d. env = ls @ [d] \<and> (\<forall>x \<in> set ls. has_more x \<and> bd x \<noteq> []) \<and> has_more d \<and> bd d = [])"

definition requests :: "(msg \<Rightarrow> bytes) \<Rightarrow> msg list \<Rightarrow> bool" where
  "requests bd ms \<longleftrightarrow> (\<exists>bs. ms = concat bs \<and> (\<forall>b \<in> set bs. \<exists>env q. b = env @ snd q \<and> label_stack bd env \<and> whole q))"

definition same_routes :: "'a routing_scheme \<Rightarrow> 'b routing_scheme \<Rightarrow> bool" where
  "same_routes s s' \<longleftrightarrow> (\<forall>k. map_option fst (lookup_out_pipe k s') = map_option fst (lookup_out_pipe k s))"

lemma map_entry_routes: "map_option fst (map_of (AList.map_entry k (\<lambda>(p, a). (p, False)) t) k') = map_option fst (map_of t k')"
  by (induction t) auto

lemma requests_first:
  assumes "requests bd ms" "ms \<noteq> []"
  shows "\<exists>env q rest. ms = env @ snd q @ rest \<and> label_stack bd env \<and> whole q"
proof -
  obtain bs where bs: "ms = concat bs" "\<forall>b \<in> set bs. \<exists>env q. b = env @ snd q \<and> label_stack bd env \<and> whole q"
    using assms(1) by (auto simp: requests_def)
  with assms(2) obtain b bs' where b: "bs = b # bs'" by (cases bs) auto
  with bs obtain env q where "b = env @ snd q" "label_stack bd env" "whole q" by auto
  with bs(1) b show ?thesis by (intro exI [of _ env] exI [of _ q] exI [of _ "concat bs'"]) simp
qed

context duplex
begin

abbreviation "outs_same \<equiv> outs live sent half writable rid"

lemma fq_loop_outs:
  assumes "inv w" "fq_ok live queue f w" "fq_loop (pe_pipe pops) f w = Some (r, f', w')"
  shows "outs_same w w'"
  using assms
proof (induction "fq_active f" arbitrary: f w)
  case 0
  then show ?case by (subst (asm) fq_loop.simps) auto
next
  case (Suc a)
  define p where "p = fq_pipes f ! fq_current f"
  have sh: "fq_shape f" and pos: "0 < fq_active f" and cur: "fq_current f < length (fq_pipes f)"
    using Suc.prems(2) Suc.hyps(2) by (auto simp: fq_ok_def fq_shape_def)
  have p: "p \<in> live w" using Suc.prems(2) nth_mem [OF cur] by (auto simp: p_def fq_ok_def)
  obtain w1 where w1: "inv w1" "live w1 = live w" "case queue w p of [] \<Rightarrow> po_read (pe_pipe pops) p w = Some (None, w1) \<and> queue w1 = queue w
       | m # ms \<Rightarrow> po_read (pe_pipe pops) p w = Some (Some m, w1) \<and> queue w1 = (queue w)(p := ms)"
    using read_law [OF Suc.prems(1) p] by blast
  have get: "tab_get (fq_pipes f) (fq_current f) = Some p" using cur by (simp add: p_def)
  show ?case
  proof (cases "queue w p")
    case Nil
    with Suc.prems(2) have nm: "\<not> fq_more f" by (auto simp: fq_ok_def p_def)
    let ?f = "fq_deactivate (fq_current f) f"
    note d = deactivate_shape [OF sh pos nm]
    have q: "po_read (pe_pipe pops) p w = Some (None, w1)" "queue w1 = queue w" using w1(3) Nil by simp_all
    have "fq_more ?f = False" using nm by (simp add: fq_deactivate_def Let_def)
    then have ok: "fq_ok live queue ?f w1" using d(1,2) Suc.prems(2) w1(2) by (simp add: fq_ok_def)
    have a: "outs_same w w1" using read_outs [OF Suc.prems(1) p q(1)] w1(2) by (simp add: outs_def)
    have "fq_loop (pe_pipe pops) ?f w1 = Some (r, f', w')"
      using Suc.prems(3) pos get q(1) nm by (subst (asm) fq_loop.simps) simp
    with Suc.hyps(1) [OF _ w1(1) ok] d(3) Suc.hyps(2) a show ?thesis by (auto intro: outs_trans)
  next
    case (Cons m ms)
    then have q: "po_read (pe_pipe pops) p w = Some (Some m, w1)" using w1(3) by simp
    have "w' = w1" using Suc.prems(3) pos get q by (subst (asm) fq_loop.simps, simp add: Let_def)
    with read_outs [OF Suc.prems(1) p q] w1(2) show ?thesis by (simp add: outs_def)
  qed
qed

text \<open>Reading one part, with what it leaves alone.\<close>

lemma recv_part:
  assumes "inv w" "fq_ok live queue f w" "acct w (m # hs)" "\<forall>p \<in> active_pipes f. \<forall>x \<in> set (queue w p). \<not> is_routing_id x"
  shows "\<exists>r f' w'. recv_no_id (pe_pipe pops) m f w = Some (r, f', w') \<and> inv w' \<and> fq_ok live queue f' w' \<and> active_pipes f' \<subseteq> active_pipes f
    \<and> same_bodies w w' hs \<and> outs_same w w' \<and>
    (case r of
       Inl e \<Rightarrow> e = EAGAIN \<and> queue w' = queue w \<and> acct w' hs \<and> fq_reading f = None \<and> fq_reading f' = None \<and> (\<forall>x \<in> active_pipes f. queue w x = [])
     | Inr (p, m') \<Rightarrow> p \<in> active_pipes f \<and> (fq_reading f = None \<or> fq_reading f = Some p) \<and> acct w' (m' # hs) \<and> body w' m' = body w m'
         \<and> queue w p = m' # queue w' p \<and> (\<forall>x. x \<noteq> p \<longrightarrow> queue w' x = queue w x)
         \<and> fq_reading f' = (if has_more m' then Some p else None))"
proof -
  obtain r f' w' where s: "fq_recvpipe (pe_pipe pops) m f w = Some (r, f', w')" "inv w'" "fq_ok live queue f' w'" "active_pipes f' \<subseteq> active_pipes f"
    "same_bodies w w' hs"
    "case r of
       Inl e \<Rightarrow> e = EAGAIN \<and> queue w' = queue w \<and> acct w' hs \<and> \<not> fq_more f \<and> \<not> fq_more f'
     | Inr (p, m') \<Rightarrow> p \<in> active_pipes f \<and> (fq_more f \<longrightarrow> p = fq_pipes f ! fq_current f) \<and> acct w' (m' # hs) \<and> body w' m' = body w m'
         \<and> queue w p = m' # queue w' p \<and> (\<forall>x. x \<noteq> p \<longrightarrow> queue w' x = queue w x)
         \<and> fq_more f' = has_more m' \<and> (has_more m' \<longrightarrow> p = fq_pipes f' ! fq_current f')"
    using recv_step [OF assms(1-3)] by blast
  obtain w1 where w1: "po_close (pe_pipe pops) m w = Some w1" "inv w1" "live w1 = live w" "queue w1 = queue w"
    using close_acct [OF assms(1,3)] by blast
  have ok: "fq_ok live queue f w1" using assms(2) w1(3,4) by (simp add: fq_ok_def)
  have "fq_loop (pe_pipe pops) f w1 = Some (r, f', w')" using s(1) w1(1) by (simp add: fq_recvpipe_def)
  then have lp: "fq_loop (pe_pipe pops) f w1 = Some (r, f', w')" and outs: "outs_same w w'" using fq_loop_outs [OF w1(2) ok] close_outs [OF assms(1) w1(1)] w1(3) by (auto simp: outs_def)
  show ?thesis
  proof (cases r)
    case (Inl e)
    have "\<forall>x \<in> active_pipes f. queue w x = []" using fq_loop_spec [OF w1(2) ok] lp Inl w1(4) by auto
    moreover have "recv_no_id (pe_pipe pops) m f w = Some (r, f', w')" using s(1) Inl by (subst recv_no_id.simps) simp
    ultimately show ?thesis using s outs Inl by (intro exI [of _ r] exI [of _ f'] exI [of _ w']) (simp add: fq_reading_def)
  next
    case (Inr x)
    obtain p m' where x: "x = (p, m')" by (cases x)
    note t = s(6) [unfolded Inr x sum.case prod.case]
    have "\<not> is_routing_id m'" using assms(4) t by (metis list.set_intros(1))
    then have "recv_no_id (pe_pipe pops) m f w = Some (r, f', w')" using s(1) Inr x by (subst recv_no_id.simps) simp
    with s outs Inr x show ?thesis by (intro exI [of _ r] exI [of _ f'] exI [of _ w']) (auto simp: fq_reading_def)
  qed
qed

text \<open>The first part a router hands out: the routing id of the pipe, while the first part of the message is kept.\<close>

lemma router_first:
  assumes "inv w" "fq_ok live queue (ro_fq s) w" "acct w (m # hs)" "\<forall>p \<in> active_pipes (ro_fq s). \<forall>x \<in> set (queue w p). \<not> is_routing_id x"
    and "\<not> ro_prefetched s" "\<not> ro_more_in s" "ro_prefetched_msg s = msg_init" "\<not> fq_more (ro_fq s)"
    and "\<forall>p \<in> active_pipes (ro_fq s). length (rid w p) \<le> max_vsm_size"
  shows "\<exists>r s' w'. router_recv pops m s w = Some (r, s', w') \<and> inv w' \<and> fq_ok live queue (ro_fq s') w'
    \<and> active_pipes (ro_fq s') \<subseteq> active_pipes (ro_fq s) \<and> same_bodies w w' hs \<and> outs_same w w' \<and>
    (case r of
       Inl e \<Rightarrow> e = EAGAIN \<and> queue w' = queue w \<and> acct w' hs \<and> s' = s\<lparr>ro_fq := ro_fq s'\<rparr> \<and> fq_reading (ro_fq s') = None
         \<and> (\<forall>x \<in> active_pipes (ro_fq s). queue w x = [])
     | Inr i \<Rightarrow> \<exists>p m'. p \<in> active_pipes (ro_fq s) \<and> queue w p = m' # queue w' p \<and> (\<forall>x. x \<noteq> p \<longrightarrow> queue w' x = queue w x)
         \<and> has_more i \<and> body w' i = rid w p \<and> acct w' (i # m' # hs) \<and> body w' m' = body w m'
         \<and> s' = s\<lparr>ro_fq := ro_fq s', ro_prefetched_msg := m', ro_prefetched := True, ro_current_in := Some p, ro_routing_id_sent := True\<rparr>
         \<and> fq_reading (ro_fq s') = (if has_more m' then Some p else None))"
proof -
  obtain r f w' where s: "recv_no_id (pe_pipe pops) m (ro_fq s) w = Some (r, f, w')" "inv w'" "fq_ok live queue f w'"
    "active_pipes f \<subseteq> active_pipes (ro_fq s)" "same_bodies w w' hs" "outs_same w w'"
    "case r of
       Inl e \<Rightarrow> e = EAGAIN \<and> queue w' = queue w \<and> acct w' hs \<and> fq_reading (ro_fq s) = None \<and> fq_reading f = None
         \<and> (\<forall>x \<in> active_pipes (ro_fq s). queue w x = [])
     | Inr (p, m') \<Rightarrow> p \<in> active_pipes (ro_fq s) \<and> (fq_reading (ro_fq s) = None \<or> fq_reading (ro_fq s) = Some p) \<and> acct w' (m' # hs) \<and> body w' m' = body w m'
         \<and> queue w p = m' # queue w' p \<and> (\<forall>x. x \<noteq> p \<longrightarrow> queue w' x = queue w x) \<and> fq_reading f = (if has_more m' then Some p else None)"
    using recv_part [OF assms(1-4)] by blast
  show ?thesis
  proof (cases r)
    case (Inl e)
    have "router_recv pops m s w = Some (Inl e, s\<lparr>ro_fq := f\<rparr>, w')" using s(1) Inl assms(5) by (simp add: router_recv_def)
    with s Inl show ?thesis by (intro exI [of _ "Inl e"] exI [of _ "s\<lparr>ro_fq := f\<rparr>"] exI [of _ w']) simp
  next
    case (Inr x)
    obtain p m' where x: "x = (p, m')" by (cases x)
    note t = s(7) [unfolded Inr x sum.case prod.case]
    have p: "p \<in> live w'" using t assms(2) s(6) by (auto simp: fq_ok_def active_pipes_def outs_def dest: in_set_takeD)
    have rid: "rid w' = rid w" using s(6) by (simp add: outs_def)
    have c: "po_close (pe_pipe pops) msg_init w' = Some w'" by (rule close_law)
    obtain i where i: "pe_new_msg pops (rid w p) w' = Some (i, w')" "acct w' (set_flags f_more i # m' # hs)" "body w' (set_flags f_more i) = rid w p"
      using new_law [of w' "m' # hs" "rid w p"] t assms(9) by blast
    have md: "m_metadata m' = None" using no_metadata [of w' m' hs] t by blast
    have "id_msg pops p m' w' = Some (set_flags f_more i, w')" using rid_law [OF p] i(1) md rid by (simp add: id_msg_def)
    then have run: "router_recv pops m s w = Some (Inr (set_flags f_more i), s\<lparr>ro_fq := f, ro_prefetched_msg := m', ro_prefetched := True,
        ro_current_in := Some p, ro_routing_id_sent := True\<rparr>, w')"
      using s(1) Inr x assms(5-7) c by (simp add: router_recv_def)
    have "has_more (set_flags f_more i)" by (simp add: has_flag_def set_flags_def flag_defs)
    with run s i t show ?thesis
      by (intro exI [of _ "Inr (set_flags f_more i)"] exI [of _ w'] exI
          [of _ "s\<lparr>ro_fq := f, ro_prefetched_msg := m', ro_prefetched := True, ro_current_in := Some p, ro_routing_id_sent := True\<rparr>"]) auto
  qed
qed

text \<open>The next part.\<close>

lemma router_next:
  assumes "inv w" "fq_ok live queue (ro_fq s) w" "acct w (m # held s @ hs)" "\<forall>p \<in> active_pipes (ro_fq s). \<forall>x \<in> set (queue w p). \<not> is_routing_id x"
    and "midway s p" "\<not> ro_terminate_current_in s"
  shows "\<exists>m' f w'. router_recv pops m s w = Some (Inr m', s\<lparr>ro_fq := f, ro_prefetched := False, ro_prefetched_msg := msg_init, ro_more_in := has_more m',
       ro_current_in := (if has_more m' then ro_current_in s else None)\<rparr>, w')
    \<and> inv w' \<and> fq_ok live queue f w' \<and> active_pipes f \<subseteq> active_pipes (ro_fq s) \<and> same_bodies w w' (m' # hs) \<and> outs_same w w' \<and> acct w' (m' # hs)
    \<and> held s @ queue w p = m' # queue w' p \<and> (\<forall>x. x \<noteq> p \<longrightarrow> queue w' x = queue w x) \<and> fq_reading f = (if has_more m' then Some p else None)"
proof (cases "ro_prefetched s")
  case True
  then have st: "held s = [ro_prefetched_msg s]" "ro_routing_id_sent s" "fq_reading (ro_fq s) = (if has_more (ro_prefetched_msg s) then Some p else None)"
    using assms(5) by (simp_all add: held_def midway_def)
  have a: "acct w (m # ro_prefetched_msg s # hs)" using assms(3) st(1) by simp
  obtain w' where w': "po_close (pe_pipe pops) m w = Some w'" "inv w'" "live w' = live w" "queue w' = queue w" "acct w' (ro_prefetched_msg s # hs)"
    "same_bodies w w' (ro_prefetched_msg s # hs)"
    using close_acct [OF assms(1) a] unfolding same_bodies_def by blast
  have "outs_same w w'" using close_outs [OF assms(1) w'(1)] w'(3) by (simp add: outs_def)
  moreover have "fq_ok live queue (ro_fq s) w'" using assms(2) w'(3,4) by (simp add: fq_ok_def)
  moreover have "router_recv pops m s w = Some (Inr (ro_prefetched_msg s), s\<lparr>ro_fq := ro_fq s, ro_prefetched := False, ro_prefetched_msg := msg_init,
      ro_more_in := has_more (ro_prefetched_msg s), ro_current_in := (if has_more (ro_prefetched_msg s) then ro_current_in s else None)\<rparr>, w')"
    using True st(2) w'(1) assms(6) by (simp add: router_recv_def end_current_in_def)
  ultimately show ?thesis using w' st(1,3) by (intro exI [of _ "ro_prefetched_msg s"] exI [of _ "ro_fq s"] exI [of _ w']) simp
next
  case False
  then have st: "held s = []" "ro_more_in s" "ro_prefetched_msg s = msg_init" "fq_reading (ro_fq s) = Some p"
    using assms(5) by (simp_all add: held_def midway_def)
  have a: "acct w (m # hs)" using assms(3) st(1) by simp
  obtain r f w' where s: "recv_no_id (pe_pipe pops) m (ro_fq s) w = Some (r, f, w')" "inv w'" "fq_ok live queue f w'"
    "active_pipes f \<subseteq> active_pipes (ro_fq s)" "same_bodies w w' hs" "outs_same w w'"
    "case r of
       Inl e \<Rightarrow> e = EAGAIN \<and> queue w' = queue w \<and> acct w' hs \<and> fq_reading (ro_fq s) = None \<and> fq_reading f = None
         \<and> (\<forall>x \<in> active_pipes (ro_fq s). queue w x = [])
     | Inr (p, m') \<Rightarrow> p \<in> active_pipes (ro_fq s) \<and> (fq_reading (ro_fq s) = None \<or> fq_reading (ro_fq s) = Some p) \<and> acct w' (m' # hs) \<and> body w' m' = body w m'
         \<and> queue w p = m' # queue w' p \<and> (\<forall>x. x \<noteq> p \<longrightarrow> queue w' x = queue w x) \<and> fq_reading f = (if has_more m' then Some p else None)"
    using recv_part [OF assms(1,2) a assms(4)] by blast
  obtain m' where r: "r = Inr (p, m')" using s(7) st(4) by (cases r) auto
  note t = s(7) [unfolded r sum.case prod.case]
  have "router_recv pops m s w = Some (Inr m', s\<lparr>ro_fq := f, ro_prefetched := False, ro_prefetched_msg := msg_init, ro_more_in := has_more m',
       ro_current_in := (if has_more m' then ro_current_in s else None)\<rparr>, w')"
    using False st(2,3) s(1) r assms(6) by (simp add: router_recv_def end_current_in_def)
  moreover have "same_bodies w w' (m' # hs)" using s(5) t by (simp add: same_bodies_def)
  ultimately show ?thesis using s t st(1) by (intro exI [of _ m'] exI [of _ f] exI [of _ w']) simp
qed

text \<open>The address of a message. \<open>o\<close> is where the parts go: nowhere when the pipe of the peer is full.\<close>

definition target :: "'w \<Rightarrow> nat \<Rightarrow> nat option" where
  "target w p = (if writable w p then Some p else None)"

definition addressed :: "bytes \<Rightarrow> nat option \<Rightarrow> 'a router_scheme \<Rightarrow> 'a router_scheme" where
  "addressed k tg s = (if tg = None then set_inactive k (s\<lparr>ro_more_out := True\<rparr>)\<lparr>ro_current_out := None\<rparr> else s\<lparr>ro_more_out := True, ro_current_out := tg\<rparr>)"

lemma router_send_id:
  assumes "inv w" "acct w (i # hs)" "\<not> ro_more_out s" "ro_current_out s = None" "\<not> ro_mandatory s" "has_more i"
    and "lookup_out_pipe (body w i) s = Some (p, a)" "p \<in> live w"
  shows "\<exists>w'. router_send pops i s w = Some (None, addressed (body w i) (target w p) s, w') \<and> inv w' \<and> queue w' = queue w \<and> acct w' hs
    \<and> same_bodies w w' hs \<and> outs_same w w'"
proof -
  obtain w1 where w1: "po_check_write (pe_pipe pops) p w = Some (writable w p, w1)" "inv w1" "live w1 = live w" "queue w1 = queue w" "acct w1 = acct w"
    "body w1 = body w" "sent w1 = sent w" "half w1 = half w" "writable w1 = writable w" "rid w1 = rid w"
    using check_write_law [OF assms(1,8)] by blast
  have a1: "acct w1 (i # hs)" using assms(2) w1(5) by simp
  obtain w2 where w2: "po_close (pe_pipe pops) i w1 = Some w2" "inv w2" "live w2 = live w1" "queue w2 = queue w1" "acct w2 hs" "same_bodies w1 w2 hs"
    using close_acct [OF w1(2) a1] unfolding same_bodies_def by blast
  obtain b where b: "po_check_hwm (pe_pipe pops) p w1 = Some b" using check_hwm_total [OF w1(2)] assms(8) w1(3) by auto
  have k: "so_bytes (pe_sock pops) i w = Some (body w i)" by (rule bytes_acct [OF assms(2)])
  have l: "lookup_out_pipe (body w i) (s\<lparr>ro_more_out := True\<rparr>) = Some (p, a)" using assms(7) by (simp add: lookup_out_pipe_def)
  have m: "\<not> ro_mandatory (set_inactive (body w i) (s\<lparr>ro_more_out := True\<rparr>)\<lparr>ro_current_out := None\<rparr>)" using assms(5) by (simp add: set_inactive_def)
  have "router_address pops i s w = Some (None, addressed (body w i) (target w p) s, w1)"
    using assms(6) k l w1(1) b m by (simp add: router_address_def addressed_def target_def Let_def)
  then have "router_send pops i s w = Some (None, addressed (body w i) (target w p) s, w2)"
    using assms(3,4) w2(1) by (simp add: router_send_def)
  moreover have "same_bodies w w2 hs" using w2(6) w1(6) by (simp add: same_bodies_def)
  moreover have "outs_same w w2" using close_outs [OF w1(2) w2(1)] w1 w2(3) by (simp add: outs_def)
  ultimately show ?thesis using w1 w2 by (intro exI [of _ w2]) simp
qed

text \<open>A part of the message.\<close>

lemma router_send_next:
  assumes "inv w" "acct w (m # hs)" "ro_more_out s" "\<not> ro_opt_raw_socket s" "\<not> ro_raw_socket s" "ro_current_out s = tg"
    and "tg \<noteq> None \<Longrightarrow> tg = Some p \<and> p \<in> live w \<and> writable w p"
  shows "\<exists>w'. router_send pops m s w = Some (None, s\<lparr>ro_more_out := has_more m, ro_current_out := (if has_more m then tg else None)\<rparr>, w')
    \<and> inv w' \<and> live w' = live w \<and> queue w' = queue w \<and> rid w' = rid w \<and> acct w' (if tg = None then hs else m # hs)
    \<and> same_bodies w w' (if tg = None then hs else m # hs) \<and> (tg \<noteq> None \<longrightarrow> has_more m \<longrightarrow> writable w' p) \<and> (tg = None \<longrightarrow> writable w' = writable w)
    \<and> half w' = (if tg = None then half w else (half w)(p := if has_more m then half w p @ [m] else []))
    \<and> sent w' = (if tg = None \<or> has_more m then sent w else (sent w)(p := sent w p @ half w p @ [m]))"
proof (cases tg)
  case None
  obtain w' where w': "po_close (pe_pipe pops) m w = Some w'" "inv w'" "live w' = live w" "queue w' = queue w" "acct w' hs" "same_bodies w w' hs"
    using close_acct [OF assms(1,2)] unfolding same_bodies_def by blast
  have "router_send pops m s w = Some (None, s\<lparr>ro_more_out := has_more m\<rparr>, w')"
    using assms(3,4,6) None w'(1) by (simp add: router_send_def router_send_part_def)
  moreover have "s\<lparr>ro_more_out := b, ro_current_out := None\<rparr> = s\<lparr>ro_more_out := b\<rparr>" for b using assms(6) None by simp
  ultimately show ?thesis using w' None close_outs [OF assms(1) w'(1)] by (intro exI [of _ w']) simp
next
  case (Some q)
  then have p: "tg = Some p" "p \<in> live w" "writable w p" using assms(7) by simp_all
  obtain w1 where w1: "po_write (pe_pipe pops) p m w = Some (True, w1)" "inv w1" "live w1 = live w" "sent w1 = sent w" "half w1 = (half w)(p := half w p @ [m])"
    "has_more m \<longrightarrow> writable w1 p"
    using write_law [OF assms(1) p(2), of m] p(3) by auto
  note i1 = write_ins [OF assms(1) p(2) w1(1)]
  show ?thesis
  proof (cases "has_more m")
    case True
    have "router_send pops m s w = Some (None, s\<lparr>ro_more_out := True, ro_current_out := tg\<rparr>, w1)"
      using assms(3-6) p(1) w1(1) True by (simp add: router_send_def router_send_part_def)
    then show ?thesis using w1 i1 True p(1) assms(2) by (intro exI [of _ w1]) (simp add: same_bodies_def)
  next
    case False
    have "p \<in> live w1" "half w1 p = half w p @ [m]" using p(2) w1(3,5) by simp_all
    from flush_law [OF w1(2) this False] obtain w2 where w2: "po_flush (pe_pipe pops) p w1 = Some w2" "inv w2" "live w2 = live w1"
      "sent w2 = (sent w1)(p := sent w1 p @ half w1 p)" "half w2 = (half w1)(p := [])" "writable w2 = writable w1" by blast
    note i2 = flush_ins [OF w1(2) \<open>p \<in> live w1\<close> w2(1)]
    have "router_send pops m s w = Some (None, s\<lparr>ro_more_out := False, ro_current_out := None\<rparr>, w2)"
      using assms(3-6) p(1) w1(1) w2(1) False by (simp add: router_send_def router_send_part_def)
    then show ?thesis using w1 w2 i1 i2 False p(1) assms(2) by (intro exI [of _ w2]) (simp add: same_bodies_def)
  qed
qed

text \<open>In the middle of a request from \<open>p\<close> whose labels go to \<open>tg\<close>.\<close>

definition carries :: "rep \<Rightarrow> 'w \<Rightarrow> nat \<Rightarrow> nat option \<Rightarrow> bool" where
  "carries s w p tg \<longleftrightarrow> inv w \<and> fq_ok live queue (ro_fq s) w \<and> midway s p \<and> \<not> ro_terminate_current_in s \<and> ro_more_out s
     \<and> \<not> ro_opt_raw_socket s \<and> \<not> ro_raw_socket s \<and> ro_current_out s = tg \<and> (tg \<noteq> None \<longrightarrow> tg = Some p \<and> p \<in> live w \<and> writable w p)
     \<and> (\<forall>q \<in> active_pipes (ro_fq s). \<forall>x \<in> set (queue w q). \<not> is_routing_id x)"

definition taking :: "nat \<Rightarrow> msg list \<Rightarrow> 'w \<Rightarrow> 'w \<Rightarrow> bool" where
  "taking p rest w w' \<longleftrightarrow> queue w' p = rest \<and> (\<forall>x. x \<noteq> p \<longrightarrow> queue w' x = queue w x) \<and> live w' = live w \<and> rid w' = rid w"

lemma rep_labels_rest:
  assumes "carries s w p tg" "acct w (m # held s @ hs)" "held s @ queue w p = ls @ d # rest"
    and "\<forall>x \<in> set ls. has_more x \<and> body w x \<noteq> []" "has_more d" "body w d = []"
  defines "hs' \<equiv> (if tg = None then hs else rev (ls @ [d]) @ hs)"
  shows "\<exists>f c w'. rep_labels pops m s w = Some (Inr msg_init, s\<lparr>ro_fq := f, ro_prefetched := False, ro_prefetched_msg := msg_init, ro_more_in := True,
       ro_current_in := c, ro_more_out := True, ro_current_out := tg\<rparr>, w')
    \<and> inv w' \<and> fq_ok live queue f w' \<and> active_pipes f \<subseteq> active_pipes (ro_fq s) \<and> fq_reading f = Some p \<and> taking p rest w w' \<and> acct w' hs'
    \<and> same_bodies w w' hs' \<and> sent w' = sent w \<and> (tg \<noteq> None \<longrightarrow> writable w' p) \<and> (tg = None \<longrightarrow> writable w' = writable w)
    \<and> half w' = (if tg = None then half w else (half w)(p := half w p @ ls @ [d]))"
  using assms(1-6) unfolding hs'_def
proof (induction ls arbitrary: m s w hs)
  case Nil
  note c = Nil.prems(1) [unfolded carries_def]
  obtain m' f w1 where n: "router_recv pops m s w = Some (Inr m', s\<lparr>ro_fq := f, ro_prefetched := False, ro_prefetched_msg := msg_init, ro_more_in := has_more m',
       ro_current_in := (if has_more m' then ro_current_in s else None)\<rparr>, w1)"
    "inv w1" "fq_ok live queue f w1" "active_pipes f \<subseteq> active_pipes (ro_fq s)" "same_bodies w w1 (m' # hs)" "outs_same w w1" "acct w1 (m' # hs)"
    "held s @ queue w p = m' # queue w1 p" "\<forall>x. x \<noteq> p \<longrightarrow> queue w1 x = queue w x" "fq_reading f = (if has_more m' then Some p else None)"
    using router_next [of w s m hs p] c Nil.prems(2) by blast
  have m': "m' = d" "queue w1 p = rest" using n(8) Nil.prems(3) by simp_all
  let ?s = "s\<lparr>ro_fq := f, ro_prefetched := False, ro_prefetched_msg := msg_init, ro_more_in := True, ro_current_in := ro_current_in s\<rparr>"
  have b: "so_bytes (pe_sock pops) d w1 = Some []" using bytes_acct [OF n(7)] n(5) Nil.prems(6) m' by (simp add: same_bodies_def)
  have tg: "tg \<noteq> None \<Longrightarrow> tg = Some p \<and> p \<in> live w1 \<and> writable w1 p" using c n(6) by (auto simp: outs_def)
  obtain w2 where w2: "router_send pops d ?s w1 = Some (None, ?s\<lparr>ro_more_out := True, ro_current_out := tg\<rparr>, w2)"
    "inv w2" "live w2 = live w1" "queue w2 = queue w1" "rid w2 = rid w1" "acct w2 (if tg = None then hs else d # hs)"
    "same_bodies w1 w2 (if tg = None then hs else d # hs)" "tg \<noteq> None \<longrightarrow> writable w2 p" "tg = None \<longrightarrow> writable w2 = writable w1"
    "half w2 = (if tg = None then half w1 else (half w1)(p := half w1 p @ [d]))" "sent w2 = sent w1"
    using router_send_next [OF n(2,7) [unfolded m'], of ?s tg p] c Nil.prems(5) tg m' by auto
  have "rep_labels pops m s w = Some (Inr msg_init, ?s\<lparr>ro_more_out := True, ro_current_out := tg\<rparr>, w2)"
    using n(1) m' Nil.prems(5) b w2(1) by (subst rep_labels.simps) simp
  moreover have "same_bodies w w2 (if tg = None then hs else d # hs)" using n(5) w2(4,7) m' by (auto simp: same_bodies_def)
  moreover have "fq_ok live queue f w2" using n(3) w2(3,4) by (simp add: fq_ok_def)
  ultimately show ?case using n m' w2 Nil.prems(5)
    by (intro exI [of _ f] exI [of _ "ro_current_in s"] exI [of _ w2]) (auto simp: outs_def taking_def)
next
  case (Cons l ls)
  note c = Cons.prems(1) [unfolded carries_def]
  obtain m' f w1 where n: "router_recv pops m s w = Some (Inr m', s\<lparr>ro_fq := f, ro_prefetched := False, ro_prefetched_msg := msg_init, ro_more_in := has_more m',
       ro_current_in := (if has_more m' then ro_current_in s else None)\<rparr>, w1)"
    "inv w1" "fq_ok live queue f w1" "active_pipes f \<subseteq> active_pipes (ro_fq s)" "same_bodies w w1 (m' # hs)" "outs_same w w1" "acct w1 (m' # hs)"
    "held s @ queue w p = m' # queue w1 p" "\<forall>x. x \<noteq> p \<longrightarrow> queue w1 x = queue w x" "fq_reading f = (if has_more m' then Some p else None)"
    using router_next [of w s m hs p] c Cons.prems(2) by blast
  have m': "m' = l" "queue w1 p = ls @ d # rest" using n(8) Cons.prems(3) by simp_all
  have l: "has_more l" "body w l \<noteq> []" using Cons.prems(4) by simp_all
  let ?s = "s\<lparr>ro_fq := f, ro_prefetched := False, ro_prefetched_msg := msg_init, ro_more_in := True, ro_current_in := ro_current_in s\<rparr>"
  let ?hs = "if tg = None then hs else l # hs"
  have b: "so_bytes (pe_sock pops) l w1 = Some (body w l)" using bytes_acct [OF n(7)] n(5) m' by (simp add: same_bodies_def)
  have tg: "tg \<noteq> None \<Longrightarrow> tg = Some p \<and> p \<in> live w1 \<and> writable w1 p" using c n(6) by (auto simp: outs_def)
  obtain w2 where w2: "router_send pops l ?s w1 = Some (None, ?s\<lparr>ro_more_out := True, ro_current_out := tg\<rparr>, w2)"
    "inv w2" "live w2 = live w1" "queue w2 = queue w1" "rid w2 = rid w1" "acct w2 ?hs"
    "same_bodies w1 w2 ?hs" "tg \<noteq> None \<longrightarrow> writable w2 p" "tg = None \<longrightarrow> writable w2 = writable w1"
    "half w2 = (if tg = None then half w1 else (half w1)(p := half w1 p @ [l]))" "sent w2 = sent w1"
    using router_send_next [OF n(2,7) [unfolded m'], of ?s tg p] c l tg m' by auto
  let ?s2 = "?s\<lparr>ro_more_out := True, ro_current_out := tg\<rparr>"
  have sb: "same_bodies w w2 ?hs" using n(5) w2(4,7) m' by (auto simp: same_bodies_def)
  have ok2: "fq_ok live queue f w2" using n(3) w2(3,4) by (simp add: fq_ok_def)
  have nr: "\<not> is_routing_id x" if q: "q \<in> active_pipes f" "x \<in> set (queue w2 q)" for q x
  proof (cases "q = p")
    case True
    have "queue w1 p \<noteq> [] \<longrightarrow> set (queue w1 p) \<subseteq> set (held s @ queue w p)" using n(8) by auto
    then show ?thesis using q True w2(4) n(4,8) c by (cases "ro_prefetched s") (auto simp: held_def)
  next
    case False
    with q n(4,9) w2(4) c show ?thesis by auto
  qed
  have carr: "carries ?s2 w2 p tg"
    unfolding carries_def midway_def using c w2 ok2 n(10) l m' nr tg by (auto simp: held_def)
  have a2: "acct w2 (msg_init # held ?s2 @ ?hs)" using init_acct [OF w2(6)] by (simp add: held_def)
  have q2: "held ?s2 @ queue w2 p = ls @ d # rest" using m'(2) w2(4) by (simp add: held_def)
  have bod: "body w2 x = body w x" if "x \<in> set (ls @ [d])" for x
    using sb that q2 by (auto simp: same_bodies_def held_def intro!: exI [of _ p])
  have "\<forall>x \<in> set ls. has_more x \<and> body w2 x \<noteq> []" "body w2 d = []" using Cons.prems(4,6) bod by auto
  from Cons.IH [OF carr a2 q2 this(1) Cons.prems(5) this(2)] obtain f' c' w' where r: "rep_labels pops msg_init ?s2 w2 = Some (Inr msg_init,
       ?s2\<lparr>ro_fq := f', ro_prefetched := False, ro_prefetched_msg := msg_init, ro_more_in := True, ro_current_in := c', ro_more_out := True, ro_current_out := tg\<rparr>, w')"
    "inv w'" "fq_ok live queue f' w'" "active_pipes f' \<subseteq> active_pipes f" "fq_reading f' = Some p" "taking p rest w2 w'"
    "acct w' (if tg = None then ?hs else rev (ls @ [d]) @ ?hs)" "same_bodies w2 w' (if tg = None then ?hs else rev (ls @ [d]) @ ?hs)" "sent w' = sent w2"
    "tg \<noteq> None \<longrightarrow> writable w' p" "tg = None \<longrightarrow> writable w' = writable w2" "half w' = (if tg = None then half w2 else (half w2)(p := half w2 p @ ls @ [d]))"
    by auto
  have run: "rep_labels pops m s w = Some (Inr msg_init, ?s\<lparr>ro_fq := f', ro_prefetched := False, ro_prefetched_msg := msg_init, ro_more_in := True,
       ro_current_in := c', ro_more_out := True, ro_current_out := tg\<rparr>, w')"
    using n(1) m' l b w2(1) r(1) by (subst rep_labels.simps) simp
  have qs: "set (queue w' x) \<subseteq> set (queue w2 x)" for x using r(6) q2 by (cases "x = p") (auto simp: taking_def held_def)
  have "same_bodies w w' (if tg = None then hs else rev ((l # ls) @ [d]) @ hs)"
    unfolding same_bodies_def
  proof (intro allI impI)
    fix x assume x: "x \<in> set (if tg = None then hs else rev ((l # ls) @ [d]) @ hs) \<or> (\<exists>p. x \<in> set (queue w' p))"
    then have "body w' x = body w2 x" using r(8) by (auto simp: same_bodies_def split: if_splits)
    moreover have "x \<in> set ?hs \<or> (\<exists>p. x \<in> set (queue w2 p))"
    proof (cases "\<exists>q. x \<in> set (queue w' q)")
      case True
      then show ?thesis using qs by blast
    next
      case False
      with x consider "x \<in> set ?hs" | "x \<in> set (ls @ [d])" by (auto split: if_splits)
      then show ?thesis
      proof cases
        case 2
        then have "x \<in> set (queue w2 p)" using q2 by (auto simp: held_def)
        then show ?thesis by blast
      qed simp
    qed
    then have "body w2 x = body w x" using sb by (auto simp: same_bodies_def)
    ultimately show "body w' x = body w x" by simp
  qed
  moreover have "acct w' (if tg = None then hs else rev ((l # ls) @ [d]) @ hs)" using r(7) by (simp split: if_splits)
  ultimately show ?case using run r n m' w2 l
    by (intro exI [of _ f'] exI [of _ c'] exI [of _ w']) (auto simp: outs_def taking_def)
qed

text \<open>The rest of the body of a request.\<close>

lemma rep_body_rest:
  assumes "carries s w p tg" "acct w hs" "\<not> ro_prefetched s" "\<not> rp_sending_reply s" "\<not> rp_request_begins s"
    and "queue w p = bs @ z # rest" "\<forall>x \<in> set bs. has_more x" "\<not> has_more z"
  shows "\<exists>f w'. rep_request pops s w = Some (Inr (bs @ [z]), s\<lparr>ro_fq := f, ro_prefetched := False, ro_prefetched_msg := msg_init, ro_more_in := False,
       ro_current_in := None, rp_sending_reply := True, rp_request_begins := True\<rparr>, w')
    \<and> inv w' \<and> fq_ok live queue f w' \<and> active_pipes f \<subseteq> active_pipes (ro_fq s) \<and> fq_reading f = None \<and> taking p rest w w' \<and> outs_same w w'
    \<and> acct w' (rev (bs @ [z]) @ hs) \<and> same_bodies w w' (rev (bs @ [z]) @ hs)"
  using assms
proof (induction bs arbitrary: s w hs)
  case Nil
  note c = Nil.prems(1) [unfolded carries_def]
  have h: "held s = []" using Nil.prems(3) by (simp add: held_def)
  have a: "acct w (msg_init # held s @ hs)" using init_acct [OF Nil.prems(2)] h by simp
  obtain m' f w1 where n: "router_recv pops msg_init s w = Some (Inr m', s\<lparr>ro_fq := f, ro_prefetched := False, ro_prefetched_msg := msg_init,
       ro_more_in := has_more m', ro_current_in := (if has_more m' then ro_current_in s else None)\<rparr>, w1)"
    "inv w1" "fq_ok live queue f w1" "active_pipes f \<subseteq> active_pipes (ro_fq s)" "same_bodies w w1 (m' # hs)" "outs_same w w1" "acct w1 (m' # hs)"
    "held s @ queue w p = m' # queue w1 p" "\<forall>x. x \<noteq> p \<longrightarrow> queue w1 x = queue w x" "fq_reading f = (if has_more m' then Some p else None)"
    using router_next [of w s msg_init hs p] c a by blast
  have m': "m' = z" "queue w1 p = rest" using n(8) Nil.prems(6) h by simp_all
  have sf: "s\<lparr>rp_request_begins := False\<rparr> = s" using Nil.prems(5) by simp
  have "rep_recv pops msg_init s w = Some (Inr z, s\<lparr>ro_fq := f, ro_prefetched := False, ro_prefetched_msg := msg_init, ro_more_in := False,
       ro_current_in := None, rp_sending_reply := True, rp_request_begins := True\<rparr>, w1)"
    using n(1) m' Nil.prems(4,5,8) by (simp add: rep_recv_def sf)
  then have "rep_request pops s w = Some (Inr [z], s\<lparr>ro_fq := f, ro_prefetched := False, ro_prefetched_msg := msg_init, ro_more_in := False,
       ro_current_in := None, rp_sending_reply := True, rp_request_begins := True\<rparr>, w1)"
    using Nil.prems(8) by (subst rep_request.simps) simp
  with n m' Nil.prems(8) show ?case by (intro exI [of _ f] exI [of _ w1]) (auto simp: outs_def taking_def)
next
  case (Cons b bs)
  note c = Cons.prems(1) [unfolded carries_def]
  have h: "held s = []" using Cons.prems(3) by (simp add: held_def)
  have a: "acct w (msg_init # held s @ hs)" using init_acct [OF Cons.prems(2)] h by simp
  obtain m' f w1 where n: "router_recv pops msg_init s w = Some (Inr m', s\<lparr>ro_fq := f, ro_prefetched := False, ro_prefetched_msg := msg_init,
       ro_more_in := has_more m', ro_current_in := (if has_more m' then ro_current_in s else None)\<rparr>, w1)"
    "inv w1" "fq_ok live queue f w1" "active_pipes f \<subseteq> active_pipes (ro_fq s)" "same_bodies w w1 (m' # hs)" "outs_same w w1" "acct w1 (m' # hs)"
    "held s @ queue w p = m' # queue w1 p" "\<forall>x. x \<noteq> p \<longrightarrow> queue w1 x = queue w x" "fq_reading f = (if has_more m' then Some p else None)"
    using router_next [of w s msg_init hs p] c a by blast
  have m': "m' = b" "queue w1 p = bs @ z # rest" "has_more b" using n(8) Cons.prems(6,7) h by simp_all
  let ?s = "s\<lparr>ro_fq := f, ro_prefetched := False, ro_prefetched_msg := msg_init, ro_more_in := True, ro_current_in := ro_current_in s\<rparr>"
  have sf: "s\<lparr>rp_request_begins := False\<rparr> = s" using Cons.prems(5) by simp
  have recv: "rep_recv pops msg_init s w = Some (Inr b, ?s, w1)"
    using n(1) m' Cons.prems(4,5) by (simp add: rep_recv_def sf)
  have qs: "set (queue w1 x) \<subseteq> set (queue w x)" for x using n(8,9) h by (cases "x = p") auto
  have carr: "carries ?s w1 p tg"
    unfolding carries_def midway_def using c n m' qs by (auto simp: outs_def; blast)
  obtain f' w' where r: "rep_request pops ?s w1 = Some (Inr (bs @ [z]), ?s\<lparr>ro_fq := f', ro_prefetched := False, ro_prefetched_msg := msg_init,
       ro_more_in := False, ro_current_in := None, rp_sending_reply := True, rp_request_begins := True\<rparr>, w')"
    "inv w'" "fq_ok live queue f' w'" "active_pipes f' \<subseteq> active_pipes f" "fq_reading f' = None" "taking p rest w1 w'" "outs_same w1 w'"
    "acct w' (rev (bs @ [z]) @ b # hs)" "same_bodies w1 w' (rev (bs @ [z]) @ b # hs)"
    using Cons.IH [OF carr n(7) [unfolded m'(1)]] Cons.prems(4,5,7,8) m'(2) by auto
  have run: "rep_request pops s w = Some (Inr ((b # bs) @ [z]), s\<lparr>ro_fq := f', ro_prefetched := False, ro_prefetched_msg := msg_init, ro_more_in := False,
       ro_current_in := None, rp_sending_reply := True, rp_request_begins := True\<rparr>, w')"
    using recv r(1) m'(3) by (subst rep_request.simps) simp
  have qs2: "set (queue w' x) \<subseteq> set (queue w1 x)" for x using r(6) m'(2) by (cases "x = p") (auto simp: taking_def)
  have "same_bodies w w' (rev ((b # bs) @ [z]) @ hs)"
    unfolding same_bodies_def
  proof (intro allI impI)
    fix x assume x: "x \<in> set (rev ((b # bs) @ [z]) @ hs) \<or> (\<exists>p. x \<in> set (queue w' p))"
    then have "body w' x = body w1 x" using r(9) by (auto simp: same_bodies_def)
    moreover have "x \<in> set (b # hs) \<or> (\<exists>p. x \<in> set (queue w1 p))"
    proof (cases "\<exists>q. x \<in> set (queue w' q)")
      case True
      then show ?thesis using qs2 by blast
    next
      case False
      with x consider "x \<in> set (b # hs)" | "x \<in> set (queue w1 p)" using m'(2) by auto
      then show ?thesis by cases blast+
    qed
    then have "body w1 x = body w x" using n(5) m'(1) by (auto simp: same_bodies_def)
    ultimately show "body w' x = body w x" by simp
  qed
  with run r n m' show ?case by (intro exI [of _ f'] exI [of _ w']) (auto simp: outs_def taking_def)
qed

text \<open>Sending the reply.\<close>

lemma rep_reply_rest:
  assumes "inv w" "acct w (ms @ z # hs)" "rp_sending_reply s" "ro_more_out s" "\<not> ro_opt_raw_socket s" "\<not> ro_raw_socket s" "ro_current_out s = tg"
    and "tg \<noteq> None \<Longrightarrow> tg = Some p \<and> p \<in> live w \<and> writable w p" "\<forall>x \<in> set ms. has_more x" "\<not> has_more z"
  shows "\<exists>w'. rep_reply pops (ms @ [z]) s w = Some (replicate (length ms + 1) None,
       s\<lparr>ro_more_out := False, ro_current_out := None, rp_sending_reply := False\<rparr>, w')
    \<and> inv w' \<and> live w' = live w \<and> queue w' = queue w \<and> rid w' = rid w
    \<and> half w' = (if tg = None then half w else (half w)(p := []))
    \<and> sent w' = (if tg = None then sent w else (sent w)(p := sent w p @ half w p @ ms @ [z]))"
  using assms
proof (induction ms arbitrary: s w hs)
  case Nil
  obtain w' where w': "router_send pops z s w = Some (None, s\<lparr>ro_more_out := False, ro_current_out := None\<rparr>, w')"
    "inv w'" "live w' = live w" "queue w' = queue w" "rid w' = rid w" "half w' = (if tg = None then half w else (half w)(p := []))"
    "sent w' = (if tg = None then sent w else (sent w)(p := sent w p @ half w p @ [z]))"
    using router_send_next [of w z hs s tg p] Nil.prems by auto
  then show ?case using Nil.prems(3,10) by (auto simp: rep_send_def)
next
  case (Cons m ms)
  let ?hs = "ms @ z # hs"
  have a: "acct w (m # ?hs)" using Cons.prems(2) by simp
  obtain w1 where w1: "router_send pops m s w = Some (None, s\<lparr>ro_more_out := True, ro_current_out := tg\<rparr>, w1)"
    "inv w1" "live w1 = live w" "queue w1 = queue w" "rid w1 = rid w" "acct w1 (if tg = None then ?hs else m # ?hs)" "tg \<noteq> None \<longrightarrow> writable w1 p"
    "half w1 = (if tg = None then half w else (half w)(p := half w p @ [m]))" "sent w1 = sent w"
    using router_send_next [OF Cons.prems(1) a Cons.prems(4-8)] Cons.prems(9) by auto
  have s1: "s\<lparr>ro_more_out := True, ro_current_out := tg\<rparr> = s" using Cons.prems(4,7) by simp
  obtain hs' where a1: "acct w1 (ms @ z # hs')"
  proof (cases "tg = None")
    case True
    then show ?thesis using w1(6) that by simp
  next
    case False
    have "acct w1 (m # ?hs)" using w1(6) unfolding if_not_P [OF False] .
    then have "acct w1 (ms @ z # m # hs)" by (rule reorder_acct) simp
    then show ?thesis by (rule that)
  qed
  have tg: "tg \<noteq> None \<Longrightarrow> tg = Some p \<and> p \<in> live w1 \<and> writable w1 p" using Cons.prems(8) w1(3,7) by simp
  obtain w' where w': "rep_reply pops (ms @ [z]) s w1 = Some (replicate (length ms + 1) None,
       s\<lparr>ro_more_out := False, ro_current_out := None, rp_sending_reply := False\<rparr>, w')"
    "inv w'" "live w' = live w1" "queue w' = queue w1" "rid w' = rid w1" "half w' = (if tg = None then half w1 else (half w1)(p := []))"
    "sent w' = (if tg = None then sent w1 else (sent w1)(p := sent w1 p @ half w1 p @ ms @ [z]))"
    using Cons.IH [OF w1(2) a1 Cons.prems(3-7) tg] Cons.prems(9,10) by auto
  have "rep_send pops m s w = Some (None, s, w1)" using w1(1) s1 Cons.prems(3,9) by (simp add: rep_send_def)
  with w' w1 show ?case by auto
qed

definition rep_peer :: "rep \<Rightarrow> 'w \<Rightarrow> nat \<Rightarrow> bool" where
  "rep_peer s w p \<longleftrightarrow> rid w p \<noteq> [] \<and> length (rid w p) \<le> max_vsm_size \<and> map_option fst (lookup_out_pipe (rid w p) s) = Some p
     \<and> half w p = [] \<and> requests (body w) (queue w p) \<and> (\<forall>x \<in> set (queue w p). \<not> is_routing_id x)"

lemma rep_request_begin:
  assumes "rep_labels pops msg_init s w = Some (Inr msg_init, s1, w1)" "rp_request_begins s" "\<not> rp_sending_reply s" "\<not> rp_sending_reply s1"
  shows "rep_request pops s w = rep_request pops (s1\<lparr>rp_request_begins := False\<rparr>) w1"
proof -
  have "rep_recv pops msg_init s w = rep_recv pops msg_init (s1\<lparr>rp_request_begins := False\<rparr>) w1"
    using assms by (simp add: rep_recv_def)
  then show ?thesis by (subst (1 2) rep_request.simps) simp
qed

text \<open>The labels of the next request, with the pipe they are from and where they go.\<close>

definition labels_taken :: "rep \<Rightarrow> 'w \<Rightarrow> rep \<Rightarrow> 'w \<Rightarrow> nat \<Rightarrow> msg list \<Rightarrow> msg list \<Rightarrow> msg list \<Rightarrow> bool" where
  "labels_taken s w s1 w1 p env b rest \<longleftrightarrow> p \<in> active_pipes (ro_fq s) \<and> label_stack (body w) env \<and> whole (p, b) \<and> queue w p = env @ b @ rest
     \<and> (\<exists>t f c. s1 = s\<lparr>rb_out_pipes := t, ro_fq := f, ro_routing_id_sent := True, ro_prefetched := False, ro_prefetched_msg := msg_init,
            ro_more_in := True, ro_current_in := c, ro_more_out := True, ro_current_out := target w p\<rparr> \<and> fq_reading f = Some p
          \<and> active_pipes f \<subseteq> active_pipes (ro_fq s) \<and> fq_ok live queue f w1)
     \<and> same_routes s s1 \<and> inv w1 \<and> taking p (b @ rest) w w1 \<and> (\<exists>hs. acct w1 hs) \<and> map (body w1) b = map (body w) b \<and> sent w1 = sent w
     \<and> (writable w p \<longrightarrow> writable w1 p) \<and> half w1 = (if writable w p then (half w)(p := env) else half w)"

lemma rep_labels_begin:
  assumes "inv w" "fq_ok live queue (ro_fq s) w" "acct w []" "rep_idle s" "\<forall>p \<in> active_pipes (ro_fq s). rep_peer s w p"
  shows "\<exists>r s1 w1. rep_labels pops msg_init s w = Some (r, s1, w1) \<and>
    (case r of
       Inl e \<Rightarrow> e = EAGAIN \<and> (\<forall>p \<in> active_pipes (ro_fq s). queue w p = []) \<and> queue w1 = queue w \<and> sent w1 = sent w \<and> half w1 = half w \<and> rep_idle s1
     | Inr m \<Rightarrow> m = msg_init \<and> (\<exists>p env b rest. labels_taken s w s1 w1 p env b rest))"
proof -
  note idle = assms(4) [unfolded rep_idle_def]
  note peer = assms(5) [unfolded rep_peer_def]
  have a0: "acct w (msg_init # [])" by (rule init_acct [OF assms(3)])
  obtain r0 s0 w0 where f: "router_recv pops msg_init s w = Some (r0, s0, w0)" "inv w0" "fq_ok live queue (ro_fq s0) w0"
    "active_pipes (ro_fq s0) \<subseteq> active_pipes (ro_fq s)" "same_bodies w w0 []" "outs_same w w0"
    "case r0 of
       Inl e \<Rightarrow> e = EAGAIN \<and> queue w0 = queue w \<and> acct w0 [] \<and> s0 = s\<lparr>ro_fq := ro_fq s0\<rparr> \<and> fq_reading (ro_fq s0) = None
         \<and> (\<forall>x \<in> active_pipes (ro_fq s). queue w x = [])
     | Inr i \<Rightarrow> \<exists>p m'. p \<in> active_pipes (ro_fq s) \<and> queue w p = m' # queue w0 p \<and> (\<forall>x. x \<noteq> p \<longrightarrow> queue w0 x = queue w x)
         \<and> has_more i \<and> body w0 i = rid w p \<and> acct w0 (i # m' # []) \<and> body w0 m' = body w m'
         \<and> s0 = s\<lparr>ro_fq := ro_fq s0, ro_prefetched_msg := m', ro_prefetched := True, ro_current_in := Some p, ro_routing_id_sent := True\<rparr>
         \<and> fq_reading (ro_fq s0) = (if has_more m' then Some p else None)"
    using router_first [OF assms(1,2) a0] peer idle by blast
  show ?thesis
  proof (cases r0)
    case (Inl e)
    note t = f(7) [unfolded Inl sum.case]
    have "rep_labels pops msg_init s w = Some (Inl e, s0, w0)" using f(1) Inl by (subst rep_labels.simps) simp
    moreover obtain f0 where f0: "s0 = s\<lparr>ro_fq := f0\<rparr>" using t by blast
    have "fq_reading f0 = None" using t unfolding f0 by simp
    then have "rep_idle s0" using idle by (simp add: f0 rep_idle_def fq_reading_def split: if_splits)
    ultimately show ?thesis using t f(6) by (intro exI [of _ "Inl e"] exI [of _ s0] exI [of _ w0]) (simp add: outs_def)
  next
    case (Inr i)
    obtain p m' where p: "p \<in> active_pipes (ro_fq s)" "queue w p = m' # queue w0 p" "\<forall>x. x \<noteq> p \<longrightarrow> queue w0 x = queue w x"
      "has_more i" "body w0 i = rid w p" "acct w0 (i # m' # [])" "body w0 m' = body w m'"
      "s0 = s\<lparr>ro_fq := ro_fq s0, ro_prefetched_msg := m', ro_prefetched := True, ro_current_in := Some p, ro_routing_id_sent := True\<rparr>"
      "fq_reading (ro_fq s0) = (if has_more m' then Some p else None)"
      using f(7) [unfolded Inr sum.case] by blast
    then obtain f0 where s0: "s0 = s\<lparr>ro_fq := f0, ro_prefetched_msg := m', ro_prefetched := True, ro_current_in := Some p, ro_routing_id_sent := True\<rparr>"
      by blast
    note pp = peer [rule_format, OF p(1)]
    obtain a where a: "lookup_out_pipe (rid w p) s = Some (p, a)" using pp by auto
    have live: "p \<in> live w0" using p(1) assms(2) f(6) by (auto simp: fq_ok_def active_pipes_def outs_def dest: in_set_takeD)
    obtain env q rest where env: "queue w p = env @ snd q @ rest" "label_stack (body w) env" "whole q"
      using requests_first [of "body w" "queue w p"] pp p(2) by auto
    obtain ls d where ls: "env = ls @ [d]" "\<forall>x \<in> set ls. has_more x \<and> body w x \<noteq> []" "has_more d" "body w d = []"
      using env(2) by (auto simp: label_stack_def)
    obtain bs z where bz: "snd q = bs @ [z]" "\<forall>x \<in> set bs. has_more x" "\<not> has_more z"
      using env(3) by (metis append_butlast_last_id whole_def)
    have wh: "whole (p, bs @ [z])" using bz by (simp add: whole_def)
    \<comment> \<open>the routing id\<close>
    let ?tg = "target w0 p"
    have l0: "lookup_out_pipe (body w0 i) s0 = Some (p, a)" using a p(5) by (simp add: s0 lookup_out_pipe_def)
    obtain w2 where w2: "router_send pops i s0 w0 = Some (None, addressed (body w0 i) ?tg s0, w2)" "inv w2" "queue w2 = queue w0" "acct w2 [m']"
      "same_bodies w0 w2 [m']" "outs_same w0 w2"
      using router_send_id [OF f(2) p(6) _ _ _ p(4) l0 live] idle by (auto simp: s0)
    obtain t where t: "addressed (body w0 i) ?tg s0 = s0\<lparr>rb_out_pipes := t, ro_more_out := True, ro_current_out := ?tg\<rparr>"
      "\<forall>k. map_option fst (map_of t k) = map_option fst (map_of (rb_out_pipes s) k)"
    proof (cases "?tg = None")
      case True
      then show ?thesis by (intro that [of "AList.map_entry (body w0 i) (\<lambda>(p, a). (p, False)) (rb_out_pipes s)"])
          (simp_all add: addressed_def set_inactive_def map_entry_routes s0)
    next
      case False
      then show ?thesis by (intro that [of "rb_out_pipes s"]) (auto simp: addressed_def s0)
    qed
    let ?s2 = "s0\<lparr>rb_out_pipes := t, ro_more_out := True, ro_current_out := ?tg\<rparr>"
    have bi: "so_bytes (pe_sock pops) i w0 = Some (rid w p)" using bytes_acct [OF p(6)] p(5) by simp
    have lab0: "rep_labels pops msg_init s w = rep_labels pops msg_init ?s2 w2"
      using f(1) Inr p(4) bi w2(1) t(1) pp by (subst rep_labels.simps) simp
    have fr: "fq_reading f0 = (if has_more m' then Some p else None)" "active_pipes f0 \<subseteq> active_pipes (ro_fq s)" "fq_ok live queue f0 w0"
      using p(9) f(3,4) by (simp_all add: s0)
    have qs: "set (queue w2 x) \<subseteq> set (queue w x)" for x using p(2,3) w2(3) by (cases "x = p") auto
    have tgp: "?tg \<noteq> None \<longrightarrow> ?tg = Some p \<and> p \<in> live w2 \<and> writable w2 p" using live w2(6) by (simp add: target_def outs_def)
    have carr: "carries ?s2 w2 p ?tg"
      unfolding carries_def midway_def
      using w2(2,3,6) fr idle tgp peer qs by (auto simp: s0 fq_ok_def outs_def; blast)
    have a2: "acct w2 (msg_init # held ?s2 @ [])" using init_acct [OF w2(4)] by (simp add: s0 held_def)
    have q2: "held ?s2 @ queue w2 p = ls @ d # (bs @ z # rest)" using p(2) w2(3) env(1) ls(1) bz(1) by (simp add: s0 held_def)
    have sb2: "body w2 x = body w x" if "x \<in> set (queue w2 r) \<or> x = m'" for x r
    proof -
      have "body w2 x = body w0 x" using w2(5) that by (auto simp: same_bodies_def)
      moreover have "body w0 x = body w x" using f(5) w2(3) that p(7) by (auto simp: same_bodies_def)
      ultimately show ?thesis by simp
    qed
    have bl: "body w2 x = body w x" if "x \<in> set (ls @ [d] @ bs @ [z])" for x
      using that q2 sb2 [of x p] by (auto simp: s0 held_def Cons_eq_append_conv)
    have ls2: "\<forall>x \<in> set ls. has_more x \<and> body w2 x \<noteq> []" "body w2 d = []" using ls bl by auto
    obtain f3 c w3 where r3: "rep_labels pops msg_init ?s2 w2 = Some (Inr msg_init, ?s2\<lparr>ro_fq := f3, ro_prefetched := False, ro_prefetched_msg := msg_init,
         ro_more_in := True, ro_current_in := c, ro_more_out := True, ro_current_out := ?tg\<rparr>, w3)"
      "inv w3" "fq_ok live queue f3 w3" "active_pipes f3 \<subseteq> active_pipes (ro_fq ?s2)" "fq_reading f3 = Some p" "taking p (bs @ z # rest) w2 w3"
      "acct w3 (if ?tg = None then [] else rev (ls @ [d]) @ [])" "same_bodies w2 w3 (if ?tg = None then [] else rev (ls @ [d]) @ [])" "sent w3 = sent w2"
      "?tg \<noteq> None \<longrightarrow> writable w3 p" "?tg = None \<longrightarrow> writable w3 = writable w2"
      "half w3 = (if ?tg = None then half w2 else (half w2)(p := half w2 p @ ls @ [d]))"
      using rep_labels_rest [OF carr a2 q2 ls2(1) ls(3) ls2(2)] by (elim exE conjE) (rule that, assumption+)
    let ?s3 = "?s2\<lparr>ro_fq := f3, ro_prefetched := False, ro_prefetched_msg := msg_init,
         ro_more_in := True, ro_current_in := c, ro_more_out := True, ro_current_out := ?tg\<rparr>"
    have tg: "?tg = target w p" "target w p = None \<longleftrightarrow> \<not> writable w p" using f(6) by (simp_all add: target_def outs_def)
    have "taking p (bs @ z # rest) w w3" using r3(6) p(3) w2(3,6) f(6) by (simp add: taking_def outs_def)
    moreover have "map (body w3) (bs @ [z]) = map (body w) (bs @ [z])"
    proof (rule map_cong)
      fix x assume x: "x \<in> set (bs @ [z])"
      have "queue w3 p = bs @ z # rest" using r3(6) by (simp add: taking_def)
      then have "body w3 x = body w2 x" using r3(8) x by (auto simp: same_bodies_def intro!: exI [of _ p])
      then show "body w3 x = body w x" using bl x by auto
    qed simp
    moreover have "half w3 = (if writable w p then (half w)(p := env) else half w)" "sent w3 = sent w"
      using r3(9,12) w2(6) f(6) tg pp ls(1) by (simp_all add: outs_def)
    moreover have "writable w p \<longrightarrow> writable w3 p" using r3(10) tg by simp
    moreover have "same_routes s ?s3" using t(2) by (simp add: same_routes_def lookup_out_pipe_def s0)
    moreover have "active_pipes f3 \<subseteq> active_pipes (ro_fq s)" using r3(4) fr(2) by (simp add: s0)
    moreover have "?s3 = s\<lparr>rb_out_pipes := t, ro_fq := f3, ro_routing_id_sent := True, ro_prefetched := False, ro_prefetched_msg := msg_init,
        ro_more_in := True, ro_current_in := c, ro_more_out := True, ro_current_out := target w p\<rparr>" using tg(1) by (simp add: s0)
    moreover have "rep_labels pops msg_init s w = Some (Inr msg_init, ?s3, w3)" using lab0 r3(1) by simp
    moreover have "\<exists>hs. acct w3 hs" using r3(7) by blast
    ultimately have "labels_taken s w ?s3 w3 p env (bs @ [z]) rest"
      unfolding labels_taken_def using p(1) env(1,2) wh bz(1) r3(2,3,5) by auto
    then show ?thesis using lab0 r3(1) by (intro exI [of _ "Inr msg_init"] exI [of _ ?s3] exI [of _ w3]) auto
  qed
qed

text \<open>The reply to a request that has been taken.\<close>

lemma rep_reply_whole:
  assumes "inv w" "acct w (ms @ hs)" "whole (p, ms)" "rp_sending_reply s" "ro_more_out s" "\<not> ro_opt_raw_socket s" "\<not> ro_raw_socket s"
    and "ro_current_out s = tg" "tg \<noteq> None \<Longrightarrow> tg = Some p \<and> p \<in> live w \<and> writable w p"
  shows "\<exists>w'. rep_reply pops ms s w = Some (replicate (length ms) None, s\<lparr>ro_more_out := False, ro_current_out := None, rp_sending_reply := False\<rparr>, w')
    \<and> inv w' \<and> live w' = live w \<and> queue w' = queue w \<and> half w' = (if tg = None then half w else (half w)(p := []))
    \<and> sent w' = (if tg = None then sent w else (sent w)(p := sent w p @ half w p @ ms))"
proof -
  obtain us v where us: "ms = us @ [v]" "\<forall>x \<in> set us. has_more x" "\<not> has_more v"
    using assms(3) unfolding whole_def by (metis append_butlast_last_id snd_conv)
  have a: "acct w (us @ v # hs)" using assms(2) us(1) by simp
  show ?thesis using rep_reply_rest [OF assms(1) a assms(4-9) us(2,3)] us(1) by auto
qed

lemma rep_exchange:
  assumes "inv w" "fq_ok live queue (ro_fq s) w" "acct w []" "rep_idle s" "\<forall>p \<in> active_pipes (ro_fq s). rep_peer s w p"
  shows "\<exists>r s1 w1. rep_request pops s w = Some (r, s1, w1) \<and>
    (case r of
       Inl e \<Rightarrow> e = EAGAIN \<and> (\<forall>p \<in> active_pipes (ro_fq s). queue w p = []) \<and> queue w1 = queue w \<and> sent w1 = sent w \<and> half w1 = half w \<and> rep_idle s1
     | Inr b \<Rightarrow> \<exists>p env. p \<in> active_pipes (ro_fq s) \<and> label_stack (body w) env \<and> whole (p, b) \<and> queue w p = env @ b @ queue w1 p
         \<and> (\<forall>x. x \<noteq> p \<longrightarrow> queue w1 x = queue w x) \<and> map (body w1) b = map (body w) b \<and> sent w1 = sent w
         \<and> (\<exists>hs. acct w1 (b @ hs)) \<and>
         (\<forall>ms hs. whole (p, ms) \<longrightarrow> acct w1 (ms @ hs) \<longrightarrow> (\<exists>s2 w2. rep_reply pops ms s1 w1 = Some (replicate (length ms) None, s2, w2)
            \<and> queue w2 = queue w1 \<and> sent w2 = (sent w)(p := sent w p @ (if writable w p then env @ ms else [])) \<and> half w2 = half w
            \<and> inv w2 \<and> fq_ok live queue (ro_fq s2) w2 \<and> rep_idle s2 \<and> same_routes s s2)))"
proof -
  obtain r0 s3 w3 where lab: "rep_labels pops msg_init s w = Some (r0, s3, w3)"
    "case r0 of
       Inl e \<Rightarrow> e = EAGAIN \<and> (\<forall>p \<in> active_pipes (ro_fq s). queue w p = []) \<and> queue w3 = queue w \<and> sent w3 = sent w \<and> half w3 = half w \<and> rep_idle s3
     | Inr m \<Rightarrow> m = msg_init \<and> (\<exists>p env b rest. labels_taken s w s3 w3 p env b rest)"
    using rep_labels_begin [OF assms] by blast
  note idle = assms(4) [unfolded rep_idle_def]
  show ?thesis
  proof (cases r0)
    case (Inl e)
    with lab(1) idle have "rep_request pops s w = Some (Inl e, s3, w3)" by (subst rep_request.simps) (simp add: rep_recv_def)
    with lab(2) Inl show ?thesis by (intro exI [of _ "Inl e"] exI [of _ s3] exI [of _ w3]) simp
  next
    case (Inr m)
    then have m: "m = msg_init" using lab(2) by simp
    obtain p env b rest where "labels_taken s w s3 w3 p env b rest" using lab(2) Inr by auto
    note l = this [unfolded labels_taken_def]
    obtain t f3 c where s3: "s3 = s\<lparr>rb_out_pipes := t, ro_fq := f3, ro_routing_id_sent := True, ro_prefetched := False, ro_prefetched_msg := msg_init,
        ro_more_in := True, ro_current_in := c, ro_more_out := True, ro_current_out := target w p\<rparr>"
      "fq_reading f3 = Some p" "active_pipes f3 \<subseteq> active_pipes (ro_fq s)" "fq_ok live queue f3 w3" using l by blast
    obtain hs where hs: "acct w3 hs" using l by blast
    let ?tg = "target w p" and ?s3 = "s3\<lparr>rp_request_begins := False\<rparr>"
    have req: "rep_request pops s w = rep_request pops ?s3 w3"
      using rep_request_begin [OF lab(1) [unfolded Inr m]] idle by (simp add: s3(1))
    obtain bs z where bz: "b = bs @ [z]" "\<forall>x \<in> set bs. has_more x" "\<not> has_more z"
      using l unfolding whole_def by (metis append_butlast_last_id snd_conv)
    have tk: "queue w3 p = bs @ z # rest" "\<forall>x. x \<noteq> p \<longrightarrow> queue w3 x = queue w x" "live w3 = live w" using l bz(1) by (simp_all add: taking_def)
    have qs3: "set (queue w3 x) \<subseteq> set (queue w x)" for x using tk(1,2) l bz(1) by (cases "x = p") auto
    have tg: "?tg \<noteq> None \<longrightarrow> ?tg = Some p \<and> p \<in> live w3 \<and> writable w3 p" "?tg = None \<longleftrightarrow> \<not> writable w p"
      using l assms(2) tk(3) by (auto simp: target_def fq_ok_def active_pipes_def dest: in_set_takeD)
    have carr3: "carries ?s3 w3 p ?tg"
      unfolding carries_def midway_def
      using l s3(2-4) idle tg(1) assms(5) [unfolded rep_peer_def] qs3 by (auto simp: s3(1); blast)
    obtain f4 w4 where r4: "rep_request pops ?s3 w3 = Some (Inr (bs @ [z]), ?s3\<lparr>ro_fq := f4, ro_prefetched := False, ro_prefetched_msg := msg_init,
         ro_more_in := False, ro_current_in := None, rp_sending_reply := True, rp_request_begins := True\<rparr>, w4)"
      "inv w4" "fq_ok live queue f4 w4" "fq_reading f4 = None" "taking p rest w3 w4" "outs_same w3 w4" "same_bodies w3 w4 (rev (bs @ [z]) @ hs)" "acct w4 (rev (bs @ [z]) @ hs)"
      using rep_body_rest [OF carr3 hs _ _ _ tk(1) bz(2,3)] idle by (auto simp: s3(1))
    let ?s4 = "?s3\<lparr>ro_fq := f4, ro_prefetched := False, ro_prefetched_msg := msg_init, ro_more_in := False, ro_current_in := None,
         rp_sending_reply := True, rp_request_begins := True\<rparr>"
    let ?s5 = "?s4\<lparr>ro_more_out := False, ro_current_out := None, rp_sending_reply := False\<rparr>"
    have "map (body w4) b = map (body w3) b" using r4(7) bz(1) by (auto simp: same_bodies_def)
    then have bodies: "map (body w4) b = map (body w) b" using l by simp
    have queues: "queue w p = env @ b @ queue w4 p" "\<forall>x. x \<noteq> p \<longrightarrow> queue w4 x = queue w x" using l r4(5) tk by (simp_all add: taking_def)
    have outs: "sent w4 = sent w" "half w4 = (if writable w p then (half w)(p := env) else half w)" using r4(6) l by (simp_all add: outs_def)
    have half0: "half w p = []" using assms(5) l by (auto simp: rep_peer_def)
    have reply: "\<exists>w'. rep_reply pops ms ?s4 w4 = Some (replicate (length ms) None, ?s5, w')
        \<and> queue w' = queue w4 \<and> sent w' = (sent w)(p := sent w p @ (if writable w p then env @ ms else [])) \<and> half w' = half w
        \<and> inv w' \<and> fq_ok live queue f4 w'" if ms: "whole (p, ms)" "acct w4 (ms @ hs)" for ms hs
    proof -
      have "?tg \<noteq> None \<Longrightarrow> ?tg = Some p \<and> p \<in> live w4 \<and> writable w4 p" using tg(1) r4(6) by (auto simp: outs_def)
      with rep_reply_whole [OF r4(2) ms(2,1), of ?s4 ?tg] idle obtain w' where w': "rep_reply pops ms ?s4 w4 = Some (replicate (length ms) None, ?s5, w')"
        "inv w'" "live w' = live w4" "queue w' = queue w4" "half w' = (if ?tg = None then half w4 else (half w4)(p := []))"
        "sent w' = (if ?tg = None then sent w4 else (sent w4)(p := sent w4 p @ half w4 p @ ms))" by (auto simp: s3(1))
      then show ?thesis using outs tg(2) half0 r4(3) by (intro exI [of _ w']) (auto simp: fun_upd_idem fq_ok_def)
    qed
    have final: "rep_idle ?s5" "same_routes s ?s5" "ro_fq ?s5 = f4"
      using idle r4(4) l by (simp_all add: s3(1) rep_idle_def fq_reading_def same_routes_def lookup_out_pipe_def split: if_splits)
    have "acct w4 (b @ hs)" using r4(8) by (rule reorder_acct) (simp add: bz(1))
    then have "\<exists>hs. acct w4 (b @ hs)" by blast
    moreover have "rep_request pops s w = Some (Inr b, ?s4, w4)" using req r4(1) bz(1) by simp
    moreover have "p \<in> active_pipes (ro_fq s)" "label_stack (body w) env" "whole (p, b)" using l by blast+
    moreover have "\<exists>s2 w2. rep_reply pops ms ?s4 w4 = Some (replicate (length ms) None, s2, w2) \<and> queue w2 = queue w4
        \<and> sent w2 = (sent w)(p := sent w p @ (if writable w p then env @ ms else [])) \<and> half w2 = half w
        \<and> inv w2 \<and> fq_ok live queue (ro_fq s2) w2 \<and> rep_idle s2 \<and> same_routes s s2" if "whole (p, ms)" "acct w4 (ms @ hs)" for ms hs
      using reply [OF that] final by (metis (no_types, lifting))
    ultimately show ?thesis using queues bodies outs(1)
      by (intro exI [of _ "Inr b"] exI [of _ ?s4] exI [of _ w4]) (unfold sum.case, rule conjI, blast, rule exI [of _ p], rule exI [of _ env], (intro conjI allI impI; blast))
  qed
qed

end

end
