(* ===== verification/Rep_Net.thy ===== *)
theory Rep_Net
  imports Rep_Facts
begin

text \<open>
  Reply sockets over real pipes: every reply goes back to the peer that asked, and what goes wrong otherwise.
\<close>

subsection \<open>A request and its reply\<close>

text \<open>A peer of the socket: it has a routing id in the table, nothing half-written, and only requests in its pipe.\<close>

definition known_peer :: "rep \<Rightarrow> net \<Rightarrow> nat \<Rightarrow> bool" where
  "known_peer s w p \<longleftrightarrow> net_rid w p \<noteq> [] \<and> length (net_rid w p) \<le> max_vsm_size \<and> map_option fst (lookup_out_pipe (net_rid w p) s) = Some p
     \<and> net_half w p = [] \<and> requests (net_body w) (net_queue w p) \<and> (\<forall>x \<in> set (net_queue w p). \<not> is_routing_id x)"


text \<open>Ends with pipes in both directions, and with routing ids.\<close>

definition peers_net :: "msg list list \<Rightarrow> net" where
  "peers_net qs = \<lparr>n_pipes = (\<lambda>p. map_option (\<lambda>e. e\<lparr>router_socket_routing_id := [1, of_nat p]\<rparr>) (n_pipes (net_of qs) p)),
     n_world = (n_world (net_of qs))\<lparr>pw_upipes := (\<lambda>a. Some (Normal (if a < length qs then loaded (qs ! a) else pq_new)))\<rparr>\<rparr>"

lemma peers_net:
  assumes "\<forall>ms \<in> set qs. complete ms \<and> (\<forall>m \<in> set ms. \<not> is_delimiter m \<and> \<not> is_credential m)"
  shows "duplex_inv (peers_net qs)" "net_queue (peers_net qs) p = (if p < length qs then qs ! p else [])" "net_live (peers_net qs) = {..<length qs}"
    "net_acct others (peers_net qs) hs = net_acct others (net_of qs) hs" "net_body (peers_net qs) = net_body (net_of qs)"
    "p < length qs \<Longrightarrow> net_rid (peers_net qs) p = [1, of_nat p] \<and> net_half (peers_net qs) p = [] \<and> net_writable (peers_net qs) p"
proof -
  let ?w = "n_world (peers_net qs)"
  define e where "e = (\<lambda>p. (new_pipe p (p + length qs) 0 0 False)\<lparr>router_socket_routing_id := [1, of_nat p]\<rparr>)"
  have e: "n_pipes (peers_net qs) p = (if p < length qs then Some (e p) else None)" for p by (simp add: peers_net_def net_of_def e_def)
  have f: "in_pipe (e p) = Some p" "out_pipe (e p) = Some (p + length qs)" "pstate (e p) = active" "in_active (e p)" "readable (e p)" for p
    by (simp_all add: e_def new_pipe_def readable_def)
  have up: "get_up (Some a) ?w = Some (Normal (if a < length qs then loaded (qs ! a) else pq_new))" for a by (simp add: get_up_def peers_net_def)
  have nth: "complete (qs ! p) \<and> (\<forall>m \<in> set (qs ! p). \<not> is_delimiter m \<and> \<not> is_credential m)" if "p < length qs" for p using assms nth_mem [OF that] by blast
  have vis: "visible (loaded ms) = ms" "pq_ok (loaded ms)" "hist (loaded ms) = ms" for ms by (simp_all add: visible_def loaded_def pq_new_def pq_ok_def)
  have q: "end_queue (e p) ?w = qs ! p" if "p < length qs" for p
    using up [of p] that f nth [OF that] vis by (simp add: end_queue_def takeWhile_eq_all_conv)
  have "net_inv (peers_net qs)" unfolding net_inv_def e using f q up nth vis by (auto simp: end_ok_def split: if_splits)
  moreover have "net_out_inv (peers_net qs)" unfolding net_out_inv_def e
    using f up pq_ok_ops(1) by (auto simp: out_ok_def pq_new_def split: if_splits)
  moreover have "connected (peers_net qs)" unfolding connected_def e using f up nth vis by (auto split: if_splits)
  ultimately show "duplex_inv (peers_net qs)" by (simp add: duplex_inv_def)
  show qs: "net_queue (peers_net qs) p = (if p < length qs then qs ! p else [])" for p using q unfolding net_queue_def e by simp
  show "net_live (peers_net qs) = {..<length qs}" by (auto simp: net_live_def e split: if_splits)
  have "net_queue (peers_net qs) = net_queue (net_of qs)" using qs net_of_inv(2) [OF assms] by (simp add: fun_eq_iff)
  moreover have h: "net_heap (peers_net qs) = net_heap (net_of qs)" by (simp add: peers_net_def net_heap_def)
  ultimately show "net_acct others (peers_net qs) hs = net_acct others (net_of qs) hs" by (simp add: net_acct_def)
  show "net_body (peers_net qs) = net_body (net_of qs)" using h by (simp add: net_body_def fun_eq_iff)
  show "p < length qs \<Longrightarrow> net_rid (peers_net qs) p = [1, of_nat p] \<and> net_half (peers_net qs) p = [] \<and> net_writable (peers_net qs) p"
    using f up by (auto simp: net_rid_def net_half_def net_writable_def on_end_def e end_half_def pq_new_def e_def new_pipe_def check_write_def check_hwm_def)
qed

text \<open>One peer with a request behind a label of its own.\<close>

definition one_request :: "msg list list" where
  "one_request = [[text_msg 1 [5], text_msg 1 [], text_msg 0 [7]]]"

definition one_peer_rep :: rep where
  "one_peer_rep = (rep_new 9)\<lparr>rb_out_pipes := [([1, 0], 0, True)], ro_fq := \<lparr>fq_pipes = [0], fq_active = 1, fq_current = 0, fq_more = False\<rparr>\<rparr>"


subsection \<open>What goes wrong\<close>

text \<open>A peer whose pipe is full sends a message without the empty part, then another peer a request: the first is discarded, but \<^verbatim>\<open>rollback\<close> does not reset
  \<open>_more_out\<close> without a current pipe, so the labels of the request are taken for more parts of the discarded message and its reply is dropped.\<close>

definition full_end :: "nat \<Rightarrow> net \<Rightarrow> net" where
  "full_end p n = n\<lparr>n_pipes := (n_pipes n)(p := map_option (\<lambda>e. e\<lparr>out_active := False\<rparr>) (n_pipes n p))\<rparr>"

definition bad_and_good :: net where
  "bad_and_good = full_end 0 (peers_net [[text_msg 0 [7]], [text_msg 1 [], text_msg 0 [8]]])"

definition two_peer_rep :: rep where
  "two_peer_rep = (rep_new 9)\<lparr>rb_out_pipes := [([1, 0], 0, True), ([1, 1], 1, True)],
     ro_fq := \<lparr>fq_pipes = [0, 1], fq_active = 2, fq_current = 0, fq_more = False\<rparr>\<rparr>"

definition outcome :: "((errno + msg list) \<times> rep \<times> net) option \<Rightarrow> (msg list \<times> bool \<times> errno option list \<times> msg list) option" where
  "outcome r = do {
     (b, s1, w1) \<leftarrow> r;
     (rs, s2, w2) \<leftarrow> rep_reply (net_peers (\<lambda>_. None)) [text_msg 0 [9]] s1 w1;
     Some (projr b, net_writable w1 1, rs, net_sent w2 1)
   }"

lemma rep_loses_reply: "outcome (rep_request (net_peers (\<lambda>_. None)) two_peer_rep bad_and_good) = Some ([text_msg 0 [8]], True, [None], [])"
  by code_simp

text \<open>A reply socket takes the option \<^verbatim>\<open>ZMQ_ROUTER_MANDATORY\<close>; with it a request from a peer whose pipe is full fails the assertion on copying its labels.\<close>

lemma rep_mandatory_aborts:
  "Option.is_none (rep_recv (net_peers (\<lambda>_. None)) msg_init (two_peer_rep\<lparr>ro_mandatory := True\<rparr>) (full_end 0 (peers_net [[text_msg 1 [], text_msg 0 [8]], []])))"
  by code_simp

text \<open>A peer may take any routing id, also the next one that the router generates; then the router aborts when the next peer without an id arrives.\<close>

definition two_arrivals :: "msg list list \<Rightarrow> (router \<times> net) option" where
  "two_arrivals qs = do {
     (s1, w1) \<leftarrow> router_attach_pipe (net_peers (\<lambda>_. None)) 0 False (router_new 5) (peers_net qs);
     router_attach_pipe (net_peers (\<lambda>_. None)) 1 False s1 w1
   }"

lemma generated_id_aborts:
  "Option.is_none (two_arrivals [[text_msg 0 (integral_id 5)], [text_msg 0 []]])"
  "\<not> Option.is_none (two_arrivals [[text_msg 0 (integral_id 6)], [text_msg 0 []]])"
  by code_simp+

text \<open>With \<^verbatim>\<open>ZMQ_ROUTER_HANDOVER\<close> the old pipe of a routing id is entered again as active. When it was full and its message is being read, it is not shut
  down yet, and the next time it can be written \<^verbatim>\<open>xwrite_activated\<close> fails its assertion.\<close>

definition reading_router :: router where
  "reading_router = (router_new 5)\<lparr>rb_out_pipes := [([1, 0], 0, False)], ro_anonymous_pipes := {1}, ro_handover := True, ro_more_in := True,
     ro_current_in := Some 0, ro_fq := \<lparr>fq_pipes = [0], fq_active = 1, fq_current = 0, fq_more = True\<rparr>\<rparr>"

definition handed_over :: "(bool \<times> bool) option" where
  "handed_over = do {
     (s1, w1) \<leftarrow> router_read_activated (net_peers (\<lambda>_. None)) 1 reading_router (peers_net [[text_msg 0 [7]], [text_msg 0 [1, 0]]]);
     Some (Option.is_none (routing_write_activated 0 reading_router), Option.is_none (routing_write_activated 0 s1))
   }"

lemma handover_aborts: "handed_over = Some (False, True)"
  by code_simp

end
