(* ===== verification/Router_Facts.thy ===== *)
theory Router_Facts
  imports Rep_Net
begin

text \<open>
  Where a router sends a message: to the pipe that the first part names, whole, or nowhere.
\<close>

text \<open>Sending part after part until one is refused.\<close>

fun router_sends :: "'w peer_ops \<Rightarrow> msg list \<Rightarrow> 'a router_scheme \<Rightarrow> 'w \<Rightarrow> (errno option list \<times> 'a router_scheme \<times> 'w) option" where
  "router_sends ops [] s w = Some ([], s, w)"
| "router_sends ops (m # ms) s w = do {
     (r, s1, w1) \<leftarrow> router_send ops m s w;
     if r \<noteq> None then Some ([r], s1, w1)
     else do {
       (rs, s2, w2) \<leftarrow> router_sends ops ms s1 w1;
       Some (r # rs, s2, w2)
     }
   }"

text \<open>Between two messages, on a socket that is not raw and whose table names pipes that are there.\<close>

definition send_idle :: "nat set \<Rightarrow> 'a router_scheme \<Rightarrow> bool" where
  "send_idle ps s \<longleftrightarrow> \<not> ro_more_out s \<and> ro_current_out s = None \<and> \<not> ro_opt_raw_socket s \<and> \<not> ro_raw_socket s
     \<and> (\<forall>k p a. lookup_out_pipe k s = Some (p, a) \<longrightarrow> p \<in> ps)"

lemma same_routes_idle: "same_routes s s' \<Longrightarrow> (\<forall>k p a. lookup_out_pipe k s = Some (p, a) \<longrightarrow> p \<in> ps) \<Longrightarrow> lookup_out_pipe k s' = Some (p, a) \<Longrightarrow> p \<in> ps"
  unfolding same_routes_def by (metis (no_types, lifting) fst_conv map_option_eq_Some option.simps(9) surj_pair)

context duplex
begin

text \<open>The pipe a routing id leads to, when it can be written.\<close>

definition destination :: "bytes \<Rightarrow> 'a router_scheme \<Rightarrow> 'w \<Rightarrow> nat option" where
  "destination k s w = (case lookup_out_pipe k s of None \<Rightarrow> None | Some (p, a) \<Rightarrow> target w p)"

lemma router_address_any:
  fixes s :: "'a router_scheme"
  assumes "inv w" "acct w (i # hs)" "send_idle (live w) s" "has_more i"
  shows "\<exists>r s' w'. router_send pops i s w = Some (r, s', w') \<and> inv w' \<and> live w' = live w \<and> queue w' = queue w \<and> outs_same w w'
    \<and> same_routes s s' \<and> \<not> ro_opt_raw_socket s' \<and> \<not> ro_raw_socket s' \<and> ro_mandatory s' = ro_mandatory s \<and>
    (if destination (body w i) s w = None \<and> ro_mandatory s
     then r \<in> {Some EAGAIN, Some EHOSTUNREACH} \<and> (lookup_out_pipe (body w i) s = None \<longrightarrow> r = Some EHOSTUNREACH) \<and> acct w' (i # hs)
       \<and> \<not> ro_more_out s' \<and> ro_current_out s' = None
     else r = None \<and> acct w' hs \<and> ro_more_out s' \<and> ro_current_out s' = destination (body w i) s w)"
proof -
  note idle = assms(3) [unfolded send_idle_def]
  let ?k = "body w i" and ?s1 = "s\<lparr>ro_more_out := True\<rparr>"
  have k: "so_bytes (pe_sock pops) i w = Some ?k" by (rule bytes_acct [OF assms(2)])
  have look: "lookup_out_pipe ?k ?s1 = lookup_out_pipe ?k s" by (simp add: lookup_out_pipe_def)
  have close: "\<exists>w'. po_close (pe_pipe pops) i w1 = Some w' \<and> inv w' \<and> live w' = live w1 \<and> queue w' = queue w1 \<and> acct w' hs \<and> outs_same w1 w'"
    if c: "inv w1" "acct w1 (i # hs)" for w1
  proof -
    obtain w' where w': "po_close (pe_pipe pops) i w1 = Some w'" "inv w'" "live w' = live w1" "queue w' = queue w1" "acct w' hs"
      using close_acct [OF c] by blast
    with close_outs [OF c(1) w'(1)] show ?thesis by (auto simp: outs_def)
  qed
  show ?thesis
  proof (cases "lookup_out_pipe ?k s")
    case None
    then have d: "destination ?k s w = None" by (simp add: destination_def)
    show ?thesis
    proof (cases "ro_mandatory s")
      case True
      have "router_send pops i s w = Some (Some EHOSTUNREACH, ?s1\<lparr>ro_more_out := False\<rparr>, w)"
        using idle assms(4) k look None True by (simp add: router_send_def router_address_def)
      with d True idle assms(1,2) show ?thesis
        by (intro exI [of _ "Some EHOSTUNREACH"] exI [of _ "?s1\<lparr>ro_more_out := False\<rparr>"] exI [of _ w]) (simp add: same_routes_def lookup_out_pipe_def)
    next
      case False
      obtain w' where w': "po_close (pe_pipe pops) i w = Some w'" "inv w'" "live w' = live w" "queue w' = queue w" "acct w' hs" "outs_same w w'"
        using close [OF assms(1,2)] by blast
      then have "router_send pops i s w = Some (None, ?s1, w')"
        using idle assms(4) k look None False by (simp add: router_send_def router_address_def)
      with d False idle w' show ?thesis
        by (intro exI [of _ None] exI [of _ ?s1] exI [of _ w']) (simp add: same_routes_def lookup_out_pipe_def)
    qed
  next
    case (Some x)
    obtain p a where x: "lookup_out_pipe ?k s = Some (p, a)" using Some by (cases x) simp
    have p: "p \<in> live w" using idle x by blast
    have d: "destination ?k s w = target w p" by (simp add: destination_def x)
    obtain w1 where w1: "po_check_write (pe_pipe pops) p w = Some (writable w p, w1)" "inv w1" "live w1 = live w" "queue w1 = queue w" "acct w1 = acct w"
      "body w1 = body w" "sent w1 = sent w" "half w1 = half w" "writable w1 = writable w" "rid w1 = rid w"
      using check_write_law [OF assms(1) p] by blast
    have o1: "outs_same w w1" using w1 by (simp add: outs_def)
    have a1: "acct w1 (i # hs)" using assms(2) w1(5) by simp
    obtain b where b: "po_check_hwm (pe_pipe pops) p w1 = Some b" using check_hwm_total [OF w1(2)] p w1(3) by auto
    let ?full = "set_inactive ?k ?s1\<lparr>ro_current_out := None\<rparr>"
    have full: "same_routes s ?full" "ro_mandatory ?full = ro_mandatory s" "ro_opt_raw_socket ?full = ro_opt_raw_socket s" "ro_raw_socket ?full = ro_raw_socket s"
      "ro_more_out ?full" "same_routes s (?full\<lparr>ro_more_out := False\<rparr>)"
      by (simp_all add: set_inactive_def same_routes_def lookup_out_pipe_def map_entry_routes)
    show ?thesis
    proof (cases "\<not> writable w p \<and> ro_mandatory s")
      case True
      have "router_send pops i s w = Some (Some (if \<not> b then EAGAIN else EHOSTUNREACH), ?full\<lparr>ro_more_out := False\<rparr>, w1)"
        using idle assms(4) k look x w1(1) b True full(2) by (simp add: router_send_def router_address_def Let_def)
      with True d w1 o1 a1 full idle x show ?thesis
        by (intro exI [of _ "Some (if \<not> b then EAGAIN else EHOSTUNREACH)"] exI [of _ "?full\<lparr>ro_more_out := False\<rparr>"] exI [of _ w1]) (simp add: target_def)
    next
      case False
      obtain w' where w': "po_close (pe_pipe pops) i w1 = Some w'" "inv w'" "live w' = live w1" "queue w' = queue w1" "acct w' hs" "outs_same w1 w'"
        using close [OF w1(2) a1] by blast
      let ?s = "if writable w p then ?s1\<lparr>ro_current_out := Some p\<rparr> else ?full"
      have run: "router_send pops i s w = Some (None, ?s, w')"
        using idle assms(4) k look x w1(1) b False full(2) w'(1)
        by (cases "writable w p") (simp_all add: router_send_def router_address_def Let_def)
      have "same_routes s ?s" "ro_mandatory ?s = ro_mandatory s" "ro_opt_raw_socket ?s = ro_opt_raw_socket s" "ro_raw_socket ?s = ro_raw_socket s"
        "ro_more_out ?s" "ro_current_out ?s = target w p"
        using full by (auto simp: same_routes_def lookup_out_pipe_def target_def)
      with run False d w1(3,4) w' idle outs_trans [OF o1 w'(6)] show ?thesis
        by (intro exI [of _ None] exI [of _ ?s] exI [of _ w']) (simp add: target_def split: if_splits)
    qed
  qed
qed

text \<open>The parts behind the address.\<close>

lemma router_sends_rest:
  assumes "inv w" "acct w (ms @ z # hs)" "ro_more_out s" "\<not> ro_opt_raw_socket s" "\<not> ro_raw_socket s" "ro_current_out s = tg"
    and "tg \<noteq> None \<Longrightarrow> tg = Some p \<and> p \<in> live w \<and> writable w p" "\<forall>x \<in> set ms. has_more x" "\<not> has_more z"
  shows "\<exists>w'. router_sends pops (ms @ [z]) s w = Some (replicate (length ms + 1) None, s\<lparr>ro_more_out := False, ro_current_out := None\<rparr>, w')
    \<and> inv w' \<and> live w' = live w \<and> queue w' = queue w \<and> half w' = (if tg = None then half w else (half w)(p := []))
    \<and> sent w' = (if tg = None then sent w else (sent w)(p := sent w p @ half w p @ ms @ [z]))"
  using assms
proof (induction ms arbitrary: s w hs)
  case Nil
  obtain w' where "router_send pops z s w = Some (None, s\<lparr>ro_more_out := False, ro_current_out := None\<rparr>, w')"
    "inv w'" "live w' = live w" "queue w' = queue w" "half w' = (if tg = None then half w else (half w)(p := []))"
    "sent w' = (if tg = None then sent w else (sent w)(p := sent w p @ half w p @ [z]))"
    using router_send_next [of w z hs s tg p] Nil.prems by auto
  then show ?case by simp
next
  case (Cons m ms)
  let ?hs = "ms @ z # hs"
  have a: "acct w (m # ?hs)" using Cons.prems(2) by simp
  obtain w1 where w1: "router_send pops m s w = Some (None, s\<lparr>ro_more_out := True, ro_current_out := tg\<rparr>, w1)"
    "inv w1" "live w1 = live w" "queue w1 = queue w" "acct w1 (if tg = None then ?hs else m # ?hs)" "tg \<noteq> None \<longrightarrow> writable w1 p"
    "half w1 = (if tg = None then half w else (half w)(p := half w p @ [m]))" "sent w1 = sent w"
    using router_send_next [OF Cons.prems(1) a Cons.prems(3-7)] Cons.prems(8) by auto
  have s1: "s\<lparr>ro_more_out := True, ro_current_out := tg\<rparr> = s" using Cons.prems(3,6) by simp
  have "acct w1 (ms @ z # m # hs)" if "tg \<noteq> None"
    using w1(5) [unfolded if_not_P [OF that]] by (rule reorder_acct) simp
  then obtain hs' where a1: "acct w1 (ms @ z # hs')" using w1(5) by (cases "tg = None") auto
  have tg: "tg \<noteq> None \<Longrightarrow> tg = Some p \<and> p \<in> live w1 \<and> writable w1 p" using Cons.prems(7) w1(3,6) by simp
  obtain w' where "router_sends pops (ms @ [z]) s w1 = Some (replicate (length ms + 1) None, s\<lparr>ro_more_out := False, ro_current_out := None\<rparr>, w')"
    "inv w'" "live w' = live w1" "queue w' = queue w1" "half w' = (if tg = None then half w1 else (half w1)(p := []))"
    "sent w' = (if tg = None then sent w1 else (sent w1)(p := sent w1 p @ half w1 p @ ms @ [z]))"
    using Cons.IH [OF w1(2) a1 Cons.prems(3-6) tg] Cons.prems(8,9) by auto
  with w1 s1 show ?case by auto
qed

lemma router_sends_message:
  fixes s :: "'a router_scheme"
  assumes "inv w" "acct w (i # ms @ hs)" "send_idle (live w) s" "has_more i" "whole (q, ms)" "half w = (\<lambda>_. [])"
  shows "\<exists>rs s' w'. router_sends pops (i # ms) s w = Some (rs, s', w') \<and> inv w' \<and> send_idle (live w') s' \<and> same_routes s s' \<and> queue w' = queue w
    \<and> half w' = (\<lambda>_. []) \<and>
    (case destination (body w i) s w of
       Some p \<Rightarrow> rs = replicate (length ms + 1) None \<and> sent w' = (sent w)(p := sent w p @ ms)
     | None \<Rightarrow> sent w' = sent w \<and>
         (if ro_mandatory s then rs \<in> {[Some EAGAIN], [Some EHOSTUNREACH]} \<and> (lookup_out_pipe (body w i) s = None \<longrightarrow> rs = [Some EHOSTUNREACH])
          else rs = replicate (length ms + 1) None))"
proof -
  let ?d = "destination (body w i) s w"
  obtain r s1 w1 where a: "router_send pops i s w = Some (r, s1, w1)" "inv w1" "live w1 = live w" "queue w1 = queue w" "outs_same w w1"
    "same_routes s s1" "\<not> ro_opt_raw_socket s1" "\<not> ro_raw_socket s1" "ro_mandatory s1 = ro_mandatory s"
    "if ?d = None \<and> ro_mandatory s
     then r \<in> {Some EAGAIN, Some EHOSTUNREACH} \<and> (lookup_out_pipe (body w i) s = None \<longrightarrow> r = Some EHOSTUNREACH) \<and> acct w1 (i # ms @ hs)
       \<and> \<not> ro_more_out s1 \<and> ro_current_out s1 = None
     else r = None \<and> acct w1 (ms @ hs) \<and> ro_more_out s1 \<and> ro_current_out s1 = ?d"
    using router_address_any [OF assms(1-4)] by blast
  have table: "\<forall>k p a. lookup_out_pipe k s1 = Some (p, a) \<longrightarrow> p \<in> live w"
    using same_routes_idle [OF a(6), of "live w"] assms(3) unfolding send_idle_def by blast
  show ?thesis
  proof (cases "?d = None \<and> ro_mandatory s")
    case True
    note t = a(10) [unfolded if_P [OF True]]
    then have "router_sends pops (i # ms) s w = Some ([r], s1, w1)" using a(1) by auto
    moreover have "send_idle (live w1) s1" using t a(3,7,8) table by (simp add: send_idle_def)
    ultimately show ?thesis using True t a(2-6) assms(6) by (intro exI [of _ "[r]"] exI [of _ s1] exI [of _ w1]) (auto simp: outs_def)
  next
    case False
    note t = a(10) [unfolded if_not_P [OF False]]
    obtain us v where us: "ms = us @ [v]" "\<forall>x \<in> set us. has_more x" "\<not> has_more v"
      using assms(5) unfolding whole_def by (metis append_butlast_last_id snd_conv)
    have a1: "acct w1 (us @ v # hs)" using t us(1) by simp
    define p where "p = the ?d"
    have p: "?d = Some p \<and> p \<in> live w1 \<and> writable w1 p" if "?d \<noteq> None"
      using that assms(3) a(3,5) by (auto simp: p_def destination_def target_def send_idle_def outs_def split: option.splits if_splits)
    have d1: "ro_current_out s1 = ?d" "ro_more_out s1" using t by simp_all
    obtain w' where w': "router_sends pops (us @ [v]) s1 w1 = Some (replicate (length us + 1) None, s1\<lparr>ro_more_out := False, ro_current_out := None\<rparr>, w')"
      "inv w'" "live w' = live w1" "queue w' = queue w1" "half w' = (if ?d = None then half w1 else (half w1)(p := []))"
      "sent w' = (if ?d = None then sent w1 else (sent w1)(p := sent w1 p @ half w1 p @ us @ [v]))"
      using router_sends_rest [OF a(2) a1 d1(2) a(7,8) d1(1) p us(2,3)] by blast
    let ?s = "s1\<lparr>ro_more_out := False, ro_current_out := None\<rparr>"
    have "router_sends pops (i # ms) s w = Some (None # replicate (length us + 1) None, ?s, w')" using a(1) t w'(1) us(1) by simp
    moreover have "send_idle (live w') ?s" using table w'(3) a(3,7,8) by (simp add: send_idle_def lookup_out_pipe_def)
    moreover have "same_routes s ?s" using a(6) by (simp add: same_routes_def lookup_out_pipe_def)
    moreover have "half w' = (\<lambda>_. [])" using w'(5) a(5) assms(6) by (auto simp: outs_def fun_upd_idem)
    moreover have "sent w' = (case ?d of None \<Rightarrow> sent w | Some p \<Rightarrow> (sent w)(p := sent w p @ ms))"
      using w'(6) a(5) assms(6) us(1) by (auto simp: outs_def p_def split: option.split)
    ultimately show ?thesis using False w'(2,4) a(4) us(1)
      by (intro exI [of _ "None # replicate (length us + 1) None"] exI [of _ ?s] exI [of _ w']) (auto split: option.split)
  qed
qed

end

text \<open>C13: routing. A router socket that is between two messages sends a message, given as the routing id of a peer and its parts, whole and once to the pipe that has
  that routing id, when that pipe can be written, and to no other pipe. Otherwise nothing is sent anywhere: the message is dropped and all calls succeed, or with
  ROUTER_MANDATORY the routing id is refused, with EHOSTUNREACH when no pipe has it, and the parts are not taken for a message. In every case the socket is again
  between two messages with the same table and nothing half-written.\<close>

theorem router_delivers:
  assumes "duplex_inv w" "net_acct others w (i # ms @ hs)" "send_idle (net_live w) s" "has_more i" "whole (q, ms)" "net_half w = (\<lambda>_. [])"
  shows "\<exists>rs s' w'. router_sends (net_peers mal) (i # ms) s w = Some (rs, s', w') \<and> duplex_inv w' \<and> send_idle (net_live w') s' \<and> same_routes s s'
    \<and> net_queue w' = net_queue w \<and> net_half w' = (\<lambda>_. []) \<and>
    (case lookup_out_pipe (net_body w i) s of
       Some (p, a) \<Rightarrow>
         if net_writable w p then rs = replicate (length ms + 1) None \<and> net_sent w' = (net_sent w)(p := net_sent w p @ ms)
         else net_sent w' = net_sent w \<and> (if ro_mandatory s then rs \<in> {[Some EAGAIN], [Some EHOSTUNREACH]} else rs = replicate (length ms + 1) None)
     | None \<Rightarrow> net_sent w' = net_sent w \<and> rs = (if ro_mandatory s then [Some EHOSTUNREACH] else replicate (length ms + 1) None))"
proof -
  obtain rs s' w' where r: "router_sends (net_peers mal) (i # ms) s w = Some (rs, s', w')" "duplex_inv w'" "send_idle (net_live w') s'" "same_routes s s'"
    "net_queue w' = net_queue w" "net_half w' = (\<lambda>_. [])"
    "case net_duplex.destination (net_body w i) s w of
       Some p \<Rightarrow> rs = replicate (length ms + 1) None \<and> net_sent w' = (net_sent w)(p := net_sent w p @ ms)
     | None \<Rightarrow> net_sent w' = net_sent w \<and>
         (if ro_mandatory s then rs \<in> {[Some EAGAIN], [Some EHOSTUNREACH]} \<and> (lookup_out_pipe (net_body w i) s = None \<longrightarrow> rs = [Some EHOSTUNREACH])
          else rs = replicate (length ms + 1) None)"
    using net_duplex.router_sends_message [OF assms] by blast
  show ?thesis
  proof (cases "lookup_out_pipe (net_body w i) s")
    case None
    with r show ?thesis
      by (intro exI [of _ rs] exI [of _ s'] exI [of _ w']) (simp add: net_duplex.destination_def del: router_sends.simps split: if_splits)
  next
    case (Some x)
    obtain p a where "x = (p, a)" by (cases x)
    with r Some show ?thesis
      by (intro exI [of _ rs] exI [of _ s'] exI [of _ w'])
        (simp add: net_duplex.destination_def net_duplex.target_def del: router_sends.simps split: if_splits)
  qed
qed

theorem router_delivers_witness:
  "\<exists>rs s' w'. router_sends (net_peers (\<lambda>_. None)) [text_msg 1 [1, 0], text_msg 0 [7]]
       ((router_new 5)\<lparr>rb_out_pipes := [([1, 0], 0, True)]\<rparr>) (peers_net [[]]) = Some (rs, s', w')
     \<and> net_sent w' 0 = net_sent (peers_net [[]]) 0 @ [text_msg 0 [7]]"
proof -
  let ?w = "peers_net [[]]" and ?s = "(router_new 5)\<lparr>rb_out_pipes := [([1, 0], 0, True)]\<rparr>"
  have ok: "\<forall>ms \<in> set [[]]. complete ms \<and> (\<forall>m \<in> set ms. \<not> is_delimiter m \<and> \<not> is_credential m)" by (simp add: complete_def)
  note net = peers_net [OF ok]
  have a: "net_acct [] ?w (text_msg 1 [1, 0] # [text_msg 0 [7]] @ [])" unfolding net(4) by (rule net_of_acct [OF ok]) simp_all
  have "net_half ?w p = []" for p using net(6) [of p] by (cases "p = 0") (simp_all add: net_half_def on_end_def peers_net_def net_of_def)
  then have h: "net_half ?w = (\<lambda>_. [])" by (simp add: fun_eq_iff)
  have s: "send_idle (net_live ?w) ?s" using net(3) by (simp add: send_idle_def router_new_def lookup_out_pipe_def split: if_splits)
  have b: "net_body ?w (text_msg 1 [1, 0]) = [1, 0]"
    by (simp add: net(5) net_body_def text_msg_def fresh_msg_def msg_bytes_def msg_data_def msg_size_def)
  have m: "has_more (text_msg 1 [1, 0])" "whole (0, [text_msg 0 [7]])" by (simp_all add: whole_def)
  have l: "lookup_out_pipe (net_body ?w (text_msg 1 [1, 0])) ?s = Some (0, True)" by (simp add: b lookup_out_pipe_def)
  have wr: "net_writable ?w 0" using net(6) [of 0] by simp
  show ?thesis using router_delivers [OF net(1) a s m h, of "\<lambda>_. None"] unfolding l option.case prod.case if_P [OF wr] by auto
qed

end
