(* ===== verification/Spec2Isabelle.thy ===== *)
theory Spec2Isabelle
  imports Trie Bridge_Trace Pipe Capi Codec_Roundtrip Mtrie_Topics Xsub Pipe_Term Options_Facts Xpub_Send Req_Reply Router_Facts
begin

text \<open>
  ZMQBridge: a C++ wrapper for interprocess messaging (\<^verbatim>\<open>include/prj1.h\<close>,
  \<^verbatim>\<open>src/prj1.cpp\<close>) with the libzmq sources it is built on
  (\<^verbatim>\<open>lib/zeromq/src\<close>).
\<close>

end
